(* ===== verification/Prelude.thy ===== *)
theory Prelude
  imports Main "HOL-Library.Word" "HOL-Library.Monad_Syntax"
begin

text \<open>
  Shared vocabulary of the development: the machine types of
  \<open>src/model/model/src/top_header/common.h\<close>, its small arithmetic helpers and
  exception codes, checked array accesses, and the deferred-request idiom that every
  stateful component of the model uses (a queue of requests filled during a cycle and
  replayed by \<open>sync()\<close> at its end).

  Conventions used by every theory:
  \<^item> data, addresses and program counters are machine words (\<open>u8\<close>, \<open>u16\<close>,
    \<open>u32\<close>, \<open>u64\<close>) with the source's wrap-around;
  \<^item> identifiers of ring slots and registers (at most 256 of them, although the source
    stores them in \<open>uint32_t\<close>) are \<open>nat\<close>;
  \<^item> \<open>None\<close> is the abnormal end of the program: a failed \<open>assert\<close> (which prints
    and calls \<open>abort\<close>) or an array access outside its bounds.
\<close>

unbundle bit_operations_syntax

type_synonym u8 = "8 word"
type_synonym u16 = "16 word"
type_synonym u32 = "32 word"
type_synonym u64 = "64 word"

named_theorems ring_simps \<open>facts about ring buffers and their element lists\<close>
named_theorems req_simps \<open>unfolding of deferred-request handlers\<close>

section \<open>Bits of words\<close>

lemma u32_eq_bits: "(x :: u32) = y \<longleftrightarrow> (\<forall>j. bit x j = bit y j)"
  by (auto intro: bit_word_eqI)

lemma bit_mask32: "bit (mask k :: u32) i \<longleftrightarrow> i < 32 \<and> i < k"
  by (auto simp: bit_mask_iff)

lemma u32_bit_lt: "bit (x :: u32) j \<Longrightarrow> j < 32"
  by (drule bit_imp_le_length) simp

section \<open>Abnormal ends and array accesses\<close>

definition cassert :: "bool \<Rightarrow> unit option" where
  "cassert b = (if b then Some () else None)"

definition array_get :: "'a list \<Rightarrow> nat \<Rightarrow> 'a option" where
  "array_get xs i = (if i < length xs then Some (xs ! i) else None)"

definition array_set :: "'a list \<Rightarrow> nat \<Rightarrow> 'a \<Rightarrow> 'a list option" where
  "array_set xs i v = (if i < length xs then Some (xs[i := v]) else None)"

lemma cassert_simps [simp]:
  "cassert True = Some ()"
  "cassert False = None"
  "cassert b = None \<longleftrightarrow> \<not> b"
  "cassert b = Some u \<longleftrightarrow> b"
  "b \<Longrightarrow> cassert b = Some ()"
  by (auto simp: cassert_def)

lemma cassert_bind [simp]:
  "Option.bind (cassert b) f = Some y \<longleftrightarrow> b \<and> f () = Some y"
  "Option.bind (cassert b) f = None \<longleftrightarrow> (b \<longrightarrow> f () = None)"
  by (auto simp: cassert_def)

lemma array_get_Some [simp]: "array_get xs i = Some x \<longleftrightarrow> i < length xs \<and> x = xs ! i"
  by (auto simp: array_get_def)

lemma array_get_None [simp]: "array_get xs i = None \<longleftrightarrow> length xs \<le> i"
  by (auto simp: array_get_def)

lemma array_set_Some [simp]:
  "array_set xs i v = Some ys \<longleftrightarrow> i < length xs \<and> ys = xs[i := v]"
  by (auto simp: array_set_def)

lemma array_set_None [simp]: "array_set xs i v = None \<longleftrightarrow> length xs \<le> i"
  by (auto simp: array_set_def)

lemma array_in [simp]:
  "i < length xs \<Longrightarrow> array_get xs i = Some (xs ! i)"
  "i < length xs \<Longrightarrow> array_set xs i v = Some (xs[i := v])"
  by (simp_all add: array_get_def array_set_def)

section \<open>Loops that may abort\<close>

fun fold_opt :: "('a \<Rightarrow> 's \<Rightarrow> 's option) \<Rightarrow> 'a list \<Rightarrow> 's \<Rightarrow> 's option" where
  "fold_opt f [] s = Some s"
| "fold_opt f (x # xs) s = do { t \<leftarrow> f x s; fold_opt f xs t }"

lemma fold_opt_append:
  "fold_opt f (xs @ ys) s = do { t \<leftarrow> fold_opt f xs s; fold_opt f ys t }"
  by (induction xs arbitrary: s) (auto split: bind_splits)

lemma fold_opt_invariant:
  assumes step: "\<And>x s t. x \<in> set xs \<Longrightarrow> P s \<Longrightarrow> f x s = Some t \<Longrightarrow> P t"
    and "P s" "fold_opt f xs s = Some t"
  shows "P t"
  using assms
proof (induction xs arbitrary: s)
  case (Cons x xs)
  then obtain r where r: "f x s = Some r" "fold_opt f xs r = Some t"
    by (auto simp: bind_eq_Some_conv)
  with Cons.prems have "P r" by (meson list.set_intros(1))
  with Cons r show ?case by (meson list.set_intros(2))
qed simp

lemma fold_opt_total:
  assumes step: "\<And>x s. x \<in> set xs \<Longrightarrow> P s \<Longrightarrow> \<exists>t. f x s = Some t \<and> P t"
    and "P s"
  shows "\<exists>t. fold_opt f xs s = Some t \<and> P t"
  using assms
proof (induction xs arbitrary: s)
  case (Cons x xs)
  then obtain t where "f x s = Some t" "P t" by (metis list.set_intros(1))
  with Cons show ?case by simp
qed simp

text \<open>The scanning loop \<open>for(i = 0;i < n;i++) if(c(i)) { out = i; cnt++; }\<close> whose condition may
  abort.\<close>

lemma fold_opt_scan:
  assumes "\<And>i. i \<in> set xs \<Longrightarrow> c i = Some (P i)"
  shows "fold_opt (\<lambda>i (cnt, out). do { b \<leftarrow> c i; Some (if b then (cnt + 1, i) else (cnt, out)) }) xs (k, out)
    = Some (k + length (filter P xs), last (out # filter P xs))"
  using assms by (induction xs arbitrary: k out) auto

lemma filter_unique:
  assumes "distinct xs" "\<And>x y. x \<in> set xs \<Longrightarrow> y \<in> set xs \<Longrightarrow> P x \<Longrightarrow> P y \<Longrightarrow> x = y"
  shows "filter P xs = [] \<or> (\<exists>x. filter P xs = [x])"
proof -
  have "\<forall>x \<in> set (filter P xs). \<forall>y \<in> set (filter P xs). x = y" using assms(2) by auto
  then have "card (set (filter P xs)) \<le> 1" by (simp add: card_le_Suc0_iff_eq)
  then have "length (filter P xs) \<le> 1"
    using distinct_card [OF distinct_filter [OF assms(1), of P]] by linarith
  then show ?thesis by (cases "filter P xs") auto
qed

text \<open>\<open>memcpy\<close> of the first \<open>n\<close> elements between two arrays.\<close>

definition memcpy_arr :: "nat \<Rightarrow> 'a list \<Rightarrow> 'a list \<Rightarrow> 'a list option" where
  "memcpy_arr n dst src =
     (if n \<le> length dst \<and> n \<le> length src then Some (take n src @ drop n dst) else None)"

lemma memcpy_arr_same:
  "length dst = n \<Longrightarrow> length src = n \<Longrightarrow> memcpy_arr n dst src = Some src"
  by (simp add: memcpy_arr_def)

section \<open>Replaying deferred requests\<close>

text \<open>Every component with a \<open>sync_request_q\<close> records requests during the cycle and replays them in
  order in \<open>sync()\<close>: \<open>while(!q.empty()) { r = q.front(); q.pop(); switch(r.req) ... }\<close>.  No
  handler adds to the queue, so the loop is a fold over its content.  The contract below is what a
  component promises of its handlers; \<open>ok\<close> describes the requests for which it holds.\<close>

locale deferred =
  fixes apply_req :: "'r \<Rightarrow> 's \<Rightarrow> 's option"
    and inv :: "'s \<Rightarrow> bool"
    and ok :: "'r \<Rightarrow> bool"
  assumes preserves: "inv s \<Longrightarrow> ok r \<Longrightarrow> apply_req r s = Some t \<Longrightarrow> inv t"
begin

lemma replay_preserves:
  assumes "inv s" "\<forall>r \<in> set rs. ok r" "fold_opt apply_req rs s = Some t"
  shows "inv t"
  by (rule fold_opt_invariant [of rs inv apply_req s t])
    (use assms preserves in \<open>blast+\<close>)

end

text \<open>Components none of whose handlers can abort on a well-formed state.\<close>

locale deferred_total = deferred +
  assumes progress: "inv s \<Longrightarrow> ok r \<Longrightarrow> \<exists>t. apply_req r s = Some t"
begin

lemma replay_total:
  assumes "inv s" "\<forall>r \<in> set rs. ok r"
  shows "\<exists>t. fold_opt apply_req rs s = Some t \<and> inv t"
  by (rule fold_opt_total) (use assms preserves progress in \<open>blast+\<close>)

end

section \<open>Helpers of common.h\<close>

datatype riscv_exception_t =
    instruction_address_misaligned
  | instruction_access_fault
  | illegal_instruction
  | breakpoint
  | load_address_misaligned
  | load_access_fault
  | store_amo_address_misaligned
  | store_amo_access_fault
  | environment_call_from_u_mode
  | environment_call_from_s_mode
  | reserved_10
  | environment_call_from_m_mode
  | instruction_page_fault
  | load_page_fault
  | reserved_14
  | store_amo_page_fault

datatype riscv_interrupt_t =
    user_software
  | supervisor_software
  | reserved_software
  | machine_software
  | user_timer
  | supervisor_timer
  | reserved_timer
  | machine_timer
  | user_external
  | supervisor_external
  | reserved_external
  | machine_external

fun exception_code :: "riscv_exception_t \<Rightarrow> u32" where
  "exception_code instruction_address_misaligned = 0"
| "exception_code instruction_access_fault = 1"
| "exception_code illegal_instruction = 2"
| "exception_code breakpoint = 3"
| "exception_code load_address_misaligned = 4"
| "exception_code load_access_fault = 5"
| "exception_code store_amo_address_misaligned = 6"
| "exception_code store_amo_access_fault = 7"
| "exception_code environment_call_from_u_mode = 8"
| "exception_code environment_call_from_s_mode = 9"
| "exception_code reserved_10 = 10"
| "exception_code environment_call_from_m_mode = 11"
| "exception_code instruction_page_fault = 12"
| "exception_code load_page_fault = 13"
| "exception_code reserved_14 = 14"
| "exception_code store_amo_page_fault = 15"

fun interrupt_code :: "riscv_interrupt_t \<Rightarrow> u32" where
  "interrupt_code user_software = 0"
| "interrupt_code supervisor_software = 1"
| "interrupt_code reserved_software = 2"
| "interrupt_code machine_software = 3"
| "interrupt_code user_timer = 4"
| "interrupt_code supervisor_timer = 5"
| "interrupt_code reserved_timer = 6"
| "interrupt_code machine_timer = 7"
| "interrupt_code user_external = 8"
| "interrupt_code supervisor_external = 9"
| "interrupt_code reserved_external = 10"
| "interrupt_code machine_external = 11"

definition is_align :: "u32 \<Rightarrow> u32 \<Rightarrow> bool" where
  "is_align x access_size = (x AND (access_size - 1) = 0)"

definition sign_extend :: "u32 \<Rightarrow> nat \<Rightarrow> u32 option" where
  "sign_extend imm imm_length = do {
     cassert (imm_length > 0 \<and> imm_length < 32);
     let sign_bit = drop_bit (imm_length - 1) imm;
     Some ((if sign_bit = 0 then 0
            else push_bit imm_length (push_bit (32 - imm_length) sign_bit - 1)) OR imm)
   }"

lemma sign_extend_signed:
  assumes "0 < n" "n < 32" "take_bit n x = x"
  shows "sign_extend x n = Some (signed_take_bit (n - 1) x)"
proof -
  have hi: "bit x j \<Longrightarrow> j < n" for j using assms(3) by (metis bit_take_bit_iff)
  have sb: "drop_bit (n - 1) x = (if bit x (n - 1) then 1 else 0)"
  proof (rule bit_word_eqI)
    fix j assume "j < LENGTH(32)"
    show "bit (drop_bit (n - 1) x) j = bit (if bit x (n - 1) then 1 else 0 :: u32) j"
    proof (cases j)
      case (Suc i)
      then have "\<not> bit x (n - 1 + j)" using hi [of "n - 1 + j"] assms(1) by auto
      with Suc show ?thesis by (simp add: bit_drop_bit_eq)
    qed (simp add: bit_drop_bit_eq)
  qed
  have m: "2 ^ (32 - n) - 1 = (mask (32 - n) :: u32)"
    by (simp add: mask_eq_exp_minus_1)
  have "bit ((if drop_bit (n - 1) x = 0 then 0 else push_bit n (push_bit (32 - n) (drop_bit (n - 1) x) - 1)) OR x) j
      = bit (signed_take_bit (n - 1) x) j" if "j < 32" for j
  proof (cases "j < n")
    case True
    then have "min (n - 1) j = j" by simp
    with True that show ?thesis
      by (simp add: sb [unfolded One_nat_def] m bit_or_iff bit_push_bit_iff bit_mask32 bit_signed_take_bit_iff)
  next
    case False
    then have "min (n - 1) j = n - 1" "\<not> bit x j" using hi [of j] by auto
    moreover have "j - n < 32 - n" using that False assms(2) by simp
    ultimately show ?thesis
      using False that by (auto simp: sb [unfolded One_nat_def] m bit_or_iff bit_push_bit_iff bit_mask32 bit_signed_take_bit_iff)
  qed
  then have "(if drop_bit (n - 1) x = 0 then 0 else push_bit n (push_bit (32 - n) (drop_bit (n - 1) x) - 1)) OR x
      = signed_take_bit (n - 1) x" by (intro bit_word_eqI) simp
  moreover have "cassert (0 < n \<and> n < 32) = Some ()" using assms(1,2) by simp
  ultimately show ?thesis unfolding sign_extend_def Let_def by (simp only: bind.simps)
qed

end
