(* ===== verification/Fifo.thy ===== *)
theory Fifo
  imports Prelude
begin

text \<open>
  The ring buffer \<open>component::fifo<T>\<close> of \<open>component/fifo.h\<close>: its state, its operations,
  its well-formedness invariant and the list of elements it holds.  The classes that inherit
  from it (\<open>rob\<close>, \<open>checkpoint_buffer\<close>, \<open>store_buffer\<close>) extend the record below, so
  every operation is polymorphic in the record's extension.  The locale \<open>ring_queue\<close> is the
  contract its clients rely on.
\<close>

section \<open>State and operations\<close>

record 'a fifo =
  buffer :: "'a list"
  qsize :: nat
  wptr :: nat
  wstage :: bool
  rptr :: nat
  rstage :: bool
  pop_status_save :: bool
  rptr_saved :: nat
  rstage_saved :: bool

text \<open>The constructor leaves the storage and the saved pointer uninitialised: \<open>junk\<close> is what
  \<open>new T[size]\<close> happens to hold, and the saved pointer is not read before it is set.\<close>

definition fifo_new :: "nat \<Rightarrow> 'a \<Rightarrow> 'a fifo" where
  "fifo_new n junk = \<lparr>buffer = replicate n junk, qsize = n, wptr = 0, wstage = False,
     rptr = 0, rstage = False, pop_status_save = False, rptr_saved = 0, rstage_saved = False\<rparr>"

definition fifo_reset :: "('a, 'z) fifo_scheme \<Rightarrow> ('a, 'z) fifo_scheme" where
  "fifo_reset f = f\<lparr>wptr := 0, wstage := False, rptr := 0, rstage := False\<rparr>"

definition fifo_flush :: "('a, 'z) fifo_scheme \<Rightarrow> ('a, 'z) fifo_scheme" where
  "fifo_flush f = f\<lparr>wptr := 0, wstage := False, rptr := 0, rstage := False\<rparr>"

definition fifo_is_empty :: "('a, 'z) fifo_scheme \<Rightarrow> bool" where
  "fifo_is_empty f = (rptr f = wptr f \<and> rstage f = wstage f)"

definition fifo_is_full :: "('a, 'z) fifo_scheme \<Rightarrow> bool" where
  "fifo_is_full f =
     (if pop_status_save f then rptr_saved f = wptr f \<and> rstage_saved f \<noteq> wstage f
      else rptr f = wptr f \<and> rstage f \<noteq> wstage f)"

definition fifo_push :: "'a \<Rightarrow> ('a, 'z) fifo_scheme \<Rightarrow> bool \<times> ('a, 'z) fifo_scheme" where
  "fifo_push x f =
     (if fifo_is_full f then (False, f)
      else let g = f\<lparr>buffer := (buffer f)[wptr f := x], wptr := wptr f + 1\<rparr> in
        (True, if wptr g \<ge> qsize g then g\<lparr>wptr := 0, wstage := \<not> wstage g\<rparr> else g))"

definition fifo_pop :: "('a, 'z) fifo_scheme \<Rightarrow> 'a option \<times> ('a, 'z) fifo_scheme" where
  "fifo_pop f =
     (if fifo_is_empty f then (None, f)
      else let x = buffer f ! rptr f; g = f\<lparr>rptr := rptr f + 1\<rparr> in
        (Some x, if rptr g \<ge> qsize g then g\<lparr>rptr := 0, rstage := \<not> rstage g\<rparr> else g))"

definition fifo_get_front :: "('a, 'z) fifo_scheme \<Rightarrow> 'a option" where
  "fifo_get_front f = (if fifo_is_empty f then None else Some (buffer f ! rptr f))"

definition fifo_get_tail :: "('a, 'z) fifo_scheme \<Rightarrow> 'a option" where
  "fifo_get_tail f =
     (if fifo_is_empty f then None else Some (buffer f ! ((wptr f + qsize f - 1) mod qsize f)))"

definition fifo_get_size :: "('a, 'z) fifo_scheme \<Rightarrow> nat" where
  "fifo_get_size f =
     (if fifo_is_full f then qsize f
      else if pop_status_save f then (wptr f + qsize f - rptr_saved f) mod qsize f
      else (wptr f + qsize f - rptr f) mod qsize f)"

definition fifo_get_remain_space :: "('a, 'z) fifo_scheme \<Rightarrow> nat" where
  "fifo_get_remain_space f = qsize f - fifo_get_size f"

definition fifo_reset_pop_status :: "('a, 'z) fifo_scheme \<Rightarrow> ('a, 'z) fifo_scheme" where
  "fifo_reset_pop_status f = f\<lparr>rptr_saved := rptr f, rstage_saved := rstage f\<rparr>"

definition fifo_set_pop_status_save :: "bool \<Rightarrow> ('a, 'z) fifo_scheme \<Rightarrow> ('a, 'z) fifo_scheme" where
  "fifo_set_pop_status_save v f = fifo_reset_pop_status (f\<lparr>pop_status_save := v\<rparr>)"

text \<open>\<open>get_json\<close> walks the buffer from the read pointer to the write pointer, with a
  \<open>while(1)\<close> that ends when both the index and the lap bit agree.  The walk below collects the
  visited elements; its fuel is the number of steps allowed and \<open>None\<close> means not finished.\<close>

fun fifo_walk :: "nat \<Rightarrow> nat \<Rightarrow> bool \<Rightarrow> ('a, 'z) fifo_scheme \<Rightarrow> (nat \<times> 'a) list option" where
  "fifo_walk 0 cur stage f = None"
| "fifo_walk (Suc fuel) cur stage f =
     (let item = (cur, buffer f ! cur);
          (cur', stage') = (if cur + 1 \<ge> qsize f then (0, \<not> stage) else (cur + 1, stage))
      in if cur' = wptr f \<and> stage' = wstage f then Some [item]
         else map_option (Cons item) (fifo_walk fuel cur' stage' f))"

definition fifo_get_json :: "('a \<Rightarrow> 'j) \<Rightarrow> ('a, 'z) fifo_scheme \<Rightarrow> 'j list option" where
  "fifo_get_json item_json f =
     (if fifo_is_empty f then Some []
      else map_option (map (item_json \<circ> snd)) (fifo_walk (qsize f) (rptr f) (rstage f) f))"

section \<open>Abstraction and invariant\<close>

text \<open>A position is an index and a lap bit.  From a reader position to the writer position the
  ring holds \<open>ring_count\<close> elements, \<open>ring_items\<close>; \<open>ring_ok\<close> says that the two positions
  are at most one lap apart.\<close>

definition ring_ok :: "nat \<Rightarrow> nat \<Rightarrow> bool \<Rightarrow> nat \<Rightarrow> bool \<Rightarrow> bool" where
  "ring_ok n w ws r rs = (w < n \<and> r < n \<and> (if ws = rs then r \<le> w else w \<le> r))"

definition ring_count :: "nat \<Rightarrow> nat \<Rightarrow> bool \<Rightarrow> nat \<Rightarrow> bool \<Rightarrow> nat" where
  "ring_count n w ws r rs = (if ws = rs then w - r else n + w - r)"

definition ring_items :: "'a list \<Rightarrow> nat \<Rightarrow> bool \<Rightarrow> nat \<Rightarrow> bool \<Rightarrow> 'a list" where
  "ring_items b w ws r rs = (if ws = rs then drop r (take w b) else drop r b @ take w b)"

definition fifo_items :: "('a, 'z) fifo_scheme \<Rightarrow> 'a list" where
  "fifo_items f = ring_items (buffer f) (wptr f) (wstage f) (rptr f) (rstage f)"

definition fifo_occupied :: "('a, 'z) fifo_scheme \<Rightarrow> nat" where
  "fifo_occupied f =
     (if pop_status_save f
      then ring_count (qsize f) (wptr f) (wstage f) (rptr_saved f) (rstage_saved f)
      else ring_count (qsize f) (wptr f) (wstage f) (rptr f) (rstage f))"

definition fifo_inv :: "('a, 'z) fifo_scheme \<Rightarrow> bool" where
  "fifo_inv f =
     (length (buffer f) = qsize f
      \<and> ring_ok (qsize f) (wptr f) (wstage f) (rptr f) (rstage f)
      \<and> (pop_status_save f \<longrightarrow>
           ring_ok (qsize f) (wptr f) (wstage f) (rptr_saved f) (rstage_saved f)
           \<and> ring_count (qsize f) (wptr f) (wstage f) (rptr f) (rstage f)
              \<le> ring_count (qsize f) (wptr f) (wstage f) (rptr_saved f) (rstage_saved f)))"

lemmas ring_defs = ring_ok_def ring_count_def ring_items_def

lemma length_ring_items [ring_simps]:
  assumes "ring_ok (length b) w ws r rs"
  shows "length (ring_items b w ws r rs) = ring_count (length b) w ws r rs"
  using assms by (auto simp: ring_defs)

lemma ring_count_le [ring_simps]: "ring_ok n w ws r rs \<Longrightarrow> ring_count n w ws r rs \<le> n"
  by (auto simp: ring_defs split: if_splits)

lemma ring_full_iff [ring_simps]:
  "ring_ok n w ws r rs \<Longrightarrow> (r = w \<and> rs \<noteq> ws) \<longleftrightarrow> ring_count n w ws r rs = n"
  by (auto simp: ring_defs split: if_splits)

lemma ring_empty_iff [ring_simps]:
  "ring_ok n w ws r rs \<Longrightarrow> (r = w \<and> rs = ws) \<longleftrightarrow> ring_count n w ws r rs = 0"
  by (auto simp: ring_defs split: if_splits)

lemma ring_size_eq [ring_simps]:
  assumes "ring_ok n w ws r rs"
  shows "(if r = w \<and> rs \<noteq> ws then n else (w + n - r) mod n) = ring_count n w ws r rs"
proof (cases "ws = rs")
  case True
  with assms have "w + n - r = (w - r) + n" "w - r < n" by (auto simp: ring_ok_def)
  then have "(w + n - r) mod n = w - r" by (metis mod_add_self2 mod_less)
  with True show ?thesis by (simp add: ring_count_def)
next
  case False
  show ?thesis
  proof (cases "r = w")
    case False
    with \<open>ws \<noteq> rs\<close> assms have "w + n - r < n" by (auto simp: ring_ok_def)
    with False \<open>ws \<noteq> rs\<close> show ?thesis by (simp add: ring_count_def add.commute)
  qed (use \<open>ws \<noteq> rs\<close> in \<open>auto simp: ring_count_def\<close>)
qed

text \<open>Advancing the writer or the reader by one slot.\<close>

definition ring_step :: "nat \<Rightarrow> nat \<Rightarrow> bool \<Rightarrow> nat \<times> bool" where
  "ring_step n p s = (if p + 1 \<ge> n then (0, \<not> s) else (p + 1, s))"

lemma ring_write_step:
  assumes "ring_ok n w ws r rs" "ring_count n w ws r rs < n" "ring_step n w ws = (w', ws')"
  shows "ring_ok n w' ws' r rs"
    and "ring_count n w' ws' r rs = Suc (ring_count n w ws r rs)"
  using assms by (auto simp: ring_defs ring_step_def split: if_splits)

lemma ring_read_step:
  assumes "ring_ok n w ws r rs" "0 < ring_count n w ws r rs" "ring_step n r rs = (r', rs')"
  shows "ring_ok n w ws r' rs'"
    and "ring_count n w ws r' rs' = ring_count n w ws r rs - 1"
  using assms by (auto simp: ring_defs ring_step_def split: if_splits)

definition id_span :: "nat \<Rightarrow> nat \<Rightarrow> bool \<Rightarrow> nat \<Rightarrow> bool \<Rightarrow> nat list" where
  "id_span n w ws r rs = (if ws = rs then [r..<w] else [r..<n] @ [0..<w])"

lemma ring_items_span:
  assumes "length b = n" "ring_ok n w ws r rs"
  shows "ring_items b w ws r rs = map (\<lambda>i. b ! i) (id_span n w ws r rs)"
proof -
  have "map (\<lambda>i. b ! i) [0..<w] = take w b" if "w \<le> length b" for w
    using that by (simp add: list_eq_iff_nth_eq)
  moreover have "map (\<lambda>i. b ! i) [r..<w] = drop r (take w b)" if "w \<le> length b" for w
    using that by (intro nth_equalityI) auto
  ultimately show ?thesis using assms by (auto simp: ring_items_def id_span_def ring_ok_def)
qed

lemma id_span_write:
  assumes "ring_ok n w ws r rs" "ring_count n w ws r rs < n" "ring_step n w ws = (w', ws')"
  shows "id_span n w' ws' r rs = id_span n w ws r rs @ [w]"
proof (cases "Suc w < n")
  case True
  then show ?thesis using assms by (auto simp: id_span_def ring_step_def ring_defs split: if_splits)
next
  case False
  with assms(1) have "n = Suc w" by (simp add: ring_ok_def)
  with assms show ?thesis by (auto simp: id_span_def ring_step_def ring_defs split: if_splits)
qed

lemma id_span_read:
  assumes "ring_ok n w ws r rs" "0 < ring_count n w ws r rs" "ring_step n r rs = (r', rs')"
  shows "id_span n w ws r rs = r # id_span n w ws r' rs'"
  using assms by (auto simp: id_span_def ring_step_def ring_defs upt_conv_Cons split: if_splits)

lemma ring_items_write:
  assumes "ring_ok n w ws r rs" "ring_count n w ws r rs < n" "ring_step n w ws = (w', ws')"
    and "length b = n"
  shows "ring_items (b[w := x]) w' ws' r rs = ring_items b w ws r rs @ [x]"
proof -
  have w: "take (Suc w) (b[w := x]) = take w b @ [x]"
    using assms by (simp add: ring_ok_def take_Suc_conv_app_nth)
  show ?thesis
  proof (cases "Suc w < n")
    case True
    then show ?thesis
      using assms w by (auto simp: ring_defs ring_step_def split: if_splits)
  next
    case False
    then have "w = n - 1" "w < n" using assms by (auto simp: ring_ok_def)
    then have all: "b[w := x] = take w b @ [x]" using w \<open>length b = n\<close> by simp
    show ?thesis
      using assms False \<open>w < n\<close> unfolding all
      by (auto simp: ring_defs ring_step_def split: if_splits)
  qed
qed

lemma ring_items_read:
  assumes "ring_ok n w ws r rs" "0 < ring_count n w ws r rs" "ring_step n r rs = (r', rs')"
    and "length b = n"
  shows "ring_items b w ws r rs = b ! r # ring_items b w ws r' rs'"
proof (cases "ws = rs")
  case True
  with assms have "r < w" "w < n" by (auto simp: ring_defs)
  then have "drop r (take w b) = b ! r # drop (Suc r) (take w b)"
    using assms by (subst Cons_nth_drop_Suc [symmetric]) auto
  then show ?thesis
    using assms True \<open>r < w\<close> \<open>w < n\<close> by (auto simp: ring_defs ring_step_def split: if_splits)
next
  case False
  with assms have "drop r b = b ! r # drop (Suc r) b"
    by (subst Cons_nth_drop_Suc [symmetric]) (auto simp: ring_defs)
  then show ?thesis
    using assms False by (auto simp: ring_defs ring_step_def split: if_splits)
qed

section \<open>What each operation does to the element list\<close>

lemma fifo_new_inv: "0 < n \<Longrightarrow> fifo_inv (fifo_new n junk)"
  by (simp add: fifo_inv_def fifo_new_def ring_ok_def)

lemma fifo_new_items: "fifo_items (fifo_new n junk) = []"
  by (simp add: fifo_items_def fifo_new_def ring_items_def)

lemma fifo_full_iff [ring_simps]:
  "fifo_inv f \<Longrightarrow> fifo_is_full f \<longleftrightarrow> fifo_occupied f = qsize f"
  using ring_full_iff [of "qsize f" "wptr f" "wstage f" "rptr f" "rstage f"]
    ring_full_iff [of "qsize f" "wptr f" "wstage f" "rptr_saved f" "rstage_saved f"]
  by (simp add: fifo_inv_def fifo_is_full_def fifo_occupied_def)

lemma fifo_size_eq [ring_simps]: "fifo_inv f \<Longrightarrow> fifo_get_size f = fifo_occupied f"
  using ring_size_eq [of "qsize f" "wptr f" "wstage f" "rptr f" "rstage f"]
    ring_size_eq [of "qsize f" "wptr f" "wstage f" "rptr_saved f" "rstage_saved f"]
  by (auto simp: fifo_inv_def fifo_get_size_def fifo_is_full_def fifo_occupied_def split: if_splits)

lemma fifo_length_items [ring_simps]:
  "fifo_inv f \<Longrightarrow>
     length (fifo_items f) = ring_count (qsize f) (wptr f) (wstage f) (rptr f) (rstage f)"
  by (metis fifo_inv_def fifo_items_def length_ring_items)

lemma fifo_empty_iff [ring_simps]: "fifo_inv f \<Longrightarrow> fifo_is_empty f \<longleftrightarrow> fifo_items f = []"
  using fifo_length_items [of f] ring_empty_iff [of "qsize f" "wptr f" "wstage f" "rptr f" "rstage f"]
  by (auto simp: fifo_inv_def fifo_is_empty_def)

lemma fifo_items_le_occupied [ring_simps]: "fifo_inv f \<Longrightarrow> length (fifo_items f) \<le> fifo_occupied f"
  by (auto simp: fifo_length_items fifo_occupied_def fifo_inv_def)

lemma fifo_occupied_le [ring_simps]: "fifo_inv f \<Longrightarrow> fifo_occupied f \<le> qsize f"
  by (auto simp: fifo_occupied_def fifo_inv_def ring_count_le)

lemma fifo_push_not_full:
  assumes "\<not> fifo_is_full f"
  shows "fifo_push x f = (True, f\<lparr>buffer := (buffer f)[wptr f := x],
           wptr := fst (ring_step (qsize f) (wptr f) (wstage f)),
           wstage := snd (ring_step (qsize f) (wptr f) (wstage f))\<rparr>)"
  using assms by (auto simp: fifo_push_def Let_def ring_step_def)

lemma fifo_pop_not_empty:
  assumes "\<not> fifo_is_empty f"
  shows "fifo_pop f = (Some (buffer f ! rptr f), f\<lparr>
           rptr := fst (ring_step (qsize f) (rptr f) (rstage f)),
           rstage := snd (ring_step (qsize f) (rptr f) (rstage f))\<rparr>)"
  using assms by (auto simp: fifo_pop_def Let_def ring_step_def)

lemma fifo_push_ok:
  assumes "fifo_inv f" "fifo_occupied f < qsize f" "fifo_push x f = (ok, g)"
  shows "ok" "fifo_inv g" "fifo_items g = fifo_items f @ [x]"
    "fifo_occupied g = Suc (fifo_occupied f)" "qsize g = qsize f"
proof -
  let ?n = "qsize f" and ?w = "wptr f" and ?ws = "wstage f"
  obtain w' ws' where st: "ring_step ?n ?w ?ws = (w', ws')" by (cases "ring_step ?n ?w ?ws")
  have r: "ring_ok ?n ?w ?ws (rptr f) (rstage f)" and len: "length (buffer f) = ?n"
    using assms(1) by (auto simp: fifo_inv_def)
  have room: "ring_count ?n ?w ?ws (rptr f) (rstage f) < ?n"
    using assms(1,2) fifo_items_le_occupied [OF assms(1)] by (simp add: fifo_length_items)
  have nf: "\<not> fifo_is_full f" using assms(1,2) by (simp add: fifo_full_iff)
  have g: "g = f\<lparr>buffer := (buffer f)[?w := x], wptr := w', wstage := ws'\<rparr>" and ok: "ok"
    using assms(3) nf by (auto simp: fifo_push_not_full st)
  note wr = ring_write_step [OF r room st]
  have sv: "pop_status_save f \<Longrightarrow>
      ring_ok ?n w' ws' (rptr_saved f) (rstage_saved f)
      \<and> ring_count ?n w' ws' (rptr_saved f) (rstage_saved f)
         = Suc (ring_count ?n ?w ?ws (rptr_saved f) (rstage_saved f))"
    using assms(1,2) ring_write_step [OF _ _ st, of "rptr_saved f" "rstage_saved f"]
    by (auto simp: fifo_inv_def fifo_occupied_def)
  show "ok" by (rule ok)
  show "fifo_inv g" using assms(1) wr sv len by (auto simp: g fifo_inv_def)
  show "fifo_items g = fifo_items f @ [x]"
    using ring_items_write [OF r room st len] by (simp add: g fifo_items_def)
  show "fifo_occupied g = Suc (fifo_occupied f)" using wr sv by (auto simp: g fifo_occupied_def)
  show "qsize g = qsize f" by (simp add: g)
qed

lemma fifo_push_full:
  assumes "fifo_inv f" "fifo_occupied f = qsize f"
  shows "fifo_push x f = (False, f)"
  using assms by (simp add: fifo_push_def fifo_full_iff)

lemma fifo_pop_ok:
  assumes "fifo_inv f" "fifo_items f = x # xs" "fifo_pop f = (y, g)"
  shows "y = Some x" "fifo_inv g" "fifo_items g = xs" "qsize g = qsize f"
    "fifo_occupied g = (if pop_status_save f then fifo_occupied f else fifo_occupied f - 1)"
proof -
  let ?n = "qsize f" and ?r = "rptr f" and ?rs = "rstage f"
  obtain r' rs' where st: "ring_step ?n ?r ?rs = (r', rs')" by (cases "ring_step ?n ?r ?rs")
  have r: "ring_ok ?n (wptr f) (wstage f) ?r ?rs" and len: "length (buffer f) = ?n"
    using assms(1) by (auto simp: fifo_inv_def)
  have pos: "0 < ring_count ?n (wptr f) (wstage f) ?r ?rs"
    using fifo_length_items [OF assms(1)] assms(2) by simp
  have ne: "\<not> fifo_is_empty f" using assms(1,2) by (simp add: fifo_empty_iff)
  have g: "g = f\<lparr>rptr := r', rstage := rs'\<rparr>" and y: "y = Some (buffer f ! ?r)"
    using assms(3) ne by (auto simp: fifo_pop_not_empty st)
  note rd = ring_read_step [OF r pos st] and it = ring_items_read [OF r pos st len]
  show "y = Some x" "fifo_items g = xs" using it assms(2) y by (auto simp: g fifo_items_def)
  show "fifo_inv g" using assms(1) rd len by (auto simp: g fifo_inv_def)
  show "qsize g = qsize f" by (simp add: g)
  show "fifo_occupied g = (if pop_status_save f then fifo_occupied f else fifo_occupied f - 1)"
    using rd by (auto simp: g fifo_occupied_def)
qed

lemma fifo_pop_empty:
  assumes "fifo_inv f" "fifo_items f = []"
  shows "fifo_pop f = (None, f)"
  using assms by (simp add: fifo_pop_def fifo_empty_iff)

lemma fifo_front_eq [ring_simps]:
  assumes "fifo_inv f"
  shows "fifo_get_front f = (case fifo_items f of [] \<Rightarrow> None | x # _ \<Rightarrow> Some x)"
proof (cases "fifo_items f")
  case (Cons x xs)
  with assms show ?thesis
    using fifo_pop_ok(1) [OF assms Cons]
    by (auto simp: fifo_get_front_def fifo_empty_iff fifo_pop_def Let_def)
qed (use assms in \<open>simp add: fifo_get_front_def fifo_empty_iff\<close>)

lemma fifo_tail_eq [ring_simps]:
  assumes "fifo_inv f"
  shows "fifo_get_tail f = (if fifo_items f = [] then None else Some (last (fifo_items f)))"
proof (cases "fifo_items f = []")
  case False
  let ?n = "qsize f" and ?w = "wptr f"
  have ok: "ring_ok ?n ?w (wstage f) (rptr f) (rstage f)" "length (buffer f) = ?n"
    using assms by (auto simp: fifo_inv_def)
  have "last (fifo_items f) = buffer f ! ((?w + ?n - 1) mod ?n)"
  proof (cases "?w = 0")
    case True
    with ok False show ?thesis
      by (auto simp: fifo_items_def ring_defs last_drop last_conv_nth split: if_splits)
  next
    case w: False
    then have idx: "(?w + ?n - 1) mod ?n = ?w - 1" and lt: "?w - 1 < ?n"
      using ok by (auto simp: ring_ok_def mod_if)
    have ne: "take ?w (buffer f) \<noteq> []" using ok w by (auto simp: ring_ok_def)
    have "last (take ?w (buffer f)) = buffer f ! (?w - 1)"
      using ok w by (simp add: last_conv_nth [OF ne] ring_ok_def)
    moreover have "last (fifo_items f) = last (take ?w (buffer f))"
      using False ne by (auto simp: fifo_items_def ring_items_def last_drop not_le)
    ultimately show ?thesis by (simp only: idx)
  qed
  with False assms show ?thesis by (simp add: fifo_get_tail_def fifo_empty_iff)
qed (use assms in \<open>simp add: fifo_get_tail_def fifo_empty_iff\<close>)

lemma fifo_flush_inv:
  assumes "fifo_inv f"
  shows "fifo_items (fifo_flush f) = []"
    and "\<not> pop_status_save f \<Longrightarrow> fifo_inv (fifo_flush f)"
    and "fifo_inv (fifo_reset_pop_status (fifo_flush f))"
  using assms by (auto simp: fifo_flush_def fifo_inv_def fifo_items_def fifo_reset_pop_status_def ring_defs)

lemma fifo_reset_pop_status_inv:
  assumes "fifo_inv f"
  shows "fifo_inv (fifo_reset_pop_status f)"
    and "fifo_items (fifo_reset_pop_status f) = fifo_items f"
    and "fifo_occupied (fifo_reset_pop_status f) = length (fifo_items f)"
    and "qsize (fifo_reset_pop_status f) = qsize f"
  using assms
  by (auto simp: fifo_reset_pop_status_def fifo_inv_def fifo_items_def fifo_occupied_def length_ring_items)

lemma fifo_walk_Suc:
  assumes "ring_step (qsize f) cur stage = (cur', stage')"
  shows "fifo_walk (Suc fuel) cur stage f =
    (if cur' = wptr f \<and> stage' = wstage f then Some [(cur, buffer f ! cur)]
     else map_option (Cons (cur, buffer f ! cur)) (fifo_walk fuel cur' stage' f))"
  using assms by (auto simp: ring_step_def Let_def)

lemma fifo_walk_span:
  assumes "length (buffer f) = qsize f"
    and "ring_ok (qsize f) (wptr f) (wstage f) r rs"
    and "ring_count (qsize f) (wptr f) (wstage f) r rs = Suc k" "k < fuel"
  shows "fifo_walk fuel r rs f
    = Some (map (\<lambda>i. (i, buffer f ! i)) (id_span (qsize f) (wptr f) (wstage f) r rs))"
  using assms(2-)
proof (induction fuel arbitrary: r rs k)
  case (Suc fuel)
  obtain r' rs' where st: "ring_step (qsize f) r rs = (r', rs')" by (cases "ring_step (qsize f) r rs")
  have pos: "0 < ring_count (qsize f) (wptr f) (wstage f) r rs" using Suc.prems by simp
  note rd = ring_read_step [OF Suc.prems(1) pos st]
  note it = id_span_read [OF Suc.prems(1) pos st]
  note step = fifo_walk_Suc [OF st, of fuel]
  show ?case
  proof (cases k)
    case 0
    then have z: "ring_count (qsize f) (wptr f) (wstage f) r' rs' = 0" using rd(2) Suc.prems(2) by simp
    then have e: "r' = wptr f" "rs' = wstage f" using ring_empty_iff [OF rd(1)] by auto
    then have "id_span (qsize f) (wptr f) (wstage f) r' rs' = []" by (simp add: id_span_def)
    with it e show ?thesis unfolding step by simp
  next
    case (Suc k')
    then have ne: "\<not> (r' = wptr f \<and> rs' = wstage f)"
      using rd ring_empty_iff [OF rd(1)] Suc.prems by auto
    with it Suc.IH [OF rd(1), of k'] rd(2) Suc.prems Suc show ?thesis unfolding step by auto
  qed
qed simp

lemma fifo_walk_all:
  assumes "fifo_inv f" "\<not> fifo_is_empty f"
  shows "fifo_walk (qsize f) (rptr f) (rstage f) f
    = Some (map (\<lambda>i. (i, buffer f ! i)) (id_span (qsize f) (wptr f) (wstage f) (rptr f) (rstage f)))"
proof -
  have ok: "length (buffer f) = qsize f" "ring_ok (qsize f) (wptr f) (wstage f) (rptr f) (rstage f)"
    using assms(1) by (auto simp: fifo_inv_def)
  obtain k where k: "ring_count (qsize f) (wptr f) (wstage f) (rptr f) (rstage f) = Suc k"
    using assms(2) ring_empty_iff [OF ok(2)] unfolding fifo_is_empty_def by (metis not0_implies_Suc)
  then have "k < qsize f" using ring_count_le [OF ok(2)] by simp
  from fifo_walk_span [OF ok k this] show ?thesis .
qed

lemma fifo_get_json_items:
  assumes "fifo_inv f"
  shows "fifo_get_json j f = Some (map j (fifo_items f))"
  using assms fifo_walk_all [OF assms]
  by (cases "fifo_is_empty f")
    (auto simp: fifo_get_json_def fifo_empty_iff fifo_items_def ring_items_span [of _ "qsize f"] fifo_inv_def)

section \<open>The contract of a bounded queue\<close>

fun push_all :: "('a \<Rightarrow> 'q \<Rightarrow> bool \<times> 'q) \<Rightarrow> 'a list \<Rightarrow> 'q \<Rightarrow> nat \<times> 'q" where
  "push_all psh [] q = (0, q)"
| "push_all psh (x # xs) q =
     (case psh x q of (ok, q') \<Rightarrow>
        if ok then (case push_all psh xs q' of (k, r) \<Rightarrow> (Suc k, r)) else (0, q'))"

fun pop_many :: "('q \<Rightarrow> 'a option \<times> 'q) \<Rightarrow> nat \<Rightarrow> 'q \<Rightarrow> 'a list \<times> 'q" where
  "pop_many pp 0 q = ([], q)"
| "pop_many pp (Suc n) q =
     (case pp q of (None, q') \<Rightarrow> ([], q')
        | (Some x, q') \<Rightarrow> (case pop_many pp n q' of (xs, r) \<Rightarrow> (x # xs, r)))"

text \<open>\<open>occ\<close> is the number of slots the writer sees as taken: elements still held, and those
  popped since the last \<open>reset_pop_status\<close> when the pop status is saved.\<close>

locale ring_queue =
  fixes psh :: "'a \<Rightarrow> 'q \<Rightarrow> bool \<times> 'q"
    and pp :: "'q \<Rightarrow> 'a option \<times> 'q"
    and items :: "'q \<Rightarrow> 'a list"
    and occ :: "'q \<Rightarrow> nat"
    and cap :: "'q \<Rightarrow> nat"
    and inv :: "'q \<Rightarrow> bool"
  assumes push_room: "inv q \<Longrightarrow> occ q < cap q \<Longrightarrow> psh x q = (ok, r) \<Longrightarrow>
      ok \<and> inv r \<and> items r = items q @ [x] \<and> occ r = Suc (occ q) \<and> cap r = cap q"
    and push_no_room: "inv q \<Longrightarrow> occ q = cap q \<Longrightarrow> psh x q = (False, q)"
    and pop_items: "inv q \<Longrightarrow> items q = x # xs \<Longrightarrow> pp q = (y, r) \<Longrightarrow>
      y = Some x \<and> inv r \<and> items r = xs \<and> occ r \<le> occ q \<and> cap r = cap q"
    and pop_none: "inv q \<Longrightarrow> items q = [] \<Longrightarrow> pp q = (None, q)"
    and occ_bounds: "inv q \<Longrightarrow> length (items q) \<le> occ q \<and> occ q \<le> cap q"
begin

lemma push_cases:
  assumes "inv q" "psh x q = (ok, r)"
  shows "ok \<longleftrightarrow> occ q < cap q" "inv r" "cap r = cap q"
    "items r = (if ok then items q @ [x] else items q)"
    "occ r = (if ok then Suc (occ q) else occ q)"
  using assms push_room [of q x ok r] push_no_room [of q x] occ_bounds [of q]
  by (cases "occ q < cap q"; force)+

lemma pop_cases:
  assumes "inv q" "pp q = (y, r)"
  shows "y = (case items q of [] \<Rightarrow> None | x # _ \<Rightarrow> Some x)" "inv r" "items r = tl (items q)"
    "cap r = cap q" "occ r \<le> occ q"
  using assms pop_items [of q _ _ y r] pop_none [of q] by (cases "items q"; force)+

lemma push_all_items:
  assumes "inv q" "push_all psh xs q = (k, r)"
  shows "k = min (length xs) (cap q - occ q) \<and> inv r \<and> items r = items q @ take k xs \<and> cap r = cap q"
  using assms
proof (induction xs arbitrary: q k r)
  case (Cons x xs)
  obtain ok q' where p: "psh x q = (ok, q')" by (cases "psh x q")
  note pc = push_cases [OF Cons.prems(1) p]
  obtain k' r' where pa: "push_all psh xs q' = (k', r')" by (cases "push_all psh xs q'")
  show ?case using Cons.IH [OF pc(2) pa] Cons.prems(2) pc p pa by (auto split: if_splits)
qed simp

lemma pop_many_items:
  assumes "inv q" "pop_many pp n q = (xs, r)"
  shows "xs = take n (items q) \<and> inv r \<and> items r = drop n (items q)"
  using assms
proof (induction n arbitrary: q xs r)
  case (Suc n)
  obtain y q' where p: "pp q = (y, q')" by (cases "pp q")
  note pc = pop_cases [OF Suc.prems(1) p]
  obtain ys r' where pm: "pop_many pp n q' = (ys, r')" by (cases "pop_many pp n q'")
  show ?case
    using Suc.IH [OF pc(2) pm] Suc.prems(2) pc p pm by (cases "items q") auto
qed simp

lemma push_all_then_pop_all:
  assumes "inv q" "length xs \<le> cap q - occ q"
    and "push_all psh xs q = (k, q1)" "pop_many pp (length (items q) + length xs) q1 = (ys, q2)"
  shows "ys = items q @ xs"
  using push_all_items [OF assms(1,3)] pop_many_items [OF _ assms(4)] assms(2) by auto

end

interpretation fifo_rq: ring_queue fifo_push fifo_pop fifo_items fifo_occupied qsize fifo_inv
proof
  fix f :: "('a, 'b) fifo_scheme" and x :: 'a and ok g
  assume "fifo_inv f" "fifo_occupied f < qsize f" "fifo_push x f = (ok, g)"
  from fifo_push_ok [OF this] show "ok \<and> fifo_inv g \<and> fifo_items g = fifo_items f @ [x]
      \<and> fifo_occupied g = Suc (fifo_occupied f) \<and> qsize g = qsize f" by simp
next
  fix f :: "('a, 'b) fifo_scheme" and x :: 'a and xs y g
  assume "fifo_inv f" "fifo_items f = x # xs" "fifo_pop f = (y, g)"
  from fifo_pop_ok [OF this] show "y = Some x \<and> fifo_inv g \<and> fifo_items g = xs
      \<and> fifo_occupied g \<le> fifo_occupied f \<and> qsize g = qsize f" by simp
qed (auto simp: fifo_push_full fifo_pop_empty fifo_items_le_occupied fifo_occupied_le)

section \<open>Any sequence of operations behaves as on a list\<close>

datatype 'a fifo_op = Push 'a | Pop | Front | Tail | Size | Is_full | Flush | Flush_next_cycle | Next_cycle

datatype 'a fifo_out = Out_bool bool | Out_item "'a option" | Out_nat nat | Out_none

fun fifo_exec :: "'a fifo_op \<Rightarrow> ('a, 'z) fifo_scheme \<Rightarrow> 'a fifo_out \<times> ('a, 'z) fifo_scheme" where
  "fifo_exec (Push x) f = (case fifo_push x f of (ok, g) \<Rightarrow> (Out_bool ok, g))"
| "fifo_exec Pop f = (case fifo_pop f of (y, g) \<Rightarrow> (Out_item y, g))"
| "fifo_exec Front f = (Out_item (fifo_get_front f), f)"
| "fifo_exec Tail f = (Out_item (fifo_get_tail f), f)"
| "fifo_exec Size f = (Out_nat (fifo_get_size f), f)"
| "fifo_exec Is_full f = (Out_bool (fifo_is_full f), f)"
| "fifo_exec Flush f = (Out_none, fifo_flush f)"
| "fifo_exec Flush_next_cycle f = (Out_none, fifo_reset_pop_status (fifo_flush f))"
| "fifo_exec Next_cycle f = (Out_none, fifo_reset_pop_status f)"

text \<open>The abstract queue: its elements and the number of slots the writer may not use.\<close>

record 'a queue_spec =
  sq_items :: "'a list"
  sq_taken :: nat

fun queue_exec :: "nat \<Rightarrow> bool \<Rightarrow> 'a fifo_op \<Rightarrow> 'a queue_spec \<Rightarrow> 'a fifo_out \<times> 'a queue_spec" where
  "queue_exec n save (Push x) q =
     (if sq_taken q < n then (Out_bool True, \<lparr>sq_items = sq_items q @ [x], sq_taken = Suc (sq_taken q)\<rparr>)
      else (Out_bool False, q))"
| "queue_exec n save Pop q =
     (case sq_items q of [] \<Rightarrow> (Out_item None, q)
      | x # xs \<Rightarrow> (Out_item (Some x),
          \<lparr>sq_items = xs, sq_taken = (if save then sq_taken q else sq_taken q - 1)\<rparr>))"
| "queue_exec n save Front q = (Out_item (case sq_items q of [] \<Rightarrow> None | x # _ \<Rightarrow> Some x), q)"
| "queue_exec n save Tail q =
     (Out_item (if sq_items q = [] then None else Some (last (sq_items q))), q)"
| "queue_exec n save Size q = (Out_nat (sq_taken q), q)"
| "queue_exec n save Is_full q = (Out_bool (sq_taken q = n), q)"
| "queue_exec n save Flush q = (Out_none, \<lparr>sq_items = [], sq_taken = 0\<rparr>)"
| "queue_exec n save Flush_next_cycle q = (Out_none, \<lparr>sq_items = [], sq_taken = 0\<rparr>)"
| "queue_exec n save Next_cycle q = (Out_none, q\<lparr>sq_taken := if save then length (sq_items q) else sq_taken q\<rparr>)"

fun run_ops :: "('o \<Rightarrow> 's \<Rightarrow> 'r \<times> 's) \<Rightarrow> 'o list \<Rightarrow> 's \<Rightarrow> 'r list \<times> 's" where
  "run_ops ex [] s = ([], s)"
| "run_ops ex (i # is) s = (case ex i s of (r, t) \<Rightarrow> (case run_ops ex is t of (rs, u) \<Rightarrow> (r # rs, u)))"

definition fifo_abs :: "('a, 'z) fifo_scheme \<Rightarrow> 'a queue_spec" where
  "fifo_abs f = \<lparr>sq_items = fifo_items f, sq_taken = fifo_occupied f\<rparr>"

lemma fifo_push_fields:
  "fifo_push x f = (ok, g) \<Longrightarrow> pop_status_save g = pop_status_save f \<and> qsize g = qsize f"
  by (auto simp: fifo_push_def Let_def split: if_splits)

lemma fifo_pop_fields:
  "fifo_pop f = (y, g) \<Longrightarrow> pop_status_save g = pop_status_save f \<and> qsize g = qsize f"
  by (auto simp: fifo_pop_def Let_def split: if_splits)

lemma fifo_exec_refines:
  assumes "fifo_inv f" "i = Flush \<longrightarrow> \<not> pop_status_save f" "fifo_exec i f = (r, g)"
  shows "fifo_inv g \<and> qsize g = qsize f \<and> pop_status_save g = pop_status_save f
    \<and> queue_exec (qsize f) (pop_status_save f) i (fifo_abs f) = (r, fifo_abs g)"
proof (cases i)
  case (Push x)
  obtain ok h where p: "fifo_push x f = (ok, h)" by (cases "fifo_push x f")
  with Push assms show ?thesis
    using fifo_rq.push_cases [OF assms(1) p] fifo_push_fields [OF p]
    by (auto simp: fifo_abs_def)
next
  case Pop
  obtain y h where p: "fifo_pop f = (y, h)" by (cases "fifo_pop f")
  note pf = fifo_pop_fields [OF p]
  show ?thesis
  proof (cases "fifo_items f")
    case Nil
    with Pop p assms show ?thesis by (auto simp: fifo_pop_empty fifo_abs_def)
  next
    case (Cons x xs)
    with Pop p assms fifo_pop_ok [OF assms(1) Cons p] pf show ?thesis by (auto simp: fifo_abs_def)
  qed
next
  case Flush
  with assms show ?thesis
    by (auto simp: fifo_flush_inv fifo_abs_def) (auto simp: fifo_flush_def fifo_occupied_def ring_count_def)
next
  case Flush_next_cycle
  with assms fifo_flush_inv [OF assms(1)] show ?thesis
    by (auto simp: fifo_abs_def fifo_reset_pop_status_def fifo_flush_def fifo_occupied_def ring_count_def
        fifo_items_def ring_items_def)
next
  case Next_cycle
  with assms fifo_reset_pop_status_inv [OF assms(1)] show ?thesis
    by (auto simp: fifo_abs_def fifo_reset_pop_status_def fifo_occupied_def)
qed (use assms in \<open>auto simp: fifo_abs_def fifo_front_eq fifo_tail_eq fifo_size_eq fifo_full_iff\<close>)

text \<open>C22: in any sequence of operations, in both pop modes, the ring buffer of \<open>fifo.h\<close> returns what a
  bounded list queue returns, and it stays well formed.  In the mode that saves the pop status
  (used between pipeline stages) a slot popped in this cycle is not reused before the next call of
  \<open>reset_pop_status\<close>, which every flush of that mode is followed by.\<close>

theorem fifo_run_refines_queue:
  assumes "fifo_inv f" "pop_status_save f \<longrightarrow> Flush \<notin> set is"
    and "run_ops fifo_exec is f = (rs, g)"
  shows "run_ops (queue_exec (qsize f) (pop_status_save f)) is (fifo_abs f) = (rs, fifo_abs g)
    \<and> fifo_inv g"
  using assms
proof (induction "is" arbitrary: f rs)
  case (Cons i ops)
  obtain r h where e: "fifo_exec i f = (r, h)" by (cases "fifo_exec i f")
  obtain rs' h' where rest: "run_ops fifo_exec ops h = (rs', h')" by (cases "run_ops fifo_exec ops h")
  have st: "fifo_inv h \<and> qsize h = qsize f \<and> pop_status_save h = pop_status_save f
      \<and> queue_exec (qsize f) (pop_status_save f) i (fifo_abs f) = (r, fifo_abs h)"
    by (rule fifo_exec_refines [OF Cons.prems(1) _ e]) (use Cons.prems(2) in auto)
  with Cons.IH [of h rs'] Cons.prems e rest show ?case by auto
qed simp

theorem fifo_run_refines_queue_witness:
  "\<exists>rs (g :: nat fifo). run_ops (queue_exec 2 True) [Push 1, Push 2, Pop, Push (3::nat), Next_cycle, Push 4, Pop, Pop]
       (fifo_abs (fifo_set_pop_status_save True (fifo_new 2 0))) = (rs, fifo_abs g) \<and> fifo_inv g
     \<and> rs = [Out_bool True, Out_bool True, Out_item (Some 1), Out_bool False, Out_none,
             Out_bool True, Out_item (Some 2), Out_item (Some 4)]"
proof -
  let ?f = "fifo_set_pop_status_save True (fifo_new 2 (0::nat))"
  let ?is = "[Push 1, Push 2, Pop, Push (3::nat), Next_cycle, Push 4, Pop, Pop]"
  have i: "fifo_inv ?f"
    by (simp add: fifo_set_pop_status_save_def fifo_reset_pop_status_def fifo_new_def fifo_inv_def ring_ok_def)
  obtain rs g where r: "run_ops fifo_exec ?is ?f = (rs, g)" by (cases "run_ops fifo_exec ?is ?f")
  have "rs = [Out_bool True, Out_bool True, Out_item (Some 1), Out_bool False, Out_none,
             Out_bool True, Out_item (Some 2), Out_item (Some 4)]"
    using r by (simp add: fifo_set_pop_status_save_def fifo_reset_pop_status_def fifo_new_def
        fifo_push_def fifo_pop_def fifo_is_full_def fifo_is_empty_def Let_def)
  moreover have q: "qsize ?f = 2" "pop_status_save ?f = True"
    by (simp_all add: fifo_set_pop_status_save_def fifo_reset_pop_status_def fifo_new_def)
  have l: "pop_status_save ?f \<longrightarrow> Flush \<notin> set ?is" by simp
  from fifo_run_refines_queue [OF i l r]
  have "run_ops (queue_exec 2 True) ?is (fifo_abs ?f) = (rs, fifo_abs g) \<and> fifo_inv g"
    unfolding q .
  ultimately show ?thesis by blast
qed

end
