(* ===== verification/Ring.thy ===== *)
theory Ring
  imports Fifo
begin

text \<open>
  Access to a ring buffer by slot number, as \<open>component/rob.h\<close> and
  \<open>component/checkpoint_buffer.h\<close> add it to \<open>fifo<T>\<close>: validity of an identifier, walking
  from one live identifier to the next or the previous one, identifiers of the slots the next
  pushes will use, direct reads and writes.  \<open>ring_ids\<close> is the list of live identifiers, oldest
  first; every operation is characterised by its position in that list.
\<close>

section \<open>Operations\<close>

definition ring_check_new_id_valid :: "('a, 'z) fifo_scheme \<Rightarrow> nat \<Rightarrow> bool" where
  "ring_check_new_id_valid f i =
     (if fifo_is_full f then False
      else if wstage f = rstage f then \<not> (i \<ge> rptr f \<and> i < wptr f)
      else \<not> ((i \<ge> rptr f \<and> i < qsize f) \<or> i < wptr f))"

definition ring_check_id_valid :: "('a, 'z) fifo_scheme \<Rightarrow> nat \<Rightarrow> bool" where
  "ring_check_id_valid f i =
     (if fifo_is_empty f then False
      else if wstage f = rstage f then i \<ge> rptr f \<and> i < wptr f
      else (i \<ge> rptr f \<and> i < qsize f) \<or> i < wptr f)"

text \<open>\<open>push\<close> also hands out the slot the element goes to.\<close>

definition ring_push :: "'a \<Rightarrow> ('a, 'z) fifo_scheme \<Rightarrow> bool \<times> nat \<times> ('a, 'z) fifo_scheme" where
  "ring_push x f = (let item_id = wptr f; (ok, g) = fifo_push x f in (ok, item_id, g))"

definition ring_get_item :: "('a, 'z) fifo_scheme \<Rightarrow> nat \<Rightarrow> 'a option" where
  "ring_get_item f i = array_get (buffer f) i"

definition ring_set_item :: "nat \<Rightarrow> 'a \<Rightarrow> ('a, 'z) fifo_scheme \<Rightarrow> ('a, 'z) fifo_scheme option" where
  "ring_set_item i x f = do { b \<leftarrow> array_set (buffer f) i x; Some (f\<lparr>buffer := b\<rparr>) }"

definition ring_get_front :: "('a, 'z) fifo_scheme \<Rightarrow> 'a option" where
  "ring_get_front f = array_get (buffer f) (rptr f)"

definition ring_get_size :: "('a, 'z) fifo_scheme \<Rightarrow> nat" where
  "ring_get_size f = (if fifo_is_full f then qsize f else (wptr f + qsize f - rptr f) mod qsize f)"

definition ring_get_free_space :: "('a, 'z) fifo_scheme \<Rightarrow> nat" where
  "ring_get_free_space f = qsize f - ring_get_size f"

definition ring_get_new_id :: "('a, 'z) fifo_scheme \<Rightarrow> nat option" where
  "ring_get_new_id f = (if fifo_is_full f then None else Some (wptr f))"

text \<open>The out-parameter keeps its old value \<open>out\<close> when the first check fails; it is written, and
  the result may still be false, otherwise.\<close>

definition ring_get_next_new_id :: "('a, 'z) fifo_scheme \<Rightarrow> nat \<Rightarrow> nat \<Rightarrow> bool \<times> nat" where
  "ring_get_next_new_id f cur out =
     (if \<not> ring_check_new_id_valid f cur then (False, out)
      else let nxt = (cur + 1) mod qsize f in (ring_check_new_id_valid f nxt, nxt))"

definition ring_get_front_id :: "('a, 'z) fifo_scheme \<Rightarrow> nat option" where
  "ring_get_front_id f = (if fifo_is_empty f then None else Some (rptr f))"

definition ring_get_tail_id :: "('a, 'z) fifo_scheme \<Rightarrow> nat option" where
  "ring_get_tail_id f =
     (if fifo_is_empty f then None else Some ((wptr f + qsize f - 1) mod qsize f))"

definition ring_get_prev_id :: "('a, 'z) fifo_scheme \<Rightarrow> nat \<Rightarrow> (bool \<times> nat) option" where
  "ring_get_prev_id f i = do {
     cassert (ring_check_id_valid f i);
     let prev_id = (i + qsize f - 1) mod qsize f;
     Some (ring_check_id_valid f prev_id, prev_id) }"

definition ring_get_next_id :: "('a, 'z) fifo_scheme \<Rightarrow> nat \<Rightarrow> (bool \<times> nat) option" where
  "ring_get_next_id f i = do {
     cassert (ring_check_id_valid f i);
     let next_id = (i + 1) mod qsize f;
     Some (ring_check_id_valid f next_id, next_id) }"

definition ring_pop :: "('a, 'z) fifo_scheme \<Rightarrow> bool \<times> ('a, 'z) fifo_scheme" where
  "ring_pop f = (case fifo_pop f of (None, g) \<Rightarrow> (False, g) | (Some _, g) \<Rightarrow> (True, g))"

section \<open>Live identifiers\<close>

definition ring_ids :: "('a, 'z) fifo_scheme \<Rightarrow> nat list" where
  "ring_ids f = id_span (qsize f) (wptr f) (wstage f) (rptr f) (rstage f)"

lemma ring_ids_valid:
  assumes "fifo_inv f"
  shows "ring_check_id_valid f i \<longleftrightarrow> i \<in> set (ring_ids f)"
  using assms
  by (auto simp: ring_check_id_valid_def ring_ids_def id_span_def fifo_is_empty_def fifo_inv_def ring_ok_def
      split: if_splits)

lemma ring_ids_bound: "fifo_inv f \<Longrightarrow> i \<in> set (ring_ids f) \<Longrightarrow> i < qsize f"
  by (auto simp: ring_ids_def id_span_def fifo_inv_def ring_ok_def split: if_splits)

lemma ring_ids_distinct: "fifo_inv f \<Longrightarrow> distinct (ring_ids f)"
  by (auto simp: ring_ids_def id_span_def fifo_inv_def ring_ok_def split: if_splits)

lemma ring_ids_items:
  "fifo_inv f \<Longrightarrow> fifo_items f = map (\<lambda>i. buffer f ! i) (ring_ids f)"
  by (simp add: fifo_items_def ring_ids_def ring_items_span fifo_inv_def)

lemma ring_ids_length:
  "fifo_inv f \<Longrightarrow> length (ring_ids f) = length (fifo_items f)"
  by (simp add: ring_ids_items)

lemma ring_ids_nth:
  assumes "fifo_inv f" "k < length (ring_ids f)"
  shows "ring_ids f ! k = (rptr f + k) mod qsize f"
proof (cases "wstage f = rstage f")
  case True
  then have "rptr f + k < qsize f" using assms by (auto simp: ring_ids_def id_span_def fifo_inv_def ring_ok_def)
  with True show ?thesis using assms(2) by (simp add: ring_ids_def id_span_def)
next
  case False
  have r: "rptr f < qsize f" "wptr f \<le> rptr f" using assms(1) False by (auto simp: fifo_inv_def ring_ok_def)
  show ?thesis
  proof (cases "k < qsize f - rptr f")
    case True
    with r False show ?thesis by (simp add: ring_ids_def id_span_def nth_append)
  next
    case k: False
    then have "(rptr f + k) mod qsize f = rptr f + k - qsize f"
      using r assms(2) False by (simp add: ring_ids_def id_span_def le_mod_geq)
    with k r False assms(2) show ?thesis by (simp add: ring_ids_def id_span_def nth_append)
  qed
qed

lemma ring_size_items:
  assumes "fifo_inv f" "\<not> pop_status_save f"
  shows "ring_get_size f = length (fifo_items f)"
proof -
  have "ring_get_size f = fifo_get_size f"
    using assms(2) by (simp add: ring_get_size_def fifo_get_size_def)
  then show ?thesis
    using assms(2) fifo_size_eq [OF assms(1)] fifo_length_items [OF assms(1)]
    by (simp add: fifo_occupied_def)
qed

section \<open>Walking the live identifiers\<close>

lemma ring_front_id:
  assumes "fifo_inv f"
  shows "ring_get_front_id f = (case ring_ids f of [] \<Rightarrow> None | i # _ \<Rightarrow> Some i)"
proof (cases "ring_ids f")
  case (Cons i ids)
  then have "i = rptr f" using ring_ids_nth [OF assms, of 0] assms
    by (auto simp: fifo_inv_def ring_ok_def)
  with Cons assms show ?thesis
    by (simp add: ring_get_front_id_def fifo_empty_iff ring_ids_items)
qed (use assms in \<open>simp add: ring_get_front_id_def fifo_empty_iff ring_ids_items\<close>)

lemma ring_tail_id:
  assumes "fifo_inv f"
  shows "ring_get_tail_id f = (if ring_ids f = [] then None else Some (last (ring_ids f)))"
proof (cases "ring_ids f = []")
  case False
  have "last (ring_ids f) = (wptr f + qsize f - 1) mod qsize f"
    using False assms
    by (auto simp: ring_ids_def id_span_def fifo_inv_def ring_ok_def last_append mod_if split: if_splits)
  with False assms show ?thesis
    by (simp add: ring_get_tail_id_def fifo_empty_iff ring_ids_items)
qed (use assms in \<open>simp add: ring_get_tail_id_def fifo_empty_iff ring_ids_items\<close>)

lemma ring_full_length:
  "fifo_inv f \<Longrightarrow> \<not> pop_status_save f \<Longrightarrow> fifo_is_full f \<longleftrightarrow> length (ring_ids f) = qsize f"
  by (simp add: fifo_full_iff fifo_occupied_def fifo_length_items ring_ids_length)

lemma ring_slot_live:
  assumes "fifo_inv f" "k < qsize f"
  shows "(rptr f + k) mod qsize f \<in> set (ring_ids f) \<longleftrightarrow> k < length (ring_ids f)"
proof
  assume "(rptr f + k) mod qsize f \<in> set (ring_ids f)"
  then obtain j where j: "j < length (ring_ids f)" "ring_ids f ! j = (rptr f + k) mod qsize f"
    by (metis in_set_conv_nth)
  have "length (ring_ids f) \<le> qsize f"
    using fifo_items_le_occupied fifo_occupied_le assms(1) ring_ids_length by (metis le_trans)
  with j assms have "(rptr f + j) mod qsize f = (rptr f + k) mod qsize f" "j < qsize f"
    by (auto simp: ring_ids_nth)
  moreover have "rptr f < qsize f" using assms(1) by (simp add: fifo_inv_def ring_ok_def)
  ultimately have "j = k" using assms(2) by (auto simp: mod_if split: if_splits)
  with j show "k < length (ring_ids f)" by simp
qed (use assms in \<open>metis ring_ids_nth nth_mem\<close>)

lemma ring_ids_le: "fifo_inv f \<Longrightarrow> length (ring_ids f) \<le> qsize f"
  using fifo_items_le_occupied fifo_occupied_le ring_ids_length by (metis le_trans)

lemma ring_wptr_slot: "fifo_inv f \<Longrightarrow> wptr f = (rptr f + length (ring_ids f)) mod qsize f"
  by (auto simp: ring_ids_def id_span_def fifo_inv_def ring_ok_def mod_if)

lemma ring_ids_hd: "fifo_inv f \<Longrightarrow> ring_ids f \<noteq> [] \<Longrightarrow> ring_ids f ! 0 = rptr f"
  by (simp add: ring_ids_nth) (simp add: fifo_inv_def ring_ok_def)

lemma ring_next_id_step:
  assumes "fifo_inv f" "k < length (ring_ids f)"
  shows "ring_get_next_id f (ring_ids f ! k) =
    Some (k + 1 < length (ring_ids f) \<or> length (ring_ids f) = qsize f,
          if k + 1 < length (ring_ids f) then ring_ids f ! (k + 1) else wptr f)"
proof -
  have nx: "(ring_ids f ! k + 1) mod qsize f = (rptr f + (k + 1)) mod qsize f"
    using assms by (simp add: ring_ids_nth mod_Suc_eq)
  have live: "ring_check_id_valid f (ring_ids f ! k)"
    using assms by (simp add: ring_ids_valid)
  note w = ring_wptr_slot [OF assms(1)] and n = ring_ids_le [OF assms(1)]
  consider "k + 1 < length (ring_ids f)" | "k + 1 = length (ring_ids f)" "length (ring_ids f) = qsize f"
    | "k + 1 = length (ring_ids f)" "length (ring_ids f) < qsize f"
    using assms(2) n by linarith
  then show ?thesis
  proof cases
    case 1
    then have "(rptr f + (k + 1)) mod qsize f = ring_ids f ! (k + 1)"
      using ring_ids_nth [OF assms(1), of "k + 1"] by simp
    with 1 nx live assms show ?thesis by (simp add: ring_get_next_id_def ring_ids_valid)
  next
    case 2
    then have ne: "ring_ids f \<noteq> []" by auto
    have "wptr f = rptr f" using 2 w assms(1) by (simp add: fifo_inv_def ring_ok_def)
    with ne have "wptr f = ring_ids f ! 0" using ring_ids_hd [OF assms(1)] by simp
    with ne have "wptr f \<in> set (ring_ids f)" by simp
    with 2 nx w live assms(1) show ?thesis by (simp add: ring_get_next_id_def ring_ids_valid)
  next
    case 3
    then have "wptr f \<notin> set (ring_ids f)"
      using ring_slot_live [OF assms(1), of "length (ring_ids f)"] w by simp
    with 3 nx w live assms(1) show ?thesis by (simp add: ring_get_next_id_def ring_ids_valid)
  qed
qed

text \<open>From the k-th live identifier of the reorder buffer (or checkpoint buffer), \<open>get_next_id\<close>
  never aborts and moves to the (k+1)-th; it answers false exactly at the youngest one, except when
  the ring is full, where it wraps to the oldest and answers true.\<close>

theorem ring_next_id_walks:
  assumes "fifo_inv f" "k < length (ring_ids f)"
  shows "ring_get_next_id f (ring_ids f ! k) =
    Some (k + 1 < length (ring_ids f) \<or> length (ring_ids f) = qsize f,
          if k + 1 < length (ring_ids f) then ring_ids f ! (k + 1) else wptr f)"
  using assms by (rule ring_next_id_step)

theorem ring_next_id_walks_witness:
  "let f = fifo_new 4 (0::nat)\<lparr>rptr := 3, wptr := 1, wstage := True\<rparr> in
     ring_get_next_id f (ring_ids f ! 0) = Some (True, 0) \<and> ring_get_next_id f (ring_ids f ! 1) = Some (False, 1)"
  using ring_next_id_walks [of "fifo_new 4 (0::nat)\<lparr>rptr := 3, wptr := 1, wstage := True\<rparr>" 0]
    ring_next_id_walks [of "fifo_new 4 (0::nat)\<lparr>rptr := 3, wptr := 1, wstage := True\<rparr>" 1]
  by (simp add: fifo_new_def fifo_inv_def ring_ok_def ring_ids_def id_span_def)

lemma ring_prev_id_walks:
  assumes "fifo_inv f" "k < length (ring_ids f)"
  shows "ring_get_prev_id f (ring_ids f ! k) =
    Some (0 < k \<or> length (ring_ids f) = qsize f,
          if 0 < k then ring_ids f ! (k - 1) else (rptr f + qsize f - 1) mod qsize f)"
proof -
  have q: "rptr f < qsize f" using assms(1) by (simp add: fifo_inv_def ring_ok_def)
  have live: "ring_check_id_valid f (ring_ids f ! k)" using assms by (simp add: ring_ids_valid)
  show ?thesis
  proof (cases k)
    case 0
    then have id: "ring_ids f ! k = rptr f" using ring_ids_hd [OF assms(1)] assms(2) by auto
    have "(rptr f + (qsize f - 1)) mod qsize f \<in> set (ring_ids f) \<longleftrightarrow> length (ring_ids f) = qsize f"
      using ring_slot_live [OF assms(1), of "qsize f - 1"] ring_ids_le [OF assms(1)] q by auto
    with 0 id q live assms(1) show ?thesis by (simp add: ring_get_prev_id_def ring_ids_valid)
  next
    case (Suc j)
    have jq: "Suc j < qsize f" using Suc assms(2) ring_ids_le [OF assms(1)] by simp
    have "(ring_ids f ! k + qsize f - 1) mod qsize f = (rptr f + j) mod qsize f"
    proof -
      have "ring_ids f ! k = (rptr f + Suc j) mod qsize f" using ring_ids_nth [OF assms] Suc by simp
      moreover have "((rptr f + Suc j) mod qsize f + (qsize f - 1)) mod qsize f
          = (rptr f + Suc j + (qsize f - 1)) mod qsize f" by (simp add: mod_add_left_eq)
      moreover have "rptr f + Suc j + (qsize f - 1) = (rptr f + j) + qsize f" using q by simp
      ultimately show ?thesis using q by simp
    qed
    also have "\<dots> = ring_ids f ! j" using ring_ids_nth [OF assms(1), of j] Suc assms(2) by simp
    finally show ?thesis
      using Suc live assms by (simp add: ring_get_prev_id_def ring_ids_valid)
  qed
qed

section \<open>Identifiers of the next pushes\<close>

lemma ring_new_id_valid:
  assumes "fifo_inv f" "\<not> pop_status_save f" "i < qsize f"
  shows "ring_check_new_id_valid f i \<longleftrightarrow> i \<notin> set (ring_ids f) \<and> length (ring_ids f) < qsize f"
proof (cases "fifo_is_full f")
  case True
  then have "length (ring_ids f) = qsize f" using ring_full_length assms by blast
  with True show ?thesis by (simp add: ring_check_new_id_valid_def)
next
  case False
  then have "length (ring_ids f) < qsize f"
    using ring_full_length [OF assms(1,2)] ring_ids_le [OF assms(1)] by linarith
  with False assms show ?thesis by (auto simp: ring_check_new_id_valid_def ring_ids_def id_span_def)
qed

lemma ring_push_ids:
  assumes "fifo_inv f" "\<not> fifo_is_full f" "ring_push x f = (ok, i, g)"
  shows "ok" "fifo_inv g" "i = wptr f" "ring_ids g = ring_ids f @ [i]"
    "buffer g = (buffer f)[i := x]" "fifo_items g = fifo_items f @ [x]"
proof -
  obtain ok' g' where p: "fifo_push x f = (ok', g')" by (cases "fifo_push x f")
  then have e: "ok = ok'" "g = g'" "i = wptr f" using assms(3) by (auto simp: ring_push_def Let_def)
  note pc = fifo_rq.push_cases [OF assms(1) p]
  show "ok" "fifo_inv g" "i = wptr f" using e pc assms(1,2) fifo_occupied_le [OF assms(1)]
    by (auto simp: fifo_full_iff)
  show "fifo_items g = fifo_items f @ [x]" using e pc \<open>ok\<close> by simp
  have g: "g = f\<lparr>buffer := (buffer f)[wptr f := x],
           wptr := fst (ring_step (qsize f) (wptr f) (wstage f)),
           wstage := snd (ring_step (qsize f) (wptr f) (wstage f))\<rparr>"
    using fifo_push_not_full [OF assms(2)] p e by simp
  then show "buffer g = (buffer f)[i := x]" using e by simp
  have nf: "length (ring_ids f) < qsize f"
    using pc(1) \<open>ok\<close> e ring_ids_length [OF assms(1)] fifo_items_le_occupied [OF assms(1)] by simp
  then have "ring_count (qsize f) (wptr f) (wstage f) (rptr f) (rstage f) < qsize f"
    using ring_ids_length [OF assms(1)] fifo_length_items [OF assms(1)] by simp
  then show "ring_ids g = ring_ids f @ [i]"
    using g e assms(1) id_span_write [of "qsize f" "wptr f" "wstage f" "rptr f" "rstage f"]
    by (simp add: ring_ids_def fifo_inv_def)
qed

lemma ring_pop_ids:
  assumes "fifo_inv f" "ring_ids f = i # ids" "ring_pop f = (ok, g)"
  shows "ok" "fifo_inv g" "ring_ids g = ids" "buffer g = buffer f"
proof -
  obtain y g' where p: "fifo_pop f = (y, g')" by (cases "fifo_pop f")
  have it: "fifo_items f = buffer f ! i # map (\<lambda>i. buffer f ! i) ids"
    using assms(1,2) by (simp add: ring_ids_items)
  note po = fifo_pop_ok [OF assms(1) it p]
  have g: "g = g'" "ok" using p po(1) assms(3) by (auto simp: ring_pop_def)
  show "ok" "fifo_inv g" using g po by auto
  have "\<not> fifo_is_empty f" using assms(1) it by (simp add: fifo_empty_iff)
  then have g2: "g = f\<lparr>rptr := fst (ring_step (qsize f) (rptr f) (rstage f)),
           rstage := snd (ring_step (qsize f) (rptr f) (rstage f))\<rparr>"
    using p g by (simp add: fifo_pop_not_empty)
  then show "buffer g = buffer f" by simp
  have "0 < ring_count (qsize f) (wptr f) (wstage f) (rptr f) (rstage f)"
    using it fifo_length_items [OF assms(1)] by simp
  then have "ring_ids f = rptr f # ring_ids g"
    using g2 assms(1) id_span_read [of "qsize f" "wptr f" "wstage f" "rptr f" "rstage f"
        "fst (ring_step (qsize f) (rptr f) (rstage f))" "snd (ring_step (qsize f) (rptr f) (rstage f))"]
    by (simp add: ring_ids_def fifo_inv_def)
  with assms(2) show "ring_ids g = ids" by simp
qed

section \<open>Deferred pops and writes\<close>

text \<open>The requests that \<open>sync()\<close> of \<open>rob\<close> and \<open>checkpoint_buffer\<close> replay; the result of
  \<open>pop()\<close> is ignored there.\<close>

datatype 'a ring_request = Ring_pop | Ring_set_item nat 'a

fun ring_apply :: "'a ring_request \<Rightarrow> ('a, 'z) fifo_scheme \<Rightarrow> ('a, 'z) fifo_scheme option" where
  "ring_apply Ring_pop f = Some (snd (ring_pop f))"
| "ring_apply (Ring_set_item i x) f = ring_set_item i x f"

fun ring_request_ok :: "nat \<Rightarrow> 'a ring_request \<Rightarrow> bool" where
  "ring_request_ok n Ring_pop = True"
| "ring_request_ok n (Ring_set_item i x) = (i < n)"

fun ring_writes :: "nat \<Rightarrow> 'a ring_request list \<Rightarrow> 'a list" where
  "ring_writes i [] = []"
| "ring_writes i (Ring_pop # rs) = ring_writes i rs"
| "ring_writes i (Ring_set_item j x # rs) = (if i = j then x # ring_writes i rs else ring_writes i rs)"

definition ring_pops :: "'a ring_request list \<Rightarrow> nat" where
  "ring_pops rs = length (filter (\<lambda>r. r = Ring_pop) rs)"

lemma ring_pop_none: "fifo_inv f \<Longrightarrow> ring_ids f = [] \<Longrightarrow> ring_pop f = (False, f)"
  by (simp add: ring_pop_def fifo_pop_empty ring_ids_items)

lemma ring_pop_tl:
  assumes "fifo_inv f"
  shows "fifo_inv (snd (ring_pop f)) \<and> ring_ids (snd (ring_pop f)) = tl (ring_ids f)
    \<and> buffer (snd (ring_pop f)) = buffer f"
proof (cases "ring_ids f")
  case (Cons i ids)
  obtain ok g where "ring_pop f = (ok, g)" by (cases "ring_pop f")
  from ring_pop_ids [OF assms Cons this] this Cons show ?thesis by simp
qed (use assms ring_pop_none [OF assms] in auto)

lemma ring_pop_qsize [simp]: "qsize (snd (ring_pop f)) = qsize f"
  by (auto simp: ring_pop_def fifo_pop_def Let_def)

lemma ring_pop_save [simp]: "pop_status_save (snd (ring_pop f)) = pop_status_save f"
  by (auto simp: ring_pop_def fifo_pop_def Let_def)

lemma ring_set_item_props:
  assumes "fifo_inv f" "i < qsize f"
  shows "\<exists>g. ring_set_item i x f = Some g \<and> fifo_inv g \<and> ring_ids g = ring_ids f
    \<and> buffer g = (buffer f)[i := x] \<and> qsize g = qsize f \<and> pop_status_save g = pop_status_save f"
  using assms by (auto simp: ring_set_item_def array_set_def fifo_inv_def ring_ids_def)

lemma ring_replay:
  assumes "fifo_inv f" "\<forall>r \<in> set rs. ring_request_ok (qsize f) r"
  shows "\<exists>g. fold_opt ring_apply rs f = Some g \<and> fifo_inv g \<and> qsize g = qsize f
    \<and> pop_status_save g = pop_status_save f
    \<and> ring_ids g = drop (ring_pops rs) (ring_ids f)
    \<and> (\<forall>i < qsize f. buffer g ! i = last (buffer f ! i # ring_writes i rs))"
  using assms
proof (induction rs arbitrary: f)
  case (Cons r rs)
  show ?case
  proof (cases r)
    case Ring_pop
    let ?g = "snd (ring_pop f)"
    from Cons.IH [of ?g] Cons.prems ring_pop_tl [OF Cons.prems(1)] Ring_pop
    show ?thesis by (auto simp: ring_pops_def drop_Suc)
  next
    case (Ring_set_item i x)
    with Cons.prems have "i < qsize f" by simp
    from ring_set_item_props [OF Cons.prems(1) this, of x] obtain g where
      g: "ring_set_item i x f = Some g" "fifo_inv g" "ring_ids g = ring_ids f"
        "buffer g = (buffer f)[i := x]" "qsize g = qsize f" "pop_status_save g = pop_status_save f"
      by blast
    have len: "length (buffer f) = qsize f" using Cons.prems(1) by (simp add: fifo_inv_def)
    from Cons.IH [OF g(2)] Cons.prems(2) g(5) obtain h where
      h: "fold_opt ring_apply rs g = Some h" "fifo_inv h" "qsize h = qsize g"
        "pop_status_save h = pop_status_save g" "ring_ids h = drop (ring_pops rs) (ring_ids g)"
        "\<forall>k < qsize g. buffer h ! k = last (buffer g ! k # ring_writes k rs)" by auto
    have "\<forall>k < qsize f. buffer h ! k = last (buffer f ! k # ring_writes k (r # rs))"
      using h(6) g(4,5) len Ring_set_item by (auto simp: nth_list_update)
    with g h Ring_set_item show ?thesis by (auto simp: ring_pops_def)
  qed
qed (simp add: ring_pops_def)

interpretation ring_dq: deferred_total ring_apply
    "\<lambda>f. fifo_inv f \<and> qsize f = n" "ring_request_ok n" for n
proof
  fix f g :: "('a, 'b) fifo_scheme" and r :: "'a ring_request"
  assume f: "fifo_inv f \<and> qsize f = n" and r: "ring_request_ok n r"
  from ring_replay [of f "[r]"] f r
  obtain h where h: "ring_apply r f = Some h" "fifo_inv h" "qsize h = n"
    by (auto simp: bind_eq_Some_conv)
  then show "\<exists>t. ring_apply r f = Some t" by blast
  assume "ring_apply r f = Some g"
  with h show "fifo_inv g \<and> qsize g = n" by simp
qed

end
