(* ===== verification/Bitmap.thy ===== *)
theory Bitmap
  imports Prelude
begin

text \<open>
  Bitmaps kept in arrays of \<open>uint64_t\<close>, as \<open>component/rat.h\<close>, \<open>component/regfile.h\<close> and
  \<open>checkpoint_t\<close> use them: bit \<open>i\<close> is bit \<open>i % 64\<close> of word \<open>i / 64\<close>.  The code writes the same
  masking expressions in every accessor; they are \<open>bm_get\<close> and \<open>bm_set\<close> here, and the locale
  \<open>flag_store\<close> is the contract their users rely on.
\<close>

definition bm_words :: "nat \<Rightarrow> nat" where
  "bm_words n = (n + 64 - 1) div 64"

definition bm_get :: "u64 list \<Rightarrow> nat \<Rightarrow> bool option" where
  "bm_get b i = do { w \<leftarrow> array_get b (i div 64); Some (w AND push_bit (i mod 64) 1 \<noteq> 0) }"

definition bm_set :: "u64 list \<Rightarrow> nat \<Rightarrow> bool \<Rightarrow> u64 list option" where
  "bm_set b i v = do {
     w \<leftarrow> array_get b (i div 64);
     array_set b (i div 64)
       (if v then w OR push_bit (i mod 64) 1 else w AND NOT (push_bit (i mod 64) 1)) }"

text \<open>The same on a bitmap that is large enough.\<close>

definition bm_bit :: "u64 list \<Rightarrow> nat \<Rightarrow> bool" where
  "bm_bit b i = bit (b ! (i div 64)) (i mod 64)"

definition bm_put :: "u64 list \<Rightarrow> nat \<Rightarrow> bool \<Rightarrow> u64 list" where
  "bm_put b i v = b[i div 64 := (if v then b ! (i div 64) OR push_bit (i mod 64) 1
     else b ! (i div 64) AND NOT (push_bit (i mod 64) 1))]"

lemma bm_words_bound: "i < n \<Longrightarrow> i div 64 < bm_words n"
  unfolding bm_words_def by linarith

lemma bm_get_eq:
  "length b = bm_words n \<Longrightarrow> i < n \<Longrightarrow> bm_get b i = Some (bm_bit b i)"
  using bm_words_bound [of i n] by (simp add: bm_get_def bm_bit_def array_get_def and_exp_eq_0_iff_not_bit)

lemma bm_set_eq:
  "length b = bm_words n \<Longrightarrow> i < n \<Longrightarrow> bm_set b i v = Some (bm_put b i v)"
  using bm_words_bound [of i n] by (simp add: bm_set_def bm_put_def array_get_def array_set_def)

lemma length_bm_put [simp]: "length (bm_put b i v) = length b"
  by (simp add: bm_put_def)

lemma bm_bit_put:
  assumes "length b = bm_words n" "i < n"
  shows "bm_bit (bm_put b i v) j = (if i = j then v else bm_bit b j)"
proof (cases "i div 64 = j div 64")
  case True
  have "i = j \<longleftrightarrow> i mod 64 = j mod 64" using True by (metis div_mult_mod_eq)
  moreover have "j mod 64 < 64" by simp
  ultimately show ?thesis
    using True assms bm_words_bound [of i n]
    by (auto simp: bm_bit_def bm_put_def bit_simps)
next
  case False
  then show ?thesis by (auto simp: bm_bit_def bm_put_def)
qed

lemma bm_bit_zero: "i < n \<Longrightarrow> bm_bit (replicate (bm_words n) 0) i = False"
  using bm_words_bound [of i n] by (simp add: bm_bit_def)

section \<open>The contract of a set of flags\<close>

locale flag_store =
  fixes get :: "'s \<Rightarrow> nat \<Rightarrow> bool option"
    and put :: "'s \<Rightarrow> nat \<Rightarrow> bool \<Rightarrow> 's option"
    and view :: "'s \<Rightarrow> nat \<Rightarrow> bool"
    and room :: "'s \<Rightarrow> nat"
  assumes get_ok: "i < room s \<Longrightarrow> get s i = Some (view s i)"
    and put_ok: "i < room s \<Longrightarrow> \<exists>t. put s i v = Some t \<and> room t = room s
      \<and> (\<forall>j < room s. view t j = (if i = j then v else view s j))"
begin

lemma get_after_put:
  assumes "i < room s" "j < room s" "put s i v = Some t"
  shows "get t j = (if i = j then Some v else get s j)"
  using put_ok [OF assms(1), of v] get_ok assms by auto

text \<open>Clearing or setting a list of flags one after the other.\<close>

lemma put_list:
  assumes "\<forall>i \<in> set xs. i < room s"
  shows "\<exists>t. fold_opt (\<lambda>i s. put s i v) xs s = Some t \<and> room t = room s
    \<and> (\<forall>j < room s. view t j = (if j \<in> set xs then v else view s j))"
  using assms
proof (induction xs arbitrary: s)
  case (Cons i xs)
  then obtain s' where s': "put s i v = Some s'" "room s' = room s"
      "\<forall>j < room s. view s' j = (if i = j then v else view s j)"
    using put_ok [of i s v] by auto
  from Cons.IH [of s'] Cons.prems s'(2) obtain t where
    "fold_opt (\<lambda>i s. put s i v) xs s' = Some t" "room t = room s"
    "\<forall>j < room s. view t j = (if j \<in> set xs then v else view s' j)" by auto
  with s' show ?case by auto
qed simp

end

interpretation bm: flag_store bm_get bm_set bm_bit "\<lambda>b. 64 * length b"
proof
  have w: "bm_words (64 * k) = k" for k
    by (simp add: bm_words_def)
  fix i v and b :: "u64 list"
  assume i: "i < 64 * length b"
  have l: "length b = bm_words (64 * length b)" by (simp add: w)
  show "bm_get b i = Some (bm_bit b i)" by (rule bm_get_eq [OF l i])
  show "\<exists>t. bm_set b i v = Some t \<and> 64 * length t = 64 * length b
      \<and> (\<forall>j < 64 * length b. bm_bit t j = (if i = j then v else bm_bit b j))"
    using bm_set_eq [OF l i, of v] bm_bit_put [OF l i, of v] by auto
qed

end
