(* ===== verification/Checkpoint.thy ===== *)
theory Checkpoint
  imports Ring Bitmap
begin

text \<open>
  \<open>component/checkpoint_buffer.h\<close>: the checkpoint of the renaming state and of the branch
  predictor's history, and the ring buffer that holds the checkpoints of the branches in flight.
\<close>

section \<open>The checkpoint\<close>

definition PHY_REG_NUM :: nat where "PHY_REG_NUM = 128"
definition ARCH_REG_NUM :: nat where "ARCH_REG_NUM = 32"

definition phy_reg_num_bitmap_size :: nat where
  "phy_reg_num_bitmap_size = (PHY_REG_NUM + 64 - 1) div 64"

record checkpoint_t =
  rat_phy_map_table_valid :: "u64 list"
  rat_phy_map_table_visible :: "u64 list"
  phy_regfile_data_valid :: "u64 list"
  rat_phy_map_table :: "nat list"
  global_history :: u32
  local_history :: u32

text \<open>\<open>clone\<close> writes \<open>cp\<close>; the register file's valid bits and the map table are not copied.\<close>

definition checkpoint_clone :: "checkpoint_t \<Rightarrow> checkpoint_t \<Rightarrow> checkpoint_t option" where
  "checkpoint_clone this cp = do {
     va \<leftarrow> memcpy_arr phy_reg_num_bitmap_size (rat_phy_map_table_valid cp) (rat_phy_map_table_valid this);
     vi \<leftarrow> memcpy_arr phy_reg_num_bitmap_size (rat_phy_map_table_visible cp) (rat_phy_map_table_visible this);
     Some (cp\<lparr>rat_phy_map_table_valid := va, rat_phy_map_table_visible := vi,
       global_history := global_history this, local_history := local_history this\<rparr>) }"

definition checkpoint_ok :: "checkpoint_t \<Rightarrow> bool" where
  "checkpoint_ok cp =
     (length (rat_phy_map_table_valid cp) = phy_reg_num_bitmap_size
      \<and> length (rat_phy_map_table_visible cp) = phy_reg_num_bitmap_size
      \<and> length (phy_regfile_data_valid cp) = phy_reg_num_bitmap_size
      \<and> length (rat_phy_map_table cp) = PHY_REG_NUM)"

section \<open>The ring of checkpoints\<close>

record checkpoint_buffer = "checkpoint_t fifo" +
  cpbuf_request_q :: "checkpoint_t ring_request list"

definition cpbuf_reset :: "checkpoint_buffer \<Rightarrow> checkpoint_buffer" where
  "cpbuf_reset b = (fifo_reset b)\<lparr>cpbuf_request_q := []\<rparr>"

definition cpbuf_check_new_id_valid :: "checkpoint_buffer \<Rightarrow> nat \<Rightarrow> bool" where
  "cpbuf_check_new_id_valid b i = ring_check_new_id_valid b i"

definition cpbuf_check_id_valid :: "checkpoint_buffer \<Rightarrow> nat \<Rightarrow> bool" where
  "cpbuf_check_id_valid b i = ring_check_id_valid b i"

definition cpbuf_push :: "checkpoint_t \<Rightarrow> checkpoint_buffer \<Rightarrow> bool \<times> nat \<times> checkpoint_buffer" where
  "cpbuf_push cp b = ring_push cp b"

definition cpbuf_get_item :: "checkpoint_buffer \<Rightarrow> nat \<Rightarrow> checkpoint_t option" where
  "cpbuf_get_item b i = ring_get_item b i"

definition cpbuf_set_item :: "nat \<Rightarrow> checkpoint_t \<Rightarrow> checkpoint_buffer \<Rightarrow> checkpoint_buffer option" where
  "cpbuf_set_item i cp b = ring_set_item i cp b"

definition cpbuf_set_item_sync :: "nat \<Rightarrow> checkpoint_t \<Rightarrow> checkpoint_buffer \<Rightarrow> checkpoint_buffer" where
  "cpbuf_set_item_sync i cp b = b\<lparr>cpbuf_request_q := cpbuf_request_q b @ [Ring_set_item i cp]\<rparr>"

definition cpbuf_get_front :: "checkpoint_buffer \<Rightarrow> checkpoint_t option" where
  "cpbuf_get_front b = ring_get_front b"

definition cpbuf_get_size :: "checkpoint_buffer \<Rightarrow> nat" where
  "cpbuf_get_size b = ring_get_size b"

definition cpbuf_get_free_space :: "checkpoint_buffer \<Rightarrow> nat" where
  "cpbuf_get_free_space b = ring_get_free_space b"

definition cpbuf_get_new_id :: "checkpoint_buffer \<Rightarrow> nat option" where
  "cpbuf_get_new_id b = ring_get_new_id b"

definition cpbuf_get_next_new_id :: "checkpoint_buffer \<Rightarrow> nat \<Rightarrow> nat \<Rightarrow> bool \<times> nat" where
  "cpbuf_get_next_new_id b cur out = ring_get_next_new_id b cur out"

definition cpbuf_get_front_id :: "checkpoint_buffer \<Rightarrow> nat option" where
  "cpbuf_get_front_id b = ring_get_front_id b"

definition cpbuf_get_tail_id :: "checkpoint_buffer \<Rightarrow> nat option" where
  "cpbuf_get_tail_id b = ring_get_tail_id b"

definition cpbuf_get_prev_id :: "checkpoint_buffer \<Rightarrow> nat \<Rightarrow> (bool \<times> nat) option" where
  "cpbuf_get_prev_id b i = ring_get_prev_id b i"

definition cpbuf_get_next_id :: "checkpoint_buffer \<Rightarrow> nat \<Rightarrow> (bool \<times> nat) option" where
  "cpbuf_get_next_id b i = ring_get_next_id b i"

definition cpbuf_pop :: "checkpoint_buffer \<Rightarrow> bool \<times> checkpoint_buffer" where
  "cpbuf_pop b = ring_pop b"

definition cpbuf_pop_sync :: "checkpoint_buffer \<Rightarrow> checkpoint_buffer" where
  "cpbuf_pop_sync b = b\<lparr>cpbuf_request_q := cpbuf_request_q b @ [Ring_pop]\<rparr>"

definition cpbuf_sync :: "checkpoint_buffer \<Rightarrow> checkpoint_buffer option" where
  "cpbuf_sync b = do {
     t \<leftarrow> fold_opt ring_apply (cpbuf_request_q b) b;
     Some (t\<lparr>cpbuf_request_q := []\<rparr>) }"

text \<open>At the end of a cycle the checkpoint buffer drops as many of its oldest checkpoints as pops
  were requested, every slot holds the last checkpoint a deferred write gave it (or what it held),
  the queue of requests is empty and the ring stays well formed; no request to a slot of the buffer
  aborts.\<close>

theorem cpbuf_sync_correct:
  assumes "fifo_inv b" "\<forall>r \<in> set (cpbuf_request_q b). ring_request_ok (qsize b) r"
  shows "\<exists>t. cpbuf_sync b = Some t \<and> fifo_inv t \<and> cpbuf_request_q t = []
    \<and> ring_ids t = drop (ring_pops (cpbuf_request_q b)) (ring_ids b)
    \<and> (\<forall>i < qsize b. cpbuf_get_item t i
          = Some (last (buffer b ! i # ring_writes i (cpbuf_request_q b))))"
proof -
  obtain g where g: "fold_opt ring_apply (cpbuf_request_q b) b = Some g" "fifo_inv g" "qsize g = qsize b"
      "ring_ids g = drop (ring_pops (cpbuf_request_q b)) (ring_ids b)"
      "\<forall>i < qsize b. buffer g ! i = last (buffer b ! i # ring_writes i (cpbuf_request_q b))"
    using ring_replay [OF assms] by blast
  then show ?thesis
    by (auto simp: cpbuf_sync_def cpbuf_get_item_def ring_get_item_def fifo_inv_def ring_ids_def)
qed

definition cp_sample :: "u32 \<Rightarrow> checkpoint_t" where
  "cp_sample h = \<lparr>rat_phy_map_table_valid = [0, 0], rat_phy_map_table_visible = [0, 0],
     phy_regfile_data_valid = [0, 0], rat_phy_map_table = replicate 128 0,
     global_history = h, local_history = 0\<rparr>"

definition cpbuf_sample :: checkpoint_buffer where
  "cpbuf_sample = \<lparr>buffer = [cp_sample 1, cp_sample 2], qsize = 2, wptr = 0, wstage = True,
     rptr = 0, rstage = False, pop_status_save = False, rptr_saved = 0, rstage_saved = False,
     cpbuf_request_q = [Ring_pop, Ring_set_item 1 (cp_sample 7)]\<rparr>"

theorem cpbuf_sync_correct_witness:
  "\<exists>t. cpbuf_sync cpbuf_sample = Some t \<and> ring_ids t = [1] \<and> cpbuf_get_item t 1 = Some (cp_sample 7)"
proof -
  have i: "fifo_inv cpbuf_sample" "\<forall>r \<in> set (cpbuf_request_q cpbuf_sample). ring_request_ok (qsize cpbuf_sample) r"
    by (simp_all add: cpbuf_sample_def fifo_inv_def ring_ok_def)
  have ids: "drop (ring_pops (cpbuf_request_q cpbuf_sample)) (ring_ids cpbuf_sample) = [1]"
    and one: "1 < qsize cpbuf_sample"
      "last (buffer cpbuf_sample ! 1 # ring_writes 1 (cpbuf_request_q cpbuf_sample)) = cp_sample 7"
    by (simp_all add: cpbuf_sample_def ring_pops_def ring_ids_def id_span_def upt_rec)
  from cpbuf_sync_correct [OF i] ids one show ?thesis by metis
qed

end
