(* ===== verification/Rat.thy ===== *)
theory Rat
  imports Checkpoint
begin

text \<open>
  \<open>component/rat.h\<close>: the register alias table.  Physical register \<open>p\<close> is mapped to
  architectural register \<open>phy_map_table[p]\<close> when its valid bit is set; its visible bit says that
  it is the newest mapping of that register, its commit bit that the mapping has been committed.
  Renaming, committing and undoing a mapping are deferred requests.  The same operations exist on
  the copy of the table in a checkpoint.
\<close>

section \<open>State\<close>

datatype rat_request =
    Rat_set_map nat nat
  | Rat_release_map nat
  | Rat_commit_map nat
  | Rat_restore_map nat nat
  | Rat_restore checkpoint_t

record rat =
  rat_request_q :: "rat_request list"
  phy_reg_num :: nat
  arch_reg_num :: nat
  phy_map_table :: "nat list"
  phy_map_table_valid :: "u64 list"
  phy_map_table_visible :: "u64 list"
  phy_map_table_commit :: "u64 list"
  init_rat :: bool

definition rat_set_valid :: "nat \<Rightarrow> bool \<Rightarrow> rat \<Rightarrow> rat option" where
  "rat_set_valid p v r = do {
     cassert (p < phy_reg_num r);
     b \<leftarrow> bm_set (phy_map_table_valid r) p v;
     Some (r\<lparr>phy_map_table_valid := b\<rparr>) }"

definition rat_get_valid :: "rat \<Rightarrow> nat \<Rightarrow> bool option" where
  "rat_get_valid r p = do { cassert (p < phy_reg_num r); bm_get (phy_map_table_valid r) p }"

definition rat_set_visible :: "nat \<Rightarrow> bool \<Rightarrow> rat \<Rightarrow> rat option" where
  "rat_set_visible p v r = do {
     cassert (p < phy_reg_num r);
     b \<leftarrow> bm_set (phy_map_table_visible r) p v;
     Some (r\<lparr>phy_map_table_visible := b\<rparr>) }"

definition rat_get_visible :: "rat \<Rightarrow> nat \<Rightarrow> bool option" where
  "rat_get_visible r p = do { cassert (p < phy_reg_num r); bm_get (phy_map_table_visible r) p }"

definition rat_set_commit :: "nat \<Rightarrow> bool \<Rightarrow> rat \<Rightarrow> rat option" where
  "rat_set_commit p v r = do {
     cassert (p < phy_reg_num r);
     b \<leftarrow> bm_set (phy_map_table_commit r) p v;
     Some (r\<lparr>phy_map_table_commit := b\<rparr>) }"

definition rat_get_commit :: "rat \<Rightarrow> nat \<Rightarrow> bool option" where
  "rat_get_commit r p = do { cassert (p < phy_reg_num r); bm_get (phy_map_table_commit r) p }"

text \<open>The constructor allocates without initialising; \<open>init_start\<close> clears everything.  \<open>reset()\<close>
  only concerns the trace database.\<close>

definition rat_init_start :: "rat \<Rightarrow> rat" where
  "rat_init_start r = r\<lparr>phy_map_table := replicate (phy_reg_num r) 0,
     phy_map_table_valid := replicate (bm_words (phy_reg_num r)) 0,
     phy_map_table_visible := replicate (bm_words (phy_reg_num r)) 0,
     phy_map_table_commit := replicate (bm_words (phy_reg_num r)) 0,
     rat_request_q := [], init_rat := True\<rparr>"

definition rat_init_finish :: "rat \<Rightarrow> rat" where
  "rat_init_finish r = r\<lparr>init_rat := False\<rparr>"

definition rat_new :: "nat \<Rightarrow> nat \<Rightarrow> nat \<Rightarrow> u64 \<Rightarrow> rat" where
  "rat_new n a junk junkw = \<lparr>rat_request_q = [], phy_reg_num = n, arch_reg_num = a,
     phy_map_table = replicate n junk,
     phy_map_table_valid = replicate (bm_words n) junkw,
     phy_map_table_visible = replicate (bm_words n) junkw,
     phy_map_table_commit = replicate (bm_words n) junkw, init_rat = False\<rparr>"

section \<open>Searching the table\<close>

text \<open>The searches leave the out-parameter \<open>phy_id\<close> as it was (\<open>junk\<close>) when nothing is found.\<close>

definition rat_get_phy_id :: "rat \<Rightarrow> nat \<Rightarrow> nat \<Rightarrow> (bool \<times> nat) option" where
  "rat_get_phy_id r arch_id junk = do {
     cassert (arch_id > 0 \<and> arch_id < arch_reg_num r);
     (cnt, phy_id) \<leftarrow> fold_opt (\<lambda>i (cnt, phy_id). do {
         b \<leftarrow> do { v \<leftarrow> rat_get_valid r i;
                  if v then do { w \<leftarrow> rat_get_visible r i;
                                 if w then do { t \<leftarrow> array_get (phy_map_table r) i; Some (t = arch_id) }
                                 else Some False }
                  else Some False };
         Some (if b then (cnt + 1, i) else (cnt, phy_id)) }) [0..<phy_reg_num r] (0 :: nat, junk);
     cassert (cnt \<le> 1);
     Some (cnt = 1, phy_id) }"

definition rat_get_commit_phy_id :: "rat \<Rightarrow> nat \<Rightarrow> nat \<Rightarrow> nat option" where
  "rat_get_commit_phy_id r arch_id junk = do {
     cassert (arch_id > 0 \<and> arch_id < arch_reg_num r);
     (cnt, phy_id) \<leftarrow> fold_opt (\<lambda>i (cnt, phy_id). do {
         b \<leftarrow> do { v \<leftarrow> rat_get_valid r i;
                  if v then do { w \<leftarrow> rat_get_commit r i;
                                 if w then do { t \<leftarrow> array_get (phy_map_table r) i; Some (t = arch_id) }
                                 else Some False }
                  else Some False };
         Some (if b then (cnt + 1, i) else (cnt, phy_id)) }) [0..<phy_reg_num r] (0 :: nat, junk);
     cassert (cnt = 1);
     Some phy_id }"

text \<open>\<open>get_free_phy_id(num, ret)\<close> writes the free registers it finds to \<open>ret\<close> and stops once it has
  \<open>num\<close> of them; the list is what it wrote.\<close>

fun rat_free_scan :: "rat \<Rightarrow> nat \<Rightarrow> nat list \<Rightarrow> nat list \<Rightarrow> nat list option" where
  "rat_free_scan r num [] ret = Some ret"
| "rat_free_scan r num (i # js) ret = do {
     v \<leftarrow> rat_get_valid r i;
     if \<not> v then
       (let ret' = ret @ [i] in
        if length ret' \<ge> num then Some ret' else rat_free_scan r num js ret')
     else rat_free_scan r num js ret }"

definition rat_get_free_phy_id :: "rat \<Rightarrow> nat \<Rightarrow> nat list option" where
  "rat_get_free_phy_id r num = rat_free_scan r num [0..<phy_reg_num r] []"

section \<open>Changing the table\<close>

definition rat_set_table :: "nat \<Rightarrow> nat \<Rightarrow> rat \<Rightarrow> rat option" where
  "rat_set_table p a r = do { t \<leftarrow> array_set (phy_map_table r) p a; Some (r\<lparr>phy_map_table := t\<rparr>) }"

text \<open>\<open>set_map\<close> returns the register that was mapped before (uninitialised, \<open>junk\<close>, when there was
  none, which only the initialisation allows).\<close>

definition rat_set_map :: "nat \<Rightarrow> nat \<Rightarrow> nat \<Rightarrow> rat \<Rightarrow> (nat \<times> rat) option" where
  "rat_set_map junk arch_id phy_id r = do {
     cassert (phy_id < phy_reg_num r);
     cassert (arch_id > 0 \<and> arch_id < arch_reg_num r);
     v \<leftarrow> rat_get_valid r phy_id;
     cassert (\<not> v);
     (ret, old_phy_id) \<leftarrow> rat_get_phy_id r arch_id junk;
     (if \<not> init_rat r then do {
        cassert ret;
        v \<leftarrow> rat_get_valid r phy_id;
        cassert (\<not> v) }
      else Some ());
     r \<leftarrow> rat_set_table phy_id arch_id r;
     r \<leftarrow> rat_set_valid phy_id True r;
     r \<leftarrow> rat_set_visible phy_id True r;
     r \<leftarrow> rat_set_commit phy_id False r;
     r \<leftarrow> (if ret then rat_set_visible old_phy_id False r else Some r);
     Some (old_phy_id, r) }"

definition rat_commit_map :: "nat \<Rightarrow> rat \<Rightarrow> rat option" where
  "rat_commit_map phy_id r = do {
     cassert (phy_id < phy_reg_num r);
     v \<leftarrow> rat_get_valid r phy_id;
     cassert v;
     c \<leftarrow> rat_get_commit r phy_id;
     cassert (\<not> c);
     rat_set_commit phy_id True r }"

definition rat_release_map :: "nat \<Rightarrow> rat \<Rightarrow> rat option" where
  "rat_release_map phy_id r = do {
     cassert (phy_id < phy_reg_num r);
     v \<leftarrow> rat_get_valid r phy_id;
     cassert v;
     w \<leftarrow> rat_get_visible r phy_id;
     cassert (\<not> w);
     r \<leftarrow> rat_set_table phy_id 0 r;
     rat_set_valid phy_id False r }"

definition rat_restore_map :: "nat \<Rightarrow> nat \<Rightarrow> rat \<Rightarrow> rat option" where
  "rat_restore_map new_phy_id old_phy_id r = do {
     cassert (new_phy_id < phy_reg_num r);
     cassert (old_phy_id < phy_reg_num r);
     v \<leftarrow> rat_get_valid r new_phy_id;
     cassert v;
     v \<leftarrow> rat_get_valid r old_phy_id;
     cassert v;
     w \<leftarrow> rat_get_visible r new_phy_id;
     cassert w;
     w \<leftarrow> rat_get_visible r old_phy_id;
     cassert (\<not> w);
     r \<leftarrow> rat_set_table new_phy_id 0 r;
     r \<leftarrow> rat_set_valid new_phy_id False r;
     r \<leftarrow> rat_set_visible new_phy_id False r;
     r \<leftarrow> rat_set_valid old_phy_id True r;
     rat_set_visible old_phy_id True r }"

section \<open>Checkpoints\<close>

definition rat_save :: "rat \<Rightarrow> checkpoint_t \<Rightarrow> checkpoint_t option" where
  "rat_save r cp = do {
     va \<leftarrow> memcpy_arr phy_reg_num_bitmap_size (rat_phy_map_table_valid cp) (phy_map_table_valid r);
     vi \<leftarrow> memcpy_arr phy_reg_num_bitmap_size (rat_phy_map_table_visible cp) (phy_map_table_visible r);
     tb \<leftarrow> memcpy_arr PHY_REG_NUM (rat_phy_map_table cp) (phy_map_table r);
     Some (cp\<lparr>rat_phy_map_table_valid := va, rat_phy_map_table_visible := vi,
       rat_phy_map_table := tb\<rparr>) }"

definition rat_restore :: "checkpoint_t \<Rightarrow> rat \<Rightarrow> rat option" where
  "rat_restore cp r = do {
     va \<leftarrow> memcpy_arr phy_reg_num_bitmap_size (phy_map_table_valid r) (rat_phy_map_table_valid cp);
     vi \<leftarrow> memcpy_arr phy_reg_num_bitmap_size (phy_map_table_visible r) (rat_phy_map_table_visible cp);
     Some (r\<lparr>phy_map_table_valid := va, phy_map_table_visible := vi\<rparr>) }"

definition rat_cp_set_valid :: "rat \<Rightarrow> checkpoint_t \<Rightarrow> nat \<Rightarrow> bool \<Rightarrow> checkpoint_t option" where
  "rat_cp_set_valid r cp p v = do {
     cassert (p < phy_reg_num r);
     b \<leftarrow> bm_set (rat_phy_map_table_valid cp) p v;
     Some (cp\<lparr>rat_phy_map_table_valid := b\<rparr>) }"

definition rat_cp_get_valid :: "rat \<Rightarrow> checkpoint_t \<Rightarrow> nat \<Rightarrow> bool option" where
  "rat_cp_get_valid r cp p = do {
     cassert (p < phy_reg_num r);
     bm_get (rat_phy_map_table_valid cp) p }"

definition rat_cp_set_visible :: "rat \<Rightarrow> checkpoint_t \<Rightarrow> nat \<Rightarrow> bool \<Rightarrow> checkpoint_t option" where
  "rat_cp_set_visible r cp p v = do {
     cassert (p < phy_reg_num r);
     b \<leftarrow> bm_set (rat_phy_map_table_visible cp) p v;
     Some (cp\<lparr>rat_phy_map_table_visible := b\<rparr>) }"

definition rat_cp_get_visible :: "rat \<Rightarrow> checkpoint_t \<Rightarrow> nat \<Rightarrow> bool option" where
  "rat_cp_get_visible r cp p = do {
     cassert (p < phy_reg_num r);
     bm_get (rat_phy_map_table_visible cp) p }"

definition rat_cp_get_phy_id :: "rat \<Rightarrow> checkpoint_t \<Rightarrow> nat \<Rightarrow> nat \<Rightarrow> (bool \<times> nat) option" where
  "rat_cp_get_phy_id r cp arch_id junk = do {
     cassert (arch_id > 0 \<and> arch_id < arch_reg_num r);
     (cnt, phy_id) \<leftarrow> fold_opt (\<lambda>i (cnt, phy_id). do {
         b \<leftarrow> do { v \<leftarrow> rat_cp_get_valid r cp i;
                  if v then do { w \<leftarrow> rat_cp_get_visible r cp i;
                                 if w then do { t \<leftarrow> array_get (rat_phy_map_table cp) i; Some (t = arch_id) }
                                 else Some False }
                  else Some False };
         Some (if b then (cnt + 1, i) else (cnt, phy_id)) }) [0..<phy_reg_num r] (0 :: nat, junk);
     cassert (cnt \<le> 1);
     Some (cnt = 1, phy_id) }"

definition rat_cp_set_map :: "rat \<Rightarrow> nat \<Rightarrow> checkpoint_t \<Rightarrow> nat \<Rightarrow> nat \<Rightarrow> checkpoint_t option" where
  "rat_cp_set_map r junk cp arch_id phy_id = do {
     cassert (phy_id < phy_reg_num r);
     cassert (arch_id > 0 \<and> arch_id < arch_reg_num r);
     v \<leftarrow> rat_cp_get_valid r cp phy_id;
     cassert (\<not> v);
     (ret, old_phy_id) \<leftarrow> rat_cp_get_phy_id r cp arch_id junk;
     t \<leftarrow> array_set (rat_phy_map_table cp) phy_id arch_id;
     cp \<leftarrow> Some (cp\<lparr>rat_phy_map_table := t\<rparr>);
     cp \<leftarrow> rat_cp_set_valid r cp phy_id True;
     cp \<leftarrow> rat_cp_set_visible r cp phy_id True;
     (if ret then rat_cp_set_visible r cp old_phy_id False else Some cp) }"

definition rat_cp_release_map :: "rat \<Rightarrow> checkpoint_t \<Rightarrow> nat \<Rightarrow> checkpoint_t option" where
  "rat_cp_release_map r cp phy_id = do {
     cassert (phy_id < phy_reg_num r);
     v \<leftarrow> rat_cp_get_valid r cp phy_id;
     cassert v;
     w \<leftarrow> rat_cp_get_visible r cp phy_id;
     cassert (\<not> w);
     rat_cp_set_valid r cp phy_id False }"

section \<open>Deferred requests\<close>

definition rat_set_map_sync :: "nat \<Rightarrow> nat \<Rightarrow> rat \<Rightarrow> rat option" where
  "rat_set_map_sync arch_id phy_id r = do {
     cassert (phy_id < phy_reg_num r);
     cassert (arch_id > 0 \<and> arch_id < arch_reg_num r);
     Some (r\<lparr>rat_request_q := rat_request_q r @ [Rat_set_map arch_id phy_id]\<rparr>) }"

definition rat_commit_map_sync :: "nat \<Rightarrow> rat \<Rightarrow> rat" where
  "rat_commit_map_sync phy_id r = r\<lparr>rat_request_q := rat_request_q r @ [Rat_commit_map phy_id]\<rparr>"

definition rat_release_map_sync :: "nat \<Rightarrow> rat \<Rightarrow> rat" where
  "rat_release_map_sync phy_id r = r\<lparr>rat_request_q := rat_request_q r @ [Rat_release_map phy_id]\<rparr>"

definition rat_restore_map_sync :: "nat \<Rightarrow> nat \<Rightarrow> rat \<Rightarrow> rat" where
  "rat_restore_map_sync new_phy_id old_phy_id r =
     r\<lparr>rat_request_q := rat_request_q r @ [Rat_restore_map new_phy_id old_phy_id]\<rparr>"

definition rat_restore_sync :: "checkpoint_t \<Rightarrow> rat \<Rightarrow> rat" where
  "rat_restore_sync cp r = r\<lparr>rat_request_q := rat_request_q r @ [Rat_restore cp]\<rparr>"

text \<open>\<open>sync()\<close> drops the result of \<open>set_map\<close>.\<close>

fun rat_apply :: "rat_request \<Rightarrow> rat \<Rightarrow> rat option" where
  "rat_apply (Rat_set_map a p) r = map_option snd (rat_set_map 0 a p r)"
| "rat_apply (Rat_release_map p) r = rat_release_map p r"
| "rat_apply (Rat_commit_map p) r = rat_commit_map p r"
| "rat_apply (Rat_restore_map n old) r = rat_restore_map n old r"
| "rat_apply (Rat_restore cp) r = rat_restore cp r"

definition rat_sync :: "rat \<Rightarrow> rat option" where
  "rat_sync r = do {
     t \<leftarrow> fold_opt rat_apply (rat_request_q r) r;
     Some (t\<lparr>rat_request_q := []\<rparr>) }"

section \<open>Invariant\<close>

abbreviation (input) vld :: "rat \<Rightarrow> nat \<Rightarrow> bool" where "vld r \<equiv> bm_bit (phy_map_table_valid r)"
abbreviation (input) vis :: "rat \<Rightarrow> nat \<Rightarrow> bool" where "vis r \<equiv> bm_bit (phy_map_table_visible r)"
abbreviation (input) cmt :: "rat \<Rightarrow> nat \<Rightarrow> bool" where "cmt r \<equiv> bm_bit (phy_map_table_commit r)"

definition rat_wf :: "rat \<Rightarrow> bool" where
  "rat_wf r = (length (phy_map_table r) = phy_reg_num r
     \<and> length (phy_map_table_valid r) = bm_words (phy_reg_num r)
     \<and> length (phy_map_table_visible r) = bm_words (phy_reg_num r)
     \<and> length (phy_map_table_commit r) = bm_words (phy_reg_num r))"

text \<open>\<open>p\<close> is the newest mapping of \<open>a\<close>.\<close>

definition rat_maps :: "rat \<Rightarrow> nat \<Rightarrow> nat \<Rightarrow> bool" where
  "rat_maps r a p = (p < phy_reg_num r \<and> vld r p \<and> vis r p \<and> phy_map_table r ! p = a)"

definition rat_lookup :: "rat \<Rightarrow> nat \<Rightarrow> nat option" where
  "rat_lookup r a = (case filter (rat_maps r a) [0..<phy_reg_num r] of [] \<Rightarrow> None | p # _ \<Rightarrow> Some p)"

definition rat_inv :: "rat \<Rightarrow> bool" where
  "rat_inv r = (rat_wf r
     \<and> (\<forall>p < phy_reg_num r. vld r p \<longrightarrow> 0 < phy_map_table r ! p \<and> phy_map_table r ! p < arch_reg_num r)
     \<and> (\<forall>p < phy_reg_num r. vis r p \<longrightarrow> vld r p)
     \<and> (\<forall>a p q. rat_maps r a p \<longrightarrow> rat_maps r a q \<longrightarrow> p = q)
     \<and> (\<not> init_rat r \<longrightarrow> (\<forall>a. 0 < a \<and> a < arch_reg_num r \<longrightarrow> (\<exists>p. rat_maps r a p))))"

lemma rat_access:
  assumes "rat_wf r" "p < phy_reg_num r"
  shows rat_get_valid_eq: "rat_get_valid r p = Some (vld r p)"
    and rat_get_visible_eq: "rat_get_visible r p = Some (vis r p)"
    and rat_get_commit_eq: "rat_get_commit r p = Some (cmt r p)"
    and rat_set_valid_eq: "rat_set_valid p v r
      = Some (r\<lparr>phy_map_table_valid := bm_put (phy_map_table_valid r) p v\<rparr>)"
    and rat_set_visible_eq: "rat_set_visible p v r
      = Some (r\<lparr>phy_map_table_visible := bm_put (phy_map_table_visible r) p v\<rparr>)"
    and rat_set_commit_eq: "rat_set_commit p v r
      = Some (r\<lparr>phy_map_table_commit := bm_put (phy_map_table_commit r) p v\<rparr>)"
    and rat_set_table_eq: "rat_set_table p a r = Some (r\<lparr>phy_map_table := (phy_map_table r)[p := a]\<rparr>)"
  using assms bm_get_eq [of _ "phy_reg_num r" p] bm_set_eq [of _ "phy_reg_num r" p]
  unfolding rat_get_valid_def rat_get_visible_def rat_get_commit_def rat_set_valid_def
    rat_set_visible_def rat_set_commit_def rat_set_table_def rat_wf_def
  by simp_all

lemma rat_maps_filter:
  assumes "rat_inv r"
  shows "filter (rat_maps r a) [0..<n] = [] \<or> (\<exists>x. filter (rat_maps r a) [0..<n] = [x])"
  by (rule filter_unique [OF distinct_upt]) (use assms in \<open>unfold rat_inv_def, blast\<close>)

lemma rat_lookup_iff:
  assumes "rat_inv r"
  shows "rat_lookup r a = Some p \<longleftrightarrow> rat_maps r a p"
proof -
  have u: "\<And>x y. rat_maps r a x \<Longrightarrow> rat_maps r a y \<Longrightarrow> x = y"
    using assms unfolding rat_inv_def by blast
  have m: "p \<in> set (filter (rat_maps r a) [0..<phy_reg_num r]) \<longleftrightarrow> rat_maps r a p" for p
    by (auto simp: rat_maps_def)
  consider "filter (rat_maps r a) [0..<phy_reg_num r] = []"
    | x where "filter (rat_maps r a) [0..<phy_reg_num r] = [x]"
    using rat_maps_filter [OF assms] by blast
  then show ?thesis
  proof cases
    case 1
    then have "\<not> rat_maps r a p" using m [of p] by simp
    with 1 show ?thesis by (simp add: rat_lookup_def)
  next
    case (2 x)
    then have "rat_maps r a x" using m [of x] by simp
    with 2 u [of x p] show ?thesis by (auto simp: rat_lookup_def)
  qed
qed

lemma rat_lookup_None:
  assumes "rat_inv r"
  shows "rat_lookup r a = None \<longleftrightarrow> (\<forall>p. \<not> rat_maps r a p)"
  using rat_lookup_iff [OF assms, of a] by (metis not_None_eq)

lemma rat_get_phy_id_eq:
  assumes "rat_inv r" "0 < a" "a < arch_reg_num r"
  shows "rat_get_phy_id r a junk
    = Some (case rat_lookup r a of None \<Rightarrow> (False, junk) | Some p \<Rightarrow> (True, p))"
proof -
  have wf: "rat_wf r" using assms(1) by (simp add: rat_inv_def)
  let ?c = "\<lambda>i. do { v \<leftarrow> rat_get_valid r i;
      if v then do { w \<leftarrow> rat_get_visible r i;
                     if w then do { t \<leftarrow> array_get (phy_map_table r) i; Some (t = a) }
                     else Some False }
      else Some False }"
  have c: "?c i = Some (rat_maps r a i)" if "i \<in> set [0..<phy_reg_num r]" for i
    using that rat_access [OF wf, of i] wf by (simp add: rat_maps_def rat_wf_def)
  let ?f = "filter (rat_maps r a) [0..<phy_reg_num r]"
  have scan: "fold_opt (\<lambda>i (cnt, out). do { b \<leftarrow> ?c i; Some (if b then (cnt + 1, i) else (cnt, out)) })
      [0..<phy_reg_num r] (0, junk) = Some (0 + length ?f, last (junk # ?f))"
    by (rule fold_opt_scan [OF c])
  have "?f = [] \<or> (\<exists>x. ?f = [x])" by (rule rat_maps_filter [OF assms(1)])
  then show ?thesis
  proof
    assume "?f = []"
    then show ?thesis using assms(2,3) unfolding rat_get_phy_id_def scan rat_lookup_def by simp
  next
    assume "\<exists>x. ?f = [x]"
    then obtain x where "?f = [x]" ..
    then show ?thesis using assms(2,3) unfolding rat_get_phy_id_def scan rat_lookup_def by simp
  qed
qed

section \<open>What each operation does on a well-formed table\<close>

definition rat_mapped :: "nat \<Rightarrow> nat \<Rightarrow> rat \<Rightarrow> rat" where
  "rat_mapped a p r = r\<lparr>phy_map_table := (phy_map_table r)[p := a],
     phy_map_table_valid := bm_put (phy_map_table_valid r) p True,
     phy_map_table_visible :=
       (let v = bm_put (phy_map_table_visible r) p True in
        case rat_lookup r a of None \<Rightarrow> v | Some q \<Rightarrow> bm_put v q False),
     phy_map_table_commit := bm_put (phy_map_table_commit r) p False\<rparr>"

lemma rat_inv_wf: "rat_inv r \<Longrightarrow> rat_wf r"
  by (simp add: rat_inv_def)

lemma rat_wf_updates [simp]:
  assumes "rat_wf r"
  shows "length t = phy_reg_num r \<Longrightarrow> rat_wf (r\<lparr>phy_map_table := t\<rparr>)"
    "length b = bm_words (phy_reg_num r) \<Longrightarrow> rat_wf (r\<lparr>phy_map_table_valid := b\<rparr>)"
    "length b = bm_words (phy_reg_num r) \<Longrightarrow> rat_wf (r\<lparr>phy_map_table_visible := b\<rparr>)"
    "length b = bm_words (phy_reg_num r) \<Longrightarrow> rat_wf (r\<lparr>phy_map_table_commit := b\<rparr>)"
  using assms by (auto simp: rat_wf_def)

lemma rat_wf_lengths [simp]:
  assumes "rat_wf r"
  shows "length (phy_map_table r) = phy_reg_num r"
    "length (phy_map_table_valid r) = bm_words (phy_reg_num r)"
    "length (phy_map_table_visible r) = bm_words (phy_reg_num r)"
    "length (phy_map_table_commit r) = bm_words (phy_reg_num r)"
  using assms by (simp_all add: rat_wf_def)

lemma rat_lookup_bound:
  "rat_inv r \<Longrightarrow> rat_lookup r a = Some q \<Longrightarrow> q < phy_reg_num r \<and> vld r q \<and> vis r q \<and> phy_map_table r ! q = a"
  using rat_lookup_iff [of r a q] by (simp add: rat_maps_def)

lemma rat_set_map_eq:
  assumes "rat_inv r" "p < phy_reg_num r" "0 < a" "a < arch_reg_num r" "\<not> vld r p"
  shows "rat_set_map junk a p r
    = Some (case rat_lookup r a of None \<Rightarrow> junk | Some q \<Rightarrow> q, rat_mapped a p r)"
proof -
  note wf = rat_inv_wf [OF assms(1)]
  note g = rat_get_valid_eq [OF wf assms(2)] rat_get_phy_id_eq [OF assms(1,3,4), of junk]
  have mapped: "\<not> init_rat r \<Longrightarrow> rat_lookup r a \<noteq> None"
    using assms(1,3,4) rat_lookup_None [OF assms(1)] unfolding rat_inv_def by blast
  show ?thesis
  proof (cases "rat_lookup r a")
    case None
    with mapped have "init_rat r" by blast
    with None show ?thesis
      using assms(2-5) wf unfolding rat_set_map_def g rat_mapped_def
      by (simp add: rat_set_valid_eq rat_set_visible_eq rat_set_commit_eq rat_set_table_eq)
  next
    case (Some q)
    with rat_lookup_bound [OF assms(1)] have "q < phy_reg_num r" by blast
    with Some show ?thesis
      using assms(2-5) wf unfolding rat_set_map_def g rat_mapped_def
      by (simp add: rat_set_valid_eq rat_set_visible_eq rat_set_commit_eq rat_set_table_eq)
  qed
qed

lemma rat_mapped_fields [simp]:
  "phy_reg_num (rat_mapped a p r) = phy_reg_num r"
  "arch_reg_num (rat_mapped a p r) = arch_reg_num r"
  "init_rat (rat_mapped a p r) = init_rat r"
  "rat_request_q (rat_mapped a p r) = rat_request_q r"
  "phy_map_table (rat_mapped a p r) = (phy_map_table r)[p := a]"
  by (simp_all add: rat_mapped_def)

lemma rat_mapped_wf: "rat_wf r \<Longrightarrow> rat_wf (rat_mapped a p r)"
  by (cases "rat_lookup r a") (simp_all add: rat_wf_def rat_mapped_def del: rat_wf_lengths)

lemma rat_mapped_bits:
  assumes "rat_inv r" "p < phy_reg_num r"
  shows "vld (rat_mapped a p r) j \<longleftrightarrow> j = p \<or> vld r j"
    and "vis (rat_mapped a p r) j \<longleftrightarrow> rat_lookup r a \<noteq> Some j \<and> (j = p \<or> vis r j)"
    and "cmt (rat_mapped a p r) j \<longleftrightarrow> j \<noteq> p \<and> cmt r j"
proof -
  note wf = rat_inv_wf [OF assms(1)]
  have bd: "vld (rat_mapped a p r) = (\<lambda>j. if p = j then True else vld r j)"
    and bc: "cmt (rat_mapped a p r) = (\<lambda>j. if p = j then False else cmt r j)"
    and bp: "bm_bit (bm_put (phy_map_table_visible r) p True) = (\<lambda>j. if p = j then True else vis r j)"
    by (simp_all add: rat_mapped_def fun_eq_iff bm_bit_put [OF rat_wf_lengths(2) [OF wf] assms(2)]
        bm_bit_put [OF rat_wf_lengths(3) [OF wf] assms(2)] bm_bit_put [OF rat_wf_lengths(4) [OF wf] assms(2)])
  show "vld (rat_mapped a p r) j \<longleftrightarrow> j = p \<or> vld r j"
    "cmt (rat_mapped a p r) j \<longleftrightarrow> j \<noteq> p \<and> cmt r j"
    unfolding bd bc by auto
  show "vis (rat_mapped a p r) j \<longleftrightarrow> rat_lookup r a \<noteq> Some j \<and> (j = p \<or> vis r j)"
  proof (cases "rat_lookup r a")
    case None
    then have "vis (rat_mapped a p r) = bm_bit (bm_put (phy_map_table_visible r) p True)"
      by (simp add: rat_mapped_def)
    with None bp show ?thesis by auto
  next
    case (Some q)
    with rat_lookup_bound [OF assms(1)] have q: "q < phy_reg_num r" by blast
    have "length (bm_put (phy_map_table_visible r) p True) = bm_words (phy_reg_num r)"
      using wf by simp
    from bm_bit_put [OF this q, of False] Some
    have "vis (rat_mapped a p r) j = (if q = j then False else bm_bit (bm_put (phy_map_table_visible r) p True) j)"
      by (simp add: rat_mapped_def)
    with Some bp show ?thesis by auto
  qed
qed

lemma rat_mapped_maps:
  assumes "rat_inv r" "p < phy_reg_num r" "\<not> vld r p"
  shows "rat_maps (rat_mapped a p r) b j \<longleftrightarrow> (if b = a then j = p else rat_maps r b j)"
proof -
  have np: "rat_lookup r a \<noteq> Some p" using rat_lookup_bound [OF assms(1)] assms(3) by blast
  have len: "length (phy_map_table r) = phy_reg_num r"
    using rat_inv_wf [OF assms(1)] by simp
  have lk: "rat_lookup r a = Some j \<longleftrightarrow> rat_maps r a j" by (rule rat_lookup_iff [OF assms(1)])
  have "j = p \<Longrightarrow> rat_maps (rat_mapped a p r) b j \<longleftrightarrow> b = a"
    using np assms(2) len by (auto simp: rat_maps_def rat_mapped_bits [OF assms(1,2)])
  moreover have "j \<noteq> p \<Longrightarrow> rat_maps (rat_mapped a p r) b j \<longleftrightarrow> b \<noteq> a \<and> rat_maps r b j"
    using lk len by (auto simp: rat_maps_def rat_mapped_bits [OF assms(1,2)])
  moreover have "\<not> rat_maps r b p" using assms(3) by (simp add: rat_maps_def)
  ultimately show ?thesis by auto
qed

lemma rat_mapped_inv:
  assumes "rat_inv r" "p < phy_reg_num r" "0 < a" "a < arch_reg_num r" "\<not> vld r p"
  shows "rat_inv (rat_mapped a p r)"
proof -
  note bits = rat_mapped_bits [OF assms(1,2)] and maps = rat_mapped_maps [OF assms(1,2,5)]
  have len: "length (phy_map_table r) = phy_reg_num r"
    using rat_inv_wf [OF assms(1)] by simp
  have old: "\<forall>p < phy_reg_num r. vld r p \<longrightarrow> 0 < phy_map_table r ! p \<and> phy_map_table r ! p < arch_reg_num r"
    "\<forall>p < phy_reg_num r. vis r p \<longrightarrow> vld r p"
    "\<forall>a p q. rat_maps r a p \<longrightarrow> rat_maps r a q \<longrightarrow> p = q"
    "\<not> init_rat r \<longrightarrow> (\<forall>a. 0 < a \<and> a < arch_reg_num r \<longrightarrow> (\<exists>p. rat_maps r a p))"
    using assms(1) unfolding rat_inv_def by blast+
  show ?thesis unfolding rat_inv_def
  proof (intro conjI)
    show "rat_wf (rat_mapped a p r)" by (rule rat_mapped_wf [OF rat_inv_wf [OF assms(1)]])
    show "\<forall>j < phy_reg_num (rat_mapped a p r). vld (rat_mapped a p r) j \<longrightarrow>
        0 < phy_map_table (rat_mapped a p r) ! j \<and> phy_map_table (rat_mapped a p r) ! j < arch_reg_num (rat_mapped a p r)"
      using old(1) assms(2-4) len by (simp add: bits nth_list_update)
    show "\<forall>j < phy_reg_num (rat_mapped a p r). vis (rat_mapped a p r) j \<longrightarrow> vld (rat_mapped a p r) j"
      using old(2) by (auto simp: bits)
    show "\<forall>b j k. rat_maps (rat_mapped a p r) b j \<longrightarrow> rat_maps (rat_mapped a p r) b k \<longrightarrow> j = k"
      unfolding maps using old(3) by simp
    show "\<not> init_rat (rat_mapped a p r) \<longrightarrow>
        (\<forall>b. 0 < b \<and> b < arch_reg_num (rat_mapped a p r) \<longrightarrow> (\<exists>j. rat_maps (rat_mapped a p r) b j))"
      unfolding maps using old(4) by auto
  qed
qed

lemma rat_lookup_cong:
  assumes "rat_inv r" "rat_inv t" "\<And>p. rat_maps t a p \<longleftrightarrow> rat_maps r b p"
  shows "rat_lookup t a = rat_lookup r b"
  using assms(3) rat_lookup_iff [OF assms(1), of b] rat_lookup_iff [OF assms(2), of a]
  by (metis not_None_eq)

lemma rat_mapped_lookup:
  assumes "rat_inv r" "p < phy_reg_num r" "0 < a" "a < arch_reg_num r" "\<not> vld r p"
  shows "rat_lookup (rat_mapped a p r) b = (if b = a then Some p else rat_lookup r b)"
  using rat_lookup_iff [OF rat_mapped_inv [OF assms], of b] rat_lookup_iff [OF assms(1), of b]
    rat_mapped_maps [OF assms(1,2,5), of a b]
  by (metis not_None_eq)

lemma rat_commit_map_iff:
  assumes "rat_wf r"
  shows "rat_commit_map p r = (if p < phy_reg_num r \<and> vld r p \<and> \<not> cmt r p
    then Some (r\<lparr>phy_map_table_commit := bm_put (phy_map_table_commit r) p True\<rparr>) else None)"
  using assms
  by (cases "p < phy_reg_num r"; cases "vld r p"; cases "cmt r p")
    (simp_all add: rat_commit_map_def rat_get_valid_eq rat_get_commit_eq rat_set_commit_eq)

lemma rat_release_map_iff:
  assumes "rat_wf r"
  shows "rat_release_map p r = (if p < phy_reg_num r \<and> vld r p \<and> \<not> vis r p
    then Some (r\<lparr>phy_map_table := (phy_map_table r)[p := 0],
                 phy_map_table_valid := bm_put (phy_map_table_valid r) p False\<rparr>) else None)"
  using assms
  by (cases "p < phy_reg_num r"; cases "vld r p"; cases "vis r p")
    (simp_all add: rat_release_map_def rat_get_valid_eq rat_get_visible_eq rat_set_valid_eq rat_set_table_eq)

lemma rat_restore_map_iff:
  assumes "rat_wf r"
  shows "rat_restore_map n old r =
    (if n < phy_reg_num r \<and> old < phy_reg_num r \<and> vld r n \<and> vld r old \<and> vis r n \<and> \<not> vis r old
     then Some (r\<lparr>phy_map_table := (phy_map_table r)[n := 0],
       phy_map_table_valid := bm_put (bm_put (phy_map_table_valid r) n False) old True,
       phy_map_table_visible := bm_put (bm_put (phy_map_table_visible r) n False) old True\<rparr>) else None)"
proof (cases "n < phy_reg_num r \<and> old < phy_reg_num r")
  case True
  then show ?thesis
    using assms
    by (cases "vld r n"; cases "vld r old"; cases "vis r n"; cases "vis r old")
      (simp_all add: rat_restore_map_def rat_get_valid_eq rat_get_visible_eq rat_set_valid_eq
        rat_set_visible_eq rat_set_table_eq)
qed (auto simp: rat_restore_map_def)

lemma rat_commit_map_inv:
  assumes "rat_inv r" "rat_commit_map p r = Some t"
  shows "rat_inv t" "rat_lookup t = rat_lookup r"
proof -
  note wf = rat_inv_wf [OF assms(1)]
  have t: "t = r\<lparr>phy_map_table_commit := bm_put (phy_map_table_commit r) p True\<rparr>"
    using assms(2) rat_commit_map_iff [OF wf, of p] by (simp split: if_splits)
  have m: "rat_maps t = rat_maps r" by (simp add: t rat_maps_def fun_eq_iff)
  have "rat_wf t" using wf by (simp add: t)
  then show "rat_inv t" using assms(1) unfolding rat_inv_def m by (simp add: t)
  have n: "phy_reg_num t = phy_reg_num r" by (simp add: t)
  show "rat_lookup t = rat_lookup r" by (rule ext, unfold rat_lookup_def m n) (rule refl)
qed

lemma rat_release_map_inv:
  assumes "rat_inv r" "rat_release_map p r = Some t"
  shows "rat_inv t" "rat_lookup t = rat_lookup r" "p < phy_reg_num r"
    "vld t j \<longleftrightarrow> j \<noteq> p \<and> vld r j"
proof -
  note wf = rat_inv_wf [OF assms(1)]
  have t: "t = r\<lparr>phy_map_table := (phy_map_table r)[p := 0],
        phy_map_table_valid := bm_put (phy_map_table_valid r) p False\<rparr>"
    and p: "p < phy_reg_num r" "vld r p" "\<not> vis r p"
    using assms(2) rat_release_map_iff [OF wf, of p] by (simp_all split: if_splits)
  have bits: "vld t j \<longleftrightarrow> j \<noteq> p \<and> vld r j" for j
    using bm_bit_put [OF rat_wf_lengths(2) [OF wf] p(1), of False j] by (auto simp: t)
  have vist: "vis t = vis r" by (simp add: t)
  have n: "phy_reg_num t = phy_reg_num r" "arch_reg_num t = arch_reg_num r" "init_rat t = init_rat r"
    by (simp_all add: t)
  have tb: "j \<noteq> p \<Longrightarrow> phy_map_table t ! j = phy_map_table r ! j" for j by (simp add: t)
  have m: "rat_maps t = rat_maps r"
    using p(3) tb unfolding rat_maps_def fun_eq_iff bits vist n by metis
  have "rat_wf t" using wf by (simp add: t)
  moreover have "\<forall>j < phy_reg_num r. j \<noteq> p \<and> vld r j \<longrightarrow>
      0 < phy_map_table t ! j \<and> phy_map_table t ! j < arch_reg_num r"
    using assms(1) tb unfolding rat_inv_def by simp
  moreover have "\<forall>j < phy_reg_num r. vis r j \<longrightarrow> j \<noteq> p \<and> vld r j"
    using assms(1) p(3) unfolding rat_inv_def by blast
  ultimately show "rat_inv t"
    using assms(1) unfolding rat_inv_def m bits vist n by blast
  show "rat_lookup t = rat_lookup r" by (rule ext, unfold rat_lookup_def m n) (rule refl)
  show "p < phy_reg_num r" "vld t j \<longleftrightarrow> j \<noteq> p \<and> vld r j" by (rule p, rule bits)
qed

section \<open>The deferred operations keep the invariant\<close>

fun rat_request_ok :: "rat_request \<Rightarrow> bool" where
  "rat_request_ok (Rat_set_map a p) = True"
| "rat_request_ok (Rat_release_map p) = True"
| "rat_request_ok (Rat_commit_map p) = True"
| "rat_request_ok (Rat_restore_map n old) = False"
| "rat_request_ok (Rat_restore cp) = False"

lemma rat_set_map_guards:
  assumes "rat_inv r" "rat_set_map junk a p r = Some (old, t)"
  shows "p < phy_reg_num r" "0 < a" "a < arch_reg_num r" "\<not> vld r p" "t = rat_mapped a p r"
proof -
  note wf = rat_inv_wf [OF assms(1)]
  show g: "p < phy_reg_num r" "0 < a" "a < arch_reg_num r" "\<not> vld r p"
    using assms(2) rat_get_valid_eq [OF wf, of p] unfolding rat_set_map_def
    by (auto simp: bind_eq_Some_conv)
  show "t = rat_mapped a p r" using rat_set_map_eq [OF assms(1) g, of junk] assms(2) by simp
qed

interpretation rat_dq: deferred rat_apply rat_inv rat_request_ok
proof
  fix r t :: rat and q
  assume r: "rat_inv r" "rat_request_ok q" "rat_apply q r = Some t"
  show "rat_inv t"
  proof (cases q)
    case (Rat_set_map a p)
    with r obtain old where s: "rat_set_map 0 a p r = Some (old, t)" by auto
    note g = rat_set_map_guards [OF r(1) s]
    show ?thesis using rat_mapped_inv [OF r(1) g(1-4)] g(5) by simp
  next
    case (Rat_release_map p)
    with r(3) have "rat_release_map p r = Some t" by simp
    then show ?thesis by (rule rat_release_map_inv(1) [OF r(1)])
  next
    case (Rat_commit_map p)
    with r(3) have "rat_commit_map p r = Some t" by simp
    then show ?thesis by (rule rat_commit_map_inv(1) [OF r(1)])
  qed (use r(2) in simp_all)
qed

section \<open>Undoing renamings\<close>

text \<open>Tables that agree on everything but the entries of free registers and the commit bits.\<close>

definition rat_same :: "rat \<Rightarrow> rat \<Rightarrow> bool" where
  "rat_same s r = (rat_wf s \<and> phy_reg_num s = phy_reg_num r \<and> arch_reg_num s = arch_reg_num r
     \<and> init_rat s = init_rat r
     \<and> (\<forall>j < phy_reg_num r. vld s j = vld r j \<and> vis s j = vis r j
          \<and> (vld r j \<longrightarrow> phy_map_table s ! j = phy_map_table r ! j)))"

lemma rat_same_maps: "rat_same s r \<Longrightarrow> rat_maps s = rat_maps r"
  by (auto simp: rat_same_def rat_maps_def fun_eq_iff)

lemma rat_same_inv:
  assumes "rat_same s r" "rat_inv r"
  shows "rat_inv s" "rat_lookup s = rat_lookup r"
proof -
  note m = rat_same_maps [OF assms(1)]
  have n: "phy_reg_num s = phy_reg_num r" "arch_reg_num s = arch_reg_num r" "init_rat s = init_rat r"
    and wf: "rat_wf s"
    and bits: "\<forall>j < phy_reg_num r. vld s j = vld r j \<and> vis s j = vis r j
          \<and> (vld r j \<longrightarrow> phy_map_table s ! j = phy_map_table r ! j)"
    using assms(1) by (simp_all add: rat_same_def)
  have "\<forall>j < phy_reg_num r. vld s j \<longrightarrow> 0 < phy_map_table s ! j \<and> phy_map_table s ! j < arch_reg_num r"
    using assms(2) bits unfolding rat_inv_def by simp
  moreover have "\<forall>j < phy_reg_num r. vis s j \<longrightarrow> vld s j"
    using assms(2) bits unfolding rat_inv_def by blast
  ultimately show "rat_inv s"
    using assms(2) wf unfolding rat_inv_def m n by blast
  show "rat_lookup s = rat_lookup r" by (rule ext, unfold rat_lookup_def m n) (rule refl)
qed

lemma rat_undo_one:
  assumes "rat_inv r" "p < phy_reg_num r" "\<not> vld r p" "rat_lookup r a = Some q"
    and s: "rat_same s (rat_mapped a p r)"
  shows "\<exists>u. rat_restore_map p q s = Some u \<and> rat_same u r"
proof -
  note b = rat_lookup_bound [OF assms(1,4)] and bits = rat_mapped_bits [OF assms(1,2)]
  have n: "phy_reg_num s = phy_reg_num r" and wf: "rat_wf s"
    and sb: "\<forall>j < phy_reg_num r. vld s j = (j = p \<or> vld r j) \<and> vis s j = (q \<noteq> j \<and> (j = p \<or> vis r j))"
    and tb: "\<forall>j < phy_reg_num r. vld r j \<longrightarrow> phy_map_table s ! j = (phy_map_table r)[p := a] ! j"
    using s assms(4) by (auto simp: rat_same_def bits)
  have st: "\<forall>j < phy_reg_num r. vld r j \<longrightarrow> phy_map_table s ! j = phy_map_table r ! j"
    using tb assms(3) by (metis nth_list_update_neq)
  have qp: "q \<noteq> p" using b assms(3) by blast
  let ?u = "s\<lparr>phy_map_table := (phy_map_table s)[p := 0],
       phy_map_table_valid := bm_put (bm_put (phy_map_table_valid s) p False) q True,
       phy_map_table_visible := bm_put (bm_put (phy_map_table_visible s) p False) q True\<rparr>"
  have r: "rat_restore_map p q s = Some ?u"
    using rat_restore_map_iff [OF wf, of p q] sb b assms(2,3) qp n by simp
  have l: "length (phy_map_table_valid s) = bm_words (phy_reg_num r)"
    "length (phy_map_table_visible s) = bm_words (phy_reg_num r)"
    using wf n by (simp_all add: rat_wf_def del: rat_wf_lengths)
  have q: "q < phy_reg_num r" using b by blast
  have "vld ?u j = vld r j" "vis ?u j = vis r j" if "j < phy_reg_num r" for j
    using that sb b assms(3) qp
      bm_bit_put [of "bm_put (phy_map_table_valid s) p False" "phy_reg_num r" q True j]
      bm_bit_put [of "phy_map_table_valid s" "phy_reg_num r" p False j]
      bm_bit_put [of "bm_put (phy_map_table_visible s) p False" "phy_reg_num r" q True j]
      bm_bit_put [of "phy_map_table_visible s" "phy_reg_num r" p False j] l assms(1,2) q
    unfolding rat_inv_def by auto
  moreover have "phy_map_table ?u ! j = phy_map_table r ! j" if "j < phy_reg_num r" "vld r j" for j
    using that st assms(3) by (cases "j = p") auto
  moreover have "rat_wf ?u" using wf by (simp add: rat_wf_def del: rat_wf_lengths)
  moreover have "phy_reg_num ?u = phy_reg_num r" "arch_reg_num ?u = arch_reg_num r" "init_rat ?u = init_rat r"
    using s by (simp_all add: rat_same_def)
  ultimately show ?thesis using r unfolding rat_same_def by blast
qed

text \<open>A run of renamings in program order, with the pairs (new register, old register) that the
  reorder buffer records, and its undoing from the youngest to the oldest.\<close>

fun rat_rename_all :: "(nat \<times> nat) list \<Rightarrow> rat \<Rightarrow> ((nat \<times> nat) list \<times> rat) option" where
  "rat_rename_all [] r = Some ([], r)"
| "rat_rename_all ((a, p) # xs) r = do {
     (old, r1) \<leftarrow> rat_set_map 0 a p r;
     (ps, r2) \<leftarrow> rat_rename_all xs r1;
     Some ((p, old) # ps, r2) }"

definition rat_rollback :: "(nat \<times> nat) list \<Rightarrow> rat \<Rightarrow> rat option" where
  "rat_rollback ps r = fold_opt (\<lambda>(p, old). rat_restore_map p old) (rev ps) r"

lemma rat_set_map_running:
  assumes "rat_inv r" "\<not> init_rat r" "rat_set_map junk a p r = Some (old, t)"
  shows "rat_lookup r a = Some old" "t = rat_mapped a p r" "p < phy_reg_num r" "\<not> vld r p"
    "rat_inv t" "\<not> init_rat t"
proof -
  note g = rat_set_map_guards [OF assms(1,3)]
  have "rat_lookup r a \<noteq> None"
    using assms(1,2) g(2,3) rat_lookup_None [OF assms(1)] unfolding rat_inv_def by blast
  then show "rat_lookup r a = Some old"
    using rat_set_map_eq [OF assms(1) g(1-4), of junk] assms(3) by auto
  show "t = rat_mapped a p r" "p < phy_reg_num r" "\<not> vld r p" by (rule g)+
  then show "rat_inv t" "\<not> init_rat t" using rat_mapped_inv [OF assms(1) g(1-4)] assms(2) by simp_all
qed

lemma rat_rollback_same:
  assumes "rat_inv r" "\<not> init_rat r" "rat_rename_all xs r = Some (ps, t)"
  shows "\<exists>s. rat_rollback ps t = Some s \<and> rat_same s r"
  using assms
proof (induction xs arbitrary: r ps)
  case Nil
  have "rat_same r r" using rat_inv_wf [OF Nil.prems(1)] by (simp add: rat_same_def)
  with Nil show ?case by (simp add: rat_rollback_def)
next
  case (Cons x xs)
  obtain a p where x: "x = (a, p)" by (cases x)
  with Cons.prems(3) obtain old r1 qs where
    m: "rat_set_map 0 a p r = Some (old, r1)" and re: "rat_rename_all xs r1 = Some (qs, t)"
    and ps: "ps = (p, old) # qs"
    by (auto simp: bind_eq_Some_conv)
  note sm = rat_set_map_running [OF Cons.prems(1,2) m]
  from Cons.IH [OF sm(5,6) re] obtain s where s: "rat_rollback qs t = Some s" "rat_same s r1" by blast
  from rat_undo_one [OF Cons.prems(1) sm(3,4,1)] s(2) sm(2) obtain u where
    "rat_restore_map p old s = Some u" "rat_same u r" by blast
  with s(1) show ?case by (auto simp: ps rat_rollback_def fold_opt_append)
qed

section \<open>Free registers\<close>

lemma rat_free_scan_eq:
  assumes "rat_wf r" "\<forall>j \<in> set js. j < phy_reg_num r"
  shows "length ret < max 1 num \<Longrightarrow> rat_free_scan r num js ret
    = Some (ret @ take (max 1 num - length ret) (filter (\<lambda>p. \<not> vld r p) js))"
  using assms(2)
proof (induction js arbitrary: ret)
  case (Cons j js)
  then have j: "rat_get_valid r j = Some (vld r j)" using rat_get_valid_eq [OF assms(1)] by simp
  show ?case
  proof (cases "vld r j")
    case True
    with Cons j show ?thesis by simp
  next
    case False
    have "Suc (length ret) < max 1 num \<or> num \<le> Suc (length ret)" by auto
    then show ?thesis
    proof
      assume l: "Suc (length ret) < max 1 num"
      then have "max 1 num - length ret = Suc (max 1 num - Suc (length ret))" by simp
      with l Cons.IH [of "ret @ [j]"] Cons.prems(2) False j show ?thesis by auto
    next
      assume l: "num \<le> Suc (length ret)"
      then have "max 1 num - length ret = 1" using Cons.prems(1) by linarith
      with l False j show ?thesis by simp
    qed
  qed
qed simp

section \<open>Initialisation\<close>

text \<open>\<open>reset()\<close> of \<open>top_source/main.cpp\<close> maps architectural register \<open>i\<close> to physical register
  \<open>i\<close> for \<open>i = 1..31\<close> and commits each mapping.\<close>

definition rat_boot_step :: "nat \<Rightarrow> rat \<Rightarrow> rat option" where
  "rat_boot_step i r = do { (_, r1) \<leftarrow> rat_set_map 0 i i r; rat_commit_map i r1 }"

definition rat_boot :: "rat \<Rightarrow> rat option" where
  "rat_boot r = do {
     t \<leftarrow> fold_opt rat_boot_step [1..<32] (rat_init_start r);
     Some (rat_init_finish t) }"

definition rat_booted :: "nat \<Rightarrow> rat \<Rightarrow> bool" where
  "rat_booted k r = (rat_inv r \<and> init_rat r \<and> phy_reg_num r = PHY_REG_NUM \<and> arch_reg_num r = ARCH_REG_NUM
     \<and> (\<forall>a. rat_lookup r a = (if 1 \<le> a \<and> a < k then Some a else None))
     \<and> (\<forall>j < PHY_REG_NUM. vld r j = (1 \<le> j \<and> j < k) \<and> cmt r j = (1 \<le> j \<and> j < k)))"

lemma rat_boot_step_booted:
  assumes "rat_booted k r" "1 \<le> k" "k < 32"
  shows "\<exists>t. rat_boot_step k r = Some t \<and> rat_booted (Suc k) t"
proof -
  have r: "rat_inv r" "init_rat r" "phy_reg_num r = 128" "arch_reg_num r = 32"
    and lk: "\<And>a. rat_lookup r a = (if 1 \<le> a \<and> a < k then Some a else None)"
    and bt: "\<forall>j < 128. vld r j = (1 \<le> j \<and> j < k) \<and> cmt r j = (1 \<le> j \<and> j < k)"
    using assms(1) unfolding rat_booted_def PHY_REG_NUM_def ARCH_REG_NUM_def by blast+
  have k: "k < phy_reg_num r" "0 < k" "k < arch_reg_num r" "\<not> vld r k"
    using assms r bt by auto
  let ?m = "rat_mapped k k r"
  have set: "\<exists>old. rat_set_map 0 k k r = Some (old, ?m)" using rat_set_map_eq [OF r(1) k] by auto
  have mi: "rat_inv ?m" by (rule rat_mapped_inv [OF r(1) k])
  note mb = rat_mapped_bits [OF r(1) k(1), where a = k]
  have kc: "vld ?m k" "\<not> cmt ?m k" "k < phy_reg_num ?m" using mb k(1) by simp_all
  let ?t = "?m\<lparr>phy_map_table_commit := bm_put (phy_map_table_commit ?m) k True\<rparr>"
  have c: "rat_commit_map k ?m = Some ?t"
    using rat_commit_map_iff [OF rat_inv_wf [OF mi], of k] kc by simp
  have l: "length (phy_map_table_commit ?m) = bm_words 128"
    using rat_wf_lengths(4) [OF rat_inv_wf [OF mi]] r(3) by simp
  have lt: "rat_lookup ?t a = (if a = k then Some k else rat_lookup r a)" for a
    using rat_commit_map_inv(2) [OF mi c] rat_mapped_lookup [OF r(1) k] by simp
  have ct: "cmt ?t j = (j = k \<or> cmt r j)" for j
    using bm_bit_put [OF l, of k True j] k(1) r(3) mb(3) [of j] by auto
  have "rat_booted (Suc k) ?t"
    unfolding rat_booted_def PHY_REG_NUM_def ARCH_REG_NUM_def
    using rat_commit_map_inv(1) [OF mi c] r(2-4) lt lk ct mb(1) bt assms(2) by (auto simp: less_Suc_eq)
  with set c show ?thesis by (auto simp: rat_boot_step_def)
qed

lemma rat_boot_steps:
  assumes "rat_booted 1 r" "k < 32"
  shows "\<exists>t. fold_opt rat_boot_step [1..<Suc k] r = Some t \<and> rat_booted (Suc k) t"
  using assms(2)
proof (induction k)
  case 0
  then show ?case using assms(1) by simp
next
  case (Suc k)
  then obtain t where t: "fold_opt rat_boot_step [1..<Suc k] r = Some t" "rat_booted (Suc k) t" by auto
  from rat_boot_step_booted [OF t(2)] Suc.prems obtain u where
    "rat_boot_step (Suc k) t = Some u" "rat_booted (Suc (Suc k)) u" by auto
  moreover have "[1..<Suc (Suc k)] = [1..<Suc k] @ [Suc k]" by simp
  ultimately show ?case using t(1) by (simp add: fold_opt_append del: upt_Suc)
qed

lemma rat_init_start_booted:
  assumes "phy_reg_num r = PHY_REG_NUM" "arch_reg_num r = ARCH_REG_NUM"
  shows "rat_booted 1 (rat_init_start r)"
proof -
  let ?t = "rat_init_start r"
  have b: "vld ?t j = False" "vis ?t j = False" "cmt ?t j = False" if "j < 128" for j
    using bm_bit_zero [OF that] assms by (simp_all add: rat_init_start_def PHY_REG_NUM_def)
  have "\<not> rat_maps ?t a p" for a p
    using b assms by (auto simp: rat_maps_def rat_init_start_def PHY_REG_NUM_def)
  moreover from this have "filter (rat_maps ?t a) [0..<phy_reg_num ?t] = []" for a by simp
  ultimately show ?thesis
    using b assms unfolding rat_booted_def rat_inv_def rat_lookup_def
    by (simp add: rat_init_start_def rat_wf_def PHY_REG_NUM_def ARCH_REG_NUM_def del: rat_wf_lengths)
qed

lemma rat_boot_state:
  assumes "phy_reg_num r = PHY_REG_NUM" "arch_reg_num r = ARCH_REG_NUM"
  shows "\<exists>t. rat_boot r = Some t \<and> rat_inv t \<and> \<not> init_rat t
    \<and> phy_reg_num t = PHY_REG_NUM \<and> arch_reg_num t = ARCH_REG_NUM
    \<and> (\<forall>a. rat_lookup t a = (if 1 \<le> a \<and> a < 32 then Some a else None))
    \<and> (\<forall>j < PHY_REG_NUM. vld t j = (1 \<le> j \<and> j < 32) \<and> cmt t j = (1 \<le> j \<and> j < 32))"
proof -
  from rat_boot_steps [OF rat_init_start_booted [OF assms], of 31] obtain t where
    t: "fold_opt rat_boot_step [1..<32] (rat_init_start r) = Some t" "rat_booted 32 t" by auto
  let ?u = "rat_init_finish t"
  have bt: "rat_inv t" "phy_reg_num t = PHY_REG_NUM" "arch_reg_num t = ARCH_REG_NUM"
    and lk: "\<And>a. rat_lookup t a = (if 1 \<le> a \<and> a < 32 then Some a else None)"
    and bits: "\<forall>j < PHY_REG_NUM. vld t j = (1 \<le> j \<and> j < 32) \<and> cmt t j = (1 \<le> j \<and> j < 32)"
    using t(2) unfolding rat_booted_def by blast+
  have m: "rat_maps ?u = rat_maps t" by (simp add: rat_maps_def rat_init_finish_def fun_eq_iff)
  have all: "\<exists>p. rat_maps t a p" if "0 < a" "a < 32" for a
    using lk [of a] that rat_lookup_iff [OF bt(1), of a a] by auto
  have wf: "rat_wf ?u"
    using rat_inv_wf [OF bt(1)] by (simp add: rat_wf_def rat_init_finish_def del: rat_wf_lengths)
  have inv: "rat_inv ?u"
    using bt wf all unfolding rat_inv_def m by (auto simp: rat_init_finish_def ARCH_REG_NUM_def)
  have lku: "rat_lookup ?u a = rat_lookup t a" for a
    by (simp add: rat_lookup_def m) (simp add: rat_init_finish_def)
  have f: "\<not> init_rat ?u" "phy_reg_num ?u = PHY_REG_NUM" "arch_reg_num ?u = ARCH_REG_NUM"
    "vld ?u = vld t" "cmt ?u = cmt t"
    using bt by (simp_all add: rat_init_finish_def)
  show ?thesis using t(1) inv lku lk bits f by (simp add: rat_boot_def)
qed

definition rat_start :: rat where
  "rat_start = the (rat_boot (rat_new 128 32 7 (-1)))"

lemma rat_start_props:
  "rat_boot (rat_new 128 32 7 (-1)) = Some rat_start" "rat_inv rat_start" "\<not> init_rat rat_start"
  "phy_reg_num rat_start = PHY_REG_NUM" "arch_reg_num rat_start = ARCH_REG_NUM"
  "rat_lookup rat_start a = (if 1 \<le> a \<and> a < 32 then Some a else None)"
  "p < PHY_REG_NUM \<Longrightarrow> vld rat_start p = (1 \<le> p \<and> p < 32)"
  using rat_boot_state [of "rat_new 128 32 7 (-1)"]
  by (auto simp: rat_start_def rat_new_def PHY_REG_NUM_def ARCH_REG_NUM_def)

section \<open>Correctness\<close>

text \<open>The initialisation of the processor never aborts and leaves a well-formed alias table in
  which each architectural register 1..31 has its own physical register as its newest, committed
  mapping, whatever the table's memory held before.\<close>

theorem rat_boot_correct:
  assumes "phy_reg_num r = PHY_REG_NUM" "arch_reg_num r = ARCH_REG_NUM"
  shows "\<exists>t. rat_boot r = Some t \<and> rat_inv t \<and> \<not> init_rat t
    \<and> (\<forall>a. rat_lookup t a = (if 1 \<le> a \<and> a < 32 then Some a else None))
    \<and> (\<forall>p < PHY_REG_NUM. rat_get_valid t p = Some (1 \<le> p \<and> p < 32)
         \<and> rat_get_commit t p = Some (1 \<le> p \<and> p < 32))"
proof -
  from rat_boot_state [OF assms] obtain t where t: "rat_boot r = Some t" "rat_inv t" "\<not> init_rat t"
      "phy_reg_num t = PHY_REG_NUM" "\<forall>a. rat_lookup t a = (if 1 \<le> a \<and> a < 32 then Some a else None)"
      "\<forall>j < PHY_REG_NUM. vld t j = (1 \<le> j \<and> j < 32) \<and> cmt t j = (1 \<le> j \<and> j < 32)"
    by blast
  with rat_inv_wf [OF t(2)] show ?thesis by (simp add: rat_get_valid_eq rat_get_commit_eq)
qed

theorem rat_boot_correct_witness:
  "\<exists>t. rat_boot (rat_new 128 32 9 5) = Some t \<and> rat_lookup t 3 = Some 3 \<and> rat_get_valid t 40 = Some False"
proof -
  have "phy_reg_num (rat_new 128 32 9 5) = PHY_REG_NUM" "arch_reg_num (rat_new 128 32 9 5) = ARCH_REG_NUM"
    by (simp_all add: rat_new_def PHY_REG_NUM_def ARCH_REG_NUM_def)
  moreover have "40 < PHY_REG_NUM" by (simp add: PHY_REG_NUM_def)
  ultimately show ?thesis using rat_boot_correct [of "rat_new 128 32 9 5"] by fastforce
qed

text \<open>Renaming on a running processor.  When the physical register is free and the architectural
  register exists, \<open>set_map\<close> does not abort; afterwards the architectural register is mapped to
  the new physical one, every other mapping is unchanged, the register returned is the one mapped
  before, still allocated but no longer visible, and the table stays well formed.\<close>

theorem rat_set_map_correct:
  assumes "rat_inv r" "\<not> init_rat r" "p < phy_reg_num r" "0 < a" "a < arch_reg_num r"
    and "rat_get_valid r p = Some False"
  shows "\<exists>old t. rat_set_map junk a p r = Some (old, t) \<and> rat_inv t
    \<and> rat_lookup t = (rat_lookup r)(a \<mapsto> p) \<and> rat_lookup r a = Some old
    \<and> rat_get_valid t old = Some True \<and> rat_get_visible t old = Some False
    \<and> rat_get_valid t p = Some True \<and> rat_get_commit t p = Some False"
proof -
  note wf = rat_inv_wf [OF assms(1)]
  have nv: "\<not> vld r p" using assms(6) rat_get_valid_eq [OF wf assms(3)] by simp
  note sm = rat_set_map_eq [OF assms(1,3,4,5) nv, of junk]
  let ?t = "rat_mapped a p r"
  obtain old where lk: "rat_lookup r a = Some old"
    using assms(1,2,4,5) rat_lookup_None [OF assms(1), of a] unfolding rat_inv_def by blast
  note b = rat_lookup_bound [OF assms(1) lk] and bits = rat_mapped_bits [OF assms(1,3)]
  have wt: "rat_wf ?t" by (rule rat_mapped_wf [OF wf])
  have "rat_lookup ?t = (rat_lookup r)(a \<mapsto> p)"
    using rat_mapped_lookup [OF assms(1,3,4,5) nv] by (simp add: fun_eq_iff)
  moreover have "rat_get_valid ?t old = Some True" "rat_get_visible ?t old = Some False"
      "rat_get_valid ?t p = Some True" "rat_get_commit ?t p = Some False"
    using b lk assms(3)
    by (simp_all add: rat_get_valid_eq [OF wt] rat_get_visible_eq [OF wt] rat_get_commit_eq [OF wt] bits)
  ultimately show ?thesis using sm lk rat_mapped_inv [OF assms(1,3,4,5) nv] by simp
qed

theorem rat_set_map_correct_witness:
  "\<exists>t. rat_set_map 0 5 77 rat_start = Some (5, t) \<and> rat_lookup t 5 = Some 77 \<and> rat_lookup t 6 = Some 6"
proof -
  note r = rat_start_props
  have "77 < phy_reg_num rat_start" "5 < arch_reg_num rat_start"
    by (simp_all add: r(4,5) PHY_REG_NUM_def ARCH_REG_NUM_def)
  moreover have "rat_get_valid rat_start 77 = Some False"
    using rat_get_valid_eq [OF rat_inv_wf [OF r(2)], of 77] r(4) r(7) [of 77] by (simp add: PHY_REG_NUM_def)
  ultimately show ?thesis using rat_set_map_correct [OF r(2,3), of 77 5 0] r(6) [of 5] r(6) [of 6] by auto
qed

fun request_mapping :: "rat_request \<Rightarrow> (nat \<Rightarrow> nat option) \<Rightarrow> (nat \<Rightarrow> nat option)" where
  "request_mapping (Rat_set_map a p) m = m(a \<mapsto> p)"
| "request_mapping _ m = m"

lemma rat_queue_clear:
  "rat_inv (t\<lparr>rat_request_q := q\<rparr>) \<longleftrightarrow> rat_inv t"
  "rat_lookup (t\<lparr>rat_request_q := q\<rparr>) = rat_lookup t"
proof -
  have m: "rat_maps (t\<lparr>rat_request_q := q\<rparr>) = rat_maps t" by (simp add: rat_maps_def fun_eq_iff)
  show "rat_inv (t\<lparr>rat_request_q := q\<rparr>) \<longleftrightarrow> rat_inv t"
    unfolding rat_inv_def m by (simp add: rat_wf_def del: rat_wf_lengths)
  show "rat_lookup (t\<lparr>rat_request_q := q\<rparr>) = rat_lookup t"
    by (rule ext, unfold rat_lookup_def m) simp
qed

lemma rat_apply_lookup:
  assumes "rat_inv r" "rat_request_ok q" "rat_apply q r = Some t"
  shows "rat_lookup t = request_mapping q (rat_lookup r)"
proof (cases q)
  case (Rat_set_map a p)
  with assms(3) obtain old where s: "rat_set_map 0 a p r = Some (old, t)" by auto
  note g = rat_set_map_guards [OF assms(1) s]
  show ?thesis using rat_mapped_lookup [OF assms(1) g(1-4)] g(5) Rat_set_map by (simp add: fun_eq_iff)
next
  case (Rat_release_map p)
  with assms(3) have "rat_release_map p r = Some t" by simp
  from rat_release_map_inv(2) [OF assms(1) this] Rat_release_map show ?thesis by simp
next
  case (Rat_commit_map p)
  with assms(3) have "rat_commit_map p r = Some t" by simp
  from rat_commit_map_inv(2) [OF assms(1) this] Rat_commit_map show ?thesis by simp
qed (use assms(2) in simp_all)

text \<open>At the end of a cycle in which registers were renamed, committed and released, if no
  assertion fails the table is well formed and the newest mapping of every architectural register is
  the one the renamings of the cycle, in order, give it; commits and releases change no mapping.\<close>

theorem rat_sync_correct:
  assumes "rat_inv r" "\<forall>q \<in> set (rat_request_q r). rat_request_ok q" "rat_sync r = Some t"
  shows "rat_inv t \<and> rat_request_q t = []
    \<and> rat_lookup t = fold request_mapping (rat_request_q r) (rat_lookup r)"
proof -
  from assms(3) obtain u where u: "fold_opt rat_apply (rat_request_q r) r = Some u"
      and t: "t = u\<lparr>rat_request_q := []\<rparr>"
    by (auto simp: rat_sync_def bind_eq_Some_conv)
  have "fold_opt rat_apply qs s = Some u \<Longrightarrow> rat_inv s \<Longrightarrow> \<forall>q \<in> set qs. rat_request_ok q \<Longrightarrow>
      rat_lookup u = fold request_mapping qs (rat_lookup s)" for qs s
  proof (induction qs arbitrary: s)
    case (Cons q qs)
    then obtain s' where s': "rat_apply q s = Some s'" "fold_opt rat_apply qs s' = Some u"
      by (auto simp: bind_eq_Some_conv)
    have q: "rat_request_ok q" using Cons.prems(3) by simp
    from Cons.IH [OF s'(2) rat_dq.preserves [OF Cons.prems(2) q s'(1)]] Cons.prems(3)
      rat_apply_lookup [OF Cons.prems(2) q s'(1)]
    show ?case by simp
  qed simp
  from this [OF u assms(1,2)] rat_dq.replay_preserves [OF assms(1,2) u]
  show ?thesis by (simp add: t rat_queue_clear)
qed

lemma rat_start_sync:
  "rat_sync (rat_start\<lparr>rat_request_q := [Rat_set_map 5 77, Rat_commit_map 77, Rat_release_map 5]\<rparr>) \<noteq> None"
proof -
  let ?q = "[Rat_set_map 5 77, Rat_commit_map 77, Rat_release_map 5]"
  let ?r = "rat_start\<lparr>rat_request_q := ?q\<rparr>"
  note r = rat_start_props
  have i: "rat_inv ?r" using r(2) by (simp add: rat_queue_clear)
  have p: "77 < phy_reg_num ?r" "0 < (5::nat)" "5 < arch_reg_num ?r" "\<not> vld ?r 77"
    using r(4,5) r(7) [of 77] by (simp_all add: PHY_REG_NUM_def ARCH_REG_NUM_def)
  let ?m = "rat_mapped 5 77 ?r"
  have lk: "rat_lookup ?r 5 = Some 5" using r(6) [of 5] by (simp add: rat_queue_clear)
  have m: "rat_apply (Rat_set_map 5 77) ?r = Some ?m" using rat_set_map_eq [OF i p, of 0] by simp
  have mi: "rat_inv ?m" by (rule rat_mapped_inv [OF i p])
  note bits = rat_mapped_bits [OF i p(1), where a = 5]
  let ?c = "?m\<lparr>phy_map_table_commit := bm_put (phy_map_table_commit ?m) 77 True\<rparr>"
  have c: "rat_apply (Rat_commit_map 77) ?m = Some ?c"
    using rat_commit_map_iff [OF rat_inv_wf [OF mi], of 77] p(1) bits by simp
  then have ci: "rat_inv ?c" using rat_commit_map_inv(1) [OF mi, of 77 ?c] by simp
  have "vld ?c 5 \<and> \<not> vis ?c 5 \<and> 5 < phy_reg_num ?c"
    using bits [of 5] lk r(4) r(7) [of 5] by (simp add: PHY_REG_NUM_def)
  then have "rat_apply (Rat_release_map 5) ?c \<noteq> None"
    using rat_release_map_iff [OF rat_inv_wf [OF ci], of 5] by simp
  with m c show ?thesis by (auto simp: rat_sync_def)
qed

theorem rat_sync_correct_witness:
  "\<exists>t. rat_sync (rat_start\<lparr>rat_request_q := [Rat_set_map 5 77, Rat_commit_map 77, Rat_release_map 5]\<rparr>) = Some t
     \<and> rat_inv t \<and> rat_lookup t 5 = Some 77 \<and> rat_lookup t 6 = Some 6"
proof -
  let ?r = "rat_start\<lparr>rat_request_q := [Rat_set_map 5 77, Rat_commit_map 77, Rat_release_map 5]\<rparr>"
  obtain t where t: "rat_sync ?r = Some t" using rat_start_sync by blast
  have "rat_inv ?r" "\<forall>q \<in> set (rat_request_q ?r). rat_request_ok q"
    using rat_start_props(2) by (simp_all add: rat_queue_clear)
  from rat_sync_correct [OF this t] t rat_start_props(6) [of 6] show ?thesis
    by (simp add: rat_queue_clear)
qed

text \<open>C19: a run of renamings is undone by \<open>restore_map\<close> on the pairs recorded in the reorder buffer,
  youngest first: no assertion fails, and every mapping, every valid bit and so the set of free
  registers are what they were before the run.\<close>

theorem rat_rollback_correct:
  assumes "rat_inv r" "\<not> init_rat r" "rat_rename_all xs r = Some (ps, t)"
  shows "\<exists>s. rat_rollback ps t = Some s \<and> rat_inv s \<and> rat_lookup s = rat_lookup r
    \<and> (\<forall>p < phy_reg_num r. rat_get_valid s p = rat_get_valid r p \<and> rat_get_visible s p = rat_get_visible r p)"
proof -
  from rat_rollback_same [OF assms] obtain s where s: "rat_rollback ps t = Some s" "rat_same s r" by blast
  note i = rat_same_inv [OF s(2) assms(1)]
  have "rat_get_valid s p = rat_get_valid r p \<and> rat_get_visible s p = rat_get_visible r p"
    if p: "p < phy_reg_num r" for p
  proof -
    have "p < phy_reg_num s" "vld s p = vld r p" "vis s p = vis r p"
      using s(2) p by (simp_all add: rat_same_def)
    then show ?thesis
      using p rat_get_valid_eq [OF rat_inv_wf [OF i(1)]] rat_get_valid_eq [OF rat_inv_wf [OF assms(1)] p]
        rat_get_visible_eq [OF rat_inv_wf [OF i(1)]] rat_get_visible_eq [OF rat_inv_wf [OF assms(1)] p]
      by simp
  qed
  with s(1) i show ?thesis by blast
qed

lemma rat_rename_one:
  assumes "rat_inv r" "\<not> init_rat r" "p < phy_reg_num r" "0 < a" "a < arch_reg_num r" "\<not> vld r p"
    and "rat_lookup r a = Some q"
  shows "rat_rename_all ((a, p) # xs) r =
    (case rat_rename_all xs (rat_mapped a p r) of None \<Rightarrow> None | Some (ps, t) \<Rightarrow> Some ((p, q) # ps, t))"
  using rat_set_map_eq [OF assms(1,3-6), of 0] assms(7)
  by (auto split: option.split)

theorem rat_rollback_correct_witness:
  "\<exists>t s. rat_rename_all [(5, 77), (5, 78)] rat_start = Some ([(77, 5), (78, 77)], t)
     \<and> rat_rollback [(77, 5), (78, 77)] t = Some s \<and> rat_lookup s 5 = Some 5"
proof -
  note r = rat_start_props
  have p: "77 < phy_reg_num rat_start" "0 < (5::nat)" "5 < arch_reg_num rat_start" "\<not> vld rat_start 77"
    and lk: "rat_lookup rat_start 5 = Some 5"
    using r(4,5) r(7) [of 77] r(6) [of 5] by (simp_all add: PHY_REG_NUM_def ARCH_REG_NUM_def)
  let ?m = "rat_mapped 5 77 rat_start"
  have mi: "rat_inv ?m" "\<not> init_rat ?m" using rat_mapped_inv [OF r(2) p] r(3) by simp_all
  have p2: "78 < phy_reg_num ?m" "5 < arch_reg_num ?m" "\<not> vld ?m 78"
    using rat_mapped_bits(1) [OF r(2) p(1)] p r(4) r(7) [of 78] by (simp_all add: PHY_REG_NUM_def)
  have lk2: "rat_lookup ?m 5 = Some 77" using rat_mapped_lookup [OF r(2) p, of 5] by simp
  have e: "rat_rename_all [(5, 77), (5, 78)] rat_start
      = Some ([(77, 5), (78, 77)], rat_mapped 5 78 ?m)"
    unfolding rat_rename_one [OF r(2,3) p lk] rat_rename_one [OF mi p2(1) p(2) p2(2,3) lk2] by simp
  from rat_rollback_correct [OF r(2,3) e] e lk show ?thesis by auto
qed

text \<open>\<open>get_free_phy_id(num)\<close> returns the lowest free registers, \<open>num\<close> of them or all there
  are when there are fewer (and one, if there is one, even when \<open>num\<close> is 0).\<close>

theorem rat_get_free_phy_id_correct:
  assumes "rat_inv r"
  shows "\<exists>free. rat_get_free_phy_id r num = Some (take (max 1 num) free)
    \<and> distinct free \<and> sorted free
    \<and> set free = {p. p < phy_reg_num r \<and> rat_get_valid r p = Some False}"
proof -
  let ?free = "filter (\<lambda>p. \<not> vld r p) [0..<phy_reg_num r]"
  note wf = rat_inv_wf [OF assms]
  have "rat_get_free_phy_id r num = Some (take (max 1 num) ?free)"
    using rat_free_scan_eq [OF wf, of "[0..<phy_reg_num r]" "[]" num]
    by (simp add: rat_get_free_phy_id_def)
  moreover have "set ?free = {p. p < phy_reg_num r \<and> rat_get_valid r p = Some False}"
    using rat_get_valid_eq [OF wf] by auto
  moreover have "sorted ?free" by (intro sorted_wrt_filter) simp
  ultimately show ?thesis by (intro exI [of _ ?free]) simp
qed

theorem rat_get_free_phy_id_correct_witness:
  "\<exists>free. rat_get_free_phy_id rat_start 4 = Some (take 4 free)
    \<and> set free = {p. p < phy_reg_num rat_start \<and> rat_get_valid rat_start p = Some False}"
  using rat_get_free_phy_id_correct [OF rat_start_props(2), of 4] by auto

section \<open>Checkpoints\<close>

lemma rat_save_eq:
  assumes "rat_wf r" "phy_reg_num r = PHY_REG_NUM" "checkpoint_ok cp"
  shows "rat_save r cp = Some (cp\<lparr>rat_phy_map_table_valid := phy_map_table_valid r,
    rat_phy_map_table_visible := phy_map_table_visible r, rat_phy_map_table := phy_map_table r\<rparr>)"
  using assms
  by (simp add: rat_save_def memcpy_arr_same checkpoint_ok_def phy_reg_num_bitmap_size_def
      bm_words_def PHY_REG_NUM_def)

lemma rat_restore_eq:
  assumes "rat_wf r" "phy_reg_num r = PHY_REG_NUM" "checkpoint_ok cp"
  shows "rat_restore cp r = Some (r\<lparr>phy_map_table_valid := rat_phy_map_table_valid cp,
    phy_map_table_visible := rat_phy_map_table_visible cp\<rparr>)"
  using assms
  by (simp add: rat_restore_def memcpy_arr_same checkpoint_ok_def phy_reg_num_bitmap_size_def
      bm_words_def PHY_REG_NUM_def)

lemma rat_rename_keeps:
  assumes "rat_inv r" "\<not> init_rat r" "rat_rename_all xs r = Some (ps, t)"
  shows "rat_inv t \<and> phy_reg_num t = phy_reg_num r \<and> arch_reg_num t = arch_reg_num r \<and> \<not> init_rat t
    \<and> (\<forall>j < phy_reg_num r. vld r j \<longrightarrow> vld t j \<and> phy_map_table t ! j = phy_map_table r ! j)"
  using assms
proof (induction xs arbitrary: r ps)
  case (Cons x xs)
  obtain a p where x: "x = (a, p)" by (cases x)
  with Cons.prems(3) obtain old r1 qs where
    m: "rat_set_map 0 a p r = Some (old, r1)" and re: "rat_rename_all xs r1 = Some (qs, t)"
    by (auto simp: bind_eq_Some_conv)
  note sm = rat_set_map_running [OF Cons.prems(1,2) m]
  have "\<forall>j < phy_reg_num r. vld r j \<longrightarrow> vld r1 j \<and> phy_map_table r1 ! j = phy_map_table r ! j"
    using sm(2,4) rat_mapped_bits(1) [OF Cons.prems(1) sm(3)]
    by (metis nth_list_update_neq rat_mapped_fields(5))
  moreover have "phy_reg_num r1 = phy_reg_num r" "arch_reg_num r1 = arch_reg_num r" using sm(2) by simp_all
  ultimately show ?case using Cons.IH [OF sm(5,6) re] by simp
qed simp

text \<open>A checkpoint that holds the table, up to the parts that other components own.\<close>

definition rat_captured :: "rat \<Rightarrow> checkpoint_t \<Rightarrow> bool" where
  "rat_captured r c = (checkpoint_ok c \<and> rat_phy_map_table_valid c = phy_map_table_valid r
     \<and> rat_phy_map_table_visible c = phy_map_table_visible r \<and> rat_phy_map_table c = phy_map_table r)"

lemma rat_save_captured:
  assumes "rat_inv r" "phy_reg_num r = PHY_REG_NUM" "checkpoint_ok cp" "rat_save r cp = Some c"
  shows "rat_captured r c"
  using assms rat_inv_wf [OF assms(1)] rat_save_eq [OF rat_inv_wf [OF assms(1)] assms(2,3)]
  by (auto simp: rat_captured_def checkpoint_ok_def phy_reg_num_bitmap_size_def bm_words_def PHY_REG_NUM_def)

lemma rat_restore_same:
  assumes "rat_inv r" "\<not> init_rat r" "phy_reg_num r = PHY_REG_NUM"
    and "checkpoint_ok c" "rat_phy_map_table_valid c = phy_map_table_valid r"
      "rat_phy_map_table_visible c = phy_map_table_visible r"
    and "rat_rename_all xs r = Some (ps, t)"
  shows "\<exists>s. rat_restore c t = Some s \<and> rat_same s r"
proof -
  note wf = rat_inv_wf [OF assms(1)] and k = rat_rename_keeps [OF assms(1,2,7)]
  have wt: "rat_wf t" using k rat_inv_wf by blast
  let ?s = "t\<lparr>phy_map_table_valid := phy_map_table_valid r, phy_map_table_visible := phy_map_table_visible r\<rparr>"
  have s: "rat_restore c t = Some ?s"
    using rat_restore_eq [OF wt _ assms(4)] k assms(3,5,6) by simp
  have "rat_wf ?s" using wt wf k by (simp add: rat_wf_def del: rat_wf_lengths)
  then have "rat_same ?s r" using k assms(2) by (simp add: rat_same_def)
  with s show ?thesis by blast
qed

text \<open>Restoring a checkpoint taken before a run of renamings brings every mapping and the set of
  free registers back, without any record of the run.\<close>

theorem rat_checkpoint_roundtrip:
  assumes "rat_inv r" "\<not> init_rat r" "phy_reg_num r = PHY_REG_NUM" "checkpoint_ok cp"
    and "rat_save r cp = Some c" "rat_rename_all xs r = Some (ps, t)"
  shows "\<exists>s. rat_restore c t = Some s \<and> rat_inv s \<and> rat_lookup s = rat_lookup r
    \<and> (\<forall>p < phy_reg_num r. rat_get_valid s p = rat_get_valid r p)"
proof -
  note wf = rat_inv_wf [OF assms(1)]
  have c: "rat_captured r c" by (rule rat_save_captured [OF assms(1,3,4,5)])
  from rat_restore_same [OF assms(1,2,3) _ _ _ assms(6), of c] c obtain s where
    s: "rat_restore c t = Some s" "rat_same s r" by (auto simp: rat_captured_def)
  note i = rat_same_inv [OF s(2) assms(1)]
  have "rat_get_valid s p = rat_get_valid r p" if "p < phy_reg_num r" for p
    using that s(2) rat_get_valid_eq [OF wf that] rat_get_valid_eq [of s p] by (simp add: rat_same_def)
  with s i show ?thesis by blast
qed

theorem rat_checkpoint_roundtrip_witness:
  "\<exists>c t s. rat_save rat_start (cp_sample 0) = Some c
     \<and> rat_rename_all [(5, 77)] rat_start = Some ([(77, 5)], t)
     \<and> rat_restore c t = Some s \<and> rat_lookup s 5 = Some 5"
proof -
  note r = rat_start_props
  have p: "77 < phy_reg_num rat_start" "0 < (5::nat)" "5 < arch_reg_num rat_start" "\<not> vld rat_start 77"
    and lk: "rat_lookup rat_start 5 = Some 5"
    using r(4,5) r(7) [of 77] r(6) [of 5] by (simp_all add: PHY_REG_NUM_def ARCH_REG_NUM_def)
  have ok: "checkpoint_ok (cp_sample 0)"
    by (simp add: checkpoint_ok_def cp_sample_def phy_reg_num_bitmap_size_def PHY_REG_NUM_def)
  obtain c where c: "rat_save rat_start (cp_sample 0) = Some c"
    using rat_save_eq [OF rat_inv_wf [OF r(2)] r(4) ok] by blast
  have e: "rat_rename_all [(5, 77)] rat_start = Some ([(77, 5)], rat_mapped 5 77 rat_start)"
    unfolding rat_rename_one [OF r(2,3) p lk] by simp
  from rat_checkpoint_roundtrip [OF r(2,3,4) ok c e] c e lk show ?thesis by auto
qed

text \<open>The table seen through a checkpoint.\<close>

definition rat_view :: "rat \<Rightarrow> checkpoint_t \<Rightarrow> rat" where
  "rat_view r cp = r\<lparr>phy_map_table := rat_phy_map_table cp,
     phy_map_table_valid := rat_phy_map_table_valid cp,
     phy_map_table_visible := rat_phy_map_table_visible cp\<rparr>"

lemma rat_view_fields [simp]:
  "phy_reg_num (rat_view r cp) = phy_reg_num r" "arch_reg_num (rat_view r cp) = arch_reg_num r"
  "phy_map_table (rat_view r cp) = rat_phy_map_table cp"
  "phy_map_table_valid (rat_view r cp) = rat_phy_map_table_valid cp"
  "phy_map_table_visible (rat_view r cp) = rat_phy_map_table_visible cp"
  by (simp_all add: rat_view_def)

lemma rat_view_access:
  shows rat_view_valid: "rat_cp_get_valid r cp p = rat_get_valid (rat_view r cp) p"
    and rat_view_visible: "rat_cp_get_visible r cp p = rat_get_visible (rat_view r cp) p"
    and rat_view_phy_id: "rat_cp_get_phy_id r cp a junk = rat_get_phy_id (rat_view r cp) a junk"
proof -
  show v: "rat_cp_get_valid r cp p = rat_get_valid (rat_view r cp) p"
    and w: "rat_cp_get_visible r cp p = rat_get_visible (rat_view r cp) p" for p
    by (simp_all add: rat_cp_get_valid_def rat_get_valid_def rat_cp_get_visible_def rat_get_visible_def)
  show "rat_cp_get_phy_id r cp a junk = rat_get_phy_id (rat_view r cp) a junk"
    unfolding rat_cp_get_phy_id_def rat_get_phy_id_def v w rat_view_fields by (rule refl)
qed

lemma rat_cp_set_map_captured:
  assumes "rat_inv r" "rat_captured r c" "\<not> init_rat r" "phy_reg_num v = phy_reg_num r" "arch_reg_num v = arch_reg_num r"
    and g: "p < phy_reg_num r" "0 < a" "a < arch_reg_num r" "\<not> vld r p"
  shows "\<exists>c'. rat_cp_set_map v junk c a p = Some c' \<and> rat_captured (rat_mapped a p r) c'"
proof -
  note wf = rat_inv_wf [OF assms(1)]
  have nums: "rat_cp_set_map v junk c a p = rat_cp_set_map r junk c a p"
    unfolding rat_cp_set_map_def rat_cp_get_valid_def rat_cp_get_phy_id_def rat_cp_get_visible_def
      rat_cp_set_valid_def rat_cp_set_visible_def assms(4,5) by (rule refl)
  obtain old where lk: "rat_lookup r a = Some old"
    using assms(1,3) g(2,3) rat_lookup_None [OF assms(1), of a] unfolding rat_inv_def by blast
  have c: "rat_phy_map_table_valid c = phy_map_table_valid r" "rat_phy_map_table c = phy_map_table r"
      "rat_phy_map_table_visible c = phy_map_table_visible r" "checkpoint_ok c"
    using assms(2) by (simp_all add: rat_captured_def)
  have v: "rat_view r c = r" by (simp add: rat_view_def c)
  have q: "old < phy_reg_num r" using rat_lookup_bound [OF assms(1) lk] by blast
  have l: "length (phy_map_table_valid r) = bm_words (phy_reg_num r)"
      "length (phy_map_table_visible r) = bm_words (phy_reg_num r)"
    using wf by simp_all
  let ?c' = "c\<lparr>rat_phy_map_table := (phy_map_table r)[p := a],
      rat_phy_map_table_valid := bm_put (phy_map_table_valid r) p True,
      rat_phy_map_table_visible := bm_put (bm_put (phy_map_table_visible r) p True) old False\<rparr>"
  have "rat_cp_set_map r junk c a p = Some ?c'"
    using g q lk rat_get_phy_id_eq [OF assms(1) g(2,3), of junk] wf
      bm_set_eq [OF l(1) g(1), of True] bm_set_eq [OF l(2) g(1), of True]
      bm_set_eq [of "bm_put (phy_map_table_visible r) p True" "phy_reg_num r" old False] l
    by (simp add: rat_cp_set_map_def rat_view_access v rat_get_valid_eq rat_cp_set_valid_def
        rat_cp_set_visible_def c)
  moreover have "rat_captured (rat_mapped a p r) ?c'"
    using c l lk by (simp add: rat_captured_def rat_mapped_def checkpoint_ok_def)
  ultimately show ?thesis unfolding nums by blast
qed

text \<open>Updating a checkpoint of the table with \<open>cp_set_map\<close> gives the checkpoint that would be
  taken after \<open>set_map\<close> on the table itself; one asserts and searches on the copy what the other
  does on the original.\<close>

theorem rat_cp_set_map_commutes:
  assumes "rat_inv r" "\<not> init_rat r" "phy_reg_num r = PHY_REG_NUM" "checkpoint_ok cp"
    and "rat_save r cp = Some c" "rat_set_map junk a p r = Some (old, t)"
  shows "\<exists>c'. rat_cp_set_map r junk c a p = Some c' \<and> rat_save t c = Some c'"
proof -
  note g = rat_set_map_guards [OF assms(1,6)] and sm = rat_set_map_running [OF assms(1,2,6)]
  have c: "rat_captured r c" by (rule rat_save_captured [OF assms(1,3,4,5)])
  from rat_cp_set_map_captured [OF assms(1) c assms(2) refl refl g(1-4), of junk] obtain c' where
    c': "rat_cp_set_map r junk c a p = Some c'" "rat_captured t c'" using sm(2) by auto
  have frame: "c' = c\<lparr>rat_phy_map_table_valid := rat_phy_map_table_valid c',
      rat_phy_map_table_visible := rat_phy_map_table_visible c', rat_phy_map_table := rat_phy_map_table c'\<rparr>"
    using c'(1) by (auto simp: rat_cp_set_map_def rat_cp_set_valid_def rat_cp_set_visible_def bind_eq_Some_conv split: if_splits)
  have "rat_save t c = Some c'"
    using rat_save_eq [OF rat_inv_wf [OF sm(5)], of c] c c'(2) assms(3) sm(2) frame by (simp add: rat_captured_def)
  with c'(1) show ?thesis by blast
qed

theorem rat_cp_set_map_commutes_witness:
  "\<exists>c t c'. rat_save rat_start (cp_sample 0) = Some c \<and> rat_set_map 0 5 77 rat_start = Some (5, t)
     \<and> rat_cp_set_map rat_start 0 c 5 77 = Some c' \<and> rat_save t c = Some c'"
proof -
  note r = rat_start_props
  have p: "77 < phy_reg_num rat_start" "0 < (5::nat)" "5 < arch_reg_num rat_start" "\<not> vld rat_start 77"
    and lk: "rat_lookup rat_start 5 = Some 5"
    using r(4,5) r(7) [of 77] r(6) [of 5] by (simp_all add: PHY_REG_NUM_def ARCH_REG_NUM_def)
  have ok: "checkpoint_ok (cp_sample 0)"
    by (simp add: checkpoint_ok_def cp_sample_def phy_reg_num_bitmap_size_def PHY_REG_NUM_def)
  obtain c where c: "rat_save rat_start (cp_sample 0) = Some c"
    using rat_save_eq [OF rat_inv_wf [OF r(2)] r(4) ok] by blast
  have m: "rat_set_map 0 5 77 rat_start = Some (5, rat_mapped 5 77 rat_start)"
    using rat_set_map_eq [OF r(2) p, of 0] lk by simp
  from rat_cp_set_map_commutes [OF r(2,3,4) ok c m] c m show ?thesis by blast
qed

end
