(* ===== verification/Regfile.thy ===== *)
theory Regfile
  imports Checkpoint
begin

text \<open>
  \<open>component/regfile.h\<close>: the physical register file with one valid bit per register, deferred
  writes, and the restoration of the valid bits from a checkpoint.  The class is a template; the
  program uses it at \<open>uint32_t\<close>, and the model is polymorphic in the element type with the value
  \<open>zero\<close> that \<open>memset\<close> gives it.
\<close>

datatype 'a regfile_request = Regfile_write nat 'a bool | Regfile_restore checkpoint_t

record 'a regfile =
  regfile_request_q :: "'a regfile_request list"
  reg_data :: "'a list"
  reg_data_valid :: "u64 list"
  regfile_size :: nat

definition regfile_new :: "'a \<Rightarrow> nat \<Rightarrow> 'a regfile" where
  "regfile_new zero n = \<lparr>regfile_request_q = [], reg_data = replicate n zero,
     reg_data_valid = replicate (bm_words n) 0, regfile_size = n\<rparr>"

definition regfile_reset :: "'a \<Rightarrow> 'a regfile \<Rightarrow> 'a regfile" where
  "regfile_reset zero f = f\<lparr>reg_data := replicate (regfile_size f) zero,
     reg_data_valid := replicate (bm_words (regfile_size f)) 0, regfile_request_q := []\<rparr>"

definition regfile_write :: "nat \<Rightarrow> 'a \<Rightarrow> bool \<Rightarrow> 'a regfile \<Rightarrow> 'a regfile option" where
  "regfile_write addr v valid f = do {
     cassert (addr < regfile_size f);
     d \<leftarrow> array_set (reg_data f) addr v;
     b \<leftarrow> bm_set (reg_data_valid f) addr valid;
     Some (f\<lparr>reg_data := d, reg_data_valid := b\<rparr>) }"

definition regfile_read :: "'a regfile \<Rightarrow> nat \<Rightarrow> 'a option" where
  "regfile_read f addr = do { cassert (addr < regfile_size f); array_get (reg_data f) addr }"

definition regfile_cp_get_data_valid :: "'a regfile \<Rightarrow> checkpoint_t \<Rightarrow> nat \<Rightarrow> bool option" where
  "regfile_cp_get_data_valid f cp addr = do {
     cassert (addr < regfile_size f);
     bm_get (phy_regfile_data_valid cp) addr }"

definition regfile_cp_set_data_valid ::
    "'a regfile \<Rightarrow> checkpoint_t \<Rightarrow> nat \<Rightarrow> bool \<Rightarrow> checkpoint_t option" where
  "regfile_cp_set_data_valid f cp addr valid = do {
     cassert (addr < regfile_size f);
     b \<leftarrow> bm_set (phy_regfile_data_valid cp) addr valid;
     Some (cp\<lparr>phy_regfile_data_valid := b\<rparr>) }"

definition regfile_read_data_valid :: "'a regfile \<Rightarrow> nat \<Rightarrow> bool option" where
  "regfile_read_data_valid f addr = do {
     cassert (addr < regfile_size f);
     bm_get (reg_data_valid f) addr }"

definition regfile_write_sync :: "nat \<Rightarrow> 'a \<Rightarrow> bool \<Rightarrow> 'a regfile \<Rightarrow> 'a regfile" where
  "regfile_write_sync addr v valid f =
     f\<lparr>regfile_request_q := regfile_request_q f @ [Regfile_write addr v valid]\<rparr>"

definition regfile_restore :: "checkpoint_t \<Rightarrow> 'a regfile \<Rightarrow> 'a regfile option" where
  "regfile_restore cp f = do {
     b \<leftarrow> memcpy_arr phy_reg_num_bitmap_size (reg_data_valid f) (phy_regfile_data_valid cp);
     Some (f\<lparr>reg_data_valid := b\<rparr>) }"

definition regfile_restore_sync :: "checkpoint_t \<Rightarrow> 'a regfile \<Rightarrow> 'a regfile" where
  "regfile_restore_sync cp f = f\<lparr>regfile_request_q := regfile_request_q f @ [Regfile_restore cp]\<rparr>"

fun regfile_apply :: "'a regfile_request \<Rightarrow> 'a regfile \<Rightarrow> 'a regfile option" where
  "regfile_apply (Regfile_write addr v valid) f = regfile_write addr v valid f"
| "regfile_apply (Regfile_restore cp) f = regfile_restore cp f"

definition regfile_sync :: "'a regfile \<Rightarrow> 'a regfile option" where
  "regfile_sync f = do {
     t \<leftarrow> fold_opt regfile_apply (regfile_request_q f) f;
     Some (t\<lparr>regfile_request_q := []\<rparr>) }"

section \<open>Invariant and contents\<close>

definition regfile_inv :: "'a regfile \<Rightarrow> bool" where
  "regfile_inv f =
     (regfile_size f = PHY_REG_NUM \<and> length (reg_data f) = regfile_size f
      \<and> length (reg_data_valid f) = bm_words (regfile_size f))"

fun regfile_request_ok :: "'a regfile_request \<Rightarrow> bool" where
  "regfile_request_ok (Regfile_write addr v valid) = (addr < PHY_REG_NUM)"
| "regfile_request_ok (Regfile_restore cp) = checkpoint_ok cp"

lemma bitmap_size_words: "phy_reg_num_bitmap_size = bm_words PHY_REG_NUM"
  by (simp add: phy_reg_num_bitmap_size_def bm_words_def)

lemma regfile_write_eq:
  assumes "regfile_inv f" "addr < PHY_REG_NUM"
  shows "regfile_write addr v valid f
    = Some (f\<lparr>reg_data := (reg_data f)[addr := v], reg_data_valid := bm_put (reg_data_valid f) addr valid\<rparr>)"
  using assms bm_set_eq [of "reg_data_valid f" "regfile_size f" addr valid]
  by (simp add: regfile_write_def regfile_inv_def array_set_def cassert_def)

lemma regfile_restore_eq:
  assumes "regfile_inv f" "checkpoint_ok cp"
  shows "regfile_restore cp f = Some (f\<lparr>reg_data_valid := phy_regfile_data_valid cp\<rparr>)"
  using assms
  by (simp add: regfile_restore_def regfile_inv_def checkpoint_ok_def memcpy_arr_same bitmap_size_words)

interpretation regfile_dq: deferred_total regfile_apply regfile_inv regfile_request_ok
proof
  fix f t :: "'a regfile" and r :: "'a regfile_request"
  assume f: "regfile_inv f" "regfile_request_ok r"
  show "\<exists>t. regfile_apply r f = Some t"
    using f by (cases r) (auto simp: regfile_write_eq regfile_restore_eq)
  assume "regfile_apply r f = Some t"
  with f show "regfile_inv t"
    by (cases r) (auto simp: regfile_write_eq regfile_restore_eq,
        auto simp: regfile_inv_def checkpoint_ok_def bitmap_size_words)
qed

lemma regfile_read_eq:
  "regfile_inv f \<Longrightarrow> i < PHY_REG_NUM \<Longrightarrow> regfile_read f i = Some (reg_data f ! i)"
  by (simp add: regfile_read_def regfile_inv_def cassert_def array_get_def)

lemma regfile_read_data_valid_eq:
  "regfile_inv f \<Longrightarrow> i < PHY_REG_NUM \<Longrightarrow> regfile_read_data_valid f i = Some (bm_bit (reg_data_valid f) i)"
  by (simp add: regfile_read_data_valid_def regfile_inv_def cassert_def bm_get_eq)

text \<open>The last value and the last valid bit that a list of requests gives to a register.\<close>

fun request_value :: "nat \<Rightarrow> 'a \<Rightarrow> 'a regfile_request \<Rightarrow> 'a" where
  "request_value i x (Regfile_write j v valid) = (if i = j then v else x)"
| "request_value i x (Regfile_restore cp) = x"

fun request_valid :: "nat \<Rightarrow> bool \<Rightarrow> 'a regfile_request \<Rightarrow> bool" where
  "request_valid i b (Regfile_write j v valid) = (if i = j then valid else b)"
| "request_valid i b (Regfile_restore cp) = bm_bit (phy_regfile_data_valid cp) i"

lemma regfile_apply_contents:
  assumes "regfile_inv f" "regfile_request_ok r" "regfile_apply r f = Some t" "i < PHY_REG_NUM"
  shows "reg_data t ! i = request_value i (reg_data f ! i) r
    \<and> bm_bit (reg_data_valid t) i = request_valid i (bm_bit (reg_data_valid f) i) r"
  using assms
  by (cases r) (auto simp: regfile_write_eq regfile_restore_eq regfile_inv_def
      bm_bit_put [of _ PHY_REG_NUM] nth_list_update)

lemma regfile_sync_contents:
  assumes "regfile_inv f" "\<forall>r \<in> set (regfile_request_q f). regfile_request_ok r"
  shows "\<exists>t. regfile_sync f = Some t \<and> regfile_inv t \<and> regfile_request_q t = []
    \<and> (\<forall>i < PHY_REG_NUM.
         regfile_read t i = Some (fold (\<lambda>r x. request_value i x r) (regfile_request_q f) (reg_data f ! i))
         \<and> regfile_read_data_valid t i
             = Some (fold (\<lambda>r b. request_valid i b r) (regfile_request_q f) (bm_bit (reg_data_valid f) i)))"
proof -
  have "\<exists>t. fold_opt regfile_apply rs g = Some t \<and> regfile_inv t
      \<and> (\<forall>i < PHY_REG_NUM. reg_data t ! i = fold (\<lambda>r x. request_value i x r) rs (reg_data g ! i)
         \<and> bm_bit (reg_data_valid t) i
             = fold (\<lambda>r b. request_valid i b r) rs (bm_bit (reg_data_valid g) i))"
    if "regfile_inv g" "\<forall>r \<in> set rs. regfile_request_ok r" for rs and g :: "'a regfile"
    using that
  proof (induction rs arbitrary: g)
    case (Cons r rs)
    then obtain h where h: "regfile_apply r g = Some h" "regfile_inv h"
      using regfile_dq.progress regfile_dq.preserves by (metis list.set_intros(1))
    from Cons.IH [OF h(2)] Cons.prems regfile_apply_contents [OF Cons.prems(1) _ h(1)] h(1)
    show ?case by simp
  qed simp
  from this [OF assms] obtain t where t: "fold_opt regfile_apply (regfile_request_q f) f = Some t" "regfile_inv t"
      "\<forall>i < PHY_REG_NUM. reg_data t ! i = fold (\<lambda>r x. request_value i x r) (regfile_request_q f) (reg_data f ! i)
         \<and> bm_bit (reg_data_valid t) i
             = fold (\<lambda>r b. request_valid i b r) (regfile_request_q f) (bm_bit (reg_data_valid f) i)"
    by blast
  have u: "regfile_inv (t\<lparr>regfile_request_q := []\<rparr>)" using t(2) by (simp add: regfile_inv_def)
  show ?thesis
    using t by (simp add: regfile_sync_def u regfile_read_eq [OF u] regfile_read_data_valid_eq [OF u])
qed

text \<open>Replaying the deferred requests of the register file never aborts, and each register then
  holds the value of the last write to it and the valid bit of the last write or checkpoint
  restoration; a restoration changes no value.\<close>

theorem regfile_sync_correct:
  assumes "regfile_inv f" "\<forall>r \<in> set (regfile_request_q f). regfile_request_ok r"
  shows "\<exists>t. regfile_sync f = Some t \<and> regfile_inv t \<and> regfile_request_q t = []
    \<and> (\<forall>i < PHY_REG_NUM.
         regfile_read t i = Some (fold (\<lambda>r x. request_value i x r) (regfile_request_q f) (reg_data f ! i))
         \<and> regfile_read_data_valid t i
             = Some (fold (\<lambda>r b. request_valid i b r) (regfile_request_q f) (bm_bit (reg_data_valid f) i)))"
  by (rule regfile_sync_contents [OF assms])

theorem regfile_sync_correct_witness:
  "\<exists>t. regfile_sync (regfile_restore_sync (cp_sample 0)
        (regfile_write_sync 5 42 True (regfile_new 0 128))) = Some t
     \<and> regfile_read t 5 = Some (42 :: u32) \<and> regfile_read_data_valid t 5 = Some False"
proof -
  let ?f = "regfile_restore_sync (cp_sample 0) (regfile_write_sync 5 (42 :: u32) True (regfile_new 0 128))"
  have q: "regfile_request_q ?f = [Regfile_write 5 42 True, Regfile_restore (cp_sample 0)]"
    by (simp add: regfile_restore_sync_def regfile_write_sync_def regfile_new_def)
  have i: "regfile_inv ?f"
    by (simp add: regfile_restore_sync_def regfile_write_sync_def regfile_new_def regfile_inv_def PHY_REG_NUM_def)
  have ok: "\<forall>r \<in> set (regfile_request_q ?f). regfile_request_ok r"
    unfolding q by (simp add: PHY_REG_NUM_def checkpoint_ok_def cp_sample_def phy_reg_num_bitmap_size_def)
  have n: "5 < PHY_REG_NUM" "bm_bit (phy_regfile_data_valid (cp_sample 0)) 5 = False"
    by (simp_all add: PHY_REG_NUM_def cp_sample_def bm_bit_def)
  from regfile_sync_correct [OF i ok] n show ?thesis unfolding q by auto
qed

end
