(* ===== verification/Rob.thy ===== *)
theory Rob
  imports Ring
begin

text \<open>
  \<open>component/rob.h\<close>: the reorder buffer.  It is a ring of instructions in program order with
  deferred pops and writes and the counters of committed instructions.  The operations on slot
  numbers are those of \<open>Ring\<close>, whose code this class contains.
\<close>

record rob_item_t =
  new_phy_reg_id :: nat
  old_phy_reg_id :: nat
  old_phy_reg_id_valid :: bool
  ri_finish :: bool
  ri_pc :: u32
  ri_inst_value :: u32
  ri_has_exception :: bool
  ri_exception_id :: riscv_exception_t
  ri_exception_value :: u32
  ri_predicted :: bool
  ri_predicted_jump :: bool
  ri_predicted_next_pc :: u32
  ri_checkpoint_id_valid :: bool
  ri_checkpoint_id :: nat
  ri_bru_op :: bool
  ri_bru_jump :: bool
  ri_bru_next_pc :: u32
  ri_is_mret :: bool
  ri_csr_addr :: u32
  ri_csr_newvalue :: u32
  ri_csr_newvalue_valid :: bool

record rob = "rob_item_t fifo" +
  rob_request_q :: "rob_item_t ring_request list"
  committed :: bool
  commit_num :: u32
  global_commit_num :: u64

section \<open>Operations\<close>

definition rob_reset :: "rob \<Rightarrow> rob" where
  "rob_reset r = (fifo_reset r)\<lparr>rob_request_q := [], committed := False, commit_num := 0,
     global_commit_num := 0\<rparr>"

definition rob_set_committed :: "bool \<Rightarrow> rob \<Rightarrow> rob" where
  "rob_set_committed v r = r\<lparr>committed := v\<rparr>"

definition rob_add_commit_num :: "u32 \<Rightarrow> rob \<Rightarrow> rob" where
  "rob_add_commit_num n r = r\<lparr>commit_num := commit_num r + n,
     global_commit_num := global_commit_num r + ucast n\<rparr>"

definition rob_clear_commit_num :: "rob \<Rightarrow> rob" where
  "rob_clear_commit_num r = r\<lparr>commit_num := 0\<rparr>"

definition rob_push :: "rob_item_t \<Rightarrow> rob \<Rightarrow> bool \<times> nat \<times> rob" where
  "rob_push x r = ring_push x r"

definition rob_get_item :: "rob \<Rightarrow> nat \<Rightarrow> rob_item_t option" where
  "rob_get_item r i = ring_get_item r i"

definition rob_set_item :: "nat \<Rightarrow> rob_item_t \<Rightarrow> rob \<Rightarrow> rob option" where
  "rob_set_item i x r = ring_set_item i x r"

definition rob_set_item_sync :: "nat \<Rightarrow> rob_item_t \<Rightarrow> rob \<Rightarrow> rob" where
  "rob_set_item_sync i x r = r\<lparr>rob_request_q := rob_request_q r @ [Ring_set_item i x]\<rparr>"

definition rob_pop_sync :: "rob \<Rightarrow> rob" where
  "rob_pop_sync r = r\<lparr>rob_request_q := rob_request_q r @ [Ring_pop]\<rparr>"

definition rob_sync :: "rob \<Rightarrow> rob option" where
  "rob_sync r = do {
     t \<leftarrow> fold_opt ring_apply (rob_request_q r) r;
     Some (t\<lparr>rob_request_q := []\<rparr>) }"

text \<open>\<open>get_json\<close> lists the live entries with their slot numbers.\<close>

definition rob_get_json :: "(nat \<Rightarrow> rob_item_t \<Rightarrow> 'j) \<Rightarrow> rob \<Rightarrow> 'j list option" where
  "rob_get_json item_json r =
     (if fifo_is_empty r then Some []
      else map_option (map (\<lambda>(cur, x). item_json cur x)) (fifo_walk (qsize r) (rptr r) (rstage r) r))"

section \<open>Correctness\<close>

lemma rob_get_item_nth: "fifo_inv r \<Longrightarrow> i < qsize r \<Longrightarrow> rob_get_item r i = Some (buffer r ! i)"
  by (simp add: rob_get_item_def ring_get_item_def fifo_inv_def)

text \<open>A push into a reorder buffer with room returns a slot that was free, the instruction is the
  youngest and is read back from that slot, and no older instruction moves or changes; a push into
  a full one changes nothing.\<close>

theorem rob_push_fresh:
  assumes "fifo_inv r" "\<not> pop_status_save r" "rob_push x r = (ok, i, r')"
  shows "(ok \<longleftrightarrow> length (ring_ids r) < qsize r) \<and> fifo_inv r' \<and> (\<not> ok \<longrightarrow> r' = r)
    \<and> (ok \<longrightarrow> ring_get_new_id r = Some i \<and> i \<notin> set (ring_ids r) \<and> ring_ids r' = ring_ids r @ [i]
         \<and> rob_get_item r' i = Some x
         \<and> (\<forall>j \<in> set (ring_ids r). rob_get_item r' j = rob_get_item r j))"
proof (cases "fifo_is_full r")
  case True
  then have "\<not> ok" "r' = r" using assms(3) by (auto simp: rob_push_def ring_push_def fifo_push_def)
  then show ?thesis using True ring_full_length [OF assms(1,2)] assms(1) by auto
next
  case False
  note push = ring_push_ids [OF assms(1) False assms(3) [unfolded rob_push_def]]
  have le: "length (ring_ids r) < qsize r"
    using False ring_full_length [OF assms(1,2)] ring_ids_le [OF assms(1)] by simp
  have i: "i < qsize r" using push(3) assms(1) by (auto simp: fifo_inv_def ring_ok_def)
  then have "i \<notin> set (ring_ids r)"
    using ring_slot_live [OF assms(1) le] ring_wptr_slot [OF assms(1)] push(3) by auto
  moreover have "qsize r' = qsize r"
    using assms(1) push by (metis fifo_inv_def length_list_update)
  moreover have "j < qsize r" if "j \<in> set (ring_ids r)" for j
    using ring_ids_bound [OF assms(1) that] .
  ultimately show ?thesis
    using push i le False assms(1)
    by (auto simp: ring_get_new_id_def rob_get_item_nth fifo_inv_def nth_list_update)
qed

text \<open>At the end of a cycle the instructions committed in it leave the reorder buffer from its old
  end, and every deferred update of an entry has taken effect, the last one winning.\<close>

theorem rob_sync_correct:
  assumes "fifo_inv r" "\<forall>q \<in> set (rob_request_q r). ring_request_ok (qsize r) q"
  shows "\<exists>t. rob_sync r = Some t \<and> fifo_inv t \<and> rob_request_q t = []
    \<and> ring_ids t = drop (ring_pops (rob_request_q r)) (ring_ids r)
    \<and> (\<forall>i < qsize r. rob_get_item t i = Some (last (buffer r ! i # ring_writes i (rob_request_q r))))"
proof -
  obtain g where g: "fold_opt ring_apply (rob_request_q r) r = Some g" "fifo_inv g" "qsize g = qsize r"
      "ring_ids g = drop (ring_pops (rob_request_q r)) (ring_ids r)"
      "\<forall>i < qsize r. buffer g ! i = last (buffer r ! i # ring_writes i (rob_request_q r))"
    using ring_replay [OF assms] by blast
  then show ?thesis
    by (auto simp: rob_sync_def rob_get_item_def ring_get_item_def fifo_inv_def ring_ids_def)
qed

lemma rob_get_json_entries:
  assumes "fifo_inv r"
  shows "rob_get_json j r = Some (map (\<lambda>i. j i (buffer r ! i)) (ring_ids r))"
  using assms fifo_walk_all [OF assms]
  by (cases "fifo_is_empty r")
    (auto simp: rob_get_json_def fifo_empty_iff ring_ids_items ring_ids_def [symmetric])

section \<open>A concrete reorder buffer\<close>

definition rob_item_zero :: rob_item_t where
  "rob_item_zero = \<lparr>new_phy_reg_id = 0, old_phy_reg_id = 0, old_phy_reg_id_valid = False,
     ri_finish = False, ri_pc = 0, ri_inst_value = 0, ri_has_exception = False,
     ri_exception_id = instruction_address_misaligned, ri_exception_value = 0, ri_predicted = False,
     ri_predicted_jump = False, ri_predicted_next_pc = 0, ri_checkpoint_id_valid = False,
     ri_checkpoint_id = 0, ri_bru_op = False, ri_bru_jump = False, ri_bru_next_pc = 0,
     ri_is_mret = False, ri_csr_addr = 0, ri_csr_newvalue = 0, ri_csr_newvalue_valid = False\<rparr>"

definition rob_new :: "nat \<Rightarrow> rob" where
  "rob_new n = fifo.extend (fifo_new n rob_item_zero)
     \<lparr>rob_request_q = [], committed = False, commit_num = 0, global_commit_num = 0\<rparr>"

lemma rob_new_inv: "0 < n \<Longrightarrow> fifo_inv (rob_new n) \<and> \<not> pop_status_save (rob_new n)
    \<and> qsize (rob_new n) = n \<and> ring_ids (rob_new n) = [] \<and> rob_request_q (rob_new n) = []"
  by (simp add: rob_new_def fifo.extend_def fifo_new_def fifo_inv_def ring_ok_def ring_ids_def id_span_def)

theorem rob_push_fresh_witness:
  "\<exists>i r'. rob_push (rob_item_zero\<lparr>ri_pc := 4\<rparr>) (rob_new 64) = (True, i, r')
     \<and> ring_ids r' = [i] \<and> rob_get_item r' i = Some (rob_item_zero\<lparr>ri_pc := 4\<rparr>)"
proof -
  let ?x = "rob_item_zero\<lparr>ri_pc := 4\<rparr>"
  obtain ok i r' where p: "rob_push ?x (rob_new 64) = (ok, i, r')" by (metis prod_cases3)
  note n = rob_new_inv [of 64]
  from rob_push_fresh [of "rob_new 64" ?x ok i r'] n p have "ok \<and> ring_ids r' = [i] \<and> rob_get_item r' i = Some ?x"
    by auto
  with p show ?thesis by auto
qed

theorem rob_sync_correct_witness:
  "\<exists>t. rob_sync (rob_pop_sync (rob_set_item_sync 3 (rob_item_zero\<lparr>ri_finish := True\<rparr>) (rob_new 4))) = Some t
     \<and> rob_get_item t 3 = Some (rob_item_zero\<lparr>ri_finish := True\<rparr>)"
proof -
  let ?x = "rob_item_zero\<lparr>ri_finish := True\<rparr>"
  let ?r = "rob_pop_sync (rob_set_item_sync 3 ?x (rob_new 4))"
  have q: "rob_request_q ?r = [Ring_set_item 3 ?x, Ring_pop]" and n: "qsize ?r = 4"
    and i: "fifo_inv ?r"
    by (simp_all add: rob_pop_sync_def rob_set_item_sync_def rob_new_def fifo.extend_def fifo_new_def
        fifo_inv_def ring_ok_def)
  have "\<forall>k \<in> set (rob_request_q ?r). ring_request_ok (qsize ?r) k" using q n by simp
  from rob_sync_correct [OF i this] q n show ?thesis by auto
qed

end
