(* ===== verification/Pipeline_Common.thy ===== *)
theory Pipeline_Common
  imports Prelude
begin

text \<open>
  The vocabulary of the pipeline stages: the enumerations of \<open>pipeline/pipeline_common.h\<close>, the packets
  passed between neighbouring stages, the feedback packets, and the one-entry pipeline register
  \<open>component/port.h\<close>.

  The packets of consecutive stages repeat the fields of the packet before and add some; the records
  extend each other in the same way.  \<open>sub_op\<close> is a union of the operation enumerations: its model
  keeps the member that was written, and reading another one is \<open>None\<close>.
\<close>

section \<open>Enumerations\<close>

datatype op_unit_t =
    Unit_alu | Unit_mul | Unit_div | Unit_lsu | Unit_bru | Unit_csr

datatype arg_src_t =
    Arg_reg | Arg_imm | Arg_disable

datatype (plugins only: code size) op_t =
    Op_add | Op_addi | Op_and | Op_andi | Op_auipc | Op_csrrc | Op_csrrci | Op_csrrs | Op_csrrsi
  | Op_csrrw | Op_csrrwi | Op_ebreak | Op_ecall | Op_fence | Op_fence_i | Op_lui | Op_or | Op_ori
  | Op_sll | Op_slli | Op_slt | Op_slti | Op_sltiu | Op_sltu | Op_sra | Op_srai | Op_srl
  | Op_srli | Op_sub | Op_xor | Op_xori | Op_beq | Op_bge | Op_bgeu | Op_blt | Op_bltu | Op_bne
  | Op_jal | Op_jalr | Op_div | Op_divu | Op_rem | Op_remu | Op_lb | Op_lbu | Op_lh | Op_lhu
  | Op_lw | Op_sb | Op_sh | Op_sw | Op_mul | Op_mulh | Op_mulhsu | Op_mulhu | Op_mret

datatype alu_op_t =
    Alu_add | Alu_and | Alu_auipc | Alu_ebreak | Alu_ecall | Alu_fence | Alu_fence_i | Alu_lui
  | Alu_or | Alu_sll | Alu_slt | Alu_sltu | Alu_sra | Alu_srl | Alu_sub | Alu_xor

datatype bru_op_t =
    Bru_beq | Bru_bge | Bru_bgeu | Bru_blt | Bru_bltu | Bru_bne | Bru_jal | Bru_jalr | Bru_mret

datatype div_op_t =
    Div_div | Div_divu | Div_rem | Div_remu

datatype lsu_op_t =
    Lsu_lb | Lsu_lbu | Lsu_lh | Lsu_lhu | Lsu_lw | Lsu_sb | Lsu_sh | Lsu_sw

datatype mul_op_t =
    Mul_mul | Mul_mulh | Mul_mulhsu | Mul_mulhu

datatype csr_op_t =
    Csrop_csrrc | Csrop_csrrs | Csrop_csrrw

datatype sub_op_t =
    Alu_op alu_op_t | Bru_op bru_op_t | Div_op div_op_t | Lsu_op lsu_op_t | Mul_op mul_op_t | Csr_op csr_op_t

fun as_alu :: "sub_op_t \<Rightarrow> alu_op_t option" where
  "as_alu (Alu_op x) = Some x" | "as_alu _ = None"

fun as_bru :: "sub_op_t \<Rightarrow> bru_op_t option" where
  "as_bru (Bru_op x) = Some x" | "as_bru _ = None"

fun as_div :: "sub_op_t \<Rightarrow> div_op_t option" where
  "as_div (Div_op x) = Some x" | "as_div _ = None"

fun as_lsu :: "sub_op_t \<Rightarrow> lsu_op_t option" where
  "as_lsu (Lsu_op x) = Some x" | "as_lsu _ = None"

fun as_mul :: "sub_op_t \<Rightarrow> mul_op_t option" where
  "as_mul (Mul_op x) = Some x" | "as_mul _ = None"

fun as_csr :: "sub_op_t \<Rightarrow> csr_op_t option" where
  "as_csr (Csr_op x) = Some x" | "as_csr _ = None"

section \<open>Packets\<close>

record fetch_decode_pack_t =
  fd_pc :: u32
  fd_value :: u32
  fd_enable :: bool
  fd_has_exception :: bool
  fd_exception_id :: riscv_exception_t
  fd_exception_value :: u32
  fd_predicted :: bool
  fd_predicted_jump :: bool
  fd_predicted_next_pc :: u32
  fd_checkpoint_id_valid :: bool
  fd_checkpoint_id :: nat

record decode_rename_pack_t =
  p_enable :: bool
  p_value :: u32
  p_valid :: bool
  p_pc :: u32
  p_imm :: u32
  p_has_exception :: bool
  p_exception_id :: riscv_exception_t
  p_exception_value :: u32
  p_predicted :: bool
  p_predicted_jump :: bool
  p_predicted_next_pc :: u32
  p_checkpoint_id_valid :: bool
  p_checkpoint_id :: nat
  p_rs1 :: nat
  p_arg1_src :: arg_src_t
  p_rs1_need_map :: bool
  p_rs2 :: nat
  p_arg2_src :: arg_src_t
  p_rs2_need_map :: bool
  p_rd :: nat
  p_rd_enable :: bool
  p_need_rename :: bool
  p_csr :: u32
  p_op :: op_t
  p_op_unit :: op_unit_t
  p_sub_op :: sub_op_t

record rename_readreg_op_info_t = decode_rename_pack_t +
  p_rob_id :: nat
  p_rs1_phy :: nat
  p_rs2_phy :: nat
  p_rd_phy :: nat

record readreg_issue_op_info_t = rename_readreg_op_info_t +
  p_src1_value :: u32
  p_src1_loaded :: bool
  p_src2_value :: u32
  p_src2_loaded :: bool

record issue_execute_pack_t = readreg_issue_op_info_t +
  p_lsu_addr :: u32

record execute_wb_pack_t = readreg_issue_op_info_t +
  p_bru_jump :: bool
  p_bru_next_pc :: u32
  p_rd_value :: u32
  p_csr_newvalue :: u32
  p_csr_newvalue_valid :: bool

section \<open>Feedback\<close>

record execute_feedback_channel_t =
  fb_enable :: bool
  fb_phy_id :: nat
  fb_value :: u32

definition COMMIT_WIDTH :: nat where "COMMIT_WIDTH = 4"

record commit_feedback_pack_t =
  cf_enable :: bool
  cf_next_handle_rob_id_valid :: bool
  cf_next_handle_rob_id :: nat
  cf_has_exception :: bool
  cf_exception_pc :: u32
  cf_flush :: bool
  cf_committed_rob_id :: "nat list"
  cf_committed_rob_id_valid :: "bool list"
  cf_jump_enable :: bool
  cf_jump :: bool
  cf_next_pc :: u32

text \<open>\<open>memset(&pack, 0, sizeof(pack))\<close>.\<close>

definition commit_feedback_zero :: commit_feedback_pack_t where
  "commit_feedback_zero = \<lparr>cf_enable = False, cf_next_handle_rob_id_valid = False, cf_next_handle_rob_id = 0,
     cf_has_exception = False, cf_exception_pc = 0, cf_flush = False,
     cf_committed_rob_id = replicate COMMIT_WIDTH 0, cf_committed_rob_id_valid = replicate COMMIT_WIDTH False,
     cf_jump_enable = False, cf_jump = False, cf_next_pc = 0\<rparr>"

definition cf_ok :: "commit_feedback_pack_t \<Rightarrow> bool" where
  "cf_ok c = (length (cf_committed_rob_id c) = COMMIT_WIDTH \<and> length (cf_committed_rob_id_valid c) = COMMIT_WIDTH)"

section \<open>Port\<close>

record 'a port =
  port_value :: 'a
  port_init_value :: 'a

definition port_new :: "'a \<Rightarrow> 'a port" where
  "port_new init = \<lparr>port_value = init, port_init_value = init\<rparr>"

definition port_reset :: "'a port \<Rightarrow> 'a port" where
  "port_reset p = p\<lparr>port_value := port_init_value p\<rparr>"

definition port_set :: "'a \<Rightarrow> 'a port \<Rightarrow> 'a port" where
  "port_set v p = p\<lparr>port_value := v\<rparr>"

definition port_get :: "'a port \<Rightarrow> 'a" where
  "port_get p = port_value p"

lemma port_set_get [simp]: "port_get (port_set v p) = v" "port_get (port_reset (port_set v p)) = port_init_value p"
  by (simp_all add: port_get_def port_set_def port_reset_def)

end
