(* ===== verification/Decode.thy ===== *)
theory Decode
  imports Fifo Pipeline_Common
begin

text \<open>
  \<open>pipeline/decode.cpp\<close>: the decode stage.  Up to four fetched instructions a cycle are taken from
  the fetch queue, decoded and put into the rename queue.  The \<open>switch\<close> over the opcode is split into
  one definition per opcode; the last part relates it to the encoding table of the instruction set.
\<close>

section \<open>Fields of an instruction word\<close>

definition f_opcode :: "u32 \<Rightarrow> u32" where "f_opcode w = w AND 0x7f"
definition f_rd :: "u32 \<Rightarrow> u32" where "f_rd w = drop_bit 7 w AND 0x1f"
definition f_funct3 :: "u32 \<Rightarrow> u32" where "f_funct3 w = drop_bit 12 w AND 0x07"
definition f_rs1 :: "u32 \<Rightarrow> u32" where "f_rs1 w = drop_bit 15 w AND 0x1f"
definition f_rs2 :: "u32 \<Rightarrow> u32" where "f_rs2 w = drop_bit 20 w AND 0x1f"
definition f_funct7 :: "u32 \<Rightarrow> u32" where "f_funct7 w = drop_bit 25 w AND 0x7f"
definition f_imm_i :: "u32 \<Rightarrow> u32" where "f_imm_i w = drop_bit 20 w AND 0xfff"

definition f_imm_s :: "u32 \<Rightarrow> u32" where
  "f_imm_s w = (drop_bit 7 w AND 0x1f) OR push_bit 5 (drop_bit 25 w AND 0x7f)"

definition f_imm_b :: "u32 \<Rightarrow> u32" where
  "f_imm_b w = push_bit 1 (drop_bit 8 w AND 0x0f) OR push_bit 5 (drop_bit 25 w AND 0x3f)
     OR push_bit 11 (drop_bit 7 w AND 0x01) OR push_bit 12 (drop_bit 31 w AND 0x01)"

definition f_imm_u :: "u32 \<Rightarrow> u32" where "f_imm_u w = w AND NOT 0xfff"

definition f_imm_j :: "u32 \<Rightarrow> u32" where
  "f_imm_j w = push_bit 12 (drop_bit 12 w AND 0xff) OR push_bit 11 (drop_bit 20 w AND 0x01)
     OR push_bit 1 (drop_bit 21 w AND 0x3ff) OR push_bit 20 (drop_bit 31 w AND 0x01)"

section \<open>The switch\<close>

text \<open>\<open>memset(&send_pack, 0, sizeof(send_pack))\<close>.\<close>

definition decode_rename_zero :: decode_rename_pack_t where
  "decode_rename_zero = \<lparr>p_enable = False, p_value = 0, p_valid = False, p_pc = 0, p_imm = 0,
     p_has_exception = False, p_exception_id = instruction_address_misaligned, p_exception_value = 0,
     p_predicted = False, p_predicted_jump = False, p_predicted_next_pc = 0,
     p_checkpoint_id_valid = False, p_checkpoint_id = 0, p_rs1 = 0, p_arg1_src = Arg_reg,
     p_rs1_need_map = False, p_rs2 = 0, p_arg2_src = Arg_reg, p_rs2_need_map = False, p_rd = 0,
     p_rd_enable = False, p_need_rename = False, p_csr = 0, p_op = Op_add, p_op_unit = Unit_alu,
     p_sub_op = Alu_op Alu_add\<rparr>"

abbreviation op_alu :: "op_t \<Rightarrow> alu_op_t \<Rightarrow> decode_rename_pack_t \<Rightarrow> decode_rename_pack_t" where
  "op_alu x y p \<equiv> p\<lparr>p_op := x, p_sub_op := Alu_op y\<rparr>"
abbreviation op_bru :: "op_t \<Rightarrow> bru_op_t \<Rightarrow> decode_rename_pack_t \<Rightarrow> decode_rename_pack_t" where
  "op_bru x y p \<equiv> p\<lparr>p_op := x, p_sub_op := Bru_op y\<rparr>"
abbreviation op_lsu :: "op_t \<Rightarrow> lsu_op_t \<Rightarrow> decode_rename_pack_t \<Rightarrow> decode_rename_pack_t" where
  "op_lsu x y p \<equiv> p\<lparr>p_op := x, p_sub_op := Lsu_op y\<rparr>"
abbreviation op_mul :: "op_t \<Rightarrow> mul_op_t \<Rightarrow> decode_rename_pack_t \<Rightarrow> decode_rename_pack_t" where
  "op_mul x y p \<equiv> p\<lparr>p_op := x, p_op_unit := Unit_mul, p_sub_op := Mul_op y\<rparr>"
abbreviation op_div :: "op_t \<Rightarrow> div_op_t \<Rightarrow> decode_rename_pack_t \<Rightarrow> decode_rename_pack_t" where
  "op_div x y p \<equiv> p\<lparr>p_op := x, p_op_unit := Unit_div, p_sub_op := Div_op y\<rparr>"
abbreviation op_invalid :: "decode_rename_pack_t \<Rightarrow> decode_rename_pack_t" where
  "op_invalid p \<equiv> p\<lparr>p_valid := False\<rparr>"

definition decode_lui :: "u32 \<Rightarrow> decode_rename_pack_t \<Rightarrow> decode_rename_pack_t option" where
  "decode_lui w p = Some (p\<lparr>p_op := Op_lui, p_op_unit := Unit_alu, p_sub_op := Alu_op Alu_lui,
     p_arg1_src := Arg_disable, p_arg2_src := Arg_disable, p_imm := f_imm_u w,
     p_rd := unat (f_rd w), p_rd_enable := True\<rparr>)"

definition decode_auipc :: "u32 \<Rightarrow> decode_rename_pack_t \<Rightarrow> decode_rename_pack_t option" where
  "decode_auipc w p = Some (p\<lparr>p_op := Op_auipc, p_op_unit := Unit_alu, p_sub_op := Alu_op Alu_auipc,
     p_arg1_src := Arg_disable, p_arg2_src := Arg_disable, p_imm := f_imm_u w,
     p_rd := unat (f_rd w), p_rd_enable := True\<rparr>)"

definition decode_jal :: "u32 \<Rightarrow> decode_rename_pack_t \<Rightarrow> decode_rename_pack_t option" where
  "decode_jal w p = do {
     imm \<leftarrow> sign_extend (f_imm_j w) 21;
     Some (p\<lparr>p_op := Op_jal, p_op_unit := Unit_bru, p_sub_op := Bru_op Bru_jal,
       p_arg1_src := Arg_disable, p_arg2_src := Arg_disable, p_imm := imm,
       p_rd := unat (f_rd w), p_rd_enable := True\<rparr>) }"

definition decode_jalr :: "u32 \<Rightarrow> decode_rename_pack_t \<Rightarrow> decode_rename_pack_t option" where
  "decode_jalr w p = do {
     imm \<leftarrow> sign_extend (f_imm_i w) 12;
     Some (p\<lparr>p_op := Op_jalr, p_op_unit := Unit_bru, p_sub_op := Bru_op Bru_jalr,
       p_arg1_src := Arg_reg, p_rs1 := unat (f_rs1 w), p_arg2_src := Arg_disable, p_imm := imm,
       p_rd := unat (f_rd w), p_rd_enable := True\<rparr>) }"

definition decode_branch :: "u32 \<Rightarrow> decode_rename_pack_t \<Rightarrow> decode_rename_pack_t option" where
  "decode_branch w p = do {
     imm \<leftarrow> sign_extend (f_imm_b w) 13;
     let p = p\<lparr>p_op_unit := Unit_bru, p_arg1_src := Arg_reg, p_rs1 := unat (f_rs1 w),
       p_arg2_src := Arg_reg, p_rs2 := unat (f_rs2 w), p_imm := imm\<rparr>;
     let funct3 = f_funct3 w;
     Some (if funct3 = 0x0 then op_bru Op_beq Bru_beq p
           else if funct3 = 0x1 then op_bru Op_bne Bru_bne p
           else if funct3 = 0x4 then op_bru Op_blt Bru_blt p
           else if funct3 = 0x5 then op_bru Op_bge Bru_bge p
           else if funct3 = 0x6 then op_bru Op_bltu Bru_bltu p
           else if funct3 = 0x7 then op_bru Op_bgeu Bru_bgeu p
           else op_invalid p) }"

definition decode_load :: "u32 \<Rightarrow> decode_rename_pack_t \<Rightarrow> decode_rename_pack_t option" where
  "decode_load w p = do {
     imm \<leftarrow> sign_extend (f_imm_i w) 12;
     let p = p\<lparr>p_op_unit := Unit_lsu, p_arg1_src := Arg_reg, p_rs1 := unat (f_rs1 w),
       p_arg2_src := Arg_disable, p_imm := imm, p_rd := unat (f_rd w), p_rd_enable := True\<rparr>;
     let funct3 = f_funct3 w;
     Some (if funct3 = 0x0 then op_lsu Op_lb Lsu_lb p
           else if funct3 = 0x1 then op_lsu Op_lh Lsu_lh p
           else if funct3 = 0x2 then op_lsu Op_lw Lsu_lw p
           else if funct3 = 0x4 then op_lsu Op_lbu Lsu_lbu p
           else if funct3 = 0x5 then op_lsu Op_lhu Lsu_lhu p
           else op_invalid p) }"

definition decode_store :: "u32 \<Rightarrow> decode_rename_pack_t \<Rightarrow> decode_rename_pack_t option" where
  "decode_store w p = do {
     imm \<leftarrow> sign_extend (f_imm_s w) 12;
     let p = p\<lparr>p_op_unit := Unit_lsu, p_arg1_src := Arg_reg, p_rs1 := unat (f_rs1 w),
       p_arg2_src := Arg_reg, p_rs2 := unat (f_rs2 w), p_imm := imm\<rparr>;
     let funct3 = f_funct3 w;
     Some (if funct3 = 0x0 then op_lsu Op_sb Lsu_sb p
           else if funct3 = 0x1 then op_lsu Op_sh Lsu_sh p
           else if funct3 = 0x2 then op_lsu Op_sw Lsu_sw p
           else op_invalid p) }"

definition decode_op_imm :: "u32 \<Rightarrow> decode_rename_pack_t \<Rightarrow> decode_rename_pack_t option" where
  "decode_op_imm w p = do {
     imm \<leftarrow> sign_extend (f_imm_i w) 12;
     let p = p\<lparr>p_op_unit := Unit_alu, p_arg1_src := Arg_reg, p_rs1 := unat (f_rs1 w),
       p_arg2_src := Arg_imm, p_imm := imm, p_rd := unat (f_rd w), p_rd_enable := True\<rparr>;
     let funct3 = f_funct3 w;
     let funct7 = f_funct7 w;
     Some (if funct3 = 0x0 then op_alu Op_addi Alu_add p
           else if funct3 = 0x2 then op_alu Op_slti Alu_slt p
           else if funct3 = 0x3 then op_alu Op_sltiu Alu_sltu p
           else if funct3 = 0x4 then op_alu Op_xori Alu_xor p
           else if funct3 = 0x6 then op_alu Op_ori Alu_or p
           else if funct3 = 0x7 then op_alu Op_andi Alu_and p
           else if funct3 = 0x1 then
             (if funct7 = 0x00 then op_alu Op_slli Alu_sll p else op_invalid p)
           else if funct3 = 0x5 then
             (if funct7 = 0x00 then op_alu Op_srli Alu_srl p
              else if funct7 = 0x20 then op_alu Op_srai Alu_sra p else op_invalid p)
           else op_invalid p) }"

definition decode_op :: "u32 \<Rightarrow> decode_rename_pack_t \<Rightarrow> decode_rename_pack_t option" where
  "decode_op w p = (
     let p = p\<lparr>p_op_unit := Unit_alu, p_arg1_src := Arg_reg, p_rs1 := unat (f_rs1 w),
       p_arg2_src := Arg_reg, p_rs2 := unat (f_rs2 w), p_rd := unat (f_rd w), p_rd_enable := True\<rparr>;
       funct3 = f_funct3 w;
       funct7 = f_funct7 w
     in Some (if funct3 = 0x0 then
             (if funct7 = 0x00 then op_alu Op_add Alu_add p
              else if funct7 = 0x20 then op_alu Op_sub Alu_sub p
              else if funct7 = 0x01 then op_mul Op_mul Mul_mul p else op_invalid p)
           else if funct3 = 0x1 then
             (if funct7 = 0x00 then op_alu Op_sll Alu_sll p
              else if funct7 = 0x01 then op_mul Op_mulh Mul_mulh p else op_invalid p)
           else if funct3 = 0x2 then
             (if funct7 = 0x00 then op_alu Op_slt Alu_slt p
              else if funct7 = 0x01 then op_mul Op_mulhsu Mul_mulhsu p else op_invalid p)
           else if funct3 = 0x3 then
             (if funct7 = 0x00 then op_alu Op_sltu Alu_sltu p
              else if funct7 = 0x01 then op_mul Op_mulhu Mul_mulhu p else op_invalid p)
           else if funct3 = 0x4 then
             (if funct7 = 0x00 then op_alu Op_xor Alu_xor p
              else if funct7 = 0x01 then op_div Op_div Div_div p else op_invalid p)
           else if funct3 = 0x5 then
             (if funct7 = 0x00 then op_alu Op_srl Alu_srl p
              else if funct7 = 0x20 then op_alu Op_sra Alu_sra p
              else if funct7 = 0x01 then op_div Op_divu Div_divu p else op_invalid p)
           else if funct3 = 0x6 then
             (if funct7 = 0x00 then op_alu Op_or Alu_or p
              else if funct7 = 0x01 then op_div Op_rem Div_rem p else op_invalid p)
           else if funct3 = 0x7 then
             (if funct7 = 0x00 then op_alu Op_and Alu_and p
              else if funct7 = 0x01 then op_div Op_remu Div_remu p else op_invalid p)
           else op_invalid p))"

definition decode_fence :: "u32 \<Rightarrow> decode_rename_pack_t \<Rightarrow> decode_rename_pack_t option" where
  "decode_fence w p = Some (
     if f_funct3 w = 0x0 then
       (if f_rd w = 0x00 \<and> f_rs1 w = 0x00 \<and> drop_bit 28 w AND 0x0f = 0x00
        then p\<lparr>p_op := Op_fence, p_op_unit := Unit_alu, p_sub_op := Alu_op Alu_fence,
          p_arg1_src := Arg_disable, p_arg2_src := Arg_disable, p_imm := f_imm_i w\<rparr>
        else op_invalid p)
     else if f_funct3 w = 0x1 then
       (if f_rd w = 0x00 \<and> f_rs1 w = 0x00 \<and> f_imm_i w = 0x00
        then p\<lparr>p_op := Op_fence_i, p_op_unit := Unit_alu, p_sub_op := Alu_op Alu_fence_i,
          p_arg1_src := Arg_disable, p_arg2_src := Arg_disable\<rparr>
        else op_invalid p)
     else op_invalid p)"

definition decode_csr_reg :: "op_t \<Rightarrow> csr_op_t \<Rightarrow> u32 \<Rightarrow> decode_rename_pack_t \<Rightarrow> decode_rename_pack_t" where
  "decode_csr_reg x y w p = p\<lparr>p_op := x, p_op_unit := Unit_csr, p_sub_op := Csr_op y,
     p_arg1_src := Arg_reg, p_rs1 := unat (f_rs1 w), p_arg2_src := Arg_disable,
     p_csr := f_imm_i w, p_rd := unat (f_rd w), p_rd_enable := True\<rparr>"

definition decode_csr_imm :: "op_t \<Rightarrow> csr_op_t \<Rightarrow> u32 \<Rightarrow> decode_rename_pack_t \<Rightarrow> decode_rename_pack_t" where
  "decode_csr_imm x y w p = p\<lparr>p_op := x, p_op_unit := Unit_csr, p_sub_op := Csr_op y,
     p_arg1_src := Arg_imm, p_imm := f_rs1 w, p_arg2_src := Arg_disable,
     p_csr := f_imm_i w, p_rd := unat (f_rd w), p_rd_enable := True\<rparr>"

definition decode_system :: "u32 \<Rightarrow> decode_rename_pack_t \<Rightarrow> decode_rename_pack_t option" where
  "decode_system w p = Some (
     let funct3 = f_funct3 w in
     if funct3 = 0x0 then
       (if f_rd w = 0x00 \<and> f_rs1 w = 0x00 then
          (if f_funct7 w = 0x00 then
             (if f_rs2 w = 0x00
              then p\<lparr>p_op := Op_ecall, p_op_unit := Unit_alu, p_sub_op := Alu_op Alu_ecall,
                p_arg1_src := Arg_disable, p_arg2_src := Arg_disable\<rparr>
              else if f_rs2 w = 0x01
              then p\<lparr>p_op := Op_ebreak, p_op_unit := Unit_alu, p_sub_op := Alu_op Alu_ebreak,
                p_arg1_src := Arg_disable, p_arg2_src := Arg_disable\<rparr>
              else op_invalid p)
           else if f_funct7 w = 0x18 then
             (if f_rs2 w = 0x02
              then p\<lparr>p_op := Op_mret, p_op_unit := Unit_bru, p_sub_op := Bru_op Bru_mret,
                p_arg1_src := Arg_disable, p_arg2_src := Arg_disable\<rparr>
              else op_invalid p)
           else op_invalid p)
        else op_invalid p)
     else if funct3 = 0x1 then decode_csr_reg Op_csrrw Csrop_csrrw w p
     else if funct3 = 0x2 then decode_csr_reg Op_csrrs Csrop_csrrs w p
     else if funct3 = 0x3 then decode_csr_reg Op_csrrc Csrop_csrrc w p
     else if funct3 = 0x5 then decode_csr_imm Op_csrrwi Csrop_csrrw w p
     else if funct3 = 0x6 then decode_csr_imm Op_csrrsi Csrop_csrrs w p
     else if funct3 = 0x7 then decode_csr_imm Op_csrrci Csrop_csrrc w p
     else op_invalid p)"

definition decode_switch :: "u32 \<Rightarrow> decode_rename_pack_t \<Rightarrow> decode_rename_pack_t option" where
  "decode_switch w p =
     (let opcode = f_opcode w in
      if opcode = 0x37 then decode_lui w p
      else if opcode = 0x17 then decode_auipc w p
      else if opcode = 0x6f then decode_jal w p
      else if opcode = 0x67 then decode_jalr w p
      else if opcode = 0x63 then decode_branch w p
      else if opcode = 0x03 then decode_load w p
      else if opcode = 0x23 then decode_store w p
      else if opcode = 0x13 then decode_op_imm w p
      else if opcode = 0x33 then decode_op w p
      else if opcode = 0x0f then decode_fence w p
      else if opcode = 0x73 then decode_system w p
      else Some (op_invalid p))"

text \<open>One fetched instruction.\<close>

definition decode_pack :: "fetch_decode_pack_t \<Rightarrow> decode_rename_pack_t option" where
  "decode_pack r =
     (if fd_enable r then do {
        p \<leftarrow> decode_switch (fd_value r) (decode_rename_zero\<lparr>p_enable := True,
               p_valid := \<not> fd_has_exception r, p_pc := fd_pc r\<rparr>);
        Some (p\<lparr>p_rs1_need_map := p_arg1_src p = Arg_reg \<and> p_rs1 p > 0,
          p_rs2_need_map := p_arg2_src p = Arg_reg \<and> p_rs2 p > 0,
          p_need_rename := p_rd_enable p \<and> p_rd p > 0,
          p_value := fd_value r,
          p_has_exception := fd_has_exception r,
          p_exception_id := fd_exception_id r,
          p_exception_value := fd_exception_value r,
          p_predicted := fd_predicted r,
          p_predicted_jump := fd_predicted_jump r,
          p_predicted_next_pc := fd_predicted_next_pc r,
          p_checkpoint_id_valid := fd_checkpoint_id_valid r,
          p_checkpoint_id := fd_checkpoint_id r\<rparr>) }
      else Some decode_rename_zero)"

section \<open>Bits of the fields\<close>

lemma mask_agree: "((w :: u32) AND m = v AND m) \<longleftrightarrow> (\<forall>j. bit m j \<longrightarrow> bit w j = bit v j)"
  unfolding u32_eq_bits bit_and_iff by blast

lemma field_agree:
  "(drop_bit n (w :: u32) AND mask k = drop_bit n v AND mask k)
    \<longleftrightarrow> (\<forall>j. n \<le> j \<and> j < n + k \<longrightarrow> bit w j = bit v j)"
proof -
  have "(drop_bit n w AND mask k = drop_bit n v AND mask k)
      \<longleftrightarrow> (\<forall>i < k. bit w (n + i) = bit v (n + i))"
    unfolding u32_eq_bits bit_and_iff bit_drop_bit_eq comp_def bit_mask32
    by (metis u32_bit_lt trans_less_add2 not_add_less2 linorder_neqE_nat add_lessD1 add.commute)
  also have "\<dots> \<longleftrightarrow> (\<forall>j. n \<le> j \<and> j < n + k \<longrightarrow> bit w j = bit v j)"
    by (metis add_less_cancel_left le_add1 le_add_diff_inverse)
  finally show ?thesis .
qed

lemma field_masks:
  "(0x7f :: u32) = mask 7" "(0x1f :: u32) = mask 5" "(0x07 :: u32) = mask 3" "(0xfff :: u32) = mask 12"
  "(0x0f :: u32) = mask 4" "(0x3f :: u32) = mask 6" "(0x01 :: u32) = mask 1" "(0xff :: u32) = mask 8"
  "(0x3ff :: u32) = mask 10"
  by (simp_all add: mask_eq_exp_minus_1)

definition agree :: "nat \<Rightarrow> nat \<Rightarrow> u32 \<Rightarrow> u32 \<Rightarrow> bool" where
  "agree n k w v \<longleftrightarrow> (\<forall>j. n \<le> j \<and> j < n + k \<longrightarrow> bit w j = bit v j)"

lemma fields_agree:
  "f_opcode w = f_opcode v \<longleftrightarrow> agree 0 7 w v"
  "f_rd w = f_rd v \<longleftrightarrow> agree 7 5 w v"
  "f_funct3 w = f_funct3 v \<longleftrightarrow> agree 12 3 w v"
  "f_rs1 w = f_rs1 v \<longleftrightarrow> agree 15 5 w v"
  "f_rs2 w = f_rs2 v \<longleftrightarrow> agree 20 5 w v"
  "f_funct7 w = f_funct7 v \<longleftrightarrow> agree 25 7 w v"
  "f_imm_i w = f_imm_i v \<longleftrightarrow> agree 20 12 w v"
  using field_agree [of 0 w 7 v]
  unfolding f_opcode_def f_rd_def f_funct3_def f_rs1_def f_rs2_def f_funct7_def f_imm_i_def field_masks
    field_agree agree_def drop_bit_0 by simp_all

lemma mask_ranges:
  "(0x707f :: u32) = mask 7 OR push_bit 12 (mask 3)"
  "(0xfe00707f :: u32) = mask 7 OR push_bit 12 (mask 3) OR push_bit 25 (mask 7)"
  by (simp_all add: mask_eq_exp_minus_1)

lemma agree_iff: "agree n k w v \<longleftrightarrow> w AND push_bit n (mask k) = v AND push_bit n (mask k)"
proof -
  have "bit (push_bit n (mask k) :: u32) j \<longleftrightarrow> n \<le> j \<and> j < n + k \<and> j < 32" for j
    by (auto simp: bit_push_bit_iff bit_mask32)
  then show ?thesis unfolding mask_agree agree_def using u32_bit_lt by blast
qed

lemma match_or:
  "((w :: u32) AND (m OR n) = v AND (m OR n)) \<longleftrightarrow> w AND m = v AND m \<and> w AND n = v AND n"
  unfolding mask_agree by (auto simp: bit_or_iff)

lemma match_opcode: "w AND 0x7f = v AND 0x7f \<longleftrightarrow> f_opcode w = f_opcode v"
  by (simp add: f_opcode_def)

lemma match_funct3: "w AND 0x707f = v AND 0x707f \<longleftrightarrow> f_opcode w = f_opcode v \<and> f_funct3 w = f_funct3 v"
  unfolding mask_ranges match_or fields_agree agree_iff by simp

lemma match_funct7:
  "w AND 0xfe00707f = v AND 0xfe00707f
    \<longleftrightarrow> f_opcode w = f_opcode v \<and> f_funct3 w = f_funct3 v \<and> f_funct7 w = f_funct7 v"
  unfolding mask_ranges match_or fields_agree agree_iff by simp

lemma agree_split: "agree n (k + l) w v \<longleftrightarrow> agree n k w v \<and> agree (n + k) l w v"
proof
  assume "agree n (k + l) w v" then show "agree n k w v \<and> agree (n + k) l w v" by (auto simp: agree_def)
next
  assume a: "agree n k w v \<and> agree (n + k) l w v"
  show "agree n (k + l) w v" unfolding agree_def
  proof (intro allI impI)
    fix j assume "n \<le> j \<and> j < n + (k + l)"
    then show "bit w j = bit v j" using a by (cases "j < n + k") (auto simp: agree_def)
  qed
qed

lemma agree_all: "agree 0 32 w v \<longleftrightarrow> w = v"
  unfolding agree_def u32_eq_bits using u32_bit_lt by (metis add_0 le0)

lemma match_word:
  "agree 0 32 w v \<longleftrightarrow> f_opcode w = f_opcode v \<and> f_rd w = f_rd v \<and> f_funct3 w = f_funct3 v \<and> f_rs1 w = f_rs1 v
     \<and> f_imm_i w = f_imm_i v"
  "f_imm_i w = f_imm_i v \<longleftrightarrow> f_rs2 w = f_rs2 v \<and> f_funct7 w = f_funct7 v"
  unfolding fields_agree
  using agree_split [of 0 7 25 w v] agree_split [of 7 5 20 w v] agree_split [of 12 3 17 w v]
    agree_split [of 15 5 12 w v] agree_split [of 20 5 7 w v] by simp_all

section \<open>The encoding table\<close>

text \<open>The instructions of RV32I, M, Zicsr, Zifencei and \<open>mret\<close>, as mask and match value that the
  instruction set gives to the encoding, with the execution unit and operation that each needs.  The
  rows are the standard's and not the decoder's: \<open>jalr\<close> has a zero \<open>funct3\<close>, and the
  unused fields of \<open>fence\<close> and \<open>fence.i\<close> are to be ignored.\<close>

definition rv_table :: "(u32 \<times> u32 \<times> op_t \<times> op_unit_t \<times> sub_op_t) list" where
  "rv_table = [
     (0x7f, 0x37, Op_lui, Unit_alu, Alu_op Alu_lui),
     (0x7f, 0x17, Op_auipc, Unit_alu, Alu_op Alu_auipc),
     (0x7f, 0x6f, Op_jal, Unit_bru, Bru_op Bru_jal),
     (0x707f, 0x67, Op_jalr, Unit_bru, Bru_op Bru_jalr),
     (0x707f, 0x63, Op_beq, Unit_bru, Bru_op Bru_beq),
     (0x707f, 0x1063, Op_bne, Unit_bru, Bru_op Bru_bne),
     (0x707f, 0x4063, Op_blt, Unit_bru, Bru_op Bru_blt),
     (0x707f, 0x5063, Op_bge, Unit_bru, Bru_op Bru_bge),
     (0x707f, 0x6063, Op_bltu, Unit_bru, Bru_op Bru_bltu),
     (0x707f, 0x7063, Op_bgeu, Unit_bru, Bru_op Bru_bgeu),
     (0x707f, 0x3, Op_lb, Unit_lsu, Lsu_op Lsu_lb),
     (0x707f, 0x1003, Op_lh, Unit_lsu, Lsu_op Lsu_lh),
     (0x707f, 0x2003, Op_lw, Unit_lsu, Lsu_op Lsu_lw),
     (0x707f, 0x4003, Op_lbu, Unit_lsu, Lsu_op Lsu_lbu),
     (0x707f, 0x5003, Op_lhu, Unit_lsu, Lsu_op Lsu_lhu),
     (0x707f, 0x23, Op_sb, Unit_lsu, Lsu_op Lsu_sb),
     (0x707f, 0x1023, Op_sh, Unit_lsu, Lsu_op Lsu_sh),
     (0x707f, 0x2023, Op_sw, Unit_lsu, Lsu_op Lsu_sw),
     (0x707f, 0x13, Op_addi, Unit_alu, Alu_op Alu_add),
     (0x707f, 0x2013, Op_slti, Unit_alu, Alu_op Alu_slt),
     (0x707f, 0x3013, Op_sltiu, Unit_alu, Alu_op Alu_sltu),
     (0x707f, 0x4013, Op_xori, Unit_alu, Alu_op Alu_xor),
     (0x707f, 0x6013, Op_ori, Unit_alu, Alu_op Alu_or),
     (0x707f, 0x7013, Op_andi, Unit_alu, Alu_op Alu_and),
     (0xfe00707f, 0x1013, Op_slli, Unit_alu, Alu_op Alu_sll),
     (0xfe00707f, 0x5013, Op_srli, Unit_alu, Alu_op Alu_srl),
     (0xfe00707f, 0x40005013, Op_srai, Unit_alu, Alu_op Alu_sra),
     (0xfe00707f, 0x33, Op_add, Unit_alu, Alu_op Alu_add),
     (0xfe00707f, 0x40000033, Op_sub, Unit_alu, Alu_op Alu_sub),
     (0xfe00707f, 0x1033, Op_sll, Unit_alu, Alu_op Alu_sll),
     (0xfe00707f, 0x2033, Op_slt, Unit_alu, Alu_op Alu_slt),
     (0xfe00707f, 0x3033, Op_sltu, Unit_alu, Alu_op Alu_sltu),
     (0xfe00707f, 0x4033, Op_xor, Unit_alu, Alu_op Alu_xor),
     (0xfe00707f, 0x5033, Op_srl, Unit_alu, Alu_op Alu_srl),
     (0xfe00707f, 0x40005033, Op_sra, Unit_alu, Alu_op Alu_sra),
     (0xfe00707f, 0x6033, Op_or, Unit_alu, Alu_op Alu_or),
     (0xfe00707f, 0x7033, Op_and, Unit_alu, Alu_op Alu_and),
     (0xfe00707f, 0x2000033, Op_mul, Unit_mul, Mul_op Mul_mul),
     (0xfe00707f, 0x2001033, Op_mulh, Unit_mul, Mul_op Mul_mulh),
     (0xfe00707f, 0x2002033, Op_mulhsu, Unit_mul, Mul_op Mul_mulhsu),
     (0xfe00707f, 0x2003033, Op_mulhu, Unit_mul, Mul_op Mul_mulhu),
     (0xfe00707f, 0x2004033, Op_div, Unit_div, Div_op Div_div),
     (0xfe00707f, 0x2005033, Op_divu, Unit_div, Div_op Div_divu),
     (0xfe00707f, 0x2006033, Op_rem, Unit_div, Div_op Div_rem),
     (0xfe00707f, 0x2007033, Op_remu, Unit_div, Div_op Div_remu),
     (0x707f, 0xf, Op_fence, Unit_alu, Alu_op Alu_fence),
     (0x707f, 0x100f, Op_fence_i, Unit_alu, Alu_op Alu_fence_i),
     (0xffffffff, 0x73, Op_ecall, Unit_alu, Alu_op Alu_ecall),
     (0xffffffff, 0x100073, Op_ebreak, Unit_alu, Alu_op Alu_ebreak),
     (0xffffffff, 0x30200073, Op_mret, Unit_bru, Bru_op Bru_mret),
     (0x707f, 0x1073, Op_csrrw, Unit_csr, Csr_op Csrop_csrrw),
     (0x707f, 0x2073, Op_csrrs, Unit_csr, Csr_op Csrop_csrrs),
     (0x707f, 0x3073, Op_csrrc, Unit_csr, Csr_op Csrop_csrrc),
     (0x707f, 0x5073, Op_csrrwi, Unit_csr, Csr_op Csrop_csrrw),
     (0x707f, 0x6073, Op_csrrsi, Unit_csr, Csr_op Csrop_csrrs),
     (0x707f, 0x7073, Op_csrrci, Unit_csr, Csr_op Csrop_csrrc)]"

definition rv_lookup :: "u32 \<Rightarrow> (op_t \<times> op_unit_t \<times> sub_op_t) option" where
  "rv_lookup w = map_option (\<lambda>(m, v, r). r) (find (\<lambda>(m, v, r). w AND m = v) rv_table)"

lemma row_opcode: "v AND 0x7f = v \<Longrightarrow> (w AND 0x7f = v) = (f_opcode w = f_opcode v)"
  using match_opcode [of w v] by simp

lemma row_funct3: "v AND 0x707f = v \<Longrightarrow> (w AND 0x707f = v) = (f_opcode w = f_opcode v \<and> f_funct3 w = f_funct3 v)"
  using match_funct3 [of w v] by simp

lemma row_funct7: "v AND 0xfe00707f = v \<Longrightarrow> (w AND 0xfe00707f = v)
    = (f_opcode w = f_opcode v \<and> f_funct3 w = f_funct3 v \<and> f_funct7 w = f_funct7 v)"
  using match_funct7 [of w v] by simp

lemma row_all: "(w AND 0xffffffff = v) = (f_opcode w = f_opcode v \<and> f_rd w = f_rd v \<and> f_funct3 w = f_funct3 v
     \<and> f_rs1 w = f_rs1 v \<and> f_rs2 w = f_rs2 v \<and> f_funct7 w = f_funct7 v)"
proof -
  have m: "(0xffffffff :: u32) = - 1" by simp
  have "w AND 0xffffffff = w" unfolding m by (rule bit.conj_one_right)
  then show ?thesis using match_word [of w v] agree_all [of w v] by simp
qed

lemma numeral_fields [simp]:
  "f_opcode (numeral n) = numeral n AND 0x7f"
  "f_rd (numeral n) = drop_bit 7 (numeral n) AND 0x1f"
  "f_funct3 (numeral n) = drop_bit 12 (numeral n) AND 0x07"
  "f_rs1 (numeral n) = drop_bit 15 (numeral n) AND 0x1f"
  "f_rs2 (numeral n) = drop_bit 20 (numeral n) AND 0x1f"
  "f_funct7 (numeral n) = drop_bit 25 (numeral n) AND 0x7f"
  by (simp_all add: f_opcode_def f_rd_def f_funct3_def f_rs1_def f_rs2_def f_funct7_def)

lemmas rows = row_opcode row_funct3 row_funct7 row_all

text \<open>The two places where the decoder and the table part: it takes a \<open>jalr\<close> with any
  \<open>funct3\<close>, and no fence with a bit set in a field that the standard tells it to ignore.\<close>

definition reserved_jalr :: "u32 \<Rightarrow> bool" where
  "reserved_jalr w = (f_opcode w = 0x67 \<and> f_funct3 w \<noteq> 0)"

definition reserved_fence :: "u32 \<Rightarrow> bool" where
  "reserved_fence w = (f_opcode w = 0x0f
     \<and> (f_funct3 w = 0 \<and> (f_rd w \<noteq> 0 \<or> f_rs1 w \<noteq> 0 \<or> drop_bit 28 w AND 0x0f \<noteq> 0)
       \<or> f_funct3 w = 1 \<and> (f_rd w \<noteq> 0 \<or> f_rs1 w \<noteq> 0 \<or> f_imm_i w \<noteq> 0)))"

lemma reserved_lookup:
  "reserved_jalr w \<Longrightarrow> rv_lookup w = None"
  "reserved_fence w \<Longrightarrow> rv_lookup w = Some (if f_funct3 w = 0 then (Op_fence, Unit_alu, Alu_op Alu_fence)
     else (Op_fence_i, Unit_alu, Alu_op Alu_fence_i))"
  by (auto simp: reserved_jalr_def reserved_fence_def rv_lookup_def rv_table_def rows)

definition rv_accepted :: "u32 \<Rightarrow> (op_t \<times> op_unit_t \<times> sub_op_t) option" where
  "rv_accepted w = (if reserved_jalr w then Some (Op_jalr, Unit_bru, Bru_op Bru_jalr)
     else if reserved_fence w then None else rv_lookup w)"

text \<open>What this says of a decoded packet, for a word fetched with or without an exception.\<close>

definition table_says :: "u32 \<Rightarrow> bool \<Rightarrow> decode_rename_pack_t \<Rightarrow> bool" where
  "table_says w ok q = (case rv_accepted w of
      None \<Rightarrow> \<not> p_valid q
    | Some (x, u, y) \<Rightarrow> p_valid q = ok \<and> p_op q = x \<and> p_op_unit q = u \<and> p_sub_op q = y)"

lemma sign_extend_total: "0 < n \<Longrightarrow> n < 32 \<Longrightarrow> \<exists>y. sign_extend x n = Some y"
  by (simp add: sign_extend_def Let_def)

lemmas switch_defs = decode_switch_def decode_lui_def decode_auipc_def decode_jal_def decode_jalr_def
  decode_branch_def decode_load_def decode_store_def decode_op_imm_def decode_op_def decode_fence_def
  decode_system_def decode_csr_reg_def decode_csr_imm_def Let_def
lemmas table_defs = table_says_def rv_accepted_def reserved_jalr_def reserved_fence_def rv_lookup_def rv_table_def rows

lemma switch_table_known:
  assumes "f_opcode w \<in> {0x37, 0x17, 0x6f, 0x67, 0x63, 0x03, 0x23, 0x13, 0x33, 0x0f, 0x73}"
  shows "\<exists>q. decode_switch w p = Some q \<and> table_says w (p_valid p) q"
proof -
  obtain a b c d where imm: "sign_extend (f_imm_i w) 12 = Some a" "sign_extend (f_imm_b w) 13 = Some b"
    "sign_extend (f_imm_j w) 21 = Some c" "sign_extend (f_imm_s w) 12 = Some d"
    using sign_extend_total [of 12] sign_extend_total [of 13] sign_extend_total [of 21] by fastforce
  consider "f_opcode w = 0x37" | "f_opcode w = 0x17" | "f_opcode w = 0x6f" | "f_opcode w = 0x67"
    | "f_opcode w = 0x63" | "f_opcode w = 0x03" | "f_opcode w = 0x23" | "f_opcode w = 0x13"
    | "f_opcode w = 0x33" | "f_opcode w = 0x0f" | "f_opcode w = 0x73"
    using assms by blast
  then show ?thesis
  proof cases
    case 10
    have "f_imm_i w = 0 \<longleftrightarrow> f_rs2 w = 0 \<and> f_funct7 w = 0"
      using match_word(2) [of w 0] by (simp add: f_imm_i_def f_rs2_def f_funct7_def)
    with 10 show ?thesis by (simp add: switch_defs table_defs)
  qed (simp add: switch_defs table_defs imm)+
qed

lemma switch_table_unknown:
  assumes "f_opcode w \<notin> {0x37, 0x17, 0x6f, 0x67, 0x63, 0x03, 0x23, 0x13, 0x33, 0x0f, 0x73}"
  shows "\<exists>q. decode_switch w p = Some q \<and> table_says w (p_valid p) q"
  using assms by (simp add: decode_switch_def table_defs Let_def)

lemma switch_keeps:
  assumes "decode_switch w p = Some q"
  shows "p_enable q = p_enable p \<and> p_pc q = p_pc p"
  using assms by (auto simp: switch_defs bind_eq_Some_conv split: if_splits)

lemma decode_pack_says:
  assumes "fd_enable r"
  shows "\<exists>q. decode_pack r = Some q \<and> table_says (fd_value r) (\<not> fd_has_exception r) q
    \<and> p_enable q \<and> p_pc q = fd_pc r \<and> p_value q = fd_value r"
proof -
  let ?p = "decode_rename_zero\<lparr>p_enable := True, p_valid := \<not> fd_has_exception r, p_pc := fd_pc r\<rparr>"
  obtain q where q: "decode_switch (fd_value r) ?p = Some q" "table_says (fd_value r) (p_valid ?p) q"
    using switch_table_known switch_table_unknown by meson
  then show ?thesis
    using assms switch_keeps [OF q(1)] by (auto simp: decode_pack_def table_says_def split: option.splits prod.splits)
qed

lemma decode_pack_total: "\<exists>q. decode_pack r = Some q"
  using decode_pack_says [of r] by (cases "fd_enable r") (auto simp: decode_pack_def)

end
