(* ===== verification/Decode_Stage.thy ===== *)
theory Decode_Stage
  imports Decode
begin

text \<open>
  The rest of \<open>pipeline/decode.cpp\<close>: the loop of the stage over its two queues, and the properties
  of the decoder: agreement with the encoding table, the immediates of the five formats, and the
  packets that a cycle moves.
\<close>

section \<open>The stage\<close>

definition DECODE_WIDTH :: nat where "DECODE_WIDTH = 4"

record decode_stage =
  ds_in :: "fetch_decode_pack_t fifo"
  ds_out :: "decode_rename_pack_t fifo"
  ds_full :: u64

text \<open>One turn of the loop; \<open>ds_full\<close> is the counter behind \<open>decode_rename_fifo_full_add()\<close>.\<close>

definition decode_step :: "decode_stage \<Rightarrow> decode_stage option" where
  "decode_step s =
     (if \<not> fifo_is_empty (ds_in s) \<and> \<not> fifo_is_full (ds_out s) then
        (case fifo_pop (ds_in s) of
           (Some rev_pack, f) \<Rightarrow> do {
             send_pack \<leftarrow> decode_pack rev_pack;
             Some (s\<lparr>ds_in := f, ds_out := snd (fifo_push send_pack (ds_out s))\<rparr>) }
         | (None, f) \<Rightarrow> None)
      else if \<not> fifo_is_empty (ds_in s) \<and> fifo_is_full (ds_out s) then Some (s\<lparr>ds_full := ds_full s + 1\<rparr>)
      else Some s)"

text \<open>\<open>run()\<close> answers the feedback's \<open>idle\<close> flag.\<close>

definition decode_run :: "commit_feedback_pack_t \<Rightarrow> decode_stage \<Rightarrow> (bool \<times> decode_stage) option" where
  "decode_run c s = do {
     let idle = fifo_is_empty (ds_in s);
     s \<leftarrow> (if \<not> (cf_enable c \<and> cf_flush c)
            then fold_opt (\<lambda>_. decode_step) [0..<DECODE_WIDTH] s
            else Some (s\<lparr>ds_out := fifo_flush (ds_out s)\<rparr>));
     Some (idle, s) }"

section \<open>Immediates\<close>

section \<open>Encoding immediates\<close>

text \<open>The layouts of the instruction formats: where an encoder puts the bits of an immediate.\<close>

definition enc_i :: "u32 \<Rightarrow> u32" where "enc_i v = push_bit 20 (take_bit 12 v)"

definition enc_s :: "u32 \<Rightarrow> u32" where
  "enc_s v = push_bit 25 (take_bit 7 (drop_bit 5 v)) OR push_bit 7 (take_bit 5 v)"

definition enc_b :: "u32 \<Rightarrow> u32" where
  "enc_b v = push_bit 31 (take_bit 1 (drop_bit 12 v)) OR push_bit 25 (take_bit 6 (drop_bit 5 v))
     OR push_bit 8 (take_bit 4 (drop_bit 1 v)) OR push_bit 7 (take_bit 1 (drop_bit 11 v))"

definition enc_u :: "u32 \<Rightarrow> u32" where "enc_u v = push_bit 12 (drop_bit 12 v)"

definition enc_j :: "u32 \<Rightarrow> u32" where
  "enc_j v = push_bit 31 (take_bit 1 (drop_bit 20 v)) OR push_bit 21 (take_bit 10 (drop_bit 1 v))
     OR push_bit 20 (take_bit 1 (drop_bit 11 v)) OR push_bit 12 (take_bit 8 (drop_bit 12 v))"

text \<open>Words whose bits at the places of the immediate are clear.\<close>

definition clear :: "nat \<Rightarrow> nat \<Rightarrow> u32 \<Rightarrow> bool" where
  "clear n k w = (w AND push_bit n (mask k) = 0)"

lemma field_bit:
  "bit (push_bit a (drop_bit n w AND mask k) :: u32) j \<longleftrightarrow> a \<le> j \<and> j < 32 \<and> j - a < k \<and> bit w (n + (j - a))"
  "bit (drop_bit n w AND mask k :: u32) j \<longleftrightarrow> j < 32 \<and> j < k \<and> bit w (n + j)"
  by (auto simp: bit_push_bit_iff bit_and_iff bit_mask32 bit_drop_bit_eq)

lemma enc_bit:
  "bit (push_bit a (take_bit k (drop_bit n v)) :: u32) j \<longleftrightarrow> a \<le> j \<and> j < 32 \<and> j - a < k \<and> bit v (n + (j - a))"
  "bit (push_bit a (take_bit k v) :: u32) j \<longleftrightarrow> a \<le> j \<and> j < 32 \<and> j - a < k \<and> bit v (j - a)"
  "bit (push_bit a (drop_bit n v) :: u32) j \<longleftrightarrow> a \<le> j \<and> j < 32 \<and> bit v (n + (j - a))"
  by (auto simp: bit_push_bit_iff bit_take_bit_iff bit_drop_bit_eq)

lemma clear_bits:
  assumes "clear n k w" "n \<le> j" "j < n + k"
  shows "\<not> bit w j"
proof
  assume b: "bit w j"
  have "bit (push_bit n (mask k) :: u32) j"
    using assms(2,3) u32_bit_lt [OF b] by (simp add: bit_push_bit_iff bit_mask32) linarith
  with b have "bit (w AND push_bit n (mask k)) j" by (simp add: bit_and_iff)
  with assms(1) show False by (simp add: clear_def)
qed

lemmas imm_bits = f_imm_i_def f_imm_s_def f_imm_b_def f_imm_j_def enc_i_def enc_s_def enc_b_def enc_j_def
  bit_or_iff field_bit enc_bit bit_drop_bit_eq comp_def

lemma even_bits: "bit (take_bit k v AND NOT 1 :: u32) j \<longleftrightarrow> j < k \<and> 0 < j \<and> bit v j"
  using u32_bit_lt [of v j] by (auto simp: bit_and_iff bit_take_bit_iff bit_not_iff bit_1_iff)

lemma imm_i_enc:
  assumes "clear 20 12 w"
  shows "f_imm_i (w OR enc_i v) = take_bit 12 v"
proof (rule bit_word_eqI)
  fix j :: nat assume j: "j < LENGTH(32)"
  show "bit (f_imm_i (w OR enc_i v)) j = bit (take_bit 12 v) j"
    using j clear_bits [OF assms, of "20 + j"] unfolding imm_bits field_masks bit_take_bit_iff by auto
qed

lemma imm_s_enc:
  assumes "clear 25 7 w" "clear 7 5 w"
  shows "f_imm_s (w OR enc_s v) = take_bit 12 v"
proof (rule bit_word_eqI)
  fix j :: nat assume j: "j < LENGTH(32)"
  consider "j < 5" | i where "j = 5 + i" "i < 7" | "12 \<le> j"
  proof -
    have "j < 5 \<or> (j = 5 + (j - 5) \<and> j - 5 < 7) \<or> 12 \<le> j" by linarith
    with that show thesis by blast
  qed
  then show "bit (f_imm_s (w OR enc_s v)) j = bit (take_bit 12 v) j"
  proof cases
    case 1
    then show ?thesis using clear_bits [OF assms(2), of "7 + j"]
      unfolding imm_bits field_masks bit_take_bit_iff by auto
  next
    case 2
    then show ?thesis using clear_bits [OF assms(1), of "25 + i"]
      unfolding imm_bits field_masks bit_take_bit_iff by auto
  next
    case 3
    then show ?thesis unfolding imm_bits field_masks bit_take_bit_iff by auto
  qed
qed

lemma imm_u_enc:
  assumes "clear 12 20 w"
  shows "f_imm_u (w OR enc_u v) = v AND NOT 0xfff"
proof (rule bit_word_eqI)
  fix j :: nat assume j: "j < LENGTH(32)"
  show "bit (f_imm_u (w OR enc_u v)) j = bit (v AND NOT 0xfff) j"
    using j clear_bits [OF assms, of j]
    unfolding f_imm_u_def enc_u_def field_masks bit_and_iff bit_not_iff bit_mask32 bit_or_iff enc_bit by auto
qed

lemma imm_b_enc:
  assumes "clear 25 7 w" "clear 7 5 w"
  shows "f_imm_b (w OR enc_b v) = take_bit 13 v AND NOT 1"
proof (rule bit_word_eqI)
  fix j :: nat assume j: "j < LENGTH(32)"
  consider "j = 0" | i where "j = 1 + i" "i < 4" | i where "j = 5 + i" "i < 6" | "j = 11" | "j = 12" | "13 \<le> j"
  proof -
    have "j = 0 \<or> (j = 1 + (j - 1) \<and> j - 1 < 4) \<or> (j = 5 + (j - 5) \<and> j - 5 < 6) \<or> j = 11 \<or> j = 12 \<or> 13 \<le> j"
      by linarith
    with that show thesis by blast
  qed
  then show "bit (f_imm_b (w OR enc_b v)) j = bit (take_bit 13 v AND NOT 1) j"
  proof cases
    case (2 i)
    then show ?thesis using clear_bits [OF assms(2), of "8 + i"] unfolding even_bits unfolding imm_bits field_masks by simp
  next
    case (3 i)
    then show ?thesis using clear_bits [OF assms(1), of "25 + i"] unfolding even_bits unfolding imm_bits field_masks by simp
  next
    case 4
    then show ?thesis using clear_bits [OF assms(2), of 7] unfolding even_bits unfolding imm_bits field_masks by simp
  next
    case 5
    then show ?thesis using clear_bits [OF assms(1), of 31] unfolding even_bits unfolding imm_bits field_masks by simp
  qed (unfold even_bits, unfold imm_bits field_masks, auto)
qed

lemma imm_j_enc:
  assumes "clear 12 20 w"
  shows "f_imm_j (w OR enc_j v) = take_bit 21 v AND NOT 1"
proof (rule bit_word_eqI)
  fix j :: nat assume j: "j < LENGTH(32)"
  consider "j = 0" | i where "j = 1 + i" "i < 10" | "j = 11" | i where "j = 12 + i" "i < 8" | "j = 20" | "21 \<le> j"
  proof -
    have "j = 0 \<or> (j = 1 + (j - 1) \<and> j - 1 < 10) \<or> j = 11 \<or> (j = 12 + (j - 12) \<and> j - 12 < 8) \<or> j = 20 \<or> 21 \<le> j"
      by linarith
    with that show thesis by blast
  qed
  then show "bit (f_imm_j (w OR enc_j v)) j = bit (take_bit 21 v AND NOT 1) j"
  proof cases
    case (2 i)
    then show ?thesis using clear_bits [OF assms, of "21 + i"] unfolding even_bits unfolding imm_bits field_masks by simp
  next
    case 3
    then show ?thesis using clear_bits [OF assms, of 20] unfolding even_bits unfolding imm_bits field_masks by simp
  next
    case (4 i)
    then show ?thesis using clear_bits [OF assms, of "12 + i"] unfolding even_bits unfolding imm_bits field_masks by simp
  next
    case 5
    then show ?thesis using clear_bits [OF assms, of 31] unfolding even_bits unfolding imm_bits field_masks by simp
  qed (unfold even_bits, unfold imm_bits field_masks, auto)
qed

section \<open>Moving packets\<close>

definition ds_room :: "decode_stage \<Rightarrow> nat" where
  "ds_room s = qsize (ds_out s) - fifo_occupied (ds_out s)"

definition ds_inv :: "decode_stage \<Rightarrow> bool" where
  "ds_inv s = (fifo_inv (ds_in s) \<and> fifo_inv (ds_out s))"

lemma decode_step_moves:
  assumes "ds_inv s" "fifo_items (ds_in s) = r # rs" "0 < ds_room s"
  shows "\<exists>q t. decode_pack r = Some q \<and> decode_step s = Some t \<and> ds_inv t \<and> fifo_items (ds_in t) = rs
    \<and> fifo_items (ds_out t) = fifo_items (ds_out s) @ [q] \<and> ds_room t = ds_room s - 1 \<and> ds_full t = ds_full s"
proof -
  obtain q where q: "decode_pack r = Some q" using decode_pack_total by blast
  have inv: "fifo_inv (ds_in s)" "fifo_inv (ds_out s)" using assms(1) by (auto simp: ds_inv_def)
  have occ: "fifo_occupied (ds_out s) < qsize (ds_out s)" using assms(3) by (simp add: ds_room_def)
  obtain y f where f: "fifo_pop (ds_in s) = (y, f)" by (cases "fifo_pop (ds_in s)")
  obtain ok g where g: "fifo_push q (ds_out s) = (ok, g)" by (cases "fifo_push q (ds_out s)")
  note p = fifo_pop_ok [OF inv(1) assms(2) f] and u = fifo_push_ok [OF inv(2) occ g]
  have "\<not> fifo_is_empty (ds_in s)" "\<not> fifo_is_full (ds_out s)"
    using inv assms(2) occ by (simp_all add: fifo_empty_iff fifo_full_iff)
  then have "decode_step s = Some (s\<lparr>ds_in := f, ds_out := g\<rparr>)"
    using f p(1) q g by (simp add: decode_step_def)
  then show ?thesis using q p u by (auto simp: ds_inv_def ds_room_def)
qed

lemma decode_step_stays:
  assumes "ds_inv s" "fifo_items (ds_in s) = [] \<or> ds_room s = 0"
  shows "decode_step s = Some (s\<lparr>ds_full := ds_full s + (if fifo_items (ds_in s) = [] then 0 else 1)\<rparr>)"
proof -
  have inv: "fifo_inv (ds_in s)" "fifo_inv (ds_out s)" using assms(1) by (auto simp: ds_inv_def)
  have "ds_room s = 0 \<Longrightarrow> fifo_is_full (ds_out s)"
    using fifo_occupied_le [OF inv(2)] inv(2) by (simp add: ds_room_def fifo_full_iff)
  then show ?thesis using assms(2) inv by (auto simp: decode_step_def fifo_empty_iff)
qed

definition ds_moved :: "nat \<Rightarrow> decode_stage \<Rightarrow> nat" where
  "ds_moved n s = min n (min (length (fifo_items (ds_in s))) (ds_room s))"

lemma decode_steps:
  assumes "ds_inv s"
  shows "\<exists>qs t. fold_opt (\<lambda>_. decode_step) xs s = Some t \<and> ds_inv t
    \<and> map decode_pack (take (ds_moved (length xs) s) (fifo_items (ds_in s))) = map Some qs
    \<and> fifo_items (ds_in t) = drop (ds_moved (length xs) s) (fifo_items (ds_in s))
    \<and> fifo_items (ds_out t) = fifo_items (ds_out s) @ qs
    \<and> ds_full t = ds_full s + of_nat (if ds_moved (length xs) s < length (fifo_items (ds_in s))
         then length xs - ds_moved (length xs) s else 0)"
  using assms
proof (induction xs arbitrary: s)
  case Nil
  then show ?case by (intro exI [of _ "[]"] exI [of _ s]) (simp add: ds_moved_def)
next
  case (Cons x xs)
  show ?case
  proof (cases "fifo_items (ds_in s) \<noteq> [] \<and> 0 < ds_room s")
    case True
    then obtain r rs where rs: "fifo_items (ds_in s) = r # rs" by (cases "fifo_items (ds_in s)") auto
    from decode_step_moves [OF Cons.prems rs conjunct2 [OF True]] obtain q t where
      t: "decode_pack r = Some q" "decode_step s = Some t" "ds_inv t" "fifo_items (ds_in t) = rs"
        "fifo_items (ds_out t) = fifo_items (ds_out s) @ [q]" "ds_room t = ds_room s - 1" "ds_full t = ds_full s" by blast
    have m: "ds_moved (length (x # xs)) s = Suc (ds_moved (length xs) t)"
      using True rs t(4,6) by (auto simp: ds_moved_def min_def)
    from Cons.IH [OF t(3)] obtain qs u where
      u: "fold_opt (\<lambda>_. decode_step) xs t = Some u" "ds_inv u"
        "map decode_pack (take (ds_moved (length xs) t) rs) = map Some qs"
        "fifo_items (ds_in u) = drop (ds_moved (length xs) t) rs"
        "fifo_items (ds_out u) = fifo_items (ds_out t) @ qs"
        "ds_full u = ds_full t + of_nat (if ds_moved (length xs) t < length rs then length xs - ds_moved (length xs) t else 0)"
      unfolding t(4) by blast
    show ?thesis unfolding m rs
      by (intro exI [of _ "q # qs"] exI [of _ u]) (use t u in simp)
  next
    case False
    then have st: "fifo_items (ds_in s) = [] \<or> ds_room s = 0" by auto
    let ?t = "s\<lparr>ds_full := ds_full s + (if fifo_items (ds_in s) = [] then 0 else 1)\<rparr>"
    have t: "ds_inv ?t" "ds_room ?t = ds_room s" using Cons.prems by (simp_all add: ds_inv_def ds_room_def)
    have m: "ds_moved n s = 0" "ds_moved n ?t = 0" for n using st t(2) by (auto simp: ds_moved_def)
    from Cons.IH [OF t(1)] obtain u where
      u: "fold_opt (\<lambda>_. decode_step) xs ?t = Some u" "ds_inv u" "fifo_items (ds_in u) = fifo_items (ds_in s)"
        "fifo_items (ds_out u) = fifo_items (ds_out s)"
        "ds_full u = ds_full ?t + of_nat (if fifo_items (ds_in s) = [] then 0 else length xs)"
      unfolding m by auto
    have "decode_step s = Some ?t" by (rule decode_step_stays [OF Cons.prems st])
    with u show ?thesis unfolding m by (intro exI [of _ "[]"] exI [of _ u]) (auto simp: add.assoc)
  qed
qed

section \<open>Correctness\<close>

text \<open>C28: the decoder and the encoding table of RV32IM, Zicsr, Zifencei and \<open>mret\<close> agree on every
  word but two kinds.  A fetched word without a fetch exception is decoded as valid exactly when a row
  of the table matches it under the row's mask, and then the operation, the execution unit and the
  unit's operation are the row's.  The exceptions, given exactly: a word with the opcode of
  \<open>jalr\<close> and a \<open>funct3\<close> other than zero, which the table does not have, is decoded as a valid
  \<open>jalr\<close>; and a \<open>fence\<close> or \<open>fence.i\<close> with a bit set in a field that the instruction set
  says to ignore, which the table has, is refused.  The packet carries the word and its program
  counter, and decoding never aborts.\<close>

theorem decode_table_correct:
  assumes "fd_enable r" "\<not> fd_has_exception r"
  shows "\<exists>q. decode_pack r = Some q \<and> p_enable q \<and> p_pc q = fd_pc r \<and> p_value q = fd_value r
    \<and> (if reserved_jalr (fd_value r)
       then rv_lookup (fd_value r) = None
         \<and> p_valid q \<and> p_op q = Op_jalr \<and> p_op_unit q = Unit_bru \<and> p_sub_op q = Bru_op Bru_jalr
       else if reserved_fence (fd_value r)
       then rv_lookup (fd_value r) = Some (if f_funct3 (fd_value r) = 0 then (Op_fence, Unit_alu, Alu_op Alu_fence)
           else (Op_fence_i, Unit_alu, Alu_op Alu_fence_i)) \<and> \<not> p_valid q
       else case rv_lookup (fd_value r) of
         None \<Rightarrow> \<not> p_valid q
       | Some (x, u, y) \<Rightarrow> p_valid q \<and> p_op q = x \<and> p_op_unit q = u \<and> p_sub_op q = y)"
proof -
  note l = reserved_lookup [of "fd_value r"]
  from decode_pack_says [OF assms(1)] assms(2) obtain q where
    q: "decode_pack r = Some q" "p_enable q" "p_pc q = fd_pc r" "p_value q = fd_value r" "table_says (fd_value r) True q"
    by auto
  with l show ?thesis
    by (intro exI [of _ q]) (cases "reserved_jalr (fd_value r)"; cases "reserved_fence (fd_value r)";
      auto simp: table_says_def rv_accepted_def split: option.splits)
qed

definition fetched :: "u32 \<Rightarrow> fetch_decode_pack_t" where
  "fetched w = \<lparr>fd_pc = 0x80000000, fd_value = w, fd_enable = True, fd_has_exception = False,
     fd_exception_id = illegal_instruction, fd_exception_value = 0, fd_predicted = False,
     fd_predicted_jump = False, fd_predicted_next_pc = 0, fd_checkpoint_id_valid = False, fd_checkpoint_id = 0\<rparr>"

lemma fetched_simps [simp]:
  "fd_enable (fetched w)" "\<not> fd_has_exception (fetched w)" "fd_value (fetched w) = w"
  by (simp_all add: fetched_def)

text \<open>A multiplication, and the reserved word that is taken for a \<open>jalr\<close>.\<close>

lemma rv_lookup_mul:
  "f_opcode w = 0x33 \<Longrightarrow> f_funct3 w = 0 \<Longrightarrow> f_funct7 w = 1 \<Longrightarrow> rv_lookup w = Some (Op_mul, Unit_mul, Mul_op Mul_mul)"
  by (simp add: rv_lookup_def rv_table_def rows)

lemma rv_accepted_mul:
  "f_opcode w = 0x33 \<Longrightarrow> f_funct3 w = 0 \<Longrightarrow> f_funct7 w = 1 \<Longrightarrow> rv_accepted w = Some (Op_mul, Unit_mul, Mul_op Mul_mul)"
  by (simp add: rv_accepted_def reserved_jalr_def reserved_fence_def rv_lookup_mul)

theorem decode_table_correct_witness:
  "(\<exists>q. decode_pack (fetched 0x02c58533) = Some q \<and> p_valid q \<and> p_op q = Op_mul \<and> p_op_unit q = Unit_mul
     \<and> p_sub_op q = Mul_op Mul_mul)
   \<and> (\<exists>q. decode_pack (fetched 0x00001067) = Some q \<and> p_valid q \<and> p_op q = Op_jalr) \<and> rv_lookup 0x00001067 = None"
proof -
  have m: "rv_lookup 0x02c58533 = Some (Op_mul, Unit_mul, Mul_op Mul_mul)" "\<not> reserved_jalr 0x02c58533" "\<not> reserved_fence 0x02c58533"
    by (rule rv_lookup_mul) (simp_all add: reserved_jalr_def reserved_fence_def)
  have j: "reserved_jalr 0x00001067" by (simp add: reserved_jalr_def)
  show ?thesis
    using decode_table_correct [of "fetched 0x02c58533"] decode_table_correct [of "fetched 0x00001067"] m j
    by auto
qed

lemma signed_even: "signed_take_bit n (take_bit (Suc n) v AND NOT 1 :: u32) = signed_take_bit n (v AND NOT 1)"
proof -
  have "take_bit (Suc n) v AND NOT 1 = take_bit (Suc n) (v AND NOT 1)"
    by (rule bit_word_eqI) (simp only: bit_and_iff bit_take_bit_iff conj_ac)
  then show ?thesis by (simp only: signed_take_bit_take_bit Suc_n_not_le_n if_False)
qed

lemma sign_extend_imm:
  "0 < n \<Longrightarrow> n < 32 \<Longrightarrow> sign_extend (take_bit n v) n = Some (signed_take_bit (n - 1) v)"
  "0 < n \<Longrightarrow> n < 32 \<Longrightarrow> sign_extend (take_bit n v AND NOT 1) n = Some (signed_take_bit (n - 1) (v AND NOT 1))"
proof -
  assume n: "0 < n" "n < 32"
  have "\<not> n \<le> n - 1" using n(1) by simp
  then show "sign_extend (take_bit n v) n = Some (signed_take_bit (n - 1) v)"
    using sign_extend_signed [OF n, of "take_bit n v"] by (simp only: signed_take_bit_take_bit if_False take_bit_take_bit min.idem)
  have "take_bit n (take_bit n v AND NOT 1) = take_bit n v AND NOT 1"
    by (rule bit_word_eqI) (simp only: bit_and_iff bit_take_bit_iff conj_ac conj_absorb conj_left_absorb)
  note sign_extend_signed [OF n this]
  moreover have "Suc (n - 1) = n" using n(1) by simp
  ultimately show "sign_extend (take_bit n v AND NOT 1) n = Some (signed_take_bit (n - 1) (v AND NOT 1))"
    using signed_even [of "n - 1" v] by (simp only:)
qed

text \<open>C29: the immediates: for each of the five layouts, a word built by putting the bits of a value
  where the layout says decodes to that value, sign-extended from its width (and with bit 0 cleared
  for branches and jumps).\<close>

theorem decode_immediates:
  assumes "fd_enable r" "decode_pack r = Some q"
  shows "(f_opcode (fd_value r) \<in> {0x67, 0x03, 0x13} \<and> clear 20 12 x \<and> fd_value r = x OR enc_i v
      \<longrightarrow> p_imm q = signed_take_bit 11 v)
    \<and> (f_opcode (fd_value r) = 0x23 \<and> clear 25 7 x \<and> clear 7 5 x \<and> fd_value r = x OR enc_s v
      \<longrightarrow> p_imm q = signed_take_bit 11 v)
    \<and> (f_opcode (fd_value r) = 0x63 \<and> clear 25 7 x \<and> clear 7 5 x \<and> fd_value r = x OR enc_b v
      \<longrightarrow> p_imm q = signed_take_bit 12 (v AND NOT 1))
    \<and> (f_opcode (fd_value r) \<in> {0x37, 0x17} \<and> clear 12 20 x \<and> fd_value r = x OR enc_u v
      \<longrightarrow> p_imm q = v AND NOT 0xfff)
    \<and> (f_opcode (fd_value r) = 0x6f \<and> clear 12 20 x \<and> fd_value r = x OR enc_j v
      \<longrightarrow> p_imm q = signed_take_bit 20 (v AND NOT 1))"
proof -
  from assms obtain p where p: "decode_switch (fd_value r) (decode_rename_zero\<lparr>p_enable := True,
      p_valid := \<not> fd_has_exception r, p_pc := fd_pc r\<rparr>) = Some p" and q: "p_imm q = p_imm p"
    by (auto simp: decode_pack_def bind_eq_Some_conv)
  note i12 = sign_extend_imm(1) [of 12 v, simplified]
  note e13 = sign_extend_imm(2) [of 13 v, simplified] and e21 = sign_extend_imm(2) [of 21 v, simplified]
  have 1: "p_imm q = signed_take_bit 11 v"
    if "f_opcode (fd_value r) \<in> {0x67, 0x03, 0x13}" "clear 20 12 x" "fd_value r = x OR enc_i v"
    using that(1) p i12 imm_i_enc [OF that(2), of v] unfolding q that(3)
    by (auto simp: decode_switch_def decode_jalr_def decode_load_def decode_op_imm_def Let_def split: if_splits)
  have 2: "p_imm q = signed_take_bit 11 v"
    if "f_opcode (fd_value r) = 0x23" "clear 25 7 x" "clear 7 5 x" "fd_value r = x OR enc_s v"
    using that(1) p i12 imm_s_enc [OF that(2,3), of v] unfolding q that(4)
    by (auto simp: decode_switch_def decode_store_def Let_def split: if_splits)
  have 3: "p_imm q = signed_take_bit 12 (v AND NOT 1)"
    if "f_opcode (fd_value r) = 0x63" "clear 25 7 x" "clear 7 5 x" "fd_value r = x OR enc_b v"
    using that(1) p e13 imm_b_enc [OF that(2,3), of v] unfolding q that(4)
    by (auto simp: decode_switch_def decode_branch_def Let_def split: if_splits)
  have 4: "p_imm q = v AND NOT 0xfff"
    if "f_opcode (fd_value r) \<in> {0x37, 0x17}" "clear 12 20 x" "fd_value r = x OR enc_u v"
    using that(1) p imm_u_enc [OF that(2), of v] unfolding q that(3)
    by (auto simp: decode_switch_def decode_lui_def decode_auipc_def)
  have 5: "p_imm q = signed_take_bit 20 (v AND NOT 1)"
    if "f_opcode (fd_value r) = 0x6f" "clear 12 20 x" "fd_value r = x OR enc_j v"
    using that(1) p e21 imm_j_enc [OF that(2), of v] unfolding q that(3)
    by (auto simp: decode_switch_def decode_jal_def)
  from 1 2 3 4 5 show ?thesis by blast
qed

text \<open>The branch \<open>beq x0, x0, -8\<close>.\<close>

theorem decode_immediates_witness:
  "\<exists>q. decode_pack (fetched (0x63 OR enc_b (- 8))) = Some q \<and> p_imm q = - 8"
proof -
  have op: "f_opcode (fd_value (fetched (0x63 OR enc_b (- 8)))) = 0x63"
    by (simp add: f_opcode_def enc_b_def)
  have c: "clear 25 7 0x63" "clear 7 5 0x63" by (simp_all add: clear_def mask_eq_exp_minus_1)
  obtain q where q: "decode_pack (fetched (0x63 OR enc_b (- 8))) = Some q" using decode_pack_total by blast
  from decode_immediates [where x = "0x63" and v = "- 8", OF _ q] op c have "p_imm q = signed_take_bit 12 ((- 8) AND NOT 1)" by simp
  also have "\<dots> = - 8" by simp
  finally show ?thesis using q by blast
qed

text \<open>A cycle of the decode stage moves the oldest packets of the fetch queue, decoded and in
  order, to the rename queue: as many as four, as there are, and as there is room for; each turn that
  finds a packet but no room is counted.  On a flush the rename queue is emptied instead and the
  fetch queue left alone.\<close>

theorem decode_run_correct:
  assumes "ds_inv s"
  shows "\<exists>qs t. decode_run c s = Some (fifo_items (ds_in s) = [], t)
    \<and> (\<not> (cf_enable c \<and> cf_flush c) \<longrightarrow> ds_inv t
       \<and> map decode_pack (take (ds_moved 4 s) (fifo_items (ds_in s))) = map Some qs
       \<and> fifo_items (ds_in t) = drop (ds_moved 4 s) (fifo_items (ds_in s))
       \<and> fifo_items (ds_out t) = fifo_items (ds_out s) @ qs
       \<and> ds_full t = ds_full s + of_nat (if ds_moved 4 s < length (fifo_items (ds_in s)) then 4 - ds_moved 4 s else 0))
    \<and> (cf_enable c \<and> cf_flush c \<longrightarrow> fifo_items (ds_out t) = [] \<and> ds_in t = ds_in s \<and> ds_full t = ds_full s)"
proof (cases "cf_enable c \<and> cf_flush c")
  case True
  then show ?thesis
    using assms fifo_flush_inv(1) by (auto simp: decode_run_def Let_def ds_inv_def fifo_empty_iff)
next
  case False
  from decode_steps [OF assms, of "[0..<DECODE_WIDTH]"] obtain qs t where
    t: "fold_opt (\<lambda>_. decode_step) [0..<DECODE_WIDTH] s = Some t" "ds_inv t"
     "map decode_pack (take (ds_moved 4 s) (fifo_items (ds_in s))) = map Some qs"
     "fifo_items (ds_in t) = drop (ds_moved 4 s) (fifo_items (ds_in s))"
     "fifo_items (ds_out t) = fifo_items (ds_out s) @ qs"
     "ds_full t = ds_full s + of_nat (if ds_moved 4 s < length (fifo_items (ds_in s)) then 4 - ds_moved 4 s else 0)"
    by (auto simp: DECODE_WIDTH_def)
  have "decode_run c s = Some (fifo_items (ds_in s) = [], t)"
    using False t(1) assms by (auto simp: decode_run_def Let_def ds_inv_def fifo_empty_iff)
  with False t show ?thesis by blast
qed

definition ds_demo :: decode_stage where
  "ds_demo = \<lparr>ds_in = snd (fifo_push (fetched 0x13) (fifo_new 4 (fetched 0))), ds_out = fifo_new 2 decode_rename_zero,
     ds_full = 0\<rparr>"

theorem decode_run_correct_witness:
  "\<exists>t q. decode_run commit_feedback_zero ds_demo = Some (False, t) \<and> fifo_items (ds_in t) = []
     \<and> decode_pack (fetched 0x13) = Some q \<and> fifo_items (ds_out t) = [q]"
proof -
  have i: "ds_inv ds_demo" "fifo_items (ds_in ds_demo) = [fetched 0x13]" "fifo_items (ds_out ds_demo) = []"
    "ds_room ds_demo = 2"
    by (simp_all add: ds_demo_def ds_inv_def ds_room_def fifo_push_def fifo_new_def fifo_is_full_def fifo_inv_def
      fifo_items_def fifo_occupied_def ring_ok_def ring_items_def ring_count_def numeral_eq_Suc)
  then have "ds_moved 4 ds_demo = 1" by (simp add: ds_moved_def)
  with decode_run_correct [OF i(1), of commit_feedback_zero] i show ?thesis
    by (auto simp: commit_feedback_zero_def map_eq_Cons_conv)
qed

end
