(* ===== verification/Execute_Common.thy ===== *)
theory Execute_Common
  imports Fifo Pipeline_Common
begin

text \<open>
  What the execution units of \<open>pipeline/execute/\<close> share: each takes the packet at the head of its
  issue queue unless the commit stage flushes, copies it into the packet for the write-back stage,
  computes, sets its write-back port, and publishes the result on its feedback channel.  The
  computation is a parameter here; the locale \<open>exec_unit\<close> states what the other stages rely on.
\<close>

definition execute_wb_zero :: execute_wb_pack_t where
  "execute_wb_zero = \<lparr>p_enable = False, p_value = 0, p_valid = False, p_pc = 0, p_imm = 0,
     p_has_exception = False, p_exception_id = instruction_address_misaligned, p_exception_value = 0,
     p_predicted = False, p_predicted_jump = False, p_predicted_next_pc = 0,
     p_checkpoint_id_valid = False, p_checkpoint_id = 0,
     p_rs1 = 0, p_arg1_src = Arg_reg, p_rs1_need_map = False,
     p_rs2 = 0, p_arg2_src = Arg_reg, p_rs2_need_map = False,
     p_rd = 0, p_rd_enable = False, p_need_rename = False,
     p_csr = 0, p_op = Op_add, p_op_unit = Unit_alu, p_sub_op = Alu_op Alu_add,
     p_rob_id = 0, p_rs1_phy = 0, p_rs2_phy = 0, p_rd_phy = 0,
     p_src1_value = 0, p_src1_loaded = False, p_src2_value = 0, p_src2_loaded = False,
     p_bru_jump = False, p_bru_next_pc = 0, p_rd_value = 0, p_csr_newvalue = 0,
     p_csr_newvalue_valid = False\<rparr>"

text \<open>The copy of the fields that both packets have, into a packet of zeroes.\<close>

definition exec_receive :: "issue_execute_pack_t \<Rightarrow> execute_wb_pack_t" where
  "exec_receive r = execute_wb_zero\<lparr>
     p_enable := p_enable r, p_value := p_value r, p_valid := p_valid r, p_rob_id := p_rob_id r,
     p_pc := p_pc r, p_imm := p_imm r,
     p_has_exception := p_has_exception r, p_exception_id := p_exception_id r,
     p_exception_value := p_exception_value r,
     p_predicted := p_predicted r, p_predicted_jump := p_predicted_jump r,
     p_predicted_next_pc := p_predicted_next_pc r,
     p_checkpoint_id_valid := p_checkpoint_id_valid r, p_checkpoint_id := p_checkpoint_id r,
     p_rs1 := p_rs1 r, p_arg1_src := p_arg1_src r, p_rs1_need_map := p_rs1_need_map r,
     p_rs1_phy := p_rs1_phy r, p_src1_value := p_src1_value r, p_src1_loaded := p_src1_loaded r,
     p_rs2 := p_rs2 r, p_arg2_src := p_arg2_src r, p_rs2_need_map := p_rs2_need_map r,
     p_rs2_phy := p_rs2_phy r, p_src2_value := p_src2_value r, p_src2_loaded := p_src2_loaded r,
     p_rd := p_rd r, p_rd_enable := p_rd_enable r, p_need_rename := p_need_rename r,
     p_rd_phy := p_rd_phy r,
     p_csr := p_csr r, p_op := p_op r, p_op_unit := p_op_unit r, p_sub_op := p_sub_op r\<rparr>"

definition exec_feedback :: "execute_wb_pack_t \<Rightarrow> execute_feedback_channel_t" where
  "exec_feedback s =
     \<lparr>fb_enable = p_enable s \<and> p_valid s \<and> p_rd_enable s \<and> p_need_rename s \<and> \<not> p_has_exception s,
      fb_phy_id = p_rd_phy s, fb_value = p_rd_value s\<rparr>"

definition cf_flushing :: "commit_feedback_pack_t \<Rightarrow> bool" where
  "cf_flushing cf = (cf_enable cf \<and> cf_flush cf)"

type_synonym exec_queue = "issue_execute_pack_t fifo"
type_synonym wb_port = "execute_wb_pack_t port"

definition exec_run ::
  "(issue_execute_pack_t \<Rightarrow> execute_wb_pack_t option) \<Rightarrow> commit_feedback_pack_t \<Rightarrow> exec_queue \<Rightarrow> wb_port
    \<Rightarrow> (exec_queue \<times> wb_port \<times> execute_feedback_channel_t) option" where
  "exec_run compute cf q p = do {
     (q, send) \<leftarrow> (if \<not> fifo_is_empty q \<and> \<not> cf_flushing cf
       then (case fifo_pop q of
               (None, _) \<Rightarrow> None
             | (Some rev_pack, q) \<Rightarrow> do { send \<leftarrow> compute rev_pack; Some (q, send) })
       else Some (q, execute_wb_zero));
     Some (q, port_set send p, exec_feedback send) }"

definition raise :: "riscv_exception_t \<Rightarrow> u32 \<Rightarrow> 'z execute_wb_pack_t_scheme \<Rightarrow> 'z execute_wb_pack_t_scheme" where
  "raise e v s = s\<lparr>p_has_exception := True, p_exception_id := e, p_exception_value := v\<rparr>"

section \<open>The contract of a unit\<close>

text \<open>The fields by which the later stages tell which instruction a packet belongs to.\<close>

definition same_instr :: "issue_execute_pack_t \<Rightarrow> execute_wb_pack_t \<Rightarrow> bool" where
  "same_instr r s = (p_enable s = p_enable r \<and> p_valid s = p_valid r \<and> p_value s = p_value r
     \<and> p_rob_id s = p_rob_id r \<and> p_pc s = p_pc r \<and> p_rd s = p_rd r \<and> p_rd_enable s = p_rd_enable r
     \<and> p_need_rename s = p_need_rename r \<and> p_rd_phy s = p_rd_phy r \<and> p_op s = p_op r
     \<and> p_op_unit s = p_op_unit r \<and> p_sub_op s = p_sub_op r
     \<and> (p_has_exception r \<longrightarrow> p_has_exception s))"

definition bubble :: "execute_wb_pack_t \<Rightarrow> bool" where
  "bubble s = (s = execute_wb_zero)"

lemma receive_same [simp]: "same_instr r (exec_receive r)"
  by (simp add: same_instr_def exec_receive_def)

lemma same_instr_update [simp]:
  "same_instr r (s\<lparr>p_rd_value := v\<rparr>) = same_instr r s"
  "same_instr r (s\<lparr>p_bru_jump := j\<rparr>) = same_instr r s"
  "same_instr r (s\<lparr>p_bru_next_pc := n\<rparr>) = same_instr r s"
  "same_instr r (s\<lparr>p_csr_newvalue := c\<rparr>) = same_instr r s"
  "same_instr r (s\<lparr>p_csr_newvalue_valid := d\<rparr>) = same_instr r s"
  "same_instr r s \<Longrightarrow> same_instr r (raise e w s)"
  by (simp_all add: same_instr_def raise_def)

lemma receive_simps [simp]:
  "p_has_exception (exec_receive r) = p_has_exception r"
  "p_exception_id (exec_receive r) = p_exception_id r"
  "p_exception_value (exec_receive r) = p_exception_value r"
  "p_enable (exec_receive r) = p_enable r" "p_valid (exec_receive r) = p_valid r"
  "p_rd_value (exec_receive r) = 0" "p_bru_jump (exec_receive r) = False"
  "p_pc (exec_receive r) = p_pc r" "p_value (exec_receive r) = p_value r"
  "p_arg1_src (exec_receive r) = p_arg1_src r" "p_rs1_need_map (exec_receive r) = p_rs1_need_map r"
  "p_checkpoint_id_valid (exec_receive r) = p_checkpoint_id_valid r"
  "p_checkpoint_id (exec_receive r) = p_checkpoint_id r"
  "p_predicted_jump (exec_receive r) = p_predicted_jump r"
  "p_rd_enable (exec_receive r) = p_rd_enable r" "p_need_rename (exec_receive r) = p_need_rename r"
  "p_rd_phy (exec_receive r) = p_rd_phy r" "p_rob_id (exec_receive r) = p_rob_id r"
  by (simp_all add: exec_receive_def execute_wb_zero_def)

lemma raise_simps [simp]:
  "p_has_exception (raise e v s)" "p_exception_id (raise e v s) = e" "p_exception_value (raise e v s) = v"
  "p_rd_value (raise e v s) = p_rd_value s"
  by (simp_all add: raise_def)

lemma feedback_zero [simp]: "\<not> fb_enable (exec_feedback execute_wb_zero)"
  by (simp add: exec_feedback_def execute_wb_zero_def)

lemma feedback_same:
  assumes "same_instr r s"
  shows "fb_enable (exec_feedback s)
      \<longleftrightarrow> p_enable r \<and> p_valid r \<and> p_rd_enable r \<and> p_need_rename r \<and> \<not> p_has_exception s"
    and "fb_phy_id (exec_feedback s) = p_rd_phy r" "fb_value (exec_feedback s) = p_rd_value s"
  using assms by (simp_all add: exec_feedback_def same_instr_def)

lemma pop_head:
  assumes "fifo_inv q" "fifo_items q = r # rest"
  obtains t where "fifo_pop q = (Some r, t)" "fifo_inv t" "fifo_items t = rest" "\<not> fifo_is_empty q"
proof -
  obtain x t where pop: "fifo_pop q = (x, t)" by (cases "fifo_pop q")
  with fifo_pop_ok [OF assms(1) _ pop] assms fifo_empty_iff [OF assms(1)] show ?thesis
    using that by auto
qed

text \<open>A unit computes on the packets it accepts, and its result belongs to the instruction it was
  given.\<close>

locale exec_unit =
  fixes compute :: "issue_execute_pack_t \<Rightarrow> execute_wb_pack_t option"
    and accepts :: "issue_execute_pack_t \<Rightarrow> bool"
  assumes computes: "accepts r \<Longrightarrow> \<exists>s. compute r = Some s \<and> same_instr r s"
begin

lemma run_bubble:
  assumes "fifo_inv q" "fifo_items q = [] \<or> cf_flushing cf"
  shows "exec_run compute cf q p = Some (q, port_set execute_wb_zero p, exec_feedback execute_wb_zero)"
  using assms by (auto simp: exec_run_def fifo_empty_iff)

lemma run_head:
  assumes "fifo_inv q" "fifo_items q = r # rest" "\<not> cf_flushing cf" "compute r = Some s"
  shows "\<exists>t. exec_run compute cf q p = Some (t, port_set s p, exec_feedback s)
    \<and> fifo_inv t \<and> fifo_items t = rest"
proof -
  obtain t where "fifo_pop q = (Some r, t)" "fifo_inv t" "fifo_items t = rest" "\<not> fifo_is_empty q"
    using pop_head [OF assms(1,2)] .
  with assms(3,4) show ?thesis by (auto simp: exec_run_def)
qed

lemma run_total:
  assumes "fifo_inv q" "\<forall>r \<in> set (fifo_items q). accepts r"
  shows "\<exists>t s. exec_run compute cf q p = Some (t, port_set s p, exec_feedback s) \<and> fifo_inv t
    \<and> (\<forall>r \<in> set (fifo_items t). accepts r)
    \<and> (if fifo_items q = [] \<or> cf_flushing cf then t = q \<and> bubble s
       else fifo_items t = tl (fifo_items q) \<and> same_instr (hd (fifo_items q)) s)"
proof (cases "fifo_items q = [] \<or> cf_flushing cf")
  case True
  with run_bubble [OF assms(1) True] assms show ?thesis by (auto simp: bubble_def)
next
  case False
  then obtain r rest where q: "fifo_items q = r # rest" by (cases "fifo_items q") auto
  with assms computes obtain s where s: "compute r = Some s" "same_instr r s" by auto
  obtain t where "exec_run compute cf q p = Some (t, port_set s p, exec_feedback s)"
    "fifo_inv t" "fifo_items t = rest"
    using run_head [OF assms(1) q _ s(1)] False by blast
  with False q assms(2) s(2) show ?thesis by (intro exI [of _ t] exI [of _ s]) simp
qed

end

section \<open>Concrete packets\<close>

text \<open>A concrete packet at the head of a queue.\<close>

definition exec_demo :: "sub_op_t \<Rightarrow> u32 \<Rightarrow> u32 \<Rightarrow> issue_execute_pack_t" where
  "exec_demo x a b = readreg_issue_op_info_t.extend
     (readreg_issue_op_info_t.truncate (execute_wb_zero\<lparr>p_enable := True, p_valid := True,
        p_sub_op := x, p_src1_value := a, p_src2_value := b, p_rd_enable := True,
        p_need_rename := True, p_rd_phy := 7, p_rob_id := 3\<rparr>))
     (issue_execute_pack_t.fields 0)"

definition queue_demo :: "issue_execute_pack_t \<Rightarrow> exec_queue" where
  "queue_demo r = snd (fifo_push r (fifo_new 2 r))"

lemma exec_demo_simps [simp]:
  "p_enable (exec_demo x a b)" "p_valid (exec_demo x a b)" "\<not> p_has_exception (exec_demo x a b)"
  "p_sub_op (exec_demo x a b) = x" "p_src1_value (exec_demo x a b) = a" "p_src2_value (exec_demo x a b) = b"
  "p_rd_enable (exec_demo x a b)" "p_need_rename (exec_demo x a b)" "p_rd_phy (exec_demo x a b) = 7"
  "p_pc (exec_demo x a b) = 0" "p_imm (exec_demo x a b) = 0"
  by (simp_all add: exec_demo_def execute_wb_zero_def issue_execute_pack_t.defs readreg_issue_op_info_t.defs)

lemma queue_demo_items: "fifo_inv (queue_demo r)" "fifo_items (queue_demo r) = [r]"
  by (simp_all add: queue_demo_def fifo_new_def fifo_push_def fifo_is_full_def fifo_inv_def fifo_items_def
      ring_defs Let_def numeral_2_eq_2)

lemma no_flush: "\<not> cf_flushing commit_feedback_zero"
  by (simp add: cf_flushing_def commit_feedback_zero_def)

end
