(* ===== verification/Execute_Arith.thy ===== *)
theory Execute_Arith
  imports Execute_Common "HOL-Library.Signed_Division"
begin

text \<open>
  The arithmetic units \<open>pipeline/execute/alu.cpp\<close>, \<open>mul.cpp\<close> and \<open>div.cpp\<close>, and their results as
  integer arithmetic.  C++ signed division truncates, which is \<open>sdiv\<close> and \<open>smod\<close> on \<open>int\<close>; a
  conversion to \<open>uint32_t\<close> is \<open>word_of_int\<close>.
\<close>

section \<open>The units\<close>

fun alu_switch :: "alu_op_t \<Rightarrow> issue_execute_pack_t \<Rightarrow> execute_wb_pack_t \<Rightarrow> execute_wb_pack_t" where
  "alu_switch Alu_add r s = s\<lparr>p_rd_value := p_src1_value r + p_src2_value r\<rparr>"
| "alu_switch Alu_and r s = s\<lparr>p_rd_value := p_src1_value r AND p_src2_value r\<rparr>"
| "alu_switch Alu_auipc r s = s\<lparr>p_rd_value := p_imm r + p_pc r\<rparr>"
| "alu_switch Alu_ebreak r s = raise breakpoint 0 (s\<lparr>p_rd_value := 0\<rparr>)"
| "alu_switch Alu_ecall r s = raise environment_call_from_m_mode 0 (s\<lparr>p_rd_value := 0\<rparr>)"
| "alu_switch Alu_fence r s = s\<lparr>p_rd_value := 0\<rparr>"
| "alu_switch Alu_fence_i r s = s\<lparr>p_rd_value := 0\<rparr>"
| "alu_switch Alu_lui r s = s\<lparr>p_rd_value := p_imm r\<rparr>"
| "alu_switch Alu_or r s = s\<lparr>p_rd_value := p_src1_value r OR p_src2_value r\<rparr>"
| "alu_switch Alu_sll r s = s\<lparr>p_rd_value := push_bit (unat (p_src2_value r AND 0x1f)) (p_src1_value r)\<rparr>"
| "alu_switch Alu_slt r s = s\<lparr>p_rd_value := (if p_src1_value r <s p_src2_value r then 1 else 0)\<rparr>"
| "alu_switch Alu_sltu r s = s\<lparr>p_rd_value := (if p_src1_value r < p_src2_value r then 1 else 0)\<rparr>"
| "alu_switch Alu_sra r s = s\<lparr>p_rd_value := signed_drop_bit (unat (p_src2_value r AND 0x1f)) (p_src1_value r)\<rparr>"
| "alu_switch Alu_srl r s = s\<lparr>p_rd_value := drop_bit (unat (p_src2_value r AND 0x1f)) (p_src1_value r)\<rparr>"
| "alu_switch Alu_sub r s = s\<lparr>p_rd_value := p_src1_value r - p_src2_value r\<rparr>"
| "alu_switch Alu_xor r s = s\<lparr>p_rd_value := p_src1_value r XOR p_src2_value r\<rparr>"

definition alu_compute :: "issue_execute_pack_t \<Rightarrow> execute_wb_pack_t option" where
  "alu_compute r =
     (let s = exec_receive r in
      if p_enable r \<and> \<not> p_has_exception r
      then if \<not> p_valid r then Some (raise illegal_instruction 0 s)
           else do { x \<leftarrow> as_alu (p_sub_op r); Some (alu_switch x r s) }
      else Some s)"

definition alu_run ::
  "commit_feedback_pack_t \<Rightarrow> exec_queue \<Rightarrow> wb_port \<Rightarrow> (exec_queue \<times> wb_port \<times> execute_feedback_channel_t) option" where
  "alu_run = exec_run alu_compute"

text \<open>\<open>(int64_t)(int32_t)x\<close> is \<open>scast\<close>, \<open>(uint64_t)x\<close> is \<open>ucast\<close>; the mixed product of \<open>mulhsu\<close>
  converts its signed operand to \<open>uint64_t\<close>.\<close>

fun mul_switch :: "mul_op_t \<Rightarrow> u32 \<Rightarrow> u32 \<Rightarrow> u32" where
  "mul_switch Mul_mul a b = ucast (((scast a :: u64) * scast b) AND 0xffffffff)"
| "mul_switch Mul_mulh a b = ucast (drop_bit 32 ((scast a :: u64) * scast b) AND 0xffffffff)"
| "mul_switch Mul_mulhsu a b = ucast (drop_bit 32 ((scast a :: u64) * ucast b) AND 0xffffffff)"
| "mul_switch Mul_mulhu a b = ucast (drop_bit 32 ((ucast a :: u64) * ucast b) AND 0xffffffff)"

definition mul_compute :: "issue_execute_pack_t \<Rightarrow> execute_wb_pack_t option" where
  "mul_compute r =
     (let s = exec_receive r in
      if p_enable r \<and> p_valid r
      then do {
        x \<leftarrow> as_mul (p_sub_op r);
        Some (s\<lparr>p_rd_value := mul_switch x (p_src1_value r) (p_src2_value r)\<rparr>) }
      else Some s)"

definition mul_run ::
  "commit_feedback_pack_t \<Rightarrow> exec_queue \<Rightarrow> wb_port \<Rightarrow> (exec_queue \<times> wb_port \<times> execute_feedback_channel_t) option" where
  "mul_run = exec_run mul_compute"

definition div_overflow :: "u32 \<Rightarrow> u32 \<Rightarrow> bool" where
  "div_overflow a b = (a = 0x80000000 \<and> b = 0xFFFFFFFF)"

fun div_switch :: "div_op_t \<Rightarrow> u32 \<Rightarrow> u32 \<Rightarrow> u32" where
  "div_switch Div_div a b =
     (if b = 0 then 0xFFFFFFFF else if div_overflow a b then 0x80000000 else word_of_int (sint a sdiv sint b))"
| "div_switch Div_divu a b = (if b = 0 then 0xFFFFFFFF else a div b)"
| "div_switch Div_rem a b =
     (if b = 0 then a else if div_overflow a b then 0 else word_of_int (sint a smod sint b))"
| "div_switch Div_remu a b = (if b = 0 then a else a mod b)"

definition div_compute :: "issue_execute_pack_t \<Rightarrow> execute_wb_pack_t option" where
  "div_compute r =
     (let s = exec_receive r in
      if p_enable r \<and> p_valid r
      then do {
        x \<leftarrow> as_div (p_sub_op r);
        Some (s\<lparr>p_rd_value := div_switch x (p_src1_value r) (p_src2_value r)\<rparr>) }
      else Some s)"

definition div_run ::
  "commit_feedback_pack_t \<Rightarrow> exec_queue \<Rightarrow> wb_port \<Rightarrow> (exec_queue \<times> wb_port \<times> execute_feedback_channel_t) option" where
  "div_run = exec_run div_compute"

section \<open>The contract\<close>

text \<open>A unit accepts packets whose operation is one of its own, or that it need not execute.\<close>

definition alu_accepts :: "issue_execute_pack_t \<Rightarrow> bool" where
  "alu_accepts r = (p_enable r \<and> p_valid r \<and> \<not> p_has_exception r \<longrightarrow> as_alu (p_sub_op r) \<noteq> None)"

definition mul_accepts :: "issue_execute_pack_t \<Rightarrow> bool" where
  "mul_accepts r = (p_enable r \<and> p_valid r \<longrightarrow> as_mul (p_sub_op r) \<noteq> None)"

definition div_accepts :: "issue_execute_pack_t \<Rightarrow> bool" where
  "div_accepts r = (p_enable r \<and> p_valid r \<longrightarrow> as_div (p_sub_op r) \<noteq> None)"

lemma alu_switch_same: "same_instr r s \<Longrightarrow> same_instr r (alu_switch x r s)"
  by (cases x) simp_all

lemma alu_switch_exception:
  "p_has_exception (alu_switch x r s) \<longleftrightarrow> p_has_exception s \<or> x = Alu_ecall \<or> x = Alu_ebreak"
  by (cases x) simp_all

interpretation alu: exec_unit alu_compute alu_accepts
  by unfold_locales (auto simp: alu_compute_def alu_accepts_def Let_def alu_switch_same)

interpretation mul: exec_unit mul_compute mul_accepts
  by unfold_locales (auto simp: mul_compute_def mul_accepts_def Let_def)

interpretation dv: exec_unit div_compute div_accepts
  by unfold_locales (auto simp: div_compute_def div_accepts_def Let_def)

section \<open>Integer arithmetic\<close>

definition shamt :: "u32 \<Rightarrow> nat" where
  "shamt b = nat (uint b mod 32)"

fun alu_isa :: "alu_op_t \<Rightarrow> u32 \<Rightarrow> u32 \<Rightarrow> u32 \<Rightarrow> u32 \<Rightarrow> int" where
  "alu_isa Alu_add pc imm a b = (uint a + uint b) mod 2 ^ 32"
| "alu_isa Alu_sub pc imm a b = (uint a - uint b) mod 2 ^ 32"
| "alu_isa Alu_and pc imm a b = uint a AND uint b"
| "alu_isa Alu_or pc imm a b = uint a OR uint b"
| "alu_isa Alu_xor pc imm a b = uint a XOR uint b"
| "alu_isa Alu_sll pc imm a b = (uint a * 2 ^ shamt b) mod 2 ^ 32"
| "alu_isa Alu_srl pc imm a b = uint a div 2 ^ shamt b"
| "alu_isa Alu_sra pc imm a b = (sint a div 2 ^ shamt b) mod 2 ^ 32"
| "alu_isa Alu_slt pc imm a b = of_bool (sint a < sint b)"
| "alu_isa Alu_sltu pc imm a b = of_bool (uint a < uint b)"
| "alu_isa Alu_lui pc imm a b = uint imm"
| "alu_isa Alu_auipc pc imm a b = (uint pc + uint imm) mod 2 ^ 32"
| "alu_isa _ pc imm a b = 0"

lemma unat_and_1f: "unat (b AND 0x1f :: u32) = shamt b"
proof -
  have "unat (b AND 0x1f) = nat (uint b AND mask 5)"
    by (simp only: uint_and unat_eq_nat_uint mask_eq_exp_minus_1) simp
  then show ?thesis by (simp add: shamt_def take_bit_eq_mod flip: take_bit_eq_mask)
qed

lemma sll_isa: "uint (push_bit n (a :: u32)) = (uint a * 2 ^ n) mod 2 ^ 32"
  by (subst unsigned_push_bit_eq) (simp add: push_bit_eq_mult take_bit_eq_mod)

lemma srl_isa: "uint (drop_bit n (a :: u32)) = uint a div 2 ^ n"
  by (subst unsigned_drop_bit_eq) (simp add: drop_bit_eq_div bintr_uint)

lemma sra_isa: "uint (signed_drop_bit n (a :: u32)) = (sint a div 2 ^ n) mod 2 ^ 32"
  by (simp add: uint_sint sint_signed_drop_bit_eq drop_bit_eq_div take_bit_eq_mod)

lemma alu_switch_isa:
  "uint (p_rd_value (alu_switch x r s))
    = alu_isa x (p_pc r) (p_imm r) (p_src1_value r) (p_src2_value r)"
  by (cases x)
    (simp_all add: unat_and_1f uint_and uint_or uint_xor uint_word_ariths add.commute sll_isa srl_isa
      sra_isa word_less_def word_sless_alt)

text \<open>The two halves of a 64-bit product.\<close>

lemma u64_halves:
  assumes "- (2 ^ 63) \<le> p" "p < 2 ^ 63"
  shows "uint (ucast (word_of_int p AND 0xffffffff :: u64) :: u32) = p mod 2 ^ 32"
    and "sint (ucast (drop_bit 32 (word_of_int p :: u64) AND 0xffffffff) :: u32) = p div 2 ^ 32"
proof -
  have m: "(0xffffffff :: u64) = mask 32" by (simp add: mask_eq_exp_minus_1)
  show "uint (ucast (word_of_int p AND 0xffffffff :: u64) :: u32) = p mod 2 ^ 32"
    unfolding m by (simp add: unsigned_ucast_eq unsigned_take_bit_eq uint_word_of_int_eq flip: take_bit_eq_mask)
      (simp add: take_bit_eq_mod)
  have "uint (drop_bit 32 (word_of_int p :: u64) AND 0xffffffff) = take_bit 32 (drop_bit 32 (take_bit 64 p))"
    unfolding m by (simp add: unsigned_take_bit_eq unsigned_drop_bit_eq uint_word_of_int_eq flip: take_bit_eq_mask)
  also have "\<dots> = take_bit 32 (drop_bit 32 p)"
    by (simp add: drop_bit_take_bit)
  finally have "sint (ucast (drop_bit 32 (word_of_int p :: u64) AND 0xffffffff) :: u32) = signed_take_bit 31 (take_bit 32 (drop_bit 32 p))"
    by (simp add: signed_ucast_eq)
  also have "\<dots> = signed_take_bit 31 (drop_bit 32 p)"
    by (simp add: signed_take_bit_take_bit)
  also have "\<dots> = drop_bit 32 p"
    using assms by (intro signed_take_bit_int_eq_self) (auto simp: drop_bit_eq_div)
  finally show "sint (ucast (drop_bit 32 (word_of_int p :: u64) AND 0xffffffff) :: u32) = p div 2 ^ 32"
    by (simp add: drop_bit_eq_div)
qed

lemma u32_ranges:
  "0 \<le> uint (a :: u32)" "uint a < 2 ^ 32" "- (2 ^ 31) \<le> sint a" "sint a < 2 ^ 31"
  using uint_lt2p [of a] sint_ge [of a] sint_lt [of a] by simp_all

lemma abs_prod_le: "\<bar>x\<bar> \<le> 2 ^ 31 \<Longrightarrow> \<bar>y\<bar> \<le> 2 ^ n \<Longrightarrow> \<bar>x * y\<bar> \<le> 2 ^ (31 + n)" for x y :: int
  unfolding abs_mult power_add by (rule mult_mono) simp_all

lemma prod_ranges:
  "- (2 ^ 63) \<le> sint (a :: u32) * sint (b :: u32)" "sint a * sint b < 2 ^ 63"
  "- (2 ^ 63) \<le> sint a * uint b" "sint a * uint b < 2 ^ 63"
proof -
  have r: "\<bar>sint a\<bar> \<le> 2 ^ 31" "\<bar>sint b\<bar> \<le> 2 ^ 31" "uint b \<le> 2 ^ 32 - 1" "0 \<le> uint b"
    using u32_ranges [of a] u32_ranges [of b] by (auto simp: abs_le_iff)
  have "\<bar>sint a * sint b\<bar> \<le> 2 ^ (31 + 31)" using r by (intro abs_prod_le)
  then show "- (2 ^ 63) \<le> sint a * sint b" "sint a * sint b < 2 ^ 63" by (auto simp: abs_le_iff)
  have "\<bar>sint a * uint b\<bar> \<le> 2 ^ 31 * (2 ^ 32 - 1)"
    unfolding abs_mult using r by (intro mult_mono) auto
  then show "- (2 ^ 63) \<le> sint a * uint b" "sint a * uint b < 2 ^ 63" by (auto simp: abs_le_iff)
qed

lemma uint_of_int_32: "uint (word_of_int p :: u32) = p mod 2 ^ 32"
  by (simp add: uint_word_of_int)

lemma of_int_prods:
  "(word_of_int (sint a * sint b) :: u32) = a * b"
  "(word_of_int (sint a * uint b) :: u32) = a * b"
  "(word_of_int (uint a * uint b) :: u32) = a * b"
  by simp_all

lemma mul_switch_word: "mul_switch Mul_mul a b = a * b"
proof (rule word_eq_iff_unsigned [THEN iffD2])
  have "(scast a :: u64) * scast b = word_of_int (sint a * sint b)" by (simp add: wi_hom_mult [symmetric])
  then have "uint (mul_switch Mul_mul a b) = (sint a * sint b) mod 2 ^ 32"
    using u64_halves(1) [OF prod_ranges(1,2)] by simp
  also have "\<dots> = uint (word_of_int (sint a * sint b) :: u32)" by (rule uint_of_int_32 [symmetric])
  finally show "uint (mul_switch Mul_mul a b) = uint (a * b)" by (simp only: of_int_prods)
qed

lemma mul_low: "uint (mul_switch Mul_mul a b) = (sint a * sint b) mod 2 ^ 32"
  "uint (mul_switch Mul_mul a b) = (sint a * uint b) mod 2 ^ 32"
  "uint (mul_switch Mul_mul a b) = (uint a * uint b) mod 2 ^ 32"
  unfolding mul_switch_word uint_of_int_32 [symmetric] of_int_prods by (rule refl)+

lemma mul_high:
  "sint (mul_switch Mul_mulh a b) = (sint a * sint b) div 2 ^ 32"
  "sint (mul_switch Mul_mulhsu a b) = (sint a * uint b) div 2 ^ 32"
  "uint (mul_switch Mul_mulhu a b) = (uint a * uint b) div 2 ^ 32"
proof -
  have "(scast a :: u64) * scast b = word_of_int (sint a * sint b)"
    "(scast a :: u64) * ucast b = word_of_int (sint a * uint b)" by simp_all
  then show "sint (mul_switch Mul_mulh a b) = (sint a * sint b) div 2 ^ 32"
    "sint (mul_switch Mul_mulhsu a b) = (sint a * uint b) div 2 ^ 32"
    using u64_halves(2) [OF prod_ranges(1,2), of a b] u64_halves(2) [OF prod_ranges(3,4), of a b] by simp_all
  have m: "(0xffffffff :: u64) = mask 32" by (simp add: mask_eq_exp_minus_1)
  have p: "uint a * uint b < 2 ^ 64"
    using mult_strict_mono [of "uint a" "2 ^ 32" "uint b" "2 ^ 32"] u32_ranges [of a] u32_ranges [of b] by simp
  then have "0 \<le> uint a * uint b div 2 ^ 32" "uint a * uint b div 2 ^ 32 < 2 ^ 32"
    by (simp_all add: div_int_pos_iff)
  moreover have "uint ((ucast a :: u64) * ucast b) = uint a * uint b"
    using p by (simp add: uint_word_ariths unsigned_ucast_eq bintr_uint)
  moreover have "uint (drop_bit 32 ((ucast a :: u64) * ucast b)) = uint ((ucast a :: u64) * ucast b) div 2 ^ 32"
    by (subst unsigned_drop_bit_eq) (simp add: drop_bit_eq_div bintr_uint)
  ultimately show "uint (mul_switch Mul_mulhu a b) = (uint a * uint b) div 2 ^ 32"
    unfolding mul_switch.simps m take_bit_eq_mask [symmetric] unsigned_ucast_eq unsigned_take_bit_eq
    by (simp only:) (simp add: take_bit_int_eq_self)
qed

lemma mul_products_eq:
  "sint (mul_switch Mul_mulh a b) * 2 ^ 32 + uint (mul_switch Mul_mul a b) = sint a * sint b"
  "sint (mul_switch Mul_mulhsu a b) * 2 ^ 32 + uint (mul_switch Mul_mul a b) = sint a * uint b"
  "uint (mul_switch Mul_mulhu a b) * 2 ^ 32 + uint (mul_switch Mul_mul a b) = uint a * uint b"
  using mul_low [of a b] mul_high [of a b] by (metis div_mult_mod_eq)+

text \<open>Signed division: only the least integer divided by \<open>-1\<close> leaves the range.\<close>

lemma div_overflow_iff: "div_overflow a b \<longleftrightarrow> sint a = - (2 ^ 31) \<and> sint b = - 1"
proof
  assume o: "sint a = - (2 ^ 31) \<and> sint b = - 1"
  then have "a = word_of_int (- (2 ^ 31))" "b = word_of_int (- 1)"
    by (simp_all only: of_int_sint scast_id flip: conjunct1 [OF o] conjunct2 [OF o])
  then show "div_overflow a b" by (simp add: div_overflow_def)
qed (simp add: div_overflow_def)

lemma sdiv_range:
  assumes "b \<noteq> 0" "\<not> div_overflow a b"
  shows "- (2 ^ 31) \<le> sint a sdiv sint b" "sint a sdiv sint b < 2 ^ 31"
proof -
  have r: "- \<bar>sint a\<bar> \<le> sint a sdiv sint b" "sint a sdiv sint b \<le> \<bar>sint a\<bar>"
    using sdiv_int_range [of "sint a" "sint b"] by simp_all
  then show "- (2 ^ 31) \<le> sint a sdiv sint b" using u32_ranges [of a] by linarith
  show "sint a sdiv sint b < 2 ^ 31"
  proof (rule ccontr)
    assume "\<not> ?thesis"
    with r u32_ranges [of a] have a: "sint a = - (2 ^ 31)" "sint a sdiv sint b = - sint a" by linarith+
    then have "sint b = - 1" using int_sdiv_negated_is_minus1 [of "sint a" "sint b"] by simp
    with a(1) assms(2) show False by (simp add: div_overflow_iff)
  qed
qed

lemma sint_word_of_int: "- (2 ^ 31) \<le> i \<Longrightarrow> i < 2 ^ 31 \<Longrightarrow> sint (word_of_int i :: u32) = i"
  by (simp add: signed_of_int signed_take_bit_int_eq_self)

lemma div_signed:
  assumes "b \<noteq> 0" "\<not> div_overflow a b"
  shows "sint (div_switch Div_div a b) = sint a sdiv sint b" "sint (div_switch Div_rem a b) = sint a smod sint b"
proof -
  show "sint (div_switch Div_div a b) = sint a sdiv sint b"
    using assms sdiv_range [OF assms] by (simp add: sint_word_of_int)
  have "sint b \<noteq> 0" using assms(1) by (simp add: signed_eq_0_iff)
  then have "- \<bar>sint b\<bar> < sint a smod sint b" "sint a smod sint b < \<bar>sint b\<bar>"
    using smod_int_range [of "sint b" "sint a"] by simp_all
  then show "sint (div_switch Div_rem a b) = sint a smod sint b"
    using assms u32_ranges [of b] by (simp add: sint_word_of_int)
qed

section \<open>What the units return\<close>

text \<open>C30: when the arithmetic unit takes a valid instruction from its queue, the packet it
  passes on carries the result that the instruction set gives as integer arithmetic (sums and
  shifts modulo 2 to the 32, signed comparisons, shift amounts modulo 32), belongs to the same
  instruction, has an exception exactly for ecall and ebreak, and is fed back exactly when it writes
  a renamed register and has no exception; the rest of the queue stays.\<close>

theorem alu_run_correct:
  assumes "fifo_inv q" "fifo_items q = r # rest" "\<not> cf_flushing cf"
    and "p_enable r" "p_valid r" "\<not> p_has_exception r" "p_sub_op r = Alu_op x"
  shows "\<exists>t s. alu_run cf q p = Some (t, port_set s p, exec_feedback s)
    \<and> fifo_inv t \<and> fifo_items t = rest \<and> same_instr r s
    \<and> uint (p_rd_value s) = alu_isa x (p_pc r) (p_imm r) (p_src1_value r) (p_src2_value r)
    \<and> p_has_exception s = (x = Alu_ecall \<or> x = Alu_ebreak)
    \<and> (x = Alu_ecall \<longrightarrow> p_exception_id s = environment_call_from_m_mode)
    \<and> (x = Alu_ebreak \<longrightarrow> p_exception_id s = breakpoint)
    \<and> fb_enable (exec_feedback s) = (p_rd_enable r \<and> p_need_rename r \<and> x \<noteq> Alu_ecall \<and> x \<noteq> Alu_ebreak)"
proof -
  define s where "s = alu_switch x r (exec_receive r)"
  have s: "alu_compute r = Some s" using assms by (simp add: alu_compute_def s_def)
  have same: "same_instr r s" unfolding s_def by (rule alu_switch_same) simp
  have exc: "p_has_exception s \<longleftrightarrow> x = Alu_ecall \<or> x = Alu_ebreak"
    using assms unfolding s_def by (simp add: alu_switch_exception)
  have "x = Alu_ecall \<longrightarrow> p_exception_id s = environment_call_from_m_mode"
    "x = Alu_ebreak \<longrightarrow> p_exception_id s = breakpoint" by (simp_all add: s_def)
  moreover have "uint (p_rd_value s) = alu_isa x (p_pc r) (p_imm r) (p_src1_value r) (p_src2_value r)"
    unfolding s_def by (rule alu_switch_isa)
  moreover obtain t where "alu_run cf q p = Some (t, port_set s p, exec_feedback s)" "fifo_inv t" "fifo_items t = rest"
    using alu.run_head [OF assms(1-3) s] unfolding alu_run_def by blast
  ultimately show ?thesis
    using exc same feedback_same(1) [OF same] assms by (intro exI [of _ t] exI [of _ s]) simp
qed

theorem alu_run_correct_witness:
  "\<exists>t s. alu_run commit_feedback_zero (queue_demo (exec_demo (Alu_op Alu_sra) 0x80000000 33)) (port_new execute_wb_zero)
      = Some (t, port_set s (port_new execute_wb_zero), exec_feedback s)
    \<and> fifo_items t = [] \<and> uint (p_rd_value s) = 0xC0000000 \<and> fb_enable (exec_feedback s)"
proof -
  have "alu_isa Alu_sra 0 0 0x80000000 33 = 0xC0000000" by (simp add: shamt_def)
  then show ?thesis
    using alu_run_correct [OF queue_demo_items no_flush, of "exec_demo (Alu_op Alu_sra) 0x80000000 33"
        Alu_sra "port_new execute_wb_zero"] by auto
qed

text \<open>C31: multiplication and division on every pair of words: the low word with each of the three
  high words is the exact 64-bit product (signed, mixed and unsigned); quotient and remainder are
  those of the truncating signed and of the unsigned division, division by zero gives all ones and
  the dividend, and the one signed overflow gives the dividend and zero.\<close>

theorem muldiv_correct:
  "sint (mul_switch Mul_mulh a b) * 2 ^ 32 + uint (mul_switch Mul_mul a b) = sint a * sint b
    \<and> sint (mul_switch Mul_mulhsu a b) * 2 ^ 32 + uint (mul_switch Mul_mul a b) = sint a * uint b
    \<and> uint (mul_switch Mul_mulhu a b) * 2 ^ 32 + uint (mul_switch Mul_mul a b) = uint a * uint b
    \<and> (if b = 0 then div_switch Div_div a b = - 1 \<and> div_switch Div_rem a b = a
        else if sint a = - (2 ^ 31) \<and> sint b = - 1
        then div_switch Div_div a b = a \<and> div_switch Div_rem a b = 0
        else sint (div_switch Div_div a b) = sint a sdiv sint b \<and> sint (div_switch Div_rem a b) = sint a smod sint b)
    \<and> (if b = 0 then div_switch Div_divu a b = - 1 \<and> div_switch Div_remu a b = a
        else uint (div_switch Div_divu a b) = uint a div uint b \<and> uint (div_switch Div_remu a b) = uint a mod uint b)"
proof -
  have "div_switch Div_div a b = a \<and> div_switch Div_rem a b = 0" if "b \<noteq> 0" "div_overflow a b"
    using that by (simp add: div_overflow_def)
  moreover have "sint (div_switch Div_div a b) = sint a sdiv sint b \<and> sint (div_switch Div_rem a b) = sint a smod sint b"
    if "b \<noteq> 0" "\<not> div_overflow a b" using div_signed [OF that] by simp
  ultimately show ?thesis
    unfolding div_overflow_iff [symmetric]
    by (simp only: mul_products_eq) (simp add: uint_div uint_mod)
qed

end
