(* ===== verification/Csr.thy ===== *)
theory Csr
  imports Prelude
begin

text \<open>
  The control and status registers: \<open>component/csr_base.h\<close>, the register classes under
  \<open>component/csr/\<close>, the register numbers of \<open>component/csr_all.h\<close> and the register file
  \<open>component/csrfile.h\<close> with its deferred writes, populated as \<open>init()\<close> of
  \<open>top_source/main.cpp\<close> does.

  Register \<open>charfifo\<close> is the console: its two queues are shared with another thread, and its
  write spins until that thread makes room or sends a character.  In the model a write that would
  have to wait is \<open>None\<close>.
\<close>

section \<open>Register classes\<close>

datatype csr_class =
    mvendorid | marchid | mimpid | mhartid | mconfigptr | mstatus | misa | mie | mtvec
  | mcounteren | mstatush | mscratch | mepc | mcause | mtval | mip | charfifo | finish
  | mcycle | minstret | mcycleh | minstreth | mhpmcounter | mhpmcounterh | pmpcfg | pmpaddr

fun csr_init_value :: "csr_class \<Rightarrow> u32" where
  "csr_init_value marchid = 0x19981001"
| "csr_init_value mimpid = 0x20220201"
| "csr_init_value misa = 0x40001100"
| "csr_init_value finish = 0xFFFFFFFF"
| "csr_init_value _ = 0"

definition mcounteren_filter :: "u32 \<Rightarrow> u32" where "mcounteren_filter v = v AND 0x07"
definition mepc_filter :: "u32 \<Rightarrow> u32" where "mepc_filter v = v AND NOT 0x03"
definition mtvec_filter :: "u32 \<Rightarrow> u32" where "mtvec_filter v = v AND NOT 0x03"
definition mie_filter :: "u32 \<Rightarrow> u32" where "mie_filter v = v AND 0x888"
definition mip_filter :: "u32 \<Rightarrow> u32" where "mip_filter v = v AND 0x888"
definition mstatus_filter :: "u32 \<Rightarrow> u32" where "mstatus_filter v = v AND 0x88"
definition mstatush_filter :: "u32 \<Rightarrow> u32" where "mstatush_filter v = 0"
definition pmpcfg_filter :: "u32 \<Rightarrow> u32" where "pmpcfg_filter v = 0"
definition pmpaddr_filter :: "u32 \<Rightarrow> u32" where "pmpaddr_filter v = 0"

text \<open>The virtual \<open>filter\<close>; for \<open>charfifo\<close> its value only, its effect on the queues is in
  \<open>csrfile_write_item\<close>.\<close>

fun csr_filter :: "csr_class \<Rightarrow> u32 \<Rightarrow> u32" where
  "csr_filter mcounteren v = mcounteren_filter v"
| "csr_filter mepc v = mepc_filter v"
| "csr_filter mtvec v = mtvec_filter v"
| "csr_filter mie v = mie_filter v"
| "csr_filter mip v = mip_filter v"
| "csr_filter mstatus v = mstatus_filter v"
| "csr_filter mstatush v = mstatush_filter v"
| "csr_filter pmpcfg v = pmpcfg_filter v"
| "csr_filter pmpaddr v = pmpaddr_filter v"
| "csr_filter charfifo v = 0"
| "csr_filter _ v = v"

text \<open>\<open>setbit\<close> and \<open>getbit\<close> of \<open>csr_base\<close> on a register object of the class.\<close>

definition csr_setbit :: "csr_class \<Rightarrow> nat \<Rightarrow> bool \<Rightarrow> u32 \<Rightarrow> u32" where
  "csr_setbit c b v x =
     csr_filter c ((x AND NOT (push_bit b 1)) OR push_bit b (if v then 1 else 0))"

definition csr_getbit :: "nat \<Rightarrow> u32 \<Rightarrow> bool" where
  "csr_getbit b x = (x AND push_bit b 1 \<noteq> 0)"

definition mstatus_set_mie :: "bool \<Rightarrow> u32 \<Rightarrow> u32" where "mstatus_set_mie v x = csr_setbit mstatus 3 v x"
definition mstatus_get_mie :: "u32 \<Rightarrow> bool" where "mstatus_get_mie x = csr_getbit 3 x"
definition mstatus_set_mpie :: "bool \<Rightarrow> u32 \<Rightarrow> u32" where "mstatus_set_mpie v x = csr_setbit mstatus 7 v x"
definition mstatus_get_mpie :: "u32 \<Rightarrow> bool" where "mstatus_get_mpie x = csr_getbit 7 x"
definition mie_set_msie :: "bool \<Rightarrow> u32 \<Rightarrow> u32" where "mie_set_msie v x = csr_setbit mie 3 v x"
definition mie_get_msie :: "u32 \<Rightarrow> bool" where "mie_get_msie x = csr_getbit 3 x"
definition mie_set_mtie :: "bool \<Rightarrow> u32 \<Rightarrow> u32" where "mie_set_mtie v x = csr_setbit mie 7 v x"
definition mie_get_mtie :: "u32 \<Rightarrow> bool" where "mie_get_mtie x = csr_getbit 7 x"
definition mie_set_meie :: "bool \<Rightarrow> u32 \<Rightarrow> u32" where "mie_set_meie v x = csr_setbit mie 11 v x"
definition mie_get_meie :: "u32 \<Rightarrow> bool" where "mie_get_meie x = csr_getbit 11 x"
definition mip_set_msip :: "bool \<Rightarrow> u32 \<Rightarrow> u32" where "mip_set_msip v x = csr_setbit mip 3 v x"
definition mip_get_msip :: "u32 \<Rightarrow> bool" where "mip_get_msip x = csr_getbit 3 x"
definition mip_set_mtip :: "bool \<Rightarrow> u32 \<Rightarrow> u32" where "mip_set_mtip v x = csr_setbit mip 7 v x"
definition mip_get_mtip :: "u32 \<Rightarrow> bool" where "mip_get_mtip x = csr_getbit 7 x"
definition mip_set_meip :: "bool \<Rightarrow> u32 \<Rightarrow> u32" where "mip_set_meip v x = csr_setbit mip 11 v x"
definition mip_get_meip :: "u32 \<Rightarrow> bool" where "mip_get_meip x = csr_getbit 11 x"
definition mcounteren_set_cy :: "bool \<Rightarrow> u32 \<Rightarrow> u32" where "mcounteren_set_cy v x = csr_setbit mcounteren 0 v x"
definition mcounteren_get_cy :: "u32 \<Rightarrow> bool" where "mcounteren_get_cy x = csr_getbit 0 x"
definition mcounteren_set_tm :: "bool \<Rightarrow> u32 \<Rightarrow> u32" where "mcounteren_set_tm v x = csr_setbit mcounteren 1 v x"
definition mcounteren_get_tm :: "u32 \<Rightarrow> bool" where "mcounteren_get_tm x = csr_getbit 1 x"
definition mcounteren_set_ir :: "bool \<Rightarrow> u32 \<Rightarrow> u32" where "mcounteren_set_ir v x = csr_setbit mcounteren 2 v x"
definition mcounteren_get_ir :: "u32 \<Rightarrow> bool" where "mcounteren_get_ir x = csr_getbit 2 x"

section \<open>The register file\<close>

record csr_item_t =
  ci_readonly :: bool
  ci_class :: csr_class
  ci_value :: u32

datatype csr_request = Csr_write u32 u32 | Csr_write_sys u32 u32

record csrfile =
  csr_request_q :: "csr_request list"
  csr_map_table :: "u32 \<Rightarrow> csr_item_t option"
  charfifo_send :: "u8 list"
  charfifo_rev :: "u8 list"

definition csrfile_new :: csrfile where
  "csrfile_new = \<lparr>csr_request_q = [], csr_map_table = (\<lambda>_. None), charfifo_send = [], charfifo_rev = []\<rparr>"

definition csrfile_reset :: "csrfile \<Rightarrow> csrfile" where
  "csrfile_reset f = f\<lparr>csr_map_table :=
       (\<lambda>a. map_option (\<lambda>i. i\<lparr>ci_value := csr_init_value (ci_class i)\<rparr>) (csr_map_table f a)),
     csr_request_q := []\<rparr>"

definition csrfile_map :: "u32 \<Rightarrow> bool \<Rightarrow> csr_class \<Rightarrow> csrfile \<Rightarrow> csrfile option" where
  "csrfile_map addr readonly c f = do {
     cassert (csr_map_table f addr = None);
     Some (f\<lparr>csr_map_table := (csr_map_table f)(addr \<mapsto>
       \<lparr>ci_readonly = readonly, ci_class = c, ci_value = csr_init_value c\<rparr>)\<rparr>) }"

text \<open>\<open>csr_map_table[addr].csr->write(value)\<close> and \<open>->read()\<close>.  The console queues hold at most
  1024 characters.\<close>

definition csrfile_write_item :: "u32 \<Rightarrow> u32 \<Rightarrow> csr_item_t \<Rightarrow> csrfile \<Rightarrow> csrfile option" where
  "csrfile_write_item addr v i f = do {
     g \<leftarrow> (if ci_class i = charfifo
          then (if v AND 0x80000000 \<noteq> 0
                then (case charfifo_rev f of [] \<Rightarrow> None | _ # cs \<Rightarrow> Some (f\<lparr>charfifo_rev := cs\<rparr>))
                else (if length (charfifo_send f) < 1024
                      then Some (f\<lparr>charfifo_send := charfifo_send f @ [ucast (v AND 0xff)]\<rparr>) else None))
          else Some f);
     Some (g\<lparr>csr_map_table := (csr_map_table g)(addr \<mapsto>
       i\<lparr>ci_value := csr_filter (ci_class i) v\<rparr>)\<rparr>) }"

definition csrfile_read_item :: "csr_item_t \<Rightarrow> csrfile \<Rightarrow> u32" where
  "csrfile_read_item i f =
     (if ci_class i = charfifo
      then (case charfifo_rev f of [] \<Rightarrow> 0 | c # _ \<Rightarrow> 0x80000000 OR scast c)
      else ci_value i)"

definition csrfile_write_sys :: "u32 \<Rightarrow> u32 \<Rightarrow> csrfile \<Rightarrow> csrfile option" where
  "csrfile_write_sys addr v f =
     (case csr_map_table f addr of None \<Rightarrow> None | Some i \<Rightarrow> csrfile_write_item addr v i f)"

definition csrfile_write_sys_sync :: "u32 \<Rightarrow> u32 \<Rightarrow> csrfile \<Rightarrow> csrfile" where
  "csrfile_write_sys_sync addr v f = f\<lparr>csr_request_q := csr_request_q f @ [Csr_write_sys addr v]\<rparr>"

definition csrfile_read_sys :: "csrfile \<Rightarrow> u32 \<Rightarrow> u32 option" where
  "csrfile_read_sys f addr =
     (case csr_map_table f addr of None \<Rightarrow> None | Some i \<Rightarrow> Some (csrfile_read_item i f))"

definition csrfile_write_check :: "csrfile \<Rightarrow> u32 \<Rightarrow> u32 \<Rightarrow> bool" where
  "csrfile_write_check f addr v =
     (case csr_map_table f addr of None \<Rightarrow> False | Some i \<Rightarrow> \<not> ci_readonly i)"

definition csrfile_write :: "u32 \<Rightarrow> u32 \<Rightarrow> csrfile \<Rightarrow> (bool \<times> csrfile) option" where
  "csrfile_write addr v f =
     (if \<not> csrfile_write_check f addr v then Some (False, f)
      else do { g \<leftarrow> csrfile_write_sys addr v f; Some (True, g) })"

definition csrfile_write_sync :: "u32 \<Rightarrow> u32 \<Rightarrow> csrfile \<Rightarrow> csrfile" where
  "csrfile_write_sync addr v f = f\<lparr>csr_request_q := csr_request_q f @ [Csr_write addr v]\<rparr>"

text \<open>\<open>read\<close> leaves the out-parameter alone and answers false for a register that is not mapped.\<close>

definition csrfile_read :: "csrfile \<Rightarrow> u32 \<Rightarrow> u32 option" where
  "csrfile_read f addr =
     (case csr_map_table f addr of None \<Rightarrow> None | Some i \<Rightarrow> Some (csrfile_read_item i f))"

fun csrfile_apply :: "csr_request \<Rightarrow> csrfile \<Rightarrow> csrfile option" where
  "csrfile_apply (Csr_write addr v) f = do {
     (ok, g) \<leftarrow> csrfile_write addr v f;
     cassert ok;
     Some g }"
| "csrfile_apply (Csr_write_sys addr v) f = csrfile_write_sys addr v f"

definition csrfile_sync :: "csrfile \<Rightarrow> csrfile option" where
  "csrfile_sync f = do {
     g \<leftarrow> fold_opt csrfile_apply (csr_request_q f) f;
     Some (g\<lparr>csr_request_q := []\<rparr>) }"

section \<open>Register numbers and the initial map\<close>

definition CSR_MSTATUS :: u32 where "CSR_MSTATUS = 0x300"
definition CSR_MIE :: u32 where "CSR_MIE = 0x304"
definition CSR_MTVEC :: u32 where "CSR_MTVEC = 0x305"
definition CSR_MEPC :: u32 where "CSR_MEPC = 0x341"
definition CSR_MCAUSE :: u32 where "CSR_MCAUSE = 0x342"
definition CSR_MTVAL :: u32 where "CSR_MTVAL = 0x343"
definition CSR_MIP :: u32 where "CSR_MIP = 0x344"
definition CSR_CHARFIFO :: u32 where "CSR_CHARFIFO = 0x800"
definition CSR_FINISH :: u32 where "CSR_FINISH = 0x804"
definition CSR_MCYCLE :: u32 where "CSR_MCYCLE = 0xB00"
definition CSR_MCYCLEH :: u32 where "CSR_MCYCLEH = 0xB80"
definition CSR_MINSTRET :: u32 where "CSR_MINSTRET = 0xB02"
definition CSR_MINSTRETH :: u32 where "CSR_MINSTRETH = 0xB82"

definition csr_named_list :: "(u32 \<times> bool \<times> csr_class) list" where
  "csr_named_list =
    [(0xf11, True, mvendorid), (0xf12, True, marchid), (0xf13, True, mimpid), (0xf14, True, mhartid),
     (0xf15, True, mconfigptr), (CSR_MSTATUS, False, mstatus), (0x301, False, misa),
     (CSR_MIE, False, mie), (CSR_MTVEC, False, mtvec), (0x306, False, mcounteren),
     (0x310, False, mstatush), (0x340, False, mscratch), (CSR_MEPC, False, mepc),
     (CSR_MCAUSE, False, mcause), (CSR_MTVAL, False, mtval), (CSR_MIP, False, mip),
     (CSR_CHARFIFO, False, charfifo), (CSR_FINISH, False, finish), (CSR_MCYCLE, False, mcycle),
     (CSR_MINSTRET, False, minstret), (CSR_MCYCLEH, False, mcycleh), (CSR_MINSTRETH, False, minstreth),
     (0xB03, True, mhpmcounter), (0xB83, True, mhpmcounterh), (0xB04, True, mhpmcounter),
     (0xB84, True, mhpmcounterh), (0xB05, True, mhpmcounter), (0xB85, True, mhpmcounterh),
     (0xB06, True, mhpmcounter), (0xB86, True, mhpmcounterh), (0xB07, True, mhpmcounter),
     (0xB87, True, mhpmcounterh), (0xB08, True, mhpmcounter), (0xB88, True, mhpmcounterh),
     (0xB09, True, mhpmcounter), (0xB89, True, mhpmcounterh), (0xB0A, True, mhpmcounter),
     (0xB8A, True, mhpmcounterh), (0xB0B, True, mhpmcounter), (0xB8B, True, mhpmcounterh),
     (0xB0C, True, mhpmcounter), (0xB8C, True, mhpmcounterh), (0xB0D, True, mhpmcounter),
     (0xB8D, True, mhpmcounterh), (0xB0E, True, mhpmcounter), (0xB8E, True, mhpmcounterh),
     (0xB0F, True, mhpmcounterh), (0xB8F, True, mhpmcounterh)]"

definition csr_init_list :: "(u32 \<times> bool \<times> csr_class) list" where
  "csr_init_list = csr_named_list
    @ map (\<lambda>i. (0x3A0 + of_nat i, False, pmpcfg)) [0..<16]
    @ map (\<lambda>i. (0x3B0 + of_nat i, False, pmpaddr)) [0..<64]"

definition csrfile_boot :: "csrfile option" where
  "csrfile_boot = fold_opt (\<lambda>(a, ro, c). csrfile_map a ro c) csr_init_list csrfile_new"

section \<open>Legal values\<close>

text \<open>A write-any-read-legal register: writing filters the value, and a filtered value is kept.\<close>

locale warl =
  fixes filt :: "u32 \<Rightarrow> u32"
    and ini :: u32
  assumes filt_idem: "filt (filt v) = filt v"
    and filt_init: "filt ini = ini"
begin

definition legal :: "u32 \<Rightarrow> bool" where
  "legal v = (filt v = v)"

lemma legal_write: "legal (filt v)"
  by (simp add: legal_def filt_idem)

lemma legal_init: "legal ini"
  by (simp add: legal_def filt_init)

lemma legal_run: "legal v \<Longrightarrow> legal (fold (\<lambda>w _. filt w) ws v)"
  by (induction ws arbitrary: v) (simp_all add: legal_write)

end

lemma csr_filter_idem: "csr_filter c (csr_filter c v) = csr_filter c v"
  by (cases c) (simp_all add: mcounteren_filter_def mepc_filter_def mtvec_filter_def mie_filter_def
      mip_filter_def mstatus_filter_def mstatush_filter_def pmpcfg_filter_def pmpaddr_filter_def and.assoc)

lemma csr_filter_init: "csr_filter c (csr_init_value c) = csr_init_value c"
  by (cases c) (simp_all add: mcounteren_filter_def mepc_filter_def mtvec_filter_def mie_filter_def
      mip_filter_def mstatus_filter_def mstatush_filter_def pmpcfg_filter_def pmpaddr_filter_def)

interpretation csr_wr: warl "csr_filter c" "csr_init_value c" for c
  by unfold_locales (rule csr_filter_idem, rule csr_filter_init)

definition csrfile_legal :: "csrfile \<Rightarrow> bool" where
  "csrfile_legal f = (\<forall>a i. csr_map_table f a = Some i \<longrightarrow> csr_wr.legal (ci_class i) (ci_value i))"

lemma csrfile_write_item_fields:
  assumes "csrfile_write_item a v i f = Some g"
  shows "csr_map_table g = (csr_map_table f)(a \<mapsto> i\<lparr>ci_value := csr_filter (ci_class i) v\<rparr>)"
    and "csr_request_q g = csr_request_q f"
    and "ci_class i \<noteq> charfifo \<Longrightarrow> charfifo_rev g = charfifo_rev f \<and> charfifo_send g = charfifo_send f"
  using assms by (auto simp: csrfile_write_item_def bind_eq_Some_conv split: if_splits list.splits)

lemma csrfile_write_item_legal:
  assumes "csrfile_legal f" "csrfile_write_item a v i f = Some g"
  shows "csrfile_legal g"
  using assms(1) csr_wr.legal_write [of "ci_class i" v]
  by (auto simp: csrfile_legal_def csrfile_write_item_fields(1) [OF assms(2)])

interpretation csr_dq: deferred csrfile_apply csrfile_legal "\<lambda>_. True"
proof
  fix f g q
  assume f: "csrfile_legal f" and g: "csrfile_apply q f = Some g"
  show "csrfile_legal g"
  proof (cases q)
    case (Csr_write a v)
    with g csrfile_write_item_legal [OF f] f show ?thesis
      by (auto simp: csrfile_write_def csrfile_write_sys_def csrfile_write_check_def bind_eq_Some_conv
          split: if_splits option.splits)
  next
    case (Csr_write_sys a v)
    with g csrfile_write_item_legal [OF f] show ?thesis
      by (auto simp: csrfile_write_sys_def split: option.splits)
  qed
qed

section \<open>Booting\<close>

fun csr_entry :: "u32 \<times> bool \<times> csr_class \<Rightarrow> u32 \<times> csr_item_t" where
  "csr_entry (a, ro, c) = (a, \<lparr>ci_readonly = ro, ci_class = c, ci_value = csr_init_value c\<rparr>)"

lemma fst_csr_entry [simp]: "fst (csr_entry x) = fst x"
  by (cases x) simp

lemma csrfile_map_all:
  assumes "distinct (map fst xs)" "\<forall>x \<in> set xs. csr_map_table f (fst x) = None"
  shows "\<exists>g. fold_opt (\<lambda>(a, ro, c). csrfile_map a ro c) xs f = Some g
    \<and> csr_map_table g = csr_map_table f ++ map_of (map csr_entry xs)
    \<and> csr_request_q g = csr_request_q f \<and> charfifo_send g = charfifo_send f \<and> charfifo_rev g = charfifo_rev f"
  using assms
proof (induction xs arbitrary: f)
  case (Cons x xs)
  obtain a ro c where x: "x = (a, ro, c)" by (cases x)
  let ?e = "\<lparr>ci_readonly = ro, ci_class = c, ci_value = csr_init_value c\<rparr>"
  let ?f = "f\<lparr>csr_map_table := (csr_map_table f)(a \<mapsto> ?e)\<rparr>"
  have m: "csrfile_map a ro c f = Some ?f" using Cons.prems(2) x by (simp add: csrfile_map_def)
  have d: "distinct (map fst xs)" using Cons.prems(1) by simp
  have "\<forall>y \<in> set xs. csr_map_table ?f (fst y) = None"
    using Cons.prems x by (auto simp: image_iff)
  from Cons.IH [OF d this] obtain g where
    g: "fold_opt (\<lambda>(a, ro, c). csrfile_map a ro c) xs ?f = Some g"
      "csr_map_table g = csr_map_table ?f ++ map_of (map csr_entry xs)"
      "csr_request_q g = csr_request_q ?f" "charfifo_send g = charfifo_send ?f" "charfifo_rev g = charfifo_rev ?f"
    by blast
  have "a \<notin> dom (map_of (map csr_entry xs))"
    using Cons.prems(1) x by (auto simp: dom_map_of_conv_image_fst image_iff)
  then have tbl: "csr_map_table g = csr_map_table f ++ map_of (map csr_entry (x # xs))"
    unfolding g(2) x by (simp add: map_add_upd_left)
  have "fold_opt (\<lambda>(a, ro, c). csrfile_map a ro c) (x # xs) f = Some g" using g(1) m by (simp add: x)
  then show ?case by (intro exI [of _ g] conjI tbl) (use g(3-5) in simp_all)
qed simp

lemma csr_named_distinct: "distinct (map fst csr_named_list)"
  by (simp add: csr_named_list_def CSR_MSTATUS_def CSR_MIE_def CSR_MTVEC_def CSR_MEPC_def CSR_MCAUSE_def
     CSR_MTVAL_def CSR_MIP_def CSR_CHARFIFO_def CSR_FINISH_def CSR_MCYCLE_def CSR_MCYCLEH_def CSR_MINSTRET_def
     CSR_MINSTRETH_def)

lemma csr_named_range: "\<forall>a \<in> set (map fst csr_named_list). unat a < 0x3A0 \<or> 0x3F0 \<le> unat a"
  by (simp add: csr_named_list_def CSR_MSTATUS_def CSR_MIE_def CSR_MTVEC_def CSR_MEPC_def CSR_MCAUSE_def
     CSR_MTVAL_def CSR_MIP_def CSR_CHARFIFO_def CSR_FINISH_def CSR_MCYCLE_def CSR_MCYCLEH_def CSR_MINSTRET_def
     CSR_MINSTRETH_def)

lemma csr_pmp_list:
  "map (\<lambda>i. (0x3A0 + of_nat i :: u32, False, pmpcfg)) [0..<16] @ map (\<lambda>i. (0x3B0 + of_nat i, False, pmpaddr)) [0..<64]
    = map (\<lambda>i. (0x3A0 + of_nat i, False, if i < 16 then pmpcfg else pmpaddr)) [0..<80]" (is "?l = ?r")
proof (rule nth_equalityI)
  show "length ?l = length ?r" by simp
  fix i assume "i < length ?l"
  then have i: "i < 80" by simp
  show "?l ! i = ?r ! i"
  proof (cases "i < 16")
    case False
    then have "(0x3B0 :: u32) + of_nat (i - 16) = 0x3A0 + of_nat i" by (simp add: of_nat_diff)
    with False i show ?thesis by (simp add: nth_append)
  qed (use i in \<open>simp add: nth_append\<close>)
qed

lemma csr_init_distinct: "distinct (map fst csr_init_list)"
proof -
  have u: "unat ((0x3A0 :: u32) + of_nat i) = 0x3A0 + i" if "i < 80" for i
    using that by (simp add: unat_word_ariths unat_of_nat)
  have "inj_on (\<lambda>i. (0x3A0 :: u32) + of_nat i) {0..<80}"
    by (rule inj_onI) (metis atLeastLessThan_iff u add_left_cancel)
  moreover have "set (map fst csr_named_list) \<inter> (\<lambda>i. 0x3A0 + of_nat i) ` {0..<80} = {}"
    using csr_named_range u by force
  ultimately show ?thesis
    using csr_named_distinct unfolding csr_init_list_def csr_pmp_list
    by (simp add: distinct_map comp_def)
qed

definition csrfile_init :: csrfile where
  "csrfile_init = \<lparr>csr_request_q = [], csr_map_table = map_of (map csr_entry csr_init_list),
     charfifo_send = [], charfifo_rev = []\<rparr>"

lemma csrfile_boot_init: "csrfile_boot = Some csrfile_init"
proof -
  have "\<forall>x \<in> set csr_init_list. csr_map_table csrfile_new (fst x) = None"
    by (simp add: csrfile_new_def)
  from csrfile_map_all [OF csr_init_distinct this] obtain g where
    "csrfile_boot = Some g" "csr_map_table g = map_of (map csr_entry csr_init_list)"
    "csr_request_q g = []" "charfifo_send g = []" "charfifo_rev g = []"
    by (auto simp: csrfile_boot_def csrfile_new_def)
  moreover from this have "g = csrfile_init" by (intro csrfile.equality) (simp_all add: csrfile_init_def)
  ultimately show ?thesis by simp
qed

lemma csrfile_init_legal: "csrfile_legal csrfile_init"
proof -
  have "csr_wr.legal (ci_class i) (ci_value i)" if "(a, i) \<in> set (map csr_entry csr_init_list)" for a i
    using that csr_wr.legal_init by auto
  then show ?thesis
    unfolding csrfile_legal_def csrfile_init_def by (auto dest!: map_of_SomeD)
qed

lemma csrfile_init_lookup:
  assumes "(a, ro, c) \<in> set csr_init_list"
  shows "csr_map_table csrfile_init a = Some \<lparr>ci_readonly = ro, ci_class = c, ci_value = csr_init_value c\<rparr>"
proof -
  have "(a, \<lparr>ci_readonly = ro, ci_class = c, ci_value = csr_init_value c\<rparr>) \<in> set (map csr_entry csr_init_list)"
    using assms by force
  moreover have "distinct (map fst (map csr_entry csr_init_list))"
    using csr_init_distinct by (simp add: comp_def)
  ultimately show ?thesis by (simp add: csrfile_init_def)
qed

section \<open>Correctness\<close>

text \<open>The program's \<open>csrfile.write\<close> changes nothing and answers false when the register does not
  exist or is read-only; otherwise (the console aside) it succeeds, the register then reads as the
  filtered value, every other register reads as before, and the same registers exist with the
  same access rights.\<close>

theorem csrfile_write_correct:
  assumes "\<forall>i. csr_map_table f a = Some i \<longrightarrow> ci_class i \<noteq> charfifo"
  shows "\<exists>ok g. csrfile_write a v f = Some (ok, g)
    \<and> (ok \<longleftrightarrow> (\<exists>i. csr_map_table f a = Some i \<and> \<not> ci_readonly i))
    \<and> (\<not> ok \<longrightarrow> g = f)
    \<and> (ok \<longrightarrow> csrfile_read g a = map_option (\<lambda>i. csr_filter (ci_class i) v) (csr_map_table f a))
    \<and> (\<forall>b. b \<noteq> a \<longrightarrow> csrfile_read g b = csrfile_read f b)
    \<and> (\<forall>b w. csrfile_write_check g b w = csrfile_write_check f b w)"
proof (cases "csrfile_write_check f a v")
  case False
  then have "csrfile_write a v f = Some (False, f)" by (simp add: csrfile_write_def)
  with False show ?thesis by (auto simp: csrfile_write_check_def split: option.splits)
next
  case True
  then obtain i where i: "csr_map_table f a = Some i" "\<not> ci_readonly i" "ci_class i \<noteq> charfifo"
    using assms by (auto simp: csrfile_write_check_def split: option.splits)
  let ?g = "f\<lparr>csr_map_table := (csr_map_table f)(a \<mapsto> i\<lparr>ci_value := csr_filter (ci_class i) v\<rparr>)\<rparr>"
  have "csrfile_write a v f = Some (True, ?g)"
    using True i by (simp add: csrfile_write_def csrfile_write_sys_def csrfile_write_item_def)
  with i show ?thesis
    by (auto simp: csrfile_read_def csrfile_read_item_def csrfile_write_check_def split: option.splits)
qed

theorem csrfile_write_correct_witness:
  "\<exists>g. csrfile_write CSR_MEPC 0x80000007 csrfile_init = Some (True, g)
    \<and> csrfile_read g CSR_MEPC = Some 0x80000004"
proof -
  have l: "csr_map_table csrfile_init CSR_MEPC = Some \<lparr>ci_readonly = False, ci_class = mepc, ci_value = csr_init_value mepc\<rparr>"
    by (rule csrfile_init_lookup) (simp add: csr_init_list_def csr_named_list_def)
  then have "\<forall>i. csr_map_table csrfile_init CSR_MEPC = Some i \<longrightarrow> ci_class i \<noteq> charfifo" by simp
  from csrfile_write_correct [where v = "0x80000007", OF this] l show ?thesis
    by (auto simp: mepc_filter_def)
qed

text \<open>C23: after any cycle's deferred writes, from any legal state of the register file (such as the
  one the boot sequence makes), \<open>mstatus\<close>, \<open>mie\<close> and \<open>mip\<close> have no bit outside their
  implemented ones and \<open>mepc\<close> and \<open>mtvec\<close> are word aligned, whatever was written.\<close>

theorem csrfile_sync_legal:
  assumes "csrfile_legal f" "csrfile_sync f = Some g"
  shows "csrfile_legal g \<and> csr_request_q g = []
    \<and> (\<forall>a i. csr_map_table g a = Some i \<longrightarrow>
        (ci_class i = mstatus \<longrightarrow> ci_value i AND NOT 0x88 = 0)
      \<and> (ci_class i = mie \<or> ci_class i = mip \<longrightarrow> ci_value i AND NOT 0x888 = 0)
      \<and> (ci_class i = mepc \<or> ci_class i = mtvec \<longrightarrow> ci_value i AND 3 = 0))"
proof -
  from assms(2) obtain h where h: "fold_opt csrfile_apply (csr_request_q f) f = Some h"
      and g: "g = h\<lparr>csr_request_q := []\<rparr>"
    by (auto simp: csrfile_sync_def bind_eq_Some_conv)
  have "csrfile_legal h" using csr_dq.replay_preserves [OF assms(1) _ h] by simp
  then have leg: "csrfile_legal g" by (simp add: csrfile_legal_def g)
  have mask: "v AND NOT m = 0" if "v AND m = v" for v m :: u32
  proof -
    have "v AND NOT m = (v AND m) AND NOT m" using that by simp
    also have "\<dots> = 0" by (simp add: and.assoc bit.conj_cancel_right)
    finally show ?thesis .
  qed
  have "(ci_class i = mstatus \<longrightarrow> ci_value i AND NOT 0x88 = 0)
      \<and> (ci_class i = mie \<or> ci_class i = mip \<longrightarrow> ci_value i AND NOT 0x888 = 0)
      \<and> (ci_class i = mepc \<or> ci_class i = mtvec \<longrightarrow> ci_value i AND 3 = 0)"
    if "csr_map_table g a = Some i" for a i
  proof -
    have v: "csr_filter (ci_class i) (ci_value i) = ci_value i"
      using leg that unfolding csrfile_legal_def csr_wr.legal_def by blast
    have "ci_class i = mstatus \<Longrightarrow> ci_value i AND NOT 0x88 = 0"
      using v by (intro mask) (simp add: mstatus_filter_def)
    moreover have "ci_class i = mie \<or> ci_class i = mip \<Longrightarrow> ci_value i AND NOT 0x888 = 0"
      using v by (intro mask) (auto simp: mie_filter_def mip_filter_def)
    moreover have "ci_class i = mepc \<or> ci_class i = mtvec \<Longrightarrow> ci_value i AND NOT (NOT 3) = 0"
      using v by (intro mask) (auto simp: mepc_filter_def mtvec_filter_def)
    ultimately show ?thesis by simp
  qed
  with leg g show ?thesis by simp
qed

definition csr_demo :: csrfile where
  "csr_demo = csrfile_write_sync CSR_MSTATUS 0xFFFFFFFF csrfile_init"

theorem csrfile_sync_legal_witness:
  "\<exists>g. csrfile_sync csr_demo = Some g \<and> csrfile_legal g \<and> csr_request_q g = []"
proof -
  have l: "csr_map_table csr_demo CSR_MSTATUS
      = Some \<lparr>ci_readonly = False, ci_class = mstatus, ci_value = csr_init_value mstatus\<rparr>"
    using csrfile_init_lookup [of CSR_MSTATUS False mstatus]
    by (simp add: csr_demo_def csrfile_write_sync_def csr_init_list_def csr_named_list_def)
  have q: "csr_request_q csr_demo = [Csr_write CSR_MSTATUS 0xFFFFFFFF]"
    by (simp add: csr_demo_def csrfile_write_sync_def csrfile_init_def)
  have "csrfile_sync csr_demo \<noteq> None"
    using l q by (simp add: csrfile_sync_def csrfile_write_def csrfile_write_check_def csrfile_write_sys_def
        csrfile_write_item_def)
  then obtain g where g: "csrfile_sync csr_demo = Some g" by blast
  have "csrfile_legal csr_demo"
    using csrfile_init_legal by (simp add: csrfile_legal_def csr_demo_def csrfile_write_sync_def)
  from csrfile_sync_legal [OF this g] g show ?thesis by blast
qed

end
