(* ===== verification/Execute_Csr.thy ===== *)
theory Execute_Csr
  imports Execute_Common Csr
begin

text \<open>
  \<open>pipeline/execute/csr.cpp\<close>: the unit of the six CSR instructions.  It reads the register and
  computes the new value; the write itself is requested by the commit stage.  The member \<open>rev_pack\<close> is
  set before every use, so it is a local value here.
\<close>

text \<open>The first copy leaves out the prediction and checkpoint fields.\<close>

definition csr_receive :: "issue_execute_pack_t \<Rightarrow> execute_wb_pack_t" where
  "csr_receive r = execute_wb_zero\<lparr>
     p_enable := p_enable r, p_value := p_value r, p_valid := p_valid r, p_rob_id := p_rob_id r,
     p_pc := p_pc r, p_imm := p_imm r,
     p_has_exception := p_has_exception r, p_exception_id := p_exception_id r,
     p_exception_value := p_exception_value r,
     p_rs1 := p_rs1 r, p_arg1_src := p_arg1_src r, p_rs1_need_map := p_rs1_need_map r,
     p_rs1_phy := p_rs1_phy r, p_src1_value := p_src1_value r, p_src1_loaded := p_src1_loaded r,
     p_rs2 := p_rs2 r, p_arg2_src := p_arg2_src r, p_rs2_need_map := p_rs2_need_map r,
     p_rs2_phy := p_rs2_phy r, p_src2_value := p_src2_value r, p_src2_loaded := p_src2_loaded r,
     p_rd := p_rd r, p_rd_enable := p_rd_enable r, p_need_rename := p_need_rename r,
     p_rd_phy := p_rd_phy r,
     p_csr := p_csr r, p_op := p_op r, p_op_unit := p_op_unit r, p_sub_op := p_sub_op r\<rparr>"

fun csr_newvalue :: "csr_op_t \<Rightarrow> u32 \<Rightarrow> u32 \<Rightarrow> u32" where
  "csr_newvalue Csrop_csrrc old src1 = old AND NOT src1"
| "csr_newvalue Csrop_csrrs old src1 = old OR src1"
| "csr_newvalue Csrop_csrrw old src1 = src1"

definition csr_valid_compute :: "csrfile \<Rightarrow> issue_execute_pack_t \<Rightarrow> execute_wb_pack_t \<Rightarrow> execute_wb_pack_t option" where
  "csr_valid_compute f r s =
     (case csrfile_read f (p_csr r) of
        None \<Rightarrow> Some (raise illegal_instruction 0 s)
      | Some old \<Rightarrow>
          let s = s\<lparr>p_rd_value := old, p_csr_newvalue_valid := False\<rparr> in
          if \<not> (p_arg1_src s = Arg_reg \<and> \<not> p_rs1_need_map s) then do {
            x \<leftarrow> as_csr (p_sub_op r);
            let new = csr_newvalue x old (p_src1_value r);
            Some (if \<not> csrfile_write_check f (p_csr r) new
                  then raise illegal_instruction (p_value r) s
                  else s\<lparr>p_csr_newvalue := new, p_csr_newvalue_valid := True\<rparr>) }
          else Some s)"

definition csr_compute :: "csrfile \<Rightarrow> issue_execute_pack_t \<Rightarrow> execute_wb_pack_t option" where
  "csr_compute f r =
     (if p_enable r
      then if p_valid r then csr_valid_compute f r (csr_receive r) else Some (exec_receive r)
      else Some (csr_receive r))"

definition feedback_none :: execute_feedback_channel_t where
  "feedback_none = \<lparr>fb_enable = False, fb_phy_id = 0, fb_value = 0\<rparr>"

text \<open>While flushing only \<open>enable\<close> of the feedback is set; the other fields are not read then.\<close>

definition csr_run ::
  "csrfile \<Rightarrow> commit_feedback_pack_t \<Rightarrow> exec_queue \<Rightarrow> wb_port \<Rightarrow> (exec_queue \<times> wb_port \<times> execute_feedback_channel_t) option" where
  "csr_run f cf q p = do {
     (q, send, fb) \<leftarrow> (if \<not> cf_flushing cf
       then do {
         (q, send) \<leftarrow> (if \<not> fifo_is_empty q
           then (case fifo_pop q of
                   (None, _) \<Rightarrow> None
                 | (Some rev_pack, q) \<Rightarrow> do { send \<leftarrow> csr_compute f rev_pack; Some (q, send) })
           else Some (q, execute_wb_zero));
         Some (q, send, exec_feedback send) }
       else Some (q, execute_wb_zero, feedback_none));
     Some (q, port_set send p, fb) }"

definition csr_accepts :: "issue_execute_pack_t \<Rightarrow> bool" where
  "csr_accepts r = (p_enable r \<and> p_valid r \<longrightarrow> as_csr (p_sub_op r) \<noteq> None)"

lemma csr_receive_same [simp]: "same_instr r (csr_receive r)"
  by (simp add: same_instr_def csr_receive_def)

lemma csr_receive_simps [simp]:
  "p_arg1_src (csr_receive r) = p_arg1_src r" "p_rs1_need_map (csr_receive r) = p_rs1_need_map r"
  "p_has_exception (csr_receive r) = p_has_exception r" "p_csr_newvalue_valid (csr_receive r) = False"
  by (simp_all add: csr_receive_def execute_wb_zero_def)

text \<open>The register file is not changed by the unit, so the contract holds for every one.\<close>

lemma csr_computes: "csr_accepts r \<Longrightarrow> \<exists>s. csr_compute f r = Some s \<and> same_instr r s"
  by (auto simp: csr_accepts_def csr_compute_def csr_valid_compute_def Let_def split: option.splits)

interpretation csru: exec_unit "csr_compute f" csr_accepts for f
  by unfold_locales (rule csr_computes)

lemma csr_run_exec:
  "\<not> cf_flushing cf \<Longrightarrow> csr_run f cf q p = exec_run (csr_compute f) cf q p"
  by (simp add: csr_run_def exec_run_def Option.bind_assoc split_def)

section \<open>Access rules\<close>

text \<open>The specification of a CSR access: the old value is returned; a register that is only read (no
  source register) is not written; reading an absent register, or writing a read-only or absent one,
  is an illegal instruction.\<close>

definition csr_writes :: "issue_execute_pack_t \<Rightarrow> bool" where
  "csr_writes r = (p_arg1_src r = Arg_reg \<longrightarrow> p_rs1_need_map r)"

definition csr_illegal :: "csrfile \<Rightarrow> issue_execute_pack_t \<Rightarrow> bool" where
  "csr_illegal f r =
     (case csr_map_table f (p_csr r) of None \<Rightarrow> True | Some i \<Rightarrow> ci_readonly i \<and> csr_writes r)"

lemma csr_valid_compute_cases:
  assumes "as_csr (p_sub_op r) = Some x"
  shows "\<exists>s. csr_valid_compute f r (csr_receive r) = Some s
    \<and> p_has_exception s = (p_has_exception r \<or> csr_illegal f r)
    \<and> (\<not> csr_illegal f r \<longrightarrow>
        Some (p_rd_value s) = csrfile_read f (p_csr r) \<and> p_csr_newvalue_valid s = csr_writes r
        \<and> (csr_writes r \<longrightarrow> p_csr_newvalue s = csr_newvalue x (p_rd_value s) (p_src1_value r)))
    \<and> (csr_illegal f r \<longrightarrow> p_exception_id s = illegal_instruction \<and> \<not> p_csr_newvalue_valid s)"
  using assms
  by (auto simp: csr_valid_compute_def csr_illegal_def csr_writes_def csrfile_read_def csrfile_write_check_def Let_def
      raise_def split: option.splits)

text \<open>The CSR unit raises an illegal instruction exactly when the register does not exist,
  or is read-only and the instruction writes; otherwise it returns the old value of the register
  and asks for the write of the new one (set, cleared or replaced bits) exactly when the
  instruction has a source to write.  Nothing is fed back after an exception.\<close>

theorem csr_run_correct:
  assumes "fifo_inv q" "fifo_items q = r # rest" "\<not> cf_flushing cf"
    and "p_enable r" "p_valid r" "\<not> p_has_exception r" "p_sub_op r = Csr_op x"
  shows "\<exists>t s. csr_run f cf q p = Some (t, port_set s p, exec_feedback s)
    \<and> fifo_inv t \<and> fifo_items t = rest \<and> same_instr r s
    \<and> (if csr_illegal f r
       then p_has_exception s \<and> p_exception_id s = illegal_instruction \<and> \<not> p_csr_newvalue_valid s
         \<and> \<not> fb_enable (exec_feedback s)
       else \<not> p_has_exception s \<and> Some (p_rd_value s) = csrfile_read f (p_csr r)
         \<and> p_csr_newvalue_valid s = csr_writes r
         \<and> (csr_writes r \<longrightarrow> p_csr_newvalue s = csr_newvalue x (p_rd_value s) (p_src1_value r))
         \<and> fb_enable (exec_feedback s) = (p_rd_enable r \<and> p_need_rename r))"
proof -
  have "as_csr (p_sub_op r) = Some x" using assms by simp
  from csr_valid_compute_cases [OF this, of f] obtain s where
    v: "csr_valid_compute f r (csr_receive r) = Some s"
    and exc: "p_has_exception s \<longleftrightarrow> csr_illegal f r"
    and ok: "\<not> csr_illegal f r \<Longrightarrow> Some (p_rd_value s) = csrfile_read f (p_csr r) \<and> p_csr_newvalue_valid s = csr_writes r
        \<and> (csr_writes r \<longrightarrow> p_csr_newvalue s = csr_newvalue x (p_rd_value s) (p_src1_value r))"
    and bad: "csr_illegal f r \<Longrightarrow> p_exception_id s = illegal_instruction \<and> \<not> p_csr_newvalue_valid s"
    using assms by auto
  have s: "csr_compute f r = Some s" using v assms by (simp add: csr_compute_def)
  moreover have "csr_accepts r" using assms by (simp add: csr_accepts_def)
  ultimately have same: "same_instr r s" using csr_computes [of r f] by auto
  obtain t where "csr_run f cf q p = Some (t, port_set s p, exec_feedback s)" "fifo_inv t" "fifo_items t = rest"
    using csru.run_head [OF assms(1-3) s] unfolding csr_run_exec [OF assms(3)] by blast
  then show ?thesis
    using exc ok bad same feedback_same(1) [OF same] assms by (intro exI [of _ t] exI [of _ s]) simp
qed

text \<open>Setting a bit of \<open>mstatus\<close>, and writing the read-only \<open>mvendorid\<close>.\<close>

definition csr_packet :: "u32 \<Rightarrow> csr_op_t \<Rightarrow> u32 \<Rightarrow> issue_execute_pack_t" where
  "csr_packet a x v = (exec_demo (Csr_op x) v 0)\<lparr>p_csr := a, p_arg1_src := Arg_imm\<rparr>"

lemma csr_packet_simps:
  "p_enable (csr_packet a x v)" "p_valid (csr_packet a x v)" "\<not> p_has_exception (csr_packet a x v)"
  "p_sub_op (csr_packet a x v) = Csr_op x" "p_csr (csr_packet a x v) = a" "csr_writes (csr_packet a x v)"
  "p_src1_value (csr_packet a x v) = v"
  by (simp_all add: csr_packet_def csr_writes_def)

theorem csr_run_correct_witness:
  "(\<exists>t s. csr_run csrfile_init commit_feedback_zero (queue_demo (csr_packet CSR_MSTATUS Csrop_csrrs 8)) (port_new execute_wb_zero)
      = Some (t, port_set s (port_new execute_wb_zero), exec_feedback s)
     \<and> \<not> p_has_exception s \<and> p_csr_newvalue s = 8)
   \<and> (\<exists>t s. csr_run csrfile_init commit_feedback_zero (queue_demo (csr_packet 0xF11 Csrop_csrrw 8)) (port_new execute_wb_zero)
      = Some (t, port_set s (port_new execute_wb_zero), exec_feedback s)
     \<and> p_exception_id s = illegal_instruction)"
proof -
  note run = csr_run_correct [OF queue_demo_items no_flush csr_packet_simps(1-4)]
  have "\<not> csr_illegal csrfile_init (csr_packet CSR_MSTATUS Csrop_csrrs 8)"
    "csrfile_read csrfile_init CSR_MSTATUS = Some 0" "csr_illegal csrfile_init (csr_packet 0xF11 Csrop_csrrw 8)"
    by (simp_all add: csr_illegal_def csr_packet_simps csrfile_read_def csrfile_init_def csr_init_list_def
        csr_named_list_def CSR_MSTATUS_def csrfile_read_item_def)
  then show ?thesis
    using run [of csrfile_init CSR_MSTATUS Csrop_csrrs 8 "port_new execute_wb_zero"]
      run [of csrfile_init "0xF11" Csrop_csrrw 8 "port_new execute_wb_zero"]
    by (auto simp: csr_packet_simps)
qed

end
