(* ===== verification/Walk.thy ===== *)
theory Walk
  imports Ring
begin

text \<open>
  Loops over the live slots of a ring: several components visit the slots from the oldest one with
  \<open>do ... while(get_next_id(cur, &cur) && (cur != first))\<close>.  The loop is given once, with fuel;
  a run with as much fuel as the ring has slots is the fold of its body over the live slots.
\<close>

text \<open>A cursor is the slot number, with the lap bit in the loop that tracks it.  The body answers
  whether it left the loop with \<open>break\<close>.\<close>

fun do_while_ids :: "nat \<Rightarrow> ('s \<Rightarrow> 'i \<Rightarrow> (bool \<times> 'i) option) \<Rightarrow> ('i \<Rightarrow> nat) \<Rightarrow> nat
    \<Rightarrow> ('i \<Rightarrow> 's \<Rightarrow> (bool \<times> 's) option) \<Rightarrow> 'i \<Rightarrow> 's \<Rightarrow> 's option" where
  "do_while_ids 0 nxt ident first body cur s = None"
| "do_while_ids (Suc fuel) nxt ident first body cur s = do {
     (brk, s) \<leftarrow> body cur s;
     if brk then Some s
     else do {
       (more, cur) \<leftarrow> nxt s cur;
       if more \<and> ident cur \<noteq> first then do_while_ids fuel nxt ident first body cur s else Some s } }"

fun fold_brk :: "('i \<Rightarrow> 's \<Rightarrow> (bool \<times> 's) option) \<Rightarrow> 'i list \<Rightarrow> 's \<Rightarrow> 's option" where
  "fold_brk body [] s = Some s"
| "fold_brk body (i # is) s = do { (brk, s) \<leftarrow> body i s; if brk then Some s else fold_brk body is s }"

lemma do_while_ids_fold:
  assumes "cs \<noteq> []" "length cs \<le> fuel" "P s"
    and nxt: "\<And>s k. P s \<Longrightarrow> k + 1 < length cs \<Longrightarrow> nxt s (cs ! k) = Some (True, cs ! (k + 1))"
    and lst: "\<And>s. P s \<Longrightarrow> \<exists>m c. nxt s (last cs) = Some (m, c) \<and> (m \<longrightarrow> ident c = first)"
    and dis: "\<And>c. c \<in> set (tl cs) \<Longrightarrow> ident c \<noteq> first"
    and keep: "\<And>c s b t. c \<in> set cs \<Longrightarrow> P s \<Longrightarrow> body c s = Some (b, t) \<Longrightarrow> P t"
  shows "do_while_ids fuel nxt ident first body (hd cs) s = fold_brk body cs s"
  using assms
proof (induction cs arbitrary: fuel s)
  case Nil
  then show ?case by blast
next
  case (Cons c cs)
  from Cons.prems(2) obtain fuel' where fuel: "fuel = Suc fuel'" "length cs \<le> fuel'" by (cases fuel) auto
  show ?case
  proof (cases "body c s")
    case None
    then show ?thesis by (simp add: fuel)
  next
    case (Some r)
    then obtain b t where r: "body c s = Some (b, t)" by (cases r) auto
    have t: "P t" using Cons.prems(3) Cons.prems(7) [OF _ _ r] by simp
    show ?thesis
    proof (cases "cs = []")
      case True
      with Cons.prems(5) [OF t] r show ?thesis by (auto simp: fuel)
    next
      case False
      have n: "nxt t c = Some (True, hd cs)"
        using Cons.prems(4) [OF t, of 0] False by (simp add: hd_conv_nth)
      have first: "ident (hd cs) \<noteq> first" using Cons.prems(6) False by simp
      have "do_while_ids fuel' nxt ident first body (hd cs) t = fold_brk body cs t"
      proof (rule Cons.IH [OF False fuel(2) t])
        fix u k assume "P u" "k + 1 < length cs"
        with Cons.prems(4) [of u "Suc k"] show "nxt u (cs ! k) = Some (True, cs ! (k + 1))" by simp
      next
        fix u assume "P u"
        with Cons.prems(5) [of u] False show "\<exists>m c. nxt u (last cs) = Some (m, c) \<and> (m \<longrightarrow> ident c = first)"
          by simp
      next
        fix x assume "x \<in> set (tl cs)"
        then show "ident x \<noteq> first" using Cons.prems(6) [of x] by (simp add: list.set_sel(2) False)
      next
        fix x u b v assume "x \<in> set cs" "P u" "body x u = Some (b, v)"
        with Cons.prems(7) [of x u b v] show "P v" by simp
      qed
      with n first r show ?thesis by (auto simp: fuel)
    qed
  qed
qed

section \<open>Slots with their lap bit\<close>

definition ring_next_stage :: "('a, 'z) fifo_scheme \<Rightarrow> nat \<times> bool \<Rightarrow> (bool \<times> nat \<times> bool) option" where
  "ring_next_stage f c = (case c of (i, stage) \<Rightarrow> do {
     cassert (ring_check_id_valid f i);
     let next_id = (i + 1) mod qsize f;
     let next_stage = ((i + 1 \<ge> qsize f) \<noteq> stage);
     Some (ring_check_id_valid f next_id, next_id, next_stage) })"

definition ring_cursors :: "('a, 'z) fifo_scheme \<Rightarrow> (nat \<times> bool) list" where
  "ring_cursors f = map (\<lambda>k. ((rptr f + k) mod qsize f, (rptr f + k \<ge> qsize f) \<noteq> rstage f)) [0..<length (ring_ids f)]"

lemma ring_cursors_ids: "fifo_inv f \<Longrightarrow> map fst (ring_cursors f) = ring_ids f"
  by (rule nth_equalityI) (simp_all add: ring_cursors_def ring_ids_nth)

lemma ring_cursors_length [simp]: "length (ring_cursors f) = length (ring_ids f)"
  by (simp add: ring_cursors_def)

lemma ring_next_stage_step:
  assumes "fifo_inv f" "k < length (ring_ids f)"
  shows "ring_next_stage f (ring_cursors f ! k) =
    Some (k + 1 < length (ring_ids f) \<or> length (ring_ids f) = qsize f,
       (rptr f + (k + 1)) mod qsize f, (rptr f + (k + 1) \<ge> qsize f) \<noteq> rstage f)"
proof -
  have r: "rptr f < qsize f" "length (ring_ids f) \<le> qsize f"
    using assms(1) ring_ids_le by (auto simp: fifo_inv_def ring_ok_def)
  have c: "ring_cursors f ! k = (ring_ids f ! k, (rptr f + k \<ge> qsize f) \<noteq> rstage f)"
    using assms by (simp add: ring_cursors_def ring_ids_nth)
  have i: "ring_ids f ! k = (if rptr f + k \<ge> qsize f then rptr f + k - qsize f else rptr f + k)"
    using assms r by (simp add: ring_ids_nth mod_if)
  have st: "(ring_ids f ! k + 1 \<ge> qsize f) = (rptr f + k + 1 = qsize f)"
    using i r assms(2) by auto
  let ?m = "(rptr f + (k + 1)) mod qsize f"
  have m: "(ring_ids f ! k + 1) mod qsize f = ?m"
    using assms by (simp add: ring_ids_nth mod_Suc_eq)
  have lap: "((ring_ids f ! k + 1 \<ge> qsize f) \<noteq> ((rptr f + k \<ge> qsize f) \<noteq> rstage f))
      = ((rptr f + (k + 1) \<ge> qsize f) \<noteq> rstage f)"
    using st by auto
  have v: "ring_check_id_valid f (ring_ids f ! k)" using assms by (simp add: ring_ids_valid)
  then have e: "Some (ring_check_id_valid f ?m, ?m) = ring_get_next_id f (ring_ids f ! k)"
    using m by (simp add: ring_get_next_id_def Let_def)
  have nv: "ring_check_id_valid f ?m = (k + 1 < length (ring_ids f) \<or> length (ring_ids f) = qsize f)"
    using e [unfolded ring_next_id_step [OF assms] option.inject prod.inject] by (rule conjunct1)
  have "ring_next_stage f (ring_cursors f ! k)
      = Some (ring_check_id_valid f ?m, ?m, (ring_ids f ! k + 1 \<ge> qsize f) \<noteq> ((rptr f + k \<ge> qsize f) \<noteq> rstage f))"
    unfolding c ring_next_stage_def by (simp only: prod.case v cassert_simps bind.simps Let_def m)
  then show ?thesis unfolding lap nv .
qed

text \<open>Moving the write pointer back to a live slot drops that slot and the younger ones.\<close>

lemma ring_truncate:
  assumes "fifo_inv f" "\<not> pop_status_save f" "k < length (ring_ids f)" "ring_cursors f ! k = (i, st)"
  shows "fifo_inv (f\<lparr>wptr := i, wstage := st\<rparr>)"
    and "ring_ids (f\<lparr>wptr := i, wstage := st\<rparr>) = take k (ring_ids f)"
proof -
  let ?g = "f\<lparr>wptr := i, wstage := st\<rparr>"
  have r: "rptr f < qsize f" "length (ring_ids f) \<le> qsize f" "length (buffer f) = qsize f"
    using assms(1) ring_ids_le by (auto simp: fifo_inv_def ring_ok_def)
  have c: "i = (rptr f + k) mod qsize f" "st = ((rptr f + k \<ge> qsize f) \<noteq> rstage f)"
    using assms(3,4) by (auto simp: ring_cursors_def)
  have kb: "k < qsize f" using assms(3) r by simp
  show inv: "fifo_inv ?g"
    using r kb c assms(2) by (auto simp: fifo_inv_def ring_ok_def mod_if)
  have len: "length (ring_ids ?g) = k"
    using r kb c by (auto simp: ring_ids_def id_span_def mod_if)
  show "ring_ids ?g = take k (ring_ids f)"
  proof (rule nth_equalityI)
    show "length (ring_ids ?g) = length (take k (ring_ids f))" using len assms(3) by simp
  next
    fix j assume "j < length (ring_ids ?g)"
    with len inv assms(1,3) show "ring_ids ?g ! j = take k (ring_ids f) ! j"
      by (simp add: ring_ids_nth)
  qed
qed

text \<open>Rewriting the slots moves none of them.\<close>

lemma ring_ids_buffer [simp]: "ring_ids (f\<lparr>buffer := b\<rparr>) = ring_ids f"
  by (simp add: ring_ids_def)

lemma fifo_inv_buffer [simp]: "length b = qsize f \<Longrightarrow> fifo_inv f \<Longrightarrow> fifo_inv (f\<lparr>buffer := b\<rparr>)"
  by (auto simp: fifo_inv_def)

lemma ring_cursors_buffer [simp]: "ring_cursors (f\<lparr>buffer := b\<rparr>) = ring_cursors f"
  by (simp add: ring_cursors_def)

lemma ring_next_stage_buffer [simp]: "ring_next_stage (f\<lparr>buffer := b\<rparr>) = ring_next_stage f"
proof -
  have "ring_check_id_valid (f\<lparr>buffer := b\<rparr>) i = ring_check_id_valid f i" for i
    by (simp add: ring_check_id_valid_def fifo_is_empty_def cong: if_cong)
  then show ?thesis by (intro ext) (simp add: ring_next_stage_def)
qed

section \<open>The two loops as folds\<close>

text \<open>\<open>Q\<close> is what the loop body keeps: the part of its state that holds the ring has the same slots.\<close>

lemma do_while_ring:
  assumes "fifo_inv (ring s)" "ring_ids (ring s) \<noteq> []" "length (ring_ids (ring s)) \<le> fuel"
    and keep: "\<And>c t b u. c \<in> set (ring_ids (ring s)) \<Longrightarrow> fifo_inv (ring t) \<Longrightarrow> ring_ids (ring t) = ring_ids (ring s)
      \<Longrightarrow> qsize (ring t) = qsize (ring s) \<Longrightarrow> body c t = Some (b, u) \<Longrightarrow>
      fifo_inv (ring u) \<and> ring_ids (ring u) = ring_ids (ring s) \<and> qsize (ring u) = qsize (ring s)"
  shows "do_while_ids fuel (\<lambda>s. ring_get_next_id (ring s)) (\<lambda>i. i) (rptr (ring s)) body (rptr (ring s)) s
    = fold_brk body (ring_ids (ring s)) s"
proof -
  let ?ids = "ring_ids (ring s)"
  let ?P = "\<lambda>t. fifo_inv (ring t) \<and> ring_ids (ring t) = ?ids \<and> qsize (ring t) = qsize (ring s)"
  have hd: "hd ?ids = rptr (ring s)" using assms(1,2) by (simp add: hd_conv_nth ring_ids_hd)
  have "do_while_ids fuel (\<lambda>s. ring_get_next_id (ring s)) (\<lambda>i. i) (rptr (ring s)) body (hd ?ids) s
    = fold_brk body ?ids s"
  proof (rule do_while_ids_fold [where P = ?P])
    show "?ids \<noteq> []" "length ?ids \<le> fuel" "?P s" using assms(1-3) by auto
  next
    fix t k assume "?P t" "k + 1 < length ?ids"
    then show "ring_get_next_id (ring t) (?ids ! k) = Some (True, ?ids ! (k + 1))"
      using ring_next_id_step [of "ring t" k] by simp
  next
    fix t assume t: "?P t"
    let ?k = "length ?ids - 1"
    have k: "?k < length ?ids" "last ?ids = ?ids ! ?k" "\<not> ?k + 1 < length ?ids"
      using assms(2) by (simp_all add: last_conv_nth)
    have "ring_get_next_id (ring t) (last ?ids) = Some (length ?ids = qsize (ring s), wptr (ring t))"
      using ring_next_id_step [of "ring t" ?k] t k by (simp del: One_nat_def)
    moreover have "wptr (ring t) = rptr (ring s)" if "length ?ids = qsize (ring s)"
    proof -
      have "wptr (ring t) = (rptr (ring t) + qsize (ring t)) mod qsize (ring t)"
        using ring_wptr_slot [of "ring t"] t that by simp
      also have "\<dots> = rptr (ring t)" using t by (simp add: fifo_inv_def ring_ok_def)
      also have "\<dots> = ring_ids (ring t) ! 0" using ring_ids_hd [of "ring t"] t assms(2) by simp
      also have "\<dots> = rptr (ring s)" using ring_ids_hd [OF assms(1)] t assms(2) by simp
      finally show ?thesis .
    qed
    ultimately show "\<exists>m c. ring_get_next_id (ring t) (last ?ids) = Some (m, c) \<and> (m \<longrightarrow> c = rptr (ring s))"
      by blast
  next
    fix c assume "c \<in> set (tl ?ids)"
    then show "c \<noteq> rptr (ring s)"
      using ring_ids_distinct [OF assms(1)] hd assms(2) by (cases ?ids) auto
  next
    fix c t b u assume "c \<in> set ?ids" "?P t" "body c t = Some (b, u)"
    then show "?P u" using keep by blast
  qed
  then show ?thesis by (simp only: hd)
qed

lemma do_while_ring_stage:
  assumes "fifo_inv f" "ring_ids f \<noteq> []" "length (ring_ids f) \<le> fuel"
  shows "do_while_ids fuel (\<lambda>_. ring_next_stage f) fst (rptr f) body (rptr f, rstage f) s
    = fold_brk body (ring_cursors f) s"
proof -
  let ?cs = "ring_cursors f"
  have r: "rptr f < qsize f" using assms(1) by (simp add: fifo_inv_def ring_ok_def)
  have ne: "?cs \<noteq> []" using assms(2) by (metis ring_cursors_length length_0_conv)
  have hd: "hd ?cs = (rptr f, rstage f)"
    using r assms(2) by (simp add: ring_cursors_def hd_map upt_conv_Cons)
  have "do_while_ids fuel (\<lambda>_. ring_next_stage f) fst (rptr f) body (hd ?cs) s = fold_brk body ?cs s"
  proof (rule do_while_ids_fold [where P = "\<lambda>_. True"])
    show "?cs \<noteq> []" "length ?cs \<le> fuel" "True" using ne assms(3) by simp_all
  next
    fix k assume k: "k + 1 < length ?cs"
    have "ring_cursors f ! (k + 1) = ((rptr f + (k + 1)) mod qsize f, (rptr f + (k + 1) \<ge> qsize f) \<noteq> rstage f)"
      using k by (simp add: ring_cursors_def)
    with k show "ring_next_stage f (?cs ! k) = Some (True, ?cs ! (k + 1))"
      using ring_next_stage_step [OF assms(1), of k] by simp
  next
    let ?k = "length (ring_ids f) - 1"
    have k: "?k < length (ring_ids f)" "last ?cs = ?cs ! ?k" "\<not> ?k + 1 < length (ring_ids f)" "?k + 1 = length (ring_ids f)"
      using assms(2) ne by (simp_all add: last_conv_nth)
    have "ring_next_stage f (last ?cs) = Some (length (ring_ids f) = qsize f,
        (rptr f + length (ring_ids f)) mod qsize f, (rptr f + length (ring_ids f) \<ge> qsize f) \<noteq> rstage f)"
      using ring_next_stage_step [OF assms(1) k(1)] k by (simp del: One_nat_def)
    then show "\<exists>m c. ring_next_stage f (last ?cs) = Some (m, c) \<and> (m \<longrightarrow> fst c = rptr f)"
      using r by auto
  next
    fix c assume "c \<in> set (tl ?cs)"
    moreover have "tl (ring_ids f) = map fst (tl ?cs)"
      by (simp only: ring_cursors_ids [OF assms(1), symmetric] map_tl)
    ultimately have "fst c \<in> set (tl (ring_ids f))" by simp
    then show "fst c \<noteq> rptr f"
      using ring_ids_distinct [OF assms(1)] ring_ids_hd [OF assms(1,2)] assms(2)
      by (cases "ring_ids f") auto
  qed simp
  then show ?thesis by (simp only: hd)
qed

section \<open>Folds without and with an exit\<close>

text \<open>An invariant of the turns of a loop that may end early.\<close>

lemma fold_brk_prefix:
  assumes "I 0 s" "\<And>k s. k < length xs \<Longrightarrow> I k s \<Longrightarrow> \<exists>b t. body (xs ! k) s = Some (b, t) \<and> (if b then Q t else I (Suc k) t)"
    and "\<And>s. I (length xs) s \<Longrightarrow> Q s"
  shows "\<exists>t. fold_brk body xs s = Some t \<and> Q t"
  using assms
proof (induction xs arbitrary: I s)
  case (Cons x xs)
  from Cons.prems(2) [of 0 s] Cons.prems(1) obtain b t where b: "body x s = Some (b, t)" "if b then Q t else I (Suc 0) t" by auto
  show ?case
  proof (cases b)
    case False
    have "\<exists>u. fold_brk body xs t = Some u \<and> Q u"
    proof (rule Cons.IH [of "\<lambda>k. I (Suc k)"])
      show "I (Suc 0) t" using b False by simp
    next
      fix k u assume "k < length xs" "I (Suc k) u"
      with Cons.prems(2) [of "Suc k" u]
      show "\<exists>b t. body (xs ! k) u = Some (b, t) \<and> (if b then Q t else I (Suc (Suc k)) t)" by simp
    next
      fix u assume "I (Suc (length xs)) u"
      with Cons.prems(3) [of u] show "Q u" by simp
    qed
    with b(1) False show ?thesis by simp
  qed (use b in simp)
qed simp

lemma fold_brk_keeps:
  assumes "\<And>x s b t. P s \<Longrightarrow> body x s = Some (b, t) \<Longrightarrow> P t"
  shows "P s \<Longrightarrow> fold_brk body xs s = Some t \<Longrightarrow> P t"
proof (induction xs arbitrary: s)
  case (Cons x xs)
  from Cons.prems(2) obtain b u where u: "body x s = Some (b, u)" "(if b then Some u else fold_brk body xs u) = Some t"
    by (auto simp: bind_eq_Some_conv)
  from assms [OF Cons.prems(1) u(1)] Cons.IH [of u] u(2) show ?case by (auto split: if_splits)
qed simp

lemma fold_brk_nobreak:
  assumes "\<And>i s. i \<in> set is \<Longrightarrow> body i s = map_option (Pair False) (g i s)"
  shows "fold_brk body is s = fold_opt g is s"
  using assms
proof (induction "is" arbitrary: s)
  case (Cons i "is")
  show ?case
  proof (cases "g i s")
    case None
    with Cons.prems [of i s] show ?thesis by simp
  next
    case (Some t)
    with Cons.prems [of i s] have "body i s = Some (False, t)" by simp
    moreover have "fold_brk body is t = fold_opt g is t" using Cons by (meson list.set_intros(2))
    ultimately show ?thesis using Some by simp
  qed
qed simp

lemma fold_opt_pure:
  assumes "\<And>i s. i \<in> set is \<Longrightarrow> g i s = Some (h i s)"
  shows "fold_opt g is s = Some (fold h is s)"
  using assms by (induction "is" arbitrary: s) auto

lemma fold_brk_find:
  assumes "\<And>i s. i \<in> set is \<Longrightarrow> body i s = Some (if P i then (True, Some i) else (False, s))"
  shows "fold_brk body is None = Some (find P is)"
  using assms by (induction "is") auto

lemma find_takeWhile:
  "find P xs = (if length (takeWhile (\<lambda>x. \<not> P x) xs) < length xs
     then Some (xs ! length (takeWhile (\<lambda>x. \<not> P x) xs)) else None)"
  by (induction xs) auto

text \<open>Rewriting the slots of a list of distinct indices in place.\<close>

lemma nth_slot_update: "b[a := v] ! j = (if a = j \<and> j < length b then v else b ! j)"
  by (cases "a < length b") (auto simp: nth_list_update list_update_beyond not_less)

lemma fold_update_slots:
  assumes "distinct is"
  shows "length (fold (\<lambda>i b. b[i := f (b ! i)]) is b) = length b"
    and "j < length b \<Longrightarrow> fold (\<lambda>i b. b[i := f (b ! i)]) is b ! j = (if j \<in> set is then f (b ! j) else b ! j)"
  using assms by (induction "is" arbitrary: b) (auto simp: nth_slot_update)

end
