(* ===== verification/Interrupt.thy ===== *)
theory Interrupt
  imports Csr
begin

text \<open>
  \<open>component/interrupt_interface.h\<close>: the pending lines of the three machine interrupts, their
  acknowledgements, and the choice of the interrupt to take.  The class holds a pointer to the
  register file; here the register file is an argument of the operations that use it.
\<close>

record interrupt_interface =
  int_request_q :: "riscv_interrupt_t list"
  meip :: bool
  msip :: bool
  mtip :: bool
  mei_ack :: bool
  msi_ack :: bool
  mti_ack :: bool

definition int_new :: interrupt_interface where
  "int_new = \<lparr>int_request_q = [], meip = False, msip = False, mtip = False,
     mei_ack = False, msi_ack = False, mti_ack = False\<rparr>"

text \<open>\<open>reset()\<close> clears the acknowledgements only.\<close>

definition int_reset :: "interrupt_interface \<Rightarrow> interrupt_interface" where
  "int_reset s = s\<lparr>mei_ack := False, msi_ack := False, mti_ack := False\<rparr>"

text \<open>\<open>get_cause\<close> answers false (inner \<open>None\<close>) or writes the cause.\<close>

definition int_get_cause :: "csrfile \<Rightarrow> interrupt_interface \<Rightarrow> riscv_interrupt_t option option" where
  "int_get_cause c s = do {
     mie_v \<leftarrow> csrfile_read_sys c CSR_MIE;
     mstatus_v \<leftarrow> csrfile_read_sys c CSR_MSTATUS;
     Some (if \<not> mstatus_get_mie mstatus_v then None
           else if meip s \<and> mie_get_meie mie_v then Some machine_external
           else if msip s \<and> mie_get_msie mie_v then Some machine_software
           else if mtip s \<and> mie_get_mtie mie_v then Some machine_timer
           else None) }"

definition int_has_interrupt :: "csrfile \<Rightarrow> interrupt_interface \<Rightarrow> bool option" where
  "int_has_interrupt c s = do {
     mie_v \<leftarrow> csrfile_read_sys c CSR_MIE;
     mstatus_v \<leftarrow> csrfile_read_sys c CSR_MSTATUS;
     Some (mstatus_get_mie mstatus_v \<and> ((meip s \<and> mie_get_meie mie_v)
       \<or> (msip s \<and> mie_get_msie mie_v) \<or> (mtip s \<and> mie_get_mtie mie_v))) }"

fun int_set_pending :: "riscv_interrupt_t \<Rightarrow> bool \<Rightarrow> interrupt_interface \<Rightarrow> interrupt_interface" where
  "int_set_pending machine_external v s = s\<lparr>meip := v\<rparr>"
| "int_set_pending machine_software v s = s\<lparr>msip := v\<rparr>"
| "int_set_pending machine_timer v s = s\<lparr>mtip := v\<rparr>"
| "int_set_pending _ v s = s"

fun int_set_ack :: "riscv_interrupt_t \<Rightarrow> interrupt_interface \<Rightarrow> interrupt_interface" where
  "int_set_ack machine_external s = s\<lparr>mei_ack := True\<rparr>"
| "int_set_ack machine_software s = s\<lparr>msi_ack := True\<rparr>"
| "int_set_ack machine_timer s = s\<lparr>mti_ack := True\<rparr>"
| "int_set_ack _ s = s"

definition int_set_ack_sync :: "riscv_interrupt_t \<Rightarrow> interrupt_interface \<Rightarrow> interrupt_interface" where
  "int_set_ack_sync cause s = s\<lparr>int_request_q := int_request_q s @ [cause]\<rparr>"

fun int_get_ack :: "interrupt_interface \<Rightarrow> riscv_interrupt_t \<Rightarrow> bool" where
  "int_get_ack s machine_external = mei_ack s"
| "int_get_ack s machine_software = msi_ack s"
| "int_get_ack s machine_timer = mti_ack s"
| "int_get_ack s _ = False"

text \<open>\<open>run()\<close> clears the acknowledgements and requests a write of the pending lines to \<open>mip\<close>.\<close>

definition int_run :: "csrfile \<Rightarrow> interrupt_interface \<Rightarrow> (csrfile \<times> interrupt_interface) option" where
  "int_run c s = do {
     mip_v \<leftarrow> csrfile_read_sys c CSR_MIP;
     let mip_v = mip_set_meip (meip s) mip_v;
     let mip_v = mip_set_msip (msip s) mip_v;
     let mip_v = mip_set_mtip (mtip s) mip_v;
     Some (csrfile_write_sys_sync CSR_MIP mip_v c,
           s\<lparr>mei_ack := False, msi_ack := False, mti_ack := False\<rparr>) }"

definition int_sync :: "interrupt_interface \<Rightarrow> interrupt_interface option" where
  "int_sync s = do {
     t \<leftarrow> fold_opt (\<lambda>cause t. Some (int_set_ack cause t)) (int_request_q s) s;
     Some (t\<lparr>int_request_q := []\<rparr>) }"

section \<open>Correctness\<close>

lemma csr_bit_access [simp]:
  "csr_getbit b x = bit x b"
  by (simp add: csr_getbit_def and_exp_eq_0_iff_not_bit)

lemma bit_push_bool: "bit (push_bit k (if v then 1 else 0 :: u32)) n \<longleftrightarrow> k < 32 \<and> v \<and> n = k"
  by (auto simp: bit_simps)

lemma bit_mip_mask: "bit (0x888 :: u32) n \<longleftrightarrow> n = 3 \<or> n = 7 \<or> n = 11"
proof -
  have "(0x888 :: u32) = push_bit 3 1 OR push_bit 7 1 OR push_bit 11 1" by simp
  then show ?thesis by (simp only: bit_or_iff bit_push_bit_iff bit_1_iff) auto
qed

lemma bit_mip_setbit:
  assumes "k < 32"
  shows "bit (csr_setbit mip k v x) n \<longleftrightarrow> (n = 3 \<or> n = 7 \<or> n = 11) \<and> (if n = k then v else bit x n)"
proof -
  have "bit (NOT (push_bit k 1) :: u32) n \<longleftrightarrow> n < 32 \<and> n \<noteq> k"
    by (simp only: bit_not_iff bit_push_bit_iff bit_1_iff) (use assms in auto)
  then show ?thesis
    using assms
    by (simp only: csr_setbit_def csr_filter.simps mip_filter_def bit_and_iff bit_or_iff bit_push_bool
        bit_mip_mask) (auto dest: bit_imp_le_length)
qed

interpretation int_dq: deferred_total "\<lambda>cause t. Some (int_set_ack cause t)"
    "\<lambda>s. (meip s, msip s, mtip s) = lines" "\<lambda>_. True" for lines
proof
  fix s t and r
  assume s: "(meip s, msip s, mtip s) = lines" and t: "Some (int_set_ack r s) = Some t"
  then show "(meip t, msip t, mtip t) = lines" by (cases r) auto
qed simp

text \<open>An interrupt is reported exactly when one can be taken, and the one taken is external
  before software before timer, among those pending and enabled; nothing is taken while
  \<open>mstatus.MIE\<close> is clear.\<close>

theorem int_cause_priority:
  assumes "csrfile_read_sys c CSR_MIE = Some e" "csrfile_read_sys c CSR_MSTATUS = Some st"
  shows "int_get_cause c s = Some (if bit st 3
      then List.find (\<lambda>k. (k = machine_external \<and> meip s \<and> bit e 11)
                        \<or> (k = machine_software \<and> msip s \<and> bit e 3)
                        \<or> (k = machine_timer \<and> mtip s \<and> bit e 7))
             [machine_external, machine_software, machine_timer]
      else None)
    \<and> int_has_interrupt c s = map_option (\<lambda>r. r \<noteq> None) (int_get_cause c s)"
  using assms
  by (auto simp: int_get_cause_def int_has_interrupt_def mstatus_get_mie_def mie_get_meie_def
      mie_get_msie_def mie_get_mtie_def)

definition csr_int_demo :: csrfile where
  "csr_int_demo = csrfile_init\<lparr>csr_map_table := (csr_map_table csrfile_init)
     (CSR_MIE \<mapsto> \<lparr>ci_readonly = False, ci_class = mie, ci_value = 0x88\<rparr>,
      CSR_MSTATUS \<mapsto> \<lparr>ci_readonly = False, ci_class = mstatus, ci_value = 0x8\<rparr>)\<rparr>"

theorem int_cause_priority_witness:
  "int_get_cause csr_int_demo (int_new\<lparr>mtip := True, msip := True, meip := True\<rparr>) = Some (Some machine_software)"
proof -
  have r: "csrfile_read_sys csr_int_demo CSR_MIE = Some 0x88" "csrfile_read_sys csr_int_demo CSR_MSTATUS = Some 0x8"
    by (simp_all add: csr_int_demo_def csrfile_read_sys_def csrfile_read_item_def CSR_MIE_def CSR_MSTATUS_def)
  have b: "bit (8 :: u32) 3" "\<not> bit (0x88 :: u32) 11" "bit (0x88 :: u32) 3" by simp_all
  show ?thesis
    using int_cause_priority [OF r, of "int_new\<lparr>mtip := True, msip := True, meip := True\<rparr>"] b
    by (simp add: int_new_def)
qed

text \<open>\<open>run()\<close> publishes the pending lines: the value it requests for \<open>mip\<close> has exactly the
  bits MEIP, MSIP and MTIP of the lines, whatever the register held, and no acknowledgement
  survives it.\<close>

theorem int_run_publishes:
  assumes "csrfile_read_sys c CSR_MIP = Some old"
  shows "\<exists>v t. int_run c s = Some (csrfile_write_sys_sync CSR_MIP v c, t)
    \<and> (\<forall>n. bit v n \<longleftrightarrow> (n = 11 \<and> meip s) \<or> (n = 3 \<and> msip s) \<or> (n = 7 \<and> mtip s))
    \<and> (\<forall>k. \<not> int_get_ack t k) \<and> (meip t, msip t, mtip t) = (meip s, msip s, mtip s)"
proof -
  let ?v = "mip_set_mtip (mtip s) (mip_set_msip (msip s) (mip_set_meip (meip s) old))"
  let ?t = "s\<lparr>mei_ack := False, msi_ack := False, mti_ack := False\<rparr>"
  have "bit ?v n \<longleftrightarrow> (n = 11 \<and> meip s) \<or> (n = 3 \<and> msip s) \<or> (n = 7 \<and> mtip s)" for n
    by (auto simp: mip_set_mtip_def mip_set_msip_def mip_set_meip_def bit_mip_setbit)
  moreover have "\<not> int_get_ack ?t k" for k by (cases k) simp_all
  ultimately show ?thesis using assms by (auto simp: int_run_def Let_def)
qed

theorem int_run_publishes_witness:
  "\<exists>v t. int_run csrfile_init (int_new\<lparr>mtip := True, mti_ack := True\<rparr>)
      = Some (csrfile_write_sys_sync CSR_MIP v csrfile_init, t) \<and> bit v 7 \<and> \<not> bit v 11 \<and> \<not> int_get_ack t machine_timer"
proof -
  have "csr_map_table csrfile_init CSR_MIP = Some \<lparr>ci_readonly = False, ci_class = mip, ci_value = csr_init_value mip\<rparr>"
    by (rule csrfile_init_lookup) (simp add: csr_init_list_def csr_named_list_def)
  then have "csrfile_read_sys csrfile_init CSR_MIP = Some 0"
    by (simp add: csrfile_read_sys_def csrfile_read_item_def)
  note pub = int_run_publishes [OF this]
  define s where "s = int_new\<lparr>mtip := True, mti_ack := True\<rparr>"
  obtain v t where r: "int_run csrfile_init s = Some (csrfile_write_sys_sync CSR_MIP v csrfile_init, t)"
      and b: "\<forall>n. bit v n \<longleftrightarrow> (n = 11 \<and> meip s) \<or> (n = 3 \<and> msip s) \<or> (n = 7 \<and> mtip s)"
      and k: "\<forall>k. \<not> int_get_ack t k"
    using pub [of s] by (elim exE conjE) (rule that)
  have "bit v 7" "\<not> bit v 11" using b by (simp_all add: s_def int_new_def)
  with r k show ?thesis unfolding s_def by blast
qed

end
