(* ===== verification/Slave.thy ===== *)
theory Slave
  imports Interrupt
begin

text \<open>
  The devices behind the bus: \<open>component/slave_base.h\<close> (alignment and bounds checks, test mode),
  \<open>component/slave/memory.h\<close> (a little-endian byte array) and \<open>component/slave/clint.h\<close> (the
  timer and software interrupt registers).  A device's own state extends the base record, its
  virtual functions are the raw operations, and \<open>slave\<close> is the pointer to either of them that the
  bus holds.  The locale \<open>bus_slave\<close> is what the bus relies on.
\<close>

section \<open>Little-endian bytes\<close>

lemma unat_u32_lt: "unat (x :: u32) < 2 ^ 32"
  using unsigned_less [of x, where ?'a = nat] by simp

text \<open>\<open>*(uint32_t *)(mem + a)\<close> and its narrower forms on the little-endian hosts the model runs on:
  \<open>n\<close> bytes from address \<open>a\<close>.\<close>

primrec load_le :: "(nat \<Rightarrow> u8) \<Rightarrow> nat \<Rightarrow> nat \<Rightarrow> u32" where
  "load_le m a 0 = 0"
| "load_le m a (Suc n) = ucast (m a) OR push_bit 8 (load_le m (a + 1) n)"

definition store_le :: "(nat \<Rightarrow> u8) \<Rightarrow> nat \<Rightarrow> nat \<Rightarrow> u32 \<Rightarrow> (nat \<Rightarrow> u8)" where
  "store_le m a n v = (\<lambda>i. if a \<le> i \<and> i < a + n then ucast (drop_bit (8 * (i - a)) v) else m i)"

lemma bit_load_le:
  assumes "n \<le> 4"
  shows "bit (load_le m a n) i \<longleftrightarrow> i < 8 * n \<and> bit (m (a + i div 8)) (i mod 8)"
  using assms
proof (induction n arbitrary: a i)
  case (Suc n)
  show ?case
  proof (cases "i < 8")
    case True
    then show ?thesis by (simp add: bit_or_iff bit_push_bit_iff bit_ucast_iff)
  next
    case False
    then have i: "(i - 8) div 8 = i div 8 - 1" "(i - 8) mod 8 = i mod 8" "1 \<le> i div 8"
      by (simp_all add: mod_if div_if)
    have "bit (load_le m a (Suc n)) i \<longleftrightarrow> i < 32 \<and> bit (load_le m (a + 1) n) (i - 8)"
      using False by (auto simp: bit_or_iff bit_push_bit_iff bit_ucast_iff dest: bit_imp_le_length)
    also have "\<dots> \<longleftrightarrow> i < 32 \<and> i - 8 < 8 * n \<and> bit (m (a + 1 + (i - 8) div 8)) ((i - 8) mod 8)"
      using Suc.IH [of "a + 1" "i - 8"] Suc.prems by simp
    also have "\<dots> \<longleftrightarrow> i < 8 * Suc n \<and> bit (m (a + i div 8)) (i mod 8)"
    proof -
      have e: "a + 1 + (i - 8) div 8 = a + i div 8" using i by simp
      have "i < 32 \<and> i - 8 < 8 * n \<longleftrightarrow> i < 8 * Suc n" using False Suc.prems by auto
      then show ?thesis unfolding e i(2) by auto
    qed
    finally show ?thesis .
  qed
qed simp

lemma load_le_4:
  "load_le m a 4 = ucast (m a) OR push_bit 8 (ucast (m (a + 1)) OR push_bit 8 (ucast (m (a + 2))
     OR push_bit 8 (ucast (m (a + 3)))))"
  by (simp add: eval_nat_numeral)

lemma bit_store_le:
  assumes "j < 8"
  shows "bit (store_le m a n v i) j
    \<longleftrightarrow> (if a \<le> i \<and> i < a + n then bit v (8 * (i - a) + j) else bit (m i) j)"
  using assms by (simp add: store_le_def bit_ucast_iff bit_drop_bit_eq add.commute)

lemma load_store_same:
  assumes "n \<le> 4"
  shows "load_le (store_le m a n v) a n = take_bit (8 * n) v"
proof (rule bit_eqI)
  fix i :: nat
  have "8 * (i div 8) + i mod 8 = i" by simp
  moreover have "i < 8 * n \<longleftrightarrow> i div 8 < n" by linarith
  ultimately show "bit (load_le (store_le m a n v) a n) i \<longleftrightarrow> bit (take_bit (8 * n) v) i"
    using bit_load_le [OF assms, of "store_le m a n v" a i]
      bit_store_le [of "i mod 8" m a n v "a + i div 8"]
    by (auto simp: bit_take_bit_iff)
qed

lemma load_store_disjoint:
  assumes "n \<le> 4" "b + k \<le> a \<or> a + n \<le> b"
  shows "load_le (store_le m b k v) a n = load_le m a n"
proof (rule bit_eqI)
  fix i :: nat
  have "i < 8 * n \<Longrightarrow> i div 8 < n" by linarith
  then show "bit (load_le (store_le m b k v) a n) i \<longleftrightarrow> bit (load_le m a n) i"
    using assms(2) bit_load_le [OF assms(1), of "store_le m b k v" a i] bit_load_le [OF assms(1), of m a i]
      bit_store_le [of "i mod 8" m b k v "a + i div 8"]
    by auto
qed

section \<open>The base class\<close>

record slave_base =
  sl_size :: u32
  test_mode :: bool
  has_error :: bool

text \<open>Outside test mode a bad access ends the program; in test mode it sets a sticky error, and an
  access is performed only when no error has been recorded.\<close>

definition slave_check :: "u32 \<Rightarrow> u32 \<Rightarrow> 'z slave_base_scheme \<Rightarrow> (bool \<times> 'z slave_base_scheme) option" where
  "slave_check addr access_size s = do {
     s \<leftarrow> (if \<not> test_mode s then do {
            cassert (addr AND (access_size - 1) = 0);
            cassert (addr < sl_size s);
            cassert (sl_size s - addr \<ge> access_size);
            Some s }
          else if addr AND (access_size - 1) \<noteq> 0 then Some (s\<lparr>has_error := True\<rparr>)
          else if \<not> addr < sl_size s then Some (s\<lparr>has_error := True\<rparr>)
          else if \<not> sl_size s - addr \<ge> access_size then Some (s\<lparr>has_error := True\<rparr>)
          else Some s);
     Some (\<not> has_error s, s) }"

definition slave_check_align :: "u32 \<Rightarrow> u32 \<Rightarrow> bool" where
  "slave_check_align addr access_size = (addr AND (access_size - 1) = 0)"

definition slave_check_boundary :: "'z slave_base_scheme \<Rightarrow> u32 \<Rightarrow> u32 \<Rightarrow> bool" where
  "slave_check_boundary s addr access_size = (addr < sl_size s \<and> sl_size s - addr \<ge> access_size)"

definition slave_entry_test_mode :: "'z slave_base_scheme \<Rightarrow> 'z slave_base_scheme" where
  "slave_entry_test_mode s = s\<lparr>test_mode := True, has_error := False\<rparr>"

definition slave_clear_error :: "'z slave_base_scheme \<Rightarrow> 'z slave_base_scheme" where
  "slave_clear_error s = s\<lparr>has_error := False\<rparr>"

text \<open>The public accessors, for a raw operation of the derived class.\<close>

definition slave_write :: "u32 \<Rightarrow> ('z slave_base_scheme \<Rightarrow> 'z slave_base_scheme) \<Rightarrow> u32
    \<Rightarrow> 'z slave_base_scheme \<Rightarrow> 'z slave_base_scheme option" where
  "slave_write access_size raw addr s = do {
     (ok, s) \<leftarrow> slave_check addr access_size s;
     Some (if ok then raw s else s) }"

definition slave_read :: "u32 \<Rightarrow> ('z slave_base_scheme \<Rightarrow> ('w :: len) word) \<Rightarrow> u32
    \<Rightarrow> 'z slave_base_scheme \<Rightarrow> ('w word \<times> 'z slave_base_scheme) option" where
  "slave_read access_size raw addr s = do {
     (ok, s) \<leftarrow> slave_check addr access_size s;
     Some (if ok then raw s else 0, s) }"

section \<open>Memory\<close>

record memory = slave_base +
  mem :: "nat \<Rightarrow> u8"

text \<open>\<open>init(size)\<close> allocates zeroed bytes.\<close>

definition memory_init :: "u32 \<Rightarrow> memory" where
  "memory_init n = \<lparr>sl_size = n, test_mode = False, has_error = False, mem = (\<lambda>_. 0)\<rparr>"

definition memory_raw_write8 :: "u32 \<Rightarrow> u8 \<Rightarrow> memory \<Rightarrow> memory" where
  "memory_raw_write8 addr v s = s\<lparr>mem := store_le (mem s) (unat addr) 1 (ucast v)\<rparr>"

definition memory_raw_write16 :: "u32 \<Rightarrow> u16 \<Rightarrow> memory \<Rightarrow> memory" where
  "memory_raw_write16 addr v s = s\<lparr>mem := store_le (mem s) (unat addr) 2 (ucast v)\<rparr>"

definition memory_raw_write32 :: "u32 \<Rightarrow> u32 \<Rightarrow> memory \<Rightarrow> memory" where
  "memory_raw_write32 addr v s = s\<lparr>mem := store_le (mem s) (unat addr) 4 v\<rparr>"

definition memory_raw_read8 :: "u32 \<Rightarrow> memory \<Rightarrow> u8" where
  "memory_raw_read8 addr s = ucast (load_le (mem s) (unat addr) 1)"

definition memory_raw_read16 :: "u32 \<Rightarrow> memory \<Rightarrow> u16" where
  "memory_raw_read16 addr s = ucast (load_le (mem s) (unat addr) 2)"

definition memory_raw_read32 :: "u32 \<Rightarrow> memory \<Rightarrow> u32" where
  "memory_raw_read32 addr s = load_le (mem s) (unat addr) 4"

section \<open>Core-local interruptor\<close>

record clint = slave_base +
  cl_msip :: bool
  mtimecmp :: u64
  mtime :: u64

definition clint_init :: "u32 \<Rightarrow> clint" where
  "clint_init n = \<lparr>sl_size = n, test_mode = False, has_error = False, cl_msip = False, mtimecmp = 0, mtime = 0\<rparr>"

definition clint_reset :: "clint \<Rightarrow> clint" where
  "clint_reset s = s\<lparr>cl_msip := False, mtimecmp := 0, mtime := 0\<rparr>"

definition MSIP_ADDR :: u32 where "MSIP_ADDR = 0x0"
definition MTIMECMP_ADDR :: u32 where "MTIMECMP_ADDR = 0x4000"
definition MTIME_ADDR :: u32 where "MTIME_ADDR = 0xBFF8"

definition clint_raw_write8 :: "u32 \<Rightarrow> u8 \<Rightarrow> clint \<Rightarrow> clint" where
  "clint_raw_write8 addr v s = s"

definition clint_raw_write16 :: "u32 \<Rightarrow> u16 \<Rightarrow> clint \<Rightarrow> clint" where
  "clint_raw_write16 addr v s = s"

definition clint_raw_write32 :: "u32 \<Rightarrow> u32 \<Rightarrow> clint \<Rightarrow> clint" where
  "clint_raw_write32 addr v s =
     (if addr = MSIP_ADDR then s\<lparr>cl_msip := (v AND 1 \<noteq> 0)\<rparr>
      else if addr = MTIMECMP_ADDR then s\<lparr>mtimecmp := (mtimecmp s AND 0xFFFFFFFF00000000) OR ucast v\<rparr>
      else if addr = MTIMECMP_ADDR + 4 then s\<lparr>mtimecmp := (mtimecmp s AND 0xFFFFFFFF) OR push_bit 32 (ucast v)\<rparr>
      else if addr = MTIME_ADDR then s\<lparr>mtime := (mtime s AND 0xFFFFFFFF00000000) OR ucast v\<rparr>
      else if addr = MTIME_ADDR + 4 then s\<lparr>mtime := (mtime s AND 0xFFFFFFFF) OR push_bit 32 (ucast v)\<rparr>
      else s)"

definition clint_raw_read8 :: "u32 \<Rightarrow> clint \<Rightarrow> u8" where
  "clint_raw_read8 addr s = 0"

definition clint_raw_read16 :: "u32 \<Rightarrow> clint \<Rightarrow> u16" where
  "clint_raw_read16 addr s = 0"

definition clint_raw_read32 :: "u32 \<Rightarrow> clint \<Rightarrow> u32" where
  "clint_raw_read32 addr s =
     (if addr = MSIP_ADDR then (if cl_msip s then 1 else 0)
      else if addr = MTIMECMP_ADDR then ucast (mtimecmp s AND 0xFFFFFFFF)
      else if addr = MTIMECMP_ADDR + 4 then ucast (drop_bit 32 (mtimecmp s))
      else if addr = MTIME_ADDR then ucast (mtime s AND 0xFFFFFFFF)
      else if addr = MTIME_ADDR + 4 then ucast (drop_bit 32 (mtime s))
      else 0)"

definition clint_run_pre :: "clint \<Rightarrow> interrupt_interface \<Rightarrow> interrupt_interface" where
  "clint_run_pre s i =
     int_set_pending machine_software (cl_msip s)
       (int_set_pending machine_timer (mtime s \<ge> mtimecmp s) i)"

definition clint_run_post :: "clint \<Rightarrow> clint" where
  "clint_run_post s = s\<lparr>mtime := mtime s + 1\<rparr>"

section \<open>The pointer held by the bus\<close>

datatype slave = Memory memory | Clint clint

fun dev_write8 :: "u32 \<Rightarrow> u8 \<Rightarrow> slave \<Rightarrow> slave option" where
  "dev_write8 a v (Memory s) = map_option Memory (slave_write 1 (memory_raw_write8 a v) a s)"
| "dev_write8 a v (Clint s) = map_option Clint (slave_write 1 (clint_raw_write8 a v) a s)"

fun dev_write16 :: "u32 \<Rightarrow> u16 \<Rightarrow> slave \<Rightarrow> slave option" where
  "dev_write16 a v (Memory s) = map_option Memory (slave_write 2 (memory_raw_write16 a v) a s)"
| "dev_write16 a v (Clint s) = map_option Clint (slave_write 2 (clint_raw_write16 a v) a s)"

fun dev_write32 :: "u32 \<Rightarrow> u32 \<Rightarrow> slave \<Rightarrow> slave option" where
  "dev_write32 a v (Memory s) = map_option Memory (slave_write 4 (memory_raw_write32 a v) a s)"
| "dev_write32 a v (Clint s) = map_option Clint (slave_write 4 (clint_raw_write32 a v) a s)"

fun dev_read8 :: "u32 \<Rightarrow> slave \<Rightarrow> (u8 \<times> slave) option" where
  "dev_read8 a (Memory s) = map_option (map_prod id Memory) (slave_read 1 (memory_raw_read8 a) a s)"
| "dev_read8 a (Clint s) = map_option (map_prod id Clint) (slave_read 1 (clint_raw_read8 a) a s)"

fun dev_read16 :: "u32 \<Rightarrow> slave \<Rightarrow> (u16 \<times> slave) option" where
  "dev_read16 a (Memory s) = map_option (map_prod id Memory) (slave_read 2 (memory_raw_read16 a) a s)"
| "dev_read16 a (Clint s) = map_option (map_prod id Clint) (slave_read 2 (clint_raw_read16 a) a s)"

fun dev_read32 :: "u32 \<Rightarrow> slave \<Rightarrow> (u32 \<times> slave) option" where
  "dev_read32 a (Memory s) = map_option (map_prod id Memory) (slave_read 4 (memory_raw_read32 a) a s)"
| "dev_read32 a (Clint s) = map_option (map_prod id Clint) (slave_read 4 (clint_raw_read32 a) a s)"

text \<open>The six accessors by access size in bytes.\<close>

definition dev_write :: "nat \<Rightarrow> u32 \<Rightarrow> u32 \<Rightarrow> slave \<Rightarrow> slave option" where
  "dev_write n a v d =
     (if n = 1 then dev_write8 a (ucast v) d else if n = 2 then dev_write16 a (ucast v) d else dev_write32 a v d)"

definition dev_read :: "nat \<Rightarrow> u32 \<Rightarrow> slave \<Rightarrow> (u32 \<times> slave) option" where
  "dev_read n a d =
     (if n = 1 then map_option (map_prod ucast id) (dev_read8 a d)
      else if n = 2 then map_option (map_prod ucast id) (dev_read16 a d) else dev_read32 a d)"

section \<open>The contract of a device\<close>

definition access_ok :: "u32 \<Rightarrow> nat \<Rightarrow> u32 \<Rightarrow> bool" where
  "access_ok sz n a = (n dvd unat a \<and> unat a + n \<le> unat sz)"

lemma align_iff:
  assumes "n = 1 \<or> n = 2 \<or> n = 4"
  shows "(a :: u32) AND (of_nat n - 1) = 0 \<longleftrightarrow> n dvd unat a"
proof -
  obtain k where k: "n = 2 ^ k" "k < 32"
    using assms by (metis power_0 power_one_right one_less_numeral_iff less_numeral_extra
        numeral_less_iff power2_eq_square mult_2 numeral_Bit0 semiring_norm(76,78) zero_less_numeral)
  have m: "(of_nat n - 1 :: u32) = mask k" by (simp add: k mask_eq_exp_minus_1)
  have "a AND mask k = take_bit k a" by (simp add: take_bit_eq_mask)
  moreover have "take_bit k a = 0 \<longleftrightarrow> unat (take_bit k a) = 0" by (simp add: unat_eq_0)
  moreover have "unat (take_bit k a) = unat a mod n" unfolding k unsigned_take_bit_eq by (simp add: take_bit_eq_mod)
  ultimately show ?thesis unfolding m by (simp add: dvd_eq_mod_eq_0)
qed

lemma boundary_iff:
  assumes "0 < n" "n \<le> 4"
  shows "(a :: u32) < sz \<and> sz - a \<ge> of_nat n \<longleftrightarrow> unat a + n \<le> unat sz"
proof -
  have n: "unat (of_nat n :: u32) = n" using assms by (simp add: unat_of_nat)
  show ?thesis
  proof (cases "a < sz")
    case True
    then have "unat (sz - a) = unat sz - unat a" by (simp add: unat_sub less_imp_le)
    with True n show ?thesis by (auto simp: word_le_nat_alt word_less_nat_alt)
  next
    case False
    then show ?thesis using assms(1) by (auto simp: word_less_nat_alt)
  qed
qed

lemma slave_check_quiet:
  assumes "n = 1 \<or> n = 2 \<or> n = 4" "\<not> test_mode s" "\<not> has_error s"
  shows "slave_check a (of_nat n) s = (if access_ok (sl_size s) n a then Some (True, s) else None)"
  using assms align_iff [OF assms(1), of a] boundary_iff [of n a "sl_size s"]
  by (auto simp: slave_check_def access_ok_def cassert_def)

lemma slave_check_sizes:
  assumes "\<not> test_mode s" "\<not> has_error s"
  shows "slave_check a 1 s = (if access_ok (sl_size s) 1 a then Some (True, s) else None)"
    "slave_check a 2 s = (if access_ok (sl_size s) 2 a then Some (True, s) else None)"
    "slave_check a 4 s = (if access_ok (sl_size s) 4 a then Some (True, s) else None)"
  using slave_check_quiet [of 1 s a] slave_check_quiet [of 2 s a] slave_check_quiet [of 4 s a] assms
  by simp_all

locale bus_slave =
  fixes wr :: "nat \<Rightarrow> u32 \<Rightarrow> u32 \<Rightarrow> 's \<Rightarrow> 's option"
    and rd :: "nat \<Rightarrow> u32 \<Rightarrow> 's \<Rightarrow> (u32 \<times> 's) option"
    and sz :: "'s \<Rightarrow> u32"
    and quiet :: "'s \<Rightarrow> bool"
  assumes wr_ok: "quiet s \<Longrightarrow> n = 1 \<or> n = 2 \<or> n = 4 \<Longrightarrow> access_ok (sz s) n a \<Longrightarrow>
      \<exists>t. wr n a v s = Some t \<and> quiet t \<and> sz t = sz s"
    and wr_bad: "quiet s \<Longrightarrow> n = 1 \<or> n = 2 \<or> n = 4 \<Longrightarrow> \<not> access_ok (sz s) n a \<Longrightarrow> wr n a v s = None"
    and rd_ok: "quiet s \<Longrightarrow> n = 1 \<or> n = 2 \<or> n = 4 \<Longrightarrow> access_ok (sz s) n a \<Longrightarrow>
      \<exists>v. rd n a s = Some (v, s)"
    and rd_bad: "quiet s \<Longrightarrow> n = 1 \<or> n = 2 \<or> n = 4 \<Longrightarrow> \<not> access_ok (sz s) n a \<Longrightarrow> rd n a s = None"
begin

lemma writes_run:
  assumes "quiet s" "\<forall>(n, a, v) \<in> set ws. (n = 1 \<or> n = 2 \<or> n = 4) \<and> access_ok (sz s) n a"
  shows "\<exists>t. fold_opt (\<lambda>(n, a, v). wr n a v) ws s = Some t \<and> quiet t \<and> sz t = sz s"
  using assms
proof (induction ws arbitrary: s)
  case (Cons w ws)
  obtain n a v where w: "w = (n, a, v)" by (cases w)
  with Cons.prems wr_ok [of s n a v] obtain t where t: "wr n a v s = Some t" "quiet t" "sz t = sz s"
    by auto
  from Cons.IH [OF t(2)] Cons.prems(2) t show ?case by (auto simp: w)
qed simp

lemma wr_iff:
  assumes "quiet s" "n = 1 \<or> n = 2 \<or> n = 4"
  shows "wr n a v s \<noteq> None \<longleftrightarrow> access_ok (sz s) n a" "rd n a s \<noteq> None \<longleftrightarrow> access_ok (sz s) n a"
  using wr_ok [OF assms] wr_bad [OF assms] rd_ok [OF assms] rd_bad [OF assms] by fastforce+

end

fun dev_size :: "slave \<Rightarrow> u32" where
  "dev_size (Memory s) = sl_size s"
| "dev_size (Clint s) = sl_size s"

fun dev_quiet :: "slave \<Rightarrow> bool" where
  "dev_quiet (Memory s) = (\<not> test_mode s \<and> \<not> has_error s)"
| "dev_quiet (Clint s) = (\<not> test_mode s \<and> \<not> has_error s)"

lemma dev_write_quiet:
  assumes "dev_quiet d" "n = 1 \<or> n = 2 \<or> n = 4"
  shows "dev_write n a v d = (if access_ok (dev_size d) n a then
     Some (case d of
        Memory s \<Rightarrow> Memory (s\<lparr>mem := store_le (mem s) (unat a) n v\<rparr>)
      | Clint s \<Rightarrow> Clint (if n = 4 then clint_raw_write32 a v s else s)) else None)"
proof -
  have b: "store_le m i 1 (ucast (ucast v :: u8)) = store_le m i 1 v" for m i
    by (auto simp: store_le_def fun_eq_iff intro!: bit_eqI simp: bit_simps)
  have h: "store_le m i 2 (ucast (ucast v :: u16)) = store_le m i 2 v" for m i
  proof (rule ext, rule bit_eqI)
    fix k j
    have "i \<le> k \<and> k < i + 2 \<Longrightarrow> j < 8 \<Longrightarrow> 8 * (k - i) + j < 16" by linarith
    then show "bit (store_le m i 2 (ucast (ucast v :: u16)) k) j \<longleftrightarrow> bit (store_le m i 2 v k) j"
      by (cases "j < 8") (auto simp: bit_store_le bit_simps dest: bit_imp_le_length)
  qed
  show ?thesis
    using assms
    by (cases d) (auto simp: slave_check_sizes dev_write_def slave_write_def memory_raw_write8_def memory_raw_write16_def
        memory_raw_write32_def clint_raw_write8_def clint_raw_write16_def b [simplified] h)
qed

lemma dev_read_quiet:
  assumes "dev_quiet d" "n = 1 \<or> n = 2 \<or> n = 4"
  shows "dev_read n a d = (if access_ok (dev_size d) n a then
     Some (case d of
        Memory s \<Rightarrow> load_le (mem s) (unat a) n
      | Clint s \<Rightarrow> (if n = 4 then clint_raw_read32 a s else 0), d) else None)"
proof -
  have b: "ucast (ucast (ucast x :: u32) :: u8) = (ucast x :: u32)" for x :: u8
    by (rule bit_eqI) (auto simp: bit_simps dest: bit_imp_le_length)
  have h: "ucast (ucast (load_le m i 2) :: u16) = load_le m i 2" for m i
    by (rule bit_eqI) (auto simp: bit_simps bit_load_le)
  show ?thesis
    using assms
    by (cases d) (auto simp: slave_check_sizes dev_read_def slave_read_def memory_raw_read8_def memory_raw_read16_def
        memory_raw_read32_def clint_raw_read8_def clint_raw_read16_def b h)
qed

interpretation dev: bus_slave dev_write dev_read dev_size dev_quiet
proof
  fix s a v and n :: nat assume s: "dev_quiet s" "n = 1 \<or> n = 2 \<or> n = 4"
  note w = dev_write_quiet [OF s] and r = dev_read_quiet [OF s]
  show "access_ok (dev_size s) n a \<Longrightarrow> \<exists>t. dev_write n a v s = Some t \<and> dev_quiet t \<and> dev_size t = dev_size s"
    using w s(1) by (cases s) (auto simp: clint_raw_write32_def)
  show "\<not> access_ok (dev_size s) n a \<Longrightarrow> dev_write n a v s = None" using w by simp
  show "access_ok (dev_size s) n a \<Longrightarrow> \<exists>v. dev_read n a s = Some (v, s)" using r by simp
  show "\<not> access_ok (dev_size s) n a \<Longrightarrow> dev_read n a s = None" using r by simp
qed

section \<open>Correctness\<close>

text \<open>Memory read after write.  An aligned access of 1, 2 or 4 bytes inside the memory
  succeeds; the bytes written are read back, at the same width or one by one in little-endian
  order, and an access that does not overlap reads what it read before.\<close>

theorem memory_write_read:
  assumes "dev_quiet (Memory s)" "n = 1 \<or> n = 2 \<or> n = 4" "access_ok (sl_size s) n a"
  shows "\<exists>t. dev_write n a v (Memory s) = Some (Memory t)
    \<and> dev_read n a (Memory t) = Some (take_bit (8 * n) v, Memory t)
    \<and> (\<forall>k < n. dev_read 1 (a + of_nat k) (Memory t)
         = Some (take_bit 8 (drop_bit (8 * k) v), Memory t))
    \<and> (\<forall>m b. (m = 1 \<or> m = 2 \<or> m = 4) \<and> (unat b + m \<le> unat a \<or> unat a + n \<le> unat b) \<longrightarrow>
         map_option fst (dev_read m b (Memory t)) = map_option fst (dev_read m b (Memory s)))"
proof -
  let ?t = "s\<lparr>mem := store_le (mem s) (unat a) n v\<rparr>"
  have w: "dev_write n a v (Memory s) = Some (Memory ?t)"
    using dev_write_quiet [OF assms(1,2), of a v] assms(3) by simp
  have q: "dev_quiet (Memory ?t)" using assms(1) by simp
  note r = dev_read_quiet [OF q]
  have same: "dev_read n a (Memory ?t) = Some (take_bit (8 * n) v, Memory ?t)"
    using r [OF assms(2), of a] assms(2,3) load_store_same [of n "mem s" "unat a" v] by auto
  have bytes: "dev_read 1 (a + of_nat k) (Memory ?t) = Some (take_bit 8 (drop_bit (8 * k) v), Memory ?t)"
    if k: "k < n" for k
  proof -
    have "k < 4" using k assms(2) by auto
    then have "unat (of_nat k :: u32) = k" by (simp add: unat_of_nat)
    moreover have "unat a + k < 2 ^ 32"
      using assms(3) k unat_u32_lt [of "sl_size s"] by (simp add: access_ok_def)
    ultimately have u: "unat (a + of_nat k) = unat a + k" by (simp add: unat_word_ariths)
    then have ok: "access_ok (sl_size ?t) 1 (a + of_nat k)"
      using assms(3) k by (simp add: access_ok_def)
    have "load_le (mem ?t) (unat a + k) 1 = take_bit 8 (drop_bit (8 * k) v)"
      using k by (intro bit_eqI) (auto simp: bit_simps store_le_def dest: bit_imp_le_length)
    then show ?thesis using r [of 1 "a + of_nat k"] ok u by simp
  qed
  have "map_option fst (dev_read m b (Memory ?t)) = map_option fst (dev_read m b (Memory s))"
    if "(m = 1 \<or> m = 2 \<or> m = 4) \<and> (unat b + m \<le> unat a \<or> unat a + n \<le> unat b)" for m b
  proof -
    have m: "m = 1 \<or> m = 2 \<or> m = 4" "m \<le> 4" using that by auto
    have "unat a + n \<le> unat b \<or> unat b + m \<le> unat a" using that by blast
    from load_store_disjoint [OF m(2) this] r [OF m(1), of b] dev_read_quiet [OF assms(1) m(1), of b]
    show ?thesis by simp
  qed
  with w same bytes show ?thesis by blast
qed

theorem memory_write_read_witness:
  "\<exists>t. dev_write 4 8 0x12345678 (Memory (memory_init 64)) = Some (Memory t)
     \<and> dev_read 1 9 (Memory t) = Some (0x56, Memory t)"
proof -
  have q: "dev_quiet (Memory (memory_init 64))" and n: "(4::nat) = 1 \<or> (4::nat) = 2 \<or> (4::nat) = 4"
    and ok: "access_ok (sl_size (memory_init 64)) 4 8"
    by (simp_all add: memory_init_def access_ok_def)
  obtain t where t: "dev_write 4 8 0x12345678 (Memory (memory_init 64)) = Some (Memory t)"
      "\<forall>k < 4. dev_read 1 (8 + of_nat k) (Memory t)
         = Some (take_bit 8 (drop_bit (8 * k) 0x12345678), Memory t)"
    using memory_write_read [OF q n ok, of "0x12345678"] by (elim exE conjE) (rule that)
  have "take_bit 8 (drop_bit 8 (0x12345678 :: u32)) = 0x56" by simp
  with t(1) t(2) [rule_format, of 1] show ?thesis by simp
qed

lemma join_halves:
  "((w AND 0xFFFFFFFF00000000) OR ucast (lo :: u32)) AND 0xFFFFFFFF OR push_bit 32 (ucast (hi :: u32))
     = (push_bit 32 (ucast hi) OR ucast lo :: u64)"
  "((w AND 0xFFFFFFFF) OR push_bit 32 (ucast hi)) AND 0xFFFFFFFF00000000 OR ucast lo
     = (push_bit 32 (ucast hi) OR ucast lo :: u64)"
proof -
  have lo: "(0xFFFFFFFF :: u64) = mask 32" and hi: "(0xFFFFFFFF00000000 :: u64) = NOT (mask 32)"
    by (simp_all add: mask_eq_exp_minus_1)
  show "((w AND 0xFFFFFFFF00000000) OR ucast lo) AND 0xFFFFFFFF OR push_bit 32 (ucast hi)
     = (push_bit 32 (ucast hi) OR ucast lo :: u64)"
    "((w AND 0xFFFFFFFF) OR push_bit 32 (ucast hi)) AND 0xFFFFFFFF00000000 OR ucast lo
     = (push_bit 32 (ucast hi) OR ucast lo :: u64)"
    unfolding lo hi by (rule bit_eqI; auto simp: bit_simps dest: bit_imp_le_length)+
qed

lemma halves:
  fixes hi lo :: u32
  shows "ucast ((push_bit 32 (ucast hi) OR ucast lo :: u64) AND 0xFFFFFFFF) = lo"
    and "ucast (drop_bit 32 (push_bit 32 (ucast hi) OR ucast lo :: u64)) = hi"
    and "unat (push_bit 32 (ucast hi) OR ucast lo :: u64) = unat hi * 2 ^ 32 + unat lo"
proof -
  have m: "(0xFFFFFFFF :: u64) = mask 32" by (simp add: mask_eq_exp_minus_1)
  show "ucast ((push_bit 32 (ucast hi) OR ucast lo :: u64) AND 0xFFFFFFFF) = lo"
    unfolding m by (rule bit_eqI) (auto simp: bit_simps)
  show "ucast (drop_bit 32 (push_bit 32 (ucast hi) OR ucast lo :: u64)) = hi"
    by (rule bit_eqI) (auto simp: bit_simps dest: bit_imp_le_length)
  have "(push_bit 32 (ucast hi) OR ucast lo :: u64) = push_bit 32 (ucast hi) + ucast lo"
    by (rule disjunctive_add [symmetric]) (auto simp: bit_simps dest: bit_imp_le_length)
  moreover have uc: "unat (ucast x :: u64) = unat x" for x :: u32
    using unat_u32_lt [of x] by (simp add: unsigned_ucast_eq take_bit_eq_mod)
  moreover have "unat (push_bit 32 (ucast hi) :: u64) = unat hi * 2 ^ 32"
  proof -
    have "unat hi * 2 ^ 32 < 2 ^ 64" using unat_u32_lt [of hi] by simp
    then show ?thesis by (simp add: push_bit_eq_mult unat_word_ariths mult.commute uc)
  qed
  moreover have "unat hi * 2 ^ 32 + unat lo < 2 ^ 64"
    using unat_u32_lt [of hi] unat_u32_lt [of lo] by simp
  ultimately show "unat (push_bit 32 (ucast hi) OR ucast lo :: u64) = unat hi * 2 ^ 32 + unat lo"
    by (simp add: unat_word_ariths)
qed

text \<open>The CLINT's 64-bit timer compare register.  Writing its two halves in either order sets it
  to the number they form and nothing else, both halves read back, and the timer interrupt line
  is raised in the next cycle exactly when the time has reached that number.\<close>

theorem clint_mtimecmp_halves:
  fixes hi lo :: u32
  shows "let c1 = clint_raw_write32 (MTIMECMP_ADDR + 4) hi (clint_raw_write32 MTIMECMP_ADDR lo s);
      c2 = clint_raw_write32 MTIMECMP_ADDR lo (clint_raw_write32 (MTIMECMP_ADDR + 4) hi s)
    in c1 = c2 \<and> cl_msip c1 = cl_msip s \<and> mtime c1 = mtime s
    \<and> clint_raw_read32 MTIMECMP_ADDR c1 = lo \<and> clint_raw_read32 (MTIMECMP_ADDR + 4) c1 = hi
    \<and> (mtip (clint_run_pre c1 i) \<longleftrightarrow> unat hi * 2 ^ 32 + unat lo \<le> unat (mtime s))"
proof -
  let ?v = "push_bit 32 (ucast hi) OR ucast lo :: u64"
  let ?c = "s\<lparr>mtimecmp := ?v\<rparr>"
  have c1: "clint_raw_write32 (MTIMECMP_ADDR + 4) hi (clint_raw_write32 MTIMECMP_ADDR lo s) = ?c"
    and c2: "clint_raw_write32 MTIMECMP_ADDR lo (clint_raw_write32 (MTIMECMP_ADDR + 4) hi s) = ?c"
    by (simp_all add: clint_raw_write32_def MSIP_ADDR_def MTIMECMP_ADDR_def join_halves)
  have f: "mtimecmp ?c = ?v" "cl_msip ?c = cl_msip s" "mtime ?c = mtime s" by simp_all
  have r: "clint_raw_read32 MTIMECMP_ADDR t = ucast (mtimecmp t AND 0xFFFFFFFF)"
    "clint_raw_read32 (MTIMECMP_ADDR + 4) t = ucast (drop_bit 32 (mtimecmp t))"
    "mtip (clint_run_pre t i) \<longleftrightarrow> unat (mtimecmp t) \<le> unat (mtime t)" for t
    by (simp_all add: clint_raw_read32_def MSIP_ADDR_def MTIMECMP_ADDR_def clint_run_pre_def word_le_nat_alt)
  show ?thesis unfolding c1 c2 Let_def r f halves by simp
qed

end
