(* ===== verification/Bus.thy ===== *)
theory Bus
  imports Slave
begin

text \<open>
  \<open>component/bus.h\<close>: the address map, routing of reads and writes to the devices, and deferred
  writes, with the map that \<open>init()\<close> of \<open>top_source/main.cpp\<close> sets up (1 MiB of memory at
  0x80000000, the CLINT at 0x20000000).
\<close>

record slave_info_t =
  si_base :: u32
  si_size :: u32
  si_slave :: slave

datatype bus_request = Bus_write8 u32 u8 | Bus_write16 u32 u16 | Bus_write32 u32 u32

record bus =
  bus_request_q :: "bus_request list"
  slave_info_list :: "slave_info_t list"

section \<open>Operations\<close>

definition bus_new :: bus where
  "bus_new = \<lparr>bus_request_q = [], slave_info_list = []\<rparr>"

definition slave_overlaps :: "u32 \<Rightarrow> u32 \<Rightarrow> slave_info_t \<Rightarrow> bool" where
  "slave_overlaps base sz i =
     ((base \<ge> si_base i \<and> base < si_base i + si_size i)
      \<or> (base < si_base i \<and> base + sz > si_base i))"

definition bus_check_addr_override :: "bus \<Rightarrow> u32 \<Rightarrow> u32 \<Rightarrow> bool" where
  "bus_check_addr_override b base sz = list_ex (slave_overlaps base sz) (slave_info_list b)"

definition slave_covers :: "u32 \<Rightarrow> slave_info_t \<Rightarrow> bool" where
  "slave_covers addr i = (addr \<ge> si_base i \<and> addr < si_base i + si_size i)"

fun find_index :: "('a \<Rightarrow> bool) \<Rightarrow> 'a list \<Rightarrow> nat option" where
  "find_index p [] = None"
| "find_index p (x # xs) = (if p x then Some 0 else map_option Suc (find_index p xs))"

definition bus_find_slave_info :: "bus \<Rightarrow> u32 \<Rightarrow> nat option" where
  "bus_find_slave_info b addr = find_index (slave_covers addr) (slave_info_list b)"

definition bus_get_slave_obj :: "bus \<Rightarrow> u32 \<Rightarrow> slave option" where
  "bus_get_slave_obj b addr =
     map_option (\<lambda>i. si_slave (slave_info_list b ! i)) (bus_find_slave_info b addr)"

definition bus_convert_to_slave_addr :: "bus \<Rightarrow> u32 \<Rightarrow> u32" where
  "bus_convert_to_slave_addr b addr =
     (case bus_find_slave_info b addr of
        None \<Rightarrow> addr
      | Some i \<Rightarrow> addr - si_base (slave_info_list b ! i))"

text \<open>\<open>slave->init(size)\<close>: the memory allocates its zeroed bytes, the CLINT has no \<open>_init\<close>.\<close>

fun dev_init :: "u32 \<Rightarrow> slave \<Rightarrow> slave" where
  "dev_init n (Memory s) = Memory (s\<lparr>sl_size := n, mem := (\<lambda>_. 0)\<rparr>)"
| "dev_init n (Clint s) = Clint (s\<lparr>sl_size := n\<rparr>)"

definition bus_map :: "u32 \<Rightarrow> u32 \<Rightarrow> slave \<Rightarrow> bus \<Rightarrow> bus option" where
  "bus_map base sz d b = do {
     cassert (\<not> bus_check_addr_override b base sz);
     Some (b\<lparr>slave_info_list := slave_info_list b
       @ [\<lparr>si_base = base, si_size = sz, si_slave = dev_init sz d\<rparr>]\<rparr>) }"

definition bus_reset :: "bus \<Rightarrow> bus" where
  "bus_reset b = b\<lparr>bus_request_q := []\<rparr>"

definition bus_check_align :: "u32 \<Rightarrow> u32 \<Rightarrow> bool" where
  "bus_check_align addr access_size = (addr AND (access_size - 1) = 0)"

text \<open>An access through entry \<open>i\<close> of the map; addresses outside the map are ignored.\<close>

definition bus_upd :: "nat \<Rightarrow> slave \<Rightarrow> bus \<Rightarrow> bus" where
  "bus_upd i d b = b\<lparr>slave_info_list := (slave_info_list b)[i := (slave_info_list b ! i)\<lparr>si_slave := d\<rparr>]\<rparr>"

definition bus_write8 :: "u32 \<Rightarrow> u8 \<Rightarrow> bus \<Rightarrow> bus option" where
  "bus_write8 addr v b =
     (case bus_find_slave_info b addr of
        None \<Rightarrow> Some b
      | Some i \<Rightarrow> do {
          let e = slave_info_list b ! i;
          d \<leftarrow> dev_write8 (addr - si_base e) v (si_slave e);
          Some (bus_upd i d b) })"

definition bus_write16 :: "u32 \<Rightarrow> u16 \<Rightarrow> bus \<Rightarrow> bus option" where
  "bus_write16 addr v b =
     (case bus_find_slave_info b addr of
        None \<Rightarrow> Some b
      | Some i \<Rightarrow> do {
          let e = slave_info_list b ! i;
          d \<leftarrow> dev_write16 (addr - si_base e) v (si_slave e);
          Some (bus_upd i d b) })"

definition bus_write32 :: "u32 \<Rightarrow> u32 \<Rightarrow> bus \<Rightarrow> bus option" where
  "bus_write32 addr v b =
     (case bus_find_slave_info b addr of
        None \<Rightarrow> Some b
      | Some i \<Rightarrow> do {
          let e = slave_info_list b ! i;
          d \<leftarrow> dev_write32 (addr - si_base e) v (si_slave e);
          Some (bus_upd i d b) })"

definition bus_write8_sync :: "u32 \<Rightarrow> u8 \<Rightarrow> bus \<Rightarrow> bus" where
  "bus_write8_sync addr v b = b\<lparr>bus_request_q := bus_request_q b @ [Bus_write8 addr v]\<rparr>"

definition bus_write16_sync :: "u32 \<Rightarrow> u16 \<Rightarrow> bus \<Rightarrow> bus" where
  "bus_write16_sync addr v b = b\<lparr>bus_request_q := bus_request_q b @ [Bus_write16 addr v]\<rparr>"

definition bus_write32_sync :: "u32 \<Rightarrow> u32 \<Rightarrow> bus \<Rightarrow> bus" where
  "bus_write32_sync addr v b = b\<lparr>bus_request_q := bus_request_q b @ [Bus_write32 addr v]\<rparr>"

text \<open>A read may record an error in a device in test mode, so it returns the bus too.\<close>

definition bus_read8 :: "u32 \<Rightarrow> bus \<Rightarrow> (u8 \<times> bus) option" where
  "bus_read8 addr b =
     (case bus_find_slave_info b addr of
        None \<Rightarrow> Some (0, b)
      | Some i \<Rightarrow> do {
          let e = slave_info_list b ! i;
          (v, d) \<leftarrow> dev_read8 (addr - si_base e) (si_slave e);
          Some (v, bus_upd i d b) })"

definition bus_read16 :: "u32 \<Rightarrow> bus \<Rightarrow> (u16 \<times> bus) option" where
  "bus_read16 addr b =
     (case bus_find_slave_info b addr of
        None \<Rightarrow> Some (0, b)
      | Some i \<Rightarrow> do {
          let e = slave_info_list b ! i;
          (v, d) \<leftarrow> dev_read16 (addr - si_base e) (si_slave e);
          Some (v, bus_upd i d b) })"

definition bus_read32 :: "u32 \<Rightarrow> bus \<Rightarrow> (u32 \<times> bus) option" where
  "bus_read32 addr b =
     (case bus_find_slave_info b addr of
        None \<Rightarrow> Some (0, b)
      | Some i \<Rightarrow> do {
          let e = slave_info_list b ! i;
          (v, d) \<leftarrow> dev_read32 (addr - si_base e) (si_slave e);
          Some (v, bus_upd i d b) })"

fun bus_apply :: "bus_request \<Rightarrow> bus \<Rightarrow> bus option" where
  "bus_apply (Bus_write8 a v) b = bus_write8 a v b"
| "bus_apply (Bus_write16 a v) b = bus_write16 a v b"
| "bus_apply (Bus_write32 a v) b = bus_write32 a v b"

definition bus_sync :: "bus \<Rightarrow> bus option" where
  "bus_sync b = do {
     t \<leftarrow> fold_opt bus_apply (bus_request_q b) b;
     Some (t\<lparr>bus_request_q := []\<rparr>) }"

definition bus_boot :: "bus option" where
  "bus_boot = do {
     b \<leftarrow> bus_map 0x80000000 1048576 (Memory (memory_init 0)) bus_new;
     bus_map 0x20000000 0x10000 (Clint (clint_init 0)) b }"

section \<open>The address map\<close>

definition region :: "slave_info_t \<Rightarrow> nat set" where
  "region i = {unat (si_base i)..<unat (si_base i) + unat (si_size i)}"

definition no_wrap :: "u32 \<Rightarrow> u32 \<Rightarrow> bool" where
  "no_wrap base sz = (unat base + unat sz < 2 ^ 32)"

text \<open>The regions do not wrap around the address space, do not overlap, and every device is out of
  test mode and knows the size of its region.\<close>

definition bus_inv :: "bus \<Rightarrow> bool" where
  "bus_inv b =
     ((\<forall>e \<in> set (slave_info_list b). no_wrap (si_base e) (si_size e) \<and> dev_quiet (si_slave e)
         \<and> dev_size (si_slave e) = si_size e)
      \<and> (\<forall>i < length (slave_info_list b). \<forall>j < length (slave_info_list b). i \<noteq> j \<longrightarrow>
           region (slave_info_list b ! i) \<inter> region (slave_info_list b ! j) = {}))"

lemma unat_add_nw: "no_wrap a b \<Longrightarrow> unat (a + b) = unat a + unat b"
  by (simp add: no_wrap_def unat_word_ariths)

lemma slave_covers_iff:
  "no_wrap (si_base e) (si_size e) \<Longrightarrow> slave_covers addr e \<longleftrightarrow> unat addr \<in> region e"
  by (simp add: slave_covers_def region_def word_le_nat_alt word_less_nat_alt unat_add_nw)

lemma slave_overlaps_iff:
  assumes "no_wrap (si_base e) (si_size e)" "no_wrap base sz"
  shows "slave_overlaps base sz e \<longleftrightarrow>
    (unat base \<in> region e \<or> (unat base < unat (si_base e) \<and> unat (si_base e) < unat base + unat sz))"
  using assms
  by (simp add: slave_overlaps_def region_def word_le_nat_alt word_less_nat_alt unat_add_nw)

lemma find_index_Some:
  "find_index p xs = Some i \<Longrightarrow> i < length xs \<and> p (xs ! i)"
  by (induction xs arbitrary: i) (auto split: if_splits)

lemma find_index_None: "find_index p xs = None \<longleftrightarrow> (\<forall>x \<in> set xs. \<not> p x)"
  by (induction xs) auto

lemma bus_find_unique:
  assumes "bus_inv b"
  shows "bus_find_slave_info b addr = Some i
    \<longleftrightarrow> i < length (slave_info_list b) \<and> unat addr \<in> region (slave_info_list b ! i)"
proof -
  have cov: "slave_covers addr e \<longleftrightarrow> unat addr \<in> region e" if "e \<in> set (slave_info_list b)" for e
    using that assms slave_covers_iff by (auto simp: bus_inv_def)
  show ?thesis
  proof
    assume "bus_find_slave_info b addr = Some i"
    from find_index_Some [OF this [unfolded bus_find_slave_info_def]] cov
    show "i < length (slave_info_list b) \<and> unat addr \<in> region (slave_info_list b ! i)" by auto
  next
    assume r: "i < length (slave_info_list b) \<and> unat addr \<in> region (slave_info_list b ! i)"
    then have "bus_find_slave_info b addr \<noteq> None"
      using cov by (auto simp: bus_find_slave_info_def find_index_None)
    then obtain j where j: "bus_find_slave_info b addr = Some j" by blast
    from find_index_Some [OF this [unfolded bus_find_slave_info_def]] cov
    have "j < length (slave_info_list b) \<and> unat addr \<in> region (slave_info_list b ! j)" by auto
    with r assms have "j = i" unfolding bus_inv_def by blast
    with j show "bus_find_slave_info b addr = Some i" by simp
  qed
qed

lemma bus_find_none:
  assumes "bus_inv b"
  shows "bus_find_slave_info b addr = None \<longleftrightarrow> (\<forall>e \<in> set (slave_info_list b). unat addr \<notin> region e)"
  using bus_find_unique [OF assms, of addr] by (metis in_set_conv_nth not_None_eq)

lemma dev_init_props: "dev_quiet d \<Longrightarrow> dev_quiet (dev_init n d) \<and> dev_size (dev_init n d) = n"
  by (cases d) simp_all

lemma bus_map_inv:
  assumes "bus_inv b" "no_wrap base sz" "0 < unat sz" "dev_quiet d" "bus_map base sz d b = Some c"
  shows "bus_inv c"
proof -
  let ?n = "\<lparr>si_base = base, si_size = sz, si_slave = dev_init sz d\<rparr>"
  have c: "slave_info_list c = slave_info_list b @ [?n]"
    and no: "\<forall>e \<in> set (slave_info_list b). \<not> slave_overlaps base sz e"
    using assms(5) by (auto simp: bus_map_def bus_check_addr_override_def list_ex_iff bind_eq_Some_conv)
  have "region e \<inter> region ?n = {}" if e: "e \<in> set (slave_info_list b)" for e
  proof -
    have "no_wrap (si_base e) (si_size e)" using assms(1) e by (auto simp: bus_inv_def)
    from slave_overlaps_iff [OF this assms(2)] no e
    have "\<not> (unat base \<in> region e \<or> (unat base < unat (si_base e) \<and> unat (si_base e) < unat base + unat sz))"
      by blast
    then show ?thesis by (auto simp: region_def)
  qed
  then have dis: "region (slave_info_list b ! i) \<inter> region ?n = {}" if "i < length (slave_info_list b)" for i
    using that by simp
  show ?thesis
    unfolding bus_inv_def c
  proof (intro conjI allI impI ballI)
    fix e assume "e \<in> set (slave_info_list b @ [?n])"
    then show "no_wrap (si_base e) (si_size e)" "dev_quiet (si_slave e)" "dev_size (si_slave e) = si_size e"
      using assms(1,2) dev_init_props [OF assms(4)] by (auto simp: bus_inv_def)
  next
    fix i j assume "i < length (slave_info_list b @ [?n])" "j < length (slave_info_list b @ [?n])" "i \<noteq> j"
    then show "region ((slave_info_list b @ [?n]) ! i) \<inter> region ((slave_info_list b @ [?n]) ! j) = {}"
      using assms(1) dis [of i] dis [of j]
      by (auto simp: bus_inv_def nth_append Int_commute less_Suc_eq)
  qed
qed

section \<open>Accesses by size\<close>

definition bus_write :: "nat \<Rightarrow> u32 \<Rightarrow> u32 \<Rightarrow> bus \<Rightarrow> bus option" where
  "bus_write n a v b =
     (if n = 1 then bus_write8 a (ucast v) b else if n = 2 then bus_write16 a (ucast v) b else bus_write32 a v b)"

definition bus_read :: "nat \<Rightarrow> u32 \<Rightarrow> bus \<Rightarrow> (u32 \<times> bus) option" where
  "bus_read n a b =
     (if n = 1 then map_option (map_prod ucast id) (bus_read8 a b)
      else if n = 2 then map_option (map_prod ucast id) (bus_read16 a b) else bus_read32 a b)"

lemma bus_write_eq:
  "bus_write n a v b = (case bus_find_slave_info b a of
      None \<Rightarrow> Some b
    | Some i \<Rightarrow> (case dev_write n (a - si_base (slave_info_list b ! i)) v (si_slave (slave_info_list b ! i)) of
        None \<Rightarrow> None | Some d \<Rightarrow> Some (bus_upd i d b)))"
  by (auto simp: bus_write_def dev_write_def bus_write8_def bus_write16_def bus_write32_def Let_def
      split: option.split)

lemma bus_read_eq:
  "bus_read n a b = (case bus_find_slave_info b a of
      None \<Rightarrow> Some (0, b)
    | Some i \<Rightarrow> (case dev_read n (a - si_base (slave_info_list b ! i)) (si_slave (slave_info_list b ! i)) of
        None \<Rightarrow> None | Some (v, d) \<Rightarrow> Some (v, bus_upd i d b)))"
  by (auto simp: bus_read_def dev_read_def bus_read8_def bus_read16_def bus_read32_def Let_def
      split: option.split)

lemma bus_upd_same: "i < length (slave_info_list b) \<Longrightarrow> bus_upd i (si_slave (slave_info_list b ! i)) b = b"
  by (simp add: bus_upd_def)

lemma bus_upd_fields:
  assumes "i < length (slave_info_list b)"
  shows "length (slave_info_list (bus_upd i d b)) = length (slave_info_list b)"
    "bus_request_q (bus_upd i d b) = bus_request_q b"
    "si_base (slave_info_list (bus_upd i d b) ! j) = si_base (slave_info_list b ! j)"
    "si_size (slave_info_list (bus_upd i d b) ! j) = si_size (slave_info_list b ! j)"
    "j < length (slave_info_list b) \<Longrightarrow> si_slave (slave_info_list (bus_upd i d b) ! j)
       = (if i = j then d else si_slave (slave_info_list b ! j))"
    "region (slave_info_list (bus_upd i d b) ! j) = region (slave_info_list b ! j)"
  using assms by (auto simp: bus_upd_def region_def nth_list_update)

lemma bus_inv_nth:
  assumes "bus_inv b" "i < length (slave_info_list b)"
  shows "no_wrap (si_base (slave_info_list b ! i)) (si_size (slave_info_list b ! i))"
    "dev_quiet (si_slave (slave_info_list b ! i))"
    "dev_size (si_slave (slave_info_list b ! i)) = si_size (slave_info_list b ! i)"
  using assms by (auto simp: bus_inv_def)

lemma bus_upd_inv:
  assumes "bus_inv b" "i < length (slave_info_list b)"
    and "dev_quiet d" "dev_size d = si_size (slave_info_list b ! i)"
  shows "bus_inv (bus_upd i d b)"
proof -
  have "no_wrap (si_base e) (si_size e) \<and> dev_quiet (si_slave e) \<and> dev_size (si_slave e) = si_size e"
    if "e \<in> set (slave_info_list (bus_upd i d b))" for e
  proof -
    from that obtain j where j: "j < length (slave_info_list b)" "e = slave_info_list (bus_upd i d b) ! j"
      using bus_upd_fields(1) [OF assms(2)] by (auto simp: in_set_conv_nth)
    show ?thesis
      using bus_inv_nth [OF assms(1) j(1)] assms(3,4) bus_upd_fields [OF assms(2)] j by auto
  qed
  then show ?thesis
    using assms(1) unfolding bus_inv_def bus_upd_fields(1) [OF assms(2)] bus_upd_fields(6) [OF assms(2)]
    by blast
qed

lemma bus_find_upd:
  assumes "bus_inv b" "i < length (slave_info_list b)" "dev_quiet d"
    "dev_size d = si_size (slave_info_list b ! i)"
  shows "bus_find_slave_info (bus_upd i d b) a = bus_find_slave_info b a"
proof -
  have "bus_find_slave_info (bus_upd i d b) a = Some k \<longleftrightarrow> bus_find_slave_info b a = Some k" for k
    unfolding bus_find_unique [OF assms(1)] bus_find_unique [OF bus_upd_inv [OF assms]]
    by (simp add: bus_upd_fields [OF assms(2)])
  then show ?thesis by (metis not_None_eq)
qed

lemma bus_write_inv:
  assumes "bus_inv b" "n = 1 \<or> n = 2 \<or> n = 4" "bus_write n a v b = Some c"
  shows "bus_inv c"
proof (cases "bus_find_slave_info b a")
  case None
  with assms show ?thesis by (simp add: bus_write_eq)
next
  case (Some i)
  then have i: "i < length (slave_info_list b)" using bus_find_unique [OF assms(1)] by blast
  let ?e = "slave_info_list b ! i"
  from Some assms(3) obtain d where d: "dev_write n (a - si_base ?e) v (si_slave ?e) = Some d"
      "c = bus_upd i d b" by (auto simp: bus_write_eq split: option.splits)
  note e = bus_inv_nth [OF assms(1) i]
  have "dev_quiet d \<and> dev_size d = dev_size (si_slave ?e)"
    using dev.wr_ok [OF e(2) assms(2)] dev.wr_bad [OF e(2) assms(2)] d(1) by (metis option.distinct(1) option.inject)
  then show ?thesis using bus_upd_inv [OF assms(1) i] d(2) e(3) by simp
qed

fun request_write :: "bus_request \<Rightarrow> nat \<times> u32 \<times> u32" where
  "request_write (Bus_write8 a v) = (1, a, ucast v)"
| "request_write (Bus_write16 a v) = (2, a, ucast v)"
| "request_write (Bus_write32 a v) = (4, a, v)"

lemma bus_apply_write: "bus_apply q b = (case request_write q of (n, a, v) \<Rightarrow> bus_write n a v b)"
proof -
  have "ucast (ucast (x :: u8) :: u32) = x" "ucast (ucast (y :: u16) :: u32) = y" for x y
    by (rule bit_eqI; auto simp: bit_simps dest: bit_imp_le_length)+
  then show ?thesis by (cases q) (simp_all add: bus_write_def)
qed

interpretation bus_dq: deferred bus_apply bus_inv "\<lambda>_. True"
proof
  fix b c q assume "bus_inv b" "bus_apply q b = Some c"
  then show "bus_inv c"
    by (cases q) (auto simp: bus_apply_write intro: bus_write_inv)
qed

section \<open>Memory seen through the bus\<close>

text \<open>The byte at a bus address, zero where there is no memory.\<close>

definition bus_flat :: "bus \<Rightarrow> nat \<Rightarrow> u8" where
  "bus_flat b A = (if A < 2 ^ 32 then
     (case bus_find_slave_info b (of_nat A) of
        None \<Rightarrow> 0
      | Some i \<Rightarrow> (case si_slave (slave_info_list b ! i) of
            Memory s \<Rightarrow> mem s (A - unat (si_base (slave_info_list b ! i)))
          | Clint _ \<Rightarrow> 0)) else 0)"

text \<open>An aligned access inside a memory region.\<close>

definition entry_mem_ok :: "nat \<Rightarrow> u32 \<Rightarrow> slave_info_t \<Rightarrow> bool" where
  "entry_mem_ok n a e = (case si_slave e of
      Memory s \<Rightarrow> access_ok (si_size e) n (a - si_base e)
    | Clint _ \<Rightarrow> False)"

definition bus_mem_ok :: "bus \<Rightarrow> nat \<Rightarrow> u32 \<Rightarrow> bool" where
  "bus_mem_ok b n a = ((n = 1 \<or> n = 2 \<or> n = 4) \<and>
     (case bus_find_slave_info b a of
        None \<Rightarrow> False
      | Some i \<Rightarrow> entry_mem_ok n a (slave_info_list b ! i)))"

lemma load_le_cong:
  "(\<And>k. k < n \<Longrightarrow> m (a + k) = m' (a' + k)) \<Longrightarrow> load_le m a n = load_le m' a' n"
proof (induction n arbitrary: a a')
  case (Suc n)
  have "load_le m (a + 1) n = load_le m' (a' + 1) n"
  proof (rule Suc.IH)
    fix k assume "k < n"
    with Suc.prems [of "Suc k"] show "m (a + 1 + k) = m' (a' + 1 + k)" by simp
  qed
  with Suc.prems [of 0] show ?case by simp
qed simp

lemma bus_flat_region:
  assumes "bus_inv b" "i < length (slave_info_list b)" "A \<in> region (slave_info_list b ! i)"
    and "si_slave (slave_info_list b ! i) = Memory s"
  shows "bus_flat b A = mem s (A - unat (si_base (slave_info_list b ! i)))"
proof -
  have "A < 2 ^ 32" using assms(3) bus_inv_nth(1) [OF assms(1,2)] by (simp add: region_def no_wrap_def)
  then have u: "unat (of_nat A :: u32) = A" by (simp add: unat_of_nat)
  then have "bus_find_slave_info b (of_nat A) = Some i"
    using bus_find_unique [OF assms(1), of "of_nat A"] assms(2,3) by simp
  with \<open>A < 2 ^ 32\<close> assms(4) show ?thesis by (simp add: bus_flat_def)
qed

lemma bus_mem_okD:
  assumes "bus_inv b" "bus_mem_ok b n a"
  obtains i s where "bus_find_slave_info b a = Some i" "i < length (slave_info_list b)"
    "si_slave (slave_info_list b ! i) = Memory s" "n = 1 \<or> n = 2 \<or> n = 4"
    "access_ok (si_size (slave_info_list b ! i)) n (a - si_base (slave_info_list b ! i))"
    "unat a = unat (si_base (slave_info_list b ! i)) + unat (a - si_base (slave_info_list b ! i))"
    "\<And>k. k < n \<Longrightarrow> unat a + k \<in> region (slave_info_list b ! i)"
proof -
  from assms(2) obtain i s where i: "bus_find_slave_info b a = Some i"
    "si_slave (slave_info_list b ! i) = Memory s" "n = 1 \<or> n = 2 \<or> n = 4"
    "access_ok (si_size (slave_info_list b ! i)) n (a - si_base (slave_info_list b ! i))"
    by (auto simp: bus_mem_ok_def entry_mem_ok_def split: option.splits slave.splits)
  from i(1) have l: "i < length (slave_info_list b)" "unat a \<in> region (slave_info_list b ! i)"
    using bus_find_unique [OF assms(1)] by blast+
  let ?e = "slave_info_list b ! i"
  have "si_base ?e \<le> a" using l(2) by (simp add: region_def word_le_nat_alt)
  then have u: "unat a = unat (si_base ?e) + unat (a - si_base ?e)"
    by (simp add: unat_sub word_le_nat_alt)
  have "unat a + k \<in> region ?e" if "k < n" for k
    using that i(4) u by (simp add: region_def access_ok_def)
  with that [OF i(1) l(1) i(2-4) u] show thesis by blast
qed

lemma bus_read_mem:
  assumes "bus_inv b" "bus_mem_ok b n a"
  shows "bus_read n a b = Some (load_le (bus_flat b) (unat a) n, b)"
proof -
  from bus_mem_okD [OF assms] obtain i s where f: "bus_find_slave_info b a = Some i"
    "i < length (slave_info_list b)" "si_slave (slave_info_list b ! i) = Memory s" "n = 1 \<or> n = 2 \<or> n = 4"
    "access_ok (si_size (slave_info_list b ! i)) n (a - si_base (slave_info_list b ! i))"
    "unat a = unat (si_base (slave_info_list b ! i)) + unat (a - si_base (slave_info_list b ! i))"
    "\<And>k. k < n \<Longrightarrow> unat a + k \<in> region (slave_info_list b ! i)" by metis
  let ?e = "slave_info_list b ! i"
  note e = bus_inv_nth [OF assms(1) f(2)]
  have "dev_read n (a - si_base ?e) (si_slave ?e)
      = Some (load_le (mem s) (unat (a - si_base ?e)) n, si_slave ?e)"
    using dev_read_quiet [OF e(2) f(4), of "a - si_base ?e"] f(3,5) e(3) by simp
  moreover have "load_le (mem s) (unat (a - si_base ?e)) n = load_le (bus_flat b) (unat a) n"
  proof (rule load_le_cong)
    fix k assume "k < n"
    from bus_flat_region [OF assms(1) f(2) f(7) [OF this] f(3)] f(6)
    show "mem s (unat (a - si_base ?e) + k) = bus_flat b (unat a + k)" by simp
  qed
  ultimately show ?thesis using f(1) bus_upd_same [OF f(2)] by (simp add: bus_read_eq)
qed

lemma bus_write_mem:
  assumes "bus_inv b" "bus_mem_ok b n a"
  shows "\<exists>c. bus_write n a v b = Some c \<and> bus_inv c \<and> bus_request_q c = bus_request_q b
    \<and> bus_flat c = store_le (bus_flat b) (unat a) n v \<and> bus_mem_ok c = bus_mem_ok b
    \<and> bus_find_slave_info c = bus_find_slave_info b"
proof -
  from bus_mem_okD [OF assms] obtain i s where f: "bus_find_slave_info b a = Some i"
    "i < length (slave_info_list b)" "si_slave (slave_info_list b ! i) = Memory s" "n = 1 \<or> n = 2 \<or> n = 4"
    "access_ok (si_size (slave_info_list b ! i)) n (a - si_base (slave_info_list b ! i))"
    "unat a = unat (si_base (slave_info_list b ! i)) + unat (a - si_base (slave_info_list b ! i))"
    "\<And>k. k < n \<Longrightarrow> unat a + k \<in> region (slave_info_list b ! i)" by metis
  let ?e = "slave_info_list b ! i"
  let ?s = "s\<lparr>mem := store_le (mem s) (unat (a - si_base ?e)) n v\<rparr>"
  let ?c = "bus_upd i (Memory ?s) b"
  note e = bus_inv_nth [OF assms(1) f(2)]
  have w: "dev_write n (a - si_base ?e) v (si_slave ?e) = Some (Memory ?s)"
    using dev_write_quiet [OF e(2) f(4), of "a - si_base ?e" v] f(3,5) e(3) by simp
  have q: "dev_quiet (Memory ?s)" "dev_size (Memory ?s) = si_size ?e" using e(2,3) f(3) by simp_all
  have inv: "bus_inv ?c" by (rule bus_upd_inv [OF assms(1) f(2) q])
  have fnd: "bus_find_slave_info ?c x = bus_find_slave_info b x" for x
    by (rule bus_find_upd [OF assms(1) f(2) q])
  note up = bus_upd_fields [OF f(2)]
  have flat: "bus_flat ?c A = store_le (bus_flat b) (unat a) n v A" for A
  proof (cases "A \<in> region ?e")
    case True
    from bus_flat_region [OF inv, of i A ?s] up f(2,3) True
    have "bus_flat ?c A = mem ?s (A - unat (si_base ?e))" by simp
    moreover have "bus_flat b A = mem s (A - unat (si_base ?e))"
      using bus_flat_region [OF assms(1) f(2) True f(3)] .
    moreover have "unat (si_base ?e) \<le> A" using True by (simp add: region_def)
    ultimately show ?thesis using f(6) by (auto simp: store_le_def)
  next
    case False
    then have "\<not> (unat a \<le> A \<and> A < unat a + n)"
      using f(7) [of "A - unat a"] by (metis le_add_diff_inverse less_diff_conv2 add.commute)
    moreover have "bus_flat ?c A = bus_flat b A"
    proof (cases "A < 2 ^ 32")
      case True
      then have "unat (of_nat A :: u32) = A" by (simp add: unat_of_nat)
      then have "bus_find_slave_info b (of_nat A) \<noteq> Some i"
        using False bus_find_unique [OF assms(1)] by auto
      moreover have "bus_find_slave_info b (of_nat A) = Some j \<Longrightarrow> j < length (slave_info_list b)" for j
        using bus_find_unique [OF assms(1)] by blast
      ultimately show ?thesis using up by (auto simp: bus_flat_def fnd split: option.split slave.split)
    qed (simp add: bus_flat_def)
    ultimately show ?thesis by (auto simp: store_le_def)
  qed
  have "bus_mem_ok ?c m x = bus_mem_ok b m x" for m x
  proof (cases "bus_find_slave_info b x")
    case None
    then show ?thesis by (simp add: bus_mem_ok_def fnd)
  next
    case (Some j)
    then have j: "j < length (slave_info_list b)" using bus_find_unique [OF assms(1)] by blast
    have "entry_mem_ok m x (slave_info_list ?c ! j) = entry_mem_ok m x (slave_info_list b ! j)"
      unfolding entry_mem_ok_def up(3,4) up(5) [OF j] using f(3) by auto
    with Some show ?thesis by (simp add: bus_mem_ok_def fnd)
  qed
  then show ?thesis using f(1) w inv flat fnd up(2) by (auto simp: bus_write_eq fun_eq_iff)
qed

section \<open>Correctness\<close>

lemma bus_boot_props:
  "\<exists>b. bus_boot = Some b \<and> bus_inv b \<and> bus_request_q b = []
    \<and> slave_info_list b = [\<lparr>si_base = 0x80000000, si_size = 1048576, si_slave = Memory (memory_init 1048576)\<rparr>,
         \<lparr>si_base = 0x20000000, si_size = 0x10000, si_slave = Clint (clint_init 0x10000)\<rparr>]"
proof -
  let ?m = "\<lparr>si_base = 0x80000000, si_size = 1048576, si_slave = Memory (memory_init 1048576)\<rparr>"
  let ?c = "\<lparr>si_base = 0x20000000, si_size = 0x10000, si_slave = Clint (clint_init 0x10000)\<rparr>"
  let ?b = "bus_new\<lparr>slave_info_list := [?m]\<rparr>"
  let ?d = "bus_new\<lparr>slave_info_list := [?m, ?c]\<rparr>"
  have b: "bus_map 0x80000000 1048576 (Memory (memory_init 0)) bus_new = Some ?b"
    by (simp add: bus_map_def bus_check_addr_override_def bus_new_def memory_init_def)
  have c: "bus_map 0x20000000 0x10000 (Clint (clint_init 0)) ?b = Some ?d"
    by (simp add: bus_map_def bus_check_addr_override_def slave_overlaps_def clint_init_def)
  have "bus_inv bus_new" by (simp add: bus_inv_def bus_new_def)
  then have "bus_inv ?b" by (rule bus_map_inv [OF _ _ _ _ b]) (simp_all add: no_wrap_def memory_init_def)
  then have "bus_inv ?d" by (rule bus_map_inv [OF _ _ _ _ c]) (simp_all add: no_wrap_def clint_init_def)
  with b c show ?thesis by (simp add: bus_boot_def bus_new_def)
qed

text \<open>The map made at start-up is well formed and every address is routed to exactly the device
  whose range contains it: the memory for 0x80000000 to 0x800FFFFF, the CLINT for 0x20000000 to
  0x2000FFFF, nothing for the rest, whose reads give 0 and whose writes are ignored.\<close>

theorem bus_boot_routes:
  "\<exists>b. bus_boot = Some b \<and> bus_inv b
    \<and> (\<forall>a. bus_find_slave_info b a =
         (if 0x80000000 \<le> unat a \<and> unat a < 0x80100000 then Some 0
          else if 0x20000000 \<le> unat a \<and> unat a < 0x20010000 then Some 1 else None))
    \<and> (\<forall>a n v. bus_find_slave_info b a = None \<longrightarrow> bus_read n a b = Some (0, b) \<and> bus_write n a v b = Some b)"
proof -
  from bus_boot_props obtain b where b: "bus_boot = Some b" "bus_inv b"
    "slave_info_list b = [\<lparr>si_base = 0x80000000, si_size = 1048576, si_slave = Memory (memory_init 1048576)\<rparr>,
         \<lparr>si_base = 0x20000000, si_size = 0x10000, si_slave = Clint (clint_init 0x10000)\<rparr>]" by blast
  have r: "region (slave_info_list b ! 0) = {0x80000000..<0x80100000}"
    "region (slave_info_list b ! 1) = {0x20000000..<0x20010000}" "length (slave_info_list b) = 2"
    by (simp_all add: b(3) region_def)
  have "bus_find_slave_info b a =
         (if 0x80000000 \<le> unat a \<and> unat a < 0x80100000 then Some 0
          else if 0x20000000 \<le> unat a \<and> unat a < 0x20010000 then Some 1 else None)" for a
    using bus_find_unique [OF b(2), of a 0] bus_find_unique [OF b(2), of a 1] bus_find_none [OF b(2), of a] r
    by (auto simp: b(3) region_def)
  with b(1,2) show ?thesis by (auto simp: bus_read_eq bus_write_eq)
qed

theorem bus_boot_routes_witness:
  "\<exists>b. bus_boot = Some b \<and> bus_read 4 0x1000 b = Some (0, b) \<and> bus_write 1 0x1000 5 b = Some b"
proof -
  from bus_boot_routes obtain b where b: "bus_boot = Some b"
    "\<forall>a. bus_find_slave_info b a =
         (if 0x80000000 \<le> unat a \<and> unat a < 0x80100000 then Some 0
          else if 0x20000000 \<le> unat a \<and> unat a < 0x20010000 then Some 1 else None)"
    "\<forall>a n v. bus_find_slave_info b a = None \<longrightarrow> bus_read n a b = Some (0, b) \<and> bus_write n a v b = Some b" by blast
  have "bus_find_slave_info b 0x1000 = None" using b(2) by simp
  with b(1,3) show ?thesis by blast
qed

fun apply_writes :: "(nat \<times> u32 \<times> u32) list \<Rightarrow> (nat \<Rightarrow> u8) \<Rightarrow> (nat \<Rightarrow> u8)" where
  "apply_writes [] m = m"
| "apply_writes ((n, a, v) # ws) m = apply_writes ws (store_le m (unat a) n v)"

lemma bus_replay_mem:
  assumes "bus_inv b" "\<forall>q \<in> set qs. case request_write q of (n, a, v) \<Rightarrow> bus_mem_ok b n a"
  shows "\<exists>c. fold_opt bus_apply qs b = Some c \<and> bus_inv c \<and> bus_request_q c = bus_request_q b
    \<and> bus_flat c = apply_writes (map request_write qs) (bus_flat b) \<and> bus_mem_ok c = bus_mem_ok b
    \<and> bus_find_slave_info c = bus_find_slave_info b"
  using assms
proof (induction qs arbitrary: b)
  case (Cons q qs)
  obtain n a v where q: "request_write q = (n, a, v)" by (cases "request_write q")
  with Cons.prems have ok: "bus_mem_ok b n a" by auto
  from bus_write_mem [OF Cons.prems(1) ok, of v] obtain c where
    c: "bus_write n a v b = Some c" "bus_inv c" "bus_request_q c = bus_request_q b"
      "bus_flat c = store_le (bus_flat b) (unat a) n v" "bus_mem_ok c = bus_mem_ok b"
      "bus_find_slave_info c = bus_find_slave_info b" by blast
  have "\<forall>q \<in> set qs. case request_write q of (n, a, v) \<Rightarrow> bus_mem_ok c n a"
    using Cons.prems(2) c(5) by simp
  from Cons.IH [OF c(2) this] obtain d where
    d: "fold_opt bus_apply qs c = Some d" "bus_inv d" "bus_request_q d = bus_request_q c"
      "bus_flat d = apply_writes (map request_write qs) (bus_flat c)" "bus_mem_ok d = bus_mem_ok c"
      "bus_find_slave_info d = bus_find_slave_info c" by blast
  have "bus_apply q b = Some c" using c(1) q by (simp add: bus_apply_write)
  with c d q show ?case by simp
qed simp

text \<open>C24: at the end of a cycle the deferred bus writes to memory have all been performed, in order:
  the memory seen through the bus is the old one with the writes applied one after the other, and
  an aligned read inside a memory gives exactly those bytes.\<close>

theorem bus_sync_correct:
  assumes "bus_inv b" "\<forall>q \<in> set (bus_request_q b). case request_write q of (n, a, v) \<Rightarrow> bus_mem_ok b n a"
  shows "\<exists>c. bus_sync b = Some c \<and> bus_inv c \<and> bus_request_q c = []
    \<and> bus_flat c = apply_writes (map request_write (bus_request_q b)) (bus_flat b)
    \<and> (\<forall>n a. bus_mem_ok b n a \<longrightarrow>
         bus_read n a c = Some (load_le (apply_writes (map request_write (bus_request_q b)) (bus_flat b)) (unat a) n, c))"
proof -
  from bus_replay_mem [OF assms] obtain c where
    c: "fold_opt bus_apply (bus_request_q b) b = Some c" "bus_inv c"
      "bus_flat c = apply_writes (map request_write (bus_request_q b)) (bus_flat b)"
      "bus_mem_ok c = bus_mem_ok b" by blast
  let ?c = "c\<lparr>bus_request_q := []\<rparr>"
  have i: "bus_inv ?c" using c(2) by (simp add: bus_inv_def)
  have f: "bus_find_slave_info ?c = bus_find_slave_info c" by (simp add: bus_find_slave_info_def fun_eq_iff)
  have sl: "slave_info_list ?c = slave_info_list c" by simp
  have fl: "bus_flat ?c = bus_flat c" by (rule ext) (simp only: bus_flat_def f sl)
  have mk: "bus_mem_ok ?c = bus_mem_ok c" by (intro ext) (simp only: bus_mem_ok_def f sl)
  from bus_read_mem [OF i] c i show ?thesis by (auto simp: bus_sync_def fl mk)
qed

definition bus_start :: bus where
  "bus_start = the bus_boot"

lemma bus_start_props:
  "bus_boot = Some bus_start" "bus_inv bus_start" "bus_request_q bus_start = []"
  "slave_info_list bus_start = [\<lparr>si_base = 0x80000000, si_size = 1048576, si_slave = Memory (memory_init 1048576)\<rparr>,
     \<lparr>si_base = 0x20000000, si_size = 0x10000, si_slave = Clint (clint_init 0x10000)\<rparr>]"
proof -
  obtain b where b: "bus_boot = Some b" "bus_inv b" "bus_request_q b = []"
    "slave_info_list b = [\<lparr>si_base = 0x80000000, si_size = 1048576, si_slave = Memory (memory_init 1048576)\<rparr>,
     \<lparr>si_base = 0x20000000, si_size = 0x10000, si_slave = Clint (clint_init 0x10000)\<rparr>]"
    using bus_boot_props by blast
  moreover have "bus_start = b" by (simp only: bus_start_def b(1) option.sel)
  ultimately show "bus_boot = Some bus_start" "bus_inv bus_start" "bus_request_q bus_start = []"
    "slave_info_list bus_start = [\<lparr>si_base = 0x80000000, si_size = 1048576, si_slave = Memory (memory_init 1048576)\<rparr>,
     \<lparr>si_base = 0x20000000, si_size = 0x10000, si_slave = Clint (clint_init 0x10000)\<rparr>]"
    by simp_all
qed

theorem bus_sync_correct_witness:
  "\<exists>c. bus_sync (bus_write8_sync 0x80000001 0xAB (bus_write32_sync 0x80000000 0x11223344 bus_start)) = Some c
     \<and> bus_read 4 0x80000000 c = Some (0x1122AB44, c)"
proof -
  let ?b = "bus_write8_sync 0x80000001 0xAB (bus_write32_sync 0x80000000 0x11223344 bus_start)"
  have q: "bus_request_q ?b = [Bus_write32 0x80000000 0x11223344, Bus_write8 0x80000001 0xAB]"
    and l: "slave_info_list ?b = slave_info_list bus_start"
    by (simp_all add: bus_write8_sync_def bus_write32_sync_def bus_start_props)
  have i: "bus_inv ?b" using bus_start_props(2) by (simp add: bus_inv_def l)
  have ok: "bus_mem_ok ?b 4 0x80000000" "bus_mem_ok ?b 1 0x80000001"
    by (simp_all add: bus_mem_ok_def entry_mem_ok_def bus_find_slave_info_def l bus_start_props(4) slave_covers_def access_ok_def)
  then have "\<forall>q \<in> set (bus_request_q ?b). case request_write q of (n, a, v) \<Rightarrow> bus_mem_ok ?b n a"
    unfolding q by simp
  from bus_sync_correct [OF i this] ok(1) obtain c where
    c: "bus_sync ?b = Some c"
      "bus_read 4 0x80000000 c = Some (load_le (apply_writes (map request_write (bus_request_q ?b)) (bus_flat ?b)) (unat (0x80000000 :: u32)) 4, c)"
    by blast
  have "load_le (apply_writes (map request_write (bus_request_q ?b)) (bus_flat ?b)) (unat (0x80000000 :: u32)) 4 = 0x1122AB44"
    unfolding q load_le_4 by (simp add: store_le_def)
  with c show ?thesis by simp
qed

end
