(* ===== verification/Store_Buffer.thy ===== *)
theory Store_Buffer
  imports Walk Bus Pipeline_Common
begin

text \<open>
  \<open>component/store_buffer.h\<close>: the queue of stores between the load/store unit and the bus.  A store
  waits until the reorder buffer has committed it, then \<open>run()\<close> writes it back; loads take the bytes
  of the stores still waiting through \<open>get_feedback_value\<close>.  The bus, a pointer in the class, is an
  argument of \<open>run\<close>.
\<close>

record store_buffer_item_t =
  sb_enable :: bool
  sb_committed :: bool
  sb_rob_id :: nat
  sb_pc :: u32
  sb_addr :: u32
  sb_data :: u32
  sb_size :: u32

record store_buffer_state_pack_t =
  pk_wptr :: nat
  pk_wstage :: bool

datatype sb_request = Sb_push store_buffer_item_t | Sb_pop | Sb_restore store_buffer_state_pack_t

record store_buffer = "store_buffer_item_t fifo" +
  sb_request_q :: "sb_request list"

section \<open>Operations\<close>

definition sb_reset :: "store_buffer \<Rightarrow> store_buffer" where
  "sb_reset s = (fifo_reset s)\<lparr>sb_request_q := []\<rparr>"

definition sb_check_id_valid :: "store_buffer \<Rightarrow> nat \<Rightarrow> bool" where
  "sb_check_id_valid s i = ring_check_id_valid s i"

definition sb_get_item :: "store_buffer \<Rightarrow> nat \<Rightarrow> store_buffer_item_t option" where
  "sb_get_item s i = do { cassert (sb_check_id_valid s i); array_get (buffer s) i }"

definition sb_set_item :: "nat \<Rightarrow> store_buffer_item_t \<Rightarrow> store_buffer \<Rightarrow> store_buffer option" where
  "sb_set_item i v s = do {
     cassert (sb_check_id_valid s i);
     b \<leftarrow> array_set (buffer s) i v;
     Some (s\<lparr>buffer := b\<rparr>) }"

definition sb_get_front_id :: "store_buffer \<Rightarrow> nat option" where
  "sb_get_front_id s = (if fifo_is_empty s then None else Some (rptr s))"

definition sb_get_front_id_stage :: "store_buffer \<Rightarrow> (nat \<times> bool) option" where
  "sb_get_front_id_stage s = (if fifo_is_empty s then None else Some (rptr s, rstage s))"

definition sb_get_tail_id :: "store_buffer \<Rightarrow> nat option" where
  "sb_get_tail_id s = (if fifo_is_empty s then None else Some ((wptr s + qsize s - 1) mod qsize s))"

definition sb_get_next_id :: "store_buffer \<Rightarrow> nat \<Rightarrow> (bool \<times> nat) option" where
  "sb_get_next_id s i = ring_get_next_id s i"

definition sb_get_next_id_stage :: "store_buffer \<Rightarrow> nat \<times> bool \<Rightarrow> (bool \<times> nat \<times> bool) option" where
  "sb_get_next_id_stage s c = ring_next_stage s c"

definition sb_save :: "store_buffer \<Rightarrow> store_buffer_state_pack_t" where
  "sb_save s = \<lparr>pk_wptr = wptr s, pk_wstage = wstage s\<rparr>"

definition sb_restore :: "store_buffer_state_pack_t \<Rightarrow> store_buffer \<Rightarrow> store_buffer" where
  "sb_restore p s = s\<lparr>wptr := pk_wptr p, wstage := pk_wstage p\<rparr>"

definition sb_restore_sync :: "store_buffer_state_pack_t \<Rightarrow> store_buffer \<Rightarrow> store_buffer" where
  "sb_restore_sync p s = s\<lparr>sb_request_q := sb_request_q s @ [Sb_restore p]\<rparr>"

definition sb_push_sync :: "store_buffer_item_t \<Rightarrow> store_buffer \<Rightarrow> store_buffer" where
  "sb_push_sync e s = s\<lparr>sb_request_q := sb_request_q s @ [Sb_push e]\<rparr>"

definition sb_pop_sync :: "store_buffer \<Rightarrow> store_buffer" where
  "sb_pop_sync s = s\<lparr>sb_request_q := sb_request_q s @ [Sb_pop]\<rparr>"

text \<open>One step of \<open>get_feedback_value\<close>: the bytes of the load that a waiting store covers.\<close>

definition bit_mask :: "u32 \<Rightarrow> u32" where
  "bit_mask bit_length = (if bit_length = 32 then 0xffffffff else push_bit (unat bit_length) 1 - 1)"

definition feedback_step :: "u32 \<Rightarrow> u32 \<Rightarrow> store_buffer_item_t \<Rightarrow> u32 \<Rightarrow> u32" where
  "feedback_step addr sz cur result =
     (if sb_addr cur \<ge> addr \<and> sb_addr cur < addr + sz then
        let bit_offset = push_bit 3 (sb_addr cur - addr);
            bit_length = push_bit 3 (min (sb_size cur) (addr + sz - sb_addr cur));
            m = bit_mask bit_length
        in (result AND NOT (push_bit (unat bit_offset) m)) OR push_bit (unat bit_offset) (sb_data cur AND m)
      else if sb_addr cur < addr \<and> sb_addr cur + sb_size cur > addr then
        let bit_offset = push_bit 3 (addr - sb_addr cur);
            bit_length = push_bit 3 (min sz (sb_addr cur + sb_size cur - addr));
            m = bit_mask bit_length
        in (result AND NOT m) OR (drop_bit (unat bit_offset) (sb_data cur) AND m)
      else result)"

text \<open>The loops run with fuel for one visit of every slot.\<close>

definition sb_get_feedback_value :: "store_buffer \<Rightarrow> u32 \<Rightarrow> u32 \<Rightarrow> u32 \<Rightarrow> u32 option" where
  "sb_get_feedback_value s addr sz bus_value =
     (case sb_get_front_id s of
        None \<Rightarrow> Some bus_value
      | Some first \<Rightarrow> do_while_ids (qsize s) (\<lambda>_. sb_get_next_id s) (\<lambda>i. i) first
          (\<lambda>cur result. do {
             cur_item \<leftarrow> sb_get_item s cur;
             Some (False, feedback_step addr sz cur_item result) })
          first bus_value)"

fun any_match :: "bool list \<Rightarrow> nat list \<Rightarrow> nat \<Rightarrow> bool" where
  "any_match (v # vs) (i # is) x = ((v \<and> i = x) \<or> any_match vs is x)"
| "any_match _ _ x = False"

text \<open>The inner loops over the commit packet.\<close>

definition commit_match :: "commit_feedback_pack_t \<Rightarrow> nat \<Rightarrow> bool" where
  "commit_match c x = any_match (cf_committed_rob_id_valid c) (cf_committed_rob_id c) x"

text \<open>\<open>run()\<close>, in its three parts: on a flush the first store that is neither committed nor being
  committed is looked for, and the write pointer moved back to it; otherwise a committed store at
  the front is popped and its write requested; then the stores of the committed instructions are
  marked.\<close>

definition sb_flush_find :: "commit_feedback_pack_t \<Rightarrow> store_buffer \<Rightarrow> nat \<times> bool \<Rightarrow> (nat \<times> bool) option option" where
  "sb_flush_find c s first =
     do_while_ids (qsize s) (\<lambda>_. sb_get_next_id_stage s) fst (fst first)
       (\<lambda>cur found. do {
          cur_item \<leftarrow> sb_get_item s (fst cur);
          if \<not> sb_committed cur_item
          then let ready_to_commit = cf_enable c \<and> commit_match c (sb_rob_id cur_item)
               in if \<not> ready_to_commit then Some (True, Some cur) else Some (False, found)
          else Some (False, found) })
       first None"

definition sb_flush :: "commit_feedback_pack_t \<Rightarrow> store_buffer \<Rightarrow> store_buffer option" where
  "sb_flush c s = do {
     s \<leftarrow> (case sb_get_front_id_stage s of
            None \<Rightarrow> Some s
          | Some first \<Rightarrow> do {
              found \<leftarrow> sb_flush_find c s first;
              Some (case found of None \<Rightarrow> s | Some (i, st) \<Rightarrow> s\<lparr>wptr := i, wstage := st\<rparr>) });
     Some (s\<lparr>sb_request_q := []\<rparr>) }"

definition sb_write_back :: "bus \<Rightarrow> store_buffer \<Rightarrow> (bus \<times> store_buffer) option" where
  "sb_write_back b s =
     (case fifo_get_front s of
        None \<Rightarrow> Some (b, s)
      | Some item \<Rightarrow>
          if sb_committed item then do {
            let s = snd (fifo_pop s);
            cassert (sb_size item = 1 \<or> sb_size item = 2 \<or> sb_size item = 4);
            let b = (if sb_size item = 1 then bus_write8_sync (sb_addr item) (ucast (sb_data item)) b
                     else if sb_size item = 2 then bus_write16_sync (sb_addr item) (ucast (sb_data item)) b
                     else bus_write32_sync (sb_addr item) (sb_data item) b);
            Some (b, s) }
          else Some (b, s))"

definition sb_mark :: "commit_feedback_pack_t \<Rightarrow> store_buffer_item_t \<Rightarrow> store_buffer_item_t" where
  "sb_mark c item = (if commit_match c (sb_rob_id item) then item\<lparr>sb_committed := True\<rparr> else item)"

definition sb_commit_feedback :: "commit_feedback_pack_t \<Rightarrow> store_buffer \<Rightarrow> store_buffer option" where
  "sb_commit_feedback c s =
     (case sb_get_front_id s of
        None \<Rightarrow> Some s
      | Some first \<Rightarrow> do_while_ids (qsize s) sb_get_next_id (\<lambda>i. i) first
          (\<lambda>cur s. do {
             cur_item \<leftarrow> sb_get_item s cur;
             s \<leftarrow> sb_set_item cur (sb_mark c cur_item) s;
             Some (False, s) })
          first s)"

definition sb_run :: "commit_feedback_pack_t \<Rightarrow> bus \<Rightarrow> store_buffer \<Rightarrow> (bus \<times> store_buffer) option" where
  "sb_run c b s = do {
     (b, s) \<leftarrow> (if cf_enable c \<and> cf_flush c
               then do { s \<leftarrow> sb_flush c s; Some (b, s) }
               else sb_write_back b s);
     s \<leftarrow> (if cf_enable c then sb_commit_feedback c s else Some s);
     Some (b, s) }"

fun sb_apply :: "sb_request \<Rightarrow> store_buffer \<Rightarrow> store_buffer option" where
  "sb_apply (Sb_push e) s = Some (snd (fifo_push e s))"
| "sb_apply Sb_pop s = Some (snd (fifo_pop s))"
| "sb_apply (Sb_restore p) s = Some (sb_restore p s)"

definition sb_sync :: "store_buffer \<Rightarrow> store_buffer option" where
  "sb_sync s = do {
     t \<leftarrow> fold_opt sb_apply (sb_request_q s) s;
     Some (t\<lparr>sb_request_q := []\<rparr>) }"

section \<open>Forwarding\<close>

text \<open>A waiting store of a legal size that does not run past the end of the address space.\<close>

definition sb_item_ok :: "store_buffer_item_t \<Rightarrow> bool" where
  "sb_item_ok i = ((sb_size i = 1 \<or> sb_size i = 2 \<or> sb_size i = 4) \<and> unat (sb_addr i) + unat (sb_size i) < 2 ^ 32)"

definition sb_inv :: "store_buffer \<Rightarrow> bool" where
  "sb_inv s = (fifo_inv s \<and> \<not> pop_status_save s \<and> (\<forall>i \<in> set (fifo_items s). sb_item_ok i))"

definition item_write :: "store_buffer_item_t \<Rightarrow> nat \<times> u32 \<times> u32" where
  "item_write i = (unat (sb_size i), sb_addr i, sb_data i)"

lemma bit_mask_eq:
  assumes "l \<le> 4"
  shows "bit_mask (push_bit 3 (of_nat l)) = mask (8 * l)"
proof -
  consider "l = 0" | "l = 1" | "l = 2" | "l = 3" | "l = 4" using assms by linarith
  then show ?thesis
    by cases (simp_all add: bit_mask_def mask_eq_exp_minus_1)
qed

lemma unat_push3: "unat (x :: u32) < 2 ^ 29 \<Longrightarrow> unat (push_bit 3 x) = 8 * unat x"
  by (simp add: push_bit_eq_mult unat_word_ariths)

lemma min_u32: "unat (x :: u32) = p \<Longrightarrow> unat y = q \<Longrightarrow> min x y = of_nat (min p q)"
  by (auto simp: min_def word_le_nat_alt)

lemma byte_bit_above:
  assumes "(A :: nat) \<le> A'" "8 * (A' - A) \<le> j"
  shows "8 * (A + j div 8 - A') + j mod 8 = j - 8 * (A' - A)"
proof -
  define q r d where qrd: "q = j div 8" "r = j mod 8" "d = A' - A"
  have j: "8 * q + r = j" by (simp add: qrd)
  have "(A' - A) * 8 \<le> j" using assms(2) by (simp add: mult.commute)
  then have dq: "d \<le> q" unfolding qrd by (simp add: less_eq_div_iff_mult_less_eq)
  have "A + q - A' = q - d" using assms(1) qrd(3) by simp
  with dq j show ?thesis unfolding qrd(1-3) [symmetric] by (simp add: diff_mult_distrib2)
qed

lemma byte_bit_below:
  assumes "(A' :: nat) \<le> A"
  shows "8 * (A + j div 8 - A') + j mod 8 = 8 * (A - A') + j"
proof -
  have "A + j div 8 - A' = (A - A') + j div 8" using assms by (rule diff_add_assoc2)
  then have "8 * (A + j div 8 - A') + j mod 8 = 8 * (A - A') + (8 * (j div 8) + j mod 8)"
    by (simp only: distrib_left add.assoc)
  then show ?thesis by (simp only: mult_div_mod_eq)
qed

lemma u32_size_cases: "(n = 1 \<or> n = 2 \<or> n = (4 :: u32)) \<Longrightarrow> unat n = 1 \<or> unat n = 2 \<or> unat n = 4"
  by auto

text \<open>A load result refined byte by byte equals the load from the memory with the store performed.\<close>

lemma feedback_step_store:
  assumes "sb_item_ok i" "n = 1 \<or> n = 2 \<or> n = (4 :: u32)" "unat a + unat n < 2 ^ 32"
  shows "feedback_step a n i (load_le m (unat a) (unat n))
    = load_le (store_le m (unat (sb_addr i)) (unat (sb_size i)) (sb_data i)) (unat a) (unat n)"
proof -
  define A N A' N' where d: "A = unat a" "N = unat n" "A' = unat (sb_addr i)" "N' = unat (sb_size i)"
  have s: "N = 1 \<or> N = 2 \<or> N = 4" "N' = 1 \<or> N' = 2 \<or> N' = 4" "A + N < 2 ^ 32" "A' + N' < 2 ^ 32"
    using assms u32_size_cases by (auto simp: d sb_item_ok_def)
  then have N: "N \<le> 4" "N' \<le> 4" "0 < N" "0 < N'" by auto
  have an: "unat (a + n) = A + N" "unat (sb_addr i + sb_size i) = A' + N'"
    using s by (simp_all add: unat_word_ariths d)
  have l: "bit (load_le x A N) j \<longleftrightarrow> j < 8 * N \<and> bit (x (A + j div 8)) (j mod 8)" for x j
    by (rule bit_load_le [OF N(1)])
  have st: "bit (store_le m A' N' (sb_data i) (A + j div 8)) (j mod 8) \<longleftrightarrow>
     (if A' \<le> A + j div 8 \<and> A + j div 8 < A' + N'
      then bit (sb_data i) (8 * (A + j div 8 - A') + j mod 8) else bit (m (A + j div 8)) (j mod 8))" for j
    by (rule bit_store_le) simp
  consider (above) "A \<le> A'" "A' < A + N" | (below) "A' < A" "A < A' + N'"
    | (none) "A' + N' \<le> A \<or> A + N \<le> A'" by linarith
  then show ?thesis
    unfolding d(1-4) [symmetric]
  proof cases
    case above
    have cond: "a \<le> sb_addr i \<and> sb_addr i < a + n"
      using above an d by (simp add: word_le_nat_alt word_less_nat_alt)
    define o8 L where o8: "o8 = A' - A" and L: "L = min N' (A + N - A')"
    have uo: "unat (sb_addr i - a) = o8" using cond by (simp add: unat_sub o8 d)
    have ul: "min (sb_size i) (a + n - sb_addr i) = of_nat L"
      unfolding L using cond an d by (intro min_u32) (simp_all add: unat_sub less_imp_le)
    have L4: "L \<le> 4" using L N by simp
    have sh: "unat (push_bit 3 (sb_addr i - a)) = 8 * o8"
      using uo above N by (subst unat_push3) (auto simp: o8)
    have "feedback_step a n i r
      = (r AND NOT (push_bit (8 * o8) (mask (8 * L)))) OR push_bit (8 * o8) (sb_data i AND mask (8 * L))" for r
      using cond by (simp add: feedback_step_def Let_def sh ul bit_mask_eq [OF L4])
    moreover have "bit ((load_le m A N AND NOT (push_bit (8 * o8) (mask (8 * L)))) OR push_bit (8 * o8) (sb_data i AND mask (8 * L))) j
        \<longleftrightarrow> bit (load_le (store_le m A' N' (sb_data i)) A N) j" if j: "j < 32" for j :: nat
    proof -
      have lhs: "bit ((load_le m A N AND NOT (push_bit (8 * o8) (mask (8 * L)))) OR push_bit (8 * o8) (sb_data i AND mask (8 * L))) j
        \<longleftrightarrow> (if 8 * o8 \<le> j \<and> j < 8 * o8 + 8 * L then bit (sb_data i) (j - 8 * o8) else bit (load_le m A N) j)"
        using j by (auto simp: bit_or_iff bit_and_iff bit_not_iff bit_push_bit_iff bit_mask32)
      have byte: "A' \<le> A + j div 8 \<longleftrightarrow> 8 * o8 \<le> j" "A + j div 8 < A' + N' \<longleftrightarrow> j < 8 * o8 + 8 * N'"
        using above by (auto simp: o8)
      have len: "j < 8 * o8 + 8 * L \<longleftrightarrow> j < 8 * o8 + 8 * N' \<and> j < 8 * N"
        using above by (auto simp: o8 L min_def)
      have idx: "8 * (A + j div 8 - A') + j mod 8 = j - 8 * o8" if "8 * o8 \<le> j"
        using that above byte_bit_above unfolding o8 by blast
      show ?thesis unfolding lhs l st byte len using idx by auto
    qed
    ultimately show "feedback_step a n i (load_le m A N) = load_le (store_le m A' N' (sb_data i)) A N"
      by (intro bit_word_eqI) simp
  next
    case below
    have cond: "\<not> a \<le> sb_addr i" "sb_addr i < a \<and> a < sb_addr i + sb_size i"
      using below an d by (simp_all add: word_le_nat_alt word_less_nat_alt)
    define o8 L where o8: "o8 = A - A'" and L: "L = min N (A' + N' - A)"
    have uo: "unat (a - sb_addr i) = o8" using cond by (simp add: unat_sub o8 d)
    have ul: "min n (sb_addr i + sb_size i - a) = of_nat L"
      unfolding L using cond an d by (intro min_u32) (simp_all add: unat_sub less_imp_le)
    have L4: "L \<le> 4" using L N by simp
    have sh: "unat (push_bit 3 (a - sb_addr i)) = 8 * o8"
      using uo below N by (subst unat_push3) (auto simp: o8)
    have "feedback_step a n i r = (r AND NOT (mask (8 * L))) OR (drop_bit (8 * o8) (sb_data i) AND mask (8 * L))" for r
      using cond by (simp add: feedback_step_def Let_def sh ul bit_mask_eq [OF L4])
    moreover have "bit ((load_le m A N AND NOT (mask (8 * L))) OR (drop_bit (8 * o8) (sb_data i) AND mask (8 * L))) j
        \<longleftrightarrow> bit (load_le (store_le m A' N' (sb_data i)) A N) j" if j: "j < 32" for j :: nat
    proof -
      have lhs: "bit ((load_le m A N AND NOT (mask (8 * L))) OR (drop_bit (8 * o8) (sb_data i) AND mask (8 * L))) j
        \<longleftrightarrow> (if j < 8 * L then bit (sb_data i) (8 * o8 + j) else bit (load_le m A N) j)"
        using j by (auto simp: bit_or_iff bit_and_iff bit_not_iff bit_drop_bit_eq bit_mask32)
      have byte: "A' \<le> A + j div 8" "A + j div 8 < A' + N' \<longleftrightarrow> j < 8 * (A' + N' - A)"
        using below by auto
      have len: "j < 8 * L \<longleftrightarrow> j < 8 * N \<and> j < 8 * (A' + N' - A)"
        by (auto simp: L min_def)
      have idx: "8 * (A + j div 8 - A') + j mod 8 = 8 * o8 + j"
        using below unfolding o8 by (intro byte_bit_below) simp
      show ?thesis unfolding lhs l st len using idx byte by auto
    qed
    ultimately show "feedback_step a n i (load_le m A N) = load_le (store_le m A' N' (sb_data i)) A N"
      by (intro bit_word_eqI) simp
  next
    case none
    then have "\<not> (a \<le> sb_addr i \<and> sb_addr i < a + n)" "\<not> (sb_addr i < a \<and> a < sb_addr i + sb_size i)"
      using an d N by (auto simp: word_le_nat_alt word_less_nat_alt)
    then have "feedback_step a n i r = r" for r by (simp only: feedback_step_def if_False)
    with none show "feedback_step a n i (load_le m A N) = load_le (store_le m A' N' (sb_data i)) A N"
      using load_store_disjoint [OF N(1)] by metis
  qed
qed

lemma fold_feedback:
  assumes "\<forall>i \<in> set is. sb_item_ok i" "n = 1 \<or> n = 2 \<or> n = (4 :: u32)" "unat a + unat n < 2 ^ 32"
  shows "fold (feedback_step a n) is (load_le m (unat a) (unat n))
    = load_le (apply_writes (map item_write is) m) (unat a) (unat n)"
  using assms(1)
proof (induction "is" arbitrary: m)
  case (Cons i "is")
  then show ?case using feedback_step_store [OF _ assms(2,3), of i m] by (simp add: item_write_def)
qed simp

section \<open>The loops\<close>

lemma sb_request_irrelevant [simp]:
  "fifo_inv (s\<lparr>sb_request_q := q\<rparr>) = fifo_inv s"
  "fifo_items (s\<lparr>sb_request_q := q\<rparr>) = fifo_items s"
  "fifo_is_full (s\<lparr>sb_request_q := q\<rparr>) = fifo_is_full s"
  "fifo_occupied (s\<lparr>sb_request_q := q\<rparr>) = fifo_occupied s"
  by (simp_all add: fifo_inv_def fifo_items_def fifo_is_full_def fifo_occupied_def)

lemma sb_front_id:
  assumes "fifo_inv s"
  shows "sb_get_front_id s = (if ring_ids s = [] then None else Some (rptr s))"
    "sb_get_front_id_stage s = (if ring_ids s = [] then None else Some (rptr s, rstage s))"
  using assms ring_ids_items [OF assms]
  by (simp_all add: sb_get_front_id_def sb_get_front_id_stage_def fifo_empty_iff)

lemma sb_item_live:
  assumes "fifo_inv s" "i \<in> set (ring_ids s)"
  shows "sb_get_item s i = Some (buffer s ! i)"
    and "sb_set_item i v s = Some (s\<lparr>buffer := (buffer s)[i := v]\<rparr>)"
  using assms ring_ids_bound [OF assms]
  by (simp_all add: sb_get_item_def sb_set_item_def sb_check_id_valid_def ring_ids_valid fifo_inv_def)

lemma sb_feedback_items:
  assumes "fifo_inv s"
  shows "sb_get_feedback_value s a n v = Some (fold (feedback_step a n) (fifo_items s) v)"
proof (cases "ring_ids s = []")
  case True
  then show ?thesis by (simp add: sb_get_feedback_value_def sb_front_id assms ring_ids_items)
next
  case False
  let ?body = "\<lambda>cur result. do { cur_item \<leftarrow> sb_get_item s cur; Some (False, feedback_step a n cur_item result) }"
  have "do_while_ids (qsize s) (\<lambda>_. ring_get_next_id s) (\<lambda>i. i) (rptr s) ?body (rptr s) v
      = fold_brk ?body (ring_ids s) v"
    using do_while_ring [of "\<lambda>_. s" v "qsize s" ?body] assms False ring_ids_le by blast
  also have "\<dots> = fold_opt (\<lambda>i r. Some (feedback_step a n (buffer s ! i) r)) (ring_ids s) v"
    by (rule fold_brk_nobreak) (simp add: sb_item_live assms)
  also have "\<dots> = Some (fold (\<lambda>i. feedback_step a n (buffer s ! i)) (ring_ids s) v)"
    by (rule fold_opt_pure) simp
  also have "\<dots> = Some (fold (feedback_step a n) (fifo_items s) v)"
    by (simp add: ring_ids_items assms fold_map comp_def)
  finally show ?thesis
    using False by (simp add: sb_get_feedback_value_def sb_front_id assms sb_get_next_id_def [abs_def])
qed

definition sb_mark_slots :: "commit_feedback_pack_t \<Rightarrow> store_buffer \<Rightarrow> store_buffer" where
  "sb_mark_slots c s = s\<lparr>buffer := fold (\<lambda>i b. b[i := sb_mark c (b ! i)]) (ring_ids s) (buffer s)\<rparr>"

lemma fold_opt_mark:
  assumes "fifo_inv s" "set is \<subseteq> set (ring_ids s)"
  shows "fold_opt (\<lambda>i s. do { it \<leftarrow> sb_get_item s i; sb_set_item i (sb_mark c it) s }) is s
    = Some (s\<lparr>buffer := fold (\<lambda>i b. b[i := sb_mark c (b ! i)]) is (buffer s)\<rparr>)"
  using assms
proof (induction "is" arbitrary: s)
  case (Cons i "is")
  let ?t = "s\<lparr>buffer := (buffer s)[i := sb_mark c (buffer s ! i)]\<rparr>"
  have t: "fifo_inv ?t" "ring_ids ?t = ring_ids s" using Cons.prems(1) by (simp_all add: fifo_inv_def)
  have "set is \<subseteq> set (ring_ids ?t)" using Cons.prems(2) t(2) by simp
  from Cons.IH [OF t(1) this] show ?case
    using Cons.prems by (simp add: sb_item_live)
qed simp

lemma sb_commit_feedback_items:
  assumes "fifo_inv s"
  shows "sb_commit_feedback c s = Some (sb_mark_slots c s)"
    and "fifo_inv (sb_mark_slots c s)" "fifo_items (sb_mark_slots c s) = map (sb_mark c) (fifo_items s)"
proof -
  let ?g = "\<lambda>i s. do { it \<leftarrow> sb_get_item s i; sb_set_item i (sb_mark c it) s }"
  let ?body = "\<lambda>cur s. do { cur_item \<leftarrow> sb_get_item s cur; s \<leftarrow> sb_set_item cur (sb_mark c cur_item) s; Some (False, s) }"
  note dist = ring_ids_distinct [OF assms] and upd = fold_update_slots [OF ring_ids_distinct [OF assms]]
  have len: "length (buffer s) = qsize s" using assms by (simp add: fifo_inv_def)
  show inv: "fifo_inv (sb_mark_slots c s)"
    using assms by (simp add: sb_mark_slots_def upd(1) len)
  have ids: "ring_ids (sb_mark_slots c s) = ring_ids s" by (simp add: sb_mark_slots_def)
  show "fifo_items (sb_mark_slots c s) = map (sb_mark c) (fifo_items s)"
    unfolding ring_ids_items [OF inv] ring_ids_items [OF assms] ids
    using ring_ids_bound [OF assms] len by (auto simp: sb_mark_slots_def upd(2))
  show "sb_commit_feedback c s = Some (sb_mark_slots c s)"
  proof (cases "ring_ids s = []")
    case True
    then show ?thesis by (simp add: sb_commit_feedback_def sb_front_id assms sb_mark_slots_def)
  next
    case False
    have body: "?body = (\<lambda>i s. map_option (Pair False) (?g i s))"
      by (intro ext) (simp add: map_option_case split: option.split bind_splits)
    have "do_while_ids (qsize s) sb_get_next_id (\<lambda>i. i) (rptr s) ?body (rptr s) s = fold_brk ?body (ring_ids s) s"
      unfolding sb_get_next_id_def [abs_def]
    proof (rule do_while_ring [where ring = "\<lambda>s. s"])
      show "fifo_inv s" "ring_ids s \<noteq> []" "length (ring_ids s) \<le> qsize s"
        using assms False ring_ids_le by auto
    next
      fix i b u and t :: store_buffer
      assume i: "i \<in> set (ring_ids s)" and t: "fifo_inv t" "ring_ids t = ring_ids s" "qsize t = qsize s"
        and b: "?body i t = Some (b, u)"
      with sb_item_live [OF t(1), of i]
      have "u = t\<lparr>buffer := (buffer t)[i := sb_mark c (buffer t ! i)]\<rparr>" by simp
      then show "fifo_inv u \<and> ring_ids u = ring_ids s \<and> qsize u = qsize s"
        using t by (simp add: fifo_inv_def)
    qed
    also have "\<dots> = fold_opt ?g (ring_ids s) s"
      unfolding body by (rule fold_brk_nobreak) simp
    also have "\<dots> = Some (sb_mark_slots c s)"
      using fold_opt_mark [OF assms, of "ring_ids s"] by (simp add: sb_mark_slots_def)
    finally show ?thesis using False by (simp add: sb_commit_feedback_def sb_front_id assms)
  qed
qed

text \<open>The stores that survive a flush.\<close>

definition sb_keeps :: "commit_feedback_pack_t \<Rightarrow> store_buffer_item_t \<Rightarrow> bool" where
  "sb_keeps c i = (sb_committed i \<or> (cf_enable c \<and> commit_match c (sb_rob_id i)))"

lemma sb_flush_items:
  assumes "fifo_inv s" "\<not> pop_status_save s"
  shows "\<exists>t. sb_flush c s = Some t \<and> fifo_inv t \<and> \<not> pop_status_save t \<and> sb_request_q t = []
    \<and> fifo_items t = takeWhile (sb_keeps c) (fifo_items s) \<and> qsize t = qsize s"
proof (cases "ring_ids s = []")
  case True
  then have "fifo_items s = []" by (simp add: ring_ids_items assms)
  with True assms show ?thesis by (simp add: sb_flush_def sb_front_id)
next
  case False
  let ?P = "\<lambda>cur. \<not> sb_keeps c (buffer s ! fst cur)"
  let ?body = "\<lambda>cur found. do {
          cur_item \<leftarrow> sb_get_item s (fst cur);
          if \<not> sb_committed cur_item
          then let ready_to_commit = cf_enable c \<and> commit_match c (sb_rob_id cur_item)
               in if \<not> ready_to_commit then Some (True, Some cur) else Some (False, found)
          else Some (False, found) }"
  let ?k = "length (takeWhile (\<lambda>x. \<not> ?P x) (ring_cursors s))"
  have "sb_flush_find c s (rptr s, rstage s) = fold_brk ?body (ring_cursors s) None"
    unfolding sb_flush_find_def sb_get_next_id_stage_def [abs_def] fst_conv
    by (rule do_while_ring_stage [OF assms(1) False ring_ids_le [OF assms(1)]])
  also have "\<dots> = Some (find ?P (ring_cursors s))"
  proof (rule fold_brk_find)
    fix cur found assume "cur \<in> set (ring_cursors s)"
    then have "fst cur \<in> set (ring_ids s)"
      unfolding ring_cursors_ids [OF assms(1), symmetric] by simp
    then show "?body cur found = Some (if ?P cur then (True, Some cur) else (False, found))"
      using assms(1) by (simp add: sb_item_live sb_keeps_def)
  qed
  also have "\<dots> = Some (if ?k < length (ring_ids s) then Some (ring_cursors s ! ?k) else None)"
    by (simp only: find_takeWhile ring_cursors_length)
  finally have f: "sb_flush_find c s (rptr s, rstage s)
      = Some (if ?k < length (ring_ids s) then Some (ring_cursors s ! ?k) else None)" .
  have items: "fifo_items s = map (\<lambda>cur. buffer s ! fst cur) (ring_cursors s)"
    unfolding ring_ids_items [OF assms(1)] ring_cursors_ids [OF assms(1), symmetric] by simp
  have keep: "takeWhile (sb_keeps c) (fifo_items s) = take ?k (fifo_items s)"
    unfolding items takeWhile_map comp_def by (subst takeWhile_eq_take) (simp add: take_map)
  show ?thesis
  proof (cases "?k < length (ring_ids s)")
    case True
    obtain i st where c: "ring_cursors s ! ?k = (i, st)" by (cases "ring_cursors s ! ?k")
    let ?t = "s\<lparr>wptr := i, wstage := st\<rparr>"
    from ring_truncate [OF assms True c] have t: "fifo_inv ?t" "ring_ids ?t = take ?k (ring_ids s)" by auto
    have "fifo_items ?t = take ?k (fifo_items s)"
      unfolding ring_ids_items [OF t(1)] ring_ids_items [OF assms(1)] t(2) by (simp add: take_map)
    with True f t c keep assms False show ?thesis
      by (simp add: sb_flush_def sb_front_id)
  next
    case k: False
    then have "take ?k (fifo_items s) = fifo_items s" by (simp add: ring_ids_length assms(1))
    with keep have "takeWhile (sb_keeps c) (fifo_items s) = fifo_items s" by simp
    with k f assms False show ?thesis
      by (simp add: sb_flush_def sb_front_id del: takeWhile_eq_all_conv)
  qed
qed

section \<open>One cycle\<close>

text \<open>The bus request for a store.\<close>

definition item_request :: "store_buffer_item_t \<Rightarrow> bus_request" where
  "item_request i =
     (if sb_size i = 1 then Bus_write8 (sb_addr i) (ucast (sb_data i))
      else if sb_size i = 2 then Bus_write16 (sb_addr i) (ucast (sb_data i))
      else Bus_write32 (sb_addr i) (sb_data i))"

text \<open>What a cycle does to the list of waiting stores: the one written back, and those left.\<close>

fun write_back_spec :: "store_buffer_item_t list \<Rightarrow> store_buffer_item_t list \<times> store_buffer_item_t list" where
  "write_back_spec [] = ([], [])"
| "write_back_spec (i # is) = (if sb_committed i then ([i], is) else ([], i # is))"

definition sb_run_spec :: "commit_feedback_pack_t \<Rightarrow> store_buffer_item_t list
    \<Rightarrow> store_buffer_item_t list \<times> store_buffer_item_t list" where
  "sb_run_spec c is =
     (let (out, rest) = (if cf_enable c \<and> cf_flush c then ([], takeWhile (sb_keeps c) is) else write_back_spec is)
      in (out, if cf_enable c then map (sb_mark c) rest else rest))"

lemma sb_mark_ok [simp]: "sb_item_ok (sb_mark c i) = sb_item_ok i" "item_write (sb_mark c i) = item_write i"
  by (simp_all add: sb_mark_def sb_item_ok_def item_write_def)

lemma write_back_items:
  assumes "sb_inv s"
  shows "\<exists>t. sb_write_back b s = Some (b\<lparr>bus_request_q := bus_request_q b @ map item_request (fst (write_back_spec (fifo_items s)))\<rparr>, t)
    \<and> fifo_inv t \<and> \<not> pop_status_save t \<and> fifo_items t = snd (write_back_spec (fifo_items s))
    \<and> sb_request_q t = sb_request_q s \<and> qsize t = qsize s"
proof (cases "fifo_items s")
  case Nil
  then show ?thesis using assms by (auto simp: sb_write_back_def fifo_front_eq sb_inv_def)
next
  case (Cons i xs)
  have inv: "fifo_inv s" "\<not> pop_status_save s" "sb_item_ok i" using assms Cons by (auto simp: sb_inv_def)
  obtain y t where p: "fifo_pop s = (y, t)" by (cases "fifo_pop s")
  note q = fifo_pop_ok [OF inv(1) Cons p] fifo_pop_fields [OF p]
  have r: "sb_request_q t = sb_request_q s"
    using p by (auto simp: fifo_pop_def Let_def split: if_splits)
  show ?thesis
  proof (cases "sb_committed i")
    case True
    with inv q p r Cons show ?thesis
      by (auto simp: sb_write_back_def fifo_front_eq item_request_def bus_write8_sync_def bus_write16_sync_def
          bus_write32_sync_def sb_item_ok_def Let_def)
  next
    case False
    with inv Cons show ?thesis by (auto simp: sb_write_back_def fifo_front_eq)
  qed
qed

lemma sb_run_items:
  assumes "sb_inv s"
  shows "\<exists>t. sb_run c b s = Some (b\<lparr>bus_request_q := bus_request_q b @ map item_request (fst (sb_run_spec c (fifo_items s)))\<rparr>, t)
    \<and> sb_inv t \<and> fifo_items t = snd (sb_run_spec c (fifo_items s))
    \<and> sb_request_q t = (if cf_enable c \<and> cf_flush c then [] else sb_request_q s) \<and> qsize t = qsize s"
proof -
  let ?fl = "cf_enable c \<and> cf_flush c"
  have inv: "fifo_inv s" "\<not> pop_status_save s" using assms by (auto simp: sb_inv_def)
  obtain out rest where s1: "(out, rest) = (if ?fl then ([], takeWhile (sb_keeps c) (fifo_items s)) else write_back_spec (fifo_items s))"
    by (metis surj_pair)
  have sub: "set rest \<subseteq> set (fifo_items s)"
    using s1 set_takeWhileD by (cases "fifo_items s") (fastforce split: if_splits)+
  let ?b = "b\<lparr>bus_request_q := bus_request_q b @ map item_request out\<rparr>"
  have "\<exists>t. (if ?fl then do { s \<leftarrow> sb_flush c s; Some (b, s) } else sb_write_back b s) = Some (?b, t)
     \<and> fifo_inv t \<and> \<not> pop_status_save t \<and> fifo_items t = rest
     \<and> sb_request_q t = (if ?fl then [] else sb_request_q s) \<and> qsize t = qsize s"
  proof (cases ?fl)
    case True
    with sb_flush_items [OF inv, of c] s1 show ?thesis by auto
  next
    case False
    have "write_back_spec (fifo_items s) = (out, rest)" using s1 unfolding if_not_P [OF False] by (rule sym)
    with False write_back_items [OF assms, of b] show ?thesis by auto
  qed
  then obtain t where t: "(if ?fl then do { s \<leftarrow> sb_flush c s; Some (b, s) } else sb_write_back b s) = Some (?b, t)"
     "fifo_inv t" "\<not> pop_status_save t" "fifo_items t = rest"
     "sb_request_q t = (if ?fl then [] else sb_request_q s)" "qsize t = qsize s" by blast
  let ?u = "if cf_enable c then sb_mark_slots c t else t"
  have sp: "sb_run_spec c (fifo_items s) = (out, if cf_enable c then map (sb_mark c) rest else rest)"
    by (simp only: sb_run_spec_def s1 [symmetric] Let_def prod.case)
  have u: "fifo_inv ?u" "fifo_items ?u = (if cf_enable c then map (sb_mark c) rest else rest)"
    "\<not> pop_status_save ?u" "sb_request_q ?u = sb_request_q t" "qsize ?u = qsize t"
    using t(2-4) sb_commit_feedback_items [OF t(2), of c] by (auto simp: sb_mark_slots_def)
  then have "sb_inv ?u" using assms sub by (auto simp: sb_inv_def)
  moreover have "sb_run c b s = Some (?b, ?u)"
    unfolding sb_run_def t(1) using sb_commit_feedback_items(1) [OF t(2), of c] by simp
  ultimately show ?thesis using u t(5,6) sp by simp
qed

text \<open>Deferred requests: the load/store unit only pushes.\<close>

fun sb_request_ok :: "sb_request \<Rightarrow> bool" where
  "sb_request_ok (Sb_push e) = sb_item_ok e"
| "sb_request_ok Sb_pop = True"
| "sb_request_ok (Sb_restore _) = False"

lemma sb_push_inv:
  assumes "sb_inv s" "sb_item_ok e"
  shows "sb_inv (snd (fifo_push e s))"
    and "sb_request_q (snd (fifo_push e s)) = sb_request_q s" "qsize (snd (fifo_push e s)) = qsize s"
    and "length (fifo_items s) < qsize s \<Longrightarrow> fifo_items (snd (fifo_push e s)) = fifo_items s @ [e]"
proof -
  obtain ok t where p: "fifo_push e s = (ok, t)" by (cases "fifo_push e s")
  have inv: "fifo_inv s" "\<not> pop_status_save s" using assms(1) by (auto simp: sb_inv_def)
  then have occ: "fifo_occupied s = length (fifo_items s)" by (simp add: fifo_occupied_def fifo_length_items)
  note f = fifo_push_fields [OF p]
  show "sb_request_q (snd (fifo_push e s)) = sb_request_q s" "qsize (snd (fifo_push e s)) = qsize s"
    by (auto simp: fifo_push_def Let_def)
  show "length (fifo_items s) < qsize s \<Longrightarrow> fifo_items (snd (fifo_push e s)) = fifo_items s @ [e]"
    using fifo_push_ok(3) [OF inv(1) _ p] occ p by simp
  show "sb_inv (snd (fifo_push e s))"
  proof (cases "length (fifo_items s) < qsize s")
    case True
    then have "fifo_occupied s < qsize s" using occ by simp
    from fifo_push_ok [OF inv(1) this p] assms f p inv show ?thesis by (auto simp: sb_inv_def)
  next
    case False
    then have "fifo_occupied s = qsize s" using occ fifo_occupied_le [OF inv(1)] by simp
    from fifo_push_full [OF inv(1) this] assms(1) show ?thesis by simp
  qed
qed

lemma sb_pop_inv:
  assumes "sb_inv s"
  shows "sb_inv (snd (fifo_pop s))"
proof -
  obtain y t where p: "fifo_pop s = (y, t)" by (cases "fifo_pop s")
  have inv: "fifo_inv s" using assms by (auto simp: sb_inv_def)
  show ?thesis
  proof (cases "fifo_items s")
    case Nil
    with fifo_pop_empty [OF inv] assms show ?thesis by simp
  next
    case (Cons i xs)
    from fifo_pop_ok [OF inv Cons p] fifo_pop_fields [OF p] assms Cons p show ?thesis by (auto simp: sb_inv_def)
  qed
qed

interpretation sb_dq: deferred_total sb_apply sb_inv sb_request_ok
proof
  fix s t r assume "sb_inv s" "sb_request_ok r" "sb_apply r s = Some t"
  then show "sb_inv t" by (cases r) (auto simp: sb_push_inv sb_pop_inv)
next
  fix s r assume "sb_inv s" "sb_request_ok r"
  then show "\<exists>t. sb_apply r s = Some t" by (cases r) auto
qed

lemma sb_pushes:
  assumes "sb_inv s" "\<forall>e \<in> set es. sb_item_ok e" "length (fifo_items s) + length es \<le> qsize s"
  shows "\<exists>t. fold_opt sb_apply (map Sb_push es) s = Some t \<and> sb_inv t \<and> fifo_items t = fifo_items s @ es \<and> qsize t = qsize s"
  using assms
proof (induction es arbitrary: s)
  case (Cons e es)
  let ?t = "snd (fifo_push e s)"
  have ok: "sb_item_ok e" using Cons.prems(2) by simp
  note t = sb_push_inv [OF Cons.prems(1) ok]
  have it: "fifo_items ?t = fifo_items s @ [e]" using t(4) Cons.prems(3) by simp
  have "\<forall>e \<in> set es. sb_item_ok e" "length (fifo_items ?t) + length es \<le> qsize ?t"
    using Cons.prems(2,3) it t(3) by simp_all
  from Cons.IH [OF t(1) this] show ?case using it t(3) by auto
qed simp

lemma sb_sync_pushes:
  assumes "sb_inv s" "sb_request_q s = map Sb_push es" "\<forall>e \<in> set es. sb_item_ok e"
    "length (fifo_items s) + length es \<le> qsize s"
  shows "\<exists>t. sb_sync s = Some t \<and> sb_inv t \<and> fifo_items t = fifo_items s @ es \<and> sb_request_q t = [] \<and> qsize t = qsize s"
proof -
  from sb_pushes [OF assms(1,3,4)] obtain t where
    "fold_opt sb_apply (map Sb_push es) s = Some t" "sb_inv t" "fifo_items t = fifo_items s @ es" "qsize t = qsize s" by blast
  then show ?thesis by (auto simp: sb_sync_def assms(2) sb_inv_def)
qed

text \<open>The order of the three calls in the cycle loop of \<open>top_source/main.cpp\<close>.\<close>

definition sb_cycle :: "commit_feedback_pack_t \<Rightarrow> bus \<Rightarrow> store_buffer \<Rightarrow> (bus \<times> store_buffer) option" where
  "sb_cycle c b s = do {
     (b, s) \<leftarrow> sb_run c b s;
     b \<leftarrow> bus_sync b;
     s \<leftarrow> sb_sync s;
     Some (b, s) }"

text \<open>Memory as the program sees it: the stores still waiting performed on the bytes behind the bus.\<close>

definition mem_view :: "bus \<Rightarrow> store_buffer \<Rightarrow> nat \<Rightarrow> u8" where
  "mem_view b s = apply_writes (map item_write (fifo_items s)) (bus_flat b)"

lemma apply_writes_append: "apply_writes (xs @ ys) m = apply_writes ys (apply_writes xs m)"
  by (induction xs m rule: apply_writes.induct) simp_all

lemma store_le_ucast8: "store_le m a 1 (ucast (ucast (v :: u32) :: u8)) = store_le m a 1 v"
  by (rule ext) (auto simp: store_le_def intro!: bit_word_eqI simp: bit_simps)

lemma store_le_ucast16: "store_le m a 2 (ucast (ucast (v :: u32) :: u16)) = store_le m a 2 v"
proof
  fix i
  show "store_le m a 2 (ucast (ucast v :: u16)) i = store_le m a 2 v i"
    by (auto simp: store_le_def intro!: bit_word_eqI simp: bit_simps)
qed

lemma item_request_write:
  assumes "sb_item_ok i"
  shows "apply_writes [request_write (item_request i)] m = apply_writes [item_write i] m"
  using assms store_le_ucast8 [of m "unat (sb_addr i)" "sb_data i"]
  by (auto simp: sb_item_ok_def item_request_def item_write_def store_le_ucast16)

lemma sb_run_spec_keeps:
  assumes "sb_run_spec c is = (out, rest)" "\<not> (cf_enable c \<and> cf_flush c)"
  shows "map item_write (out @ rest) = map item_write is"
  using assms by (cases "is") (auto simp: sb_run_spec_def Let_def comp_def split: if_splits)

lemma apply_writes_Cons: "apply_writes (w # ws) m = apply_writes ws (apply_writes [w] m)"
  by (cases w) simp

lemma item_requests_write:
  assumes "\<forall>i \<in> set is. sb_item_ok i"
  shows "apply_writes (map request_write (map item_request is)) m = apply_writes (map item_write is) m"
  using assms
proof (induction "is" arbitrary: m)
  case (Cons i xs)
  have "apply_writes (map request_write (map item_request (i # xs))) m
      = apply_writes (map request_write (map item_request xs)) (apply_writes [request_write (item_request i)] m)"
    unfolding list.map by (rule apply_writes_Cons)
  also have "\<dots> = apply_writes (map item_write xs) (apply_writes [item_write i] m)"
    using Cons item_request_write [of i m] by simp
  also have "\<dots> = apply_writes (map item_write (i # xs)) m"
    unfolding list.map by (rule apply_writes_Cons [symmetric])
  finally show ?case .
qed simp

lemma item_request_ok:
  assumes "sb_item_ok i"
  shows "(case request_write (item_request i) of (n, a, v) \<Rightarrow> bus_mem_ok b n a) = bus_mem_ok b (unat (sb_size i)) (sb_addr i)"
  using assms by (auto simp: sb_item_ok_def item_request_def)

section \<open>Correctness\<close>

lemma bus_mem_ok_no_wrap:
  assumes "bus_inv b" "bus_mem_ok b n a"
  shows "unat a + n < 2 ^ 32"
proof -
  from bus_mem_okD [OF assms] obtain i where i: "i < length (slave_info_list b)" "n = 1 \<or> n = 2 \<or> n = 4"
    "\<And>k. k < n \<Longrightarrow> unat a + k \<in> region (slave_info_list b ! i)" by metis
  have "n - 1 < n" using i(2) by auto
  from i(3) [OF this] bus_inv_nth(1) [OF assms(1) i(1)] \<open>n - 1 < n\<close> show ?thesis
    unfolding region_def no_wrap_def atLeastLessThan_iff by linarith
qed

text \<open>C25: store-to-load forwarding: for an aligned load from memory, reading the bus and then
  patching the value with the waiting stores gives exactly the bytes that the load would find if all
  the waiting stores had already been performed in order, and the walk over the buffer terminates
  for every filling of the ring.\<close>

theorem sb_forwarding_correct:
  assumes "bus_inv b" "sb_inv s" "n = 1 \<or> n = 2 \<or> n = (4 :: u32)" "bus_mem_ok b (unat n) a"
  shows "\<exists>v. bus_read (unat n) a b = Some (v, b)
    \<and> sb_get_feedback_value s a n v = Some (load_le (mem_view b s) (unat a) (unat n))"
proof -
  have "bus_read (unat n) a b = Some (load_le (bus_flat b) (unat a) (unat n), b)"
    by (rule bus_read_mem [OF assms(1,4)])
  moreover have "\<forall>i \<in> set (fifo_items s). sb_item_ok i" "fifo_inv s" using assms(2) by (auto simp: sb_inv_def)
  ultimately show ?thesis
    using fold_feedback [OF _ assms(3) bus_mem_ok_no_wrap [OF assms(1,4)]] sb_feedback_items
    by (simp add: mem_view_def)
qed

definition sb_item_demo :: "u32 \<Rightarrow> u32 \<Rightarrow> u32 \<Rightarrow> nat \<Rightarrow> bool \<Rightarrow> store_buffer_item_t" where
  "sb_item_demo a v n rid done = \<lparr>sb_enable = True, sb_committed = done, sb_rob_id = rid, sb_pc = 0,
     sb_addr = a, sb_data = v, sb_size = n\<rparr>"

text \<open>A buffer of four slots that holds two stores and wraps around.\<close>

definition sb_demo :: store_buffer where
  "sb_demo = \<lparr>buffer = [sb_item_demo 0x80000001 0xAB 1 7 False, sb_item_demo 0 0 4 0 False,
       sb_item_demo 0 0 4 0 False, sb_item_demo 0x80000000 0x11223344 4 6 True],
     qsize = 4, wptr = 1, wstage = True, rptr = 3, rstage = False, pop_status_save = False,
     rptr_saved = 0, rstage_saved = False, sb_request_q = []\<rparr>"

lemma sb_demo_items:
  "fifo_items sb_demo = [sb_item_demo 0x80000000 0x11223344 4 6 True, sb_item_demo 0x80000001 0xAB 1 7 False]"
  by (simp add: sb_demo_def fifo_items_def ring_items_def)

lemma sb_demo_inv: "sb_inv sb_demo"
proof -
  have "fifo_inv sb_demo" "\<not> pop_status_save sb_demo"
    by (simp_all add: sb_demo_def fifo_inv_def ring_ok_def)
  then show ?thesis by (simp add: sb_inv_def sb_demo_items sb_item_ok_def sb_item_demo_def)
qed

lemma bus_start_mem_ok: "bus_mem_ok bus_start 4 0x80000000" "bus_mem_ok bus_start 1 0x80000001"
  by (simp_all add: bus_mem_ok_def entry_mem_ok_def bus_find_slave_info_def bus_start_props(4) slave_covers_def access_ok_def)

theorem sb_forwarding_correct_witness:
  "\<exists>v. bus_read 4 0x80000000 bus_start = Some (v, bus_start)
    \<and> sb_get_feedback_value sb_demo 0x80000000 4 v = Some 0x1122AB44"
proof -
  have ok: "bus_mem_ok bus_start (unat (4 :: u32)) 0x80000000" using bus_start_mem_ok by simp
  have "load_le (mem_view bus_start sb_demo) (unat (0x80000000 :: u32)) 4 = 0x1122AB44"
    unfolding mem_view_def sb_demo_items load_le_4
    by (simp add: item_write_def sb_item_demo_def store_le_def)
  with sb_forwarding_correct [OF bus_start_props(2) sb_demo_inv _ ok] show ?thesis by auto
qed

text \<open>C26: one \<open>run()\<close> of the store buffer is the abstract step on the list of waiting stores: on a
  flush it drops the first store that is neither committed nor being committed and all younger ones
  and writes nothing; otherwise it removes the oldest store exactly when that one is committed, and
  requests its write on the bus; then the stores of the instructions being committed are marked.
  It never aborts, and only committed stores are written.\<close>

theorem sb_run_correct:
  assumes "sb_inv s"
  shows "\<exists>t. sb_run c b s = Some (b\<lparr>bus_request_q := bus_request_q b @ map item_request (fst (sb_run_spec c (fifo_items s)))\<rparr>, t)
    \<and> sb_inv t \<and> fifo_items t = snd (sb_run_spec c (fifo_items s))
    \<and> sb_request_q t = (if cf_enable c \<and> cf_flush c then [] else sb_request_q s)
    \<and> (\<forall>i \<in> set (fst (sb_run_spec c (fifo_items s))). sb_committed i)"
proof -
  have "\<forall>i \<in> set (fst (sb_run_spec c is)). sb_committed i" for "is"
    by (cases "is") (auto simp: sb_run_spec_def Let_def)
  with sb_run_items [OF assms, of c b] show ?thesis by blast
qed

definition cf_demo :: "bool \<Rightarrow> commit_feedback_pack_t" where
  "cf_demo fl = commit_feedback_zero\<lparr>cf_enable := True, cf_flush := fl,
     cf_committed_rob_id := [7, 0, 0, 0], cf_committed_rob_id_valid := [True, False, False, False]\<rparr>"

theorem sb_run_correct_witness:
  "\<exists>t. sb_run (cf_demo False) bus_start sb_demo
      = Some (bus_start\<lparr>bus_request_q := [Bus_write32 0x80000000 0x11223344]\<rparr>, t)
    \<and> fifo_items t = [sb_item_demo 0x80000001 0xAB 1 7 True]"
proof -
  have "sb_run_spec (cf_demo False) (fifo_items sb_demo)
      = ([sb_item_demo 0x80000000 0x11223344 4 6 True], [sb_item_demo 0x80000001 0xAB 1 7 True])"
    by (simp add: sb_run_spec_def sb_demo_items cf_demo_def sb_item_demo_def sb_mark_def commit_match_def)
  with sb_run_correct [OF sb_demo_inv, of "cf_demo False" bus_start] show ?thesis
    by (auto simp: bus_start_props(3) item_request_def sb_item_demo_def)
qed

text \<open>C27: the memory a program sees (the bytes behind the bus with the waiting stores performed in
  order) changes in a cycle only by the stores pushed in that cycle, whatever is written back or
  committed; a flush takes back exactly the stores that it drops and leaves the bytes behind the bus
  alone.\<close>

theorem sb_cycle_view:
  assumes "bus_inv b" "bus_request_q b = []" "sb_inv s"
    and "sb_request_q s = map Sb_push es" "\<forall>e \<in> set es. sb_item_ok e"
    and "length (fifo_items s) + length es \<le> qsize s"
    and "\<forall>i \<in> set (fifo_items s). bus_mem_ok b (unat (sb_size i)) (sb_addr i)"
  shows "\<exists>b' s'. sb_cycle c b s = Some (b', s') \<and> bus_inv b' \<and> bus_request_q b' = [] \<and> sb_inv s'
    \<and> sb_request_q s' = []
    \<and> (\<not> (cf_enable c \<and> cf_flush c) \<longrightarrow> mem_view b' s' = apply_writes (map item_write es) (mem_view b s))
    \<and> (cf_enable c \<and> cf_flush c \<longrightarrow> bus_flat b' = bus_flat b
        \<and> mem_view b' s' = apply_writes (map item_write (takeWhile (sb_keeps c) (fifo_items s))) (bus_flat b))"
proof -
  let ?fl = "cf_enable c \<and> cf_flush c" and ?is = "fifo_items s"
  obtain out rest where sp: "sb_run_spec c ?is = (out, rest)" by (cases "sb_run_spec c ?is")
  have out: "set out \<subseteq> set ?is" "length rest \<le> length ?is"
    using sp by (cases ?is; auto simp: sb_run_spec_def Let_def length_takeWhile_le split: if_splits)+
  let ?b = "b\<lparr>bus_request_q := bus_request_q b @ map item_request out\<rparr>"
  from sb_run_items [OF assms(3), of c b] sp obtain t where
    t: "sb_run c b s = Some (?b, t)" "sb_inv t" "fifo_items t = rest"
      "sb_request_q t = (if ?fl then [] else sb_request_q s)" "qsize t = qsize s" by auto
  have bq: "bus_request_q ?b = map item_request out" using assms(2) by simp
  have binv: "bus_inv ?b" using assms(1) by (simp add: bus_inv_def)
  have items: "\<forall>i \<in> set out. sb_item_ok i" using out assms(3) by (auto simp: sb_inv_def)
  have sl: "slave_info_list ?b = slave_info_list b" by simp
  have "bus_mem_ok ?b = bus_mem_ok b"
    unfolding bus_mem_ok_def [abs_def] bus_find_slave_info_def sl ..
  then have "\<forall>q \<in> set (bus_request_q ?b). case request_write q of (n, a, v) \<Rightarrow> bus_mem_ok ?b n a"
    unfolding bq using items out assms(7) item_request_ok by fastforce
  from bus_replay_mem [OF binv this] obtain d where
    d: "fold_opt bus_apply (bus_request_q ?b) ?b = Some d" "bus_inv d"
      "bus_flat d = apply_writes (map request_write (map item_request out)) (bus_flat ?b)"
    unfolding bq by blast
  let ?d = "d\<lparr>bus_request_q := []\<rparr>"
  have bs: "bus_sync ?b = Some ?d" using d(1) by (simp add: bus_sync_def)
  have fl: "bus_flat (x\<lparr>bus_request_q := q\<rparr>) = bus_flat x" for x q
  proof -
    have e: "slave_info_list (x\<lparr>bus_request_q := q\<rparr>) = slave_info_list x" by simp
    show ?thesis unfolding bus_flat_def [abs_def] bus_find_slave_info_def e ..
  qed
  have w: "apply_writes (map request_write (map item_request out)) m = apply_writes (map item_write out) m" for m
    by (rule item_requests_write [OF items])
  have flat: "bus_flat ?d = apply_writes (map item_write out) (bus_flat b)"
    unfolding fl d(3) w by (simp add: fl)
  define es' where "es' = (if ?fl then [] else es)"
  have "sb_request_q t = map Sb_push es'" "\<forall>e \<in> set es'. sb_item_ok e"
      "length (fifo_items t) + length es' \<le> qsize t"
    using t(3-5) out(2) assms(4-6) by (auto simp: es'_def)
  from sb_sync_pushes [OF t(2) this] obtain u where
    u: "sb_sync t = Some u" "sb_inv u" "fifo_items u = rest @ es'" "sb_request_q u = []" unfolding t(3) by blast
  have "sb_cycle c b s = Some (?d, u)" by (simp add: sb_cycle_def t(1) bs u(1))
  moreover have "bus_inv ?d" using d(2) by (simp add: bus_inv_def)
  moreover have view: "mem_view ?d u = apply_writes (map item_write es') (apply_writes (map item_write (out @ rest)) (bus_flat b))"
    unfolding mem_view_def u(3) flat by (simp add: apply_writes_append)
  moreover have "\<not> ?fl \<Longrightarrow> map item_write (out @ rest) = map item_write ?is"
    using sb_run_spec_keeps [OF sp] by blast
  moreover have "?fl \<Longrightarrow> out = [] \<and> map item_write rest = map item_write (takeWhile (sb_keeps c) ?is)"
    using sp by (auto simp: sb_run_spec_def comp_def)
  ultimately show ?thesis
    using u(2,4) flat by (auto simp: es'_def mem_view_def)
qed

theorem sb_cycle_view_witness:
  "\<exists>b' s'. sb_cycle (cf_demo True) bus_start sb_demo = Some (b', s')
    \<and> bus_flat b' = bus_flat bus_start
    \<and> mem_view b' s' = apply_writes [(4, 0x80000000, 0x11223344), (1, 0x80000001, 0xAB)] (bus_flat bus_start)"
proof -
  have q: "sb_request_q sb_demo = map Sb_push []" and n: "qsize sb_demo = 4" by (simp_all add: sb_demo_def)
  have k: "takeWhile (sb_keeps (cf_demo True)) (fifo_items sb_demo) = fifo_items sb_demo"
    by (simp add: sb_demo_items sb_keeps_def cf_demo_def sb_item_demo_def commit_match_def)
  have "\<forall>i \<in> set (fifo_items sb_demo). bus_mem_ok bus_start (unat (sb_size i)) (sb_addr i)"
    using bus_start_mem_ok by (simp add: sb_demo_items sb_item_demo_def)
  from sb_cycle_view [OF bus_start_props(2,3) sb_demo_inv q _ _ this, of "cf_demo True"] n k
  show ?thesis
    by (auto simp: sb_demo_items cf_demo_def item_write_def sb_item_demo_def)
qed

end
