(* ===== verification/Execute_Lsu.thy ===== *)
theory Execute_Lsu
  imports Execute_Common Store_Buffer
begin

text \<open>
  \<open>pipeline/execute/lsu.cpp\<close>: loads read the bus and patch the value with the waiting stores; stores
  request a push into the store buffer, and while it is full the unit keeps the store in
  \<open>hold_rev_pack\<close> and tries again in the next cycle.  The cases after the switch only feed the trace
  database.
\<close>

record lsu_state =
  lsu_busy :: bool
  lsu_hold_rev_pack :: issue_execute_pack_t

definition issue_execute_zero :: issue_execute_pack_t where
  "issue_execute_zero =
     readreg_issue_op_info_t.extend (readreg_issue_op_info_t.truncate execute_wb_zero) (issue_execute_pack_t.fields 0)"

text \<open>The constructor leaves \<open>hold_rev_pack\<close> unset; it is read only while busy.\<close>

definition lsu_new :: lsu_state where
  "lsu_new = \<lparr>lsu_busy = False, lsu_hold_rev_pack = issue_execute_zero\<rparr>"

definition lsu_reset :: "lsu_state \<Rightarrow> lsu_state" where
  "lsu_reset l = l\<lparr>lsu_busy := False\<rparr>"

definition lsu_load :: "u32 \<Rightarrow> u32 \<Rightarrow> bus \<Rightarrow> store_buffer \<Rightarrow> (u32 \<times> bus) option" where
  "lsu_load n addr b sb = do {
     (bus_value, b) \<leftarrow> bus_read (unat n) addr b;
     feedback_value \<leftarrow> sb_get_feedback_value sb addr n bus_value;
     Some (feedback_value, b) }"

definition lsu_item :: "u32 \<Rightarrow> u32 \<Rightarrow> issue_execute_pack_t \<Rightarrow> store_buffer_item_t" where
  "lsu_item n data r = \<lparr>sb_enable = True, sb_committed = False, sb_rob_id = p_rob_id r, sb_pc = p_pc r,
     sb_addr = p_lsu_addr r, sb_data = data, sb_size = n\<rparr>"

definition lsu_store ::
  "u32 \<Rightarrow> u32 \<Rightarrow> issue_execute_pack_t \<Rightarrow> lsu_state \<Rightarrow> store_buffer \<Rightarrow> execute_wb_pack_t
    \<Rightarrow> lsu_state \<times> store_buffer \<times> execute_wb_pack_t" where
  "lsu_store n data r l sb s =
     (if fifo_is_full sb
      then (l\<lparr>lsu_busy := True, lsu_hold_rev_pack := r\<rparr>, sb, s\<lparr>p_enable := False\<rparr>)
      else (l, sb_push_sync (lsu_item n data r) sb, s))"

type_synonym lsu_env = "lsu_state \<times> bus \<times> store_buffer \<times> execute_wb_pack_t"

fun lsu_switch :: "lsu_op_t \<Rightarrow> issue_execute_pack_t \<Rightarrow> lsu_env \<Rightarrow> lsu_env option" where
  "lsu_switch Lsu_lb r (l, b, sb, s) = do {
     (v, b) \<leftarrow> lsu_load 1 (p_lsu_addr r) b sb;
     v \<leftarrow> sign_extend v 8;
     Some (l, b, sb, s\<lparr>p_rd_value := v\<rparr>) }"
| "lsu_switch Lsu_lbu r (l, b, sb, s) = do {
     (v, b) \<leftarrow> lsu_load 1 (p_lsu_addr r) b sb;
     Some (l, b, sb, s\<lparr>p_rd_value := v\<rparr>) }"
| "lsu_switch Lsu_lh r (l, b, sb, s) = do {
     (v, b) \<leftarrow> lsu_load 2 (p_lsu_addr r) b sb;
     v \<leftarrow> sign_extend v 16;
     Some (l, b, sb, s\<lparr>p_rd_value := v\<rparr>) }"
| "lsu_switch Lsu_lhu r (l, b, sb, s) = do {
     (v, b) \<leftarrow> lsu_load 2 (p_lsu_addr r) b sb;
     Some (l, b, sb, s\<lparr>p_rd_value := v\<rparr>) }"
| "lsu_switch Lsu_lw r (l, b, sb, s) = do {
     (v, b) \<leftarrow> lsu_load 4 (p_lsu_addr r) b sb;
     Some (l, b, sb, s\<lparr>p_rd_value := v\<rparr>) }"
| "lsu_switch Lsu_sb r (l, b, sb, s) =
     (let (l, sb, s) = lsu_store 1 (p_src2_value r AND 0xff) r l sb s in Some (l, b, sb, s))"
| "lsu_switch Lsu_sh r (l, b, sb, s) =
     (let (l, sb, s) = lsu_store 2 (p_src2_value r AND 0xffff) r l sb s in Some (l, b, sb, s))"
| "lsu_switch Lsu_sw r (l, b, sb, s) =
     (let (l, sb, s) = lsu_store 4 (p_src2_value r) r l sb s in Some (l, b, sb, s))"

definition lsu_compute :: "issue_execute_pack_t \<Rightarrow> lsu_state \<Rightarrow> bus \<Rightarrow> store_buffer \<Rightarrow> lsu_env option" where
  "lsu_compute r l b sb =
     (let s = exec_receive r in
      if p_enable r \<and> p_valid r \<and> \<not> p_has_exception s
      then do { x \<leftarrow> as_lsu (p_sub_op r); lsu_switch x r (l, b, sb, s) }
      else Some (l, b, sb, s))"

definition lsu_take :: "lsu_state \<Rightarrow> exec_queue \<Rightarrow> (issue_execute_pack_t \<times> lsu_state \<times> exec_queue) option" where
  "lsu_take l q =
     (if lsu_busy l then Some (lsu_hold_rev_pack l, l\<lparr>lsu_busy := False\<rparr>, q)
      else (case fifo_pop q of (None, _) \<Rightarrow> None | (Some r, q) \<Rightarrow> Some (r, l, q)))"

definition lsu_run ::
  "commit_feedback_pack_t \<Rightarrow> lsu_state \<Rightarrow> exec_queue \<Rightarrow> wb_port \<Rightarrow> bus \<Rightarrow> store_buffer
    \<Rightarrow> (lsu_state \<times> exec_queue \<times> wb_port \<times> bus \<times> store_buffer \<times> execute_feedback_channel_t) option" where
  "lsu_run cf l q p b sb = do {
     (l, q, b, sb, send) \<leftarrow>
       (if (\<not> fifo_is_empty q \<or> lsu_busy l) \<and> \<not> cf_flushing cf
        then do {
          (rev_pack, l, q) \<leftarrow> lsu_take l q;
          (l, b, sb, send) \<leftarrow> lsu_compute rev_pack l b sb;
          Some (l, q, b, sb, send) }
        else if cf_flushing cf then Some (l\<lparr>lsu_busy := False\<rparr>, q, b, sb, execute_wb_zero)
        else Some (l, q, b, sb, execute_wb_zero));
     Some (l, q, port_set send p, b, sb, exec_feedback send) }"

section \<open>The queue with the held store\<close>

text \<open>The packets that the unit has still to execute: the store held back, and the queue.\<close>

definition lsu_pending :: "lsu_state \<Rightarrow> exec_queue \<Rightarrow> issue_execute_pack_t list" where
  "lsu_pending l q = (if lsu_busy l then [lsu_hold_rev_pack l] else []) @ fifo_items q"

lemma lsu_take_pending:
  assumes "fifo_inv q" "lsu_pending l q = r # rest"
  shows "\<exists>t. lsu_take l q = Some (r, l\<lparr>lsu_busy := False\<rparr>, t) \<and> fifo_inv t \<and> fifo_items t = rest
    \<and> (\<not> fifo_is_empty q \<or> lsu_busy l)"
proof (cases "lsu_busy l")
  case True
  with assms show ?thesis by (auto simp: lsu_take_def lsu_pending_def)
next
  case False
  with assms(2) have "fifo_items q = r # rest" by (simp add: lsu_pending_def)
  from pop_head [OF assms(1) this] obtain t where
    "fifo_pop q = (Some r, t)" "fifo_inv t" "fifo_items t = rest" "\<not> fifo_is_empty q" .
  moreover have "l\<lparr>lsu_busy := False\<rparr> = l" using False by (cases l) simp
  ultimately show ?thesis using False by (simp add: lsu_take_def)
qed

lemma lsu_run_pending:
  assumes "fifo_inv q" "lsu_pending l q = r # rest" "\<not> cf_flushing cf"
    and "lsu_compute r (l\<lparr>lsu_busy := False\<rparr>) b sb = Some (l', b', sb', s)"
  shows "\<exists>t. lsu_run cf l q p b sb = Some (l', t, port_set s p, b', sb', exec_feedback s)
    \<and> fifo_inv t \<and> fifo_items t = rest"
proof -
  from lsu_take_pending [OF assms(1,2)] obtain t where
    t: "lsu_take l q = Some (r, l\<lparr>lsu_busy := False\<rparr>, t)" "fifo_inv t" "fifo_items t = rest"
      "\<not> fifo_is_empty q \<or> lsu_busy l" by blast
  with assms(3,4) show ?thesis by (simp add: lsu_run_def)
qed

section \<open>Loads and stores on memory\<close>

fun lsu_size :: "lsu_op_t \<Rightarrow> u32" where
  "lsu_size Lsu_lb = 1" | "lsu_size Lsu_lbu = 1" | "lsu_size Lsu_sb = 1"
| "lsu_size Lsu_lh = 2" | "lsu_size Lsu_lhu = 2" | "lsu_size Lsu_sh = 2"
| "lsu_size Lsu_lw = 4" | "lsu_size Lsu_sw = 4"

definition lsu_is_load :: "lsu_op_t \<Rightarrow> bool" where
  "lsu_is_load x = (x \<in> {Lsu_lb, Lsu_lbu, Lsu_lh, Lsu_lhu, Lsu_lw})"

text \<open>The register value for the bytes loaded.\<close>

fun load_isa :: "lsu_op_t \<Rightarrow> u32 \<Rightarrow> u32" where
  "load_isa Lsu_lb v = signed_take_bit 7 v"
| "load_isa Lsu_lh v = signed_take_bit 15 v"
| "load_isa _ v = v"

lemma load_le_width: "n \<le> 4 \<Longrightarrow> take_bit (8 * n) (load_le m a n) = load_le m a n"
  by (rule bit_word_eqI) (auto simp: bit_take_bit_iff bit_load_le)

lemma lsu_load_mem:
  assumes "bus_inv b" "sb_inv sb" "n = 1 \<or> n = 2 \<or> n = 4" "bus_mem_ok b (unat n) a"
  shows "lsu_load n a b sb = Some (load_le (mem_view b sb) (unat a) (unat n), b)"
proof -
  have "bus_read (unat n) a b = Some (load_le (bus_flat b) (unat a) (unat n), b)"
    by (rule bus_read_mem [OF assms(1,4)])
  moreover have "\<forall>i \<in> set (fifo_items sb). sb_item_ok i" "fifo_inv sb" using assms(2) by (auto simp: sb_inv_def)
  ultimately show ?thesis
    using fold_feedback [OF _ assms(3) bus_mem_ok_no_wrap [OF assms(1,4)]] sb_feedback_items
    by (simp add: mem_view_def lsu_load_def)
qed

lemma lsu_size_cases: "lsu_size x = 1 \<or> lsu_size x = 2 \<or> lsu_size x = 4"
  by (cases x) simp_all

lemma lsu_switch_load:
  assumes "bus_inv b" "sb_inv sb" "lsu_is_load x" "bus_mem_ok b (unat (lsu_size x)) (p_lsu_addr r)"
  shows "lsu_switch x r (l, b, sb, s) = Some (l, b, sb,
    s\<lparr>p_rd_value := load_isa x (load_le (mem_view b sb) (unat (p_lsu_addr r)) (unat (lsu_size x)))\<rparr>)"
proof -
  let ?v = "load_le (mem_view b sb) (unat (p_lsu_addr r)) (unat (lsu_size x))"
  have v: "lsu_load (lsu_size x) (p_lsu_addr r) b sb = Some (?v, b)"
    by (rule lsu_load_mem [OF assms(1,2) lsu_size_cases assms(4)])
  have w: "take_bit (8 * unat (lsu_size x)) ?v = ?v"
    using lsu_size_cases [of x] by (intro load_le_width) auto
  from v w assms(3) show ?thesis
    by (cases x) (simp_all add: lsu_is_load_def sign_extend_signed)
qed

lemma lsu_compute_load:
  assumes "bus_inv b" "sb_inv sb" "p_enable r" "p_valid r" "\<not> p_has_exception r" "p_sub_op r = Lsu_op x"
    and "lsu_is_load x" "bus_mem_ok b (unat (lsu_size x)) (p_lsu_addr r)"
  shows "lsu_compute r l b sb = Some (l, b, sb, (exec_receive r)\<lparr>p_rd_value :=
    load_isa x (load_le (mem_view b sb) (unat (p_lsu_addr r)) (unat (lsu_size x)))\<rparr>)"
  using lsu_switch_load [OF assms(1,2,7,8)] assms(3-6) by (simp add: lsu_compute_def Let_def)

text \<open>C32: a load from memory returns the bytes a program expects: those that all stores still
  waiting in the store buffer would leave behind, sign-extended for lb and lh; the memory and the
  store buffer do not change, and the load leaves the queue of the unit.\<close>

theorem lsu_load_correct:
  assumes "fifo_inv q" "lsu_pending l q = r # rest" "\<not> cf_flushing cf" "bus_inv b" "sb_inv sb"
    and "p_enable r" "p_valid r" "\<not> p_has_exception r" "p_sub_op r = Lsu_op x" "lsu_is_load x"
    and "bus_mem_ok b (unat (lsu_size x)) (p_lsu_addr r)"
  shows "\<exists>l' t s. lsu_run cf l q p b sb = Some (l', t, port_set s p, b, sb, exec_feedback s)
    \<and> fifo_inv t \<and> lsu_pending l' t = rest \<and> same_instr r s \<and> p_has_exception s = False
    \<and> p_rd_value s = load_isa x (load_le (mem_view b sb) (unat (p_lsu_addr r)) (unat (lsu_size x)))
    \<and> fb_enable (exec_feedback s) = (p_rd_enable r \<and> p_need_rename r)"
proof -
  let ?s = "(exec_receive r)\<lparr>p_rd_value :=
    load_isa x (load_le (mem_view b sb) (unat (p_lsu_addr r)) (unat (lsu_size x)))\<rparr>"
  have same: "same_instr r ?s" by simp
  obtain t where "lsu_run cf l q p b sb = Some (l\<lparr>lsu_busy := False\<rparr>, t, port_set ?s p, b, sb, exec_feedback ?s)"
    "fifo_inv t" "fifo_items t = rest"
    using lsu_run_pending [OF assms(1-3) lsu_compute_load [OF assms(4-11)]] by blast
  then show ?thesis
    using feedback_same(1) [OF same] assms(6-8)
    by (intro exI [of _ "l\<lparr>lsu_busy := False\<rparr>"] exI [of _ t] exI [of _ ?s]) (simp add: lsu_pending_def)
qed

definition lsu_packet :: "lsu_op_t \<Rightarrow> u32 \<Rightarrow> u32 \<Rightarrow> issue_execute_pack_t" where
  "lsu_packet x a v = (exec_demo (Lsu_op x) 0 v)\<lparr>p_lsu_addr := a\<rparr>"

lemma lsu_packet_simps:
  "p_enable (lsu_packet x a v)" "p_valid (lsu_packet x a v)" "\<not> p_has_exception (lsu_packet x a v)"
  "p_sub_op (lsu_packet x a v) = Lsu_op x" "p_lsu_addr (lsu_packet x a v) = a" "p_src2_value (lsu_packet x a v) = v"
  by (simp_all add: lsu_packet_def)

lemma lsu_pending_demo: "lsu_pending lsu_new (queue_demo r) = [r]"
  by (simp add: lsu_pending_def lsu_new_def queue_demo_items)

theorem lsu_load_correct_witness:
  "\<exists>l' t s. lsu_run commit_feedback_zero lsu_new (queue_demo (lsu_packet Lsu_lb 0x80000001 0)) (port_new execute_wb_zero)
      bus_start sb_demo = Some (l', t, port_set s (port_new execute_wb_zero), bus_start, sb_demo, exec_feedback s)
    \<and> p_rd_value s = - 0x55"
proof -
  let ?r = "lsu_packet Lsu_lb 0x80000001 0"
  have ok: "bus_mem_ok bus_start (unat (lsu_size Lsu_lb)) (p_lsu_addr ?r)"
    using bus_start_mem_ok(2) by (simp add: lsu_packet_simps)
  have v: "load_le (mem_view bus_start sb_demo) 0x80000001 1 = 0xAB"
    unfolding mem_view_def sb_demo_items One_nat_def load_le.simps
    by (simp add: item_write_def sb_item_demo_def store_le_def)
  from lsu_load_correct [OF queue_demo_items(1) lsu_pending_demo no_flush bus_start_props(2) sb_demo_inv
      lsu_packet_simps(1-4) _ ok, of "port_new execute_wb_zero"] v
  show ?thesis by (auto simp: lsu_is_load_def lsu_packet_simps)
qed

text \<open>A store pushes the low bytes of its second operand.\<close>

definition lsu_data :: "lsu_op_t \<Rightarrow> u32 \<Rightarrow> u32" where
  "lsu_data x v = (if x = Lsu_sb then v AND 0xff else if x = Lsu_sh then v AND 0xffff else v)"

lemma lsu_compute_store:
  assumes "p_enable r" "p_valid r" "\<not> p_has_exception r" "p_sub_op r = Lsu_op x" "\<not> lsu_is_load x"
  shows "lsu_compute r l b sb =
    (let (l', sb', s') = lsu_store (lsu_size x) (lsu_data x (p_src2_value r)) r l sb (exec_receive r)
     in Some (l', b, sb', s'))"
  using assms by (cases x) (simp_all add: lsu_compute_def lsu_is_load_def lsu_data_def Let_def)

lemma bit_lsu_data: "k < 8 * unat (lsu_size x) \<Longrightarrow> bit (lsu_data x v) k = bit v k"
proof -
  assume k: "k < 8 * unat (lsu_size x)"
  have m: "(0xff :: u32) = mask 8" "(0xffff :: u32) = mask 16" by (simp_all add: mask_eq_exp_minus_1)
  show ?thesis
    using k by (cases x) (auto simp: lsu_data_def m bit_and_iff bit_mask32)
qed

lemma store_le_data: "store_le m a (unat (lsu_size x)) (lsu_data x v) = store_le m a (unat (lsu_size x)) v"
proof
  fix i
  show "store_le m a (unat (lsu_size x)) (lsu_data x v) i = store_le m a (unat (lsu_size x)) v i"
  proof (rule bit_word_eqI)
    fix j assume "j < LENGTH(8)"
    then have j: "j < 8" by simp
    have "8 * (i - a) + j < 8 * unat (lsu_size x)" if "a \<le> i" "i < a + unat (lsu_size x)"
      using that j by linarith
    then show "bit (store_le m a (unat (lsu_size x)) (lsu_data x v) i) j = bit (store_le m a (unat (lsu_size x)) v i) j"
      unfolding bit_store_le [OF j] using bit_lsu_data by simp
  qed
qed

lemma lsu_item_ok:
  assumes "bus_inv b" "bus_mem_ok b (unat (lsu_size x)) (p_lsu_addr r)"
  shows "sb_item_ok (lsu_item (lsu_size x) v r)"
  using bus_mem_ok_no_wrap [OF assms] lsu_size_cases [of x] by (simp add: sb_item_ok_def lsu_item_def)

lemma mem_view_push:
  "fifo_items t = fifo_items sb @ [lsu_item n v r] \<Longrightarrow>
     mem_view b t = store_le (mem_view b sb) (unat (p_lsu_addr r)) (unat n) v"
  by (simp add: mem_view_def apply_writes_append item_write_def lsu_item_def)

text \<open>C33: a store is either put into the store buffer, after which the memory a program sees
  has exactly its bytes changed, or, while the buffer is full, it is held back: it is then still
  the first pending instruction of the unit, nothing is passed on and nothing changes.\<close>

theorem lsu_store_correct:
  assumes "fifo_inv q" "lsu_pending l q = r # rest" "\<not> cf_flushing cf" "bus_inv b" "sb_inv sb" "sb_request_q sb = []"
    and "p_enable r" "p_valid r" "\<not> p_has_exception r" "p_sub_op r = Lsu_op x" "\<not> lsu_is_load x"
    and "bus_mem_ok b (unat (lsu_size x)) (p_lsu_addr r)"
  shows "\<exists>l' t s sb' u. lsu_run cf l q p b sb = Some (l', t, port_set s p, b, sb', exec_feedback s)
    \<and> fifo_inv t \<and> sb_sync sb' = Some u \<and> sb_inv u
    \<and> (if length (fifo_items sb) < qsize sb
       then lsu_pending l' t = rest \<and> same_instr r s
         \<and> mem_view b u = store_le (mem_view b sb) (unat (p_lsu_addr r)) (unat (lsu_size x)) (p_src2_value r)
       else lsu_pending l' t = r # rest \<and> \<not> p_enable s \<and> mem_view b u = mem_view b sb)"
proof -
  let ?d = "lsu_data x (p_src2_value r)" and ?l = "l\<lparr>lsu_busy := False\<rparr>"
  have inv: "fifo_inv sb" "\<not> pop_status_save sb" using assms(5) by (simp_all add: sb_inv_def)
  then have full: "fifo_is_full sb \<longleftrightarrow> \<not> length (fifo_items sb) < qsize sb"
    using fifo_occupied_le [OF inv(1)] by (auto simp: fifo_full_iff fifo_occupied_def fifo_length_items)
  obtain l' sb' s where st: "lsu_store (lsu_size x) ?d r ?l sb (exec_receive r) = (l', sb', s)"
    by (metis surj_pair)
  have c: "lsu_compute r ?l b sb = Some (l', b, sb', s)"
    unfolding lsu_compute_store [OF assms(7-11)] by (simp add: st)
  from lsu_run_pending [OF assms(1-3) c] obtain t where
    t: "lsu_run cf l q p b sb = Some (l', t, port_set s p, b, sb', exec_feedback s)"
      "fifo_inv t" "fifo_items t = rest" by blast
  show ?thesis
  proof (cases "length (fifo_items sb) < qsize sb")
    case True
    with full st have e: "l' = ?l" "sb' = sb_push_sync (lsu_item (lsu_size x) ?d r) sb" "s = exec_receive r"
      by (simp_all add: lsu_store_def)
    have "sb_inv sb'" "sb_request_q sb' = map Sb_push [lsu_item (lsu_size x) ?d r]"
      "length (fifo_items sb') + length [lsu_item (lsu_size x) ?d r] \<le> qsize sb'"
      using assms(5,6) True by (auto simp: e sb_push_sync_def sb_inv_def)
    from sb_sync_pushes [OF this(1,2) _ this(3)] lsu_item_ok [OF assms(4,12)] obtain u where
      u: "sb_sync sb' = Some u" "sb_inv u" "fifo_items u = fifo_items sb @ [lsu_item (lsu_size x) ?d r]"
      by (auto simp: e sb_push_sync_def)
    from mem_view_push [OF u(3), of b] t u True show ?thesis
      by (intro exI [of _ l'] exI [of _ t] exI [of _ s] exI [of _ sb'] exI [of _ u])
        (simp add: e lsu_pending_def store_le_data)
  next
    case False
    with full st have e: "l' = ?l\<lparr>lsu_busy := True, lsu_hold_rev_pack := r\<rparr>" "sb' = sb"
      "s = (exec_receive r)\<lparr>p_enable := False\<rparr>" by (auto simp: lsu_store_def)
    have "sb_sync sb' = Some sb" using assms(6) by (simp add: sb_sync_def e)
    with t assms(5) False show ?thesis
      by (intro exI [of _ l'] exI [of _ t] exI [of _ s] exI [of _ sb'] exI [of _ sb]) (simp add: e lsu_pending_def)
  qed
qed

theorem lsu_store_correct_witness:
  "\<exists>l' t s sb' u. lsu_run commit_feedback_zero lsu_new (queue_demo (lsu_packet Lsu_sw 0x80000000 0x55667788)) (port_new execute_wb_zero)
      bus_start sb_demo = Some (l', t, port_set s (port_new execute_wb_zero), bus_start, sb', exec_feedback s)
    \<and> sb_sync sb' = Some u
    \<and> mem_view bus_start u = store_le (mem_view bus_start sb_demo) 0x80000000 4 0x55667788"
proof -
  let ?r = "lsu_packet Lsu_sw 0x80000000 0x55667788"
  have ok: "bus_mem_ok bus_start (unat (lsu_size Lsu_sw)) (p_lsu_addr ?r)"
    using bus_start_mem_ok(1) by (simp add: lsu_packet_simps)
  have q: "sb_request_q sb_demo = []" "length (fifo_items sb_demo) < qsize sb_demo"
    by (simp_all add: sb_demo_items) (simp_all add: sb_demo_def)
  from lsu_store_correct [OF queue_demo_items(1) lsu_pending_demo no_flush bus_start_props(2) sb_demo_inv q(1)
      lsu_packet_simps(1-4) _ ok, of "port_new execute_wb_zero"] q(2)
  show ?thesis by (auto simp: lsu_is_load_def lsu_packet_simps)
qed

end
