(* ===== verification/Ras.thy ===== *)
theory Ras
  imports Prelude
begin

text \<open>
  \<open>component/stack.h\<close> and \<open>component/ras.h\<close>: the return address stack of the branch predictor, a
  bounded stack of addresses with repetition counts.  \<open>stack::get_size\<close> refers to members that the
  class does not have and is never instantiated; it is not modelled.  The member \<open>size\<close> is
  \<open>st_size\<close>.  The performance counter bumped on an overflow belongs to the console of
  \<open>main.cpp\<close> and is left out.
\<close>

section \<open>The stack\<close>

record 'a stack =
  st_buffer :: "'a list"
  st_size :: nat
  top_ptr :: nat

definition stack_new :: "nat \<Rightarrow> 'a \<Rightarrow> 'a stack" where
  "stack_new n junk = \<lparr>st_buffer = replicate n junk, st_size = n, top_ptr = 0\<rparr>"

definition stack_reset :: "('a, 'z) stack_scheme \<Rightarrow> ('a, 'z) stack_scheme" where
  "stack_reset s = s\<lparr>top_ptr := 0\<rparr>"

definition stack_flush :: "('a, 'z) stack_scheme \<Rightarrow> ('a, 'z) stack_scheme" where
  "stack_flush s = s\<lparr>top_ptr := 0\<rparr>"

definition stack_is_empty :: "('a, 'z) stack_scheme \<Rightarrow> bool" where
  "stack_is_empty s = (top_ptr s = 0)"

definition stack_is_full :: "('a, 'z) stack_scheme \<Rightarrow> bool" where
  "stack_is_full s = (top_ptr s = st_size s)"

definition stack_push :: "'a \<Rightarrow> ('a, 'z) stack_scheme \<Rightarrow> (bool \<times> ('a, 'z) stack_scheme) option" where
  "stack_push x s =
     (if stack_is_full s then Some (False, s)
      else do {
        b \<leftarrow> array_set (st_buffer s) (top_ptr s) x;
        Some (True, s\<lparr>st_buffer := b, top_ptr := top_ptr s + 1\<rparr>) })"

definition stack_pop :: "('a, 'z) stack_scheme \<Rightarrow> ('a option \<times> ('a, 'z) stack_scheme) option" where
  "stack_pop s =
     (if stack_is_empty s then Some (None, s)
      else do {
        x \<leftarrow> array_get (st_buffer s) (top_ptr s - 1);
        Some (Some x, s\<lparr>top_ptr := top_ptr s - 1\<rparr>) })"

text \<open>The outer \<open>None\<close> is an access outside the buffer, the inner one the answer false.\<close>

definition stack_get_top :: "('a, 'z) stack_scheme \<Rightarrow> 'a option option" where
  "stack_get_top s =
     (if stack_is_empty s then Some None
      else do { x \<leftarrow> array_get (st_buffer s) (top_ptr s - 1); Some (Some x) })"

section \<open>The return address stack\<close>

record ras_item_t =
  ras_addr :: u32
  ras_cnt :: u32

record ras = "ras_item_t stack" +
  last_addr :: u32
  ras_full :: u64

text \<open>\<open>ras_full\<close> is the counter behind \<open>ras_full_add()\<close>.\<close>

definition ras_new :: "nat \<Rightarrow> ras_item_t \<Rightarrow> ras" where
  "ras_new n junk = stack.extend (stack_new n junk) (ras.fields 0 0)"

definition ras_reset :: "ras \<Rightarrow> ras" where
  "ras_reset s = stack_reset (s\<lparr>last_addr := 0\<rparr>)"

definition ras_set_item :: "nat \<Rightarrow> ras_item_t \<Rightarrow> ras \<Rightarrow> ras option" where
  "ras_set_item i x s = do { b \<leftarrow> array_set (st_buffer s) i x; Some (s\<lparr>st_buffer := b\<rparr>) }"

definition ras_get_top_id :: "ras \<Rightarrow> nat option" where
  "ras_get_top_id s = (if stack_is_empty s then None else Some (top_ptr s - 1))"

text \<open>\<open>throw_push\<close>: the oldest item is dropped and the others move down by one.\<close>

definition ras_throw_push :: "ras_item_t \<Rightarrow> ras \<Rightarrow> ras option" where
  "ras_throw_push x s = do {
     b \<leftarrow> fold_opt (\<lambda>i b. do { y \<leftarrow> array_get b i; array_set b (i - 1) y }) [1..<top_ptr s] (st_buffer s);
     b \<leftarrow> array_set b (top_ptr s - 1) x;
     Some (s\<lparr>st_buffer := b\<rparr>) }"

definition ras_push_new :: "ras_item_t \<Rightarrow> ras \<Rightarrow> ras option" where
  "ras_push_new x s =
     (if stack_is_full s then ras_throw_push x (s\<lparr>ras_full := ras_full s + 1\<rparr>)
      else map_option snd (stack_push x s))"

definition ras_push_addr :: "u32 \<Rightarrow> ras \<Rightarrow> ras option" where
  "ras_push_addr addr s = do {
     top \<leftarrow> stack_get_top s;
     case top of
       Some t \<Rightarrow>
         if ras_addr t = addr \<and> ras_cnt t < 0xFFFFFFFF
         then do { item_id \<leftarrow> ras_get_top_id s; ras_set_item item_id (t\<lparr>ras_cnt := ras_cnt t + 1\<rparr>) s }
         else ras_push_new \<lparr>ras_addr = addr, ras_cnt = 1\<rparr> s
     | None \<Rightarrow> ras_push_new \<lparr>ras_addr = addr, ras_cnt = 1\<rparr> s }"

definition ras_pop_addr :: "ras \<Rightarrow> (u32 \<times> ras) option" where
  "ras_pop_addr s = do {
     top \<leftarrow> stack_get_top s;
     case top of
       Some t \<Rightarrow> do {
         s \<leftarrow> (if ras_cnt t = 1
              then map_option snd (stack_pop (s\<lparr>last_addr := ras_addr t\<rparr>))
              else do { item_id \<leftarrow> ras_get_top_id s; ras_set_item item_id (t\<lparr>ras_cnt := ras_cnt t - 1\<rparr>) s });
         Some (ras_addr t, s) }
     | None \<Rightarrow> Some (last_addr s, s) }"

section \<open>The addresses on the stack\<close>

definition run_of :: "ras_item_t \<Rightarrow> u32 list" where
  "run_of t = replicate (unat (ras_cnt t)) (ras_addr t)"

definition ras_runs :: "ras \<Rightarrow> ras_item_t list" where
  "ras_runs s = rev (take (top_ptr s) (st_buffer s))"

text \<open>The addresses, the one to be popped next first.\<close>

definition ras_abs :: "ras \<Rightarrow> u32 list" where
  "ras_abs s = concat (map run_of (ras_runs s))"

definition ras_inv :: "ras \<Rightarrow> bool" where
  "ras_inv s = (length (st_buffer s) = st_size s \<and> top_ptr s \<le> st_size s \<and> 0 < st_size s
     \<and> (\<forall>t \<in> set (ras_runs s). ras_cnt t \<noteq> 0))"

lemma run_of_length: "ras_cnt t \<noteq> 0 \<Longrightarrow> 1 \<le> length (run_of t)"
  by (simp add: run_of_def Suc_le_eq unat_gt_0)

lemma runs_length: "(\<forall>t \<in> set ts. ras_cnt t \<noteq> 0) \<Longrightarrow> length ts \<le> length (concat (map run_of ts))"
proof (induction ts)
  case (Cons t ts)
  then show ?case using run_of_length [of t] by simp
qed simp

lemma runs_empty: "length (st_buffer s) = st_size s \<Longrightarrow> top_ptr s \<le> st_size s \<Longrightarrow> ras_runs s = [] \<longleftrightarrow> top_ptr s = 0"
  by (auto simp: ras_runs_def)

lemma ras_top:
  assumes "ras_inv s" "ras_runs s = t # ts"
  shows "stack_get_top s = Some (Some t)" "ras_get_top_id s = Some (top_ptr s - 1)"
    "ras_set_item (top_ptr s - 1) x s = Some (s\<lparr>st_buffer := (st_buffer s)[top_ptr s - 1 := x]\<rparr>)"
    "ras_runs (s\<lparr>st_buffer := (st_buffer s)[top_ptr s - 1 := x]\<rparr>) = x # ts"
    "rev (take (top_ptr s - 1) (st_buffer s)) = ts" "0 < top_ptr s"
proof -
  have "top_ptr s \<noteq> 0" using assms(2) by (intro notI) (simp add: ras_runs_def)
  then have n: "0 < top_ptr s" "top_ptr s \<le> length (st_buffer s)"
    using assms(1) by (simp_all add: ras_inv_def)
  then obtain k where k: "top_ptr s = Suc k" "k < length (st_buffer s)" by (cases "top_ptr s") auto
  have r: "take (Suc k) (st_buffer s) = take k (st_buffer s) @ [st_buffer s ! k]"
    by (rule take_Suc_conv_app_nth [OF k(2)])
  with assms(2) k(1) have t: "t = st_buffer s ! k" "ts = rev (take k (st_buffer s))" by (auto simp: ras_runs_def)
  show "stack_get_top s = Some (Some t)" "ras_get_top_id s = Some (top_ptr s - 1)"
    "ras_set_item (top_ptr s - 1) x s = Some (s\<lparr>st_buffer := (st_buffer s)[top_ptr s - 1 := x]\<rparr>)"
    "rev (take (top_ptr s - 1) (st_buffer s)) = ts" "0 < top_ptr s"
    using k t by (auto simp: stack_get_top_def ras_get_top_id_def stack_is_empty_def ras_set_item_def)
  show "ras_runs (s\<lparr>st_buffer := (st_buffer s)[top_ptr s - 1 := x]\<rparr>) = x # ts"
    using k t by (simp add: ras_runs_def take_Suc_conv_app_nth)
qed

lemma shift_down:
  assumes "n \<le> length b" "0 < m" "m \<le> n"
  shows "fold_opt (\<lambda>i b. do { y \<leftarrow> array_get b i; array_set b (i - 1) y }) [1..<m] b
    = Some (take (m - 1) (tl b) @ drop (m - 1) b)"
  using assms(2,3)
proof (induction m rule: nat_induct_non_zero)
  case 1
  then show ?case by simp
next
  case (Suc m)
  let ?b = "take (m - 1) (tl b) @ drop (m - 1) b"
  have m: "m < length b" "0 < m" "length ?b = length b" using Suc.prems Suc.hyps assms(1) by auto
  have "[1..<Suc m] = [1..<m] @ [m]" using Suc.hyps by simp
  moreover have "?b ! m = b ! m" using m by (cases m) (simp_all add: nth_append)
  moreover have "?b[m - 1 := b ! m] = take m (tl b) @ drop m b"
  proof (rule nth_equalityI)
    fix i assume "i < length (?b[m - 1 := b ! m])"
    then have i: "i < length b" using m(3) by simp
    show "?b[m - 1 := b ! m] ! i = (take m (tl b) @ drop m b) ! i"
    proof -
      obtain k where k: "m = Suc k" using m(2) by (cases m) auto
      consider "i < k" | "i = k" | "k < i" by linarith
      then show ?thesis using i m(1) by cases (simp_all add: k nth_append nth_tl)
    qed
  qed (use m in simp)
  ultimately show ?case
    using Suc.IH Suc.prems m by (simp add: fold_opt_append del: upt_Suc)
qed

text \<open>A push puts the address on top of what it keeps; only when the buffer is full it forgets the
  oldest run.\<close>

lemma push_new:
  assumes "ras_inv s" "\<not> stack_is_full s"
  shows "\<exists>u. map_option snd (stack_push x s) = Some u \<and> st_size u = st_size s \<and> ras_runs u = x # ras_runs s
    \<and> length (st_buffer u) = st_size u \<and> top_ptr u \<le> st_size u"
proof -
  have "top_ptr s < length (st_buffer s)" using assms by (auto simp: ras_inv_def stack_is_full_def)
  with assms show ?thesis
    by (auto simp: stack_push_def ras_inv_def ras_runs_def take_Suc_conv_app_nth)
qed

lemma push_throw:
  assumes "ras_inv s" "stack_is_full s"
  shows "\<exists>u. ras_throw_push x s = Some u \<and> st_size u = st_size s \<and> ras_runs u = x # butlast (ras_runs s)
    \<and> length (st_buffer u) = st_size u \<and> top_ptr u \<le> st_size u"
proof -
  let ?b = "take (top_ptr s - 1) (tl (st_buffer s)) @ drop (top_ptr s - 1) (st_buffer s)"
  have n: "0 < top_ptr s" "top_ptr s = length (st_buffer s)" "length (st_buffer s) = st_size s"
    using assms by (auto simp: ras_inv_def stack_is_full_def)
  have sh: "fold_opt (\<lambda>i b. do { y \<leftarrow> array_get b i; array_set b (i - 1) y }) [1..<top_ptr s] (st_buffer s) = Some ?b"
    by (rule shift_down [of "top_ptr s"]) (use n in auto)
  have "?b[top_ptr s - 1 := x] = tl (st_buffer s) @ [x]"
    using n by (cases "st_buffer s" rule: rev_cases) (auto simp: list_update_append)
  then have "ras_throw_push x s = Some (s\<lparr>st_buffer := tl (st_buffer s) @ [x]\<rparr>)"
    unfolding ras_throw_push_def sh using n by simp
  moreover have "ras_runs (s\<lparr>st_buffer := tl (st_buffer s) @ [x]\<rparr>) = x # butlast (ras_runs s)"
    using n by (simp add: ras_runs_def butlast_rev)
  ultimately show ?thesis using n by auto
qed

text \<open>What a push keeps of the addresses below: all of them, or all but the oldest run when every slot
  is in use.\<close>

definition ras_kept :: "ras \<Rightarrow> u32 list \<Rightarrow> bool" where
  "ras_kept s xs = (\<exists>ys. ras_abs s = xs @ ys \<and> (ys = [] \<or> st_size s - 1 \<le> length xs))"

lemma ras_push_spec:
  assumes "ras_inv s"
  shows "\<exists>u xs. ras_push_addr a s = Some u \<and> ras_inv u \<and> st_size u = st_size s \<and> ras_abs u = a # xs \<and> ras_kept s xs"
proof -
  let ?x = "\<lparr>ras_addr = a, ras_cnt = 1\<rparr>"
  let ?s = "s\<lparr>ras_full := ras_full s + 1\<rparr>"
  define new where "new = ras_push_new ?x s"
  have x: "run_of ?x = [a]" by (simp add: run_of_def)
  have new: "\<exists>u xs. new = Some u \<and> ras_inv u \<and> st_size u = st_size s \<and> ras_abs u = a # xs \<and> ras_kept s xs"
  proof (cases "stack_is_full s")
    case False
    with push_new [OF assms False, of ?x] obtain u where
      u: "new = Some u" "st_size u = st_size s" "ras_runs u = ?x # ras_runs s"
        "length (st_buffer u) = st_size u" "top_ptr u \<le> st_size u" by (auto simp: new_def ras_push_new_def)
    then have "ras_abs u = a # ras_abs s" "ras_inv u"
      using assms x by (auto simp: ras_abs_def ras_inv_def)
    with u show ?thesis by (auto simp: ras_kept_def)
  next
    case True
    have "ras_inv ?s" "stack_is_full ?s" "ras_runs ?s = ras_runs s"
      using assms True by (simp_all add: ras_inv_def stack_is_full_def ras_runs_def)
    with True push_throw [of ?s ?x] obtain u where
      u: "new = Some u" "st_size u = st_size s" "ras_runs u = ?x # butlast (ras_runs s)"
        "length (st_buffer u) = st_size u" "top_ptr u \<le> st_size u" by (auto simp: new_def ras_push_new_def)
    have runs: "length (ras_runs s) = st_size s" "0 < st_size s" "\<forall>t \<in> set (ras_runs s). ras_cnt t \<noteq> 0"
      using assms True by (auto simp: ras_inv_def stack_is_full_def ras_runs_def)
    then have ne: "ras_runs s \<noteq> []" by auto
    let ?xs = "concat (map run_of (butlast (ras_runs s)))"
    have "ras_abs s = ?xs @ run_of (last (ras_runs s))"
      unfolding ras_abs_def by (subst append_butlast_last_id [OF ne, symmetric]) simp
    moreover have "st_size s - 1 \<le> length ?xs"
      using runs_length [of "butlast (ras_runs s)"] runs in_set_butlastD by (metis length_butlast)
    moreover have "ras_inv u"
      using u runs in_set_butlastD unfolding ras_inv_def by fastforce
    moreover have "ras_abs u = a # ?xs" using u(3) x by (simp add: ras_abs_def)
    ultimately show ?thesis using u(1,2) by (auto simp: ras_kept_def)
  qed
  show ?thesis
  proof (cases "ras_runs s")
    case Nil
    then have "stack_get_top s = Some None"
      using assms runs_empty [of s] by (simp add: ras_inv_def stack_get_top_def stack_is_empty_def)
    then have "ras_push_addr a s = new" by (simp add: ras_push_addr_def new_def)
    with new show ?thesis by simp
  next
    case (Cons t ts)
    note top = ras_top [OF assms Cons]
    show ?thesis
    proof (cases "ras_addr t = a \<and> ras_cnt t < 0xFFFFFFFF")
      case False
      with top(1) have "ras_push_addr a s = new" by (auto simp: ras_push_addr_def new_def)
      with new show ?thesis by simp
    next
      case True
      let ?t = "t\<lparr>ras_cnt := ras_cnt t + 1\<rparr>"
      let ?u = "s\<lparr>st_buffer := (st_buffer s)[top_ptr s - 1 := ?t]\<rparr>"
      have cnt: "unat (ras_cnt t + 1) = Suc (unat (ras_cnt t))"
        using True by (simp add: unat_word_ariths word_less_nat_alt)
      then have "ras_cnt t + 1 \<noteq> 0" by (metis unat_0 nat.distinct(1))
      then have "ras_inv ?u" using assms top(4) [of ?t] Cons by (simp add: ras_inv_def)
      moreover have "ras_abs ?u = a # ras_abs s"
        using top(4) [of ?t] Cons True cnt by (simp add: ras_abs_def run_of_def)
      moreover have "ras_push_addr a s = Some ?u"
        using True top(1,2) top(3) [of ?t] by (simp add: ras_push_addr_def)
      ultimately show ?thesis by (auto simp: ras_kept_def)
    qed
  qed
qed

text \<open>A pop takes the top address off, and repeats the last one when nothing is left.\<close>

lemma ras_pop_spec:
  assumes "ras_inv s"
  shows "\<exists>u. ras_pop_addr s = Some (case ras_abs s of [] \<Rightarrow> last_addr s | a # _ \<Rightarrow> a, u)
    \<and> ras_inv u \<and> st_size u = st_size s \<and> ras_abs u = tl (ras_abs s)"
proof (cases "ras_runs s")
  case Nil
  then have "stack_get_top s = Some None" "ras_abs s = []"
    using assms runs_empty [of s] by (simp_all add: ras_inv_def stack_get_top_def stack_is_empty_def ras_abs_def)
  with assms show ?thesis by (simp add: ras_pop_addr_def)
next
  case (Cons t ts)
  note top = ras_top [OF assms Cons]
  have c: "ras_cnt t \<noteq> 0" using assms Cons by (simp add: ras_inv_def)
  then obtain k where k: "unat (ras_cnt t) = Suc k" by (metis not0_implies_Suc unat_eq_0)
  have abs: "ras_abs s = ras_addr t # replicate k (ras_addr t) @ concat (map run_of ts)"
    using Cons k by (simp add: ras_abs_def run_of_def)
  show ?thesis
  proof (cases "ras_cnt t = 1")
    case True
    let ?u = "s\<lparr>last_addr := ras_addr t, top_ptr := top_ptr s - 1\<rparr>"
    have "ras_runs ?u = ts" using top(5) by (simp add: ras_runs_def)
    moreover have "top_ptr s - 1 < length (st_buffer s)" using assms top(6) by (auto simp: ras_inv_def)
    ultimately show ?thesis
      using True top(1,6) abs k assms Cons
      by (auto simp: ras_pop_addr_def stack_pop_def stack_is_empty_def ras_inv_def ras_abs_def)
  next
    case False
    let ?t = "t\<lparr>ras_cnt := ras_cnt t - 1\<rparr>"
    let ?u = "s\<lparr>st_buffer := (st_buffer s)[top_ptr s - 1 := ?t]\<rparr>"
    have cnt: "unat (ras_cnt t - 1) = k" using k c by (simp add: unat_minus_one)
    have "ras_cnt t - 1 \<noteq> 0" using False by simp
    then have "ras_inv ?u" using assms top(4) [of ?t] Cons by (simp add: ras_inv_def)
    moreover have "ras_abs ?u = tl (ras_abs s)"
      using top(4) [of ?t] cnt abs by (simp add: ras_abs_def run_of_def)
    moreover have "ras_pop_addr s = Some (ras_addr t, ?u)"
      using False top(1,2) top(3) [of ?t] by (simp add: ras_pop_addr_def)
    ultimately show ?thesis using abs by simp
  qed
qed

section \<open>Last in, first out\<close>

fun ras_push_all :: "u32 list \<Rightarrow> ras \<Rightarrow> ras option" where
  "ras_push_all [] s = Some s"
| "ras_push_all (a # as) s = do { s \<leftarrow> ras_push_addr a s; ras_push_all as s }"

fun ras_pop_many :: "nat \<Rightarrow> ras \<Rightarrow> (u32 list \<times> ras) option" where
  "ras_pop_many 0 s = Some ([], s)"
| "ras_pop_many (Suc n) s = do { (a, s) \<leftarrow> ras_pop_addr s; (as, s) \<leftarrow> ras_pop_many n s; Some (a # as, s) }"

lemma ras_push_all_spec:
  assumes "ras_inv s" "take (length ks) (ras_abs s) = ks" "length ks + length as \<le> st_size s"
  shows "\<exists>u. ras_push_all as s = Some u \<and> ras_inv u \<and> st_size u = st_size s
    \<and> take (length ks + length as) (ras_abs u) = rev as @ ks"
  using assms
proof (induction as arbitrary: s ks)
  case (Cons a as)
  from ras_push_spec [OF Cons.prems(1), of a] obtain u xs where
    u: "ras_push_addr a s = Some u" "ras_inv u" "st_size u = st_size s" "ras_abs u = a # xs" "ras_kept s xs" by blast
  from u(5) obtain ys where ys: "ras_abs s = xs @ ys" "ys = [] \<or> st_size s - 1 \<le> length xs"
    by (auto simp: ras_kept_def)
  have "take (length ks) xs = ks"
  proof (cases "ys = []")
    case False
    with ys(2) Cons.prems(3) have "length ks \<le> length xs" by auto
    with Cons.prems(2) ys(1) show ?thesis by simp
  qed (use ys Cons.prems(2) in simp)
  then have "take (length (a # ks)) (ras_abs u) = a # ks" using u(4) by simp
  moreover have "length (a # ks) + length as \<le> st_size u" using Cons.prems(3) u(3) by simp
  ultimately obtain v where "ras_push_all as u = Some v" "ras_inv v" "st_size v = st_size u"
      "take (length (a # ks) + length as) (ras_abs v) = rev as @ a # ks"
    using Cons.IH [OF u(2), of "a # ks"] by blast
  with u(1,3) show ?case by simp
qed simp

lemma ras_pop_many_spec:
  assumes "ras_inv s" "n \<le> length (ras_abs s)"
  shows "\<exists>u. ras_pop_many n s = Some (take n (ras_abs s), u) \<and> ras_inv u \<and> ras_abs u = drop n (ras_abs s)"
  using assms
proof (induction n arbitrary: s)
  case (Suc n)
  from ras_pop_spec [OF Suc.prems(1)] Suc.prems(2) obtain u where
    u: "ras_pop_addr s = Some (hd (ras_abs s), u)" "ras_inv u" "ras_abs u = tl (ras_abs s)"
    by (cases "ras_abs s") auto
  then have "n \<le> length (ras_abs u)" using Suc.prems(2) by simp
  from Suc.IH [OF u(2) this] u(1,3) Suc.prems(2) show ?case
    by (cases "ras_abs s") auto
qed simp

text \<open>The return address stack is a stack: from any well-formed state, also a full one that
  has to forget its oldest entries, as many pushes as it has slots are returned by pops in reverse
  order, repeated addresses included.\<close>

theorem ras_lifo:
  assumes "ras_inv s" "length as \<le> st_size s"
  shows "\<exists>u v. ras_push_all as s = Some u \<and> ras_pop_many (length as) u = Some (rev as, v) \<and> ras_inv v"
proof -
  from ras_push_all_spec [OF assms(1), of "[]" as] assms(2) obtain u where
    u: "ras_push_all as s = Some u" "ras_inv u" "take (length as) (ras_abs u) = rev as" by auto
  then have "length as \<le> length (ras_abs u)" by (metis length_rev length_take min.absorb_iff2 min.commute)
  from ras_pop_many_spec [OF u(2) this] u(1,3) show ?thesis by auto
qed

text \<open>A full stack of two slots: two more calls, one of them recursive, return in order.\<close>

definition ras_demo :: ras where
  "ras_demo = \<lparr>st_buffer = [\<lparr>ras_addr = 4, ras_cnt = 1\<rparr>, \<lparr>ras_addr = 8, ras_cnt = 2\<rparr>], st_size = 2, top_ptr = 2, last_addr = 0, ras_full = 0\<rparr>"

theorem ras_lifo_witness:
  "\<exists>u v. ras_push_all [8, 12] ras_demo = Some u \<and> ras_pop_many 2 u = Some ([12, 8], v)
    \<and> ras_runs u = [\<lparr>ras_addr = 12, ras_cnt = 1\<rparr>, \<lparr>ras_addr = 8, ras_cnt = 3\<rparr>]"
proof -
  have "ras_inv ras_demo" by (simp add: ras_inv_def ras_demo_def ras_runs_def)
  moreover have "ras_push_all [8, 12] ras_demo = Some (ras_demo\<lparr>st_buffer := [\<lparr>ras_addr = 8, ras_cnt = 3\<rparr>, \<lparr>ras_addr = 12, ras_cnt = 1\<rparr>], ras_full := 1\<rparr>)"
    by (simp add: ras_demo_def ras_push_addr_def ras_push_new_def stack_get_top_def stack_is_empty_def array_get_def ras_get_top_id_def
        ras_set_item_def array_set_def stack_is_full_def ras_throw_push_def upt_rec)
  ultimately show ?thesis
    using ras_lifo [of ras_demo "[8, 12]"] by (auto simp: ras_demo_def ras_runs_def numeral_2_eq_2)
qed

end
