(* ===== verification/Branch_Predictor.thy ===== *)
theory Branch_Predictor
  imports Ras Checkpoint Decode
begin

text \<open>
  \<open>component/branch_predictor.h\<close>: a tournament of a global-history and a per-branch predictor for
  conditional branches, target caches for indirect calls and jumps, and the return address stack.
  Each keeps a speculative history, updated when an instruction is fetched, and a retired one,
  updated when it commits.  The sizes are those of \<open>top_header/config.h\<close>, where the four widths are
  12 and the second part of the address is empty.
\<close>

definition BP_ADDR_WIDTH :: nat where "BP_ADDR_WIDTH = 12"
definition BP_TABLE_SIZE :: nat where "BP_TABLE_SIZE = 2 ^ BP_ADDR_WIDTH"
definition RAS_SIZE :: nat where "RAS_SIZE = 256"

datatype bp_request = Bp_update (bq_pc: u32) (bq_instruction: u32) (bq_jump: bool) (bq_next_pc: u32) (bq_hit: bool)

record branch_predictor =
  gshare_global_history :: u32
  gshare_global_history_retired :: u32
  gshare_pht :: "u32 list"
  local_bht :: "u32 list"
  local_bht_retired :: "u32 list"
  local_pht :: "u32 list"
  cpht :: "u32 list"
  main_ras :: ras
  call_global_history :: u32
  call_target_cache :: "u32 list"
  normal_global_history :: u32
  normal_target_cache :: "u32 list"
  bp_request_q :: "bp_request list"

text \<open>The predictor of \<open>main.cpp\<close> is a static object: what the constructor does not set is zero.\<close>

definition bp_new :: "ras_item_t \<Rightarrow> branch_predictor" where
  "bp_new junk = \<lparr>gshare_global_history = 0, gshare_global_history_retired = 0,
     gshare_pht = replicate BP_TABLE_SIZE 0, local_bht = replicate BP_TABLE_SIZE 0,
     local_bht_retired = replicate BP_TABLE_SIZE 0, local_pht = replicate BP_TABLE_SIZE 0,
     cpht = replicate BP_TABLE_SIZE 0, main_ras = ras_new RAS_SIZE junk,
     call_global_history = 0, call_target_cache = replicate BP_TABLE_SIZE 0,
     normal_global_history = 0, normal_target_cache = replicate BP_TABLE_SIZE 0, bp_request_q = []\<rparr>"

text \<open>\<open>reset\<close> keeps the retired local histories.\<close>

definition bp_reset :: "branch_predictor \<Rightarrow> branch_predictor" where
  "bp_reset b = b\<lparr>gshare_global_history := 0, gshare_global_history_retired := 0,
     gshare_pht := replicate BP_TABLE_SIZE 0, local_bht := replicate BP_TABLE_SIZE 0,
     local_pht := replicate BP_TABLE_SIZE 0, cpht := replicate BP_TABLE_SIZE 0,
     main_ras := ras_reset (main_ras b),
     call_global_history := 0, call_target_cache := replicate BP_TABLE_SIZE 0,
     normal_global_history := 0, normal_target_cache := replicate BP_TABLE_SIZE 0, bp_request_q := []\<rparr>"

section \<open>Histories, counters and addresses\<close>

definition pc_p1 :: "u32 \<Rightarrow> u32" where
  "pc_p1 pc = drop_bit 2 pc AND mask BP_ADDR_WIDTH"

definition history_push :: "u32 \<Rightarrow> bool \<Rightarrow> u32" where
  "history_push h jump = (push_bit 1 h AND mask BP_ADDR_WIDTH) OR (if jump then 1 else 0)"

definition bp_index :: "u32 \<Rightarrow> u32 \<Rightarrow> nat" where
  "bp_index h pc = unat (h XOR pc_p1 pc)"

text \<open>The two-bit counters.\<close>

definition counter_update :: "bool \<Rightarrow> u32 \<Rightarrow> u32" where
  "counter_update jump c =
     (if jump then (if c < 3 then c + 1 else c) else (if c > 0 then c - 1 else c))"

definition table_update :: "nat \<Rightarrow> (u32 \<Rightarrow> u32) \<Rightarrow> u32 list \<Rightarrow> u32 list option" where
  "table_update i f t = do { c \<leftarrow> array_get t i; array_set t i (f c) }"

section \<open>The global-history predictor\<close>

definition bp_gshare_global_history_update :: "bool \<Rightarrow> bool \<Rightarrow> branch_predictor \<Rightarrow> branch_predictor" where
  "bp_gshare_global_history_update jump hit b =
     (let h = history_push (gshare_global_history_retired b) jump in
      b\<lparr>gshare_global_history_retired := h,
        gshare_global_history := (if \<not> hit then h else gshare_global_history b)\<rparr>)"

definition gshare_global_history_update_bru_fix :: "checkpoint_t \<Rightarrow> bool \<Rightarrow> bool \<Rightarrow> branch_predictor \<Rightarrow> branch_predictor" where
  "gshare_global_history_update_bru_fix cp jump hit b =
     (if \<not> hit then b\<lparr>gshare_global_history := history_push (global_history cp) jump\<rparr> else b)"

definition gshare_global_history_update_guess :: "bool \<Rightarrow> branch_predictor \<Rightarrow> branch_predictor" where
  "gshare_global_history_update_guess jump b =
     b\<lparr>gshare_global_history := history_push (gshare_global_history b) jump\<rparr>"

definition gshare_get_prediction :: "u32 \<Rightarrow> branch_predictor \<Rightarrow> bool option" where
  "gshare_get_prediction pc b = do {
     c \<leftarrow> array_get (gshare_pht b) (bp_index (gshare_global_history b) pc);
     Some (c \<ge> 2) }"

definition gshare_update_prediction :: "u32 \<Rightarrow> bool \<Rightarrow> bool \<Rightarrow> branch_predictor \<Rightarrow> branch_predictor option" where
  "gshare_update_prediction pc jump hit b = do {
     t \<leftarrow> table_update (bp_index (gshare_global_history_retired b) pc) (counter_update jump) (gshare_pht b);
     Some (bp_gshare_global_history_update jump hit (b\<lparr>gshare_pht := t\<rparr>)) }"

section \<open>The local predictor\<close>

definition local_update_prediction :: "u32 \<Rightarrow> bool \<Rightarrow> bool \<Rightarrow> branch_predictor \<Rightarrow> branch_predictor option" where
  "local_update_prediction pc jump hit b = do {
     let i = unat (pc_p1 pc);
     bht_value \<leftarrow> array_get (local_bht_retired b) i;
     retired \<leftarrow> array_set (local_bht_retired b) i (history_push bht_value jump);
     pht \<leftarrow> table_update (bp_index bht_value pc) (counter_update jump) (local_pht b);
     bht \<leftarrow> (if \<not> hit then do { v \<leftarrow> array_get retired i; array_set (local_bht b) i v } else Some (local_bht b));
     Some (b\<lparr>local_bht_retired := retired, local_pht := pht, local_bht := bht\<rparr>) }"

definition local_get_bht_value :: "u32 \<Rightarrow> branch_predictor \<Rightarrow> u32 option" where
  "local_get_bht_value pc b = array_get (local_bht b) (unat (pc_p1 pc))"

definition local_update_prediction_bru_fix :: "checkpoint_t \<Rightarrow> u32 \<Rightarrow> bool \<Rightarrow> bool \<Rightarrow> branch_predictor \<Rightarrow> branch_predictor option" where
  "local_update_prediction_bru_fix cp pc jump hit b =
     (if \<not> hit then do {
        bht \<leftarrow> array_set (local_bht b) (unat (pc_p1 pc)) (history_push (local_history cp) jump);
        Some (b\<lparr>local_bht := bht\<rparr>) }
      else Some b)"

definition local_update_prediction_guess :: "u32 \<Rightarrow> bool \<Rightarrow> branch_predictor \<Rightarrow> branch_predictor option" where
  "local_update_prediction_guess pc jump b = do {
     bht \<leftarrow> table_update (unat (pc_p1 pc)) (\<lambda>h. history_push h jump) (local_bht b);
     Some (b\<lparr>local_bht := bht\<rparr>) }"

definition local_get_prediction :: "u32 \<Rightarrow> branch_predictor \<Rightarrow> bool option" where
  "local_get_prediction pc b = do {
     bht_value \<leftarrow> array_get (local_bht b) (unat (pc_p1 pc));
     c \<leftarrow> array_get (local_pht b) (bp_index bht_value pc);
     Some (c \<ge> 2) }"

section \<open>The chooser\<close>

definition chooser_update :: "bool \<Rightarrow> u32 \<Rightarrow> u32" where
  "chooser_update hit c =
     (if c \<le> 1 then (if hit \<and> c > 0 then c - 1 else if \<not> hit then c + 1 else c)
      else (if hit \<and> c < 3 then c + 1 else if \<not> hit then c - 1 else c))"

definition cpht_update_prediction :: "u32 \<Rightarrow> bool \<Rightarrow> branch_predictor \<Rightarrow> branch_predictor option" where
  "cpht_update_prediction pc hit b = do {
     t \<leftarrow> table_update (bp_index (gshare_global_history b) pc) (chooser_update hit) (cpht b);
     Some (b\<lparr>cpht := t\<rparr>) }"

definition cpht_get_prediction :: "u32 \<Rightarrow> branch_predictor \<Rightarrow> bool option" where
  "cpht_get_prediction pc b = do {
     c \<leftarrow> array_get (cpht b) (bp_index (gshare_global_history b) pc);
     Some (c \<le> 1) }"

section \<open>The target caches\<close>

definition call_update_prediction :: "u32 \<Rightarrow> bool \<Rightarrow> u32 \<Rightarrow> branch_predictor \<Rightarrow> branch_predictor option" where
  "call_update_prediction pc jump target b = do {
     t \<leftarrow> array_set (call_target_cache b) (bp_index (call_global_history b) pc) target;
     Some (b\<lparr>call_target_cache := t, call_global_history := history_push (call_global_history b) jump\<rparr>) }"

definition call_get_prediction :: "u32 \<Rightarrow> branch_predictor \<Rightarrow> u32 option" where
  "call_get_prediction pc b = array_get (call_target_cache b) (bp_index (call_global_history b) pc)"

definition normal_update_prediction :: "u32 \<Rightarrow> bool \<Rightarrow> u32 \<Rightarrow> branch_predictor \<Rightarrow> branch_predictor option" where
  "normal_update_prediction pc jump target b = do {
     t \<leftarrow> array_set (normal_target_cache b) (bp_index (normal_global_history b) pc) target;
     Some (b\<lparr>normal_target_cache := t, normal_global_history := history_push (normal_global_history b) jump\<rparr>) }"

definition normal_get_prediction :: "u32 \<Rightarrow> branch_predictor \<Rightarrow> u32 option" where
  "normal_get_prediction pc b = array_get (normal_target_cache b) (bp_index (normal_global_history b) pc)"

section \<open>The interface\<close>

definition bp_save :: "u32 \<Rightarrow> checkpoint_t \<Rightarrow> branch_predictor \<Rightarrow> checkpoint_t option" where
  "bp_save pc cp b = do {
     h \<leftarrow> local_get_bht_value pc b;
     Some (cp\<lparr>global_history := gshare_global_history b, local_history := h\<rparr>) }"

definition is_link :: "u32 \<Rightarrow> bool" where
  "is_link r = (r = 1 \<or> r = 5)"

definition bp_ras_push :: "u32 \<Rightarrow> branch_predictor \<Rightarrow> branch_predictor option" where
  "bp_ras_push a b = do { r \<leftarrow> ras_push_addr a (main_ras b); Some (b\<lparr>main_ras := r\<rparr>) }"

definition bp_ras_pop :: "branch_predictor \<Rightarrow> (u32 \<times> branch_predictor) option" where
  "bp_ras_pop b = do { (a, r) \<leftarrow> ras_pop_addr (main_ras b); Some (a, b\<lparr>main_ras := r\<rparr>) }"

text \<open>The two out-parameters are returned when the answer is true; when it is false nothing has been
  written to them.\<close>

definition bp_predict_jal :: "u32 \<Rightarrow> u32 \<Rightarrow> branch_predictor \<Rightarrow> ((bool \<times> u32) option \<times> branch_predictor) option" where
  "bp_predict_jal pc w b = do {
     imm \<leftarrow> sign_extend (f_imm_j w) 21;
     b \<leftarrow> (if is_link (f_rd w) then bp_ras_push (pc + 4) b else Some b);
     Some (Some (True, pc + imm), b) }"

definition bp_predict_jalr :: "u32 \<Rightarrow> u32 \<Rightarrow> branch_predictor \<Rightarrow> ((bool \<times> u32) option \<times> branch_predictor) option" where
  "bp_predict_jalr pc w b = do {
     (next_pc, b) \<leftarrow>
       (if is_link (f_rd w) then
          (if is_link (f_rs1 w) then
             (if f_rs1 w = f_rd w then do {
                t \<leftarrow> call_get_prediction pc b; b \<leftarrow> bp_ras_push (pc + 4) b; Some (t, b) }
              else do {
                (t, b) \<leftarrow> bp_ras_pop b; b \<leftarrow> bp_ras_push (pc + 4) b; Some (t, b) })
           else do {
             t \<leftarrow> call_get_prediction pc b; b \<leftarrow> bp_ras_push (pc + 4) b; Some (t, b) })
        else
          (if is_link (f_rs1 w) then bp_ras_pop b
           else do { t \<leftarrow> normal_get_prediction pc b; Some (t, b) }));
     Some (Some (True, next_pc), b) }"

definition bp_predict_branch :: "u32 \<Rightarrow> u32 \<Rightarrow> branch_predictor \<Rightarrow> ((bool \<times> u32) option \<times> branch_predictor) option" where
  "bp_predict_branch pc w b = do {
     g \<leftarrow> cpht_get_prediction pc b;
     taken \<leftarrow> (if \<not> g then local_get_prediction pc b else gshare_get_prediction pc b);
     imm \<leftarrow> sign_extend (f_imm_b w) 13;
     let next_pc = (if taken then pc + imm else pc + 4);
     Some (if f_funct3 w \<in> {0, 1, 4, 5, 6, 7} then Some (taken, next_pc) else None, b) }"

definition bp_get_prediction :: "u32 \<Rightarrow> u32 \<Rightarrow> branch_predictor \<Rightarrow> ((bool \<times> u32) option \<times> branch_predictor) option" where
  "bp_get_prediction pc w b =
     (if f_opcode w = 0x6f then bp_predict_jal pc w b
      else if f_opcode w = 0x67 then bp_predict_jalr pc w b
      else if f_opcode w = 0x63 then bp_predict_branch pc w b
      else Some (None, b))"

definition bp_update_prediction_guess :: "u32 \<Rightarrow> u32 \<Rightarrow> bool \<Rightarrow> u32 \<Rightarrow> branch_predictor \<Rightarrow> branch_predictor option" where
  "bp_update_prediction_guess pc w jump next_pc b =
     (if f_opcode w = 0x63
      then local_update_prediction_guess pc jump (gshare_global_history_update_guess jump b) else Some b)"

definition bp_update_prediction_bru_guess ::
  "checkpoint_t \<Rightarrow> u32 \<Rightarrow> u32 \<Rightarrow> bool \<Rightarrow> u32 \<Rightarrow> bool \<Rightarrow> branch_predictor \<Rightarrow> branch_predictor option" where
  "bp_update_prediction_bru_guess cp pc w jump next_pc hit b =
     (if f_opcode w = 0x63
      then local_update_prediction_bru_fix cp pc jump hit (gshare_global_history_update_bru_fix cp jump hit b)
      else Some b)"

definition bp_update_prediction :: "u32 \<Rightarrow> u32 \<Rightarrow> bool \<Rightarrow> u32 \<Rightarrow> bool \<Rightarrow> branch_predictor \<Rightarrow> branch_predictor option" where
  "bp_update_prediction pc w jump next_pc hit b =
     (if f_opcode w = 0x63 then do {
        b \<leftarrow> gshare_update_prediction pc jump hit b;
        b \<leftarrow> local_update_prediction pc jump hit b;
        cpht_update_prediction pc hit b }
      else if f_opcode w = 0x67 then
        (if is_link (f_rd w) then
           (if is_link (f_rs1 w) then
              (if f_rs1 w = f_rd w then call_update_prediction pc jump next_pc b else Some b)
            else call_update_prediction pc jump next_pc b)
         else if is_link (f_rs1 w) then Some b else normal_update_prediction pc jump next_pc b)
      else Some b)"

definition bp_update_prediction_sync :: "u32 \<Rightarrow> u32 \<Rightarrow> bool \<Rightarrow> u32 \<Rightarrow> bool \<Rightarrow> branch_predictor \<Rightarrow> branch_predictor" where
  "bp_update_prediction_sync pc w jump next_pc hit b =
     b\<lparr>bp_request_q := bp_request_q b @ [Bp_update pc w jump next_pc hit]\<rparr>"

fun bp_apply :: "bp_request \<Rightarrow> branch_predictor \<Rightarrow> branch_predictor option" where
  "bp_apply (Bp_update pc w jump next_pc hit) b = bp_update_prediction pc w jump next_pc hit b"

definition bp_sync :: "branch_predictor \<Rightarrow> branch_predictor option" where
  "bp_sync b = do {
     b' \<leftarrow> fold_opt bp_apply (bp_request_q b) b;
     Some (b'\<lparr>bp_request_q := []\<rparr>) }"

section \<open>Well-formed predictors\<close>

definition history_ok :: "u32 \<Rightarrow> bool" where
  "history_ok h = (take_bit BP_ADDR_WIDTH h = h)"

definition table_ok :: "(u32 \<Rightarrow> bool) \<Rightarrow> u32 list \<Rightarrow> bool" where
  "table_ok P t = (length t = BP_TABLE_SIZE \<and> (\<forall>x \<in> set t. P x))"

definition counter_ok :: "u32 \<Rightarrow> bool" where
  "counter_ok c = (c \<le> 3)"

definition bp_inv :: "branch_predictor \<Rightarrow> bool" where
  "bp_inv b = (history_ok (gshare_global_history b) \<and> history_ok (gshare_global_history_retired b)
     \<and> history_ok (call_global_history b) \<and> history_ok (normal_global_history b)
     \<and> table_ok counter_ok (gshare_pht b) \<and> table_ok counter_ok (local_pht b) \<and> table_ok counter_ok (cpht b)
     \<and> table_ok history_ok (local_bht b) \<and> table_ok history_ok (local_bht_retired b)
     \<and> table_ok (\<lambda>_. True) (call_target_cache b) \<and> table_ok (\<lambda>_. True) (normal_target_cache b)
     \<and> ras_inv (main_ras b))"

lemma history_push_ok [simp]: "history_ok (history_push h jump)"
  by (auto simp: history_ok_def history_push_def BP_ADDR_WIDTH_def take_bit_or simp flip: take_bit_eq_mask)

lemma pc_p1_ok [simp]: "history_ok (pc_p1 pc)"
  by (simp add: history_ok_def pc_p1_def BP_ADDR_WIDTH_def flip: take_bit_eq_mask)

lemma history_ok_lt: "history_ok h \<Longrightarrow> unat h < BP_TABLE_SIZE"
  unfolding history_ok_def BP_TABLE_SIZE_def BP_ADDR_WIDTH_def
  by (metis take_bit_nat_less_exp unsigned_take_bit_eq)

lemma index_lt [simp]: "history_ok h \<Longrightarrow> bp_index h pc < BP_TABLE_SIZE"
  unfolding bp_index_def
  by (rule history_ok_lt) (use pc_p1_ok [of pc] in \<open>simp add: history_ok_def take_bit_xor\<close>)

lemma p1_lt [simp]: "unat (pc_p1 pc) < BP_TABLE_SIZE"
  by (rule history_ok_lt) simp

lemma table_get: "table_ok P t \<Longrightarrow> i < BP_TABLE_SIZE \<Longrightarrow> array_get t i = Some (t ! i) \<and> P (t ! i)"
  by (auto simp: table_ok_def)

lemma table_set: "table_ok P t \<Longrightarrow> i < BP_TABLE_SIZE \<Longrightarrow> P v \<Longrightarrow> array_set t i v = Some (t[i := v]) \<and> table_ok P (t[i := v])"
  by (auto simp: table_ok_def dest: set_update_subset_insert [THEN subsetD])

lemma table_upd:
  "table_ok P t \<Longrightarrow> i < BP_TABLE_SIZE \<Longrightarrow> (\<And>c. P c \<Longrightarrow> P (f c))
    \<Longrightarrow> table_update i f t = Some (t[i := f (t ! i)]) \<and> table_ok P (t[i := f (t ! i)])"
  using table_get [of P t i] table_set [of P t i "f (t ! i)"] by (simp add: table_update_def)

text \<open>The counters saturate.\<close>

lemma counter_cases: "counter_ok c \<longleftrightarrow> c = 0 \<or> c = 1 \<or> c = 2 \<or> c = 3"
proof
  assume "counter_ok c"
  then have "unat c \<le> 3" by (simp add: counter_ok_def word_le_nat_alt)
  then have "unat c = 0 \<or> unat c = 1 \<or> unat c = 2 \<or> unat c = 3" by linarith
  then show "c = 0 \<or> c = 1 \<or> c = 2 \<or> c = 3" by (simp add: word_unat_eq_iff)
qed (auto simp: counter_ok_def)

lemma counter_update_ok: "counter_ok c \<Longrightarrow> counter_ok (counter_update jump c)"
  by (auto simp: counter_cases counter_update_def)

lemma chooser_update_ok: "counter_ok c \<Longrightarrow> counter_ok (chooser_update hit c)"
  by (auto simp: counter_cases chooser_update_def word_le_nat_alt)

section \<open>No operation leaves the tables\<close>

text \<open>\<open>keeps f\<close>: the operation returns, and on a well-formed predictor.\<close>

definition bp_keeps :: "branch_predictor option \<Rightarrow> bool" where
  "bp_keeps r = (\<exists>c. r = Some c \<and> bp_inv c)"

lemma bp_keeps_Some [simp]: "bp_keeps (Some c) = bp_inv c"
  by (simp add: bp_keeps_def)

lemma bp_keeps_bind: "bp_keeps r \<Longrightarrow> (\<And>c. bp_inv c \<Longrightarrow> bp_keeps (f c)) \<Longrightarrow> bp_keeps (Option.bind r f)"
  by (auto simp: bp_keeps_def)

lemma gshare_update_keeps: "bp_inv b \<Longrightarrow> bp_keeps (gshare_update_prediction pc jump hit b)"
  using table_upd [of counter_ok "gshare_pht b" "bp_index (gshare_global_history_retired b) pc" "counter_update jump"]
  by (auto simp: gshare_update_prediction_def bp_gshare_global_history_update_def bp_inv_def counter_update_ok Let_def)

lemma local_update_keeps:
  assumes "bp_inv b"
  shows "bp_keeps (local_update_prediction pc jump hit b)"
proof -
  let ?i = "unat (pc_p1 pc)" and ?r = "local_bht_retired b"
  have g: "array_get ?r ?i = Some (?r ! ?i)" "history_ok (?r ! ?i)"
    using table_get [of history_ok ?r ?i] assms by (auto simp: bp_inv_def)
  have s: "array_set ?r ?i (history_push (?r ! ?i) jump) = Some (?r[?i := history_push (?r ! ?i) jump])"
    "table_ok history_ok (?r[?i := history_push (?r ! ?i) jump])"
    using table_set [of history_ok ?r ?i "history_push (?r ! ?i) jump"] assms by (auto simp: bp_inv_def)
  let ?j = "bp_index (?r ! ?i) pc" and ?v = "?r[?i := history_push (?r ! ?i) jump] ! ?i"
  have u: "table_update ?j (counter_update jump) (local_pht b) = Some ((local_pht b)[?j := counter_update jump (local_pht b ! ?j)])"
    "table_ok counter_ok ((local_pht b)[?j := counter_update jump (local_pht b ! ?j)])"
    using table_upd [of counter_ok "local_pht b" ?j "counter_update jump"] assms g(2) counter_update_ok by (auto simp: bp_inv_def)
  have v: "array_get (?r[?i := history_push (?r ! ?i) jump]) ?i = Some ?v" "history_ok ?v"
    using table_get [OF s(2) p1_lt] by blast+
  have w: "array_set (local_bht b) ?i ?v = Some ((local_bht b)[?i := ?v])" "table_ok history_ok ((local_bht b)[?i := ?v])"
    using table_set [of history_ok "local_bht b" ?i ?v] assms v(2) by (auto simp: bp_inv_def)
  show ?thesis
    unfolding local_update_prediction_def Let_def g(1) bind.simps s(1) u(1)
    using assms s(2) u(2) v w by (auto simp: bp_inv_def)
qed

lemma cpht_update_keeps: "bp_inv b \<Longrightarrow> bp_keeps (cpht_update_prediction pc hit b)"
  using table_upd [of counter_ok "cpht b" "bp_index (gshare_global_history b) pc" "chooser_update hit"]
  by (auto simp: cpht_update_prediction_def bp_inv_def chooser_update_ok)

lemma call_update_keeps: "bp_inv b \<Longrightarrow> bp_keeps (call_update_prediction pc jump target b)"
  using table_set [of "\<lambda>_. True" "call_target_cache b" "bp_index (call_global_history b) pc" target]
  by (auto simp: call_update_prediction_def bp_inv_def)

lemma normal_update_keeps: "bp_inv b \<Longrightarrow> bp_keeps (normal_update_prediction pc jump target b)"
  using table_set [of "\<lambda>_. True" "normal_target_cache b" "bp_index (normal_global_history b) pc" target]
  by (auto simp: normal_update_prediction_def bp_inv_def)

lemma bp_update_keeps: "bp_inv b \<Longrightarrow> bp_keeps (bp_update_prediction pc w jump next_pc hit b)"
  by (auto simp: bp_update_prediction_def intro!: bp_keeps_bind gshare_update_keeps local_update_keeps
      cpht_update_keeps call_update_keeps normal_update_keeps)

lemma bp_guess_keeps: "bp_inv b \<Longrightarrow> bp_keeps (bp_update_prediction_guess pc w jump next_pc b)"
  using table_upd [of history_ok "local_bht b" "unat (pc_p1 pc)" "\<lambda>h. history_push h jump"]
  by (auto simp: bp_update_prediction_guess_def local_update_prediction_guess_def
      gshare_global_history_update_guess_def bp_inv_def)

lemma bp_bru_keeps: "bp_inv b \<Longrightarrow> bp_keeps (bp_update_prediction_bru_guess cp pc w jump next_pc hit b)"
  using table_set [of history_ok "local_bht b" "unat (pc_p1 pc)" "history_push (local_history cp) jump"]
  by (auto simp: bp_update_prediction_bru_guess_def local_update_prediction_bru_fix_def
      gshare_global_history_update_bru_fix_def bp_inv_def)

lemma bp_ras_push_keeps: "bp_inv b \<Longrightarrow> bp_keeps (bp_ras_push a b)"
  using ras_push_spec [of "main_ras b" a] by (auto simp: bp_ras_push_def bp_inv_def)

lemma bp_ras_pop_keeps: "bp_inv b \<Longrightarrow> \<exists>a c. bp_ras_pop b = Some (a, c) \<and> bp_inv c"
  using ras_pop_spec [of "main_ras b"] by (auto simp: bp_ras_pop_def bp_inv_def)

lemma call_get_total: "bp_inv b \<Longrightarrow> \<exists>t. call_get_prediction pc b = Some t"
  using table_get [of "\<lambda>_. True" "call_target_cache b" "bp_index (call_global_history b) pc"]
  by (auto simp: call_get_prediction_def bp_inv_def)

lemma normal_get_total: "bp_inv b \<Longrightarrow> \<exists>t. normal_get_prediction pc b = Some t"
  using table_get [of "\<lambda>_. True" "normal_target_cache b" "bp_index (normal_global_history b) pc"]
  by (auto simp: normal_get_prediction_def bp_inv_def)

lemma branch_gets_total:
  assumes "bp_inv b"
  shows "\<exists>g. cpht_get_prediction pc b = Some g" "\<exists>g. gshare_get_prediction pc b = Some g"
    "\<exists>g. local_get_prediction pc b = Some g" "\<exists>h. local_get_bht_value pc b = Some h"
proof -
  have h: "array_get (local_bht b) (unat (pc_p1 pc)) = Some (local_bht b ! unat (pc_p1 pc))"
    "history_ok (local_bht b ! unat (pc_p1 pc))"
    using table_get [of history_ok "local_bht b" "unat (pc_p1 pc)"] assms by (auto simp: bp_inv_def)
  then show "\<exists>h. local_get_bht_value pc b = Some h" by (simp add: local_get_bht_value_def)
  show "\<exists>g. local_get_prediction pc b = Some g"
    using h table_get [of counter_ok "local_pht b" "bp_index (local_bht b ! unat (pc_p1 pc)) pc"] assms
    by (simp add: local_get_prediction_def bp_inv_def)
  show "\<exists>g. cpht_get_prediction pc b = Some g" "\<exists>g. gshare_get_prediction pc b = Some g"
    using table_get [of counter_ok "cpht b" "bp_index (gshare_global_history b) pc"]
      table_get [of counter_ok "gshare_pht b" "bp_index (gshare_global_history b) pc"] assms
    by (simp_all add: cpht_get_prediction_def gshare_get_prediction_def bp_inv_def)
qed

lemma bp_predict_jal_keeps: "bp_inv b \<Longrightarrow> \<exists>r c. bp_predict_jal pc w b = Some (r, c) \<and> bp_inv c"
  using sign_extend_total [of 21 "f_imm_j w"] bp_ras_push_keeps [of b "pc + 4"]
  by (auto simp: bp_predict_jal_def bp_keeps_def)

lemma bp_predict_jalr_keeps:
  assumes "bp_inv b"
  shows "\<exists>r c. bp_predict_jalr pc w b = Some (r, c) \<and> bp_inv c"
proof -
  obtain t u where "call_get_prediction pc b = Some t" "normal_get_prediction pc b = Some u"
    using call_get_total [OF assms] normal_get_total [OF assms] by blast
  moreover obtain c where "bp_ras_push (pc + 4) b = Some c" "bp_inv c"
    using bp_ras_push_keeps [OF assms] by (auto simp: bp_keeps_def)
  moreover obtain a d where d: "bp_ras_pop b = Some (a, d)" "bp_inv d"
    using bp_ras_pop_keeps [OF assms] by blast
  moreover obtain e where "bp_ras_push (pc + 4) d = Some e" "bp_inv e"
    using bp_ras_push_keeps [OF d(2)] by (auto simp: bp_keeps_def)
  ultimately show ?thesis using assms by (simp add: bp_predict_jalr_def)
qed

lemma bp_predict_branch_keeps: "bp_inv b \<Longrightarrow> \<exists>r. bp_predict_branch pc w b = Some (r, b)"
  using branch_gets_total [of b pc] sign_extend_total [of 13 "f_imm_b w"]
  by (auto simp: bp_predict_branch_def Let_def)

lemma bp_get_prediction_keeps: "bp_inv b \<Longrightarrow> \<exists>r c. bp_get_prediction pc w b = Some (r, c) \<and> bp_inv c"
  using bp_predict_jal_keeps [of b pc w] bp_predict_jalr_keeps [of b pc w] bp_predict_branch_keeps [of b pc w]
  by (auto simp: bp_get_prediction_def)

lemma bp_apply_keeps: "bp_inv b \<Longrightarrow> bp_keeps (bp_apply r b)"
  by (cases r) (simp add: bp_update_keeps)

interpretation bp_dq: deferred_total bp_apply bp_inv "\<lambda>_. True"
  by unfold_locales (metis bp_apply_keeps bp_keeps_def option.inject)+

lemma bp_request_irrelevant [simp]: "bp_inv (b\<lparr>bp_request_q := q\<rparr>) = bp_inv b"
  by (simp add: bp_inv_def)

lemma bp_sync_keeps: "bp_inv b \<Longrightarrow> bp_keeps (bp_sync b)"
  using bp_dq.replay_total [of b "bp_request_q b"] by (auto simp: bp_sync_def)

text \<open>Everything that the rest of the model does to the predictor.\<close>

datatype bp_op =
    Bp_predict u32 u32
  | Bp_guess u32 u32 bool u32
  | Bp_bru checkpoint_t u32 u32 bool u32 bool
  | Bp_commit u32 u32 bool u32 bool
  | Bp_commit_sync u32 u32 bool u32 bool
  | Bp_sync
  | Bp_reset

fun bp_exec :: "bp_op \<Rightarrow> branch_predictor \<Rightarrow> branch_predictor option" where
  "bp_exec (Bp_predict pc w) b = map_option snd (bp_get_prediction pc w b)"
| "bp_exec (Bp_guess pc w jump next_pc) b = bp_update_prediction_guess pc w jump next_pc b"
| "bp_exec (Bp_bru cp pc w jump next_pc hit) b = bp_update_prediction_bru_guess cp pc w jump next_pc hit b"
| "bp_exec (Bp_commit pc w jump next_pc hit) b = bp_update_prediction pc w jump next_pc hit b"
| "bp_exec (Bp_commit_sync pc w jump next_pc hit) b = Some (bp_update_prediction_sync pc w jump next_pc hit b)"
| "bp_exec Bp_sync b = bp_sync b"
| "bp_exec Bp_reset b = Some (bp_reset b)"

lemma tables_zero: "table_ok P (replicate BP_TABLE_SIZE 0) \<longleftrightarrow> P 0"
  by (simp add: table_ok_def BP_TABLE_SIZE_def)

lemma zero_ok: "counter_ok 0" "history_ok 0"
  by (simp_all add: counter_ok_def history_ok_def)

lemma ras_reset_inv: "ras_inv r \<Longrightarrow> ras_inv (ras_reset r)"
  by (simp add: ras_inv_def ras_reset_def stack_reset_def ras_runs_def)

lemma ras_new_inv: "0 < n \<Longrightarrow> ras_inv (ras_new n junk)"
  by (simp add: ras_inv_def ras_new_def stack_new_def ras_runs_def stack.defs ras.defs)

lemma bp_new_inv: "bp_inv (bp_new junk)"
  by (simp add: bp_inv_def bp_new_def tables_zero zero_ok ras_new_inv RAS_SIZE_def)

lemma bp_exec_keeps: "bp_inv b \<Longrightarrow> bp_keeps (bp_exec x b)"
proof (cases x)
  case (Bp_predict pc w)
  assume "bp_inv b"
  with bp_get_prediction_keeps [of b pc w] Bp_predict show ?thesis by auto
next
  case Bp_reset
  assume "bp_inv b"
  with Bp_reset show ?thesis by (simp add: bp_inv_def bp_reset_def tables_zero zero_ok ras_reset_inv)
qed (simp_all add: bp_guess_keeps bp_bru_keeps bp_update_keeps bp_update_prediction_sync_def bp_sync_keeps)

interpretation bp_run: deferred_total bp_exec bp_inv "\<lambda>_. True"
  by unfold_locales (metis bp_exec_keeps bp_keeps_def option.inject)+

text \<open>C35: whatever sequence of predictions, updates, checkpoint repairs, commits and resets the
  rest of the model performs on a new predictor, no operation leaves its tables: every call returns,
  every history addresses a slot of its table, the counters stay two-bit counters and the return
  address stack stays within its buffer.\<close>

theorem bp_run_in_bounds:
  "\<exists>b. fold_opt bp_exec ops (bp_new junk) = Some b
    \<and> list_all (\<lambda>c. c \<le> 3) (gshare_pht b @ local_pht b @ cpht b)
    \<and> (\<forall>pc. bp_index (gshare_global_history b) pc < length (gshare_pht b)
         \<and> bp_index (call_global_history b) pc < length (call_target_cache b)
         \<and> bp_index (normal_global_history b) pc < length (normal_target_cache b)
         \<and> bp_index (local_bht b ! unat (pc_p1 pc)) pc < length (local_pht b))
    \<and> top_ptr (main_ras b) \<le> st_size (main_ras b)"
proof -
  from bp_run.replay_total [OF bp_new_inv, of ops junk] obtain b where
    b: "fold_opt bp_exec ops (bp_new junk) = Some b" "bp_inv b" by blast
  have "history_ok (local_bht b ! unat (pc_p1 pc))" for pc
    using table_get [of history_ok "local_bht b" "unat (pc_p1 pc)"] b(2) by (auto simp: bp_inv_def)
  with b show ?thesis by (auto simp: bp_inv_def table_ok_def counter_ok_def ras_inv_def list_all_iff)
qed

text \<open>C36: a branch that the branch unit finds mispredicted leaves the speculative global
  history, and the local history of its slot, as if it had been predicted right when it was fetched,
  whatever was fetched in between; nothing else changes, and nothing at all for a correct
  prediction.\<close>

theorem bp_mispredict_repairs:
  assumes "bp_inv s" "bp_inv t" "f_opcode w = 0x63" "bp_save pc cp0 s = Some cp"
  shows "\<exists>g u. bp_update_prediction_guess pc w jump next_pc s = Some g
    \<and> bp_update_prediction_bru_guess cp pc w jump next_pc hit t = Some u
    \<and> (if hit then u = t
       else gshare_global_history u = gshare_global_history g
         \<and> local_get_bht_value pc u = local_get_bht_value pc g
         \<and> u\<lparr>gshare_global_history := gshare_global_history t, local_bht := local_bht t\<rparr> = t)"
proof -
  let ?i = "unat (pc_p1 pc)"
  have s: "table_ok history_ok (local_bht s)" and t: "table_ok history_ok (local_bht t)"
    using assms(1,2) by (auto simp: bp_inv_def)
  have l: "?i < length (local_bht s)" "?i < length (local_bht t)"
    using s t by (auto simp: table_ok_def)
  have cp: "global_history cp = gshare_global_history s" "local_history cp = local_bht s ! ?i"
    using assms(4) l by (auto simp: bp_save_def local_get_bht_value_def)
  show ?thesis
    using l assms(3) cp
    by (auto simp: bp_update_prediction_guess_def local_update_prediction_guess_def gshare_global_history_update_guess_def
        table_update_def bp_update_prediction_bru_guess_def local_update_prediction_bru_fix_def
        gshare_global_history_update_bru_fix_def local_get_bht_value_def)
qed

text \<open>A taken branch predicted not taken, on a predictor that has meanwhile followed another path.\<close>

definition bp_demo :: branch_predictor where
  "bp_demo = bp_new \<lparr>ras_addr = 0, ras_cnt = 0\<rparr>"

theorem bp_mispredict_repairs_witness:
  "\<exists>cp g u t. bp_save 0x80 (cp_sample 0) bp_demo = Some cp
    \<and> bp_update_prediction_guess 0x80 0x63 False 0x84 bp_demo = Some t
    \<and> bp_update_prediction_guess 0x80 0x63 True 0x90 bp_demo = Some g
    \<and> bp_update_prediction_bru_guess cp 0x80 0x63 True 0x90 False t = Some u
    \<and> gshare_global_history t = 0 \<and> gshare_global_history u = 1 \<and> gshare_global_history u = gshare_global_history g"
proof -
  have inv: "bp_inv bp_demo" unfolding bp_demo_def by (rule bp_new_inv)
  have w: "f_opcode 0x63 = 0x63" by (simp add: f_opcode_def)
  obtain cp where cp: "bp_save 0x80 (cp_sample 0) bp_demo = Some cp"
    using branch_gets_total(4) [OF inv, of "0x80"] by (auto simp: bp_save_def)
  obtain t where t: "bp_update_prediction_guess 0x80 0x63 False 0x84 bp_demo = Some t" "bp_inv t"
    using bp_guess_keeps [OF inv, of "0x80" "0x63" False "0x84"] by (auto simp: bp_keeps_def)
  from bp_mispredict_repairs [OF inv t(2) w cp, of True "0x90" False] obtain g u where
    gu: "bp_update_prediction_guess 0x80 0x63 True 0x90 bp_demo = Some g"
      "bp_update_prediction_bru_guess cp 0x80 0x63 True 0x90 False t = Some u"
      "gshare_global_history u = gshare_global_history g" by auto
  have "gshare_global_history g = 1" "gshare_global_history t = 0"
    using gu(1) t(1) w
    by (auto simp: bp_update_prediction_guess_def local_update_prediction_guess_def gshare_global_history_update_guess_def
        bp_demo_def bp_new_def history_push_def bind_eq_Some_conv)
  with cp t(1) gu show ?thesis by auto
qed

end
