(* ===== verification/Execute_Bru.thy ===== *)
theory Execute_Bru
  imports Execute_Common Csr Branch_Predictor
begin

text \<open>
  \<open>pipeline/execute/bru.cpp\<close>: the branch unit.  It resolves branches and jumps, and hands the outcome
  of those that own a checkpoint to the branch predictor at once.
\<close>

text \<open>Direction and target are set in the packet; \<open>next_pc\<close> already holds \<open>pc + imm\<close>.\<close>

fun bru_switch :: "bru_op_t \<Rightarrow> csrfile \<Rightarrow> issue_execute_pack_t \<Rightarrow> execute_wb_pack_t \<Rightarrow> execute_wb_pack_t option" where
  "bru_switch Bru_beq f r s = Some (s\<lparr>p_bru_jump := p_src1_value r = p_src2_value r\<rparr>)"
| "bru_switch Bru_bge f r s = Some (s\<lparr>p_bru_jump := p_src2_value r \<le>s p_src1_value r\<rparr>)"
| "bru_switch Bru_bgeu f r s = Some (s\<lparr>p_bru_jump := p_src1_value r \<ge> p_src2_value r\<rparr>)"
| "bru_switch Bru_blt f r s = Some (s\<lparr>p_bru_jump := p_src1_value r <s p_src2_value r\<rparr>)"
| "bru_switch Bru_bltu f r s = Some (s\<lparr>p_bru_jump := p_src1_value r < p_src2_value r\<rparr>)"
| "bru_switch Bru_bne f r s = Some (s\<lparr>p_bru_jump := p_src1_value r \<noteq> p_src2_value r\<rparr>)"
| "bru_switch Bru_jal f r s = Some (s\<lparr>p_rd_value := p_pc r + 4, p_bru_jump := True\<rparr>)"
| "bru_switch Bru_jalr f r s = Some (s\<lparr>p_rd_value := p_pc r + 4, p_bru_jump := True,
     p_bru_next_pc := (p_imm r + p_src1_value r) AND NOT 1\<rparr>)"
| "bru_switch Bru_mret f r s = do {
     mepc \<leftarrow> csrfile_read_sys f CSR_MEPC;
     Some (s\<lparr>p_bru_jump := True, p_bru_next_pc := mepc\<rparr>) }"

definition bru_compute :: "csrfile \<Rightarrow> issue_execute_pack_t \<Rightarrow> execute_wb_pack_t option" where
  "bru_compute f r = do {
     let s = (exec_receive r)\<lparr>p_bru_next_pc := p_pc r + p_imm r\<rparr>;
     s \<leftarrow> (if p_enable r \<and> p_valid r
          then do { x \<leftarrow> as_bru (p_sub_op r); bru_switch x f r s }
          else Some s);
     Some (if \<not> p_bru_jump s then s\<lparr>p_bru_next_pc := p_pc r + 4\<rparr> else s) }"

definition bru_train :: "checkpoint_buffer \<Rightarrow> execute_wb_pack_t \<Rightarrow> branch_predictor \<Rightarrow> branch_predictor option" where
  "bru_train cb s bp =
     (if p_valid s \<and> p_checkpoint_id_valid s
      then do {
        cp_item \<leftarrow> cpbuf_get_item cb (p_checkpoint_id s);
        bp_update_prediction_bru_guess cp_item (p_pc s) (p_value s) (p_bru_jump s) (p_bru_next_pc s)
          (p_predicted_jump s = p_bru_jump s) bp }
      else Some bp)"

definition bru_run ::
  "csrfile \<Rightarrow> checkpoint_buffer \<Rightarrow> commit_feedback_pack_t \<Rightarrow> exec_queue \<Rightarrow> wb_port \<Rightarrow> branch_predictor
    \<Rightarrow> (exec_queue \<times> wb_port \<times> branch_predictor \<times> execute_feedback_channel_t) option" where
  "bru_run f cb cf q p bp = do {
     (q, bp, send) \<leftarrow> (if \<not> fifo_is_empty q \<and> \<not> cf_flushing cf
       then (case fifo_pop q of
               (None, _) \<Rightarrow> None
             | (Some rev_pack, q) \<Rightarrow> do {
                 send \<leftarrow> bru_compute f rev_pack;
                 bp \<leftarrow> bru_train cb send bp;
                 Some (q, bp, send) })
       else Some (q, bp, execute_wb_zero));
     Some (q, port_set send p, bp, exec_feedback send) }"

section \<open>The contract\<close>

definition bru_accepts :: "csrfile \<Rightarrow> issue_execute_pack_t \<Rightarrow> bool" where
  "bru_accepts f r = (p_enable r \<and> p_valid r \<longrightarrow>
     (case as_bru (p_sub_op r) of None \<Rightarrow> False | Some x \<Rightarrow> x = Bru_mret \<longrightarrow> csr_map_table f CSR_MEPC \<noteq> None))"

lemma bru_switch_total:
  assumes "x = Bru_mret \<Longrightarrow> csr_map_table f CSR_MEPC \<noteq> None" "same_instr r s"
  shows "\<exists>t. bru_switch x f r s = Some t \<and> same_instr r t"
  using assms by (cases x) (auto simp: csrfile_read_sys_def)

lemma bru_compute_total:
  assumes "bru_accepts f r"
  shows "\<exists>s. bru_compute f r = Some s \<and> same_instr r s"
proof -
  let ?s = "(exec_receive r)\<lparr>p_bru_next_pc := p_pc r + p_imm r\<rparr>"
  have same: "same_instr r ?s" by simp
  show ?thesis
  proof (cases "p_enable r \<and> p_valid r")
    case True
    then obtain x where "as_bru (p_sub_op r) = Some x" "x = Bru_mret \<Longrightarrow> csr_map_table f CSR_MEPC \<noteq> None"
      using assms by (auto simp: bru_accepts_def split: option.splits)
    with True bru_switch_total [OF _ same, of x f] show ?thesis by (auto simp: bru_compute_def)
  qed (use same in \<open>auto simp: bru_compute_def Let_def\<close>)
qed

interpretation bru: exec_unit "bru_compute f" "bru_accepts f" for f
  by unfold_locales (rule bru_compute_total)

text \<open>The unit is the common skeleton followed by the training of the predictor, which a bubble does not
  cause.\<close>

lemma bru_train_bubble: "bru_train cb execute_wb_zero bp = Some bp"
  by (simp add: bru_train_def execute_wb_zero_def)

lemma bru_run_exec:
  "bru_run f cb cf q p bp = do {
     (t, p', fb) \<leftarrow> exec_run (bru_compute f) cf q p;
     bp' \<leftarrow> bru_train cb (port_get p') bp;
     Some (t, p', bp', fb) }"
  by (auto simp: bru_run_def exec_run_def bru_train_bubble split: option.splits prod.splits bind_splits)

section \<open>Branch conditions and targets\<close>

fun bru_taken :: "bru_op_t \<Rightarrow> u32 \<Rightarrow> u32 \<Rightarrow> bool" where
  "bru_taken Bru_beq a b = (uint a = uint b)"
| "bru_taken Bru_bne a b = (uint a \<noteq> uint b)"
| "bru_taken Bru_blt a b = (sint a < sint b)"
| "bru_taken Bru_bge a b = (sint a \<ge> sint b)"
| "bru_taken Bru_bltu a b = (uint a < uint b)"
| "bru_taken Bru_bgeu a b = (uint a \<ge> uint b)"
| "bru_taken _ a b = True"

fun bru_target :: "bru_op_t \<Rightarrow> csrfile \<Rightarrow> u32 \<Rightarrow> u32 \<Rightarrow> u32 \<Rightarrow> u32 option" where
  "bru_target Bru_jalr f pc imm a = Some ((a + imm) AND NOT 1)"
| "bru_target Bru_mret f pc imm a = csrfile_read_sys f CSR_MEPC"
| "bru_target _ f pc imm a = Some (pc + imm)"

definition bru_links :: "bru_op_t \<Rightarrow> bool" where
  "bru_links x = (x = Bru_jal \<or> x = Bru_jalr)"

lemma bru_compute_isa:
  assumes "p_enable r" "p_valid r" "p_sub_op r = Bru_op x" "bru_target x f (p_pc r) (p_imm r) (p_src1_value r) = Some a"
  shows "\<exists>s. bru_compute f r = Some s \<and> same_instr r s \<and> p_has_exception s = p_has_exception r
    \<and> p_bru_jump s = bru_taken x (p_src1_value r) (p_src2_value r)
    \<and> p_bru_next_pc s = (if bru_taken x (p_src1_value r) (p_src2_value r) then a else p_pc r + 4)
    \<and> (bru_links x \<longrightarrow> p_rd_value s = p_pc r + 4)
    \<and> p_checkpoint_id_valid s = p_checkpoint_id_valid r \<and> p_checkpoint_id s = p_checkpoint_id r
    \<and> p_predicted_jump s = p_predicted_jump r"
  using assms
  by (cases x) (auto simp: bru_compute_def bru_links_def word_sless_alt word_sle_eq word_less_def word_le_def add.commute
      word_uint_eq_iff Let_def split: bind_splits)

text \<open>Training with the checkpoint of the branch.\<close>

lemma bru_train_cases:
  assumes "bp_inv bp" "p_valid s" "p_checkpoint_id_valid s \<Longrightarrow> cpbuf_get_item cb (p_checkpoint_id s) = Some cp"
  shows "\<exists>bp'. bru_train cb s bp = Some bp' \<and> bp_inv bp'
    \<and> (\<not> p_checkpoint_id_valid s \<or> p_predicted_jump s = p_bru_jump s \<longrightarrow> bp' = bp)
    \<and> (p_checkpoint_id_valid s \<and> f_opcode (p_value s) = 0x63 \<and> p_predicted_jump s \<noteq> p_bru_jump s
        \<longrightarrow> gshare_global_history bp' = history_push (global_history cp) (p_bru_jump s))"
proof (cases "p_checkpoint_id_valid s")
  case True
  let ?h = "p_predicted_jump s = p_bru_jump s"
  from bp_bru_keeps [OF assms(1)] obtain bp' where
    b: "bp_update_prediction_bru_guess cp (p_pc s) (p_value s) (p_bru_jump s) (p_bru_next_pc s) ?h bp = Some bp'" "bp_inv bp'"
    unfolding bp_keeps_def by blast
  moreover have "?h \<longrightarrow> bp' = bp"
    using b(1) by (auto simp: bp_update_prediction_bru_guess_def local_update_prediction_bru_fix_def
        gshare_global_history_update_bru_fix_def split: if_splits)
  moreover have "f_opcode (p_value s) = 0x63 \<and> \<not> ?h \<longrightarrow> gshare_global_history bp' = history_push (global_history cp) (p_bru_jump s)"
    using b(1) by (auto simp: bp_update_prediction_bru_guess_def local_update_prediction_bru_fix_def
        gshare_global_history_update_bru_fix_def split: if_splits bind_splits)
  ultimately show ?thesis using assms(2,3) True by (simp add: bru_train_def)
qed (use assms(1) in \<open>simp add: bru_train_def\<close>)

text \<open>C34: the branch unit decides branches by comparing the operands as signed or unsigned
  integers, computes the target (relative, register with bit 0 cleared, or mepc), links with the
  address of the next instruction, and trains the predictor exactly for a mispredicted instruction
  that owns a checkpoint, repairing the global history from it.\<close>

theorem bru_run_correct:
  assumes "fifo_inv q" "fifo_items q = r # rest" "\<not> cf_flushing cf" "bp_inv bp"
    and "p_enable r" "p_valid r" "p_sub_op r = Bru_op x"
    and "bru_target x f (p_pc r) (p_imm r) (p_src1_value r) = Some a"
    and "p_checkpoint_id_valid r \<longrightarrow> cpbuf_get_item cb (p_checkpoint_id r) = Some cp"
  shows "\<exists>t s bp'. bru_run f cb cf q p bp = Some (t, port_set s p, bp', exec_feedback s)
    \<and> fifo_inv t \<and> fifo_items t = rest \<and> same_instr r s \<and> bp_inv bp'
    \<and> p_bru_jump s = bru_taken x (p_src1_value r) (p_src2_value r)
    \<and> p_bru_next_pc s = (if p_bru_jump s then a else p_pc r + 4)
    \<and> (bru_links x \<longrightarrow> p_rd_value s = p_pc r + 4)
    \<and> (\<not> p_checkpoint_id_valid r \<or> p_predicted_jump r = p_bru_jump s \<longrightarrow> bp' = bp)
    \<and> (p_checkpoint_id_valid r \<and> f_opcode (p_value r) = 0x63 \<and> p_predicted_jump r \<noteq> p_bru_jump s
        \<longrightarrow> gshare_global_history bp' = history_push (global_history cp) (p_bru_jump s))"
proof -
  from bru_compute_isa [OF assms(5-8)] obtain s where
    s: "bru_compute f r = Some s" "same_instr r s"
      "p_bru_jump s = bru_taken x (p_src1_value r) (p_src2_value r)"
      "p_bru_next_pc s = (if bru_taken x (p_src1_value r) (p_src2_value r) then a else p_pc r + 4)"
      "bru_links x \<longrightarrow> p_rd_value s = p_pc r + 4"
      "p_checkpoint_id_valid s = p_checkpoint_id_valid r" "p_checkpoint_id s = p_checkpoint_id r"
      "p_predicted_jump s = p_predicted_jump r" by blast
  have i: "p_valid s" "p_value s = p_value r" using s(2) assms(6) by (auto simp: same_instr_def)
  have cp: "p_checkpoint_id_valid s \<Longrightarrow> cpbuf_get_item cb (p_checkpoint_id s) = Some cp"
    using assms(9) s(6,7) by simp
  from bru_train_cases [OF assms(4) i(1) cp] obtain bp' where
    b: "bru_train cb s bp = Some bp'" "bp_inv bp'"
      "\<not> p_checkpoint_id_valid r \<or> p_predicted_jump r = p_bru_jump s \<longrightarrow> bp' = bp"
      "p_checkpoint_id_valid r \<and> f_opcode (p_value r) = 0x63 \<and> p_predicted_jump r \<noteq> p_bru_jump s
        \<longrightarrow> gshare_global_history bp' = history_push (global_history cp) (p_bru_jump s)"
    unfolding s(6,8) i(2) by blast
  from bru.run_head [OF assms(1-3) s(1), of p] obtain t where
    t: "exec_run (bru_compute f) cf q p = Some (t, port_set s p, exec_feedback s)" "fifo_inv t" "fifo_items t = rest" by blast
  then have "bru_run f cb cf q p bp = Some (t, port_set s p, bp', exec_feedback s)"
    by (simp add: bru_run_exec b(1))
  with t b(2-4) s show ?thesis by (intro exI [of _ t] exI [of _ s] exI [of _ bp']) simp
qed

text \<open>A backward branch, predicted not taken and taken.\<close>

definition bru_packet :: issue_execute_pack_t where
  "bru_packet = (exec_demo (Bru_op Bru_blt) 0xFFFFFFFF 1)\<lparr>p_pc := 0x80000010, p_imm := - 16, p_value := 0x63,
     p_checkpoint_id_valid := True, p_checkpoint_id := 1\<rparr>"

lemma bru_packet_simps:
  "p_enable bru_packet" "p_valid bru_packet" "p_sub_op bru_packet = Bru_op Bru_blt"
  "p_pc bru_packet = 0x80000010" "p_imm bru_packet = - 16" "p_value bru_packet = 0x63"
  "p_src1_value bru_packet = 0xFFFFFFFF" "p_src2_value bru_packet = 1"
  "p_checkpoint_id_valid bru_packet" "p_checkpoint_id bru_packet = 1" "\<not> p_predicted_jump bru_packet"
  by (simp_all add: bru_packet_def) (simp add: exec_demo_def execute_wb_zero_def readreg_issue_op_info_t.defs)

theorem bru_run_correct_witness:
  "\<exists>t s bp'. bru_run csrfile_init cpbuf_sample commit_feedback_zero (queue_demo bru_packet) (port_new execute_wb_zero) bp_demo
      = Some (t, port_set s (port_new execute_wb_zero), bp', exec_feedback s)
    \<and> p_bru_jump s \<and> p_bru_next_pc s = 0x80000000 \<and> gshare_global_history bp' = 5"
proof -
  have inv: "bp_inv bp_demo" unfolding bp_demo_def by (rule bp_new_inv)
  have cp: "cpbuf_get_item cpbuf_sample 1 = Some (cp_sample 2)"
    by (simp add: cpbuf_get_item_def ring_get_item_def cpbuf_sample_def ring_check_id_valid_def array_get_def
        fifo_is_empty_def fifo_is_full_def)
  have h: "history_push 2 True = 5" by (simp add: history_push_def BP_ADDR_WIDTH_def mask_eq_exp_minus_1)
  have tk: "bru_taken Bru_blt 0xFFFFFFFF 1" by simp
  have tg: "bru_target Bru_blt csrfile_init (p_pc bru_packet) (p_imm bru_packet) (p_src1_value bru_packet) = Some 0x80000000"
    by (simp add: bru_packet_simps)
  have w: "f_opcode 0x63 = 0x63" by (simp add: f_opcode_def)
  have g: "global_history (cp_sample 2) = 2" by (simp add: cp_sample_def)
  from bru_run_correct [OF queue_demo_items no_flush inv bru_packet_simps(1-3) tg, of cpbuf_sample "cp_sample 2" "port_new execute_wb_zero"]
  show ?thesis using cp h tk w g by (auto simp: bru_packet_simps)
qed

end
