(* ===== verification/Write_Back.thy ===== *)
theory Write_Back
  imports Execute_Common Regfile
begin

text \<open>
  \<open>pipeline/wb.cpp\<close>: the write-back stage.  It collects the result packets of all execution units for
  the commit stage, requests the writes of their results to the physical register file, and
  publishes the same results on its feedback channels.  \<open>init\<close> fixes the order of the units.  The
  packet to the commit stage has the fields of the result packet, so it is a list of those; the
  element type of the register file is the \<open>uint32_t\<close> that \<open>phy_regfile_item_t\<close> wraps.
\<close>

definition EXECUTE_UNIT_NUM :: nat where "EXECUTE_UNIT_NUM = 8"

definition wb_init :: "wb_port list \<Rightarrow> wb_port list \<Rightarrow> wb_port list \<Rightarrow> wb_port list \<Rightarrow> wb_port list \<Rightarrow> wb_port list \<Rightarrow> wb_port list" where
  "wb_init alu_ports bru_ports csr_ports div_ports lsu_ports mul_ports =
     alu_ports @ bru_ports @ csr_ports @ div_ports @ lsu_ports @ mul_ports"

definition feedback_zero_channel :: execute_feedback_channel_t where
  "feedback_zero_channel = \<lparr>fb_enable = False, fb_phy_id = 0, fb_value = 0\<rparr>"

definition wb_writes :: "execute_wb_pack_t \<Rightarrow> bool" where
  "wb_writes r = (p_enable r \<and> p_valid r \<and> \<not> p_has_exception r \<and> p_rd_enable r \<and> p_need_rename r)"

text \<open>One unit: the copy of its packet, its feedback channel and the register file with the request.\<close>

definition wb_unit :: "execute_wb_pack_t \<Rightarrow> u32 regfile \<Rightarrow> execute_wb_pack_t \<times> execute_feedback_channel_t \<times> u32 regfile" where
  "wb_unit r f =
     (if wb_writes r
      then (r, \<lparr>fb_enable = True, fb_phy_id = p_rd_phy r, fb_value = p_rd_value r\<rparr>,
            regfile_write_sync (p_rd_phy r) (p_rd_value r) True f)
      else (r, feedback_zero_channel, f))"

fun wb_units :: "wb_port list \<Rightarrow> u32 regfile \<Rightarrow> execute_wb_pack_t list \<times> execute_feedback_channel_t list \<times> u32 regfile" where
  "wb_units [] f = ([], [], f)"
| "wb_units (p # ps) f =
     (let (s, c, f) = wb_unit (port_get p) f;
          (ss, cs, f) = wb_units ps f
      in (s # ss, c # cs, f))"

definition wb_run ::
  "commit_feedback_pack_t \<Rightarrow> wb_port list \<Rightarrow> execute_wb_pack_t list port \<Rightarrow> u32 regfile
    \<Rightarrow> execute_wb_pack_t list port \<times> u32 regfile \<times> execute_feedback_channel_t list" where
  "wb_run cf ports out f =
     (if \<not> cf_flushing cf
      then let (ss, cs, f) = wb_units ports f in (port_set ss out, f, cs)
      else (port_set (replicate EXECUTE_UNIT_NUM execute_wb_zero) out, f,
            replicate EXECUTE_UNIT_NUM feedback_zero_channel))"

section \<open>The feedback is what the register file will hold\<close>

definition wb_requests :: "wb_port list \<Rightarrow> u32 regfile_request list" where
  "wb_requests ps = map (\<lambda>p. Regfile_write (p_rd_phy (port_get p)) (p_rd_value (port_get p)) True)
     (filter (\<lambda>p. wb_writes (port_get p)) ps)"

definition wb_channel :: "wb_port \<Rightarrow> execute_feedback_channel_t" where
  "wb_channel p = (let r = port_get p in
     if wb_writes r then \<lparr>fb_enable = True, fb_phy_id = p_rd_phy r, fb_value = p_rd_value r\<rparr> else feedback_zero_channel)"

lemma wb_units_eq:
  "wb_units ps f = (map port_get ps, map wb_channel ps, f\<lparr>regfile_request_q := regfile_request_q f @ wb_requests ps\<rparr>)"
proof (induction ps arbitrary: f)
  case (Cons p ps)
  then show ?case
    by (simp add: wb_unit_def wb_channel_def wb_requests_def Let_def regfile_write_sync_def split_def)
qed (simp add: wb_requests_def)

lemma wb_channel_fields:
  "fb_enable (wb_channel p) = wb_writes (port_get p)"
  "wb_writes (port_get p) \<Longrightarrow> fb_phy_id (wb_channel p) = p_rd_phy (port_get p) \<and> fb_value (wb_channel p) = p_rd_value (port_get p)"
  by (simp_all add: wb_channel_def feedback_zero_channel_def Let_def)

text \<open>The last write to a register among requests with distinct targets.\<close>

lemma fold_requests_other:
  assumes "\<forall>q \<in> set ps. wb_writes (port_get q) \<longrightarrow> p_rd_phy (port_get q) \<noteq> i"
  shows "fold (\<lambda>r x. request_value i x r) (wb_requests ps) x = x"
    and "fold (\<lambda>r b. request_valid i b r) (wb_requests ps) b = b"
  using assms by (induction ps arbitrary: x b) (auto simp: wb_requests_def)

lemma fold_requests:
  assumes "distinct (map (\<lambda>c. fb_phy_id c) (filter fb_enable (map wb_channel ps)))"
    and "p \<in> set ps" "wb_writes (port_get p)" "i = p_rd_phy (port_get p)"
  shows "fold (\<lambda>r x. request_value i x r) (wb_requests ps) x = p_rd_value (port_get p)"
    and "fold (\<lambda>r b. request_valid i b r) (wb_requests ps) y"
proof -
  have "fold (\<lambda>r x. request_value i x r) (wb_requests ps) x = p_rd_value (port_get p) \<and> fold (\<lambda>r b. request_valid i b r) (wb_requests ps) y"
    using assms(1,2)
  proof (induction ps arbitrary: x y)
    case (Cons q qs)
    show ?case
    proof (cases "q = p")
      case True
      have "\<forall>z \<in> set qs. wb_writes (port_get z) \<longrightarrow> p_rd_phy (port_get z) \<noteq> i"
        using Cons.prems(1) assms(3,4) True wb_channel_fields by (fastforce simp: image_iff)
      from fold_requests_other [OF this] True assms(3,4) show ?thesis by (simp add: wb_requests_def)
    next
      case False
      then have "p \<in> set qs" using Cons.prems(2) by simp
      moreover have "distinct (map (\<lambda>c. fb_phy_id c) (filter fb_enable (map wb_channel qs)))"
        using Cons.prems(1) by (auto split: if_splits)
      ultimately show ?thesis using Cons.IH by (auto simp: wb_requests_def)
    qed
  qed simp
  then show "fold (\<lambda>r x. request_value i x r) (wb_requests ps) x = p_rd_value (port_get p)"
    "fold (\<lambda>r b. request_valid i b r) (wb_requests ps) y" by auto
qed

text \<open>C38: the write-back stage passes on every packet and feeds back what the register file
  will hold.  A channel is enabled exactly for a valid instruction without an exception that renamed
  its destination; after the deferred writes are done each register named on an enabled channel holds the
  value of the channel and is valid, and every other register is as before.\<close>

theorem wb_publishes_registers:
  assumes "regfile_inv f" "regfile_request_q f = []" "\<not> cf_flushing cf"
    and "\<forall>p \<in> set ports. p_rd_phy (port_get p) < PHY_REG_NUM"
    and "wb_run cf ports out f = (out', f', cs)"
    and "distinct (map fb_phy_id (filter fb_enable cs))"
  shows "\<exists>t. regfile_sync f' = Some t \<and> regfile_inv t \<and> port_get out' = map port_get ports
    \<and> map fb_enable cs = map (\<lambda>p. let r = port_get p in p_enable r \<and> p_valid r \<and> \<not> p_has_exception r
          \<and> p_rd_enable r \<and> p_need_rename r) ports
    \<and> (\<forall>c \<in> set cs. fb_enable c \<longrightarrow> regfile_read t (fb_phy_id c) = Some (fb_value c)
          \<and> regfile_read_data_valid t (fb_phy_id c) = Some True)
    \<and> (\<forall>i < PHY_REG_NUM. (\<forall>c \<in> set cs. fb_enable c \<longrightarrow> fb_phy_id c \<noteq> i) \<longrightarrow>
          regfile_read t i = regfile_read f i \<and> regfile_read_data_valid t i = regfile_read_data_valid f i)"
proof -
  have r: "out' = port_set (map port_get ports) out" "cs = map wb_channel ports"
    "f' = f\<lparr>regfile_request_q := wb_requests ports\<rparr>"
    using assms(2,3,5) by (simp_all add: wb_run_def wb_units_eq)
  have "regfile_inv f'" "\<forall>q \<in> set (regfile_request_q f'). regfile_request_ok q"
    using assms(1,4) by (auto simp: r(3) regfile_inv_def wb_requests_def)
  from regfile_sync_contents [OF this] obtain t where t: "regfile_sync f' = Some t" "regfile_inv t"
    "\<And>i. i < PHY_REG_NUM \<Longrightarrow> regfile_read t i = Some (fold (\<lambda>r x. request_value i x r) (wb_requests ports) (reg_data f ! i))"
    "\<And>i. i < PHY_REG_NUM \<Longrightarrow> regfile_read_data_valid t i
        = Some (fold (\<lambda>r b. request_valid i b r) (wb_requests ports) (bm_bit (reg_data_valid f) i))"
    by (auto simp: r(3))
  have "regfile_read t (fb_phy_id c) = Some (fb_value c) \<and> regfile_read_data_valid t (fb_phy_id c) = Some True"
    if c: "c \<in> set cs" "fb_enable c" for c
  proof -
    obtain p where p: "p \<in> set ports" "c = wb_channel p" using c(1) r(2) by auto
    with c(2) have w: "wb_writes (port_get p)" by (simp add: wb_channel_fields(1))
    note e = wb_channel_fields(2) [OF w]
    note fr = fold_requests [OF assms(6) [unfolded r(2)] p(1) w]
    show ?thesis
      using e p assms(4) fr [OF refl] by (simp add: t(3,4))
  qed
  moreover have "regfile_read t i = regfile_read f i \<and> regfile_read_data_valid t i = regfile_read_data_valid f i"
    if i: "i < PHY_REG_NUM" "\<forall>c \<in> set cs. fb_enable c \<longrightarrow> fb_phy_id c \<noteq> i" for i
  proof -
    have "\<forall>p \<in> set ports. wb_writes (port_get p) \<longrightarrow> p_rd_phy (port_get p) \<noteq> i"
      using i(2) wb_channel_fields by (fastforce simp: r(2))
    note fold_requests_other [OF this]
    then show ?thesis using i(1) assms(1) by (simp add: t(3,4) regfile_read_eq regfile_read_data_valid_eq)
  qed
  moreover have "map fb_enable cs = map (\<lambda>p. let r = port_get p in p_enable r \<and> p_valid r \<and> \<not> p_has_exception r
          \<and> p_rd_enable r \<and> p_need_rename r) ports"
    by (simp add: r(2) comp_def wb_channel_fields(1) wb_writes_def Let_def)
  ultimately show ?thesis using t(1,2) by (simp add: r(1))
qed

theorem wb_publishes_registers_witness:
  "\<exists>t. regfile_sync (fst (snd (wb_run commit_feedback_zero
        [port_new (execute_wb_zero\<lparr>p_enable := True, p_valid := True, p_rd_enable := True, p_need_rename := True,
           p_rd_phy := 7, p_rd_value := 42\<rparr>), port_new execute_wb_zero] (port_new []) (regfile_new 0 128)))) = Some t
    \<and> regfile_read t 7 = Some 42 \<and> regfile_read_data_valid t 7 = Some True"
proof -
  let ?p = "port_new (execute_wb_zero\<lparr>p_enable := True, p_valid := True, p_rd_enable := True, p_need_rename := True,
           p_rd_phy := 7, p_rd_value := 42\<rparr>)"
  let ?ports = "[?p, port_new execute_wb_zero]" and ?f = "regfile_new (0 :: u32) 128"
  obtain out' f' cs where r: "wb_run commit_feedback_zero ?ports (port_new []) ?f = (out', f', cs)" by (metis prod_cases3)
  have cs: "cs = [\<lparr>fb_enable = True, fb_phy_id = 7, fb_value = 42\<rparr>, feedback_zero_channel]"
    using r no_flush by (auto simp: wb_run_def wb_unit_def wb_writes_def port_get_def port_new_def execute_wb_zero_def)
  have f: "regfile_inv ?f" "regfile_request_q ?f = []"
    by (simp_all add: regfile_new_def regfile_inv_def PHY_REG_NUM_def)
  have i: "\<forall>p \<in> set ?ports. p_rd_phy (port_get p) < PHY_REG_NUM" "distinct (map fb_phy_id (filter fb_enable cs))"
    by (simp_all add: port_get_def port_new_def execute_wb_zero_def PHY_REG_NUM_def cs feedback_zero_channel_def)
  from wb_publishes_registers [OF f no_flush i(1) r i(2)] r show ?thesis by (auto simp: cs)
qed

end
