(* ===== verification/Readreg.thy ===== *)
theory Readreg
  imports Write_Back
begin

text \<open>
  \<open>pipeline/readreg.cpp\<close>: the operands of the renamed instructions are read from the physical
  register file, or taken from the feedback channels of the units or of the write-back stage when
  the register is still being computed.  An operand found nowhere is left for the issue stage.
\<close>

definition READREG_WIDTH :: nat where "READREG_WIDTH = 4"

definition readreg_zero :: readreg_issue_op_info_t where
  "readreg_zero = readreg_issue_op_info_t.truncate execute_wb_zero"

definition readreg_receive :: "rename_readreg_op_info_t \<Rightarrow> readreg_issue_op_info_t" where
  "readreg_receive r = rename_readreg_op_info_t.extend r (readreg_issue_op_info_t.fields 0 False 0 False)"

text \<open>The loop over the channels: at each index the unit's channel is looked at before the one of the
  write-back stage.\<close>

fun bypass :: "nat \<Rightarrow> execute_feedback_channel_t list \<Rightarrow> execute_feedback_channel_t list \<Rightarrow> u32 option" where
  "bypass phy (e # es) (w # ws) =
     (if fb_enable e \<and> phy = fb_phy_id e then Some (fb_value e)
      else if fb_enable w \<and> phy = fb_phy_id w then Some (fb_value w)
      else bypass phy es ws)"
| "bypass phy _ _ = None"

text \<open>One operand: value and whether it is loaded.\<close>

definition readreg_operand ::
  "execute_feedback_channel_t list \<Rightarrow> execute_feedback_channel_t list \<Rightarrow> u32 regfile
    \<Rightarrow> bool \<Rightarrow> nat \<Rightarrow> arg_src_t \<Rightarrow> u32 \<Rightarrow> (u32 \<times> bool) option" where
  "readreg_operand es ws f need_map phy src imm =
     (if need_map then do {
        v \<leftarrow> regfile_read f phy;
        valid \<leftarrow> regfile_read_data_valid f phy;
        Some (if valid then (v, True)
              else case bypass phy es ws of Some v \<Rightarrow> (v, True) | None \<Rightarrow> (0, False)) }
      else if src = Arg_imm then Some (imm, True)
      else Some (0, True))"

definition readreg_op ::
  "execute_feedback_channel_t list \<Rightarrow> execute_feedback_channel_t list \<Rightarrow> u32 regfile
    \<Rightarrow> rename_readreg_op_info_t \<Rightarrow> readreg_issue_op_info_t option" where
  "readreg_op es ws f r =
     (if p_enable r \<and> p_valid r then do {
        (v1, l1) \<leftarrow> readreg_operand es ws f (p_rs1_need_map r) (p_rs1_phy r) (p_arg1_src r) (p_imm r);
        (v2, l2) \<leftarrow> readreg_operand es ws f (p_rs2_need_map r) (p_rs2_phy r) (p_arg2_src r) (p_imm r);
        Some ((readreg_receive r)\<lparr>p_src1_value := v1, p_src1_loaded := l1, p_src2_value := v2, p_src2_loaded := l2\<rparr>) }
      else Some ((readreg_receive r)\<lparr>p_src1_loaded := True, p_src2_loaded := True\<rparr>))"

fun map_opt :: "('a \<Rightarrow> 'b option) \<Rightarrow> 'a list \<Rightarrow> 'b list option" where
  "map_opt f [] = Some []"
| "map_opt f (x # xs) = do { y \<leftarrow> f x; ys \<leftarrow> map_opt f xs; Some (y # ys) }"

definition readreg_run ::
  "bool \<Rightarrow> execute_feedback_channel_t list \<Rightarrow> execute_feedback_channel_t list \<Rightarrow> commit_feedback_pack_t
    \<Rightarrow> u32 regfile \<Rightarrow> rename_readreg_op_info_t list port \<Rightarrow> readreg_issue_op_info_t list port
    \<Rightarrow> readreg_issue_op_info_t list port option" where
  "readreg_run stall es ws cf f inp out =
     (if \<not> cf_flushing cf
      then if \<not> stall
           then do { ops \<leftarrow> map_opt (readreg_op es ws f) (port_get inp); Some (port_set ops out) }
           else Some out
      else Some (port_set (replicate READREG_WIDTH readreg_zero) out))"

section \<open>Operands are right\<close>

text \<open>A valuation of the physical registers that the register file and the channels agree with.\<close>

definition reg_view :: "(nat \<Rightarrow> u32) \<Rightarrow> execute_feedback_channel_t list \<Rightarrow> u32 regfile \<Rightarrow> bool" where
  "reg_view val cs f =
     ((\<forall>i < PHY_REG_NUM. bm_bit (reg_data_valid f) i \<longrightarrow> reg_data f ! i = val i)
      \<and> (\<forall>c \<in> set cs. fb_enable c \<longrightarrow> fb_value c = val (fb_phy_id c)))"

definition available :: "execute_feedback_channel_t list \<Rightarrow> u32 regfile \<Rightarrow> nat \<Rightarrow> bool" where
  "available cs f phy = (bm_bit (reg_data_valid f) phy \<or> (\<exists>c \<in> set cs. fb_enable c \<and> fb_phy_id c = phy))"

definition operand_value :: "(nat \<Rightarrow> u32) \<Rightarrow> bool \<Rightarrow> nat \<Rightarrow> arg_src_t \<Rightarrow> u32 \<Rightarrow> u32" where
  "operand_value val need_map phy src imm = (if need_map then val phy else if src = Arg_imm then imm else 0)"

lemma bypass_view:
  assumes "length es = length ws" "\<forall>c \<in> set (es @ ws). fb_enable c \<longrightarrow> fb_value c = val (fb_phy_id c)"
  shows "bypass phy es ws = (if \<exists>c \<in> set (es @ ws). fb_enable c \<and> fb_phy_id c = phy then Some (val phy) else None)"
  using assms by (induction es ws rule: list_induct2) auto

lemma readreg_operand_view:
  assumes "regfile_inv f" "reg_view val (es @ ws) f" "length es = length ws" "need_map \<Longrightarrow> phy < PHY_REG_NUM"
  shows "\<exists>v l. readreg_operand es ws f need_map phy src imm = Some (v, l)
    \<and> (l \<longleftrightarrow> need_map \<longrightarrow> available (es @ ws) f phy) \<and> (l \<longrightarrow> v = operand_value val need_map phy src imm)"
proof (cases need_map)
  case True
  have "bypass phy es ws = (if \<exists>c \<in> set (es @ ws). fb_enable c \<and> fb_phy_id c = phy then Some (val phy) else None)"
    using assms(2,3) by (intro bypass_view) (auto simp: reg_view_def)
  with True assms show ?thesis
    by (auto simp: readreg_operand_def regfile_read_eq regfile_read_data_valid_eq available_def operand_value_def reg_view_def)
qed (auto simp: readreg_operand_def operand_value_def)

definition operands_ok :: "(nat \<Rightarrow> u32) \<Rightarrow> (nat \<Rightarrow> bool) \<Rightarrow> rename_readreg_op_info_t \<Rightarrow> readreg_issue_op_info_t \<Rightarrow> bool" where
  "operands_ok val avail r s =
     (rename_readreg_op_info_t.truncate s = r
      \<and> (p_enable r \<and> p_valid r \<longrightarrow>
          p_src1_loaded s = (p_rs1_need_map r \<longrightarrow> avail (p_rs1_phy r))
          \<and> p_src2_loaded s = (p_rs2_need_map r \<longrightarrow> avail (p_rs2_phy r))
          \<and> (p_src1_loaded s \<longrightarrow> p_src1_value s = operand_value val (p_rs1_need_map r) (p_rs1_phy r) (p_arg1_src r) (p_imm r))
          \<and> (p_src2_loaded s \<longrightarrow> p_src2_value s = operand_value val (p_rs2_need_map r) (p_rs2_phy r) (p_arg2_src r) (p_imm r)))
      \<and> (\<not> (p_enable r \<and> p_valid r) \<longrightarrow> p_src1_loaded s \<and> p_src2_loaded s))"

definition op_regs_ok :: "rename_readreg_op_info_t \<Rightarrow> bool" where
  "op_regs_ok r = ((p_rs1_need_map r \<longrightarrow> p_rs1_phy r < PHY_REG_NUM) \<and> (p_rs2_need_map r \<longrightarrow> p_rs2_phy r < PHY_REG_NUM))"

lemma readreg_truncate:
  "rename_readreg_op_info_t.truncate ((readreg_receive r)\<lparr>p_src1_value := a, p_src1_loaded := b, p_src2_value := c, p_src2_loaded := d\<rparr>) = r"
  "rename_readreg_op_info_t.truncate ((readreg_receive r)\<lparr>p_src1_loaded := b, p_src2_loaded := d\<rparr>) = r"
  by (cases r; simp add: readreg_receive_def rename_readreg_op_info_t.defs readreg_issue_op_info_t.defs)+

lemma readreg_op_ok:
  assumes "regfile_inv f" "reg_view val (es @ ws) f" "length es = length ws" "op_regs_ok r"
  shows "\<exists>s. readreg_op es ws f r = Some s \<and> operands_ok val (available (es @ ws) f) r s"
proof (cases "p_enable r \<and> p_valid r")
  case True
  from readreg_operand_view [OF assms(1-3), of "p_rs1_need_map r" "p_rs1_phy r" "p_arg1_src r" "p_imm r"] assms(4)
  obtain v1 l1 where 1: "readreg_operand es ws f (p_rs1_need_map r) (p_rs1_phy r) (p_arg1_src r) (p_imm r) = Some (v1, l1)"
    "l1 \<longleftrightarrow> p_rs1_need_map r \<longrightarrow> available (es @ ws) f (p_rs1_phy r)"
    "l1 \<longrightarrow> v1 = operand_value val (p_rs1_need_map r) (p_rs1_phy r) (p_arg1_src r) (p_imm r)" by (auto simp: op_regs_ok_def)
  from readreg_operand_view [OF assms(1-3), of "p_rs2_need_map r" "p_rs2_phy r" "p_arg2_src r" "p_imm r"] assms(4)
  obtain v2 l2 where 2: "readreg_operand es ws f (p_rs2_need_map r) (p_rs2_phy r) (p_arg2_src r) (p_imm r) = Some (v2, l2)"
    "l2 \<longleftrightarrow> p_rs2_need_map r \<longrightarrow> available (es @ ws) f (p_rs2_phy r)"
    "l2 \<longrightarrow> v2 = operand_value val (p_rs2_need_map r) (p_rs2_phy r) (p_arg2_src r) (p_imm r)" by (auto simp: op_regs_ok_def)
  from 1 2 True show ?thesis
    by (simp add: readreg_op_def operands_ok_def readreg_truncate)
next
  case False
  then show ?thesis by (auto simp: readreg_op_def operands_ok_def readreg_truncate)
qed

lemma map_opt_total:
  "(\<And>x. x \<in> set xs \<Longrightarrow> \<exists>y. f x = Some y \<and> P x y) \<Longrightarrow> \<exists>ys. map_opt f xs = Some ys \<and> list_all2 P xs ys"
proof (induction xs)
  case (Cons x xs)
  then obtain y ys where "f x = Some y" "P x y" "map_opt f xs = Some ys" "list_all2 P xs ys"
    by (meson list.set_intros)
  then show ?case by simp
qed simp

text \<open>C39: an operand is loaded exactly when its register is valid, or on a feedback channel, or
  needs no register, and a loaded operand has the right value under any valuation of the physical
  registers that register file and channels agree with; instructions that need no execution are
  passed as loaded.\<close>

theorem readreg_run_operands:
  assumes "regfile_inv f" "reg_view val (es @ ws) f" "length es = length ws" "\<not> cf_flushing cf"
    and "\<forall>r \<in> set (port_get inp). op_regs_ok r"
  shows "\<exists>ops. readreg_run False es ws cf f inp out = Some (port_set ops out)
    \<and> list_all2 (operands_ok val (available (es @ ws) f)) (port_get inp) ops"
proof -
  from map_opt_total [of "port_get inp" "readreg_op es ws f" "operands_ok val (available (es @ ws) f)"]
    readreg_op_ok [OF assms(1-3)] assms(5)
  obtain ops where "map_opt (readreg_op es ws f) (port_get inp) = Some ops"
    "list_all2 (operands_ok val (available (es @ ws) f)) (port_get inp) ops" by auto
  with assms(4) show ?thesis by (intro exI [of _ ops]) (simp add: readreg_run_def)
qed

text \<open>One operand that is just being computed, and an immediate.\<close>

definition readreg_demo :: rename_readreg_op_info_t where
  "readreg_demo = (rename_readreg_op_info_t.truncate execute_wb_zero)\<lparr>p_enable := True, p_valid := True,
     p_rs1_need_map := True, p_rs1_phy := 9, p_arg2_src := Arg_imm, p_imm := 5\<rparr>"

theorem readreg_run_operands_witness:
  "\<exists>s. readreg_run False [\<lparr>fb_enable = True, fb_phy_id = 9, fb_value = 77\<rparr>] [feedback_zero_channel] commit_feedback_zero
      (regfile_new 0 128) (port_new [readreg_demo]) (port_new []) = Some (port_set [s] (port_new []))
    \<and> p_src1_loaded s \<and> p_src1_value s = 77 \<and> p_src2_value s = 5"
proof -
  let ?es = "[\<lparr>fb_enable = True, fb_phy_id = 9, fb_value = 77\<rparr>]" and ?val = "(\<lambda>_. 77) :: nat \<Rightarrow> u32"
  let ?f = "regfile_new (0 :: u32) 128"
  have f: "regfile_inv ?f" by (simp add: regfile_new_def regfile_inv_def PHY_REG_NUM_def)
  have "\<not> bm_bit (reg_data_valid ?f) i" if "i < 128" for i
    using that by (simp add: regfile_new_def bm_bit_def bm_words_def)
  then have v: "reg_view ?val (?es @ [feedback_zero_channel]) ?f"
    by (simp add: reg_view_def feedback_zero_channel_def PHY_REG_NUM_def)
  have d: "p_enable readreg_demo" "p_valid readreg_demo" "p_rs1_need_map readreg_demo" "p_rs1_phy readreg_demo = 9"
    "\<not> p_rs2_need_map readreg_demo" "p_arg2_src readreg_demo = Arg_imm" "p_imm readreg_demo = 5"
    by (simp_all add: readreg_demo_def execute_wb_zero_def rename_readreg_op_info_t.defs)
  have i: "\<forall>r \<in> set (port_get (port_new [readreg_demo])). op_regs_ok r"
    by (simp add: port_get_def port_new_def op_regs_ok_def d PHY_REG_NUM_def)
  from readreg_run_operands [OF f v _ no_flush i, of "port_new []"] show ?thesis
    by (auto simp: port_get_def port_new_def list_all2_Cons1 operands_ok_def available_def operand_value_def d)
qed

end
