(* ===== verification/Rename.thy ===== *)
theory Rename
  imports Rob Rat Readreg Decode
begin

text \<open>
  \<open>pipeline/rename.cpp\<close>: up to four decoded instructions per cycle are given physical registers and
  slots of the reorder buffer.  The alias table is only changed at the end of the cycle, so an
  instruction that reads or overwrites the register of an earlier one of its group takes it from the
  packet under construction; the branches' checkpoints are taken from a copy of the table that is
  kept up to date within the group.
\<close>

definition RENAME_WIDTH :: nat where "RENAME_WIDTH = 4"

record rename_stage =
  rn_in :: "decode_rename_pack_t fifo"
  rn_out :: "rename_readreg_op_info_t list port"
  rn_rat :: rat
  rn_rob :: rob
  rn_cpbuf :: checkpoint_buffer
  rn_busy :: bool
  rn_rev_pack :: decode_rename_pack_t
  rn_rob_full :: u64
  rn_phy_full :: u64

definition rename_reset :: "rename_stage \<Rightarrow> rename_stage" where
  "rename_reset s = s\<lparr>rn_busy := False\<rparr>"

text \<open>The variables of the loop: \<open>phy_reg_req_cnt\<close>, \<open>rob_req_cnt\<close>, \<open>used_phy_reg_cnt\<close>,
  \<open>global_cp\<close>, and the part of \<open>send_pack\<close> filled so far.\<close>

record rename_vars = rename_stage +
  rv_phy_req :: nat
  rv_rob_req :: nat
  rv_used :: nat
  rv_cp :: checkpoint_t
  rv_ops :: "rename_readreg_op_info_t list"

section \<open>One instruction\<close>

definition rename_zero :: rename_readreg_op_info_t where
  "rename_zero = rename_readreg_op_info_t.truncate readreg_zero"

definition rename_receive :: "decode_rename_pack_t \<Rightarrow> rename_readreg_op_info_t" where
  "rename_receive p = decode_rename_pack_t.extend p (rename_readreg_op_info_t.fields 0 0 0 0)"

definition rn_writes :: "'z decode_rename_pack_t_scheme \<Rightarrow> bool" where
  "rn_writes p = (p_enable p \<and> p_valid p \<and> p_need_rename p)"

text \<open>The backward loop over the earlier instructions of the group: the register of the last one that
  renamed \<open>rd\<close>.\<close>

definition rename_old :: "nat \<Rightarrow> rename_readreg_op_info_t list \<Rightarrow> nat \<Rightarrow> nat" where
  "rename_old rd ops old =
     (case find (\<lambda>q. rn_writes q \<and> rd = p_rd q) (rev ops) of Some q \<Rightarrow> p_rd_phy q | None \<Rightarrow> old)"

text \<open>The forward loop: later instructions of the group override earlier ones.\<close>

definition rename_feedback_step :: "rename_readreg_op_info_t \<Rightarrow> rename_readreg_op_info_t \<Rightarrow> rename_readreg_op_info_t" where
  "rename_feedback_step q x =
     (if p_enable q \<and> p_valid q \<and> p_rd_enable q then
       (let x = (if p_rs1_need_map x \<and> p_rs1 x = p_rd q then x\<lparr>p_rs1_phy := p_rd_phy q\<rparr> else x) in
        if p_rs2_need_map x \<and> p_rs2 x = p_rd q then x\<lparr>p_rs2_phy := p_rd_phy q\<rparr> else x)
     else x)"

definition rename_feedback :: "rename_readreg_op_info_t list \<Rightarrow> rename_readreg_op_info_t \<Rightarrow> rename_readreg_op_info_t" where
  "rename_feedback ops x = fold rename_feedback_step ops x"

definition rename_dest ::
  "decode_rename_pack_t \<Rightarrow> nat list \<Rightarrow> rename_readreg_op_info_t \<times> rob_item_t \<times> rename_vars
    \<Rightarrow> (rename_readreg_op_info_t \<times> rob_item_t \<times> rename_vars) option" where
  "rename_dest p ids = (\<lambda>(x, item, l).
     if p_valid p then
       if p_need_rename p then do {
         (ok, old) \<leftarrow> rat_get_phy_id (rn_rat l) (p_rd p) 0;
         cassert ok;
         new \<leftarrow> array_get ids (rv_used l);
         r \<leftarrow> rat_set_map_sync (p_rd p) new (rn_rat l);
         cp \<leftarrow> rat_cp_set_map r 0 (rv_cp l) (p_rd p) new;
         Some (x\<lparr>p_rd_phy := new\<rparr>,
           item\<lparr>old_phy_reg_id_valid := True, old_phy_reg_id := rename_old (p_rd p) (rv_ops l) old\<rparr>,
           l\<lparr>rn_rat := r, rv_cp := cp, rv_used := rv_used l + 1\<rparr>) }
       else Some (x, item\<lparr>old_phy_reg_id_valid := False, old_phy_reg_id := 0\<rparr>, l)
     else Some (x, item, l))"

definition rename_source :: "rat \<Rightarrow> bool \<Rightarrow> nat \<Rightarrow> nat option" where
  "rename_source r need_map rs =
     (if need_map then do { (ok, q) \<leftarrow> rat_get_phy_id r rs 0; cassert ok; Some q } else Some 0)"

text \<open>\<open>junk\<close> is the content of the uninitialised local checkpoints.\<close>

definition rename_checkpoint :: "checkpoint_t \<Rightarrow> decode_rename_pack_t \<Rightarrow> rename_vars \<Rightarrow> rename_vars option" where
  "rename_checkpoint junk p l =
     (if p_valid p \<and> p_predicted p \<and> p_checkpoint_id_valid p then do {
        cp \<leftarrow> checkpoint_clone (rv_cp l) junk;
        origin_cp \<leftarrow> cpbuf_get_item (rn_cpbuf l) (p_checkpoint_id p);
        Some (l\<lparr>rn_cpbuf := cpbuf_set_item_sync (p_checkpoint_id p)
          (cp\<lparr>global_history := global_history origin_cp, local_history := local_history origin_cp\<rparr>) (rn_cpbuf l)\<rparr>) }
      else Some l)"

definition rename_item :: "decode_rename_pack_t \<Rightarrow> nat \<Rightarrow> rob_item_t \<Rightarrow> rob_item_t" where
  "rename_item p rd_phy item = item\<lparr>ri_finish := False, new_phy_reg_id := rd_phy, ri_pc := p_pc p,
     ri_inst_value := p_value p, ri_has_exception := p_has_exception p, ri_exception_id := p_exception_id p,
     ri_exception_value := p_exception_value p, ri_is_mret := p_op p = Op_mret, ri_csr_addr := p_csr p\<rparr>"

definition rename_op :: "checkpoint_t \<Rightarrow> decode_rename_pack_t \<Rightarrow> nat list \<Rightarrow> rename_vars \<Rightarrow> rename_vars option" where
  "rename_op junk p ids l =
     (if p_enable p then do {
        (x, item, l) \<leftarrow> rename_dest p ids (rename_receive p, rob_item_zero, l);
        rob_id \<leftarrow> ring_get_new_id (rn_rob l);
        let (ok, _, b) = rob_push (rename_item p (p_rd_phy x) item) (rn_rob l);
        cassert ok;
        s1 \<leftarrow> rename_source (rn_rat l) (p_rs1_need_map p) (p_rs1 p);
        s2 \<leftarrow> rename_source (rn_rat l) (p_rs2_need_map p) (p_rs2 p);
        let x = x\<lparr>p_rob_id := rob_id, p_rs1_phy := s1, p_rs2_phy := s2\<rparr>;
        let x = (if p_valid p then rename_feedback (rv_ops l) x else x);
        rename_checkpoint junk p (l\<lparr>rn_rob := b, rv_ops := rv_ops l @ [x]\<rparr>) }
      else Some (l\<lparr>rv_ops := rv_ops l @ [rename_receive p]\<rparr>))"

section \<open>The stage\<close>

fun rename_slots :: "checkpoint_t \<Rightarrow> nat \<Rightarrow> rename_vars \<Rightarrow> rename_vars option" where
  "rename_slots junk 0 l = Some l"
| "rename_slots junk (Suc n) l =
     (case fifo_get_front (rn_in l) of
        None \<Rightarrow> Some l
      | Some p \<Rightarrow> do {
          let l = l\<lparr>rn_rev_pack := p, rv_phy_req := rv_phy_req l + (if rn_writes p then 1 else 0),
                    rv_rob_req := rv_rob_req l + (if p_enable p then 1 else 0)\<rparr>;
          ids \<leftarrow> rat_get_free_phy_id (rn_rat l) (rv_phy_req l);
          if length ids \<ge> rv_phy_req l \<and> ring_get_free_space (rn_rob l) \<ge> 1 then
            (case fifo_pop (rn_in l) of
               (None, _) \<Rightarrow> None
             | (Some p, q) \<Rightarrow> do {
                 l \<leftarrow> rename_op junk p ids (l\<lparr>rn_in := q, rn_rev_pack := p\<rparr>);
                 rename_slots junk n l })
          else if length ids < rv_phy_req l then
            Some (l\<lparr>rn_phy_full := rn_phy_full l + 1,
              rn_rob_full := rn_rob_full l + (if ring_get_free_space (rn_rob l) < rv_rob_req l then 1 else 0)\<rparr>)
          else Some (l\<lparr>rn_rob_full := rn_rob_full l + 1\<rparr>) })"

definition rename_pack :: "rename_readreg_op_info_t list \<Rightarrow> rename_readreg_op_info_t list" where
  "rename_pack ops = ops @ replicate (RENAME_WIDTH - length ops) rename_zero"

definition rename_run ::
  "checkpoint_t \<Rightarrow> bool \<Rightarrow> commit_feedback_pack_t \<Rightarrow> rename_stage \<Rightarrow> (bool \<times> rename_stage) option" where
  "rename_run junk stall cf s = do {
     let idle = fifo_is_empty (rn_in s);
     s \<leftarrow> (if \<not> cf_flushing cf then
             if \<not> stall then do {
               cp \<leftarrow> rat_save (rn_rat s) junk;
               l \<leftarrow> rename_slots junk RENAME_WIDTH (rename_stage.extend s (rename_vars.fields 0 0 0 cp []));
               Some ((rename_stage.truncate l)\<lparr>rn_out := port_set (rename_pack (rv_ops l)) (rn_out l)\<rparr>) }
             else Some s
           else Some (s\<lparr>rn_out := port_set (rename_pack []) (rn_out s), rn_busy := False,
                        rn_rev_pack := decode_rename_zero\<rparr>));
     Some (idle, s) }"

section \<open>A group as a sequence of renamings\<close>

definition rename_pairs :: "rename_readreg_op_info_t list \<Rightarrow> (nat \<times> nat) list" where
  "rename_pairs ops = map (\<lambda>x. (p_rd x, p_rd_phy x)) (filter rn_writes ops)"

text \<open>The mapping after the instructions, and the instruction renamed under the mapping before it.\<close>

definition rename_maps :: "(nat \<Rightarrow> nat option) \<Rightarrow> rename_readreg_op_info_t list \<Rightarrow> nat \<Rightarrow> nat option" where
  "rename_maps m ops = fold (\<lambda>(a, p) m. m(a \<mapsto> p)) (rename_pairs ops) m"

definition reads_through :: "(nat \<Rightarrow> nat option) \<Rightarrow> rename_readreg_op_info_t \<Rightarrow> bool" where
  "reads_through m x = (p_enable x \<and> p_valid x \<longrightarrow>
     (p_rs1_need_map x \<longrightarrow> m (p_rs1 x) = Some (p_rs1_phy x))
   \<and> (p_rs2_need_map x \<longrightarrow> m (p_rs2 x) = Some (p_rs2_phy x)))"

definition rename_entry :: "(nat \<Rightarrow> nat option) \<Rightarrow> rename_readreg_op_info_t \<Rightarrow> rob_item_t" where
  "rename_entry m x = rename_item (decode_rename_pack_t.truncate x) (p_rd_phy x)
     (rob_item_zero\<lparr>old_phy_reg_id_valid := rn_writes x,
        old_phy_reg_id := if rn_writes x then the (m (p_rd x)) else 0\<rparr>)"

fun rename_entries :: "(nat \<Rightarrow> nat option) \<Rightarrow> rename_readreg_op_info_t list \<Rightarrow> rob_item_t list" where
  "rename_entries m [] = []"
| "rename_entries m (x # xs) = (if p_enable x then [rename_entry m x] else []) @ rename_entries (rename_maps m [x]) xs"

text \<open>What the decoder guarantees of the register numbers.\<close>

definition decoded_ok :: "'z decode_rename_pack_t_scheme \<Rightarrow> bool" where
  "decoded_ok p = (p_need_rename p = (p_rd_enable p \<and> 0 < p_rd p) \<and> p_rd p < ARCH_REG_NUM
     \<and> (p_rs1_need_map p \<longrightarrow> 0 < p_rs1 p \<and> p_rs1 p < ARCH_REG_NUM)
     \<and> (p_rs2_need_map p \<longrightarrow> 0 < p_rs2 p \<and> p_rs2 p < ARCH_REG_NUM))"

definition takes_checkpoint :: "'z decode_rename_pack_t_scheme \<Rightarrow> bool" where
  "takes_checkpoint p = (p_enable p \<and> p_valid p \<and> p_predicted p \<and> p_checkpoint_id_valid p)"

lemma rename_pairs_append [simp]:
  "rename_pairs [] = []"
  "rename_pairs (xs @ [x]) = rename_pairs xs @ (if rn_writes x then [(p_rd x, p_rd_phy x)] else [])"
  by (simp_all add: rename_pairs_def)

lemma rename_maps_append [simp]:
  "rename_maps m [] = m"
  "rename_maps m (xs @ [x]) = (if rn_writes x then (rename_maps m xs)(p_rd x \<mapsto> p_rd_phy x) else rename_maps m xs)"
  by (simp_all add: rename_maps_def)

lemma rename_maps_Cons: "rename_maps m (x # xs) = rename_maps (rename_maps m [x]) xs"
  by (simp add: rename_maps_def rename_pairs_def)

lemma rename_entries_append:
  "rename_entries m (xs @ [x]) = rename_entries m xs @ (if p_enable x then [rename_entry (rename_maps m xs) x] else [])"
proof (induction xs arbitrary: m)
  case (Cons y xs)
  then show ?case using rename_maps_Cons [of m y xs] by simp
qed simp

lemma rename_old_maps:
  "rename_maps m ops a = (if m a = None \<and> (\<forall>x \<in> set ops. rn_writes x \<longrightarrow> a \<noteq> p_rd x) then None
     else Some (rename_old a ops (the (m a))))"
  by (induction ops rule: rev_induct) (auto simp: rename_old_def)

lemma rename_old_append [simp]:
  "rename_old a [] d = d"
  "rename_old a (ops @ [q]) d = (if rn_writes q \<and> a = p_rd q then p_rd_phy q else rename_old a ops d)"
  by (simp_all add: rename_old_def)

lemma rename_feedback_step_eq:
  assumes "decoded_ok q" "decoded_ok x"
  shows "rename_feedback_step q x =
    x\<lparr>p_rs1_phy := if p_rs1_need_map x \<and> rn_writes q \<and> p_rs1 x = p_rd q then p_rd_phy q else p_rs1_phy x,
      p_rs2_phy := if p_rs2_need_map x \<and> rn_writes q \<and> p_rs2 x = p_rd q then p_rd_phy q else p_rs2_phy x\<rparr>"
  using assms
  by (intro rename_readreg_op_info_t.equality)
    (auto simp: rename_feedback_step_def Let_def rn_writes_def decoded_ok_def)

lemma rename_feedback_eq:
  assumes "\<forall>q \<in> set ops. decoded_ok q" "decoded_ok x"
  shows "rename_feedback ops x =
    x\<lparr>p_rs1_phy := if p_rs1_need_map x then rename_old (p_rs1 x) ops (p_rs1_phy x) else p_rs1_phy x,
      p_rs2_phy := if p_rs2_need_map x then rename_old (p_rs2 x) ops (p_rs2_phy x) else p_rs2_phy x\<rparr>"
  using assms(1)
proof (induction ops rule: rev_induct)
  case Nil
  show ?case by (simp add: rename_feedback_def)
next
  case (snoc q ops)
  let ?y = "rename_feedback ops x"
  have ih: "?y = x\<lparr>p_rs1_phy := if p_rs1_need_map x then rename_old (p_rs1 x) ops (p_rs1_phy x) else p_rs1_phy x,
      p_rs2_phy := if p_rs2_need_map x then rename_old (p_rs2 x) ops (p_rs2_phy x) else p_rs2_phy x\<rparr>"
    using snoc by simp
  have "decoded_ok ?y" using assms(2) unfolding ih decoded_ok_def by simp
  moreover have "rename_feedback (ops @ [q]) x = rename_feedback_step q ?y" by (simp add: rename_feedback_def)
  ultimately show ?case using rename_feedback_step_eq [of q ?y] snoc.prems unfolding ih
    by (intro rename_readreg_op_info_t.equality) simp_all
qed

section \<open>Sequences of renamings on the table\<close>

lemma rat_rename_all_append:
  "rat_rename_all (xs @ ys) r = do {
     (ps, t) \<leftarrow> rat_rename_all xs r;
     (qs, u) \<leftarrow> rat_rename_all ys t;
     Some (ps @ qs, u) }"
proof (induction xs arbitrary: r)
  case Nil
  show ?case by (cases "rat_rename_all ys r") auto
next
  case (Cons x xs)
  obtain a p where x: "x = (a, p)" by (cases x)
  show ?case
  proof (cases "rat_set_map 0 a p r")
    case (Some o1)
    obtain old r1 where o1: "o1 = (old, r1)" by (cases o1)
    show ?thesis using Some Cons.IH [of r1]
      by (cases "rat_rename_all xs r1"; cases "do { (ps, t) \<leftarrow> rat_rename_all xs r1; rat_rename_all ys t }")
        (auto simp: x o1 split: prod.splits)
  qed (simp add: x)
qed

lemma rat_rename_all_state:
  assumes "rat_inv r" "\<not> init_rat r" "rat_rename_all xs r = Some (ps, t)"
  shows "rat_lookup t = fold (\<lambda>(a, p) m. m(a \<mapsto> p)) xs (rat_lookup r)
    \<and> (\<forall>j < phy_reg_num r. vld t j = (vld r j \<or> j \<in> snd ` set xs))"
  using assms
proof (induction xs arbitrary: r ps)
  case (Cons x xs)
  obtain a p where x: "x = (a, p)" by (cases x)
  with Cons.prems(3) obtain old r1 qs where
    m: "rat_set_map 0 a p r = Some (old, r1)" and re: "rat_rename_all xs r1 = Some (qs, t)"
    by (auto simp: bind_eq_Some_conv)
  note sm = rat_set_map_running [OF Cons.prems(1,2) m] and g = rat_set_map_guards [OF Cons.prems(1) m]
  have "rat_lookup r1 = (rat_lookup r)(a \<mapsto> p)"
    using rat_mapped_lookup [OF Cons.prems(1) g(1-4)] sm(2) by (simp add: fun_eq_iff)
  moreover have "\<forall>j < phy_reg_num r. vld r1 j = (vld r j \<or> j = p)"
    using rat_mapped_bits(1) [OF Cons.prems(1) g(1)] sm(2) by auto
  moreover have "phy_reg_num r1 = phy_reg_num r" using sm(2) by simp
  ultimately show ?case using Cons.IH [OF sm(5,6) re] by (auto simp: x)
qed simp

definition rat_free :: "rat \<Rightarrow> nat list" where
  "rat_free r = filter (\<lambda>p. \<not> vld r p) [0..<phy_reg_num r]"

definition rat_running :: "rat \<Rightarrow> bool" where
  "rat_running r = (rat_inv r \<and> \<not> init_rat r \<and> phy_reg_num r = PHY_REG_NUM \<and> arch_reg_num r = ARCH_REG_NUM)"

text \<open>The alias table and the copy in \<open>global_cp\<close> while the group is renamed: the table itself only
  collects requests, the copy is what it will be once they are applied.\<close>

definition tracks :: "rat \<Rightarrow> rename_readreg_op_info_t list \<Rightarrow> rat \<Rightarrow> checkpoint_t \<Rightarrow> bool" where
  "tracks r ops v c =
     (v = r\<lparr>rat_request_q := rat_request_q r @ map (\<lambda>(a, p). Rat_set_map a p) (rename_pairs ops)\<rparr>
      \<and> (\<exists>ps t. rat_rename_all (rename_pairs ops) r = Some (ps, t) \<and> rat_captured t c)
      \<and> map snd (rename_pairs ops) = take (length (rename_pairs ops)) (rat_free r))"

definition cp_restores :: "rat \<Rightarrow> rename_readreg_op_info_t list \<Rightarrow> checkpoint_t \<Rightarrow> bool" where
  "cp_restores r ops c = (\<forall>xs ps t. rat_rename_all (rename_pairs ops @ xs) r = Some (ps, t) \<longrightarrow>
     (\<exists>u. rat_restore c t = Some u \<and> rat_lookup u = rename_maps (rat_lookup r) ops))"

lemma rat_free_distinct: "distinct (rat_free r)"
  by (simp add: rat_free_def)

lemma rat_free_nth:
  assumes "n < length (rat_free r)"
  shows "rat_free r ! n < phy_reg_num r" "\<not> vld r (rat_free r ! n)" "rat_free r ! n \<notin> set (take n (rat_free r))"
proof -
  show "rat_free r ! n < phy_reg_num r" "\<not> vld r (rat_free r ! n)"
    using nth_mem [OF assms] by (auto simp: rat_free_def)
  show "rat_free r ! n \<notin> set (take n (rat_free r))"
    using assms rat_free_distinct [of r] by (auto simp: in_set_conv_nth nth_eq_iff_index_eq)
qed

lemma running_lookup:
  assumes "rat_running r" "0 < a" "a < ARCH_REG_NUM"
  shows "\<exists>q. rat_lookup r a = Some q"
proof -
  have r: "rat_inv r" "\<not> init_rat r" "a < arch_reg_num r" using assms by (simp_all add: rat_running_def)
  then have "\<exists>p. rat_maps r a p" using assms(2) unfolding rat_inv_def by blast
  with r show ?thesis using rat_lookup_None [of r a] by auto
qed

lemma tracks_get:
  assumes "rat_running r" "tracks r ops v c" "0 < a" "a < ARCH_REG_NUM"
  shows "rat_get_phy_id v a junk = Some (True, the (rat_lookup r a))"
proof -
  have "\<exists>q. v = r\<lparr>rat_request_q := q\<rparr>" using assms(2) by (auto simp: tracks_def)
  then have v: "rat_inv v" "rat_lookup v = rat_lookup r" "arch_reg_num v = ARCH_REG_NUM"
    using assms(1) rat_queue_clear by (auto simp: rat_running_def)
  with running_lookup [OF assms(1,3,4)] show ?thesis
    using rat_get_phy_id_eq [OF v(1) assms(3), of junk] assms(4) by auto
qed

lemma tracks_free:
  assumes "rat_running r" "tracks r ops v c"
  shows "rat_get_free_phy_id v n = Some (take (max 1 n) (rat_free r))"
proof -
  have v: "rat_wf v" "rat_free v = rat_free r"
    using assms rat_inv_wf [of r] by (auto simp: tracks_def rat_running_def rat_free_def rat_wf_def simp del: rat_wf_lengths)
  show ?thesis
    using rat_free_scan_eq [OF v(1), of "[0..<phy_reg_num v]" "[]" n] v(2)
    by (simp add: rat_get_free_phy_id_def rat_free_def)
qed

lemma tracks_old:
  assumes "rat_running r" "0 < a" "a < ARCH_REG_NUM"
  shows "rename_maps (rat_lookup r) ops a = Some (rename_old a ops (the (rat_lookup r a)))"
  using running_lookup [OF assms] rename_old_maps [of "rat_lookup r" ops a] by auto

lemma tracks_write:
  assumes "rat_running r" "tracks r ops v c" "0 < a" "a < ARCH_REG_NUM"
    and n: "n = length (rename_pairs ops)" "n < length (rat_free r)"
  shows "\<exists>v' c'. rat_set_map_sync a (rat_free r ! n) v = Some v' \<and> rat_cp_set_map v' 0 c a (rat_free r ! n) = Some c'
    \<and> (\<forall>y. rn_writes y \<longrightarrow> p_rd y = a \<longrightarrow> p_rd_phy y = rat_free r ! n \<longrightarrow> tracks r (ops @ [y]) v' c')"
proof -
  let ?p = "rat_free r ! n"
  have r: "rat_inv r" "\<not> init_rat r" "phy_reg_num r = PHY_REG_NUM" "arch_reg_num r = ARCH_REG_NUM"
    using assms(1) by (simp_all add: rat_running_def)
  from assms(2) obtain ps t where
    v: "v = r\<lparr>rat_request_q := rat_request_q r @ map (\<lambda>(a, p). Rat_set_map a p) (rename_pairs ops)\<rparr>"
    and t: "rat_rename_all (rename_pairs ops) r = Some (ps, t)" "rat_captured t c"
    and pairs: "map snd (rename_pairs ops) = take n (rat_free r)"
    by (auto simp: tracks_def n(1))
  note k = rat_rename_keeps [OF r(1,2) t(1)] and st = rat_rename_all_state [OF r(1,2) t(1)]
  note f = rat_free_nth [OF n(2)]
  have "snd ` set (rename_pairs ops) = set (take n (rat_free r))" using pairs by (metis list.set_map)
  with st f have nv: "\<not> vld t ?p" by auto
  have tp: "?p < phy_reg_num t" "a < arch_reg_num t" "rat_inv t" "\<not> init_rat t" using k f(1) assms(4) r(4) by simp_all
  let ?v = "v\<lparr>rat_request_q := rat_request_q v @ [Rat_set_map a ?p]\<rparr>"
  have s: "rat_set_map_sync a ?p v = Some ?v"
    using f(1) assms(3,4) r(4) v by (simp add: rat_set_map_sync_def)
  have sz: "phy_reg_num ?v = phy_reg_num t" "arch_reg_num ?v = arch_reg_num t" using v k by simp_all
  from rat_cp_set_map_captured [OF tp(3) t(2) tp(4) sz tp(1) assms(3) tp(2) nv, of 0] obtain c' where
    c': "rat_cp_set_map ?v 0 c a ?p = Some c'" "rat_captured (rat_mapped a ?p t) c'" by blast
  have one: "rat_set_map 0 a ?p t = Some (the (rat_lookup t a), rat_mapped a ?p t)"
    using rat_set_map_eq [OF tp(3,1) assms(3) tp(2) nv, of 0] tp(2,3,4) assms(3) rat_lookup_None [OF tp(3), of a]
    unfolding rat_inv_def by (auto split: option.splits)
  have "tracks r (ops @ [y]) ?v c'" if "rn_writes y" "p_rd y = a" "p_rd_phy y = ?p" for y
    using that t(1) c'(2) one pairs n by (auto simp: tracks_def v rat_rename_all_append take_Suc_conv_app_nth)
  with s c'(1) show ?thesis by blast
qed

lemma tracks_checkpoint:
  assumes "rat_running r" "tracks r ops v c" "checkpoint_ok junk"
  shows "\<exists>cp. checkpoint_clone c junk = Some cp
    \<and> cp_restores r ops (cp\<lparr>global_history := g, local_history := h\<rparr>)"
proof -
  have r: "rat_inv r" "\<not> init_rat r" "phy_reg_num r = PHY_REG_NUM"
    using assms(1) by (simp_all add: rat_running_def)
  from assms(2) obtain qs u where u: "rat_rename_all (rename_pairs ops) r = Some (qs, u)" "rat_captured u c"
    by (auto simp: tracks_def)
  note k = rat_rename_keeps [OF r(1,2) u(1)] and st = rat_rename_all_state [OF r(1,2) u(1)]
  let ?cp = "junk\<lparr>rat_phy_map_table_valid := phy_map_table_valid u, rat_phy_map_table_visible := phy_map_table_visible u,
      global_history := global_history c, local_history := local_history c\<rparr>"
  have len: "length (rat_phy_map_table_valid junk) = phy_reg_num_bitmap_size"
      "length (rat_phy_map_table_visible junk) = phy_reg_num_bitmap_size"
      "length (phy_map_table_valid u) = phy_reg_num_bitmap_size"
      "length (phy_map_table_visible u) = phy_reg_num_bitmap_size"
    using u(2) assms(3) by (auto simp: rat_captured_def checkpoint_ok_def)
  have cp: "checkpoint_clone c junk = Some ?cp"
    using u(2) len by (simp add: checkpoint_clone_def rat_captured_def memcpy_arr_same)
  have "\<exists>w. rat_restore (?cp\<lparr>global_history := g, local_history := h\<rparr>) t = Some w
      \<and> rat_lookup w = rename_maps (rat_lookup r) ops"
    if "rat_rename_all (rename_pairs ops @ xs) r = Some (ps, t)" for xs ps t
  proof -
    from that u(1) obtain ps' where "rat_rename_all xs u = Some (ps', t)"
      by (auto simp: rat_rename_all_append bind_eq_Some_conv)
    from rat_restore_same [OF _ _ _ _ _ _ this, of "?cp\<lparr>global_history := g, local_history := h\<rparr>"] k r u(2) assms(3)
    obtain w where w: "rat_restore (?cp\<lparr>global_history := g, local_history := h\<rparr>) t = Some w" "rat_same w u"
      by (auto simp: checkpoint_ok_def rat_captured_def)
    have "rat_lookup w = rat_lookup u" using rat_same_inv [OF w(2)] k by blast
    with w(1) st show ?thesis by (simp add: rename_maps_def)
  qed
  with cp show ?thesis by (auto simp: cp_restores_def)
qed

section \<open>The loop\<close>

definition rename_ok :: "('z) rename_stage_scheme \<Rightarrow> bool" where
  "rename_ok s = (rat_running (rn_rat s) \<and> fifo_inv (rn_in s) \<and> fifo_inv (rn_rob s) \<and> \<not> pop_status_save (rn_rob s)
     \<and> (\<forall>p \<in> set (fifo_items (rn_in s)). decoded_ok p
          \<and> (takes_checkpoint p \<longrightarrow> p_checkpoint_id p < length (buffer (rn_cpbuf s)))))"

definition rename_table_at :: "rename_stage \<Rightarrow> rename_vars \<Rightarrow> bool" where
  "rename_table_at s l = (tracks (rn_rat s) (rv_ops l) (rn_rat l) (rv_cp l)
     \<and> rv_used l = length (rename_pairs (rv_ops l)))"

definition rename_rob_at :: "rename_stage \<Rightarrow> rename_vars \<Rightarrow> bool" where
  "rename_rob_at s l = (fifo_inv (rn_rob l) \<and> \<not> pop_status_save (rn_rob l) \<and> qsize (rn_rob l) = qsize (rn_rob s)
     \<and> rob_request_q (rn_rob l) = rob_request_q (rn_rob s)
     \<and> ring_ids (rn_rob l) = ring_ids (rn_rob s) @ map p_rob_id (filter p_enable (rv_ops l))
     \<and> fifo_items (rn_rob l) = fifo_items (rn_rob s) @ rename_entries (rat_lookup (rn_rat s)) (rv_ops l))"

text \<open>The checkpoints written for the group's branches: the histories are those saved when the branch
  was fetched, the mapping is the one just after the branch.\<close>

definition rename_cp_for :: "rename_stage \<Rightarrow> rename_readreg_op_info_t list \<Rightarrow> nat \<Rightarrow> checkpoint_t \<Rightarrow> bool" where
  "rename_cp_for s ops i c = (\<exists>origin. cpbuf_get_item (rn_cpbuf s) (p_checkpoint_id (ops ! i)) = Some origin
     \<and> global_history c = global_history origin \<and> local_history c = local_history origin
     \<and> cp_restores (rn_rat s) (take (Suc i) ops) c)"

definition rename_cps_at :: "rename_stage \<Rightarrow> checkpoint_t list \<Rightarrow> rename_vars \<Rightarrow> bool" where
  "rename_cps_at s cps l = (length cps = length (rv_ops l)
     \<and> rn_cpbuf l = (rn_cpbuf s)\<lparr>cpbuf_request_q := cpbuf_request_q (rn_cpbuf s)
         @ map (\<lambda>(x, c). Ring_set_item (p_checkpoint_id x) c) (filter (\<lambda>(x, c). takes_checkpoint x) (zip (rv_ops l) cps))\<rparr>
     \<and> (\<forall>i < length (rv_ops l). takes_checkpoint (rv_ops l ! i) \<longrightarrow> rename_cp_for s (rv_ops l) i (cps ! i)))"

definition rename_ops_at :: "rename_stage \<Rightarrow> rename_vars \<Rightarrow> bool" where
  "rename_ops_at s l = (rn_out l = rn_out s \<and> (\<forall>x \<in> set (rv_ops l). decoded_ok x)
     \<and> (\<forall>i < length (rv_ops l). reads_through (rename_maps (rat_lookup (rn_rat s)) (take i (rv_ops l))) (rv_ops l ! i)))"

definition rename_at :: "rename_stage \<Rightarrow> checkpoint_t list \<Rightarrow> rename_vars \<Rightarrow> bool" where
  "rename_at s cps l = (rename_table_at s l \<and> rename_rob_at s l \<and> rename_cps_at s cps l \<and> rename_ops_at s l)"

lemma rename_receive_simps [simp]:
  "decode_rename_pack_t.truncate (rename_receive p) = p" "p_rd_phy (rename_receive p) = 0"
  "p_enable (rename_receive p) = p_enable p" "p_valid (rename_receive p) = p_valid p"
  "p_need_rename (rename_receive p) = p_need_rename p" "p_rd (rename_receive p) = p_rd p"
  "p_rs1 (rename_receive p) = p_rs1 p" "p_rs2 (rename_receive p) = p_rs2 p"
  "p_rs1_need_map (rename_receive p) = p_rs1_need_map p" "p_rs2_need_map (rename_receive p) = p_rs2_need_map p"
  "rn_writes (rename_receive p) = rn_writes p" "takes_checkpoint (rename_receive p) = takes_checkpoint p"
  "p_checkpoint_id (rename_receive p) = p_checkpoint_id p" "decoded_ok (rename_receive p) = decoded_ok p"
  by (simp_all add: rename_receive_def decode_rename_pack_t.defs rename_readreg_op_info_t.defs rn_writes_def
      takes_checkpoint_def decoded_ok_def)

lemma truncated:
  fixes x :: rename_readreg_op_info_t
  assumes "decode_rename_pack_t.truncate x = p"
  shows "rn_writes x = rn_writes p" "takes_checkpoint x = takes_checkpoint p" "decoded_ok x = decoded_ok p"
    "p_enable x = p_enable p" "p_valid x = p_valid p" "p_rd x = p_rd p" "p_checkpoint_id x = p_checkpoint_id p"
    "p_rs1 x = p_rs1 p" "p_rs2 x = p_rs2 p" "p_rs1_need_map x = p_rs1_need_map p" "p_rs2_need_map x = p_rs2_need_map p"
  unfolding assms [symmetric]
  by (simp_all add: decode_rename_pack_t.defs rn_writes_def takes_checkpoint_def decoded_ok_def)

text \<open>A renamed instruction.\<close>

definition renamed :: "decode_rename_pack_t \<Rightarrow> nat \<Rightarrow> nat \<Rightarrow> nat \<Rightarrow> nat \<Rightarrow> rename_readreg_op_info_t" where
  "renamed p d k a b = (rename_receive p)\<lparr>p_rd_phy := d, p_rob_id := k, p_rs1_phy := a, p_rs2_phy := b\<rparr>"

lemma renamed_simps [simp]:
  "decode_rename_pack_t.truncate (renamed p d k a b) = p" "p_rd_phy (renamed p d k a b) = d"
  "p_rob_id (renamed p d k a b) = k" "p_rs1_phy (renamed p d k a b) = a" "p_rs2_phy (renamed p d k a b) = b"
  by (simp_all add: renamed_def rename_receive_def decode_rename_pack_t.defs rename_readreg_op_info_t.defs)

lemmas renamed_truncated [simp] = truncated [OF renamed_simps(1)]

lemma rename_dest_tracks:
  assumes "rat_running r" "tracks r (rv_ops l) (rn_rat l) (rv_cp l)" "rv_used l = length (rename_pairs (rv_ops l))"
    and p: "p_enable p" "decoded_ok p"
    and ids: "rn_writes p \<Longrightarrow> rv_used l < length ids" "ids = take k (rat_free r)"
  shows "\<exists>d v c u. rename_dest p ids (rename_receive p, rob_item_zero, l) = Some
      ((rename_receive p)\<lparr>p_rd_phy := d\<rparr>,
       rob_item_zero\<lparr>old_phy_reg_id_valid := rn_writes p,
         old_phy_reg_id := if rn_writes p then the (rename_maps (rat_lookup r) (rv_ops l) (p_rd p)) else 0\<rparr>,
       l\<lparr>rn_rat := v, rv_cp := c, rv_used := u\<rparr>)
    \<and> (\<forall>y. decode_rename_pack_t.truncate y = p \<longrightarrow> p_rd_phy y = d \<longrightarrow>
         tracks r (rv_ops l @ [y]) v c \<and> u = length (rename_pairs (rv_ops l @ [y])))"
proof (cases "rn_writes p")
  case True
  then have a: "0 < p_rd p" "p_rd p < ARCH_REG_NUM" "p_valid p" "p_need_rename p"
    using p by (auto simp: rn_writes_def decoded_ok_def)
  have n: "rv_used l < length (rat_free r)" and nth: "array_get ids (rv_used l) = Some (rat_free r ! rv_used l)"
    using ids(1) [OF True] ids(2) by simp_all
  from tracks_write [OF assms(1,2) a(1,2) assms(3) n] obtain v c where
    v: "rat_set_map_sync (p_rd p) (rat_free r ! rv_used l) (rn_rat l) = Some v"
      "rat_cp_set_map v 0 (rv_cp l) (p_rd p) (rat_free r ! rv_used l) = Some c"
      "\<forall>y. rn_writes y \<longrightarrow> p_rd y = p_rd p \<longrightarrow> p_rd_phy y = rat_free r ! rv_used l \<longrightarrow> tracks r (rv_ops l @ [y]) v c"
    by blast
  let ?u = "rv_used l + 1"
  have "rename_dest p ids (rename_receive p, rob_item_zero, l) = Some
      ((rename_receive p)\<lparr>p_rd_phy := rat_free r ! rv_used l\<rparr>,
       rob_item_zero\<lparr>old_phy_reg_id_valid := True,
         old_phy_reg_id := the (rename_maps (rat_lookup r) (rv_ops l) (p_rd p))\<rparr>,
       l\<lparr>rn_rat := v, rv_cp := c, rv_used := ?u\<rparr>)"
    using a nth v(1,2) tracks_get [OF assms(1,2) a(1,2), of 0] tracks_old [OF assms(1) a(1,2), of "rv_ops l"]
    by (simp add: rename_dest_def)
  moreover have "tracks r (rv_ops l @ [y]) v c \<and> ?u = length (rename_pairs (rv_ops l @ [y]))"
    if "decode_rename_pack_t.truncate y = p" "p_rd_phy y = rat_free r ! rv_used l" for y
    using that v(3) truncated [OF that(1)] True assms(3) by simp
  ultimately show ?thesis using True
    by (intro exI [of _ "rat_free r ! rv_used l"] exI [of _ v] exI [of _ c] exI [of _ ?u]) simp
next
  case False
  then have "p_valid p \<Longrightarrow> \<not> p_need_rename p" using p(1) by (simp add: rn_writes_def)
  then have "rename_dest p ids (rename_receive p, rob_item_zero, l) = Some (rename_receive p, rob_item_zero, l)"
    by (auto simp: rename_dest_def rob_item_zero_def)
  moreover have "tracks r (rv_ops l @ [y]) (rn_rat l) (rv_cp l) \<and> rv_used l = length (rename_pairs (rv_ops l @ [y]))"
    if "decode_rename_pack_t.truncate y = p" for y
    using truncated [OF that] False assms(2,3) by (simp add: tracks_def)
  moreover have "(rename_receive p)\<lparr>p_rd_phy := 0\<rparr> = rename_receive p"
    by (simp add: rename_receive_def rename_readreg_op_info_t.defs decode_rename_pack_t.defs)
  ultimately show ?thesis using False
    by (intro exI [of _ 0] exI [of _ "rn_rat l"] exI [of _ "rv_cp l"] exI [of _ "rv_used l"])
      (simp add: rob_item_zero_def)
qed

lemma rename_cps_step:
  assumes "rename_cps_at s cps l" "rv_ops t = rv_ops l @ [y]"
    and "rn_cpbuf t = (if takes_checkpoint y then cpbuf_set_item_sync (p_checkpoint_id y) c (rn_cpbuf l) else rn_cpbuf l)"
    and "takes_checkpoint y \<Longrightarrow> rename_cp_for s (rv_ops t) (length (rv_ops l)) c"
  shows "rename_cps_at s (cps @ [c]) t"
proof -
  have "rename_cp_for s (rv_ops t) i = rename_cp_for s (rv_ops l) i" if "i < length (rv_ops l)" for i
    using that by (simp add: rename_cp_for_def assms(2) nth_append fun_eq_iff)
  with assms show ?thesis
    by (auto simp: rename_cps_at_def cpbuf_set_item_sync_def nth_append less_Suc_eq)
qed

lemma rename_ops_step:
  assumes "rename_ops_at s l" "rv_ops t = rv_ops l @ [y]" "rn_out t = rn_out l" "decoded_ok y"
    and "reads_through (rename_maps (rat_lookup (rn_rat s)) (rv_ops l)) y"
  shows "rename_ops_at s t"
  using assms by (auto simp: rename_ops_at_def nth_append less_Suc_eq)

lemma rename_rob_step:
  assumes "rename_rob_at s l" "rv_ops t = rv_ops l @ [y]" "p_enable y" "\<not> fifo_is_full (rn_rob l)"
    and "rob_push (rename_entry (rename_maps (rat_lookup (rn_rat s)) (rv_ops l)) y) (rn_rob l) = (ok, k, rn_rob t)"
      "p_rob_id y = k"
  shows "ok \<and> rename_rob_at s t"
proof -
  have inv: "fifo_inv (rn_rob l)" using assms(1) by (simp add: rename_rob_at_def)
  note u = ring_push_ids [OF inv assms(4) assms(5) [unfolded rob_push_def]]
  have "rn_rob t = snd (fifo_push (rename_entry (rename_maps (rat_lookup (rn_rat s)) (rv_ops l)) y) (rn_rob l))"
    using assms(5) by (auto simp: rob_push_def ring_push_def Let_def split: prod.splits)
  then have "qsize (rn_rob t) = qsize (rn_rob l) \<and> pop_status_save (rn_rob t) = pop_status_save (rn_rob l)
      \<and> rob_request_q (rn_rob t) = rob_request_q (rn_rob l)"
    unfolding fifo_push_not_full [OF assms(4)] by simp
  with u assms show ?thesis by (simp add: rename_rob_at_def rename_entries_append)
qed

lemma rename_rob_skip:
  "rename_rob_at s l \<Longrightarrow> rv_ops t = rv_ops l @ [y] \<Longrightarrow> \<not> p_enable y \<Longrightarrow> rn_rob t = rn_rob l \<Longrightarrow> rename_rob_at s t"
  by (simp add: rename_rob_at_def rename_entries_append)

lemma room_not_full:
  assumes "fifo_inv f" "\<not> pop_status_save f"
  shows "1 \<le> ring_get_free_space f \<longleftrightarrow> \<not> fifo_is_full f"
    "ring_get_free_space f = qsize f - length (ring_ids f)"
  using ring_size_items [OF assms] ring_full_length [OF assms] ring_ids_le [OF assms(1)] ring_ids_length [OF assms(1)]
  by (auto simp: ring_get_free_space_def)

lemma rename_sources:
  assumes "rat_running r" "tracks r ops' v c" "decoded_ok p"
  obtains a b where "rename_source v (p_rs1_need_map p) (p_rs1 p) = Some a" "rename_source v (p_rs2_need_map p) (p_rs2 p) = Some b"
    and "\<And>ops. p_rs1_need_map p \<Longrightarrow> rename_maps (rat_lookup r) ops (p_rs1 p) = Some (rename_old (p_rs1 p) ops a)"
      "\<And>ops. p_rs2_need_map p \<Longrightarrow> rename_maps (rat_lookup r) ops (p_rs2 p) = Some (rename_old (p_rs2 p) ops b)"
proof
  show "rename_source v (p_rs1_need_map p) (p_rs1 p) = Some (if p_rs1_need_map p then the (rat_lookup r (p_rs1 p)) else 0)"
    "rename_source v (p_rs2_need_map p) (p_rs2 p) = Some (if p_rs2_need_map p then the (rat_lookup r (p_rs2 p)) else 0)"
    using assms(3) tracks_get [OF assms(1,2)] by (auto simp: rename_source_def decoded_ok_def)
qed (use assms(3) tracks_old [OF assms(1)] in \<open>auto simp: decoded_ok_def\<close>)

lemma rename_feedback_renamed:
  assumes "\<forall>q \<in> set ops. decoded_ok q" "decoded_ok p"
  shows "rename_feedback ops (renamed p d k a b) = renamed p d k
     (if p_rs1_need_map p then rename_old (p_rs1 p) ops a else a) (if p_rs2_need_map p then rename_old (p_rs2 p) ops b else b)"
proof -
  have ok: "decoded_ok (renamed p d k a b)" using assms(2) by simp
  show ?thesis unfolding rename_feedback_eq [OF assms(1) ok] renamed_simps renamed_truncated
    by (intro rename_readreg_op_info_t.equality) (simp_all add: renamed_def)
qed

lemma rename_checkpoint_step:
  assumes "rat_running (rn_rat s)" "tracks (rn_rat s) (rv_ops l) v (rv_cp l)" "checkpoint_ok junk"
    and "rename_cps_at s cps k" "rv_ops l = rv_ops k @ [y]" "rn_cpbuf l = rn_cpbuf k"
    and y: "decode_rename_pack_t.truncate y = p" "p_enable p"
    and id: "takes_checkpoint p \<Longrightarrow> p_checkpoint_id p < length (buffer (rn_cpbuf s))"
  obtains b c where "rename_checkpoint junk p l = Some (l\<lparr>rn_cpbuf := b\<rparr>)" "rename_cps_at s (cps @ [c]) (l\<lparr>rn_cpbuf := b\<rparr>)"
proof (cases "takes_checkpoint p")
  case True
  have same: "buffer (rn_cpbuf l) = buffer (rn_cpbuf s)" using assms(4,6) by (simp add: rename_cps_at_def)
  obtain origin where o: "cpbuf_get_item (rn_cpbuf s) (p_checkpoint_id p) = Some origin"
    using id [OF True] by (simp add: cpbuf_get_item_def ring_get_item_def)
  then have o': "cpbuf_get_item (rn_cpbuf l) (p_checkpoint_id p) = Some origin"
    using same by (simp add: cpbuf_get_item_def ring_get_item_def)
  from tracks_checkpoint [OF assms(1-3), of "local_history origin" "global_history origin"] obtain cp where
    cp: "checkpoint_clone (rv_cp l) junk = Some cp"
      "cp_restores (rn_rat s) (rv_ops l) (cp\<lparr>global_history := global_history origin, local_history := local_history origin\<rparr>)"
    by (elim exE conjE) (rule that)
  let ?c = "cp\<lparr>global_history := global_history origin, local_history := local_history origin\<rparr>"
  let ?b = "cpbuf_set_item_sync (p_checkpoint_id p) ?c (rn_cpbuf l)"
  have "rename_checkpoint junk p l = Some (l\<lparr>rn_cpbuf := ?b\<rparr>)"
    using True cp(1) o' by (simp add: rename_checkpoint_def takes_checkpoint_def)
  moreover have "rename_cps_at s (cps @ [?c]) (l\<lparr>rn_cpbuf := ?b\<rparr>)"
  proof (rule rename_cps_step [OF assms(4), of _ y])
    show "rv_ops (l\<lparr>rn_cpbuf := ?b\<rparr>) = rv_ops k @ [y]" using assms(5) by simp
    show "rn_cpbuf (l\<lparr>rn_cpbuf := ?b\<rparr>) = (if takes_checkpoint y then cpbuf_set_item_sync (p_checkpoint_id y) ?c (rn_cpbuf k)
        else rn_cpbuf k)"
      using True assms(6) truncated(2,7) [OF y(1)] by simp
    show "rename_cp_for s (rv_ops (l\<lparr>rn_cpbuf := ?b\<rparr>)) (length (rv_ops k)) ?c"
      using o cp(2) truncated(7) [OF y(1)] by (simp add: rename_cp_for_def assms(5))
  qed
  ultimately show ?thesis by (rule that)
next
  case False
  have e: "l\<lparr>rn_cpbuf := rn_cpbuf l\<rparr> = l" by simp
  show ?thesis
  proof (rule that [of "rn_cpbuf l" junk], unfold e)
    show "rename_checkpoint junk p l = Some l" using False y(2) by (auto simp: rename_checkpoint_def takes_checkpoint_def)
    show "rename_cps_at s (cps @ [junk]) l"
      by (rule rename_cps_step [OF assms(4,5)]) (use False assms(6) truncated(2) [OF y(1)] in simp_all)
  qed
qed

lemma rename_op_disabled:
  assumes "rename_at s cps l" "\<not> p_enable p" "decoded_ok p"
  shows "\<exists>l' y. rename_op junk p ids l = Some l' \<and> rename_at s (cps @ [junk]) l' \<and> rv_ops l' = rv_ops l @ [y]
    \<and> decode_rename_pack_t.truncate y = p \<and> rn_in l' = rn_in l \<and> rv_phy_req l' = rv_phy_req l"
proof -
  let ?y = "rename_receive p" and ?t = "l\<lparr>rv_ops := rv_ops l @ [rename_receive p]\<rparr>"
  note at = assms(1) [unfolded rename_at_def]
  have nw: "\<not> rn_writes p" "\<not> takes_checkpoint p" using assms(2) by (simp_all add: rn_writes_def takes_checkpoint_def)
  have "rename_table_at s ?t" using at nw by (simp add: rename_table_at_def tracks_def)
  moreover have "rename_rob_at s ?t" by (rule rename_rob_skip [of s l _ ?y]) (use at assms(2) in simp_all)
  moreover have "rename_cps_at s (cps @ [junk]) ?t"
    by (rule rename_cps_step [of s cps l _ ?y]) (use at nw in simp_all)
  moreover have "rename_ops_at s ?t"
    by (rule rename_ops_step [of s l _ ?y]) (use at assms(2,3) in \<open>simp_all add: reads_through_def\<close>)
  ultimately show ?thesis using assms(2)
    by (intro exI [of _ ?t] exI [of _ ?y]) (simp add: rename_op_def rename_at_def)
qed

lemma rename_op_step:
  assumes ok: "rat_running (rn_rat s)" "checkpoint_ok junk" and at: "rename_at s cps l"
    and p: "p_enable p" "decoded_ok p" "takes_checkpoint p \<Longrightarrow> p_checkpoint_id p < length (buffer (rn_cpbuf s))"
    and room: "\<not> fifo_is_full (rn_rob l)"
    and ids: "rn_writes p \<Longrightarrow> rv_used l < length ids" "ids = take k (rat_free (rn_rat s))"
  shows "\<exists>l' y c. rename_op junk p ids l = Some l' \<and> rename_at s (cps @ [c]) l' \<and> rv_ops l' = rv_ops l @ [y]
    \<and> decode_rename_pack_t.truncate y = p \<and> rn_in l' = rn_in l \<and> rv_phy_req l' = rv_phy_req l"
proof -
  let ?r = "rn_rat s" and ?ops = "rv_ops l"
  have tr: "tracks ?r ?ops (rn_rat l) (rv_cp l)" "rv_used l = length (rename_pairs ?ops)"
    and rob: "rename_rob_at s l" and cps: "rename_cps_at s cps l" and ops: "rename_ops_at s l"
    using at by (simp_all add: rename_at_def rename_table_at_def)
  from rename_dest_tracks [OF ok(1) tr p(1,2) ids] obtain d v c u where
    dest: "rename_dest p ids (rename_receive p, rob_item_zero, l) = Some
      ((rename_receive p)\<lparr>p_rd_phy := d\<rparr>,
       rob_item_zero\<lparr>old_phy_reg_id_valid := rn_writes p,
         old_phy_reg_id := if rn_writes p then the (rename_maps (rat_lookup ?r) ?ops (p_rd p)) else 0\<rparr>,
       l\<lparr>rn_rat := v, rv_cp := c, rv_used := u\<rparr>)"
    and all: "\<forall>y. decode_rename_pack_t.truncate y = p \<longrightarrow> p_rd_phy y = d \<longrightarrow>
         tracks ?r (?ops @ [y]) v c \<and> u = length (rename_pairs (?ops @ [y]))"
    by blast
  then have tracks: "tracks ?r (?ops @ [y]) v c" "u = length (rename_pairs (?ops @ [y]))"
    if "decode_rename_pack_t.truncate y = p" "p_rd_phy y = d" for y
    using that by blast+
  have t0: "tracks ?r (?ops @ [renamed p d 0 0 0]) v c" using tracks by simp
  obtain a b where src: "rename_source v (p_rs1_need_map p) (p_rs1 p) = Some a"
      "rename_source v (p_rs2_need_map p) (p_rs2 p) = Some b"
    and maps: "p_rs1_need_map p \<Longrightarrow> rename_maps (rat_lookup ?r) ?ops (p_rs1 p) = Some (rename_old (p_rs1 p) ?ops a)"
      "p_rs2_need_map p \<Longrightarrow> rename_maps (rat_lookup ?r) ?ops (p_rs2 p) = Some (rename_old (p_rs2 p) ?ops b)"
    using rename_sources [OF ok(1) t0 p(2)] by metis
  let ?k = "wptr (rn_rob l)"
  have dok: "\<forall>q \<in> set ?ops. decoded_ok q" using ops by (simp add: rename_ops_at_def)
  define y where "y = renamed p d ?k
     (if p_valid p \<and> p_rs1_need_map p then rename_old (p_rs1 p) ?ops a else a)
     (if p_valid p \<and> p_rs2_need_map p then rename_old (p_rs2 p) ?ops b else b)"
  have y: "p_valid p \<Longrightarrow> rename_feedback ?ops (renamed p d ?k a b) = y" "\<not> p_valid p \<Longrightarrow> renamed p d ?k a b = y"
    using rename_feedback_renamed [OF dok p(2), of d ?k a b] by (simp_all add: y_def)
  have yt: "decode_rename_pack_t.truncate y = p" "p_rd_phy y = d" "p_rob_id y = ?k" by (simp_all add: y_def)
  note yf = truncated [OF yt(1)]
  have through: "reads_through (rename_maps (rat_lookup ?r) ?ops) y"
    using maps p(1) yf by (simp add: reads_through_def) (simp add: y_def)
  obtain g where push: "rob_push (rename_entry (rename_maps (rat_lookup ?r) ?ops) y) (rn_rob l) = (True, ?k, g)"
    using fifo_push_not_full [OF room] by (simp add: rob_push_def ring_push_def)
  let ?t = "l\<lparr>rn_rat := v, rv_cp := c, rv_used := u, rn_rob := g, rv_ops := ?ops @ [y]\<rparr>"
  have t1: "tracks ?r (rv_ops ?t) v (rv_cp ?t)" using tracks(1) [OF yt(1,2)] by simp
  obtain b' c' where cp: "rename_checkpoint junk p ?t = Some (?t\<lparr>rn_cpbuf := b'\<rparr>)"
      "rename_cps_at s (cps @ [c']) (?t\<lparr>rn_cpbuf := b'\<rparr>)"
    by (rule rename_checkpoint_step [OF ok(1) t1 ok(2) cps _ _ yt(1) p(1,3)]) simp_all
  let ?u = "?t\<lparr>rn_cpbuf := b'\<rparr>"
  have item: "rename_item p d (rob_item_zero\<lparr>old_phy_reg_id_valid := rn_writes p,
      old_phy_reg_id := if rn_writes p then the (rename_maps (rat_lookup ?r) ?ops (p_rd p)) else 0\<rparr>)
    = rename_entry (rename_maps (rat_lookup ?r) ?ops) y"
    using yt yf by (simp add: rename_entry_def)
  have new: "ring_get_new_id (rn_rob l) = Some ?k" using room by (simp add: ring_get_new_id_def)
  have base: "(rename_receive p)\<lparr>p_rd_phy := d, p_rob_id := ?k, p_rs1_phy := a, p_rs2_phy := b\<rparr> = renamed p d ?k a b"
    by (simp add: renamed_def)
  have op: "rename_op junk p ids l = Some ?u"
    unfolding rename_op_def dest using p(1) new push cp(1) src
    by (cases "p_valid p") (simp_all add: item base y Let_def)
  have "rename_table_at s ?u" using tracks [OF yt(1,2)] by (simp add: rename_table_at_def)
  moreover have "rename_rob_at s ?u"
    using rename_rob_step [OF rob, of ?u y] p(1) yt(3) yf room push by simp
  moreover have "rename_ops_at s ?u"
    by (rule rename_ops_step [OF ops, of _ y]) (use p(2) yf through in simp_all)
  ultimately have "rename_at s (cps @ [c']) ?u" using cp(2) by (simp add: rename_at_def)
  with op yt(1) show ?thesis by (intro exI [of _ ?u] exI [of _ y] exI [of _ c']) simp
qed

lemma rename_at_frame [simp]:
  "rename_at s cps (l\<lparr>rn_in := f\<rparr>) = rename_at s cps l" "rename_at s cps (l\<lparr>rn_rev_pack := p\<rparr>) = rename_at s cps l"
  "rename_at s cps (l\<lparr>rn_rob_full := c\<rparr>) = rename_at s cps l" "rename_at s cps (l\<lparr>rn_phy_full := c\<rparr>) = rename_at s cps l"
  "rename_at s cps (l\<lparr>rv_phy_req := n\<rparr>) = rename_at s cps l" "rename_at s cps (l\<lparr>rv_rob_req := n\<rparr>) = rename_at s cps l"
  by (simp_all add: rename_at_def rename_table_at_def rename_rob_at_def rename_cps_at_def rename_ops_at_def)

text \<open>Nothing more can be renamed: the reorder buffer is full, or the next instruction needs a register
  and all free ones have been handed out.\<close>

definition rename_blocked :: "rename_stage \<Rightarrow> rob \<Rightarrow> decode_rename_pack_t fifo \<Rightarrow> rename_readreg_op_info_t list \<Rightarrow> bool" where
  "rename_blocked s b f ops = (length (ring_ids b) = qsize (rn_rob s)
     \<or> (\<exists>p ps. fifo_items f = p # ps \<and> rn_writes p \<and> length (rename_pairs ops) = length (rat_free (rn_rat s))))"

definition rename_turn :: "rename_stage \<Rightarrow> checkpoint_t list \<Rightarrow> rename_vars \<Rightarrow> bool" where
  "rename_turn s cps l = (rename_at s cps l \<and> fifo_inv (rn_in l) \<and> rv_phy_req l = length (rename_pairs (rv_ops l))
     \<and> fifo_items (rn_in s) = map decode_rename_pack_t.truncate (rv_ops l) @ fifo_items (rn_in l))"

lemma rename_turn_moves:
  assumes ok: "rename_ok s" "checkpoint_ok junk" and turn: "rename_turn s cps l"
    and p: "fifo_items (rn_in l) = p # ps" and room: "\<not> fifo_is_full (rn_rob l)"
    and free: "rn_writes p \<Longrightarrow> length (rename_pairs (rv_ops l)) < length (rat_free (rn_rat s))"
  shows "\<exists>l' c. rename_slots junk (Suc n) l = rename_slots junk n l' \<and> rename_turn s (cps @ [c]) l'
    \<and> length (rv_ops l') = Suc (length (rv_ops l))"
proof -
  let ?req = "length (rename_pairs (rv_ops l)) + (if rn_writes p then 1 else 0)"
  let ?ids = "take (max 1 ?req) (rat_free (rn_rat s))"
  have run: "rat_running (rn_rat s)" and at: "rename_at s cps l" and inv: "fifo_inv (rn_in l)"
    and req: "rv_phy_req l = length (rename_pairs (rv_ops l))"
    and items: "fifo_items (rn_in s) = map decode_rename_pack_t.truncate (rv_ops l) @ p # ps"
    using ok(1) turn p by (simp_all add: rename_ok_def rename_turn_def)
  have tr: "tracks (rn_rat s) (rv_ops l) (rn_rat l) (rv_cp l)" "rv_used l = length (rename_pairs (rv_ops l))"
    and rob: "fifo_inv (rn_rob l)" "\<not> pop_status_save (rn_rob l)"
    using at by (simp_all add: rename_at_def rename_table_at_def rename_rob_at_def)
  have dp: "decoded_ok p" "takes_checkpoint p \<Longrightarrow> p_checkpoint_id p < length (buffer (rn_cpbuf s))"
    using ok(1) items by (auto simp: rename_ok_def)
  have "length (rename_pairs (rv_ops l)) \<le> length (rat_free (rn_rat s))"
    using tr(1) unfolding tracks_def by (metis length_map length_take min.bounded_iff order_refl)
  then have enough: "?req \<le> length ?ids" "rn_writes p \<Longrightarrow> rv_used l < length ?ids"
    using free tr(2) by auto
  have ids: "rat_get_free_phy_id (rn_rat l) ?req = Some ?ids" by (rule tracks_free [OF run tr(1)])
  obtain f where f: "fifo_pop (rn_in l) = (Some p, f)" "fifo_inv f" "fifo_items f = ps"
    using pop_head [OF inv p] by metis
  let ?l = "l\<lparr>rv_phy_req := ?req, rv_rob_req := rv_rob_req l + (if p_enable p then 1 else 0), rn_in := f, rn_rev_pack := p\<rparr>"
  have "\<exists>l' y c. rename_op junk p ?ids ?l = Some l' \<and> rename_at s (cps @ [c]) l' \<and> rv_ops l' = rv_ops l @ [y]
    \<and> decode_rename_pack_t.truncate y = p \<and> rn_in l' = f \<and> rv_phy_req l' = ?req"
  proof (cases "p_enable p")
    case True
    from rename_op_step [OF run ok(2), of cps ?l p ?ids "max 1 ?req"] True at dp room enough(2)
    show ?thesis by auto
  next
    case False
    from rename_op_disabled [of s cps ?l p junk ?ids] False at dp(1) show ?thesis by auto
  qed
  then obtain l' y c where l': "rename_op junk p ?ids ?l = Some l'" "rename_at s (cps @ [c]) l'" "rv_ops l' = rv_ops l @ [y]"
    "decode_rename_pack_t.truncate y = p" "rn_in l' = f" "rv_phy_req l' = ?req" by blast
  have "rename_slots junk (Suc n) l = rename_slots junk n l'"
    using inv p f(1) ids enough(1) room room_not_full(1) [OF rob] l'(1) req
    by (simp add: fifo_front_eq del: One_nat_def split del: if_split)
  moreover have "rename_turn s (cps @ [c]) l'"
    using l' f items truncated(1) [OF l'(4)] by (simp add: rename_turn_def)
  ultimately show ?thesis using l'(3) by (intro exI [of _ l'] exI [of _ c]) simp
qed

lemma rename_turn_stops:
  assumes ok: "rename_ok s" and turn: "rename_turn s cps l" and p: "fifo_items (rn_in l) = p # ps"
    and stop: "fifo_is_full (rn_rob l) \<or> (rn_writes p \<and> \<not> length (rename_pairs (rv_ops l)) < length (rat_free (rn_rat s)))"
  shows "\<exists>l'. rename_slots junk (Suc n) l = Some l' \<and> rename_at s cps l' \<and> rn_in l' = rn_in l \<and> rv_ops l' = rv_ops l
    \<and> rename_blocked s (rn_rob l') (rn_in l') (rv_ops l')"
proof -
  let ?req = "length (rename_pairs (rv_ops l)) + (if rn_writes p then 1 else 0)"
  let ?ids = "take (max 1 ?req) (rat_free (rn_rat s))"
  have run: "rat_running (rn_rat s)" and at: "rename_at s cps l" and inv: "fifo_inv (rn_in l)"
    and req: "rv_phy_req l = length (rename_pairs (rv_ops l))"
    using ok(1) turn by (simp_all add: rename_ok_def rename_turn_def)
  have tr: "tracks (rn_rat s) (rv_ops l) (rn_rat l) (rv_cp l)"
    and rob: "fifo_inv (rn_rob l)" "\<not> pop_status_save (rn_rob l)" "qsize (rn_rob l) = qsize (rn_rob s)"
    using at by (simp_all add: rename_at_def rename_table_at_def rename_rob_at_def)
  have le: "length (rename_pairs (rv_ops l)) \<le> length (rat_free (rn_rat s))"
    using tr(1) unfolding tracks_def by (metis length_map length_take min.bounded_iff order_refl)
  have ids: "rat_get_free_phy_id (rn_rat l) ?req = Some ?ids" by (rule tracks_free [OF run tr(1)])
  have fail: "\<not> (?req \<le> length ?ids \<and> 1 \<le> ring_get_free_space (rn_rob l))"
    using stop room_not_full(1) [OF rob(1,2)] by auto
  have blocked: "rename_blocked s (rn_rob l) (rn_in l) (rv_ops l)"
    using stop ring_full_length [OF rob(1,2)] rob(3) p le by (auto simp: rename_blocked_def)
  let ?l = "l\<lparr>rn_rev_pack := p, rv_phy_req := ?req, rv_rob_req := rv_rob_req l + (if p_enable p then 1 else 0)\<rparr>"
  show ?thesis
  proof (cases "length ?ids < ?req")
    case True
    have "rename_slots junk (Suc n) l = Some (?l\<lparr>rn_phy_full := rn_phy_full l + 1, rn_rob_full := rn_rob_full l
             + (if ring_get_free_space (rn_rob l) < rv_rob_req ?l then 1 else 0)\<rparr>)"
      using True [folded not_le] True inv p ids req
      by (simp add: fifo_front_eq Let_def del: One_nat_def length_take not_le split del: if_split)
    with at blocked show ?thesis by simp
  next
    case False
    then have "rename_slots junk (Suc n) l = Some (?l\<lparr>rn_rob_full := rn_rob_full l + 1\<rparr>)"
      using fail inv p ids req by (simp add: fifo_front_eq Let_def del: One_nat_def length_take split del: if_split)
    with at blocked show ?thesis by simp
  qed
qed

lemma rename_slots_run:
  assumes ok: "rename_ok s" "checkpoint_ok junk" and "rename_turn s cps l"
  shows "\<exists>l' cps'. rename_slots junk n l = Some l' \<and> rename_at s cps' l' \<and> fifo_inv (rn_in l')
    \<and> fifo_items (rn_in s) = map decode_rename_pack_t.truncate (rv_ops l') @ fifo_items (rn_in l')
    \<and> length (rv_ops l') \<le> length (rv_ops l) + n
    \<and> (length (rv_ops l') = length (rv_ops l) + n \<or> fifo_items (rn_in l') = []
       \<or> rename_blocked s (rn_rob l') (rn_in l') (rv_ops l'))"
  using assms(3)
proof (induction n arbitrary: l cps)
  case 0
  then show ?case by (auto simp: rename_turn_def)
next
  case (Suc n)
  show ?case
  proof (cases "fifo_items (rn_in l)")
    case Nil
    then have "rename_slots junk (Suc n) l = Some l" using Suc.prems by (simp add: rename_turn_def fifo_front_eq)
    with Nil Suc.prems show ?thesis by (auto simp: rename_turn_def)
  next
    case (Cons p ps)
    show ?thesis
    proof (cases "fifo_is_full (rn_rob l) \<or> (rn_writes p \<and> \<not> length (rename_pairs (rv_ops l)) < length (rat_free (rn_rat s)))")
      case True
      from rename_turn_stops [OF ok(1) Suc.prems Cons True, of junk n] Suc.prems show ?thesis
        by (auto simp: rename_turn_def)
    next
      case False
      with rename_turn_moves [OF ok Suc.prems Cons, of n] obtain l1 c where
        l1: "rename_slots junk (Suc n) l = rename_slots junk n l1" "rename_turn s (cps @ [c]) l1"
          "length (rv_ops l1) = Suc (length (rv_ops l))" by blast
      from Suc.IH [OF l1(2)] show ?thesis unfolding l1(1,3) by simp
    qed
  qed
qed

lemma rename_turn_start:
  assumes "rename_ok s" "checkpoint_ok junk"
  shows "\<exists>cp. rat_save (rn_rat s) junk = Some cp
    \<and> rename_turn s [] (rename_stage.extend s (rename_vars.fields 0 0 0 cp []))"
proof -
  have r: "rat_inv (rn_rat s)" "phy_reg_num (rn_rat s) = PHY_REG_NUM" using assms(1) by (simp_all add: rename_ok_def rat_running_def)
  then obtain cp where cp: "rat_save (rn_rat s) junk = Some cp" using rat_save_eq [OF rat_inv_wf [OF r(1)] r(2) assms(2)] by blast
  note c = rat_save_captured [OF r assms(2) cp]
  show ?thesis
    by (intro exI [of _ cp] conjI cp)
      (use assms(1) c in \<open>simp add: rename_turn_def rename_at_def rename_table_at_def rename_rob_at_def rename_cps_at_def
         rename_ops_at_def tracks_def rename_ok_def rename_stage.defs rename_vars.defs\<close>)
qed

text \<open>One cycle of the stage.\<close>

lemma rename_run_group:
  assumes "rename_ok s" "checkpoint_ok junk" "\<not> cf_flushing cf"
  shows "\<exists>t l cps. rename_run junk False cf s = Some (fifo_is_empty (rn_in s), t) \<and> rename_at s cps l
    \<and> t = (rename_stage.truncate l)\<lparr>rn_out := port_set (rename_pack (rv_ops l)) (rn_out s)\<rparr> \<and> fifo_inv (rn_in t)
    \<and> fifo_items (rn_in s) = map decode_rename_pack_t.truncate (rv_ops l) @ fifo_items (rn_in t)
    \<and> length (rv_ops l) \<le> RENAME_WIDTH
    \<and> (length (rv_ops l) = RENAME_WIDTH \<or> fifo_items (rn_in t) = [] \<or> rename_blocked s (rn_rob t) (rn_in t) (rv_ops l))"
proof -
  from rename_turn_start [OF assms(1,2)] obtain cp where cp: "rat_save (rn_rat s) junk = Some cp"
    "rename_turn s [] (rename_stage.extend s (rename_vars.fields 0 0 0 cp []))" by blast
  have start: "rv_ops (rename_stage.extend s (rename_vars.fields 0 0 0 cp [])) = []"
    by (simp add: rename_stage.defs rename_vars.defs)
  from rename_slots_run [OF assms(1,2) cp(2), of RENAME_WIDTH] obtain l cps where
    l: "rename_slots junk RENAME_WIDTH (rename_stage.extend s (rename_vars.fields 0 0 0 cp [])) = Some l"
      "rename_at s cps l" "fifo_inv (rn_in l)"
      "fifo_items (rn_in s) = map decode_rename_pack_t.truncate (rv_ops l) @ fifo_items (rn_in l)"
      "length (rv_ops l) \<le> RENAME_WIDTH"
      "length (rv_ops l) = RENAME_WIDTH \<or> fifo_items (rn_in l) = [] \<or> rename_blocked s (rn_rob l) (rn_in l) (rv_ops l)"
    unfolding start by auto
  have o: "rn_out l = rn_out s" using l(2) by (simp add: rename_at_def rename_ops_at_def)
  let ?t = "(rename_stage.truncate l)\<lparr>rn_out := port_set (rename_pack (rv_ops l)) (rn_out s)\<rparr>"
  have "rename_run junk False cf s = Some (fifo_is_empty (rn_in s), ?t)"
    using assms(3) cp(1) l(1) o by (simp add: rename_run_def)
  with l show ?thesis
    by (intro exI [of _ ?t] exI [of _ l] exI [of _ cps]) (simp add: rename_stage.defs)
qed

text \<open>The requests of a group apply at the end of the cycle.\<close>

lemma rename_requests_apply:
  assumes "rat_inv v" "\<not> init_rat v" "\<forall>(a, p) \<in> set xs. 0 < a \<and> a < arch_reg_num v \<and> p < phy_reg_num v \<and> \<not> vld v p"
    and "distinct (map snd xs)"
  shows "\<exists>u. fold_opt rat_apply (map (\<lambda>(a, p). Rat_set_map a p) xs) v = Some u \<and> rat_inv u
    \<and> rat_lookup u = fold (\<lambda>(a, p) m. m(a \<mapsto> p)) xs (rat_lookup v)"
  using assms
proof (induction xs arbitrary: v)
  case (Cons x xs)
  obtain a p where x: "x = (a, p)" by (cases x)
  have g: "0 < a" "a < arch_reg_num v" "p < phy_reg_num v" "\<not> vld v p" using Cons.prems(3) by (simp_all add: x)
  let ?m = "rat_mapped a p v"
  have m: "rat_apply (Rat_set_map a p) v = Some ?m"
    using rat_set_map_eq [OF Cons.prems(1) g(3,1,2,4), of 0] by simp
  have inv: "rat_inv ?m" by (rule rat_mapped_inv [OF Cons.prems(1) g(3,1,2,4)])
  have "rat_lookup ?m = (rat_lookup v)(a \<mapsto> p)"
    using rat_mapped_lookup [OF Cons.prems(1) g(3,1,2,4)] by (simp add: fun_eq_iff)
  moreover have "0 < a' \<and> a' < arch_reg_num ?m \<and> p' < phy_reg_num ?m \<and> \<not> vld ?m p'" if "(a', p') \<in> set xs" for a' p'
  proof -
    have "p \<noteq> p'" using Cons.prems(4) that by (auto simp: x image_iff)
    moreover have "0 < a' \<and> a' < arch_reg_num v \<and> p' < phy_reg_num v \<and> \<not> vld v p'"
      using Cons.prems(3) that by (simp add: x split_beta) force
    ultimately show ?thesis using rat_mapped_bits(1) [OF Cons.prems(1) g(3)] by simp
  qed
  then have "\<forall>(a', p') \<in> set xs. 0 < a' \<and> a' < arch_reg_num ?m \<and> p' < phy_reg_num ?m \<and> \<not> vld ?m p'" by blast
  ultimately show ?case using Cons.IH [of ?m] inv Cons.prems(2,4) m by (auto simp: x)
qed simp

lemma tracks_sync:
  assumes "rat_running r" "tracks r ops v c" "\<forall>x \<in> set ops. decoded_ok x" "rat_request_q r = []"
  shows "\<exists>u. rat_sync v = Some u \<and> rat_inv u \<and> rat_lookup u = rename_maps (rat_lookup r) ops"
proof -
  obtain q where v: "v = r\<lparr>rat_request_q := q\<rparr>" and q: "q = map (\<lambda>(a, p). Rat_set_map a p) (rename_pairs ops)"
    and pairs: "map snd (rename_pairs ops) = take (length (rename_pairs ops)) (rat_free r)"
    using assms(2,4) by (auto simp: tracks_def)
  have i: "rat_inv v" "\<not> init_rat v" "rat_lookup v = rat_lookup r" "arch_reg_num v = ARCH_REG_NUM"
    using assms(1) by (simp_all add: v rat_running_def rat_queue_clear)
  have "0 < a \<and> a < ARCH_REG_NUM \<and> p < phy_reg_num v \<and> \<not> vld v p" if "(a, p) \<in> set (rename_pairs ops)" for a p
  proof -
    have "p \<in> set (rat_free r)" using that pairs by (metis image_eqI in_set_takeD list.set_map snd_conv)
    then have "p < phy_reg_num v \<and> \<not> vld v p" by (simp add: rat_free_def v)
    moreover have "0 < a \<and> a < ARCH_REG_NUM"
      using that assms(3) by (auto simp: rename_pairs_def rn_writes_def decoded_ok_def)
    ultimately show ?thesis by simp
  qed
  moreover have "distinct (map snd (rename_pairs ops))" unfolding pairs using rat_free_distinct by (rule distinct_take)
  ultimately obtain u where "fold_opt rat_apply q v = Some u" "rat_inv u"
      "rat_lookup u = fold (\<lambda>(a, p) m. m(a \<mapsto> p)) (rename_pairs ops) (rat_lookup v)"
    using rename_requests_apply [OF i(1,2), of "rename_pairs ops"] i(4) unfolding q by auto
  then show ?thesis using i(3) by (auto simp: rat_sync_def v rename_maps_def rat_queue_clear)
qed

section \<open>Register numbers from the decoder\<close>

definition regs_in_range :: "decode_rename_pack_t \<Rightarrow> bool" where
  "regs_in_range p = (p_rd p < ARCH_REG_NUM \<and> p_rs1 p < ARCH_REG_NUM \<and> p_rs2 p < ARCH_REG_NUM)"

lemma field_range: "unat (f_rd w) < ARCH_REG_NUM" "unat (f_rs1 w) < ARCH_REG_NUM" "unat (f_rs2 w) < ARCH_REG_NUM"
proof -
  have "unat (x AND 0x1f) < 32" for x :: u32
    using word_and_le1 [of x "0x1f"] by (simp add: word_le_nat_alt)
  then show "unat (f_rd w) < ARCH_REG_NUM" "unat (f_rs1 w) < ARCH_REG_NUM" "unat (f_rs2 w) < ARCH_REG_NUM"
    by (simp_all add: f_rd_def f_rs1_def f_rs2_def ARCH_REG_NUM_def)
qed

lemma switch_range: "decode_switch w p = Some q \<Longrightarrow> regs_in_range p \<Longrightarrow> regs_in_range q"
  by (auto simp: switch_defs bind_eq_Some_conv regs_in_range_def field_range split: if_splits)

lemma decode_pack_regs:
  assumes "decode_pack r = Some p"
  shows "decoded_ok p"
proof (cases "fd_enable r")
  case True
  let ?z = "decode_rename_zero\<lparr>p_enable := True, p_valid := \<not> fd_has_exception r, p_pc := fd_pc r\<rparr>"
  from assms True obtain q where q: "decode_switch (fd_value r) ?z = Some q"
    and p: "p_rd p = p_rd q" "p_rd_enable p = p_rd_enable q" "p_need_rename p = (p_rd_enable q \<and> p_rd q > 0)"
      "p_rs1 p = p_rs1 q" "p_rs1_need_map p = (p_arg1_src q = Arg_reg \<and> p_rs1 q > 0)"
      "p_rs2 p = p_rs2 q" "p_rs2_need_map p = (p_arg2_src q = Arg_reg \<and> p_rs2 q > 0)"
    by (auto simp: decode_pack_def bind_eq_Some_conv)
  have "regs_in_range q"
    by (rule switch_range [OF q]) (simp add: regs_in_range_def decode_rename_zero_def ARCH_REG_NUM_def)
  with p show ?thesis by (auto simp: decoded_ok_def regs_in_range_def)
next
  case False
  with assms have "p = decode_rename_zero" by (simp add: decode_pack_def)
  then show ?thesis by (simp add: decoded_ok_def decode_rename_zero_def ARCH_REG_NUM_def)
qed

section \<open>Correctness\<close>

text \<open>C20: renaming a group of instructions in one cycle is renaming them one after the other.  The stage
  takes instructions from its queue in order, until its four slots are used, the queue is empty, the
  reorder buffer is full or no free register is left; each source operand of a valid instruction is
  the register that its architectural register is mapped to by the instructions before it, older
  groups and its own; the destinations are distinct free registers; the reorder buffer receives an
  entry for every instruction in order, with the new register and the one it replaces; and the
  requests left for the end of the cycle make the alias table the mapping after the whole group.\<close>

theorem rename_run_renames:
  assumes "rename_ok s" "checkpoint_ok junk" "\<not> cf_flushing cf"
  shows "\<exists>t ops. rename_run junk False cf s = Some (fifo_is_empty (rn_in s), t)
    \<and> rn_out t = port_set (rename_pack ops) (rn_out s)
    \<and> fifo_items (rn_in s) = map decode_rename_pack_t.truncate ops @ fifo_items (rn_in t)
    \<and> length ops \<le> RENAME_WIDTH
    \<and> (length ops = RENAME_WIDTH \<or> fifo_items (rn_in t) = [] \<or> rename_blocked s (rn_rob t) (rn_in t) ops)
    \<and> (\<forall>i < length ops. reads_through (rename_maps (rat_lookup (rn_rat s)) (take i ops)) (ops ! i))
    \<and> map snd (rename_pairs ops) = take (length (rename_pairs ops)) (rat_free (rn_rat s))
    \<and> ring_ids (rn_rob t) = ring_ids (rn_rob s) @ map p_rob_id (filter p_enable ops)
    \<and> fifo_items (rn_rob t) = fifo_items (rn_rob s) @ rename_entries (rat_lookup (rn_rat s)) ops
    \<and> (rat_request_q (rn_rat s) = [] \<longrightarrow>
         (\<exists>u. rat_sync (rn_rat t) = Some u \<and> rat_inv u \<and> rat_lookup u = rename_maps (rat_lookup (rn_rat s)) ops))"
proof -
  from rename_run_group [OF assms] obtain t l cps where
    t: "rename_run junk False cf s = Some (fifo_is_empty (rn_in s), t)" and at: "rename_at s cps l"
    and tl: "t = (rename_stage.truncate l)\<lparr>rn_out := port_set (rename_pack (rv_ops l)) (rn_out s)\<rparr>"
    and more: "fifo_items (rn_in s) = map decode_rename_pack_t.truncate (rv_ops l) @ fifo_items (rn_in t)"
      "length (rv_ops l) \<le> RENAME_WIDTH"
      "length (rv_ops l) = RENAME_WIDTH \<or> fifo_items (rn_in t) = [] \<or> rename_blocked s (rn_rob t) (rn_in t) (rv_ops l)"
    by blast
  have f: "rn_rat t = rn_rat l" "rn_rob t = rn_rob l" "rn_out t = port_set (rename_pack (rv_ops l)) (rn_out s)"
    by (simp_all add: tl rename_stage.defs)
  have tr: "tracks (rn_rat s) (rv_ops l) (rn_rat l) (rv_cp l)" "\<forall>x \<in> set (rv_ops l). decoded_ok x"
    using at by (simp_all add: rename_at_def rename_table_at_def rename_ops_at_def)
  have "rat_request_q (rn_rat s) = [] \<Longrightarrow>
      \<exists>u. rat_sync (rn_rat t) = Some u \<and> rat_inv u \<and> rat_lookup u = rename_maps (rat_lookup (rn_rat s)) (rv_ops l)"
    using tracks_sync [OF _ tr] assms(1) by (simp add: f rename_ok_def)
  moreover have "\<forall>i < length (rv_ops l). reads_through (rename_maps (rat_lookup (rn_rat s)) (take i (rv_ops l))) (rv_ops l ! i)"
    using at by (simp add: rename_at_def rename_ops_at_def)
  moreover have "map snd (rename_pairs (rv_ops l)) = take (length (rename_pairs (rv_ops l))) (rat_free (rn_rat s))"
    using tr(1) by (simp add: tracks_def)
  moreover have "ring_ids (rn_rob t) = ring_ids (rn_rob s) @ map p_rob_id (filter p_enable (rv_ops l))"
      "fifo_items (rn_rob t) = fifo_items (rn_rob s) @ rename_entries (rat_lookup (rn_rat s)) (rv_ops l)"
    using at by (simp_all add: rename_at_def rename_rob_at_def f)
  ultimately show ?thesis using t more f(3) by (intro exI [of _ t] exI [of _ "rv_ops l"] conjI impI)
qed

text \<open>\<open>add x5, x6, x7\<close> followed by a predicted \<open>beq x5, x6\<close> in a fresh processor.\<close>

definition rename_add :: decode_rename_pack_t where
  "rename_add = decode_rename_zero\<lparr>p_enable := True, p_valid := True, p_rs1 := 6, p_rs1_need_map := True,
     p_rs2 := 7, p_rs2_need_map := True, p_rd := 5, p_rd_enable := True, p_need_rename := True\<rparr>"

definition rename_beq :: decode_rename_pack_t where
  "rename_beq = decode_rename_zero\<lparr>p_enable := True, p_valid := True, p_rs1 := 5, p_rs1_need_map := True,
     p_rs2 := 6, p_rs2_need_map := True, p_op := Op_beq, p_op_unit := Unit_bru, p_sub_op := Bru_op Bru_beq,
     p_predicted := True, p_checkpoint_id_valid := True, p_checkpoint_id := 1\<rparr>"

definition rename_demo :: rename_stage where
  "rename_demo = \<lparr>rn_in = snd (fifo_push rename_beq (snd (fifo_push rename_add (fifo_new 16 decode_rename_zero)))),
     rn_out = port_new (rename_pack []), rn_rat = rat_start\<lparr>rat_request_q := []\<rparr>, rn_rob = rob_new 64,
     rn_cpbuf = cpbuf_sample, rn_busy = False, rn_rev_pack = decode_rename_zero, rn_rob_full = 0, rn_phy_full = 0\<rparr>"

lemma rename_demo_items: "fifo_inv (rn_in rename_demo)" "fifo_items (rn_in rename_demo) = [rename_add, rename_beq]"
proof -
  let ?f = "fifo_new 16 decode_rename_zero" 
  obtain ok g where g: "fifo_push rename_add ?f = (ok, g)" by (cases "fifo_push rename_add ?f")
  obtain ok' h where h: "fifo_push rename_beq g = (ok', h)" by (cases "fifo_push rename_beq g")
  have f: "fifo_inv ?f" "fifo_items ?f = []" "fifo_occupied ?f = 0" "qsize ?f = 16"
    by (simp_all add: fifo_new_inv fifo_new_items) (simp_all add: fifo_new_def fifo_occupied_def ring_count_def)
  have p: "fifo_inv g" "fifo_items g = [rename_add]" "fifo_occupied g = 1" "qsize g = 16"
    using fifo_push_ok [OF f(1) _ g] f by simp_all
  have q: "fifo_inv h" "fifo_items h = [rename_add, rename_beq]"
    using fifo_push_ok [OF p(1) _ h] p by simp_all
  have "rn_in rename_demo = h" using g h by (simp add: rename_demo_def)
  with q show "fifo_inv (rn_in rename_demo)" "fifo_items (rn_in rename_demo) = [rename_add, rename_beq]" by simp_all
qed

lemma rename_demo_ok: "rename_ok rename_demo" "checkpoint_ok (cp_sample 0)" "\<not> cf_flushing commit_feedback_zero"
proof -
  have "decoded_ok rename_add" "decoded_ok rename_beq" "\<not> takes_checkpoint rename_add" "p_checkpoint_id rename_beq = 1"
    by (simp_all add: decoded_ok_def takes_checkpoint_def rename_add_def rename_beq_def decode_rename_zero_def ARCH_REG_NUM_def)
  moreover have "rat_running (rn_rat rename_demo)" "fifo_inv (rn_rob rename_demo)" "\<not> pop_status_save (rn_rob rename_demo)"
      "length (buffer (rn_cpbuf rename_demo)) = 2"
    using rat_start_props rob_new_inv [of 64]
    by (simp_all add: rename_demo_def rat_running_def rat_queue_clear cpbuf_sample_def)
  ultimately show "rename_ok rename_demo" using rename_demo_items by (simp add: rename_ok_def)
  show "checkpoint_ok (cp_sample 0)"
    by (simp add: checkpoint_ok_def cp_sample_def phy_reg_num_bitmap_size_def PHY_REG_NUM_def)
  show "\<not> cf_flushing commit_feedback_zero" by (rule no_flush)
qed

lemma rename_demo_state: "rat_lookup (rn_rat rename_demo) a = (if 1 \<le> a \<and> a < 32 then Some a else None)"
  "rat_request_q (rn_rat rename_demo) = []" "ring_ids (rn_rob rename_demo) = []" "qsize (rn_rob rename_demo) = 64"
  "fifo_items (rn_rob rename_demo) = []" "length (rat_free (rn_rat rename_demo)) > 1"
proof -
  show "rat_lookup (rn_rat rename_demo) a = (if 1 \<le> a \<and> a < 32 then Some a else None)"
    using rat_start_props(6) by (simp add: rename_demo_def rat_queue_clear)
  show "rat_request_q (rn_rat rename_demo) = []" by (simp add: rename_demo_def)
  show r: "ring_ids (rn_rob rename_demo) = []" "qsize (rn_rob rename_demo) = 64"
    using rob_new_inv [of 64] by (simp_all add: rename_demo_def)
  show "fifo_items (rn_rob rename_demo) = []"
    using r(1) rob_new_inv [of 64] by (simp add: ring_ids_items rename_demo_def)
  have "{40, 41} \<subseteq> set (rat_free (rn_rat rename_demo))"
    using rat_start_props(4) rat_start_props(7) [of 40] rat_start_props(7) [of 41]
    by (simp add: rat_free_def rename_demo_def PHY_REG_NUM_def)
  then have "card {40, 41 :: nat} \<le> card (set (rat_free (rn_rat rename_demo)))" by (intro card_mono) simp_all
  then show "length (rat_free (rn_rat rename_demo)) > 1" using card_length [of "rat_free (rn_rat rename_demo)"] by simp
qed

lemma rename_demo_moves:
  assumes "[rename_add, rename_beq] = map decode_rename_pack_t.truncate ops @ fifo_items (rn_in t)"
    and "length ops = RENAME_WIDTH \<or> fifo_items (rn_in t) = [] \<or> rename_blocked rename_demo (rn_rob t) (rn_in t) ops"
    and "ring_ids (rn_rob t) = ring_ids (rn_rob rename_demo) @ map p_rob_id (filter p_enable ops)"
  obtains x y where "ops = [x, y]" "decode_rename_pack_t.truncate x = rename_add" "decode_rename_pack_t.truncate y = rename_beq"
proof -
  have "length ops \<le> 2" using arg_cong [OF assms(1), of length] by simp
  moreover have "length ops \<noteq> 0 \<and> length ops \<noteq> 1"
  proof -
    have small: "length (rename_pairs ops) \<le> length ops" "length (filter p_enable ops) \<le> length ops"
      by (simp_all add: rename_pairs_def)
    have "False" if "length ops \<le> 1"
      using assms(2,3) that small arg_cong [OF assms(1), of length] rename_demo_state(3,4,6)
      by (auto simp: rename_blocked_def RENAME_WIDTH_def)
    then show ?thesis by fastforce
  qed
  ultimately have "length ops = 2" by linarith
  then obtain x y where "ops = [x, y]" by (auto simp: numeral_2_eq_2 length_Suc_conv)
  with assms(1) that show ?thesis by simp
qed

theorem rename_run_renames_witness:
  "\<exists>t x y u. rename_run (cp_sample 0) False commit_feedback_zero rename_demo = Some (False, t)
     \<and> rn_out t = port_set (rename_pack [x, y]) (rn_out rename_demo) \<and> p_rs1_phy x = 6 \<and> p_rs2_phy x = 7
     \<and> p_rs1_phy y = p_rd_phy x \<and> p_rs2_phy y = 6
     \<and> rat_sync (rn_rat t) = Some u \<and> rat_lookup u 5 = Some (p_rd_phy x)"
proof -
  note d = rename_demo_items rename_demo_state
  from rename_run_renames [OF rename_demo_ok] obtain t ops u where
    t: "rename_run (cp_sample 0) False commit_feedback_zero rename_demo = Some (fifo_is_empty (rn_in rename_demo), t)"
      "rn_out t = port_set (rename_pack ops) (rn_out rename_demo)"
    and items: "[rename_add, rename_beq] = map decode_rename_pack_t.truncate ops @ fifo_items (rn_in t)"
      "length ops = RENAME_WIDTH \<or> fifo_items (rn_in t) = [] \<or> rename_blocked rename_demo (rn_rob t) (rn_in t) ops"
      "ring_ids (rn_rob t) = ring_ids (rn_rob rename_demo) @ map p_rob_id (filter p_enable ops)"
    and reads: "\<forall>i < length ops. reads_through (rename_maps (rat_lookup (rn_rat rename_demo)) (take i ops)) (ops ! i)"
    and u: "rat_sync (rn_rat t) = Some u" "rat_lookup u = rename_maps (rat_lookup (rn_rat rename_demo)) ops"
    using d by auto
  obtain x y where xy: "ops = [x, y]" "decode_rename_pack_t.truncate x = rename_add" "decode_rename_pack_t.truncate y = rename_beq"
    by (rule rename_demo_moves [OF items])
  note f = truncated [OF xy(2)] truncated [OF xy(3)]
  have w: "rn_writes x" "\<not> rn_writes y" "p_rd x = 5" "p_enable x" "p_valid x" "p_enable y" "p_valid y"
      "p_rs1_need_map x" "p_rs2_need_map x" "p_rs1_need_map y" "p_rs2_need_map y"
      "p_rs1 x = 6" "p_rs2 x = 7" "p_rs1 y = 5" "p_rs2 y = 6"
    unfolding f by (simp_all add: rn_writes_def rename_add_def rename_beq_def decode_rename_zero_def)
  have m: "rename_maps m [x] = m(5 \<mapsto> p_rd_phy x)" "rename_maps m [x, y] = m(5 \<mapsto> p_rd_phy x)" for m
    using w by (simp_all add: rename_maps_def rename_pairs_def)
  have "reads_through (rat_lookup (rn_rat rename_demo)) x"
      "reads_through (rename_maps (rat_lookup (rn_rat rename_demo)) [x]) y"
    using reads xy(1) by (force, force)
  then have "p_rs1_phy x = 6 \<and> p_rs2_phy x = 7 \<and> p_rs1_phy y = p_rd_phy x \<and> p_rs2_phy y = 6"
    using w d(3) by (simp add: reads_through_def m)
  moreover have "fifo_is_empty (rn_in rename_demo) = False" using d(1,2) by (simp add: fifo_empty_iff)
  ultimately show ?thesis using t u xy(1) m(2) by auto
qed

text \<open>C21: each predicted branch of the group gets a checkpoint from which a misprediction can be undone.
  It keeps the histories saved when the branch was fetched, and restoring it, after the rest of the
  group and any number of later instructions have been renamed, brings back the mapping that holds
  just after the branch.\<close>

theorem rename_run_checkpoints:
  assumes "rename_ok s" "checkpoint_ok junk" "\<not> cf_flushing cf"
  shows "\<exists>t ops cps. rename_run junk False cf s = Some (fifo_is_empty (rn_in s), t)
    \<and> rn_out t = port_set (rename_pack ops) (rn_out s) \<and> length cps = length ops
    \<and> fifo_items (rn_in s) = map decode_rename_pack_t.truncate ops @ fifo_items (rn_in t)
    \<and> cpbuf_request_q (rn_cpbuf t) = cpbuf_request_q (rn_cpbuf s)
        @ map (\<lambda>(x, c). Ring_set_item (p_checkpoint_id x) c) (filter (\<lambda>(x, c). takes_checkpoint x) (zip ops cps))
    \<and> (\<forall>i < length ops. takes_checkpoint (ops ! i) \<longrightarrow>
         (\<exists>origin. cpbuf_get_item (rn_cpbuf s) (p_checkpoint_id (ops ! i)) = Some origin
            \<and> global_history (cps ! i) = global_history origin \<and> local_history (cps ! i) = local_history origin
            \<and> (\<forall>xs ps u. rat_rename_all (rename_pairs (take (Suc i) ops) @ xs) (rn_rat s) = Some (ps, u) \<longrightarrow>
                 (\<exists>v. rat_restore (cps ! i) u = Some v
                   \<and> rat_lookup v = rename_maps (rat_lookup (rn_rat s)) (take (Suc i) ops)))))"
proof -
  from rename_run_group [OF assms] obtain t l cps where
    t: "rename_run junk False cf s = Some (fifo_is_empty (rn_in s), t)" and at: "rename_at s cps l"
    and tl: "t = (rename_stage.truncate l)\<lparr>rn_out := port_set (rename_pack (rv_ops l)) (rn_out s)\<rparr>"
    and more: "fifo_items (rn_in s) = map decode_rename_pack_t.truncate (rv_ops l) @ fifo_items (rn_in t)"
    by blast
  have f: "rn_cpbuf t = rn_cpbuf l" "rn_out t = port_set (rename_pack (rv_ops l)) (rn_out s)"
    by (simp_all add: tl rename_stage.defs)
  have "length cps = length (rv_ops l)" "cpbuf_request_q (rn_cpbuf t) = cpbuf_request_q (rn_cpbuf s)
        @ map (\<lambda>(x, c). Ring_set_item (p_checkpoint_id x) c) (filter (\<lambda>(x, c). takes_checkpoint x) (zip (rv_ops l) cps))"
    using at by (simp_all add: rename_at_def rename_cps_at_def f(1))
  moreover have "\<forall>i < length (rv_ops l). takes_checkpoint (rv_ops l ! i) \<longrightarrow> rename_cp_for s (rv_ops l) i (cps ! i)"
    using at by (simp add: rename_at_def rename_cps_at_def)
  note this [unfolded rename_cp_for_def cp_restores_def]
  ultimately show ?thesis using t more f(2)
    by (intro exI [of _ t] exI [of _ "rv_ops l"] exI [of _ cps] conjI)
qed

lemma rename_demo_drained:
  assumes "rename_run (cp_sample 0) False commit_feedback_zero rename_demo = Some (i, t)"
  shows "\<not> i" "fifo_items (rn_in t) = []"
proof -
  have e: "fifo_is_empty (rn_in rename_demo) = False" using rename_demo_items by (simp add: fifo_empty_iff)
  from rename_run_group [OF rename_demo_ok] assms obtain l cps where at: "rename_at rename_demo cps l"
    and t: "t = (rename_stage.truncate l)\<lparr>rn_out := port_set (rename_pack (rv_ops l)) (rn_out rename_demo)\<rparr>"
    and items: "[rename_add, rename_beq] = map decode_rename_pack_t.truncate (rv_ops l) @ fifo_items (rn_in t)"
      "length (rv_ops l) = RENAME_WIDTH \<or> fifo_items (rn_in t) = [] \<or> rename_blocked rename_demo (rn_rob t) (rn_in t) (rv_ops l)"
    and i: "i = fifo_is_empty (rn_in rename_demo)"
    using rename_demo_items(2) by auto
  have "ring_ids (rn_rob t) = ring_ids (rn_rob rename_demo) @ map p_rob_id (filter p_enable (rv_ops l))"
    using at by (simp add: rename_at_def rename_rob_at_def t rename_stage.defs)
  from rename_demo_moves [OF items this] obtain x y where "rv_ops l = [x, y]" by metis
  then show "\<not> i" "fifo_items (rn_in t) = []" using items(1) i e by simp_all
qed

theorem rename_run_checkpoints_witness:
  "\<exists>t x y d. rename_run (cp_sample 0) False commit_feedback_zero rename_demo = Some (False, t)
     \<and> rn_out t = port_set (rename_pack [x, y]) (rn_out rename_demo) \<and> takes_checkpoint y
     \<and> cpbuf_request_q (rn_cpbuf t) = cpbuf_request_q cpbuf_sample @ [Ring_set_item 1 d] \<and> global_history d = 2"
proof -
  from rename_run_checkpoints [OF rename_demo_ok] obtain t ops cps where
    t: "rename_run (cp_sample 0) False commit_feedback_zero rename_demo = Some (fifo_is_empty (rn_in rename_demo), t)"
      "rn_out t = port_set (rename_pack ops) (rn_out rename_demo)" "length cps = length ops"
    and items: "fifo_items (rn_in rename_demo) = map decode_rename_pack_t.truncate ops @ fifo_items (rn_in t)"
    and q: "cpbuf_request_q (rn_cpbuf t) = cpbuf_request_q (rn_cpbuf rename_demo)
        @ map (\<lambda>(x, c). Ring_set_item (p_checkpoint_id x) c) (filter (\<lambda>(x, c). takes_checkpoint x) (zip ops cps))"
    and cp: "\<forall>i < length ops. takes_checkpoint (ops ! i) \<longrightarrow>
         (\<exists>origin. cpbuf_get_item (rn_cpbuf rename_demo) (p_checkpoint_id (ops ! i)) = Some origin
            \<and> global_history (cps ! i) = global_history origin)"
    by blast
  note e = rename_demo_drained [OF t(1)]
  have "map decode_rename_pack_t.truncate ops = [rename_add, rename_beq]" using items e rename_demo_items(2) by simp
  then obtain x y where xy: "ops = [x, y]" "decode_rename_pack_t.truncate x = rename_add"
      "decode_rename_pack_t.truncate y = rename_beq" by auto
  then obtain c d where cd: "cps = [c, d]" using t(3) by (auto simp: numeral_2_eq_2 length_Suc_conv)
  have w: "\<not> takes_checkpoint x" "takes_checkpoint y" "p_checkpoint_id y = 1"
    using truncated(2,7) [OF xy(2)] truncated(2,7) [OF xy(3)]
    by (simp_all add: takes_checkpoint_def rename_add_def rename_beq_def decode_rename_zero_def)
  have b: "rn_cpbuf rename_demo = cpbuf_sample" by (simp add: rename_demo_def)
  have "cpbuf_get_item cpbuf_sample 1 = Some (cp_sample 2)"
    by (simp add: cpbuf_get_item_def ring_get_item_def cpbuf_sample_def)
  then have "global_history d = 2" using cp w xy(1) cd b by (force simp: cp_sample_def)
  with t e q w xy(1) cd b show ?thesis by auto
qed

end
