(* ===== verification/Commit.thy ===== *)
theory Commit
  imports Rob Rat Checkpoint Regfile Write_Back Interrupt Branch_Predictor
begin

text \<open>
  \<open>pipeline/commit.cpp\<close>: the commit stage.  In its normal state it retires up to four finished
  instructions from the old end of the reorder buffer and marks the instructions finished that the
  write-back stage reports; an exception or an interrupt makes it walk the reorder buffer back from
  the young end, one entry per cycle, and a wrongly predicted branch restores its checkpoint.  All
  changes of the alias table, the register file, the control registers and the reorder buffer's
  entries are requests that the end of the cycle replays; the branch predictor, the flushes and the
  counters change at once.
\<close>

datatype state_t = St_normal | St_flush | St_interrupt_flush

text \<open>The members of the stage, the components it points to, and the branch counters of \<open>main.cpp\<close>.\<close>

record commit_stage =
  cm_in :: "execute_wb_pack_t list port"
  cm_rat :: rat
  cm_rob :: rob
  cm_csr :: csrfile
  cm_regfile :: "u32 regfile"
  cm_cpbuf :: checkpoint_buffer
  cm_bp :: branch_predictor
  cm_int :: interrupt_interface
  cm_state :: state_t
  cm_item :: rob_item_t
  cm_item_id :: nat
  cm_restore_id :: nat
  cm_interrupt_pc :: u32
  cm_interrupt_id :: riscv_interrupt_t
  cm_branch_num :: u64
  cm_branch_predicted :: u64
  cm_branch_hit :: u64
  cm_branch_miss :: u64

definition commit_reset :: "commit_stage \<Rightarrow> commit_stage" where
  "commit_reset s = s\<lparr>cm_state := St_normal, cm_interrupt_pc := 0, cm_interrupt_id := machine_external\<rparr>"

text \<open>The local variables \<open>feedback_pack\<close> and \<open>need_flush\<close> of \<open>run\<close>.\<close>

record commit_vars = commit_stage +
  cv_fb :: commit_feedback_pack_t
  cv_need_flush :: bool

section \<open>Retiring one instruction\<close>

definition commit_announce :: "nat \<Rightarrow> nat \<Rightarrow> bool \<times> nat \<Rightarrow> commit_vars \<Rightarrow> commit_vars" where
  "commit_announce first i = (\<lambda>(ok, next_id) l. l\<lparr>cv_fb := (cv_fb l)
     \<lparr>cf_next_handle_rob_id := next_id, cf_next_handle_rob_id_valid := (ok \<and> next_id \<noteq> first),
      cf_committed_rob_id_valid := (cf_committed_rob_id_valid (cv_fb l))[i := True],
      cf_committed_rob_id := (cf_committed_rob_id (cv_fb l))[i := cm_item_id l]\<rparr>\<rparr>)"

definition commit_exception :: "commit_vars \<Rightarrow> commit_vars option" where
  "commit_exception l = do {
     t \<leftarrow> ring_get_tail_id (cm_rob l);
     Some (l\<lparr>cm_restore_id := t, cv_fb := (cv_fb l)\<lparr>cf_enable := True, cf_flush := True\<rparr>,
             cm_state := St_flush, cv_need_flush := True\<rparr>) }"

text \<open>The old register is released and loses its value, the new one becomes the committed one; a
  control register gets its new value.\<close>

definition commit_retire :: "rob_item_t \<Rightarrow> commit_vars \<Rightarrow> commit_vars" where
  "commit_retire item l =
     (let l = l\<lparr>cm_rob := rob_pop_sync (cm_rob l)\<rparr>;
          l = (if old_phy_reg_id_valid item
               then l\<lparr>cm_rat := rat_commit_map_sync (new_phy_reg_id item) (rat_release_map_sync (old_phy_reg_id item) (cm_rat l)),
                      cm_regfile := regfile_write_sync (old_phy_reg_id item) 0 False (cm_regfile l)\<rparr>
               else l);
          l = l\<lparr>cm_rob := rob_add_commit_num 1 (rob_set_committed True (cm_rob l))\<rparr>
      in if ri_csr_newvalue_valid item
         then l\<lparr>cm_csr := csrfile_write_sync (ri_csr_addr item) (ri_csr_newvalue item) (cm_csr l)\<rparr>
         else l)"

section \<open>Branches\<close>

definition commit_mret :: "commit_vars \<Rightarrow> commit_vars option" where
  "commit_mret l = do {
     v \<leftarrow> csrfile_read_sys (cm_csr l) CSR_MSTATUS;
     Some (l\<lparr>cm_csr := csrfile_write_sys_sync CSR_MSTATUS (mstatus_set_mie (mstatus_get_mpie v) v) (cm_csr l)\<rparr>) }"

definition commit_hit :: "rob_item_t \<Rightarrow> bool" where
  "commit_hit item = (ri_bru_jump item = ri_predicted_jump item
     \<and> (ri_bru_next_pc item = ri_predicted_next_pc item \<or> \<not> ri_predicted_jump item))"

text \<open>The registers visible in the checkpoint are the valid ones after the restoration; \<open>_cnt\<close> counts
  them.\<close>

definition commit_scan_step ::
  "rat \<Rightarrow> u32 regfile \<Rightarrow> nat \<Rightarrow> checkpoint_t \<times> nat \<Rightarrow> (checkpoint_t \<times> nat) option" where
  "commit_scan_step r f i = (\<lambda>(cp, cnt). do {
     v \<leftarrow> rat_cp_get_visible r cp i;
     if \<not> v then do {
       cp \<leftarrow> rat_cp_set_valid r cp i False;
       cp \<leftarrow> regfile_cp_set_data_valid f cp i False;
       Some (cp, cnt) }
     else do {
       cp \<leftarrow> regfile_cp_set_data_valid f cp i True;
       Some (cp, cnt + 1) } })"

definition commit_recover_cp :: "rat \<Rightarrow> u32 regfile \<Rightarrow> rob_item_t \<Rightarrow> checkpoint_t \<Rightarrow> checkpoint_t option" where
  "commit_recover_cp r f item cp = do {
     cp \<leftarrow> (if old_phy_reg_id_valid item then rat_cp_release_map r cp (old_phy_reg_id item) else Some cp);
     (cp, cnt) \<leftarrow> fold_opt (commit_scan_step r f) [0..<PHY_REG_NUM] (cp, 0);
     cassert (cnt = 31);
     Some cp }"

definition commit_target :: "rob_item_t \<Rightarrow> u32" where
  "commit_target item = (if ri_bru_jump item then ri_bru_next_pc item else ri_pc item + 4)"

definition commit_miss :: "rob_item_t \<Rightarrow> commit_vars \<Rightarrow> commit_vars option" where
  "commit_miss item l = do {
     bp \<leftarrow> bp_update_prediction (ri_pc item) (ri_inst_value item) (ri_bru_jump item) (ri_bru_next_pc item) False (cm_bp l);
     cp \<leftarrow> cpbuf_get_item (cm_cpbuf l) (ri_checkpoint_id item);
     cp \<leftarrow> commit_recover_cp (cm_rat l) (cm_regfile l) item cp;
     Some (l\<lparr>cm_branch_miss := cm_branch_miss l + 1, cm_bp := bp,
       cm_rat := rat_restore_sync cp (cm_rat l), cm_regfile := regfile_restore_sync cp (cm_regfile l),
       cv_fb := (cv_fb l)\<lparr>cf_enable := True, cf_flush := True, cf_jump_enable := True,
         cf_jump := ri_bru_jump item, cf_next_pc := commit_target item\<rparr>,
       cm_rob := fifo_flush (cm_rob l), cm_cpbuf := fifo_flush (cm_cpbuf l), cv_need_flush := True\<rparr>) }"

definition commit_branch :: "rob_item_t \<Rightarrow> commit_vars \<Rightarrow> commit_vars option" where
  "commit_branch item l = do {
     let l = l\<lparr>cm_branch_num := cm_branch_num l + 1\<rparr>;
     l \<leftarrow> (if ri_is_mret item then commit_mret l else Some l);
     if ri_predicted item then do {
       let l = l\<lparr>cm_branch_predicted := cm_branch_predicted l + 1\<rparr>;
       if commit_hit item then do {
         bp \<leftarrow> bp_update_prediction (ri_pc item) (ri_inst_value item) (ri_bru_jump item) (ri_bru_next_pc item) True (cm_bp l);
         Some (l\<lparr>cm_branch_hit := cm_branch_hit l + 1, cm_bp := bp, cm_cpbuf := cpbuf_pop_sync (cm_cpbuf l)\<rparr>) }
       else if ri_checkpoint_id_valid item then commit_miss item l
       else None }
     else Some (l\<lparr>cv_fb := (cv_fb l)\<lparr>cf_enable := True, cf_jump_enable := True,
       cf_jump := ri_bru_jump item, cf_next_pc := commit_target item\<rparr>\<rparr>) }"

section \<open>The retiring loop\<close>

text \<open>One turn; the boolean says whether the loop goes on.\<close>

definition commit_slot :: "nat \<Rightarrow> nat \<Rightarrow> commit_vars \<Rightarrow> (bool \<times> commit_vars) option" where
  "commit_slot first i l = do {
     item \<leftarrow> rob_get_item (cm_rob l) (cm_item_id l);
     let l = l\<lparr>cm_item := item\<rparr>;
     if ri_finish item then do {
       n \<leftarrow> ring_get_next_id (cm_rob l) (cm_item_id l);
       let l = commit_announce first i n l;
       if ri_has_exception item then do { l \<leftarrow> commit_exception l; Some (False, l) }
       else if ri_bru_op item then do { l \<leftarrow> commit_branch item (commit_retire item l); Some (False, l) }
       else Some (True, commit_retire item l) }
     else Some (False, l) }"

fun commit_slots :: "nat \<Rightarrow> nat list \<Rightarrow> commit_vars \<Rightarrow> commit_vars option" where
  "commit_slots first [] l = Some l"
| "commit_slots first (i # js) l = do {
     (more, l) \<leftarrow> commit_slot first i l;
     if more then do {
       (ok, next_id) \<leftarrow> ring_get_next_id (cm_rob l) (cm_item_id l);
       let l = l\<lparr>cm_item_id := next_id\<rparr>;
       if \<not> ok \<or> next_id = first then Some l else commit_slots first js l }
     else Some l }"

definition commit_interrupt :: "riscv_interrupt_t \<Rightarrow> commit_vars \<Rightarrow> commit_vars option" where
  "commit_interrupt cause l = do {
     t \<leftarrow> ring_get_tail_id (cm_rob l);
     Some (l\<lparr>cm_interrupt_id := cause, cm_interrupt_pc := ri_pc (cm_item l), cm_restore_id := t,
       cv_fb := (cv_fb l)\<lparr>cf_enable := True, cf_flush := True\<rparr>,
       cm_state := St_interrupt_flush, cv_need_flush := True\<rparr>) }"

definition commit_output :: "commit_vars \<Rightarrow> commit_vars option" where
  "commit_output l =
     (if \<not> fifo_is_empty (cm_rob l) then do {
        first \<leftarrow> ring_get_front_id (cm_rob l);
        item \<leftarrow> rob_get_item (cm_rob l) first;
        let l = l\<lparr>cm_item_id := first, cm_item := item, cv_fb := (cv_fb l)\<lparr>cf_enable := True,
          cf_next_handle_rob_id := first, cf_next_handle_rob_id_valid := True\<rparr>\<rparr>;
        cause \<leftarrow> int_get_cause (cm_csr l) (cm_int l);
        case cause of Some c \<Rightarrow> commit_interrupt c l | None \<Rightarrow> commit_slots first [0..<COMMIT_WIDTH] l }
      else Some l)"

section \<open>Results of the execution units\<close>

definition commit_finish :: "execute_wb_pack_t \<Rightarrow> rob_item_t \<Rightarrow> rob_item_t" where
  "commit_finish p item = item\<lparr>ri_finish := True, ri_has_exception := p_has_exception p,
     ri_exception_id := p_exception_id p, ri_exception_value := p_exception_value p,
     ri_predicted := p_predicted p, ri_predicted_jump := p_predicted_jump p,
     ri_predicted_next_pc := p_predicted_next_pc p, ri_checkpoint_id_valid := p_checkpoint_id_valid p,
     ri_checkpoint_id := p_checkpoint_id p, ri_bru_op := (p_op_unit p = Unit_bru),
     ri_bru_jump := p_bru_jump p, ri_bru_next_pc := p_bru_next_pc p,
     ri_csr_newvalue := p_csr_newvalue p, ri_csr_newvalue_valid := p_csr_newvalue_valid p\<rparr>"

definition commit_input_one :: "execute_wb_pack_t \<Rightarrow> rob \<Rightarrow> rob option" where
  "commit_input_one p r =
     (if p_enable p then do {
        item \<leftarrow> rob_get_item r (p_rob_id p);
        Some (rob_set_item_sync (p_rob_id p) (commit_finish p item) r) }
      else Some r)"

definition commit_input :: "commit_vars \<Rightarrow> commit_vars option" where
  "commit_input l =
     (if \<not> cv_need_flush l then do {
        r \<leftarrow> fold_opt commit_input_one (port_get (cm_in l)) (cm_rob l);
        Some (l\<lparr>cm_rob := r\<rparr>) }
      else Some l)"

section \<open>Walking back\<close>

definition commit_undo :: "commit_vars \<Rightarrow> commit_vars option" where
  "commit_undo l = do {
     item \<leftarrow> rob_get_item (cm_rob l) (cm_restore_id l);
     Some (if old_phy_reg_id_valid item
           then l\<lparr>cm_rat := rat_restore_map_sync (new_phy_reg_id item) (old_phy_reg_id item) (cm_rat l),
                  cm_regfile := regfile_write_sync (new_phy_reg_id item) 0 False (cm_regfile l)\<rparr>
           else l) }"

text \<open>The trace asks for the predecessor first, so a walk outside the live entries aborts there.\<close>

definition commit_step_back :: "commit_vars \<Rightarrow> (bool \<times> commit_vars) option" where
  "commit_step_back l = do {
     (ok, prev_id) \<leftarrow> ring_get_prev_id (cm_rob l) (cm_restore_id l);
     Some (if cm_restore_id l \<noteq> cm_item_id l
           then (ok, l\<lparr>cm_restore_id := prev_id, cv_fb := if ok then (cv_fb l)\<lparr>cf_enable := True, cf_flush := True\<rparr> else cv_fb l\<rparr>)
           else (False, l)) }"

definition commit_trap :: "u32 \<Rightarrow> u32 \<Rightarrow> u32 \<Rightarrow> commit_vars \<Rightarrow> commit_vars" where
  "commit_trap pc tval cause l = l\<lparr>cm_rob := fifo_flush (cm_rob l),
     cm_csr := csrfile_write_sys_sync CSR_MCAUSE cause
       (csrfile_write_sys_sync CSR_MTVAL tval (csrfile_write_sys_sync CSR_MEPC pc (cm_csr l)))\<rparr>"

definition commit_resume :: "commit_vars \<Rightarrow> commit_vars option" where
  "commit_resume l = do {
     v \<leftarrow> csrfile_read_sys (cm_csr l) CSR_MTVEC;
     Some (l\<lparr>cv_fb := (cv_fb l)\<lparr>cf_enable := True, cf_has_exception := True, cf_exception_pc := v, cf_flush := True\<rparr>,
       cm_state := St_normal, cm_rob := rob_add_commit_num 1 (rob_set_committed True (cm_rob l))\<rparr>) }"

definition commit_flush :: "commit_vars \<Rightarrow> commit_vars option" where
  "commit_flush l = do {
     l \<leftarrow> commit_undo l;
     (more, l) \<leftarrow> commit_step_back l;
     if more then Some l
     else commit_resume (commit_trap (ri_pc (cm_item l)) (ri_exception_value (cm_item l))
            (exception_code (ri_exception_id (cm_item l))) l) }"

definition commit_interrupt_flush :: "commit_vars \<Rightarrow> commit_vars option" where
  "commit_interrupt_flush l = do {
     l \<leftarrow> commit_undo l;
     (more, l) \<leftarrow> commit_step_back l;
     if more then Some l
     else do {
       let l = commit_trap (cm_interrupt_pc l) 0 (0x80000000 OR interrupt_code (cm_interrupt_id l)) l;
       v \<leftarrow> csrfile_read_sys (cm_csr l) CSR_MSTATUS;
       let v = mstatus_set_mie False (mstatus_set_mpie (mstatus_get_mie v) v);
       commit_resume (l\<lparr>cm_csr := csrfile_write_sys_sync CSR_MSTATUS v (cm_csr l),
         cm_int := int_set_ack_sync (cm_interrupt_id l) (cm_int l)\<rparr>) } }"

section \<open>The stage\<close>

definition commit_run :: "commit_stage \<Rightarrow> (commit_feedback_pack_t \<times> commit_stage) option" where
  "commit_run s = do {
     let l = commit_stage.extend s (commit_vars.fields commit_feedback_zero False);
     l \<leftarrow> (case cm_state s of
             St_normal \<Rightarrow> do { l \<leftarrow> commit_output l; commit_input l }
           | St_flush \<Rightarrow> commit_flush l
           | St_interrupt_flush \<Rightarrow> commit_interrupt_flush l);
     Some (cv_fb l, commit_stage.truncate l) }"

text \<open>The end of the cycle for the components the stage writes to, in the order of \<open>run\<close> of
  \<open>main.cpp\<close>.\<close>

definition commit_sync :: "commit_stage \<Rightarrow> commit_stage option" where
  "commit_sync s = do {
     r \<leftarrow> rat_sync (cm_rat s);
     b \<leftarrow> rob_sync (cm_rob s);
     f \<leftarrow> regfile_sync (cm_regfile s);
     c \<leftarrow> csrfile_sync (cm_csr s);
     p \<leftarrow> cpbuf_sync (cm_cpbuf s);
     h \<leftarrow> bp_sync (cm_bp s);
     n \<leftarrow> int_sync (cm_int s);
     Some (s\<lparr>cm_rat := r, cm_rob := b, cm_regfile := f, cm_csr := c, cm_cpbuf := p, cm_bp := h, cm_int := n\<rparr>) }"

definition commit_cycle :: "commit_stage \<Rightarrow> (commit_feedback_pack_t \<times> commit_stage) option" where
  "commit_cycle s = do { (fb, s) \<leftarrow> commit_run s; s \<leftarrow> commit_sync s; Some (fb, s) }"

end
