(* ===== verification/In_Flight.thy ===== *)
theory In_Flight
  imports Rename
begin

text \<open>
  What the alias table and the reorder buffer promise each other.  The table is described by the
  mapping \<open>m\<close> of the committed instructions and the renamings \<open>xs\<close> of the uncommitted ones, oldest
  first; the entries of the reorder buffer record for each of these renamings the new register and
  the one it replaced.  Renaming appends to \<open>xs\<close>, retiring moves its head into \<open>m\<close>, walking back
  drops its last element, and restoring a branch's checkpoint drops everything behind the branch.
  No register is lost on the way: the valid registers are exactly those of \<open>m\<close> and \<open>xs\<close>.
\<close>

section \<open>The abstract state of the table\<close>

definition pending :: "(nat \<Rightarrow> nat option) \<Rightarrow> (nat \<times> nat) list \<Rightarrow> nat \<Rightarrow> nat option" where
  "pending m xs = fold (\<lambda>(a, p) m. m(a \<mapsto> p)) xs m"

definition pend_ok :: "(nat \<Rightarrow> nat option) \<Rightarrow> rat \<Rightarrow> nat \<Rightarrow> nat \<Rightarrow> bool" where
  "pend_ok m r a p = (0 < a \<and> a < ARCH_REG_NUM \<and> p < PHY_REG_NUM \<and> phy_map_table r ! p = a \<and> \<not> cmt r p \<and> Some p \<notin> range m)"

definition rat_holds :: "(nat \<Rightarrow> nat option) \<Rightarrow> (nat \<times> nat) list \<Rightarrow> rat \<Rightarrow> bool" where
  "rat_holds m xs r = (rat_running r \<and> dom m = {0 <..< ARCH_REG_NUM} \<and> distinct (map snd xs)
     \<and> rat_lookup r = pending m xs
     \<and> (\<forall>a p. (a, p) \<in> set xs \<longrightarrow> pend_ok m r a p)
     \<and> (\<forall>a p. m a = Some p \<longrightarrow> p < PHY_REG_NUM \<and> phy_map_table r ! p = a)
     \<and> (\<forall>p < PHY_REG_NUM. vld r p \<longleftrightarrow> Some p \<in> range m \<or> p \<in> snd ` set xs))"

fun rob_records :: "(nat \<Rightarrow> nat option) \<Rightarrow> rob_item_t list \<Rightarrow> (nat \<times> nat) list \<Rightarrow> bool" where
  "rob_records m [] xs = (xs = [])"
| "rob_records m (x # items) xs =
     (if old_phy_reg_id_valid x
      then (case xs of [] \<Rightarrow> False
            | (a, p) # ys \<Rightarrow> p = new_phy_reg_id x \<and> m a = Some (old_phy_reg_id x) \<and> rob_records (m(a \<mapsto> p)) items ys)
      else rob_records m items xs)"

definition in_flight :: "(nat \<Rightarrow> nat option) \<Rightarrow> rob_item_t list \<Rightarrow> rat \<Rightarrow> bool" where
  "in_flight m items r = (\<exists>xs. rat_holds m xs r \<and> rob_records m items xs)"

lemma pending_simps [simp]:
  "pending m [] = m"
  "pending m ((a, p) # xs) = pending (m(a \<mapsto> p)) xs"
  "pending m (xs @ ys) = pending (pending m xs) ys"
  by (simp_all add: pending_def)

lemma pending_cases:
  "pending m xs a = Some p \<Longrightarrow> (m a = Some p \<and> (\<forall>q. (a, q) \<notin> set xs)) \<or> (a, p) \<in> set xs"
  by (induction xs rule: rev_induct) (auto split: if_splits prod.splits)

lemma rat_holds_fields:
  assumes "rat_holds m xs r"
  shows "rat_inv r" "rat_wf r" "\<not> init_rat r" "phy_reg_num r = PHY_REG_NUM" "arch_reg_num r = ARCH_REG_NUM"
  using assms rat_inv_wf by (auto simp: rat_holds_def rat_running_def)

lemma rat_holds_queue [simp]: "rat_holds m xs (r\<lparr>rat_request_q := q\<rparr>) = rat_holds m xs r"
proof -
  have "rat_lookup (r\<lparr>rat_request_q := q\<rparr>) = rat_lookup r" "rat_running (r\<lparr>rat_request_q := q\<rparr>) = rat_running r"
    by (simp_all add: rat_queue_clear rat_running_def fun_eq_iff)
  then show ?thesis by (simp add: rat_holds_def pend_ok_def)
qed

lemma rat_holds_pend:
  assumes "rat_holds m xs r" "(a, p) \<in> set xs"
  shows "0 < a" "a < ARCH_REG_NUM" "p < PHY_REG_NUM" "phy_map_table r ! p = a" "\<not> cmt r p" "Some p \<notin> range m" "vld r p"
proof -
  have "pend_ok m r a p" using assms by (simp add: rat_holds_def)
  then show f: "0 < a" "a < ARCH_REG_NUM" "p < PHY_REG_NUM" "phy_map_table r ! p = a" "\<not> cmt r p" "Some p \<notin> range m"
    by (simp_all add: pend_ok_def)
  have "p \<in> snd ` set xs" using assms(2) by force
  then show "vld r p" using assms(1) f(3) by (simp add: rat_holds_def)
qed

lemma rat_holds_committed:
  assumes "rat_holds m xs r" "m a = Some p"
  shows "p < PHY_REG_NUM" "phy_map_table r ! p = a" "vld r p" "p \<notin> snd ` set xs" "0 < a" "a < ARCH_REG_NUM"
proof -
  have r: "Some p \<in> range m" using assms(2) by (metis rangeI)
  show f: "p < PHY_REG_NUM" "phy_map_table r ! p = a" using assms by (auto simp: rat_holds_def)
  show "vld r p" using assms(1) f(1) r by (simp add: rat_holds_def)
  show "p \<notin> snd ` set xs" using rat_holds_pend(6) [OF assms(1)] r by force
  have "a \<in> dom m" using assms(2) by blast
  then show "0 < a" "a < ARCH_REG_NUM" using assms(1) by (simp_all add: rat_holds_def)
qed

lemma rat_holds_valid: "rat_holds m xs r \<Longrightarrow> p < PHY_REG_NUM \<Longrightarrow> vld r p \<longleftrightarrow> Some p \<in> range m \<or> p \<in> snd ` set xs"
  by (simp add: rat_holds_def)

lemma range_update:
  assumes "m a = Some old" "\<And>b. m b = Some old \<Longrightarrow> b = a"
  shows "Some q \<in> range (m(a \<mapsto> p)) \<longleftrightarrow> q = p \<or> (q \<noteq> old \<and> Some q \<in> range m)"
proof
  assume "Some q \<in> range (m(a \<mapsto> p))"
  then obtain b where b: "(m(a \<mapsto> p)) b = Some q" by (metis rangeE)
  show "q = p \<or> (q \<noteq> old \<and> Some q \<in> range m)"
  proof (cases "b = a")
    case False
    with b have "m b = Some q" by simp
    with assms(2) [of b] False show ?thesis by (metis option.inject rangeI)
  qed (use b in simp)
next
  assume r: "q = p \<or> (q \<noteq> old \<and> Some q \<in> range m)"
  show "Some q \<in> range (m(a \<mapsto> p))"
  proof (cases "q = p")
    case True
    then have "(m(a \<mapsto> p)) a = Some q" by simp
    then show ?thesis by (metis rangeI)
  next
    case False
    with r obtain b where b: "m b = Some q" "q \<noteq> old" by (metis rangeE)
    then have "b \<noteq> a" using assms(1) by auto
    with b have "(m(a \<mapsto> p)) b = Some q" by simp
    then show ?thesis by (metis rangeI)
  qed
qed

section \<open>The four moves\<close>

lemma rat_holds_rename:
  assumes "rat_holds m xs r" "rat_set_map 0 a p r = Some (old, t)"
  shows "rat_holds m (xs @ [(a, p)]) t" "pending m xs a = Some old"
proof -
  note f = rat_holds_fields [OF assms(1)] and pe = rat_holds_pend [OF assms(1)]
  note s = rat_set_map_running [OF f(1,3) assms(2)] and g = rat_set_map_guards [OF f(1) assms(2)]
  note bits = rat_mapped_bits [OF f(1) s(3)]
  have h: "\<And>b q. m b = Some q \<Longrightarrow> q < PHY_REG_NUM \<and> phy_map_table r ! q = b"
    "dom m = {0 <..< ARCH_REG_NUM}" "distinct (map snd xs)" "rat_lookup r = pending m xs"
    using assms(1) by (auto simp: rat_holds_def)
  have pl: "p < PHY_REG_NUM" using s(3) f(4) by simp
  have p: "Some p \<notin> range m" "p \<notin> snd ` set xs" using rat_holds_valid [OF assms(1) pl] s(4) by auto
  have len: "length (phy_map_table r) = PHY_REG_NUM" using f(2,4) by simp
  show "pending m xs a = Some old" using s(1) h(4) by simp
  have lk: "rat_lookup t = pending m (xs @ [(a, p)])"
    using rat_mapped_lookup [OF f(1) g(1-4)] h(4) s(2) by (simp add: fun_eq_iff)
  have tb: "phy_map_table t ! q = (if q = p then a else phy_map_table r ! q)" for q
    using len pl s(2) by (simp add: nth_list_update)
  have "pend_ok m t b q" if "(b, q) \<in> set (xs @ [(a, p)])" for b q
  proof (cases "(b, q) = (a, p)")
    case True
    then show ?thesis using g(2,3) f(5) pl p s(2) bits(3) [of a p] tb by (simp add: pend_ok_def)
  next
    case False
    with that have x: "(b, q) \<in> set xs" by auto
    then have "q \<noteq> p" using p(2) by force
    then show ?thesis using pe [OF x] s(2) bits(3) [of a q] tb by (simp add: pend_ok_def)
  qed
  moreover have "\<forall>b q. m b = Some q \<longrightarrow> q < PHY_REG_NUM \<and> phy_map_table t ! q = b"
    using h(1) p(1) tb by (metis rangeI)
  moreover have "\<forall>q < PHY_REG_NUM. vld t q \<longleftrightarrow> Some q \<in> range m \<or> q \<in> snd ` set (xs @ [(a, p)])"
    using rat_holds_valid [OF assms(1)] s(2) bits(1) [of a] by auto
  moreover have "rat_running t" using s(2,5,6) f(4,5) by (simp add: rat_running_def)
  ultimately show "rat_holds m (xs @ [(a, p)]) t"
    using h(2,3) p(2) lk by (simp add: rat_holds_def)
qed

lemma rat_holds_retire:
  assumes "rat_holds m ((a, p) # xs) r" "m a = Some old"
  shows "\<exists>t u. rat_release_map old r = Some t \<and> rat_commit_map p t = Some u \<and> rat_holds (m(a \<mapsto> p)) xs u
    \<and> rat_request_q u = rat_request_q r \<and> rat_lookup u = rat_lookup r \<and> (\<forall>j. vld u j \<longleftrightarrow> j \<noteq> old \<and> vld r j)"
proof -
  note f = rat_holds_fields [OF assms(1)] and pe = rat_holds_pend [OF assms(1)]
  note o = rat_holds_committed [OF assms] and p = pe [OF list.set_intros(1)]
  have h: "dom m = {0 <..< ARCH_REG_NUM}" "distinct (map snd ((a, p) # xs))" "rat_lookup r = pending m ((a, p) # xs)"
    "\<And>b q. m b = Some q \<Longrightarrow> q < PHY_REG_NUM \<and> phy_map_table r ! q = b"
    using assms(1) by (auto simp: rat_holds_def)
  have op: "old \<noteq> p" "old \<notin> snd ` set xs" using o(4) by auto
  have inj: "m b = Some old \<Longrightarrow> b = a" for b using h(4) [of b old] o(2) by simp
  have nv: "\<not> vis r old"
  proof
    assume "vis r old"
    then have "rat_maps r a old" using o f(4) by (simp add: rat_maps_def)
    then have "pending (m(a \<mapsto> p)) xs a = Some old" using rat_lookup_iff [OF f(1)] h(3) by simp
    from pending_cases [OF this] op show False by force
  qed
  define t where "t = r\<lparr>phy_map_table := (phy_map_table r)[old := 0],
                 phy_map_table_valid := bm_put (phy_map_table_valid r) old False\<rparr>"
  have rel: "rat_release_map old r = Some t"
    using rat_release_map_iff [OF f(2), of old] nv o f(4) by (simp add: t_def)
  note rl = rat_release_map_inv [OF f(1) rel]
  define u where "u = t\<lparr>phy_map_table_commit := bm_put (phy_map_table_commit t) p True\<rparr>"
  have "vld t p" using rl(4) [of p] op(1) p(7) by simp
  then have com: "rat_commit_map p t = Some u"
    using rat_commit_map_iff [OF rat_inv_wf [OF rl(1)], of p] p f(4) by (simp add: t_def u_def)
  note cl = rat_commit_map_inv [OF rl(1) com]
  have len: "length (phy_map_table r) = PHY_REG_NUM" "length (phy_map_table_commit r) = bm_words PHY_REG_NUM"
    using f(2,4) by simp_all
  have bits: "vld u q = (q \<noteq> old \<and> vld r q)" "cmt u q = (q = p \<or> cmt r q)"
      "phy_map_table u ! q = (if q = old then 0 else phy_map_table r ! q)" for q
    using rl(4) [of q] bm_bit_put [OF len(2) p(3), of True q] o(1) len(1)
    by (auto simp: u_def t_def nth_list_update)
  have rg: "Some q \<in> range (m(a \<mapsto> p)) \<longleftrightarrow> q = p \<or> (q \<noteq> old \<and> Some q \<in> range m)" for q
    by (rule range_update [of m a old, OF assms(2)]) (rule inj)
  have "pend_ok (m(a \<mapsto> p)) u b q" if x: "(b, q) \<in> set xs" for b q
  proof -
    have "q \<noteq> p" "q \<noteq> old" using x h(2) op(2) by force+
    moreover have "Some q \<notin> range (m(a \<mapsto> p))" using rg [of q] \<open>q \<noteq> p\<close> pe(6) [OF list.set_intros(2) [OF x]] by blast
    ultimately show ?thesis using pe [OF list.set_intros(2) [OF x]] unfolding pend_ok_def bits by simp
  qed
  moreover have "\<forall>b q. (m(a \<mapsto> p)) b = Some q \<longrightarrow> q < PHY_REG_NUM \<and> phy_map_table u ! q = b"
    using h(4) p(3,4) op(1) inj by (auto simp: bits split: if_splits)
  moreover have "\<forall>q < PHY_REG_NUM. vld u q \<longleftrightarrow> Some q \<in> range (m(a \<mapsto> p)) \<or> q \<in> snd ` set xs"
    using rat_holds_valid [OF assms(1)] op unfolding bits rg by auto
  moreover have "rat_running u" using cl(1) f by (simp add: rat_running_def u_def t_def)
  moreover have "dom (m(a \<mapsto> p)) = {0 <..< ARCH_REG_NUM}" using h(1) p(1,2) by auto
  ultimately have "rat_holds (m(a \<mapsto> p)) xs u"
    using h(2,3) rl(2) cl(2) by (simp add: rat_holds_def)
  moreover have "rat_request_q u = rat_request_q r" by (simp add: u_def t_def)
  moreover have "rat_lookup u = rat_lookup r" using rl(2) cl(2) by simp
  ultimately show ?thesis using rel com bits(1) by blast
qed

lemma rat_holds_undo:
  assumes "rat_holds m (xs @ [(a, p)]) r" "pending m xs a = Some old"
  shows "\<exists>t. rat_restore_map p old r = Some t \<and> rat_holds m xs t \<and> rat_request_q t = rat_request_q r"
proof -
  note f = rat_holds_fields [OF assms(1)] and pe = rat_holds_pend [OF assms(1)]
  have p: "0 < a" "a < ARCH_REG_NUM" "p < PHY_REG_NUM" "phy_map_table r ! p = a" "Some p \<notin> range m" "vld r p"
    using pe [of a p] by simp_all
  have h: "dom m = {0 <..< ARCH_REG_NUM}" "distinct (map snd (xs @ [(a, p)]))" "rat_lookup r = (pending m xs)(a \<mapsto> p)"
    "\<And>b q. m b = Some q \<Longrightarrow> q < PHY_REG_NUM \<and> phy_map_table r ! q = b"
    using assms(1) by (auto simp: rat_holds_def)
  have o: "old < PHY_REG_NUM" "phy_map_table r ! old = a" "vld r old" "old \<noteq> p"
    using pending_cases [OF assms(2)] pe [of a old] rat_holds_committed [OF assms(1), of a old] h(2) p(5)
    by (auto simp: image_iff)
  have vp: "vis r p" using h(3) rat_lookup_bound [OF f(1), of a p] by simp
  have vo: "\<not> vis r old"
  proof
    assume "vis r old"
    then have "rat_lookup r a = Some old" using o f(4) rat_lookup_iff [OF f(1)] by (simp add: rat_maps_def)
    with h(3) o(4) show False by simp
  qed
  define t where "t = r\<lparr>phy_map_table := (phy_map_table r)[p := 0],
       phy_map_table_valid := bm_put (bm_put (phy_map_table_valid r) p False) old True,
       phy_map_table_visible := bm_put (bm_put (phy_map_table_visible r) p False) old True\<rparr>"
  have res: "rat_restore_map p old r = Some t"
    using rat_restore_map_iff [OF f(2), of p old] p o vp vo f(4) by (simp add: t_def)
  have len: "length (phy_map_table r) = PHY_REG_NUM" "length (phy_map_table_valid r) = bm_words PHY_REG_NUM"
    "length (phy_map_table_visible r) = bm_words PHY_REG_NUM" using f(2,4) by simp_all
  have bits: "vld t q = (q \<noteq> p \<and> vld r q)" "vis t q = (q = old \<or> (q \<noteq> p \<and> vis r q))" "cmt t q = cmt r q"
      "phy_map_table t ! q = (if q = p then 0 else phy_map_table r ! q)" for q
    using len p(3) o(1,3,4)
    by (auto simp: t_def nth_list_update bm_bit_put [OF _ p(3)] bm_bit_put [OF _ o(1)])
  have n: "phy_reg_num t = PHY_REG_NUM" "arch_reg_num t = ARCH_REG_NUM" "\<not> init_rat t" "rat_wf t"
    using f by (simp_all add: t_def rat_wf_def del: rat_wf_lengths)
  have mp: "rat_maps t b q \<longleftrightarrow> (if b = a then q = old else rat_maps r b q)" for b q
  proof (cases "b = a")
    case True
    have "\<not> (q < PHY_REG_NUM \<and> q \<noteq> p \<and> vld r q \<and> vis r q \<and> phy_map_table r ! q = a)"
      using h(3) rat_lookup_iff [OF f(1), of a q] f(4) by (auto simp: rat_maps_def)
    with True o show ?thesis unfolding rat_maps_def bits n(1) by (cases "q = old") auto
  next
    case False
    then show ?thesis using o(2) p(1,4) f(4) unfolding rat_maps_def bits n(1)
      by (cases "q = old"; cases "q = p") auto
  qed
  have "rat_inv t"
    unfolding rat_inv_def
  proof (intro conjI)
    show "\<forall>q < phy_reg_num t. vld t q \<longrightarrow> 0 < phy_map_table t ! q \<and> phy_map_table t ! q < arch_reg_num t"
      using f(1) f(4,5) n by (simp add: bits rat_inv_def)
    show "\<forall>q < phy_reg_num t. vis t q \<longrightarrow> vld t q"
      using f(1) f(4) n(1) o by (auto simp: bits rat_inv_def)
    show "\<forall>b x y. rat_maps t b x \<longrightarrow> rat_maps t b y \<longrightarrow> x = y"
      using f(1) unfolding mp rat_inv_def by metis
    show "\<not> init_rat t \<longrightarrow> (\<forall>b. 0 < b \<and> b < arch_reg_num t \<longrightarrow> (\<exists>q. rat_maps t b q))"
      using f(1) f(3,5) n(2) unfolding mp rat_inv_def by metis
  qed (rule n(4))
  note i = this
  have "rat_lookup t b = pending m xs b" for b
  proof (cases "b = a")
    case True
    then show ?thesis using mp [of a old] rat_lookup_iff [OF i, of a old] assms(2) by simp
  next
    case False
    then have "rat_lookup t b = rat_lookup r b" by (intro rat_lookup_cong [OF f(1) i]) (simp add: mp)
    with False h(3) show ?thesis by simp
  qed
  moreover have "pend_ok m t b q" if x: "(b, q) \<in> set xs" for b q
  proof -
    have "q \<noteq> p" using x h(2) by force
    then show ?thesis using pe [of b q] x unfolding pend_ok_def bits by simp
  qed
  moreover have "\<forall>b q. m b = Some q \<longrightarrow> q < PHY_REG_NUM \<and> phy_map_table t ! q = b"
    using h(4) p(5) unfolding bits by (metis rangeI)
  moreover have "\<forall>q < PHY_REG_NUM. vld t q \<longleftrightarrow> Some q \<in> range m \<or> q \<in> snd ` set xs"
    using rat_holds_valid [OF assms(1)] p(5) h(2) unfolding bits by auto
  moreover have "rat_running t" using i n by (simp add: rat_running_def)
  ultimately have "rat_holds m xs t" using h(1,2) by (simp add: rat_holds_def fun_eq_iff)
  with res show ?thesis by (auto simp: t_def)
qed

text \<open>The table after a checkpoint's bits are written back: what the checkpoint calls visible must be
  the committed mapping, and its valid bits have been cut down to the visible ones.\<close>

lemma rat_holds_recover:
  assumes "rat_holds m xs r" "checkpoint_ok c"
    and "\<And>p. p < PHY_REG_NUM \<Longrightarrow> bm_bit (rat_phy_map_table_visible c) p \<longleftrightarrow> Some p \<in> range m"
    and "\<And>p. p < PHY_REG_NUM \<Longrightarrow> bm_bit (rat_phy_map_table_valid c) p \<longleftrightarrow> Some p \<in> range m"
  shows "\<exists>t. rat_restore c r = Some t \<and> rat_holds m [] t \<and> rat_request_q t = rat_request_q r"
proof -
  note f = rat_holds_fields [OF assms(1)]
  have h: "dom m = {0 <..< ARCH_REG_NUM}" "\<And>b q. m b = Some q \<Longrightarrow> q < PHY_REG_NUM \<and> phy_map_table r ! q = b"
    using assms(1) by (auto simp: rat_holds_def)
  define t where "t = r\<lparr>phy_map_table_valid := rat_phy_map_table_valid c,
    phy_map_table_visible := rat_phy_map_table_visible c\<rparr>"
  have res: "rat_restore c r = Some t" using rat_restore_eq [OF f(2,4) assms(2)] by (simp add: t_def)
  have n: "phy_reg_num t = PHY_REG_NUM" "arch_reg_num t = ARCH_REG_NUM" "\<not> init_rat t" "rat_wf t"
    using f assms(2)
    by (simp_all add: t_def rat_wf_def checkpoint_ok_def bitmap_size_words del: rat_wf_lengths)
  have bits: "p < PHY_REG_NUM \<Longrightarrow> vld t p \<longleftrightarrow> Some p \<in> range m" "p < PHY_REG_NUM \<Longrightarrow> vis t p \<longleftrightarrow> Some p \<in> range m"
    "phy_map_table t = phy_map_table r" for p
    using assms(3,4) by (simp_all add: t_def)
  have mp: "rat_maps t b q \<longleftrightarrow> m b = Some q" for b q
  proof
    assume "rat_maps t b q"
    then have q: "q < PHY_REG_NUM" "vis t q" "phy_map_table r ! q = b" using n(1) bits(3) by (simp_all add: rat_maps_def)
    then obtain d where "m d = Some q" using bits(2) by (metis rangeE)
    with h(2) [OF this] q(3) show "m b = Some q" by simp
  next
    assume b: "m b = Some q"
    then have "Some q \<in> range m" by (metis rangeI)
    with h(2) [OF b] bits n(1) show "rat_maps t b q" by (simp add: rat_maps_def)
  qed
  have i: "rat_inv t"
    unfolding rat_inv_def
  proof (intro conjI)
    show "\<forall>q < phy_reg_num t. vld t q \<longrightarrow> 0 < phy_map_table t ! q \<and> phy_map_table t ! q < arch_reg_num t"
    proof (intro allI impI)
      fix q assume q: "q < phy_reg_num t" "vld t q"
      then obtain d where "m d = Some q" using bits(1) n(1) by (metis rangeE)
      with h q n bits(3) show "0 < phy_map_table t ! q \<and> phy_map_table t ! q < arch_reg_num t"
        by (metis domI greaterThanLessThan_iff)
    qed
    show "\<forall>q < phy_reg_num t. vis t q \<longrightarrow> vld t q" using bits(1,2) n(1) by simp
    show "\<forall>b x y. rat_maps t b x \<longrightarrow> rat_maps t b y \<longrightarrow> x = y" unfolding mp by simp
    show "\<not> init_rat t \<longrightarrow> (\<forall>b. 0 < b \<and> b < arch_reg_num t \<longrightarrow> (\<exists>q. rat_maps t b q))"
      unfolding mp n(2) using h(1) by (metis domD greaterThanLessThan_iff)
  qed (rule n(4))
  have "rat_lookup t = m"
    using rat_lookup_iff [OF i] mp by (metis ext not_None_eq)
  moreover have "rat_running t" using i n by (simp add: rat_running_def)
  ultimately have "rat_holds m [] t" using h bits by (simp add: rat_holds_def)
  with res show ?thesis by (auto simp: t_def)
qed

section \<open>The committed registers\<close>

text \<open>31 architectural registers are mapped to 31 different physical ones.\<close>

lemma rat_holds_count:
  assumes "rat_holds m xs r"
  shows "card {p. p < PHY_REG_NUM \<and> Some p \<in> range m} = 31"
proof -
  have h: "dom m = {0 <..< ARCH_REG_NUM}" "\<And>b q. m b = Some q \<Longrightarrow> q < PHY_REG_NUM \<and> phy_map_table r ! q = b"
    using assms by (auto simp: rat_holds_def)
  have "{p. p < PHY_REG_NUM \<and> Some p \<in> range m} = (\<lambda>a. the (m a)) ` dom m"
  proof (intro set_eqI iffI)
    fix p assume "p \<in> {p. p < PHY_REG_NUM \<and> Some p \<in> range m}"
    then obtain a where "m a = Some p" by (metis (mono_tags) mem_Collect_eq rangeE)
    then have "a \<in> dom m" "p = the (m a)" by auto
    then show "p \<in> (\<lambda>a. the (m a)) ` dom m" by blast
  next
    fix p assume "p \<in> (\<lambda>a. the (m a)) ` dom m"
    then obtain a where "m a = Some p" by auto
    with h(2) [OF this] show "p \<in> {p. p < PHY_REG_NUM \<and> Some p \<in> range m}" by (metis (mono_tags) mem_Collect_eq rangeI)
  qed
  moreover have "inj_on (\<lambda>a. the (m a)) (dom m)"
  proof (rule inj_onI)
    fix a b assume "a \<in> dom m" "b \<in> dom m" "the (m a) = the (m b)"
    then obtain p where "m a = Some p" "m b = Some p" by auto
    with h(2) show "a = b" by metis
  qed
  ultimately show ?thesis using h(1) by (simp add: card_image ARCH_REG_NUM_def)
qed

section \<open>The moves on the reorder buffer\<close>

text \<open>What retiring an entry requests of the table, and the pairs that walking back undoes.\<close>

definition retire_requests :: "rob_item_t \<Rightarrow> rat_request list" where
  "retire_requests x = (if old_phy_reg_id_valid x
     then [Rat_release_map (old_phy_reg_id x), Rat_commit_map (new_phy_reg_id x)] else [])"

definition undo_pairs :: "rob_item_t list \<Rightarrow> (nat \<times> nat) list" where
  "undo_pairs xs = map (\<lambda>x. (new_phy_reg_id x, old_phy_reg_id x)) (filter old_phy_reg_id_valid xs)"

lemma rob_records_append:
  "rob_records m (items @ es) zs \<longleftrightarrow> (\<exists>xs ys. zs = xs @ ys \<and> rob_records m items xs \<and> rob_records (pending m xs) es ys)"
proof (induction items arbitrary: m zs)
  case (Cons x items)
  show ?case
  proof (cases "old_phy_reg_id_valid x")
    case True
    show ?thesis
    proof (cases zs)
      case (Cons z zs')
      obtain a p where z: "z = (a, p)" by (cases z)
      have "rob_records m ((x # items) @ es) zs \<longleftrightarrow> p = new_phy_reg_id x \<and> m a = Some (old_phy_reg_id x)
          \<and> (\<exists>xs ys. zs' = xs @ ys \<and> rob_records (m(a \<mapsto> p)) items xs \<and> rob_records (pending (m(a \<mapsto> p)) xs) es ys)"
        by (simp only: Cons z append_Cons rob_records.simps list.case prod.case True if_True
            Cons.IH [of "m(a \<mapsto> p)" zs'])
      also have "\<dots> \<longleftrightarrow> (\<exists>xs ys. zs = (a, p) # xs @ ys \<and> rob_records m (x # items) ((a, p) # xs)
          \<and> rob_records (pending m ((a, p) # xs)) es ys)"
        using True by (auto simp: Cons z)
      also have "\<dots> \<longleftrightarrow> (\<exists>xs ys. zs = xs @ ys \<and> rob_records m (x # items) xs \<and> rob_records (pending m xs) es ys)"
        (is "?l \<longleftrightarrow> ?r")
      proof
        assume ?l
        then obtain xs ys where "zs = ((a, p) # xs) @ ys" "rob_records m (x # items) ((a, p) # xs)"
          "rob_records (pending m ((a, p) # xs)) es ys" by auto
        then show ?r by blast
      next
        assume ?r
        then obtain xs ys where x: "zs = xs @ ys" "rob_records m (x # items) xs" "rob_records (pending m xs) es ys" by blast
        then obtain xs' where "xs = (a, p) # xs'" using True by (cases xs) (auto simp: Cons z)
        with x show ?l by (intro exI [of _ xs'] exI [of _ ys]) simp
      qed
      finally show ?thesis .
    qed (use True in \<open>auto split: list.splits\<close>)
  qed (use Cons.IH [of m zs] in simp)
qed auto

lemma in_flight_retire:
  assumes "in_flight m (x # items) r"
  shows "\<exists>u m'. fold_opt rat_apply (retire_requests x) r = Some u \<and> in_flight m' items u
    \<and> rat_request_q u = rat_request_q r \<and> rat_lookup u = rat_lookup r
    \<and> (\<forall>j. vld u j \<longleftrightarrow> vld r j \<and> \<not> (old_phy_reg_id_valid x \<and> old_phy_reg_id x = j))"
proof (cases "old_phy_reg_id_valid x")
  case True
  with assms obtain xs where xs: "rat_holds m xs r" "rob_records m (x # items) xs" by (auto simp: in_flight_def)
  with True obtain a ys where a: "xs = (a, new_phy_reg_id x) # ys" "m a = Some (old_phy_reg_id x)"
      "rob_records (m(a \<mapsto> new_phy_reg_id x)) items ys"
    by (auto split: list.splits prod.splits)
  from rat_holds_retire [OF xs(1) [unfolded a(1)] a(2)] obtain t u where
    u: "rat_release_map (old_phy_reg_id x) r = Some t" "rat_commit_map (new_phy_reg_id x) t = Some u"
    "rat_holds (m(a \<mapsto> new_phy_reg_id x)) ys u" "rat_request_q u = rat_request_q r" "rat_lookup u = rat_lookup r"
    "\<And>j. vld u j \<longleftrightarrow> j \<noteq> old_phy_reg_id x \<and> vld r j" by blast
  have "in_flight (m(a \<mapsto> new_phy_reg_id x)) items u" using u(3) a(3) by (auto simp: in_flight_def)
  with u True show ?thesis
    by (intro exI [of _ u] exI [of _ "m(a \<mapsto> new_phy_reg_id x)"]) (auto simp: retire_requests_def)
next
  case False
  with assms show ?thesis by (auto simp: retire_requests_def in_flight_def)
qed

lemma in_flight_retire_all:
  assumes "in_flight m (done @ items) r"
  shows "\<exists>u m'. fold_opt rat_apply (concat (map retire_requests done)) r = Some u \<and> in_flight m' items u
    \<and> rat_request_q u = rat_request_q r \<and> rat_lookup u = rat_lookup r
    \<and> (\<forall>j. vld u j \<longleftrightarrow> vld r j \<and> (\<forall>x \<in> set done. \<not> (old_phy_reg_id_valid x \<and> old_phy_reg_id x = j)))"
  using assms
proof (induction "done" arbitrary: m r)
  case (Cons x xs)
  from in_flight_retire [of m x "xs @ items" r] Cons.prems obtain t m1 where
    t: "fold_opt rat_apply (retire_requests x) r = Some t" "in_flight m1 (xs @ items) t" "rat_request_q t = rat_request_q r"
      "rat_lookup t = rat_lookup r" "\<And>j. vld t j \<longleftrightarrow> vld r j \<and> \<not> (old_phy_reg_id_valid x \<and> old_phy_reg_id x = j)"
    by auto
  from Cons.IH [OF t(2)] obtain u m' where
    u: "fold_opt rat_apply (concat (map retire_requests xs)) t = Some u" "in_flight m' items u" "rat_request_q u = rat_request_q t"
      "rat_lookup u = rat_lookup t"
      "\<And>j. vld u j \<longleftrightarrow> vld t j \<and> (\<forall>x \<in> set xs. \<not> (old_phy_reg_id_valid x \<and> old_phy_reg_id x = j))" by blast
  with t show ?case by (intro exI [of _ u] exI [of _ m']) (auto simp: fold_opt_append)
qed (auto simp: retire_requests_def)

text \<open>The registers an entry names are registers of the file, and only these fields of it matter.\<close>

lemma rob_records_old:
  "rob_records m items zs \<Longrightarrow> x \<in> set items \<Longrightarrow> old_phy_reg_id_valid x \<Longrightarrow>
    \<exists>xs ys a. zs = xs @ (a, new_phy_reg_id x) # ys \<and> pending m xs a = Some (old_phy_reg_id x)"
proof -
  assume r: "rob_records m items zs" and x: "x \<in> set items" "old_phy_reg_id_valid x"
  obtain us vs where items: "items = us @ x # vs" using x(1) by (meson split_list)
  obtain xs ys where z: "zs = xs @ ys" "rob_records (pending m xs) (x # vs) ys"
    using r unfolding items rob_records_append by blast
  then obtain a ys' where "ys = (a, new_phy_reg_id x) # ys'" "pending m xs a = Some (old_phy_reg_id x)"
    using x(2) by (auto split: list.splits prod.splits)
  with z(1) show ?thesis by blast
qed

lemma in_flight_regs:
  assumes "in_flight m items r" "x \<in> set items" "old_phy_reg_id_valid x"
  shows "new_phy_reg_id x < PHY_REG_NUM" "Some (new_phy_reg_id x) \<notin> range m" "old_phy_reg_id x < PHY_REG_NUM"
proof -
  obtain zs where z: "rat_holds m zs r" "rob_records m items zs" using assms(1) by (auto simp: in_flight_def)
  obtain xs ys a where p: "zs = xs @ (a, new_phy_reg_id x) # ys" "pending m xs a = Some (old_phy_reg_id x)"
    using rob_records_old [OF z(2) assms(2,3)] by blast
  have "(a, new_phy_reg_id x) \<in> set zs" using p(1) by simp
  from rat_holds_pend [OF z(1) this] show "new_phy_reg_id x < PHY_REG_NUM" "Some (new_phy_reg_id x) \<notin> range m" by simp_all
  show "old_phy_reg_id x < PHY_REG_NUM"
    using pending_cases [OF p(2)] rat_holds_committed(1) [OF z(1), of a] rat_holds_pend(3) [OF z(1), of a] p(1) by auto
qed

definition entry_regs :: "rob_item_t \<Rightarrow> bool \<times> nat \<times> nat" where
  "entry_regs x = (old_phy_reg_id_valid x, new_phy_reg_id x, old_phy_reg_id x)"

lemma in_flight_cong:
  assumes "map entry_regs items = map entry_regs items'"
  shows "in_flight m items r = in_flight m items' r"
proof -
  have "rob_records n items zs = rob_records n items' zs" for n zs
    using assms
  proof (induction items items' arbitrary: n zs rule: list_induct2')
    case (4 x xs y ys)
    then show ?case by (auto simp: entry_regs_def split: list.split prod.split)
  qed auto
  then show ?thesis by (simp add: in_flight_def)
qed

lemma in_flight_undo_all:
  assumes "in_flight m items r"
  shows "\<exists>t. rat_rollback (undo_pairs items) r = Some t \<and> in_flight m [] t \<and> rat_request_q t = rat_request_q r"
  using assms
proof (induction items arbitrary: r rule: rev_induct)
  case Nil
  then show ?case by (simp add: undo_pairs_def rat_rollback_def)
next
  case (snoc x items)
  then obtain zs where z: "rat_holds m zs r" "rob_records m (items @ [x]) zs" by (auto simp: in_flight_def)
  from z(2) obtain xs ys where xs: "zs = xs @ ys" "rob_records m items xs" "rob_records (pending m xs) [x] ys"
    by (auto simp: rob_records_append)
  show ?case
  proof (cases "old_phy_reg_id_valid x")
    case True
    with xs(3) obtain a where ys: "ys = [(a, new_phy_reg_id x)]" "pending m xs a = Some (old_phy_reg_id x)"
      by (auto split: list.splits prod.splits)
    from rat_holds_undo [OF z(1) [unfolded xs(1) ys(1)] ys(2)] obtain t where
      t: "rat_restore_map (new_phy_reg_id x) (old_phy_reg_id x) r = Some t" "rat_holds m xs t" "rat_request_q t = rat_request_q r"
      by blast
    from snoc.IH [of t] t xs(2) show ?thesis
      using True by (auto simp: in_flight_def undo_pairs_def rat_rollback_def)
  next
    case False
    with xs z(1) have "in_flight m items r" by (auto simp: in_flight_def)
    from snoc.IH [OF this] False show ?thesis by (simp add: undo_pairs_def)
  qed
qed

lemma in_flight_lookup: "in_flight m items r \<Longrightarrow> rat_running r"
  "in_flight m [] r \<Longrightarrow> rat_lookup r = m"
  by (auto simp: in_flight_def rat_holds_def)

lemma in_flight_queue [simp]: "in_flight m items (r\<lparr>rat_request_q := q\<rparr>) = in_flight m items r"
  by (simp add: in_flight_def)

lemma in_flight_extend:
  assumes "in_flight m items r" "\<forall>x \<in> set ops. decoded_ok x" "L = rat_lookup r"
    and "\<forall>p \<in> snd ` set (rename_pairs ops). p < PHY_REG_NUM \<and> \<not> vld r p" "distinct (map snd (rename_pairs ops))"
  shows "\<exists>u. fold_opt rat_apply (map (\<lambda>(a, p). Rat_set_map a p) (rename_pairs ops)) r = Some u
    \<and> in_flight m (items @ rename_entries L ops) u \<and> rat_lookup u = rename_maps L ops"
  using assms
proof (induction ops arbitrary: items r L)
  case (Cons x ops)
  have rp: "rename_pairs (x # ops) = (if rn_writes x then (p_rd x, p_rd_phy x) # rename_pairs ops else rename_pairs ops)"
    by (simp add: rename_pairs_def)
  obtain zs where z: "rat_holds m zs r" "rob_records m items zs" using Cons.prems(1) by (auto simp: in_flight_def)
  note f = rat_holds_fields [OF z(1)]
  have lk: "L = pending m zs" using z(1) Cons.prems(3) by (simp add: rat_holds_def)
  have m1: "rename_maps L (x # ops) = rename_maps (rename_maps L [x]) ops" by (rule rename_maps_Cons)
  show ?case
  proof (cases "rn_writes x")
    case True
    let ?a = "p_rd x" and ?p = "p_rd_phy x"
    have g: "?p < phy_reg_num r" "0 < ?a" "?a < arch_reg_num r" "\<not> vld r ?p"
      using Cons.prems(2,4) True f by (simp_all add: rp) (auto simp: rn_writes_def decoded_ok_def)
    obtain old where old: "rat_set_map 0 ?a ?p r = Some (old, rat_mapped ?a ?p r)"
      using rat_set_map_eq [OF f(1) g] by blast
    let ?t = "rat_mapped ?a ?p r"
    note rn = rat_holds_rename [OF z(1) old]
    have e: "rename_entries L (x # ops) = rename_entry L x # rename_entries (rename_maps L [x]) ops"
      using True by (simp add: rn_writes_def)
    have "rob_records m (items @ [rename_entry L x]) (zs @ [(?a, ?p)])"
      unfolding rob_records_append
      by (intro exI [of _ zs] exI [of _ "[(?a, ?p)]"])
        (use z(2) True rn(2) lk in \<open>simp add: rename_entry_def rename_item_def\<close>)
    with rn(1) have fl: "in_flight m (items @ [rename_entry L x]) ?t" by (auto simp: in_flight_def)
    have L': "rename_maps L [x] = rat_lookup ?t"
      using rn(1) lk True by (simp add: rat_holds_def rename_maps_def rename_pairs_def)
    have free: "\<forall>p \<in> snd ` set (rename_pairs ops). p < PHY_REG_NUM \<and> \<not> vld ?t p"
    proof
      fix p assume p: "p \<in> snd ` set (rename_pairs ops)"
      with Cons.prems(5) True have "p \<noteq> ?p" by (auto simp: rp image_iff)
      with p Cons.prems(4) True show "p < PHY_REG_NUM \<and> \<not> vld ?t p"
        unfolding rat_mapped_bits(1) [OF f(1) g(1)] by (auto simp: rp)
    qed
    from Cons.IH [OF fl _ L' free] Cons.prems(2,5) True show ?thesis
      by (simp add: rp old e m1 del: rename_entries.simps)
  next
    case False
    have "in_flight m (items @ (if p_enable x then [rename_entry L x] else [])) r"
      unfolding in_flight_def
      by (rule exI [of _ zs])
        (use z False in \<open>auto simp: rob_records_append rename_entry_def rename_item_def\<close>)
    moreover have L: "rename_maps L [x] = L" using False by (simp add: rename_maps_def rename_pairs_def)
    moreover have "rename_entries L (x # ops) = (if p_enable x then [rename_entry L x] else []) @ rename_entries L ops"
      by (simp add: L)
    moreover have "rename_pairs (x # ops) = rename_pairs ops" using False by (simp add: rp)
    ultimately show ?thesis
      using Cons.IH [of "items @ (if p_enable x then [rename_entry L x] else [])" r L] Cons.prems(2-5)
      unfolding m1 L append_assoc by simp
  qed
qed (simp add: rename_pairs_def)

end
