(* ===== verification/Commit_Walk.thy ===== *)
theory Commit_Walk
  imports Commit In_Flight
begin

text \<open>
  Exceptions and interrupts of the commit stage (\<open>flush\<close> and \<open>interrupt_flush\<close> of
  \<open>pipeline/commit.cpp\<close>): the walk over the reorder buffer ends after one cycle per entry, with the
  registers and the mapping as if none of the walked instructions had been renamed.
\<close>

section \<open>Cycles without requests\<close>

definition commit_quiet :: "commit_stage \<Rightarrow> bool" where
  "commit_quiet s = (rat_request_q (cm_rat s) = [] \<and> rob_request_q (cm_rob s) = []
     \<and> regfile_request_q (cm_regfile s) = [] \<and> csr_request_q (cm_csr s) = []
     \<and> cpbuf_request_q (cm_cpbuf s) = [] \<and> bp_request_q (cm_bp s) = [] \<and> int_request_q (cm_int s) = [])"

lemma sync_idle [req_simps]:
  "rob_request_q b = [] \<Longrightarrow> rob_sync b = Some b"
  "regfile_request_q f = [] \<Longrightarrow> regfile_sync f = Some f"
  "csr_request_q c = [] \<Longrightarrow> csrfile_sync c = Some c"
  "cpbuf_request_q p = [] \<Longrightarrow> cpbuf_sync p = Some p"
  "bp_request_q h = [] \<Longrightarrow> bp_sync h = Some h"
  "int_request_q n = [] \<Longrightarrow> int_sync n = Some n"
  "rat_request_q r = [] \<Longrightarrow> rat_sync r = Some r"
  by (simp_all add: rob_sync_def regfile_sync_def csrfile_sync_def cpbuf_sync_def bp_sync_def int_sync_def
      rat_sync_def)

text \<open>The undoing of one entry, on the table and on the register file.\<close>

definition undo_map :: "rob_item_t \<Rightarrow> rat \<Rightarrow> rat option" where
  "undo_map x r = (if old_phy_reg_id_valid x then rat_restore_map (new_phy_reg_id x) (old_phy_reg_id x) r else Some r)"

definition undo_value :: "rob_item_t \<Rightarrow> u32 regfile \<Rightarrow> u32 regfile" where
  "undo_value x f = (if old_phy_reg_id_valid x
     then f\<lparr>reg_data := (reg_data f)[new_phy_reg_id x := 0],
            reg_data_valid := bm_put (reg_data_valid f) (new_phy_reg_id x) False\<rparr> else f)"

lemma undo_map_sync:
  assumes "rat_wf r" "rat_request_q r = []" "rat_restore_map n old r = Some t"
  shows "rat_sync (rat_restore_map_sync n old r) = Some t" "rat_request_q t = []" "rat_wf t"
    "n < phy_reg_num r" "phy_reg_num t = phy_reg_num r"
proof -
  let ?q = "r\<lparr>rat_request_q := [Rat_restore_map n old]\<rparr>"
  have w: "rat_wf ?q" using assms(1) by (simp add: rat_wf_def del: rat_wf_lengths)
  have t: "t = r\<lparr>phy_map_table := (phy_map_table r)[n := 0],
      phy_map_table_valid := bm_put (bm_put (phy_map_table_valid r) n False) old True,
      phy_map_table_visible := bm_put (bm_put (phy_map_table_visible r) n False) old True\<rparr>"
    and g: "n < phy_reg_num r \<and> old < phy_reg_num r \<and> vld r n \<and> vld r old \<and> vis r n \<and> \<not> vis r old"
    using assms(3) rat_restore_map_iff [OF assms(1), of n old] by (simp_all split: if_splits)
  show "rat_request_q t = []" "rat_wf t" "n < phy_reg_num r" "phy_reg_num t = phy_reg_num r"
    using g assms(1,2) by (simp_all add: t rat_wf_def del: rat_wf_lengths)
  show "rat_sync (rat_restore_map_sync n old r) = Some t"
    using g assms(2)
    by (simp add: rat_sync_def rat_restore_map_sync_def rat_restore_map_iff [OF w])
      (simp add: t)
qed

lemma undo_value_sync:
  assumes "regfile_inv f" "regfile_request_q f = []" "n < PHY_REG_NUM"
  shows "regfile_sync (regfile_write_sync n 0 False f)
    = Some (f\<lparr>reg_data := (reg_data f)[n := 0], reg_data_valid := bm_put (reg_data_valid f) n False\<rparr>)"
proof -
  let ?q = "f\<lparr>regfile_request_q := [Regfile_write n 0 False]\<rparr>"
  have "regfile_inv ?q" using assms(1) by (simp add: regfile_inv_def)
  from regfile_write_eq [OF this assms(3), of 0 False] assms(2) show ?thesis
    by (simp add: regfile_sync_def regfile_write_sync_def)
qed

lemma undo_value_inv:
  "regfile_inv f \<Longrightarrow> regfile_inv (undo_value x f)" "regfile_request_q (undo_value x f) = regfile_request_q f"
  by (simp_all add: undo_value_def regfile_inv_def)

section \<open>The walk back\<close>

definition walk_ok :: "nat \<Rightarrow> commit_stage \<Rightarrow> bool" where
  "walk_ok k s = (commit_quiet s \<and> cm_state s \<noteq> St_normal \<and> fifo_inv (cm_rob s) \<and> regfile_inv (cm_regfile s)
     \<and> rat_wf (cm_rat s) \<and> phy_reg_num (cm_rat s) = PHY_REG_NUM \<and> k < length (ring_ids (cm_rob s))
     \<and> cm_item_id s = ring_ids (cm_rob s) ! 0 \<and> cm_restore_id s = ring_ids (cm_rob s) ! k)"

definition walk_feedback :: commit_feedback_pack_t where
  "walk_feedback = commit_feedback_zero\<lparr>cf_enable := True, cf_flush := True\<rparr>"

definition walk_item :: "nat \<Rightarrow> commit_stage \<Rightarrow> rob_item_t" where
  "walk_item k s = buffer (cm_rob s) ! (ring_ids (cm_rob s) ! k)"

lemma walk_item_get:
  "fifo_inv (cm_rob s) \<Longrightarrow> k < length (ring_ids (cm_rob s)) \<Longrightarrow>
    rob_get_item (cm_rob s) (ring_ids (cm_rob s) ! k) = Some (walk_item k s)"
  by (simp add: rob_get_item_nth ring_ids_bound walk_item_def)

lemma extend_truncate [simp]:
  "commit_stage.truncate (commit_stage.extend s m) = s"
  by (simp add: commit_stage.extend_def commit_stage.truncate_def)

lemma vars_fields [simp]:
  "cv_fb (commit_stage.extend s (commit_vars.fields fb nf)) = fb"
  "cv_need_flush (commit_stage.extend s (commit_vars.fields fb nf)) = nf"
  "cm_rob (commit_stage.extend s m) = cm_rob s" "cm_rat (commit_stage.extend s m) = cm_rat s"
  "cm_regfile (commit_stage.extend s m) = cm_regfile s" "cm_csr (commit_stage.extend s m) = cm_csr s"
  "cm_cpbuf (commit_stage.extend s m) = cm_cpbuf s" "cm_bp (commit_stage.extend s m) = cm_bp s"
  "cm_int (commit_stage.extend s m) = cm_int s" "cm_in (commit_stage.extend s m) = cm_in s"
  "cm_state (commit_stage.extend s m) = cm_state s" "cm_item (commit_stage.extend s m) = cm_item s"
  "cm_item_id (commit_stage.extend s m) = cm_item_id s" "cm_restore_id (commit_stage.extend s m) = cm_restore_id s"
  "cm_interrupt_pc (commit_stage.extend s m) = cm_interrupt_pc s"
  "cm_interrupt_id (commit_stage.extend s m) = cm_interrupt_id s"
  by (simp_all add: commit_stage.extend_def commit_vars.fields_def)

lemma vars_truncate [simp]:
  "commit_stage.truncate (l\<lparr>cm_restore_id := i\<rparr>) = commit_stage.truncate l\<lparr>cm_restore_id := i\<rparr>"
  "commit_stage.truncate (l\<lparr>cv_fb := fb\<rparr>) = commit_stage.truncate l"
  "commit_stage.truncate (l\<lparr>cv_need_flush := b\<rparr>) = commit_stage.truncate l"
  "commit_stage.truncate (l\<lparr>cm_rat := r\<rparr>) = commit_stage.truncate l\<lparr>cm_rat := r\<rparr>"
  "commit_stage.truncate (l\<lparr>cm_rob := b'\<rparr>) = commit_stage.truncate l\<lparr>cm_rob := b'\<rparr>"
  "commit_stage.truncate (l\<lparr>cm_regfile := f\<rparr>) = commit_stage.truncate l\<lparr>cm_regfile := f\<rparr>"
  "commit_stage.truncate (l\<lparr>cm_csr := c\<rparr>) = commit_stage.truncate l\<lparr>cm_csr := c\<rparr>"
  "commit_stage.truncate (l\<lparr>cm_int := n\<rparr>) = commit_stage.truncate l\<lparr>cm_int := n\<rparr>"
  "commit_stage.truncate (l\<lparr>cm_state := t\<rparr>) = commit_stage.truncate l\<lparr>cm_state := t\<rparr>"
  by (simp_all add: commit_stage.truncate_def)

definition walk_rat :: "nat \<Rightarrow> commit_stage \<Rightarrow> rat" where
  "walk_rat k s = (let x = walk_item k s in
     if old_phy_reg_id_valid x then rat_restore_map_sync (new_phy_reg_id x) (old_phy_reg_id x) (cm_rat s) else cm_rat s)"

definition walk_regfile :: "nat \<Rightarrow> commit_stage \<Rightarrow> u32 regfile" where
  "walk_regfile k s = (let x = walk_item k s in
     if old_phy_reg_id_valid x then regfile_write_sync (new_phy_reg_id x) 0 False (cm_regfile s) else cm_regfile s)"

lemma walk_undo:
  assumes "walk_ok k s"
  shows "commit_undo (commit_stage.extend s m)
    = Some ((commit_stage.extend s m)\<lparr>cm_rat := walk_rat k s, cm_regfile := walk_regfile k s\<rparr>)"
  using assms walk_item_get [of s k]
  by (auto simp: commit_undo_def walk_ok_def walk_rat_def walk_regfile_def Let_def intro!: commit_vars.equality)

lemma walk_sync:
  assumes "walk_ok k s" "undo_map (walk_item k s) (cm_rat s) = Some r"
  shows "rat_sync (walk_rat k s) = Some r \<and> rat_request_q r = [] \<and> rat_wf r \<and> phy_reg_num r = PHY_REG_NUM
    \<and> regfile_sync (walk_regfile k s) = Some (undo_value (walk_item k s) (cm_regfile s))"
proof (cases "old_phy_reg_id_valid (walk_item k s)")
  case True
  with assms have u: "rat_wf (cm_rat s)" "rat_request_q (cm_rat s) = []" "phy_reg_num (cm_rat s) = PHY_REG_NUM"
    "rat_restore_map (new_phy_reg_id (walk_item k s)) (old_phy_reg_id (walk_item k s)) (cm_rat s) = Some r"
    "regfile_inv (cm_regfile s)" "regfile_request_q (cm_regfile s) = []"
    by (simp_all add: walk_ok_def commit_quiet_def undo_map_def)
  note m = undo_map_sync [OF u(1,2,4)]
  from m(4) u(3) have "new_phy_reg_id (walk_item k s) < PHY_REG_NUM" by simp
  from undo_value_sync [OF u(5,6) this] m u(3) True show ?thesis
    by (simp add: undo_value_def walk_rat_def walk_regfile_def Let_def)
next
  case False
  with assms show ?thesis
    by (simp add: walk_ok_def commit_quiet_def undo_map_def undo_value_def walk_rat_def walk_regfile_def req_simps)
qed

lemma walk_step_run:
  assumes "walk_ok (Suc k) s"
  shows "commit_run s = Some (walk_feedback, s\<lparr>cm_rat := walk_rat (Suc k) s,
      cm_regfile := walk_regfile (Suc k) s, cm_restore_id := ring_ids (cm_rob s) ! k\<rparr>)"
proof -
  let ?l = "(commit_stage.extend s (commit_vars.fields commit_feedback_zero False))
    \<lparr>cm_rat := walk_rat (Suc k) s, cm_regfile := walk_regfile (Suc k) s\<rparr>"
  let ?m = "?l\<lparr>cm_restore_id := ring_ids (cm_rob s) ! k, cv_fb := walk_feedback\<rparr>"
  have i: "fifo_inv (cm_rob s)" "Suc k < length (ring_ids (cm_rob s))"
    "cm_item_id s = ring_ids (cm_rob s) ! 0" "cm_restore_id s = ring_ids (cm_rob s) ! Suc k"
    using assms by (simp_all add: walk_ok_def)
  have ne: "ring_ids (cm_rob s) ! Suc k \<noteq> ring_ids (cm_rob s) ! 0"
    using i(2) nth_eq_iff_index_eq [OF ring_ids_distinct [OF i(1)], of "Suc k" 0] by fastforce
  have stepped: "commit_step_back ?l = Some (True, ?m)"
    using i ne ring_prev_id_walks [OF i(1,2)]
    by (simp add: commit_step_back_def walk_feedback_def)
  have "commit_flush (commit_stage.extend s (commit_vars.fields commit_feedback_zero False)) = Some ?m"
    "commit_interrupt_flush (commit_stage.extend s (commit_vars.fields commit_feedback_zero False)) = Some ?m"
    by (simp_all add: commit_flush_def commit_interrupt_flush_def walk_undo [OF assms] stepped)
  then show ?thesis using assms by (cases "cm_state s") (simp_all add: commit_run_def walk_ok_def)
qed

lemma walk_cycle_step:
  assumes "walk_ok (Suc k) s" "undo_map (walk_item (Suc k) s) (cm_rat s) = Some r"
  shows "commit_cycle s = Some (walk_feedback, s\<lparr>cm_rat := r,
      cm_regfile := undo_value (walk_item (Suc k) s) (cm_regfile s), cm_restore_id := ring_ids (cm_rob s) ! k\<rparr>)"

    and "walk_ok k (s\<lparr>cm_rat := r,
      cm_regfile := undo_value (walk_item (Suc k) s) (cm_regfile s), cm_restore_id := ring_ids (cm_rob s) ! k\<rparr>)"
proof -
  let ?t = "s\<lparr>cm_rat := r,
      cm_regfile := undo_value (walk_item (Suc k) s) (cm_regfile s), cm_restore_id := ring_ids (cm_rob s) ! k\<rparr>"
  note run = walk_step_run [OF assms(1)]
  note w = walk_sync [OF assms]
  show "commit_cycle s = Some (walk_feedback, ?t)"
    using assms(1) w unfolding commit_cycle_def run
    by (simp add: commit_sync_def walk_ok_def commit_quiet_def req_simps)
  show "walk_ok k ?t"
    using assms(1) w undo_value_inv by (simp add: walk_ok_def commit_quiet_def)
qed

section \<open>The last step of the walk\<close>

text \<open>Deferred writes to registers that are not the character port: each reads back filtered.\<close>

definition csr_class_at :: "csrfile \<Rightarrow> u32 \<Rightarrow> csr_class option" where
  "csr_class_at f a = map_option ci_class (csr_map_table f a)"

definition csr_last :: "(u32 \<Rightarrow> csr_class option) \<Rightarrow> (u32 \<times> u32) list \<Rightarrow> u32 \<Rightarrow> u32 option \<Rightarrow> u32 option" where
  "csr_last cl ws b x = fold (\<lambda>(a, v) x. if a = b then Some (csr_filter (the (cl a)) v) else x) ws x"

definition csr_writes :: "(u32 \<times> u32) list \<Rightarrow> csr_request list" where
  "csr_writes ws = map (\<lambda>(a, v). Csr_write_sys a v) ws"

lemma csr_last_simps [simp]:
  "csr_last cl [] b x = x"
  "csr_last cl ((a, v) # ws) b x = csr_last cl ws b (if a = b then Some (csr_filter (the (cl a)) v) else x)"
  by (simp_all add: csr_last_def)

lemma csr_write_sys_plain:
  assumes "csr_class_at f a = Some c" "c \<noteq> charfifo"
  shows "\<exists>g. csrfile_write_sys a v f = Some g \<and> csr_class_at g = csr_class_at f \<and> csr_request_q g = csr_request_q f
    \<and> (\<forall>b. csrfile_read_sys g b = (if a = b then Some (csr_filter c v) else csrfile_read_sys f b))"
proof -
  obtain i where i: "csr_map_table f a = Some i" "ci_class i = c" using assms(1) by (auto simp: csr_class_at_def)
  then show ?thesis using assms(2)
    by (auto simp: csrfile_write_sys_def csrfile_write_item_def csr_class_at_def csrfile_read_sys_def
        csrfile_read_item_def fun_eq_iff split: option.split)
qed

lemma csr_writes_replay:
  assumes "\<forall>w \<in> set ws. \<exists>c. csr_class_at f (fst w) = Some c \<and> c \<noteq> charfifo"
  shows "\<exists>g. fold_opt csrfile_apply (csr_writes ws) f = Some g \<and> csr_class_at g = csr_class_at f
    \<and> csr_request_q g = csr_request_q f \<and> (\<forall>b. csrfile_read_sys g b = csr_last (csr_class_at f) ws b (csrfile_read_sys f b))"
  using assms
proof (induction ws arbitrary: f)
  case (Cons w ws)
  obtain a v where w: "w = (a, v)" by (cases w)
  with Cons.prems obtain c where c: "csr_class_at f a = Some c" "c \<noteq> charfifo" by auto
  from csr_write_sys_plain [OF this, of v] obtain g where
    g: "csrfile_write_sys a v f = Some g" "csr_class_at g = csr_class_at f" "csr_request_q g = csr_request_q f"
      "\<And>b. csrfile_read_sys g b = (if a = b then Some (csr_filter c v) else csrfile_read_sys f b)" by blast
  with Cons.IH [of g] Cons.prems g c show ?case by (auto simp: w csr_writes_def)
qed (simp add: csr_writes_def)

lemma csr_writes_sync:
  assumes "csr_request_q f = []" "csr_request_q g = csr_writes ws" "csr_map_table g = csr_map_table f"
    "charfifo_send g = charfifo_send f" "charfifo_rev g = charfifo_rev f"
    and "\<forall>w \<in> set ws. \<exists>c. csr_class_at f (fst w) = Some c \<and> c \<noteq> charfifo"
  shows "\<exists>h. csrfile_sync g = Some h \<and> csr_class_at h = csr_class_at f \<and> csr_request_q h = []
    \<and> (\<forall>b. csrfile_read_sys h b = csr_last (csr_class_at f) ws b (csrfile_read_sys f b))"
proof -
  have c: "csr_class_at g = csr_class_at f" and r: "\<And>b. csrfile_read_sys g b = csrfile_read_sys f b"
    using assms(3-5) by (auto simp: csr_class_at_def csrfile_read_sys_def csrfile_read_item_def fun_eq_iff split: option.split)
  from csr_writes_replay [of ws g] assms(6) c obtain h where
    h: "fold_opt csrfile_apply (csr_writes ws) g = Some h" "csr_class_at h = csr_class_at f"
      "\<And>b. csrfile_read_sys h b = csr_last (csr_class_at g) ws b (csrfile_read_sys g b)" by auto
  have "csr_class_at (h\<lparr>csr_request_q := []\<rparr>) = csr_class_at f"
    "csrfile_read_sys (h\<lparr>csr_request_q := []\<rparr>) b = csr_last (csr_class_at f) ws b (csrfile_read_sys f b)" for b
  proof -
    show "csr_class_at (h\<lparr>csr_request_q := []\<rparr>) = csr_class_at f" using h(2) by (simp add: csr_class_at_def fun_eq_iff)
    have "csrfile_read_sys (h\<lparr>csr_request_q := []\<rparr>) b = csrfile_read_sys h b"
      by (simp add: csrfile_read_sys_def csrfile_read_item_def split: option.split)
    then show "csrfile_read_sys (h\<lparr>csr_request_q := []\<rparr>) b = csr_last (csr_class_at f) ws b (csrfile_read_sys f b)"
      by (simp add: h(3) r c)
  qed
  with h(1) assms(2) show ?thesis by (simp add: csrfile_sync_def)
qed

definition trap_ready :: "commit_stage \<Rightarrow> bool" where
  "trap_ready s = (\<forall>(a, c) \<in> {(CSR_MEPC, mepc), (CSR_MTVAL, mtval), (CSR_MCAUSE, mcause), (CSR_MTVEC, mtvec),
     (CSR_MSTATUS, mstatus)}. csr_class_at (cm_csr s) a = Some c)"

definition trap_mstatus :: "csrfile \<Rightarrow> u32" where
  "trap_mstatus c = (let v = the (csrfile_read_sys c CSR_MSTATUS) in mstatus_set_mie False (mstatus_set_mpie (mstatus_get_mie v) v))"

definition trap_writes :: "commit_stage \<Rightarrow> (u32 \<times> u32) list" where
  "trap_writes s = (if cm_state s = St_interrupt_flush
     then [(CSR_MEPC, cm_interrupt_pc s), (CSR_MTVAL, 0), (CSR_MCAUSE, 0x80000000 OR interrupt_code (cm_interrupt_id s)),
           (CSR_MSTATUS, trap_mstatus (cm_csr s))]
     else [(CSR_MEPC, ri_pc (cm_item s)), (CSR_MTVAL, ri_exception_value (cm_item s)),
           (CSR_MCAUSE, exception_code (ri_exception_id (cm_item s)))])"

definition trap_acked :: "commit_stage \<Rightarrow> interrupt_interface" where
  "trap_acked s = (if cm_state s = St_interrupt_flush then int_set_ack (cm_interrupt_id s) (cm_int s) else cm_int s)"

definition trap_feedback :: "csrfile \<Rightarrow> commit_feedback_pack_t" where
  "trap_feedback c = walk_feedback\<lparr>cf_has_exception := True, cf_exception_pc := the (csrfile_read_sys c CSR_MTVEC)\<rparr>"

definition rob_emptied :: "rob \<Rightarrow> rob" where
  "rob_emptied b = rob_add_commit_num 1 (rob_set_committed True (fifo_flush b))"

lemma trap_ready_classes:
  assumes "trap_ready s"
  shows "csr_class_at (cm_csr s) CSR_MEPC = Some mepc" "csr_class_at (cm_csr s) CSR_MTVAL = Some mtval"
    "csr_class_at (cm_csr s) CSR_MCAUSE = Some mcause" "csr_class_at (cm_csr s) CSR_MTVEC = Some mtvec"
    "csr_class_at (cm_csr s) CSR_MSTATUS = Some mstatus"
  using assms by (simp_all add: trap_ready_def)

lemma csr_class_read: "csr_class_at f a = Some c \<Longrightarrow> csrfile_read_sys f a = Some (the (csrfile_read_sys f a))"
  by (auto simp: csr_class_at_def csrfile_read_sys_def)

lemma trap_ready_writes: "trap_ready s \<Longrightarrow> \<forall>w \<in> set (trap_writes s). \<exists>c. csr_class_at (cm_csr s) (fst w) = Some c \<and> c \<noteq> charfifo"
  by (simp add: trap_writes_def trap_ready_def)

definition walk_requested :: "commit_stage \<Rightarrow> commit_stage" where
  "walk_requested s = s\<lparr>cm_rat := walk_rat 0 s, cm_regfile := walk_regfile 0 s, cm_rob := rob_emptied (cm_rob s),
     cm_csr := (cm_csr s)\<lparr>csr_request_q := csr_writes (trap_writes s)\<rparr>, cm_state := St_normal,
     cm_int := (cm_int s)\<lparr>int_request_q := if cm_state s = St_interrupt_flush then [cm_interrupt_id s] else []\<rparr>\<rparr>"

lemma walk_last_run:
  assumes "walk_ok 0 s" "trap_ready s"
  shows "commit_run s = Some (trap_feedback (cm_csr s), walk_requested s)"
proof -
  let ?e = "commit_stage.extend s (commit_vars.fields commit_feedback_zero False)"
  let ?l = "?e\<lparr>cm_rat := walk_rat 0 s, cm_regfile := walk_regfile 0 s\<rparr>"
  have i: "fifo_inv (cm_rob s)" "0 < length (ring_ids (cm_rob s))" "commit_quiet s"
    "cm_item_id s = ring_ids (cm_rob s) ! 0" "cm_restore_id s = ring_ids (cm_rob s) ! 0" "cm_state s \<noteq> St_normal"
    using assms(1) by (simp_all add: walk_ok_def)
  have stepped: "commit_step_back ?l = Some (False, ?l)"
    using i ring_prev_id_walks [OF i(1,2)] by (simp add: commit_step_back_def)
  note c = trap_ready_classes [OF assms(2)]
  obtain tv mv where rd: "csrfile_read_sys (cm_csr s) CSR_MTVEC = Some tv" "csrfile_read_sys (cm_csr s) CSR_MSTATUS = Some mv"
    using csr_class_read c(4,5) by blast
  have rq: "csrfile_read_sys (csrfile_write_sys_sync a' v f) a = csrfile_read_sys f a" for f a' v a
    by (simp add: csrfile_write_sys_sync_def csrfile_read_sys_def csrfile_read_item_def split: option.split)
  show ?thesis
  proof (cases "cm_state s")
    case St_flush
    have "commit_flush ?e = commit_resume (commit_trap (ri_pc (cm_item s)) (ri_exception_value (cm_item s))
            (exception_code (ri_exception_id (cm_item s))) ?l)"
      by (simp add: commit_flush_def walk_undo [OF assms(1)] stepped)
    then show ?thesis using i(3) St_flush
      by (simp add: commit_run_def commit_resume_def commit_trap_def rq rd trap_feedback_def walk_feedback_def
          walk_requested_def rob_emptied_def)
        (simp add: csrfile_write_sys_sync_def trap_writes_def csr_writes_def commit_quiet_def)
  next
    case St_interrupt_flush
    have "commit_interrupt_flush ?e = commit_resume (let l = commit_trap (cm_interrupt_pc s) 0 (0x80000000 OR interrupt_code (cm_interrupt_id s)) ?l
        in l\<lparr>cm_csr := csrfile_write_sys_sync CSR_MSTATUS (trap_mstatus (cm_csr s)) (cm_csr l),
             cm_int := int_set_ack_sync (cm_interrupt_id s) (cm_int s)\<rparr>)"
      by (simp add: commit_interrupt_flush_def walk_undo [OF assms(1)] stepped commit_trap_def rq rd trap_mstatus_def Let_def)
    then show ?thesis using i(3) St_interrupt_flush
      by (simp add: commit_run_def commit_resume_def commit_trap_def rq rd trap_feedback_def walk_feedback_def
          walk_requested_def rob_emptied_def)
        (simp add: csrfile_write_sys_sync_def trap_writes_def csr_writes_def commit_quiet_def int_set_ack_sync_def)
  qed (use i(6) in simp)
qed

definition trapped :: "commit_stage \<Rightarrow> csrfile \<Rightarrow> bool" where
  "trapped s c = (csr_request_q c = []
     \<and> (\<forall>b. csrfile_read_sys c b = csr_last (csr_class_at (cm_csr s)) (trap_writes s) b (csrfile_read_sys (cm_csr s) b)))"

lemma walk_last_cycle:
  assumes "walk_ok 0 s" "trap_ready s" "undo_map (walk_item 0 s) (cm_rat s) = Some r"
  shows "\<exists>c. trapped s c \<and> commit_cycle s = Some (trap_feedback (cm_csr s), s\<lparr>cm_rat := r,
      cm_regfile := undo_value (walk_item 0 s) (cm_regfile s), cm_rob := rob_emptied (cm_rob s), cm_csr := c,
      cm_state := St_normal, cm_int := trap_acked s\<rparr>)"
proof -
  let ?c = "(cm_csr s)\<lparr>csr_request_q := csr_writes (trap_writes s)\<rparr>"
  have q: "commit_quiet s" using assms(1) by (simp add: walk_ok_def)
  from csr_writes_sync [of "cm_csr s" ?c "trap_writes s"] trap_ready_writes [OF assms(2)] q obtain c where
    c: "csrfile_sync ?c = Some c" "trapped s c"
    by (auto simp: commit_quiet_def trapped_def)
  have n: "int_sync ((cm_int s)\<lparr>int_request_q := if cm_state s = St_interrupt_flush then [cm_interrupt_id s] else []\<rparr>)
      = Some (trap_acked s)"
    using q by (cases "cm_interrupt_id s")
      (auto simp: int_sync_def trap_acked_def commit_quiet_def intro!: interrupt_interface.equality)
  note w = walk_sync [OF assms(1,3)]
  have "rob_request_q (rob_emptied (cm_rob s)) = []"
    using q by (simp add: rob_emptied_def rob_add_commit_num_def rob_set_committed_def fifo_flush_def commit_quiet_def)
  with q w c(1) n have "commit_sync (walk_requested s) = Some (s\<lparr>cm_rat := r,
      cm_regfile := undo_value (walk_item 0 s) (cm_regfile s), cm_rob := rob_emptied (cm_rob s), cm_csr := c,
      cm_state := St_normal, cm_int := trap_acked s\<rparr>)"
    by (simp add: commit_sync_def walk_requested_def commit_quiet_def req_simps)
  with c(2) show ?thesis by (auto simp: commit_cycle_def walk_last_run [OF assms(1,2)])
qed

section \<open>The whole walk\<close>

fun commit_cycles :: "nat \<Rightarrow> commit_stage \<Rightarrow> (commit_feedback_pack_t list \<times> commit_stage) option" where
  "commit_cycles 0 s = Some ([], s)"
| "commit_cycles (Suc n) s = do {
     (fb, t) \<leftarrow> commit_cycle s;
     (fbs, u) \<leftarrow> commit_cycles n t;
     Some (fb # fbs, u) }"

definition undo_values :: "rob_item_t list \<Rightarrow> u32 regfile \<Rightarrow> u32 regfile" where
  "undo_values xs f = foldr undo_value xs f"

lemma undo_pairs_rollback:
  "rat_rollback (undo_pairs (xs @ [x])) r = do { t \<leftarrow> undo_map x r; rat_rollback (undo_pairs xs) t }"
  "rat_rollback (undo_pairs []) r = Some r"
  by (auto simp: undo_pairs_def rat_rollback_def undo_map_def)

definition walked :: "commit_stage \<Rightarrow> rat \<Rightarrow> u32 regfile \<Rightarrow> csrfile \<Rightarrow> nat \<Rightarrow> commit_stage" where
  "walked s r f c i = s\<lparr>cm_rat := r, cm_regfile := f, cm_rob := rob_emptied (cm_rob s), cm_csr := c,
      cm_state := St_normal, cm_int := trap_acked s, cm_restore_id := i\<rparr>"

lemma walk_all:
  assumes "walk_ok k s" "trap_ready s"
    and "rat_rollback (undo_pairs (map (\<lambda>j. walk_item j s) [0..<Suc k])) (cm_rat s) = Some r"
  shows "\<exists>c i. trapped s c \<and> commit_cycles (Suc k) s = Some (replicate k walk_feedback @ [trap_feedback (cm_csr s)],
      walked s r (undo_values (map (\<lambda>j. walk_item j s) [0..<Suc k]) (cm_regfile s)) c i)"
  using assms
proof (induction k arbitrary: s)
  case 0
  then have "undo_map (walk_item 0 s) (cm_rat s) = Some r"
    using undo_pairs_rollback(1) [of "[]" "walk_item 0 s"] by (auto simp: undo_pairs_rollback(2) bind_eq_Some_conv)
  from walk_last_cycle [OF 0(1,2) this] obtain c where c: "trapped s c"
    "commit_cycle s = Some (trap_feedback (cm_csr s), s\<lparr>cm_rat := r,
      cm_regfile := undo_value (walk_item 0 s) (cm_regfile s), cm_rob := rob_emptied (cm_rob s), cm_csr := c,
      cm_state := St_normal, cm_int := trap_acked s\<rparr>)" by blast
  show ?case
    by (rule exI [of _ c], rule exI [of _ "cm_restore_id s"])
      (simp add: c walked_def undo_values_def)
next
  case (Suc k)
  let ?x = "walk_item (Suc k) s"
  have "rat_rollback (undo_pairs (map (\<lambda>j. walk_item j s) [0..<Suc k] @ [?x])) (cm_rat s) = Some r"
    using Suc.prems(3) by simp
  then obtain t where t: "undo_map ?x (cm_rat s) = Some t"
      "rat_rollback (undo_pairs (map (\<lambda>j. walk_item j s) [0..<Suc k])) t = Some r"
    by (auto simp only: undo_pairs_rollback bind_eq_Some_conv)
  define u where "u = s\<lparr>cm_rat := t, cm_regfile := undo_value ?x (cm_regfile s), cm_restore_id := ring_ids (cm_rob s) ! k\<rparr>"
  note w = walk_cycle_step [OF Suc.prems(1) t(1), folded u_def]
  have it: "walk_item j u = walk_item j s" for j by (simp add: u_def walk_item_def)
  have same: "trap_ready u = trap_ready s" "trapped u = trapped s" "trap_feedback (cm_csr u) = trap_feedback (cm_csr s)"
    by (simp_all add: u_def trap_ready_def trapped_def trap_writes_def fun_eq_iff)
  from Suc.IH [of u] w(2) Suc.prems(2) t(2) obtain c i where
    c: "trapped s c" "commit_cycles (Suc k) u = Some (replicate k walk_feedback @ [trap_feedback (cm_csr s)],
      walked u r (undo_values (map (\<lambda>j. walk_item j s) [0..<Suc k]) (cm_regfile u)) c i)"
    unfolding it same by (auto simp: u_def)
  have "walked u r f c i = walked s r f c i" for f
    by (simp add: walked_def u_def trap_acked_def)
  moreover have "undo_values (map (\<lambda>j. walk_item j s) [0..<Suc k]) (cm_regfile u)
      = undo_values (map (\<lambda>j. walk_item j s) [0..<Suc (Suc k)]) (cm_regfile s)"
    by (simp add: undo_values_def u_def)
  ultimately have "commit_cycles (Suc (Suc k)) s = Some (replicate (Suc k) walk_feedback @ [trap_feedback (cm_csr s)],
      walked s r (undo_values (map (\<lambda>j. walk_item j s) [0..<Suc (Suc k)]) (cm_regfile s)) c i)"
    using c(2) by (subst commit_cycles.simps(2)) (simp add: w(1) del: commit_cycles.simps upt_Suc)
  with c(1) show ?case by blast
qed

lemma walk_items: "fifo_inv (cm_rob s) \<Longrightarrow> map (\<lambda>j. walk_item j s) [0..<length (ring_ids (cm_rob s))] = fifo_items (cm_rob s)"
  by (rule nth_equalityI) (simp_all add: ring_ids_items walk_item_def)

lemma undo_values_keep:
  assumes "regfile_inv f" "\<forall>x \<in> set xs. old_phy_reg_id_valid x \<longrightarrow> new_phy_reg_id x < PHY_REG_NUM \<and> new_phy_reg_id x \<noteq> i"
    and "i < PHY_REG_NUM"
  shows "regfile_inv (undo_values xs f)" "regfile_read (undo_values xs f) i = regfile_read f i"
    "regfile_read_data_valid (undo_values xs f) i = regfile_read_data_valid f i"
    "regfile_request_q (undo_values xs f) = regfile_request_q f"
proof -
  have "regfile_inv (undo_values xs f) \<and> reg_data (undo_values xs f) ! i = reg_data f ! i
      \<and> bm_bit (reg_data_valid (undo_values xs f)) i = bm_bit (reg_data_valid f) i
      \<and> regfile_request_q (undo_values xs f) = regfile_request_q f"
    using assms(2)
  proof (induction xs)
    case (Cons x xs)
    let ?g = "undo_values xs f"
    have l: "length (reg_data_valid ?g) = bm_words PHY_REG_NUM" using Cons by (simp add: regfile_inv_def)
    have "undo_values (x # xs) f = undo_value x ?g" by (simp add: undo_values_def)
    then show ?case using Cons undo_value_inv [where f = ?g] bm_bit_put [OF l, of "new_phy_reg_id x" False i]
      by (auto simp: undo_value_def)
  qed (use assms(1) in \<open>simp add: undo_values_def\<close>)
  then show "regfile_inv (undo_values xs f)" "regfile_read (undo_values xs f) i = regfile_read f i"
    "regfile_read_data_valid (undo_values xs f) i = regfile_read_data_valid f i"
    "regfile_request_q (undo_values xs f) = regfile_request_q f"
    using assms(1,3) by (simp_all add: regfile_read_eq regfile_read_data_valid_eq)
qed

text \<open>Where the walk starts: at the youngest entry, towards the oldest, the trapping one.\<close>

definition walk_start :: "(nat \<Rightarrow> nat option) \<Rightarrow> commit_stage \<Rightarrow> bool" where
  "walk_start m s = (commit_quiet s \<and> cm_state s \<noteq> St_normal \<and> fifo_inv (cm_rob s) \<and> regfile_inv (cm_regfile s)
     \<and> trap_ready s \<and> fifo_items (cm_rob s) \<noteq> [] \<and> ring_get_front_id (cm_rob s) = Some (cm_item_id s)
     \<and> ring_get_tail_id (cm_rob s) = Some (cm_restore_id s) \<and> in_flight m (fifo_items (cm_rob s)) (cm_rat s))"

text \<open>What it leaves: the committed mapping with its values, and nothing in flight.  The checkpoints
  are not touched, and the trap counts as one committed instruction.\<close>

definition walk_done :: "(nat \<Rightarrow> nat option) \<Rightarrow> commit_stage \<Rightarrow> commit_feedback_pack_t list \<Rightarrow> commit_stage \<Rightarrow> bool" where
  "walk_done m s fbs t = (cm_state t = St_normal \<and> fifo_items (cm_rob t) = [] \<and> in_flight m [] (cm_rat t)
     \<and> (\<forall>a p. m a = Some p \<longrightarrow> regfile_read (cm_regfile t) p = regfile_read (cm_regfile s) p
          \<and> regfile_read_data_valid (cm_regfile t) p = regfile_read_data_valid (cm_regfile s) p)
     \<and> list_all cf_flushing fbs
     \<and> map cf_has_exception fbs = replicate (length (fifo_items (cm_rob s)) - 1) False @ [True]
     \<and> csrfile_read_sys (cm_csr s) CSR_MTVEC = Some (cf_exception_pc (last fbs))
     \<and> cm_cpbuf t = cm_cpbuf s \<and> global_commit_num (cm_rob t) = global_commit_num (cm_rob s) + 1)"

lemma walk_start_ok:
  assumes "walk_start m s"
  obtains k where "length (fifo_items (cm_rob s)) = Suc k" "walk_ok k s" "map (\<lambda>j. walk_item j s) [0..<Suc k] = fifo_items (cm_rob s)"
proof -
  have a: "commit_quiet s" "cm_state s \<noteq> St_normal" "fifo_inv (cm_rob s)" "regfile_inv (cm_regfile s)"
    "fifo_items (cm_rob s) \<noteq> []" "in_flight m (fifo_items (cm_rob s)) (cm_rat s)"
    using assms by (simp_all add: walk_start_def)
  let ?ids = "ring_ids (cm_rob s)"
  have ne: "?ids \<noteq> []" using a(5) ring_ids_items [OF a(3)] by auto
  then obtain k where k: "length ?ids = Suc k" by (cases ?ids) auto
  have "cm_item_id s = ?ids ! 0" "cm_restore_id s = ?ids ! k"
    using assms ne k ring_front_id [OF a(3)] ring_tail_id [OF a(3)]
    by (auto simp: walk_start_def last_conv_nth split: list.splits)
  moreover have "rat_wf (cm_rat s)" "phy_reg_num (cm_rat s) = PHY_REG_NUM"
    using in_flight_lookup(1) [OF a(6)] rat_inv_wf by (auto simp: rat_running_def)
  ultimately have "walk_ok k s" using a k by (simp add: walk_ok_def)
  with that k ring_ids_length [OF a(3)] walk_items [OF a(3)] show thesis by simp
qed

lemma committed_values_kept:
  assumes "walk_start m s" "m a = Some p"
  shows "regfile_read (undo_values (fifo_items (cm_rob s)) (cm_regfile s)) p = regfile_read (cm_regfile s) p"
    "regfile_read_data_valid (undo_values (fifo_items (cm_rob s)) (cm_regfile s)) p = regfile_read_data_valid (cm_regfile s) p"
proof -
  have a: "regfile_inv (cm_regfile s)" "in_flight m (fifo_items (cm_rob s)) (cm_rat s)" using assms(1) by (simp_all add: walk_start_def)
  obtain r where "in_flight m [] r" using in_flight_undo_all [OF a(2)] by blast
  then have "p < PHY_REG_NUM" using assms(2) by (auto simp: in_flight_def rat_holds_def)
  moreover have "Some p \<in> range m" using assms(2) by (metis rangeI)
  ultimately show "regfile_read (undo_values (fifo_items (cm_rob s)) (cm_regfile s)) p = regfile_read (cm_regfile s) p"
    "regfile_read_data_valid (undo_values (fifo_items (cm_rob s)) (cm_regfile s)) p = regfile_read_data_valid (cm_regfile s) p"
    using undo_values_keep(2,3) [OF a(1), of "fifo_items (cm_rob s)" p] in_flight_regs(1,2) [OF a(2)] by auto
qed

lemma walk_restores:
  assumes "walk_start m s"
  shows "\<exists>fbs t. commit_cycles (length (fifo_items (cm_rob s))) s = Some (fbs, t) \<and> walk_done m s fbs t
    \<and> trapped s (cm_csr t) \<and> cm_int t = trap_acked s"
proof -
  have a: "trap_ready s" "in_flight m (fifo_items (cm_rob s)) (cm_rat s)" using assms by (simp_all add: walk_start_def)
  obtain k where k: "length (fifo_items (cm_rob s)) = Suc k" "walk_ok k s" "map (\<lambda>j. walk_item j s) [0..<Suc k] = fifo_items (cm_rob s)"
    by (rule walk_start_ok [OF assms])
  from in_flight_undo_all [OF a(2)] obtain r where r: "rat_rollback (undo_pairs (fifo_items (cm_rob s))) (cm_rat s) = Some r"
    "in_flight m [] r" by blast
  from walk_all [OF k(2) a(1)] r(1) k(3) obtain c i where
    c: "trapped s c" "commit_cycles (Suc k) s = Some (replicate k walk_feedback @ [trap_feedback (cm_csr s)],
      walked s r (undo_values (fifo_items (cm_rob s)) (cm_regfile s)) c i)" by (auto simp del: upt_Suc)
  let ?t = "walked s r (undo_values (fifo_items (cm_rob s)) (cm_regfile s)) c i"
  have "regfile_read (cm_regfile ?t) p = regfile_read (cm_regfile s) p
      \<and> regfile_read_data_valid (cm_regfile ?t) p = regfile_read_data_valid (cm_regfile s) p" if "m a = Some p" for a p
    using committed_values_kept [OF assms that] by (simp add: walked_def)
  moreover have "fifo_items (cm_rob ?t) = []"
    by (simp add: walked_def rob_emptied_def rob_add_commit_num_def rob_set_committed_def fifo_flush_def
        fifo_items_def ring_items_def)
  moreover have "csrfile_read_sys (cm_csr s) CSR_MTVEC = Some (cf_exception_pc (trap_feedback (cm_csr s)))"
    using csr_class_read [OF trap_ready_classes(4) [OF a(1)]] by (simp add: trap_feedback_def)
  moreover have "cm_cpbuf ?t = cm_cpbuf s" "global_commit_num (cm_rob ?t) = global_commit_num (cm_rob s) + 1"
    by (simp_all add: walked_def rob_emptied_def rob_add_commit_num_def rob_set_committed_def fifo_flush_def)
  ultimately have "walk_done m s (replicate k walk_feedback @ [trap_feedback (cm_csr s)]) ?t"
    using r(2) by (simp add: walk_done_def k(1) walked_def walk_feedback_def trap_feedback_def commit_feedback_zero_def
        cf_flushing_def list_all_iff)
  with c k(1) show ?thesis
    by (intro exI [of _ "replicate k walk_feedback @ [trap_feedback (cm_csr s)]"] exI [of _ ?t]) (simp add: walked_def)
qed

lemma csr_trap_addresses [simp]:
  "CSR_MEPC \<noteq> CSR_MTVAL" "CSR_MEPC \<noteq> CSR_MCAUSE" "CSR_MEPC \<noteq> CSR_MSTATUS" "CSR_MTVAL \<noteq> CSR_MEPC" "CSR_MTVAL \<noteq> CSR_MCAUSE"
  "CSR_MTVAL \<noteq> CSR_MSTATUS" "CSR_MCAUSE \<noteq> CSR_MEPC" "CSR_MCAUSE \<noteq> CSR_MTVAL" "CSR_MCAUSE \<noteq> CSR_MSTATUS"
  "CSR_MSTATUS \<noteq> CSR_MEPC" "CSR_MSTATUS \<noteq> CSR_MTVAL" "CSR_MSTATUS \<noteq> CSR_MCAUSE"
  by (simp_all add: CSR_MEPC_def CSR_MTVAL_def CSR_MCAUSE_def CSR_MSTATUS_def)

lemma trap_mstatus_bits:
  assumes "csrfile_read_sys c CSR_MSTATUS = Some v"
  shows "csr_filter mstatus (trap_mstatus c) = trap_mstatus c" "\<not> mstatus_get_mie (trap_mstatus c)"
    "mstatus_get_mpie (trap_mstatus c) = mstatus_get_mie v"
proof -
  have mask: "bit (0x88 :: u32) n \<longleftrightarrow> n = 3 \<or> n = 7" for n
  proof -
    have "(0x88 :: u32) = push_bit 3 1 OR push_bit 7 1" by simp
    then show ?thesis by (simp only: bit_or_iff bit_push_bit_iff bit_1_iff) auto
  qed
  have nb: "bit (NOT (push_bit k 1) :: u32) n \<longleftrightarrow> n < 32 \<and> n \<noteq> k" if "k < 32" for k n
    by (simp only: bit_not_iff bit_push_bit_iff bit_1_iff) (use that in auto)
  have b: "bit (csr_setbit mstatus k x y) n \<longleftrightarrow> (n = 3 \<or> n = 7) \<and> (if n = k then x else bit y n)" if "k < 32" for k x y n
    using that by (simp only: csr_setbit_def csr_filter.simps mstatus_filter_def bit_and_iff bit_or_iff bit_push_bool mask nb)
      (auto dest: bit_imp_le_length)
  have t: "bit (trap_mstatus c) n \<longleftrightarrow> n = 7 \<and> bit v 3" for n
    using assms by (auto simp: trap_mstatus_def mstatus_set_mie_def mstatus_set_mpie_def mstatus_get_mie_def b)
  show "csr_filter mstatus (trap_mstatus c) = trap_mstatus c"
    by (rule bit_word_eqI) (auto simp: mstatus_filter_def bit_and_iff mask t)
  show "\<not> mstatus_get_mie (trap_mstatus c)" "mstatus_get_mpie (trap_mstatus c) = mstatus_get_mie v"
    using t by (simp_all add: mstatus_get_mie_def mstatus_get_mpie_def)
qed

text \<open>C4: an exception is precise.  From the cycle after its detection the stage walks the reorder
  buffer back, one entry per cycle, and after exactly as many cycles as there are entries it is in its
  normal state with an empty reorder buffer; all the while the pipeline is kept flushed, and the last
  cycle sends it to the trap vector.  The alias table is then that of the committed instructions with
  no register lost, every committed register has kept its value, and \<open>mepc\<close>, \<open>mtval\<close> and
  \<open>mcause\<close> describe the exception while no other control register has changed.\<close>

theorem commit_exception_is_precise:
  assumes "walk_start m s" "cm_state s = St_flush"
  shows "\<exists>fbs t. commit_cycles (length (fifo_items (cm_rob s))) s = Some (fbs, t) \<and> walk_done m s fbs t
    \<and> csrfile_read_sys (cm_csr t) CSR_MEPC = Some (ri_pc (cm_item s) AND NOT 3)
    \<and> csrfile_read_sys (cm_csr t) CSR_MTVAL = Some (ri_exception_value (cm_item s))
    \<and> csrfile_read_sys (cm_csr t) CSR_MCAUSE = Some (exception_code (ri_exception_id (cm_item s)))
    \<and> (\<forall>b. b \<notin> {CSR_MEPC, CSR_MTVAL, CSR_MCAUSE} \<longrightarrow> csrfile_read_sys (cm_csr t) b = csrfile_read_sys (cm_csr s) b)
    \<and> cm_int t = cm_int s"
proof -
  have c: "trap_ready s" using assms(1) by (simp add: walk_start_def)
  from walk_restores [OF assms(1)] obtain fbs t where
    t: "commit_cycles (length (fifo_items (cm_rob s))) s = Some (fbs, t)" "walk_done m s fbs t" "trapped s (cm_csr t)"
      "cm_int t = trap_acked s" by blast
  then show ?thesis
    using assms(2) by (intro exI [of _ fbs] exI [of _ t])
      (simp add: trapped_def trap_writes_def trap_ready_classes [OF c] mepc_filter_def trap_acked_def)
qed

text \<open>C6: an interrupt takes the same way; it records the address of the oldest instruction, which it
  has not retired, as \<open>mepc\<close> and its cause with the top bit set, disables interrupts keeping the
  previous setting in \<open>mstatus.MPIE\<close>, and is acknowledged.\<close>

theorem commit_interrupt_is_taken:
  assumes "walk_start m s" "cm_state s = St_interrupt_flush" "csrfile_read_sys (cm_csr s) CSR_MSTATUS = Some st"
  shows "\<exists>fbs t v. commit_cycles (length (fifo_items (cm_rob s))) s = Some (fbs, t) \<and> walk_done m s fbs t
    \<and> csrfile_read_sys (cm_csr t) CSR_MEPC = Some (cm_interrupt_pc s AND NOT 3)
    \<and> csrfile_read_sys (cm_csr t) CSR_MTVAL = Some 0
    \<and> csrfile_read_sys (cm_csr t) CSR_MCAUSE = Some (0x80000000 OR interrupt_code (cm_interrupt_id s))
    \<and> csrfile_read_sys (cm_csr t) CSR_MSTATUS = Some v \<and> \<not> mstatus_get_mie v \<and> mstatus_get_mpie v = mstatus_get_mie st
    \<and> (cm_interrupt_id s \<in> {machine_external, machine_software, machine_timer} \<longrightarrow>
         int_get_ack (cm_int t) (cm_interrupt_id s))"
proof -
  have c: "trap_ready s" using assms(1) by (simp add: walk_start_def)
  from walk_restores [OF assms(1)] obtain fbs t where
    t: "commit_cycles (length (fifo_items (cm_rob s))) s = Some (fbs, t)" "walk_done m s fbs t" "trapped s (cm_csr t)"
      "cm_int t = trap_acked s" by blast
  note b = trap_mstatus_bits [OF assms(3)]
  have "cm_interrupt_id s \<in> {machine_external, machine_software, machine_timer} \<longrightarrow>
         int_get_ack (cm_int t) (cm_interrupt_id s)"
    using assms(2) t(4) by (auto simp: trap_acked_def)
  then show ?thesis
    using t(1-3) assms(2) b by (intro exI [of _ fbs] exI [of _ t] exI [of _ "trap_mstatus (cm_csr s)"])
      (simp add: trapped_def trap_writes_def trap_ready_classes [OF c] mepc_filter_def)
qed

section \<open>A concrete trap\<close>

text \<open>An illegal instruction and a younger \<open>add x5, ..\<close>, renamed to register 40, in a fresh processor.\<close>

lemma booted_holds:
  assumes "rat_inv r" "\<not> init_rat r" "phy_reg_num r = PHY_REG_NUM" "arch_reg_num r = ARCH_REG_NUM"
    and "\<forall>a. rat_lookup r a = (if 1 \<le> a \<and> a < 32 then Some a else None)" "\<forall>j < PHY_REG_NUM. vld r j = (1 \<le> j \<and> j < 32)"
  shows "rat_holds (rat_lookup r) [] r"
proof -
  have d: "dom (rat_lookup r) = {0 <..< ARCH_REG_NUM}" using assms(5) by (auto simp: dom_def ARCH_REG_NUM_def)
  have v: "vld r q \<longleftrightarrow> Some q \<in> range (rat_lookup r)" if "q < PHY_REG_NUM" for q
  proof
    assume "vld r q"
    then have "rat_lookup r q = Some q" using assms(5,6) that by simp
    then show "Some q \<in> range (rat_lookup r)" by (metis rangeI)
  next
    assume "Some q \<in> range (rat_lookup r)"
    then obtain a where "rat_lookup r a = Some q" by (metis rangeE)
    then show "vld r q" using rat_lookup_bound [OF assms(1)] by blast
  qed
  have "rat_lookup r a = Some q \<Longrightarrow> q < PHY_REG_NUM \<and> phy_map_table r ! q = a" for a q
    using rat_lookup_bound [OF assms(1), of a q] assms(3) by simp
  with d v assms(1-4) show ?thesis by (simp add: rat_holds_def rat_running_def)
qed

lemma rat_start_holds: "rat_holds (rat_lookup rat_start) [] rat_start"
  by (rule booted_holds) (use rat_start_props in auto)

definition trap_item :: rob_item_t where
  "trap_item = rob_item_zero\<lparr>ri_finish := True, ri_pc := 0x80000010, ri_inst_value := 0xFFFFFFFF, ri_has_exception := True,
     ri_exception_id := illegal_instruction, ri_exception_value := 0xFFFFFFFF\<rparr>"

definition trap_younger :: rob_item_t where
  "trap_younger = rob_item_zero\<lparr>new_phy_reg_id := 40, old_phy_reg_id := 5, old_phy_reg_id_valid := True, ri_pc := 0x80000014\<rparr>"

definition trap_rob :: rob where
  "trap_rob = (rob_new 64)\<lparr>buffer := trap_item # trap_younger # replicate 62 rob_item_zero, wptr := 2\<rparr>"

definition trap_demo :: "state_t \<Rightarrow> commit_stage" where
  "trap_demo st = \<lparr>cm_in = port_new [], cm_rat = (rat_mapped 5 40 rat_start)\<lparr>rat_request_q := []\<rparr>, cm_rob = trap_rob, cm_csr = csrfile_init,
     cm_regfile = regfile_new 0 PHY_REG_NUM, cm_cpbuf = cpbuf_sample\<lparr>cpbuf_request_q := []\<rparr>, cm_bp = bp_demo, cm_int = int_new, cm_state = st,
     cm_item = trap_item, cm_item_id = 0, cm_restore_id = 1, cm_interrupt_pc = 0x80000010,
     cm_interrupt_id = machine_timer, cm_branch_num = 0, cm_branch_predicted = 0, cm_branch_hit = 0, cm_branch_miss = 0\<rparr>"

lemma trap_rob_ids: "fifo_inv trap_rob" "ring_ids trap_rob = [0, 1]" "fifo_items trap_rob = [trap_item, trap_younger]"
  by (simp_all add: trap_rob_def rob_new_def fifo.extend_def fifo_new_def fifo_inv_def ring_ok_def ring_ids_def
      id_span_def fifo_items_def ring_items_def upt_rec)

lemma trap_demo_start:
  assumes "st \<noteq> St_normal"
  shows "walk_start (rat_lookup rat_start) (trap_demo st)" "fifo_items (cm_rob (trap_demo st)) = [trap_item, trap_younger]"
proof -
  note p = rat_start_props
  have g: "40 < phy_reg_num rat_start" "0 < (5 :: nat)" "5 < arch_reg_num rat_start" "\<not> vld rat_start 40"
    using p(4,5) p(7) [of 40] by (simp_all add: PHY_REG_NUM_def ARCH_REG_NUM_def)
  have "rat_set_map 0 5 40 rat_start = Some (5, rat_mapped 5 40 rat_start)"
    using rat_set_map_eq [OF p(2) g, of 0] p(6) [of 5] by simp
  from rat_holds_rename [OF rat_start_holds this] have h: "rat_holds (rat_lookup rat_start) [(5, 40)] (rat_mapped 5 40 rat_start)"
    by simp
  have "in_flight (rat_lookup rat_start) [trap_item, trap_younger] (cm_rat (trap_demo st))"
    unfolding in_flight_def
    by (rule exI [of _ "[(5, 40)]"])
      (use h p(6) [of 5] in \<open>simp add: trap_demo_def trap_item_def trap_younger_def rob_item_zero_def\<close>)
  moreover have "trap_ready (trap_demo st)"
    using csrfile_init_lookup [of CSR_MEPC False mepc] csrfile_init_lookup [of CSR_MTVAL False mtval]
      csrfile_init_lookup [of CSR_MCAUSE False mcause] csrfile_init_lookup [of CSR_MTVEC False mtvec]
      csrfile_init_lookup [of CSR_MSTATUS False mstatus]
    by (simp add: trap_ready_def trap_demo_def csr_class_at_def csr_init_list_def csr_named_list_def)
  moreover have "commit_quiet (trap_demo st)"
    by (simp add: commit_quiet_def trap_demo_def trap_rob_def rob_new_def fifo.extend_def fifo_new_def regfile_new_def
        csrfile_init_def bp_demo_def bp_new_def int_new_def)
  moreover have "regfile_inv (cm_regfile (trap_demo st))"
    by (simp add: trap_demo_def regfile_new_def regfile_inv_def)
  ultimately show "walk_start (rat_lookup rat_start) (trap_demo st)"
    using assms trap_rob_ids ring_front_id [OF trap_rob_ids(1)] ring_tail_id [OF trap_rob_ids(1)]
    by (simp add: walk_start_def trap_demo_def)
  show "fifo_items (cm_rob (trap_demo st)) = [trap_item, trap_younger]" by (simp add: trap_demo_def trap_rob_ids)
qed

theorem commit_exception_is_precise_witness:
  "\<exists>fbs t. commit_cycles 2 (trap_demo St_flush) = Some (fbs, t) \<and> cm_state t = St_normal \<and> map cf_has_exception fbs = [False, True]
     \<and> csrfile_read_sys (cm_csr t) CSR_MEPC = Some 0x80000010 \<and> csrfile_read_sys (cm_csr t) CSR_MCAUSE = Some 2"
proof -
  note d = trap_demo_start [of St_flush, simplified]
  have f: "cm_state (trap_demo St_flush) = St_flush" "cm_item (trap_demo St_flush) = trap_item" by (simp_all add: trap_demo_def)
  from commit_exception_is_precise [OF d(1) f(1)] show ?thesis
    unfolding d(2) f(2) by (auto simp: walk_done_def d(2) trap_item_def numeral_2_eq_2)
qed

theorem commit_interrupt_is_taken_witness:
  "\<exists>fbs t. commit_cycles 2 (trap_demo St_interrupt_flush) = Some (fbs, t) \<and> cm_state t = St_normal
     \<and> csrfile_read_sys (cm_csr t) CSR_MEPC = Some 0x80000010 \<and> csrfile_read_sys (cm_csr t) CSR_MCAUSE = Some 0x80000007"
proof -
  note d = trap_demo_start [of St_interrupt_flush, simplified]
  have f: "cm_state (trap_demo St_interrupt_flush) = St_interrupt_flush" "cm_interrupt_pc (trap_demo St_interrupt_flush) = 0x80000010"
    "cm_interrupt_id (trap_demo St_interrupt_flush) = machine_timer" "cm_csr (trap_demo St_interrupt_flush) = csrfile_init"
    by (simp_all add: trap_demo_def)
  have "csrfile_read_sys (cm_csr (trap_demo St_interrupt_flush)) CSR_MSTATUS = Some 0"
    using csrfile_init_lookup [of CSR_MSTATUS False mstatus]
    by (simp add: f(4) csrfile_read_sys_def csrfile_read_item_def csr_init_list_def csr_named_list_def)
  from commit_interrupt_is_taken [OF d(1) f(1) this] show ?thesis
    unfolding d(2) f(2,3) by (auto simp: walk_done_def d(2) numeral_2_eq_2)
qed

end
