(* ===== verification/Commit_Retire.thy ===== *)
theory Commit_Retire
  imports Commit_Walk
begin

text \<open>
  The normal state of the commit stage: retiring in program order, recording the results of the
  execution units, and the two ways a cycle can end early, an exception and a wrongly predicted
  branch.  The retiring loop of \<open>pipeline/commit.cpp\<close> is related to the list of instructions in the
  reorder buffer.
\<close>

section \<open>The effect of retiring\<close>

definition retire_values :: "rob_item_t \<Rightarrow> u32 regfile_request list" where
  "retire_values x = (if old_phy_reg_id_valid x then [Regfile_write (old_phy_reg_id x) 0 False] else [])"

definition retire_csrs :: "rob_item_t \<Rightarrow> csr_request list" where
  "retire_csrs x = (if ri_csr_newvalue_valid x then [Csr_write (ri_csr_addr x) (ri_csr_newvalue x)] else [])"

definition rob_retired :: "nat \<Rightarrow> rob \<Rightarrow> rob" where
  "rob_retired n b = b\<lparr>rob_request_q := rob_request_q b @ replicate n Ring_pop, committed := (n \<noteq> 0 \<or> committed b),
     commit_num := commit_num b + of_nat n, global_commit_num := global_commit_num b + of_nat n\<rparr>"

lemma retire_fields [simp]:
  "cm_rat (commit_retire x l) = (cm_rat l)\<lparr>rat_request_q := rat_request_q (cm_rat l) @ retire_requests x\<rparr>"
  "cm_regfile (commit_retire x l) = (cm_regfile l)\<lparr>regfile_request_q := regfile_request_q (cm_regfile l) @ retire_values x\<rparr>"
  "cm_csr (commit_retire x l) = (cm_csr l)\<lparr>csr_request_q := csr_request_q (cm_csr l) @ retire_csrs x\<rparr>"
  "cm_rob (commit_retire x l) = rob_retired (Suc 0) (cm_rob l)"
  "cm_in (commit_retire x l) = cm_in l" "cm_cpbuf (commit_retire x l) = cm_cpbuf l" "cm_bp (commit_retire x l) = cm_bp l"
  "cm_int (commit_retire x l) = cm_int l" "cm_state (commit_retire x l) = cm_state l" "cm_item (commit_retire x l) = cm_item l"
  "cm_item_id (commit_retire x l) = cm_item_id l" "cm_restore_id (commit_retire x l) = cm_restore_id l"
  "cv_fb (commit_retire x l) = cv_fb l" "cv_need_flush (commit_retire x l) = cv_need_flush l"
  by (simp_all add: commit_retire_def Let_def retire_requests_def retire_values_def retire_csrs_def rob_retired_def
      rat_commit_map_sync_def rat_release_map_sync_def regfile_write_sync_def csrfile_write_sync_def
      rob_pop_sync_def rob_set_committed_def rob_add_commit_num_def)

lemma announce_fields [simp]:
  "cm_rat (commit_announce f i n l) = cm_rat l" "cm_regfile (commit_announce f i n l) = cm_regfile l"
  "cm_csr (commit_announce f i n l) = cm_csr l" "cm_rob (commit_announce f i n l) = cm_rob l"
  "cm_in (commit_announce f i n l) = cm_in l" "cm_cpbuf (commit_announce f i n l) = cm_cpbuf l"
  "cm_bp (commit_announce f i n l) = cm_bp l" "cm_int (commit_announce f i n l) = cm_int l"
  "cm_state (commit_announce f i n l) = cm_state l" "cm_item (commit_announce f i n l) = cm_item l"
  "cm_item_id (commit_announce f i n l) = cm_item_id l" "cm_restore_id (commit_announce f i n l) = cm_restore_id l"
  "cv_need_flush (commit_announce f i n l) = cv_need_flush l"
  by (simp_all add: commit_announce_def split: prod.split)

lemma rob_retired_ring [simp]:
  "fifo_inv (rob_retired n b) = fifo_inv b" "ring_ids (rob_retired n b) = ring_ids b" "buffer (rob_retired n b) = buffer b"
  "qsize (rob_retired n b) = qsize b" "wptr (rob_retired n b) = wptr b" "fifo_items (rob_retired n b) = fifo_items b"
  "ring_get_tail_id (rob_retired n b) = ring_get_tail_id b" "ring_get_next_id (rob_retired n b) i = ring_get_next_id b i"
  "rob_get_item (rob_retired n b) i = rob_get_item b i" "pop_status_save (rob_retired n b) = pop_status_save b"
  by (simp_all add: rob_retired_def fifo_inv_def ring_ids_def fifo_items_def ring_get_tail_id_def fifo_is_empty_def
      ring_get_next_id_def ring_check_id_valid_def rob_get_item_def ring_get_item_def)

lemma rob_retired_again [simp]: "rob_retired (Suc 0) (rob_retired n b) = rob_retired (Suc n) b" "rob_retired 0 b = b"
  by (simp_all add: rob_retired_def replicate_append_same)

section \<open>The loop\<close>

definition plain :: "rob_item_t \<Rightarrow> bool" where
  "plain x = (ri_finish x \<and> \<not> ri_has_exception x \<and> \<not> ri_bru_op x)"

definition item_at :: "rob \<Rightarrow> nat \<Rightarrow> rob_item_t" where
  "item_at b k = buffer b ! (ring_ids b ! k)"

text \<open>The variables after \<open>k\<close> turns that retired an instruction each and went on.\<close>

fun commit_at :: "rob \<Rightarrow> commit_vars \<Rightarrow> nat \<Rightarrow> commit_vars" where
  "commit_at b l 0 = l"
| "commit_at b l (Suc k) =
     (let n = the (ring_get_next_id b (ring_ids b ! k)) in
      (commit_retire (item_at b k) (commit_announce (ring_ids b ! 0) k n ((commit_at b l k)\<lparr>cm_item := item_at b k\<rparr>)))
        \<lparr>cm_item_id := snd n\<rparr>)"

definition announced :: "nat list \<Rightarrow> nat \<Rightarrow> commit_feedback_pack_t \<Rightarrow> bool" where
  "announced ids k fb = (cf_ok fb \<and> (\<forall>j < COMMIT_WIDTH. cf_committed_rob_id_valid fb ! j = (j < k)
     \<and> (j < k \<longrightarrow> cf_committed_rob_id fb ! j = ids ! j))
     \<and> cf_next_handle_rob_id_valid fb = (k < length ids) \<and> (k < length ids \<longrightarrow> cf_next_handle_rob_id fb = ids ! k))"

lemma commit_at_fields:
  assumes "cm_rob l = b"
  shows "cm_rat (commit_at b l k) = (cm_rat l)\<lparr>rat_request_q := rat_request_q (cm_rat l) @ concat (map (\<lambda>j. retire_requests (item_at b j)) [0..<k])\<rparr>"
    "cm_regfile (commit_at b l k) = (cm_regfile l)\<lparr>regfile_request_q := regfile_request_q (cm_regfile l)
       @ concat (map (\<lambda>j. retire_values (item_at b j)) [0..<k])\<rparr>"
    "cm_csr (commit_at b l k) = (cm_csr l)\<lparr>csr_request_q := csr_request_q (cm_csr l) @ concat (map (\<lambda>j. retire_csrs (item_at b j)) [0..<k])\<rparr>"
    "cm_rob (commit_at b l k) = rob_retired k b" "cm_in (commit_at b l k) = cm_in l" "cm_cpbuf (commit_at b l k) = cm_cpbuf l"
    "cm_bp (commit_at b l k) = cm_bp l" "cm_int (commit_at b l k) = cm_int l" "cm_state (commit_at b l k) = cm_state l"
    "cm_restore_id (commit_at b l k) = cm_restore_id l" "cv_need_flush (commit_at b l k) = cv_need_flush l"
  using assms
  by (induction k) (simp_all add: Let_def)

lemma commit_at_id:
  assumes "fifo_inv b" "k < length (ring_ids b)" "cm_item_id l = ring_ids b ! 0"
  shows "cm_item_id (commit_at b l k) = ring_ids b ! k"
  using assms by (cases k) (simp_all add: Let_def ring_next_id_step)

lemma announce_step:
  assumes "fifo_inv b" "k < length (ring_ids b)" "k < COMMIT_WIDTH" "announced (ring_ids b) k (cv_fb l)" "cm_item_id l = ring_ids b ! k"
  shows "announced (ring_ids b) (Suc k) (cv_fb (commit_announce (ring_ids b ! 0) k (the (ring_get_next_id b (ring_ids b ! k))) l))"
proof -
  have w: "Suc k < length (ring_ids b) \<Longrightarrow> ring_ids b ! Suc k \<noteq> ring_ids b ! 0"
    using nth_eq_iff_index_eq [OF ring_ids_distinct [OF assms(1)], of "Suc k" 0] assms(2) by (cases "ring_ids b") auto
  have ne: "ring_ids b \<noteq> []" using assms(2) by auto
  have z: "length (ring_ids b) = qsize b \<Longrightarrow> wptr b = ring_ids b ! 0"
    using assms(1) ring_wptr_slot [OF assms(1)] ring_ids_hd [OF assms(1) ne] by (simp add: fifo_inv_def ring_ok_def)
  show ?thesis
    using assms(3-5) w z ring_next_id_step [OF assms(1,2)]
    by (auto simp: announced_def commit_announce_def cf_ok_def nth_list_update less_Suc_eq)
qed

lemma commit_at_announced:
  assumes "fifo_inv b" "k \<le> length (ring_ids b)" "k \<le> COMMIT_WIDTH" "announced (ring_ids b) 0 (cv_fb l)" "cm_item_id l = ring_ids b ! 0"
  shows "announced (ring_ids b) k (cv_fb (commit_at b l k))"
  using assms(2,3)
proof (induction k)
  case (Suc k)
  let ?l = "(commit_at b l k)\<lparr>cm_item := item_at b k\<rparr>"
  have "cm_item_id ?l = ring_ids b ! k" using commit_at_id [OF assms(1) _ assms(5), of k] Suc.prems by simp
  from announce_step [OF assms(1) _ _ _ this] Suc show ?case by (simp add: Let_def)
qed (use assms(4) in simp)

lemma commit_slots_step:
  assumes "fifo_inv b" "cm_rob l = b" "cm_item_id l = ring_ids b ! 0" "k < length (ring_ids b)" "plain (item_at b k)"
  shows "commit_slots (ring_ids b ! 0) (k # js) (commit_at b l k) =
    (if Suc k < length (ring_ids b) then commit_slots (ring_ids b ! 0) js (commit_at b l (Suc k)) else Some (commit_at b l (Suc k)))"
proof -
  note f = commit_at_fields [OF assms(2)] and i = commit_at_id [OF assms(1,4,3)]
  have item: "rob_get_item b (ring_ids b ! k) = Some (item_at b k)"
    using assms(1,4) by (simp add: rob_get_item_nth ring_ids_bound item_at_def)
  note n = ring_next_id_step [OF assms(1,4)]
  have w: "Suc k < length (ring_ids b) \<Longrightarrow> ring_ids b ! Suc k \<noteq> ring_ids b ! 0"
    using nth_eq_iff_index_eq [OF ring_ids_distinct [OF assms(1)], of "Suc k" 0] assms(4) by (cases "ring_ids b") auto
  have ne: "ring_ids b \<noteq> []" using assms(4) by auto
  have z: "length (ring_ids b) = qsize b \<Longrightarrow> wptr b = ring_ids b ! 0"
    using assms(1) ring_wptr_slot [OF assms(1)] ring_ids_hd [OF assms(1) ne] by (simp add: fifo_inv_def ring_ok_def)
  have slot: "commit_slot (ring_ids b ! 0) k (commit_at b l k) = Some (True,
      commit_retire (item_at b k) (commit_announce (ring_ids b ! 0) k (the (ring_get_next_id b (ring_ids b ! k)))
        ((commit_at b l k)\<lparr>cm_item := item_at b k\<rparr>)))"
    using assms(5) by (simp add: commit_slot_def item plain_def i f(4) n)
  show ?thesis
    using w z by (auto simp: slot f(4) i n Let_def)
qed

lemma commit_slots_plain:
  assumes "fifo_inv b" "cm_rob l = b" "cm_item_id l = ring_ids b ! 0" "n < length (ring_ids b)" "n \<le> N" "\<forall>k < n. plain (item_at b k)"
  shows "commit_slots (ring_ids b ! 0) [0..<N] l = commit_slots (ring_ids b ! 0) [n..<N] (commit_at b l n)"
  using assms(4-6)
proof (induction n)
  case (Suc n)
  have "[n..<N] = n # [Suc n..<N]" using Suc.prems(2) by (simp add: upt_rec)
  then show ?case
    using Suc commit_slots_step [OF assms(1-3), of n "[Suc n..<N]"] by simp
qed simp

lemma commit_slots_all:
  assumes "fifo_inv b" "cm_rob l = b" "cm_item_id l = ring_ids b ! 0" "n = min N (length (ring_ids b))" "0 < n" "\<forall>k < n. plain (item_at b k)"
  shows "commit_slots (ring_ids b ! 0) [0..<N] l = Some (commit_at b l n)"
proof -
  obtain k where k: "n = Suc k" using assms(5) by (cases n) auto
  have u: "[k..<N] = k # [Suc k..<N]" using assms(4) k by (simp add: upt_rec)
  have "commit_slots (ring_ids b ! 0) [0..<N] l = commit_slots (ring_ids b ! 0) (k # [Suc k..<N]) (commit_at b l k)"
    using commit_slots_plain [OF assms(1-3), of k N] assms(4,6) k unfolding u [symmetric] by (simp del: commit_slots.simps)
  also have "\<dots> = Some (commit_at b l n)"
  proof -
    have kl: "k < length (ring_ids b)" using assms(4) k by linarith
    have pl: "plain (item_at b k)" using assms(6) unfolding k by simp
    note st = commit_slots_step [OF assms(1-3) kl pl]
    have "Suc k < length (ring_ids b) \<Longrightarrow> N = Suc k" using assms(4) k by linarith
    then show ?thesis unfolding st k by simp
  qed
  finally show ?thesis .
qed

definition commit_stopped :: "rob \<Rightarrow> commit_vars \<Rightarrow> nat \<Rightarrow> commit_vars" where
  "commit_stopped b l n = commit_announce (ring_ids b ! 0) n (the (ring_get_next_id b (ring_ids b ! n)))
     ((commit_at b l n)\<lparr>cm_item := item_at b n\<rparr>)"

lemma commit_slots_stop:
  assumes "fifo_inv b" "cm_rob l = b" "cm_item_id l = ring_ids b ! 0" "n < length (ring_ids b)" "n < N" "\<forall>k < n. plain (item_at b k)"
    and "\<not> plain (item_at b n)"
  shows "commit_slots (ring_ids b ! 0) [0..<N] l =
    (if \<not> ri_finish (item_at b n) then Some ((commit_at b l n)\<lparr>cm_item := item_at b n\<rparr>)
     else if ri_has_exception (item_at b n) then commit_exception (commit_stopped b l n)
     else commit_branch (item_at b n) (commit_retire (item_at b n) (commit_stopped b l n)))"
proof -
  note f = commit_at_fields [OF assms(2)] and i = commit_at_id [OF assms(1,4,3)]
  have item: "rob_get_item b (ring_ids b ! n) = Some (item_at b n)"
    using assms(1,4) by (simp add: rob_get_item_nth ring_ids_bound item_at_def)
  have u: "[n..<N] = n # [Suc n..<N]" using assms(5) by (simp add: upt_rec)
  have "commit_slots (ring_ids b ! 0) [0..<N] l = commit_slots (ring_ids b ! 0) (n # [Suc n..<N]) (commit_at b l n)"
    using commit_slots_plain [OF assms(1-4), of N] assms(5,6) unfolding u [symmetric] by (simp del: commit_slots.simps)
  moreover have "commit_slot (ring_ids b ! 0) n (commit_at b l n) =
    (if \<not> ri_finish (item_at b n) then Some (False, (commit_at b l n)\<lparr>cm_item := item_at b n\<rparr>)
     else if ri_has_exception (item_at b n) then map_option (Pair False) (commit_exception (commit_stopped b l n))
     else map_option (Pair False) (commit_branch (item_at b n) (commit_retire (item_at b n) (commit_stopped b l n))))"
  proof -
    obtain nx where nx: "ring_get_next_id b (ring_ids b ! n) = Some nx" using ring_next_id_step [OF assms(1,4)] by blast
    show ?thesis
      using assms(7)
      by (cases "ri_finish (item_at b n)"; cases "ri_has_exception (item_at b n)")
        (simp_all add: commit_slot_def item plain_def i f(4) nx commit_stopped_def map_conv_bind_option comp_def Let_def)
  qed
  ultimately show ?thesis
    by (cases "commit_exception (commit_stopped b l n)";
        cases "commit_branch (item_at b n) (commit_retire (item_at b n) (commit_stopped b l n))") simp_all
qed

section \<open>The group retired in a cycle\<close>

text \<open>Up to four finished instructions without exceptions from the old end, the last of which may be a
  branch; the instruction that stops the loop is the first that is not of this kind.\<close>

definition retired_plain :: "rob_item_t list \<Rightarrow> rob_item_t list" where
  "retired_plain items = takeWhile plain (take COMMIT_WIDTH items)"

definition commit_stop :: "rob_item_t list \<Rightarrow> rob_item_t option" where
  "commit_stop items = (let n = length (retired_plain items) in
     if n < COMMIT_WIDTH \<and> n < length items then Some (items ! n) else None)"

definition commit_group :: "rob_item_t list \<Rightarrow> rob_item_t list" where
  "commit_group items = retired_plain items @
     (case commit_stop items of Some x \<Rightarrow> if ri_finish x \<and> \<not> ri_has_exception x then [x] else [] | None \<Rightarrow> [])"

definition commit_traps :: "rob_item_t list \<Rightarrow> bool" where
  "commit_traps items = (\<exists>x. commit_stop items = Some x \<and> ri_finish x \<and> ri_has_exception x)"

definition commit_misses :: "rob_item_t list \<Rightarrow> bool" where
  "commit_misses items = (\<exists>x. commit_stop items = Some x \<and> ri_finish x \<and> \<not> ri_has_exception x
     \<and> ri_predicted x \<and> \<not> commit_hit x)"

lemma retired_plain_props:
  "retired_plain items = take (length (retired_plain items)) items" "length (retired_plain items) \<le> COMMIT_WIDTH"
  "length (retired_plain items) \<le> length items" "\<forall>k < length (retired_plain items). plain (items ! k)"
proof -
  show t: "retired_plain items = take (length (retired_plain items)) items"
    by (metis append_eq_conv_conj append_take_drop_id min.absorb2 retired_plain_def take_take takeWhile_dropWhile_id
        length_takeWhile_le length_take min.bounded_iff)
  show "length (retired_plain items) \<le> COMMIT_WIDTH" "length (retired_plain items) \<le> length items"
    using length_takeWhile_le [of plain "take COMMIT_WIDTH items"] by (simp_all add: retired_plain_def)
  show "\<forall>k < length (retired_plain items). plain (items ! k)"
  proof (intro allI impI)
    fix k assume k: "k < length (retired_plain items)"
    then have "retired_plain items ! k = items ! k" by (subst t) simp
    moreover have "retired_plain items ! k \<in> set (retired_plain items)" using k by simp
    ultimately show "plain (items ! k)" by (metis retired_plain_def set_takeWhileD)
  qed
qed

lemma commit_stop_props:
  assumes "commit_stop items = Some x"
  shows "\<not> plain x" "length (retired_plain items) < COMMIT_WIDTH" "length (retired_plain items) < length items"
    "x = items ! length (retired_plain items)"
proof -
  show r: "length (retired_plain items) < COMMIT_WIDTH" "length (retired_plain items) < length items"
    "x = items ! length (retired_plain items)"
    using assms by (auto simp: commit_stop_def Let_def split: if_splits)
  then have "length (takeWhile plain (take COMMIT_WIDTH items)) < length (take COMMIT_WIDTH items)"
    by (simp add: retired_plain_def)
  from nth_length_takeWhile [OF this] r show "\<not> plain x" by (simp add: retired_plain_def)
qed

lemma commit_group_take:
  "commit_group items = take (length (commit_group items)) items" "length (commit_group items) \<le> COMMIT_WIDTH"
  "length (commit_group items) \<le> length items"
proof -
  note p = retired_plain_props [of items]
  have "commit_group items = take (length (commit_group items)) items \<and> length (commit_group items) \<le> COMMIT_WIDTH
      \<and> length (commit_group items) \<le> length items"
  proof (cases "commit_stop items")
    case None
    then show ?thesis using p by (simp add: commit_group_def)
  next
    case (Some x)
    note s = commit_stop_props [OF Some]
    have "take (Suc (length (retired_plain items))) items = retired_plain items @ [x]"
      using p(1) s(3,4) by (simp add: take_Suc_conv_app_nth)
    with Some p s show ?thesis by (simp add: commit_group_def)
  qed
  then show "commit_group items = take (length (commit_group items)) items" "length (commit_group items) \<le> COMMIT_WIDTH"
    "length (commit_group items) \<le> length items" by blast+
qed

lemma item_at_items: "fifo_inv b \<Longrightarrow> k < length (ring_ids b) \<Longrightarrow> item_at b k = fifo_items b ! k"
  by (simp add: item_at_def ring_ids_items)

lemma item_at_map:
  "fifo_inv b \<Longrightarrow> n \<le> length (ring_ids b) \<Longrightarrow> map (\<lambda>j. f (item_at b j)) [0..<n] = map f (take n (fifo_items b))"
  by (rule nth_equalityI) (simp_all add: item_at_items ring_ids_length)

section \<open>The branch at the end of a group\<close>

lemma bp_update_queue: "bp_update_prediction pc w jump next_pc hit b = Some c \<Longrightarrow> bp_request_q c = bp_request_q b"
  by (auto simp: bp_update_prediction_def gshare_update_prediction_def local_update_prediction_def cpht_update_prediction_def
      call_update_prediction_def normal_update_prediction_def
      bp_gshare_global_history_update_def bind_eq_Some_conv Let_def split: if_splits)

definition mret_request :: "u32 \<Rightarrow> csr_request" where
  "mret_request st = Csr_write_sys CSR_MSTATUS (mstatus_set_mie (mstatus_get_mpie st) st)"

lemma commit_branch_keeps:
  assumes "\<not> (ri_predicted x \<and> \<not> commit_hit x)" "bp_inv (cm_bp l)" "csrfile_read_sys (cm_csr l) CSR_MSTATUS = Some st"
  shows "\<exists>l'. commit_branch x l = Some l' \<and> cm_rat l' = cm_rat l \<and> cm_regfile l' = cm_regfile l \<and> cm_rob l' = cm_rob l
    \<and> cm_in l' = cm_in l \<and> cm_int l' = cm_int l \<and> cm_state l' = cm_state l \<and> cv_need_flush l' = cv_need_flush l
    \<and> cm_csr l' = (cm_csr l)\<lparr>csr_request_q := csr_request_q (cm_csr l) @ (if ri_is_mret x then [mret_request st] else [])\<rparr>
    \<and> bp_inv (cm_bp l') \<and> bp_request_q (cm_bp l') = bp_request_q (cm_bp l)
    \<and> cm_cpbuf l' = (if ri_predicted x then cpbuf_pop_sync (cm_cpbuf l) else cm_cpbuf l)
    \<and> cv_fb l' = (if ri_predicted x then cv_fb l else (cv_fb l)\<lparr>cf_enable := True, cf_jump_enable := True,
         cf_jump := ri_bru_jump x, cf_next_pc := commit_target x\<rparr>)"
proof (cases "ri_predicted x")
  case True
  from bp_update_keeps [OF assms(2), of "ri_pc x" "ri_inst_value x" "ri_bru_jump x" "ri_bru_next_pc x" True]
  obtain c where c: "bp_update_prediction (ri_pc x) (ri_inst_value x) (ri_bru_jump x) (ri_bru_next_pc x) True (cm_bp l) = Some c"
    "bp_inv c" by (auto simp: bp_keeps_def)
  with True assms show ?thesis
    by (cases "ri_is_mret x")
      (simp_all add: commit_branch_def commit_mret_def csrfile_write_sys_sync_def mret_request_def bp_update_queue [OF c(1)])
next
  case False
  with assms show ?thesis
    by (cases "ri_is_mret x") (simp_all add: commit_branch_def commit_mret_def csrfile_write_sys_sync_def mret_request_def)
qed

text \<open>The instruction after which fetching continues at a committed target, and what an \<open>mret\<close>
  requests.\<close>

definition commit_last_branch :: "rob_item_t list \<Rightarrow> rob_item_t option" where
  "commit_last_branch items = (case commit_stop items of
     Some x \<Rightarrow> if ri_finish x \<and> \<not> ri_has_exception x then Some x else None | None \<Rightarrow> None)"

definition mret_csrs :: "u32 \<Rightarrow> rob_item_t list \<Rightarrow> csr_request list" where
  "mret_csrs st items = (case commit_last_branch items of Some x \<Rightarrow> if ri_is_mret x then [mret_request st] else [] | None \<Rightarrow> [])"

definition redirected :: "rob_item_t list \<Rightarrow> commit_feedback_pack_t \<Rightarrow> bool" where
  "redirected items fb = (case commit_last_branch items of
       Some x \<Rightarrow> if ri_predicted x then \<not> cf_jump_enable fb
         else cf_jump_enable fb \<and> cf_jump fb = ri_bru_jump x \<and> cf_next_pc fb = commit_target x
     | None \<Rightarrow> \<not> cf_jump_enable fb)"

definition commit_begin :: "commit_vars \<Rightarrow> commit_vars" where
  "commit_begin l = l\<lparr>cm_item_id := ring_ids (cm_rob l) ! 0, cm_item := item_at (cm_rob l) 0, cv_fb := (cv_fb l)\<lparr>cf_enable := True,
     cf_next_handle_rob_id := ring_ids (cm_rob l) ! 0, cf_next_handle_rob_id_valid := True\<rparr>\<rparr>"

lemma commit_output_begin:
  assumes "fifo_inv (cm_rob l)" "fifo_items (cm_rob l) \<noteq> []" "int_get_cause (cm_csr l) (cm_int l) = Some c"
  shows "commit_output l = (case c of Some i \<Rightarrow> commit_interrupt i (commit_begin l)
    | None \<Rightarrow> commit_slots (ring_ids (cm_rob l) ! 0) [0..<COMMIT_WIDTH] (commit_begin l))"
    "ring_ids (cm_rob l) \<noteq> []"
proof -
  show ne: "ring_ids (cm_rob l) \<noteq> []" using assms(2) ring_ids_items [OF assms(1)] by auto
  have "ring_get_front_id (cm_rob l) = Some (ring_ids (cm_rob l) ! 0)"
    using ring_front_id [OF assms(1)] ne by (cases "ring_ids (cm_rob l)") simp_all
  moreover have "rob_get_item (cm_rob l) (ring_ids (cm_rob l) ! 0) = Some (item_at (cm_rob l) 0)"
    using assms(1) ne by (simp add: rob_get_item_nth ring_ids_bound item_at_def)
  ultimately show "commit_output l = (case c of Some i \<Rightarrow> commit_interrupt i (commit_begin l)
    | None \<Rightarrow> commit_slots (ring_ids (cm_rob l) ! 0) [0..<COMMIT_WIDTH] (commit_begin l))"
    using assms by (cases c) (simp_all add: commit_output_def fifo_empty_iff commit_begin_def Let_def)
qed

lemma commit_begin_fields [simp]:
  "cm_rat (commit_begin l) = cm_rat l" "cm_regfile (commit_begin l) = cm_regfile l"
  "cm_csr (commit_begin l) = cm_csr l" "cm_rob (commit_begin l) = cm_rob l"
  "cm_in (commit_begin l) = cm_in l" "cm_cpbuf (commit_begin l) = cm_cpbuf l"
  "cm_bp (commit_begin l) = cm_bp l" "cm_int (commit_begin l) = cm_int l"
  "cm_state (commit_begin l) = cm_state l" "cm_item_id (commit_begin l) = ring_ids (cm_rob l) ! 0"
  "cv_need_flush (commit_begin l) = cv_need_flush l"
  by (simp_all add: commit_begin_def)

lemma commit_begin_announced:
  assumes "cv_fb l = commit_feedback_zero" "ring_ids (cm_rob l) \<noteq> []"
  shows "announced (ring_ids (cm_rob l)) 0 (cv_fb (commit_begin l))"
  using assms by (simp add: announced_def commit_begin_def cf_ok_def commit_feedback_zero_def)

lemma commit_at_feedback:
  "cf_enable (cv_fb (commit_at b l k)) = cf_enable (cv_fb l)" "cf_flush (cv_fb (commit_at b l k)) = cf_flush (cv_fb l)"
  "cf_has_exception (cv_fb (commit_at b l k)) = cf_has_exception (cv_fb l)"
  "cf_jump_enable (cv_fb (commit_at b l k)) = cf_jump_enable (cv_fb l)"
  by (induction k) (simp_all add: Let_def commit_announce_def split: prod.split)

text \<open>The variables after the output half of a cycle that retires \<open>G\<close> and neither traps nor recovers.\<close>

definition retired_to :: "rob_item_t list \<Rightarrow> u32 \<Rightarrow> commit_vars \<Rightarrow> commit_vars \<Rightarrow> bool" where
  "retired_to items st l l' = (let G = commit_group items in
     cm_rat l' = (cm_rat l)\<lparr>rat_request_q := rat_request_q (cm_rat l) @ concat (map retire_requests G)\<rparr>
     \<and> cm_regfile l' = (cm_regfile l)\<lparr>regfile_request_q := regfile_request_q (cm_regfile l) @ concat (map retire_values G)\<rparr>
     \<and> cm_csr l' = (cm_csr l)\<lparr>csr_request_q := csr_request_q (cm_csr l) @ concat (map retire_csrs G) @ mret_csrs st items\<rparr>
     \<and> cm_rob l' = rob_retired (length G) (cm_rob l) \<and> cm_in l' = cm_in l \<and> cm_int l' = cm_int l \<and> cm_state l' = cm_state l
     \<and> cv_need_flush l' = cv_need_flush l \<and> bp_inv (cm_bp l') \<and> bp_request_q (cm_bp l') = bp_request_q (cm_bp l)
     \<and> cm_cpbuf l' \<in> {cm_cpbuf l, cpbuf_pop_sync (cm_cpbuf l)}
     \<and> announced (ring_ids (cm_rob l)) (length G) (cv_fb l') \<and> cf_enable (cv_fb l') \<and> \<not> cf_flush (cv_fb l')
     \<and> \<not> cf_has_exception (cv_fb l') \<and> redirected items (cv_fb l'))"

lemma commit_last_branch_props:
  "commit_last_branch items = Some x \<Longrightarrow> commit_stop items = Some x \<and> ri_finish x \<and> \<not> ri_has_exception x"
  by (auto simp: commit_last_branch_def split: option.splits if_splits)

lemma commit_group_cases:
  "commit_group items = retired_plain items @ (case commit_last_branch items of Some x \<Rightarrow> [x] | None \<Rightarrow> [])"
  by (auto simp: commit_group_def commit_last_branch_def split: option.split)

text \<open>A cycle that ends at a branch: the branch code runs on the variables that have the group retired.\<close>

lemma commit_output_branch:
  assumes "fifo_inv (cm_rob l)" "fifo_items (cm_rob l) = items" "int_get_cause (cm_csr l) (cm_int l) = Some None"
    and "cv_fb l = commit_feedback_zero" "commit_last_branch items = Some x"
  defines "u \<equiv> commit_retire x (commit_stopped (cm_rob l) (commit_begin l) (length (retired_plain items)))"
  shows "commit_output l = commit_branch x u" "commit_group items = retired_plain items @ [x]"
    "cm_rat u = (cm_rat l)\<lparr>rat_request_q := rat_request_q (cm_rat l) @ concat (map retire_requests (commit_group items))\<rparr>"
    "cm_regfile u = (cm_regfile l)\<lparr>regfile_request_q := regfile_request_q (cm_regfile l) @ concat (map retire_values (commit_group items))\<rparr>"
    "cm_csr u = (cm_csr l)\<lparr>csr_request_q := csr_request_q (cm_csr l) @ concat (map retire_csrs (commit_group items))\<rparr>"
    "cm_rob u = rob_retired (length (commit_group items)) (cm_rob l)"
    "cm_in u = cm_in l" "cm_int u = cm_int l" "cm_state u = cm_state l"
    "cv_need_flush u = cv_need_flush l" "cm_bp u = cm_bp l" "cm_cpbuf u = cm_cpbuf l"
    "announced (ring_ids (cm_rob l)) (length (commit_group items)) (cv_fb u)"
    "cf_enable (cv_fb u)" "\<not> cf_flush (cv_fb u)" "\<not> cf_has_exception (cv_fb u)" "\<not> cf_jump_enable (cv_fb u)"
proof -
  let ?b = "cm_rob l" and ?e = "commit_begin l" and ?n = "length (retired_plain items)"
  note sx = commit_last_branch_props [OF assms(5)] and rp = retired_plain_props [of items]
  note s = commit_stop_props [OF sx [THEN conjunct1]]
  have ne: "fifo_items (cm_rob l) \<noteq> []" using s(3) assms(2) by auto
  note beg = commit_output_begin [OF assms(1) ne assms(3), simplified]
  have len: "length (ring_ids ?b) = length items" using ring_ids_length [OF assms(1)] assms(2) by simp
  have pl: "\<forall>k < ?n. plain (item_at ?b k)" using rp(3,4) item_at_items [OF assms(1)] len assms(2) by simp
  note e = commit_begin_fields(4,10) [of l]
  note f = commit_at_fields [OF e(1)]
  have mp: "concat (map (\<lambda>j. g (item_at ?b j)) [0..<?n]) = concat (map g (retired_plain items))" for g :: "rob_item_t \<Rightarrow> 'x list"
    using item_at_map [OF assms(1), of ?n g] rp(1,3) len assms(2) by simp
  have x: "item_at ?b ?n = x" using s item_at_items [OF assms(1)] len assms(2) by simp
  show "commit_output l = commit_branch x u"
    using commit_slots_stop [OF assms(1) e, of ?n COMMIT_WIDTH] s x pl len beg(1) sx by (simp add: u_def)
  show G: "commit_group items = retired_plain items @ [x]" using assms(5) by (simp add: commit_group_cases)
  show "cm_rat u = (cm_rat l)\<lparr>rat_request_q := rat_request_q (cm_rat l) @ concat (map retire_requests (commit_group items))\<rparr>"
    "cm_regfile u = (cm_regfile l)\<lparr>regfile_request_q := regfile_request_q (cm_regfile l) @ concat (map retire_values (commit_group items))\<rparr>"
    "cm_csr u = (cm_csr l)\<lparr>csr_request_q := csr_request_q (cm_csr l) @ concat (map retire_csrs (commit_group items))\<rparr>"
    "cm_rob u = rob_retired (length (commit_group items)) (cm_rob l)"
    "cm_in u = cm_in l" "cm_int u = cm_int l" "cm_state u = cm_state l"
    "cv_need_flush u = cv_need_flush l" "cm_bp u = cm_bp l" "cm_cpbuf u = cm_cpbuf l"
    by (simp_all add: u_def commit_stopped_def f mp G)
  have an: "announced (ring_ids ?b) ?n (cv_fb (commit_at ?b ?e ?n))"
    using commit_at_announced [OF assms(1), of ?n ?e] rp(2,3) len commit_begin_announced [OF assms(4) beg(2)] by simp
  have "cm_item_id (commit_at ?b ?e ?n) = ring_ids ?b ! ?n" using commit_at_id [OF assms(1), of ?n ?e] s len by simp
  then show "announced (ring_ids ?b) (length (commit_group items)) (cv_fb u)"
    using announce_step [OF assms(1), of ?n "(commit_at ?b ?e ?n)\<lparr>cm_item := item_at ?b ?n\<rparr>"] s len an
    by (simp add: u_def commit_stopped_def G)
  show "cf_enable (cv_fb u)" "\<not> cf_flush (cv_fb u)" "\<not> cf_has_exception (cv_fb u)" "\<not> cf_jump_enable (cv_fb u)"
    using assms(4) by (simp_all add: u_def commit_stopped_def commit_announce_def commit_at_feedback commit_begin_def
        commit_feedback_zero_def split: prod.split)
qed

lemma commit_output_retires:
  assumes "fifo_inv (cm_rob l)" "fifo_items (cm_rob l) = items" "items \<noteq> []" "int_get_cause (cm_csr l) (cm_int l) = Some None"
    and "bp_inv (cm_bp l)" "csrfile_read_sys (cm_csr l) CSR_MSTATUS = Some st" "cv_fb l = commit_feedback_zero"
    and "\<not> commit_traps items" "\<not> commit_misses items"
  shows "\<exists>l'. commit_output l = Some l' \<and> retired_to items st l l'"
proof -
  let ?b = "cm_rob l" and ?e = "commit_begin l" and ?n = "length (retired_plain items)"
  have ne: "fifo_items (cm_rob l) \<noteq> []" using assms(2,3) by simp
  note beg = commit_output_begin [OF assms(1) ne assms(4), simplified]
  have len: "length (ring_ids ?b) = length items" using ring_ids_length [OF assms(1)] assms(2) by simp
  note rp = retired_plain_props [of items]
  have pl: "\<forall>k < ?n. plain (item_at ?b k)" using rp(3,4) item_at_items [OF assms(1)] len assms(2) by simp
  note e = commit_begin_fields(4,10) [of l]
  note f = commit_at_fields [OF e(1)]
  have mp: "concat (map (\<lambda>j. g (item_at ?b j)) [0..<?n]) = concat (map g (retired_plain items))" for g :: "rob_item_t \<Rightarrow> 'x list"
    using item_at_map [OF assms(1), of ?n g] rp(1,3) len assms(2) by simp
  have an: "announced (ring_ids ?b) ?n (cv_fb (commit_at ?b ?e ?n))"
    using commit_at_announced [OF assms(1), of ?n ?e] rp(2,3) len commit_begin_announced [OF assms(7) beg(2)] by simp
  have fb: "cf_enable (cv_fb (commit_at ?b ?e k))" "\<not> cf_flush (cv_fb (commit_at ?b ?e k))"
    "\<not> cf_has_exception (cv_fb (commit_at ?b ?e k))" "\<not> cf_jump_enable (cv_fb (commit_at ?b ?e k))" for k
    using assms(7) by (simp_all add: commit_at_feedback commit_begin_def commit_feedback_zero_def)
  show ?thesis
  proof (cases "commit_last_branch items")
    case None
    then have G: "commit_group items = retired_plain items" "mret_csrs st items = []" by (simp_all add: commit_group_cases mret_csrs_def)
    have base: "retired_to items st l ((commit_at ?b ?e ?n)\<lparr>cm_item := y\<rparr>)" for y
      using assms(5) an fb None by (simp add: retired_to_def Let_def G f mp redirected_def)
    have "\<exists>y. commit_output l = Some ((commit_at ?b ?e ?n)\<lparr>cm_item := y\<rparr>)"
    proof (cases "commit_stop items")
      case (Some x)
      note s = commit_stop_props [OF Some]
      have x: "item_at ?b ?n = x" using s item_at_items [OF assms(1)] len assms(2) by simp
      have "\<not> ri_finish x" using None Some assms(8) by (auto simp: commit_last_branch_def commit_traps_def)
      then show ?thesis
        using commit_slots_stop [OF assms(1) e, of ?n COMMIT_WIDTH] s x pl len beg(1) by auto
    next
      case stop: None
      then have "?n = min COMMIT_WIDTH (length (ring_ids ?b))"
        using rp(2,3) len by (auto simp: commit_stop_def Let_def split: if_splits)
      moreover from this have "0 < ?n" using beg(2) by (simp add: COMMIT_WIDTH_def)
      ultimately have "commit_output l = Some (commit_at ?b ?e ?n)"
        using commit_slots_all [OF assms(1) e, of ?n COMMIT_WIDTH] pl beg(1) by simp
      then show ?thesis by (intro exI [of _ "cm_item (commit_at ?b ?e ?n)"]) simp
    qed
    with base show ?thesis by blast
  next
    case (Some x)
    note sx = commit_last_branch_props [OF Some]
    let ?s = "commit_retire x (commit_stopped ?b ?e ?n)"
    note u = commit_output_branch [OF assms(1,2,4,7) Some]
    note out = u(1) and sf = u(3-12) and sa = u(13) and sb = u(14-17)
    have G: "mret_csrs st items = (if ri_is_mret x then [mret_request st] else [])" using Some by (simp add: mret_csrs_def)
    have h: "\<not> (ri_predicted x \<and> \<not> commit_hit x)" using assms(9) sx by (auto simp: commit_misses_def)
    have rd: "csrfile_read_sys (cm_csr ?s) CSR_MSTATUS = Some st"
      using assms(6) unfolding sf(3) csrfile_read_sys_def csrfile_read_item_def by (auto split: option.splits)
    from commit_branch_keeps [OF h _ rd] assms(5) sf(9) obtain l' where l':
      "commit_branch x ?s = Some l'" "cm_rat l' = cm_rat ?s" "cm_regfile l' = cm_regfile ?s" "cm_rob l' = cm_rob ?s"
      "cm_in l' = cm_in ?s" "cm_int l' = cm_int ?s" "cm_state l' = cm_state ?s" "cv_need_flush l' = cv_need_flush ?s"
      "cm_csr l' = (cm_csr ?s)\<lparr>csr_request_q := csr_request_q (cm_csr ?s) @ (if ri_is_mret x then [mret_request st] else [])\<rparr>"
      "bp_inv (cm_bp l')" "bp_request_q (cm_bp l') = bp_request_q (cm_bp ?s)"
      "cm_cpbuf l' = (if ri_predicted x then cpbuf_pop_sync (cm_cpbuf ?s) else cm_cpbuf ?s)"
      "cv_fb l' = (if ri_predicted x then cv_fb ?s else (cv_fb ?s)\<lparr>cf_enable := True, cf_jump_enable := True,
         cf_jump := ri_bru_jump x, cf_next_pc := commit_target x\<rparr>)" by auto
    have "announced (ring_ids ?b) (length (commit_group items)) (cv_fb l')" "cf_enable (cv_fb l')" "\<not> cf_flush (cv_fb l')"
      "\<not> cf_has_exception (cv_fb l')" "redirected items (cv_fb l')"
      using sa sb Some unfolding l'(13) by (auto simp: announced_def cf_ok_def redirected_def)
    then have "retired_to items st l l'"
      unfolding retired_to_def Let_def l'(2-9,11,12) sf using l'(10) G by simp
    with out l'(1) show ?thesis by auto
  qed
qed

section \<open>Recording results\<close>

definition finish_requests :: "execute_wb_pack_t list \<Rightarrow> rob \<Rightarrow> rob_item_t ring_request list" where
  "finish_requests ps b = map (\<lambda>p. Ring_set_item (p_rob_id p) (commit_finish p (buffer b ! p_rob_id p))) (filter p_enable ps)"

text \<open>What the last report about a slot makes of its instruction.\<close>

definition finished_by :: "execute_wb_pack_t list \<Rightarrow> nat \<Rightarrow> rob_item_t \<Rightarrow> rob_item_t" where
  "finished_by ps i x = (case find (\<lambda>p. p_enable p \<and> p_rob_id p = i) (rev ps) of Some p \<Rightarrow> commit_finish p x | None \<Rightarrow> x)"

lemma commit_input_all:
  assumes "fifo_inv b" "\<forall>p \<in> set ps. p_enable p \<longrightarrow> p_rob_id p < qsize b"
  shows "fold_opt commit_input_one ps b = Some (b\<lparr>rob_request_q := rob_request_q b @ finish_requests ps b\<rparr>)"
  using assms
proof (induction ps arbitrary: b)
  case (Cons p ps)
  let ?b = "if p_enable p then rob_set_item_sync (p_rob_id p) (commit_finish p (buffer b ! p_rob_id p)) b else b"
  have one: "commit_input_one p b = Some ?b"
    using Cons.prems by (simp add: commit_input_one_def rob_get_item_nth)
  have "fifo_inv ?b" "qsize ?b = qsize b" "buffer ?b = buffer b"
    using Cons.prems(1) by (simp_all add: rob_set_item_sync_def fifo_inv_def)
  with Cons.IH [of ?b] Cons.prems(2) show ?case
    by (simp add: one finish_requests_def rob_set_item_sync_def)
qed (simp add: finish_requests_def)

lemma finish_pops [simp]: "ring_pops (finish_requests ps b) = 0" "ring_pops (replicate n Ring_pop) = n"
  "ring_pops (xs @ ys) = ring_pops xs + ring_pops ys"
  by (simp_all add: ring_pops_def finish_requests_def filter_empty_conv)

lemma ring_writes_pops [simp]: "ring_writes i (replicate n Ring_pop @ rs) = ring_writes i rs"
  by (induction n) simp_all

lemma ring_writes_append: "ring_writes i (rs @ ss) = ring_writes i rs @ ring_writes i ss"
proof (induction rs)
  case (Cons r rs)
  then show ?case by (cases r) auto
qed simp

lemma finish_last: "last (buffer b ! i # ring_writes i (finish_requests ps b)) = finished_by ps i (buffer b ! i)"
proof (induction ps rule: rev_induct)
  case (snoc p ps)
  then show ?case
    by (cases "p_enable p"; cases "p_rob_id p = i") (simp_all add: finish_requests_def finished_by_def ring_writes_append)
qed (simp add: finish_requests_def finished_by_def)

lemma finished_by_regs [simp]: "entry_regs (finished_by ps i x) = entry_regs x"
  by (simp add: finished_by_def entry_regs_def commit_finish_def split: option.split)

section \<open>A cycle of the normal state\<close>

definition commit_ready :: "(nat \<Rightarrow> nat option) \<Rightarrow> commit_stage \<Rightarrow> bool" where
  "commit_ready m s = (commit_quiet s \<and> cm_state s = St_normal \<and> fifo_inv (cm_rob s) \<and> regfile_inv (cm_regfile s)
     \<and> bp_inv (cm_bp s) \<and> csr_class_at (cm_csr s) CSR_MIE = Some mie \<and> csr_class_at (cm_csr s) CSR_MSTATUS = Some mstatus
     \<and> in_flight m (fifo_items (cm_rob s)) (cm_rat s) \<and> fifo_items (cm_rob s) \<noteq> [])"

text \<open>The results of a cycle belong to instructions that stay in the reorder buffer.\<close>

definition results_live :: "nat \<Rightarrow> commit_stage \<Rightarrow> bool" where
  "results_live n s = (\<forall>p \<in> set (port_get (cm_in s)). p_enable p \<longrightarrow> p_rob_id p \<in> set (drop n (ring_ids (cm_rob s))))"

lemma rob_after_cycle:
  assumes "fifo_inv b" "rob_request_q b = []" "n \<le> length (ring_ids b)"
    and "\<forall>p \<in> set ps. p_enable p \<longrightarrow> p_rob_id p \<in> set (drop n (ring_ids b))"
  shows "\<exists>c. rob_sync ((rob_retired n b)\<lparr>rob_request_q := replicate n Ring_pop @ finish_requests ps b\<rparr>) = Some c
    \<and> fifo_inv c \<and> rob_request_q c = [] \<and> ring_ids c = drop n (ring_ids b)
    \<and> (\<forall>i \<in> set (ring_ids c). rob_get_item c i = Some (finished_by ps i (buffer b ! i)))
    \<and> map entry_regs (fifo_items c) = map entry_regs (drop n (fifo_items b))
    \<and> global_commit_num c = global_commit_num b + of_nat n"
proof -
  let ?q = "replicate n Ring_pop @ finish_requests ps b"
  let ?b = "(rob_retired n b)\<lparr>rob_request_q := ?q\<rparr>"
  have inv: "fifo_inv ?b" and ids: "ring_ids ?b = ring_ids b" and buf: "buffer ?b = buffer b" "qsize ?b = qsize b"
    using assms(1) by (simp_all add: rob_retired_def fifo_inv_def ring_ids_def)
  have "\<forall>p \<in> set ps. p_enable p \<longrightarrow> p_rob_id p < qsize b"
    using assms(1,4) by (meson in_set_dropD ring_ids_bound)
  then have ok: "\<forall>q \<in> set (rob_request_q ?b). ring_request_ok (qsize ?b) q"
    by (auto simp: finish_requests_def buf)
  obtain g where g: "fold_opt ring_apply (rob_request_q ?b) ?b = Some g" "fifo_inv g" "qsize g = qsize b"
      "ring_ids g = drop n (ring_ids b)" "\<forall>i < qsize b. buffer g ! i = finished_by ps i (buffer b ! i)"
    using ring_replay [OF inv ok] by (auto simp: ids buf finish_last simp del: last.simps)
  let ?c = "g\<lparr>rob_request_q := []\<rparr>"
  have c: "rob_sync ?b = Some ?c" using g(1) by (simp add: rob_sync_def)
  have ci: "fifo_inv ?c" "ring_ids ?c = drop n (ring_ids b)" "buffer ?c = buffer g" "qsize ?c = qsize b"
    using g by (simp_all add: fifo_inv_def ring_ids_def)
  have bnd: "i < qsize b" if "i \<in> set (drop n (ring_ids b))" for i
    using ring_ids_bound [OF assms(1)] in_set_dropD [OF that] by blast
  have items: "\<forall>i \<in> set (ring_ids ?c). rob_get_item ?c i = Some (finished_by ps i (buffer b ! i))"
    using ci bnd g(5) by (simp add: rob_get_item_nth)
  have "map entry_regs (fifo_items ?c) = map (\<lambda>i. entry_regs (buffer b ! i)) (drop n (ring_ids b))"
    using ring_ids_items [OF ci(1)] ci(2,3) g(5) bnd by simp
  also have "\<dots> = map entry_regs (drop n (fifo_items b))"
    using ring_ids_items [OF assms(1)] by (simp add: drop_map)
  finally have regs: "map entry_regs (fifo_items ?c) = map entry_regs (drop n (fifo_items b))" .
  have keep: "global_commit_num g = global_commit_num b + of_nat n"
  proof -
    have step: "global_commit_num v = global_commit_num u" if "ring_apply r u = Some v" for r and u v :: rob
      using that by (cases r) (auto simp: ring_pop_def fifo_pop_def ring_set_item_def Let_def bind_eq_Some_conv split: if_splits)
    have "fold_opt ring_apply rs u = Some v \<Longrightarrow> global_commit_num v = global_commit_num u" for rs and u v :: rob
      by (induction rs arbitrary: u) (auto simp: bind_eq_Some_conv dest: step)
    from this [OF g(1)] show ?thesis by (simp add: rob_retired_def)
  qed
  from c ci items regs keep show ?thesis by (intro exI [of _ ?c]) simp
qed

lemma rat_after_cycle:
  assumes "in_flight m (G @ rest) r" "rat_request_q r = []"
  shows "\<exists>u m'. rat_sync (r\<lparr>rat_request_q := concat (map retire_requests G)\<rparr>) = Some u \<and> in_flight m' rest u
    \<and> rat_request_q u = [] \<and> rat_lookup u = rat_lookup r
    \<and> (\<forall>j. vld u j \<longleftrightarrow> vld r j \<and> (\<forall>x \<in> set G. \<not> (old_phy_reg_id_valid x \<and> old_phy_reg_id x = j)))"
proof -
  let ?r = "r\<lparr>rat_request_q := concat (map retire_requests G)\<rparr>"
  from in_flight_retire_all [of m G rest ?r] assms(1) obtain u m' where
    u: "fold_opt rat_apply (concat (map retire_requests G)) ?r = Some u" "in_flight m' rest u" "rat_lookup u = rat_lookup r"
      "\<And>j. vld u j \<longleftrightarrow> vld r j \<and> (\<forall>x \<in> set G. \<not> (old_phy_reg_id_valid x \<and> old_phy_reg_id x = j))"
    by (auto simp: rat_queue_clear)
  then show ?thesis
    by (intro exI [of _ "u\<lparr>rat_request_q := []\<rparr>"] exI [of _ m']) (simp add: rat_sync_def rat_queue_clear fun_eq_iff)
qed

lemma values_after_cycle:
  assumes "regfile_inv f" "\<forall>x \<in> set G. old_phy_reg_id_valid x \<longrightarrow> old_phy_reg_id x < PHY_REG_NUM"
  shows "\<exists>g. regfile_sync (f\<lparr>regfile_request_q := concat (map retire_values G)\<rparr>) = Some g \<and> regfile_inv g \<and> regfile_request_q g = []
    \<and> (\<forall>i < PHY_REG_NUM. (\<forall>x \<in> set G. \<not> (old_phy_reg_id_valid x \<and> old_phy_reg_id x = i)) \<longrightarrow>
         regfile_read g i = regfile_read f i \<and> regfile_read_data_valid g i = regfile_read_data_valid f i)"
proof -
  let ?f = "f\<lparr>regfile_request_q := concat (map retire_values G)\<rparr>"
  have "regfile_inv ?f" using assms(1) by (simp add: regfile_inv_def)
  moreover have "\<forall>q \<in> set (regfile_request_q ?f). regfile_request_ok q"
    using assms(2) by (auto simp: retire_values_def split: if_splits)
  ultimately obtain g where g: "regfile_sync ?f = Some g" "regfile_inv g" "regfile_request_q g = []"
    "\<And>i. i < PHY_REG_NUM \<Longrightarrow> regfile_read g i = Some (fold (\<lambda>r x. request_value i x r) (concat (map retire_values G)) (reg_data f ! i))"
    "\<And>i. i < PHY_REG_NUM \<Longrightarrow> regfile_read_data_valid g i
        = Some (fold (\<lambda>r b. request_valid i b r) (concat (map retire_values G)) (bm_bit (reg_data_valid f) i))"
    using regfile_sync_contents [of ?f] by auto
  have other: "fold (\<lambda>r x. request_value i x r) (concat (map retire_values G)) y = y
      \<and> fold (\<lambda>r b. request_valid i b r) (concat (map retire_values G)) z = z"
    if "\<forall>x \<in> set G. \<not> (old_phy_reg_id_valid x \<and> old_phy_reg_id x = i)" for i y z
    using that by (induction G) (auto simp: retire_values_def)
  show ?thesis
    using g other assms(1) by (intro exI [of _ g]) (simp add: regfile_read_eq regfile_read_data_valid_eq)
qed

text \<open>Control registers that an instruction may write: mapped, not read only, and not the character
  port, whose queues are shared with the console.\<close>

definition csr_writable :: "csrfile \<Rightarrow> u32 \<Rightarrow> bool" where
  "csr_writable f a = (\<exists>i. csr_map_table f a = Some i \<and> \<not> ci_readonly i \<and> ci_class i \<noteq> charfifo)"

lemma csr_write_step:
  assumes "csr_writable f a"
  shows "\<exists>g. csrfile_apply (Csr_write a v) f = Some g \<and> csr_class_at g = csr_class_at f \<and> csr_writable g = csr_writable f
    \<and> csr_request_q g = csr_request_q f"
  using assms
  by (auto simp: csr_writable_def csrfile_write_def csrfile_write_check_def csrfile_write_sys_def csrfile_write_item_def
      csr_class_at_def fun_eq_iff)

lemma csrs_after_cycle:
  assumes "\<forall>x \<in> set G. ri_csr_newvalue_valid x \<longrightarrow> csr_writable f (ri_csr_addr x)"
  shows "\<exists>g. csrfile_sync (f\<lparr>csr_request_q := concat (map retire_csrs G)\<rparr>) = Some g \<and> csr_class_at g = csr_class_at f
    \<and> csr_request_q g = []"
proof -
  have "\<exists>g. fold_opt csrfile_apply (concat (map retire_csrs G)) f = Some g \<and> csr_class_at g = csr_class_at f"
    if "\<forall>x \<in> set G. ri_csr_newvalue_valid x \<longrightarrow> csr_writable f (ri_csr_addr x)" for f
    using that
  proof (induction G arbitrary: f)
    case (Cons x G)
    show ?case
    proof (cases "ri_csr_newvalue_valid x")
      case True
      with Cons.prems have "csr_writable f (ri_csr_addr x)" by simp
      from csr_write_step [OF this, of "ri_csr_newvalue x"] obtain h where
        h: "csrfile_apply (Csr_write (ri_csr_addr x) (ri_csr_newvalue x)) f = Some h" "csr_class_at h = csr_class_at f"
          "csr_writable h = csr_writable f" by blast
      from Cons.IH [of h] Cons.prems h True show ?thesis by (auto simp: retire_csrs_def fold_opt_append)
    qed (use Cons in \<open>simp add: retire_csrs_def\<close>)
  qed simp
  from this [of "f\<lparr>csr_request_q := concat (map retire_csrs G)\<rparr>"] assms obtain g where
    g: "fold_opt csrfile_apply (concat (map retire_csrs G)) (f\<lparr>csr_request_q := concat (map retire_csrs G)\<rparr>) = Some g"
      "csr_class_at g = csr_class_at f"
    by (auto simp: csr_writable_def csr_class_at_def fun_eq_iff)
  then show ?thesis by (auto simp: csrfile_sync_def csr_class_at_def fun_eq_iff)
qed

lemma ready_parts:
  assumes "commit_ready m s"
  shows "fifo_inv (cm_rob s)" "fifo_items (cm_rob s) \<noteq> []" "regfile_inv (cm_regfile s)" "bp_inv (cm_bp s)" "commit_quiet s"
    "cm_state s = St_normal" "in_flight m (fifo_items (cm_rob s)) (cm_rat s)"
    "\<exists>st. csrfile_read_sys (cm_csr s) CSR_MSTATUS = Some st"
  using assms csr_class_read by (auto simp: commit_ready_def)

lemma commit_run_normal:
  assumes "cm_state s = St_normal" "commit_output (commit_stage.extend s (commit_vars.fields commit_feedback_zero False)) = Some l"
  shows "commit_run s = (case commit_input l of None \<Rightarrow> None | Some k \<Rightarrow> Some (cv_fb k, commit_stage.truncate k))"
  using assms by (simp add: commit_run_def split: option.split)

lemma truncate_fields [simp]:
  "cm_rob (commit_stage.truncate l) = cm_rob l" "cm_rat (commit_stage.truncate l) = cm_rat l"
  "cm_regfile (commit_stage.truncate l) = cm_regfile l" "cm_csr (commit_stage.truncate l) = cm_csr l"
  "cm_cpbuf (commit_stage.truncate l) = cm_cpbuf l" "cm_bp (commit_stage.truncate l) = cm_bp l"
  "cm_int (commit_stage.truncate l) = cm_int l" "cm_in (commit_stage.truncate l) = cm_in l"
  "cm_state (commit_stage.truncate l) = cm_state l" "cm_item (commit_stage.truncate l) = cm_item l"
  "cm_item_id (commit_stage.truncate l) = cm_item_id l" "cm_restore_id (commit_stage.truncate l) = cm_restore_id l"
  "cm_interrupt_pc (commit_stage.truncate l) = cm_interrupt_pc l" "cm_interrupt_id (commit_stage.truncate l) = cm_interrupt_id l"
  by (simp_all add: commit_stage.truncate_def)

lemma commit_run_retires:
  assumes "commit_ready m s" "int_get_cause (cm_csr s) (cm_int s) = Some None"
    and "\<not> commit_traps (fifo_items (cm_rob s))" "\<not> commit_misses (fifo_items (cm_rob s))"
    and "n = length (commit_group (fifo_items (cm_rob s)))" "results_live n s"
  shows "\<exists>fb t. commit_run s = Some (fb, t)
    \<and> cm_rat t = (cm_rat s)\<lparr>rat_request_q := concat (map retire_requests (commit_group (fifo_items (cm_rob s))))\<rparr>
    \<and> cm_regfile t = (cm_regfile s)\<lparr>regfile_request_q := concat (map retire_values (commit_group (fifo_items (cm_rob s))))\<rparr>
    \<and> cm_rob t = (rob_retired n (cm_rob s))\<lparr>rob_request_q := replicate n Ring_pop @ finish_requests (port_get (cm_in s)) (cm_rob s)\<rparr>
    \<and> cm_state t = St_normal \<and> announced (ring_ids (cm_rob s)) n fb \<and> \<not> cf_flushing fb \<and> redirected (fifo_items (cm_rob s)) fb
    \<and> n \<le> length (ring_ids (cm_rob s))
    \<and> fifo_items (cm_rob s) = commit_group (fifo_items (cm_rob s)) @ drop n (fifo_items (cm_rob s))
    \<and> (\<forall>w \<in> set (port_get (cm_in s)). p_enable w \<longrightarrow> p_rob_id w \<in> set (drop n (ring_ids (cm_rob s))))"
proof -
  let ?b = "cm_rob s" and ?items = "fifo_items (cm_rob s)" and ?G = "commit_group (fifo_items (cm_rob s))"
  let ?e = "commit_stage.extend s (commit_vars.fields commit_feedback_zero False)"
  note p = ready_parts [OF assms(1)]
  obtain st where st: "csrfile_read_sys (cm_csr s) CSR_MSTATUS = Some st" using p(8) by blast
  have q: "rat_request_q (cm_rat s) = []" "rob_request_q ?b = []" "regfile_request_q (cm_regfile s) = []"
    using p(5) by (simp_all add: commit_quiet_def)
  from commit_output_retires [of ?e ?items st] p st assms(2-4) obtain l where
    l: "commit_output ?e = Some l" "retired_to ?items st ?e l" by auto
  note rt = l(2) [unfolded retired_to_def Let_def, simplified q vars_fields append_Nil]
  have nl: "n \<le> length (ring_ids ?b)" "?items = ?G @ drop n ?items"
    using commit_group_take [of ?items] ring_ids_length [OF p(1)] unfolding assms(5) by (simp, metis append_take_drop_id)
  have live: "\<forall>w \<in> set (port_get (cm_in s)). p_enable w \<longrightarrow> p_rob_id w \<in> set (drop n (ring_ids ?b))"
    using assms(6) by (simp add: results_live_def)
  have lrob: "cm_rob l = rob_retired n ?b" "cm_in l = cm_in s" "cv_need_flush l = False" using rt assms(5) by simp_all
  have "\<forall>w \<in> set (port_get (cm_in s)). p_enable w \<longrightarrow> p_rob_id w < qsize (rob_retired n ?b)"
    using live ring_ids_bound [OF p(1)] by (auto dest: in_set_dropD)
  with commit_input_all [of "rob_retired n ?b" "port_get (cm_in s)"] p(1)
  have inp: "commit_input l = Some (l\<lparr>cm_rob := (rob_retired n ?b)\<lparr>rob_request_q := replicate n Ring_pop @ finish_requests (port_get (cm_in s)) ?b\<rparr>\<rparr>)"
    by (simp add: commit_input_def lrob) (simp add: rob_retired_def q finish_requests_def)
  define t where "t = commit_stage.truncate (l\<lparr>cm_rob := (rob_retired n ?b)\<lparr>rob_request_q := replicate n Ring_pop @ finish_requests (port_get (cm_in s)) ?b\<rparr>\<rparr>)"
  have "commit_run s = Some (cv_fb l, t)"
    using commit_run_normal [OF p(6) l(1)] inp by (simp add: t_def)
  then show ?thesis using rt nl live assms(5) p(6)
    by (intro exI [of _ "cv_fb l"] exI [of _ t]) (simp add: t_def cf_flushing_def)
qed

text \<open>C1: retiring.  In a cycle without interrupt, exception or misprediction the instructions that leave
  the reorder buffer are the finished ones at its old end, at most four, up to and including the
  first branch; they are announced to the other stages in order, the registers they replaced, and
  only those, are given back, no mapping changes and no register that is still allocated loses its
  value; the other instructions stay, in order, those finished in this cycle with their results;
  and fetching is redirected exactly to the target of an unpredicted branch.\<close>

theorem commit_retires_in_order:
  assumes "commit_ready m s" "int_get_cause (cm_csr s) (cm_int s) = Some None"
    and "\<not> commit_traps (fifo_items (cm_rob s))" "\<not> commit_misses (fifo_items (cm_rob s))"
    and "n = length (commit_group (fifo_items (cm_rob s)))" "results_live n s"
  shows "\<exists>fb t b r f m'. commit_run s = Some (fb, t) \<and> rob_sync (cm_rob t) = Some b \<and> rat_sync (cm_rat t) = Some r
    \<and> regfile_sync (cm_regfile t) = Some f \<and> cm_state t = St_normal
    \<and> (\<forall>j < COMMIT_WIDTH. cf_committed_rob_id_valid fb ! j = (j < n) \<and> (j < n \<longrightarrow> cf_committed_rob_id fb ! j = ring_ids (cm_rob s) ! j))
    \<and> \<not> cf_flushing fb \<and> redirected (fifo_items (cm_rob s)) fb
    \<and> ring_ids b = drop n (ring_ids (cm_rob s))
    \<and> (\<forall>i \<in> set (ring_ids b). rob_get_item b i = map_option (finished_by (port_get (cm_in s)) i) (rob_get_item (cm_rob s) i))
    \<and> global_commit_num b = global_commit_num (cm_rob s) + of_nat n
    \<and> in_flight m' (fifo_items b) r \<and> rat_lookup r = rat_lookup (cm_rat s)
    \<and> (\<forall>p < PHY_REG_NUM. rat_get_valid r p = Some True \<longleftrightarrow> rat_get_valid (cm_rat s) p = Some True
         \<and> (\<forall>x \<in> set (commit_group (fifo_items (cm_rob s))). \<not> (old_phy_reg_id_valid x \<and> old_phy_reg_id x = p)))
    \<and> (\<forall>p < PHY_REG_NUM. rat_get_valid r p = Some True \<longrightarrow> regfile_read f p = regfile_read (cm_regfile s) p
         \<and> regfile_read_data_valid f p = regfile_read_data_valid (cm_regfile s) p)"
proof -
  let ?b = "cm_rob s" and ?items = "fifo_items (cm_rob s)" and ?G = "commit_group (fifo_items (cm_rob s))"
  note p = ready_parts [OF assms(1)]
  have q: "rat_request_q (cm_rat s) = []" "rob_request_q ?b = []" using p(5) by (simp_all add: commit_quiet_def)
  from commit_run_retires [OF assms] obtain fb t where run: "commit_run s = Some (fb, t)" and
    tf: "cm_rat t = (cm_rat s)\<lparr>rat_request_q := concat (map retire_requests ?G)\<rparr>"
      "cm_regfile t = (cm_regfile s)\<lparr>regfile_request_q := concat (map retire_values ?G)\<rparr>"
      "cm_rob t = (rob_retired n ?b)\<lparr>rob_request_q := replicate n Ring_pop @ finish_requests (port_get (cm_in s)) ?b\<rparr>"
      "cm_state t = St_normal" "announced (ring_ids ?b) n fb" "\<not> cf_flushing fb" "redirected ?items fb" and
    nl: "n \<le> length (ring_ids ?b)" "?items = ?G @ drop n ?items" and
    live: "\<forall>w \<in> set (port_get (cm_in s)). p_enable w \<longrightarrow> p_rob_id w \<in> set (drop n (ring_ids ?b))" by blast
  from rob_after_cycle [OF p(1) q(2) nl(1) live] obtain b where
    b: "rob_sync (cm_rob t) = Some b" "fifo_inv b" "ring_ids b = drop n (ring_ids ?b)"
      "\<forall>i \<in> set (ring_ids b). rob_get_item b i = Some (finished_by (port_get (cm_in s)) i (buffer ?b ! i))"
      "map entry_regs (fifo_items b) = map entry_regs (drop n ?items)" "global_commit_num b = global_commit_num ?b + of_nat n"
    by (auto simp: tf)
  have old: "\<forall>x \<in> set ?G. old_phy_reg_id_valid x \<longrightarrow> old_phy_reg_id x < PHY_REG_NUM"
    using in_flight_regs(3) [OF p(7)] nl(2) by (metis UnCI set_append)
  have fl: "in_flight m (?G @ drop n ?items) (cm_rat s)" using p(7) nl(2) by simp
  from rat_after_cycle [OF fl q(1)] obtain r m' where
    r: "rat_sync (cm_rat t) = Some r" "in_flight m' (drop n ?items) r" "rat_lookup r = rat_lookup (cm_rat s)"
      "\<And>j. vld r j \<longleftrightarrow> vld (cm_rat s) j \<and> (\<forall>x \<in> set ?G. \<not> (old_phy_reg_id_valid x \<and> old_phy_reg_id x = j))"
    by (auto simp: tf)
  from values_after_cycle [OF p(3) old] obtain f where
    f: "regfile_sync (cm_regfile t) = Some f"
      "\<And>i. i < PHY_REG_NUM \<Longrightarrow> \<forall>x \<in> set ?G. \<not> (old_phy_reg_id_valid x \<and> old_phy_reg_id x = i) \<Longrightarrow>
         regfile_read f i = regfile_read (cm_regfile s) i \<and> regfile_read_data_valid f i = regfile_read_data_valid (cm_regfile s) i"
    by (auto simp: tf)
  have wf: "rat_wf r" "phy_reg_num r = PHY_REG_NUM" "rat_wf (cm_rat s)" "phy_reg_num (cm_rat s) = PHY_REG_NUM"
    using in_flight_lookup(1) [OF r(2)] in_flight_lookup(1) [OF p(7)] rat_inv_wf by (auto simp: rat_running_def)
  have vd: "rat_get_valid r i = Some (vld r i)" "rat_get_valid (cm_rat s) i = Some (vld (cm_rat s) i)" if "i < PHY_REG_NUM" for i
    using rat_get_valid_eq [OF wf(1)] rat_get_valid_eq [OF wf(3)] wf(2,4) that by simp_all
  have get: "rob_get_item ?b i = Some (buffer ?b ! i)" if "i \<in> set (ring_ids b)" for i
    using that b(3) rob_get_item_nth [OF p(1)] ring_ids_bound [OF p(1)] in_set_dropD by metis
  have "in_flight m' (fifo_items b) r" using r(2) in_flight_cong [OF b(5)] by simp
  moreover have "\<forall>i \<in> set (ring_ids b). rob_get_item b i = map_option (finished_by (port_get (cm_in s)) i) (rob_get_item ?b i)"
    using b(4) get by simp
  moreover have "\<forall>j < COMMIT_WIDTH. cf_committed_rob_id_valid fb ! j = (j < n) \<and> (j < n \<longrightarrow> cf_committed_rob_id fb ! j = ring_ids ?b ! j)"
    using tf(5) by (simp add: announced_def)
  ultimately show ?thesis
    using run b(1,3,6) r(1,3,4) f vd tf(4,6,7) by (intro exI [of _ fb] exI [of _ t] exI [of _ b] exI [of _ r] exI [of _ f] exI [of _ m'] conjI) simp_all
qed

section \<open>Detecting an exception or an interrupt\<close>

lemma commit_exception_simp:
  "ring_get_tail_id (cm_rob l) = Some t \<Longrightarrow> commit_exception l = Some (l\<lparr>cm_restore_id := t,
     cv_fb := (cv_fb l)\<lparr>cf_enable := True, cf_flush := True\<rparr>, cm_state := St_flush, cv_need_flush := True\<rparr>)"
  by (simp add: commit_exception_def)

lemma commit_output_traps:
  assumes "fifo_inv (cm_rob l)" "fifo_items (cm_rob l) = items" "int_get_cause (cm_csr l) (cm_int l) = Some None"
    and "commit_traps items" "n = length (retired_plain items)"
  shows "n < length items" "n \<le> COMMIT_WIDTH" "commit_group items = retired_plain items"
    "commit_output l = Some ((commit_stopped (cm_rob l) (commit_begin l) n)\<lparr>cm_restore_id := last (ring_ids (cm_rob l)),
       cv_fb := (cv_fb (commit_stopped (cm_rob l) (commit_begin l) n))\<lparr>cf_enable := True, cf_flush := True\<rparr>,
       cm_state := St_flush, cv_need_flush := True\<rparr>)"
    "item_at (cm_rob l) n = items ! n"
proof -
  let ?b = "cm_rob l"
  from assms(4) obtain x where x: "commit_stop items = Some x" "ri_finish x" "ri_has_exception x" by (auto simp: commit_traps_def)
  note s = commit_stop_props [OF x(1), folded assms(5)]
  from x show "commit_group items = retired_plain items" by (simp add: commit_group_def)
  from s show nl: "n < length items" and "n \<le> COMMIT_WIDTH" by simp_all
  have ne: "fifo_items ?b \<noteq> []" using nl assms(2) by auto
  note beg = commit_output_begin [OF assms(1) ne assms(3), simplified]
  have len: "length (ring_ids ?b) = length items" using ring_ids_length [OF assms(1)] assms(2) by simp
  note e = commit_begin_fields(4,10) [of l]
  have pl: "\<forall>k < n. plain (item_at ?b k)"
    using retired_plain_props(4) [of items] nl item_at_items [OF assms(1)] len assms(2,5) by simp
  show it: "item_at ?b n = items ! n" using item_at_items [OF assms(1)] len nl assms(2) by simp
  have "cm_rob (commit_stopped ?b (commit_begin l) n) = rob_retired n ?b"
    by (simp add: commit_stopped_def commit_at_fields [OF e(1)])
  then have "ring_get_tail_id (cm_rob (commit_stopped ?b (commit_begin l) n)) = Some (last (ring_ids ?b))"
    using ring_tail_id [OF assms(1)] beg(2) by simp
  from commit_exception_simp [OF this] commit_slots_stop [OF assms(1) e, of n COMMIT_WIDTH] nl len pl s it x beg(1)
  show "commit_output l = Some ((commit_stopped (cm_rob l) (commit_begin l) n)\<lparr>cm_restore_id := last (ring_ids (cm_rob l)),
       cv_fb := (cv_fb (commit_stopped (cm_rob l) (commit_begin l) n))\<lparr>cf_enable := True, cf_flush := True\<rparr>,
       cm_state := St_flush, cv_need_flush := True\<rparr>)"
    by simp
qed

lemma rob_after_group:
  assumes "fifo_inv b" "rob_request_q b = []" "n \<le> length (ring_ids b)"
  shows "\<exists>c. rob_sync (rob_retired n b) = Some c \<and> fifo_inv c \<and> rob_request_q c = [] \<and> ring_ids c = drop n (ring_ids b)
    \<and> fifo_items c = drop n (fifo_items b) \<and> global_commit_num c = global_commit_num b + of_nat n"
proof -
  have q: "(rob_retired n b)\<lparr>rob_request_q := replicate n Ring_pop @ finish_requests [] b\<rparr> = rob_retired n b"
    using assms(2) by (simp add: rob_retired_def finish_requests_def)
  from rob_after_cycle [OF assms, of "[]"] obtain c where c: "rob_sync (rob_retired n b) = Some c" "fifo_inv c" "rob_request_q c = []"
    "ring_ids c = drop n (ring_ids b)" "\<forall>i \<in> set (ring_ids c). rob_get_item c i = Some (buffer b ! i)"
    "global_commit_num c = global_commit_num b + of_nat n" unfolding q by (auto simp: finished_by_def)
  have "fifo_items c = map (\<lambda>i. buffer c ! i) (ring_ids c)" using ring_ids_items [OF c(2)] by simp
  also have "\<dots> = map (\<lambda>i. buffer b ! i) (ring_ids c)"
    using c(5) rob_get_item_nth [OF c(2)] ring_ids_bound [OF c(2)] by (intro map_cong) auto
  also have "\<dots> = drop n (fifo_items b)" using ring_ids_items [OF assms(1)] by (simp add: c(4) drop_map)
  finally show ?thesis using c by blast
qed

text \<open>C3: an exception is noticed at its instruction.  In a cycle whose oldest instructions are
  finished up to one that raised an exception, exactly those before it are retired, the results that
  arrive in this cycle are dropped, the pipeline is flushed, and the stage is at the start of the
  walk back: the trapping instruction is the oldest in flight and the walk begins at the youngest.
  The control registers that the retired instructions write are writable and not the character
  queue.\<close>

theorem commit_detects_exception:
  assumes "commit_ready m s" "trap_ready s" "int_get_cause (cm_csr s) (cm_int s) = Some None"
    and "commit_traps (fifo_items (cm_rob s))" "n = length (retired_plain (fifo_items (cm_rob s)))"
    and "\<forall>x \<in> set (retired_plain (fifo_items (cm_rob s))). ri_csr_newvalue_valid x \<longrightarrow> csr_writable (cm_csr s) (ri_csr_addr x)"
  shows "\<exists>fb t m'. commit_cycle s = Some (fb, t) \<and> walk_start m' t \<and> cm_state t = St_flush
    \<and> cm_item t = fifo_items (cm_rob s) ! n \<and> fifo_items (cm_rob t) = drop n (fifo_items (cm_rob s))
    \<and> cf_flushing fb \<and> \<not> cf_has_exception fb \<and> \<not> cf_jump_enable fb
    \<and> global_commit_num (cm_rob t) = global_commit_num (cm_rob s) + of_nat n
    \<and> rat_lookup (cm_rat t) = rat_lookup (cm_rat s)"
proof -
  let ?b = "cm_rob s" and ?items = "fifo_items (cm_rob s)" and ?G = "retired_plain (fifo_items (cm_rob s))"
  let ?e = "commit_stage.extend s (commit_vars.fields commit_feedback_zero False)"
  let ?k = "commit_stopped ?b (commit_begin ?e) n"
  note p = ready_parts [OF assms(1)]
  have q: "rat_request_q (cm_rat s) = []" "rob_request_q ?b = []" "regfile_request_q (cm_regfile s) = []" "csr_request_q (cm_csr s) = []"
    "cpbuf_request_q (cm_cpbuf s) = []" "bp_request_q (cm_bp s) = []" "int_request_q (cm_int s) = []"
    using p(5) by (simp_all add: commit_quiet_def)
  have "commit_output ?e = Some (?k\<lparr>cm_restore_id := last (ring_ids ?b), cv_fb := (cv_fb ?k)\<lparr>cf_enable := True, cf_flush := True\<rparr>,
      cm_state := St_flush, cv_need_flush := True\<rparr>)"
    and nl: "n < length ?items" and it: "item_at ?b n = ?items ! n"
    using commit_output_traps [of ?e ?items n] p assms(3-5) by simp_all
  from commit_run_normal [OF p(6) this(1)] have run: "commit_run s = Some ((cv_fb ?k)\<lparr>cf_enable := True, cf_flush := True\<rparr>,
      (commit_stage.truncate ?k)\<lparr>cm_restore_id := last (ring_ids ?b), cm_state := St_flush\<rparr>)"
    by (simp add: commit_input_def)
  have len: "length (ring_ids ?b) = length ?items" using ring_ids_length [OF p(1)] by simp
  have mp: "concat (map (\<lambda>j. g (item_at ?b j)) [0..<n]) = concat (map g ?G)" for g :: "rob_item_t \<Rightarrow> 'x list"
    using item_at_map [OF p(1), of n g] nl len retired_plain_props(1) [of ?items] assms(5) by simp
  note f = commit_at_fields [of "commit_begin ?e" ?b, simplified]
  have kf: "cm_rat ?k = (cm_rat s)\<lparr>rat_request_q := concat (map retire_requests ?G)\<rparr>"
      "cm_regfile ?k = (cm_regfile s)\<lparr>regfile_request_q := concat (map retire_values ?G)\<rparr>"
      "cm_csr ?k = (cm_csr s)\<lparr>csr_request_q := concat (map retire_csrs ?G)\<rparr>"
      "cm_rob ?k = rob_retired n ?b" "cm_int ?k = cm_int s" "cm_bp ?k = cm_bp s" "cm_cpbuf ?k = cm_cpbuf s"
      "cm_item ?k = ?items ! n" "cm_item_id ?k = ring_ids ?b ! n"
    using commit_at_id [OF p(1), of n "commit_begin ?e"] nl len by (simp_all add: commit_stopped_def f mp q it)
  have fb: "\<not> cf_has_exception (cv_fb ?k)" "\<not> cf_jump_enable (cv_fb ?k)"
    by (simp_all add: commit_stopped_def commit_announce_def commit_at_feedback commit_begin_def commit_feedback_zero_def split: prod.split)
  have split: "?items = ?G @ drop n ?items" using retired_plain_props(1) [of ?items] assms(5) by (metis append_take_drop_id)
  have old: "\<forall>x \<in> set ?G. old_phy_reg_id_valid x \<longrightarrow> old_phy_reg_id x < PHY_REG_NUM"
    using in_flight_regs(3) [OF p(7)] split by (metis UnCI set_append)
  have fl: "in_flight m (?G @ drop n ?items) (cm_rat s)" using p(7) split by simp
  from rat_after_cycle [OF fl q(1)] obtain r m' where r: "rat_sync (cm_rat ?k) = Some r" "in_flight m' (drop n ?items) r"
    "rat_request_q r = []" "rat_lookup r = rat_lookup (cm_rat s)" by (auto simp: kf)
  from values_after_cycle [OF p(3) old] obtain g where g: "regfile_sync (cm_regfile ?k) = Some g" "regfile_inv g" "regfile_request_q g = []"
    by (auto simp: kf)
  from csrs_after_cycle [OF assms(6)] obtain c where c: "csrfile_sync (cm_csr ?k) = Some c" "csr_class_at c = csr_class_at (cm_csr s)"
    "csr_request_q c = []" by (auto simp: kf)
  have "n \<le> length (ring_ids ?b)" using nl len by simp
  from rob_after_group [OF p(1) q(2) this] obtain b where b: "rob_sync (cm_rob ?k) = Some b" "fifo_inv b" "rob_request_q b = []"
    "ring_ids b = drop n (ring_ids ?b)" "fifo_items b = drop n ?items" "global_commit_num b = global_commit_num ?b + of_nat n"
    by (auto simp: kf)
  let ?t = "(commit_stage.truncate ?k)\<lparr>cm_restore_id := last (ring_ids ?b), cm_state := St_flush, cm_rat := r, cm_rob := b,
     cm_regfile := g, cm_csr := c\<rparr>"
  have "commit_sync ((commit_stage.truncate ?k)\<lparr>cm_restore_id := last (ring_ids ?b), cm_state := St_flush\<rparr>) = Some ?t"
    using q r(1) b(1) g(1) c(1) by (simp add: commit_sync_def kf req_simps)
  with run have cyc: "commit_cycle s = Some ((cv_fb ?k)\<lparr>cf_enable := True, cf_flush := True\<rparr>, ?t)"
    by (simp add: commit_cycle_def)
  have "trap_ready ?t" using assms(2) c(2) by (simp add: trap_ready_def)
  moreover have "commit_quiet ?t" using q r(3) b(3) g(3) c(3) by (simp add: commit_quiet_def kf)
  moreover have "ring_get_front_id b = Some (ring_ids ?b ! n)" "ring_get_tail_id b = Some (last (ring_ids ?b))"
    using ring_front_id [OF b(2)] ring_tail_id [OF b(2)] nl len Cons_nth_drop_Suc [of n "ring_ids ?b"]
    by (simp_all only: b(4)) (auto simp: last_drop split: list.splits)
  ultimately have "walk_start m' ?t" using r(2) b g(2) nl by (simp add: walk_start_def kf)
  then show ?thesis using cyc r(4) b(5,6) fb
    by (intro exI [of _ "(cv_fb ?k)\<lparr>cf_enable := True, cf_flush := True\<rparr>"] exI [of _ ?t] exI [of _ m']) (simp add: kf cf_flushing_def)
qed

text \<open>C5: an interrupt that can be taken is taken at the next cycle with an instruction in flight:
  nothing is retired and no result is recorded, the address of the oldest instruction is kept for
  \<open>mepc\<close>, the pipeline is flushed, and the stage is at the start of the walk back over all
  instructions.\<close>

theorem commit_takes_interrupt:
  assumes "commit_ready m s" "trap_ready s" "int_get_cause (cm_csr s) (cm_int s) = Some (Some c)"
  shows "\<exists>fb t. commit_cycle s = Some (fb, t) \<and> walk_start m t \<and> cm_state t = St_interrupt_flush
    \<and> cm_interrupt_id t = c \<and> cm_interrupt_pc t = ri_pc (hd (fifo_items (cm_rob s)))
    \<and> cf_flushing fb \<and> (\<forall>j < COMMIT_WIDTH. \<not> cf_committed_rob_id_valid fb ! j) \<and> \<not> cf_has_exception fb
    \<and> cm_rob t = cm_rob s \<and> cm_rat t = cm_rat s \<and> cm_regfile t = cm_regfile s \<and> cm_csr t = cm_csr s"
proof -
  let ?b = "cm_rob s"
  let ?e = "commit_stage.extend s (commit_vars.fields commit_feedback_zero False)"
  note p = ready_parts [OF assms(1)]
  have q: "rat_request_q (cm_rat s) = []" "rob_request_q ?b = []" "regfile_request_q (cm_regfile s) = []" "csr_request_q (cm_csr s) = []"
    "cpbuf_request_q (cm_cpbuf s) = []" "bp_request_q (cm_bp s) = []" "int_request_q (cm_int s) = []"
    using p(5) by (simp_all add: commit_quiet_def)
  have out: "commit_output ?e = commit_interrupt c (commit_begin ?e)" and ne: "ring_ids ?b \<noteq> []"
    using commit_output_begin [of ?e "Some c"] p(1,2) assms(3) by simp_all
  have tail: "ring_get_tail_id ?b = Some (last (ring_ids ?b))" using ring_tail_id [OF p(1)] ne by simp
  have front: "ring_get_front_id ?b = Some (ring_ids ?b ! 0)" using ring_front_id [OF p(1)] ne by (simp split: list.split)
  have hd: "item_at ?b 0 = hd (fifo_items ?b)" using item_at_items [OF p(1), of 0] ne p(2) by (simp add: hd_conv_nth)
  define u where "u = s\<lparr>cm_item_id := ring_ids ?b ! 0, cm_item := item_at ?b 0, cm_interrupt_id := c, cm_interrupt_pc := ri_pc (item_at ?b 0),
     cm_restore_id := last (ring_ids ?b), cm_state := St_interrupt_flush\<rparr>"
  have "commit_run s = Some ((cv_fb (commit_begin ?e))\<lparr>cf_enable := True, cf_flush := True\<rparr>, u)"
    using commit_run_normal [OF p(6)] tail
    by (simp add: out commit_interrupt_def commit_input_def) (simp add: u_def commit_begin_def commit_stage.truncate_def commit_stage.extend_def)
  moreover have "commit_sync u = Some u" using q by (simp add: commit_sync_def u_def req_simps)
  ultimately have cyc: "commit_cycle s = Some ((cv_fb (commit_begin ?e))\<lparr>cf_enable := True, cf_flush := True\<rparr>, u)"
    by (simp add: commit_cycle_def)
  have "trap_ready u" "commit_quiet u" using assms(2) p(5) by (simp_all add: trap_ready_def commit_quiet_def u_def)
  then have "walk_start m u" using p front tail by (simp add: walk_start_def u_def)
  moreover have "\<forall>j < COMMIT_WIDTH. \<not> cf_committed_rob_id_valid (cv_fb (commit_begin ?e)) ! j"
    using commit_begin_announced [of ?e] ne by (simp add: announced_def)
  ultimately show ?thesis using cyc hd
    by (intro exI [of _ "(cv_fb (commit_begin ?e))\<lparr>cf_enable := True, cf_flush := True\<rparr>"] exI [of _ u])
      (simp add: u_def cf_flushing_def commit_begin_def commit_feedback_zero_def)
qed

section \<open>Concrete cycles\<close>

text \<open>Two finished instructions without branch, the younger one an \<open>add x5, ..\<close> renamed to register 40.\<close>

definition commit_demo :: "rob_item_t \<Rightarrow> rob_item_t \<Rightarrow> commit_stage" where
  "commit_demo x y = (trap_demo St_normal)\<lparr>cm_rob := trap_rob\<lparr>buffer := x # y # replicate 62 rob_item_zero\<rparr>\<rparr>"

definition plain_item :: "rob_item_t \<Rightarrow> rob_item_t" where
  "plain_item x = x\<lparr>ri_finish := True, ri_has_exception := False, ri_bru_op := False\<rparr>"

lemma commit_demo_ids:
  "fifo_inv (cm_rob (commit_demo x y))" "ring_ids (cm_rob (commit_demo x y)) = [0, 1]" "fifo_items (cm_rob (commit_demo x y)) = [x, y]"
  "cm_rat (commit_demo x y) = cm_rat (trap_demo St_flush)" "cm_csr (commit_demo x y) = csrfile_init" "cm_int (commit_demo x y) = int_new"
  "port_get (cm_in (commit_demo x y)) = []"
  by (simp_all add: commit_demo_def trap_demo_def trap_rob_def rob_new_def fifo.extend_def fifo_new_def fifo_inv_def ring_ok_def ring_ids_def
      id_span_def fifo_items_def ring_items_def upt_rec port_new_def port_get_def)

lemma commit_demo_ready:
  assumes "entry_regs x = entry_regs trap_item" "entry_regs y = entry_regs trap_younger"
  shows "commit_ready (rat_lookup rat_start) (commit_demo x y)" "trap_ready (commit_demo x y)"
    "int_get_cause (cm_csr (commit_demo x y)) (cm_int (commit_demo x y)) = Some None"
proof -
  note d = trap_demo_start [of St_flush, simplified]
  have f: "in_flight (rat_lookup rat_start) [x, y] (cm_rat (commit_demo x y))"
    using d in_flight_cong [of "[x, y]" "[trap_item, trap_younger]"] assms by (simp add: walk_start_def commit_demo_ids(4))
  have cls: "csr_map_table csrfile_init CSR_MIE = Some \<lparr>ci_readonly = False, ci_class = mie, ci_value = csr_init_value mie\<rparr>"
    "csr_map_table csrfile_init CSR_MSTATUS = Some \<lparr>ci_readonly = False, ci_class = mstatus, ci_value = csr_init_value mstatus\<rparr>"
    by (rule csrfile_init_lookup, simp add: csr_init_list_def csr_named_list_def)+
  show "trap_ready (commit_demo x y)" using d(1) by (simp add: walk_start_def trap_ready_def commit_demo_ids(5)) (simp add: trap_demo_def)
  have q: "commit_quiet (commit_demo x y)" using d(1)
    by (simp add: walk_start_def commit_quiet_def commit_demo_def trap_demo_def)
  have "regfile_inv (cm_regfile (commit_demo x y))" "bp_inv (cm_bp (commit_demo x y))"
    using d(1) bp_new_inv by (simp_all add: walk_start_def commit_demo_def trap_demo_def bp_demo_def)
  with q f cls show "commit_ready (rat_lookup rat_start) (commit_demo x y)"
    using commit_demo_ids(1,3) [of x y] by (simp add: commit_ready_def csr_class_at_def commit_demo_ids(5)) (simp add: commit_demo_def trap_demo_def)
  show "int_get_cause (cm_csr (commit_demo x y)) (cm_int (commit_demo x y)) = Some None"
    using cls by (simp add: commit_demo_ids(5,6) int_get_cause_def csrfile_read_sys_def csrfile_read_item_def mstatus_get_mie_def)
qed

theorem commit_retires_in_order_witness:
  "\<exists>fb t b r. commit_run (commit_demo (plain_item trap_item) (plain_item trap_younger)) = Some (fb, t) \<and> rob_sync (cm_rob t) = Some b
    \<and> rat_sync (cm_rat t) = Some r \<and> ring_ids b = [] \<and> rat_get_valid r 5 \<noteq> Some True"
proof -
  let ?x = "plain_item trap_item" and ?y = "plain_item trap_younger"
  have e: "entry_regs ?x = entry_regs trap_item" "entry_regs ?y = entry_regs trap_younger"
    by (simp_all add: entry_regs_def plain_item_def)
  note d = commit_demo_ready [OF e]
  have rp: "retired_plain [?x, ?y] = [?x, ?y]" by (simp add: retired_plain_def COMMIT_WIDTH_def plain_def plain_item_def)
  then have st: "commit_stop [?x, ?y] = None" by (simp add: commit_stop_def)
  then have g: "\<not> commit_traps [?x, ?y]" "\<not> commit_misses [?x, ?y]" "commit_group [?x, ?y] = [?x, ?y]"
    using rp by (simp_all add: commit_traps_def commit_misses_def commit_group_def)
  have live: "results_live 2 (commit_demo ?x ?y)" by (simp add: results_live_def commit_demo_ids)
  have n: "2 = length (commit_group (fifo_items (cm_rob (commit_demo ?x ?y))))" by (simp add: commit_demo_ids g)
  have y: "old_phy_reg_id_valid ?y \<and> old_phy_reg_id ?y = 5" by (simp add: plain_item_def trap_younger_def)
  show ?thesis
    using commit_retires_in_order [OF d(1,3) _ _ n live] g y by (auto simp: commit_demo_ids PHY_REG_NUM_def)
qed

theorem commit_detects_exception_witness:
  "\<exists>fb t m. commit_cycle (commit_demo (plain_item trap_item) (trap_younger\<lparr>ri_finish := True, ri_has_exception := True\<rparr>)) = Some (fb, t)
    \<and> walk_start m t \<and> fifo_items (cm_rob t) = [trap_younger\<lparr>ri_finish := True, ri_has_exception := True\<rparr>]"
proof -
  let ?x = "plain_item trap_item" and ?y = "trap_younger\<lparr>ri_finish := True, ri_has_exception := True\<rparr>"
  have e: "entry_regs ?x = entry_regs trap_item" "entry_regs ?y = entry_regs trap_younger"
    by (simp_all add: entry_regs_def plain_item_def)
  note d = commit_demo_ready [OF e]
  have rp: "retired_plain [?x, ?y] = [?x]" by (simp add: retired_plain_def COMMIT_WIDTH_def plain_def plain_item_def)
  then have st: "commit_stop [?x, ?y] = Some ?y" by (simp add: commit_stop_def COMMIT_WIDTH_def)
  have t: "commit_traps (fifo_items (cm_rob (commit_demo ?x ?y)))" unfolding commit_demo_ids commit_traps_def st by simp
  have n: "1 = length (retired_plain (fifo_items (cm_rob (commit_demo ?x ?y))))" by (simp add: commit_demo_ids rp)
  have w: "\<forall>x \<in> set (retired_plain (fifo_items (cm_rob (commit_demo ?x ?y)))). ri_csr_newvalue_valid x \<longrightarrow>
      csr_writable (cm_csr (commit_demo ?x ?y)) (ri_csr_addr x)"
    by (simp add: commit_demo_ids rp) (simp add: plain_item_def trap_item_def rob_item_zero_def)
  show ?thesis using commit_detects_exception [OF d t n w] by (auto simp: commit_demo_ids)
qed

theorem commit_takes_interrupt_witness:
  "\<exists>fb t. commit_cycle ((commit_demo trap_item trap_younger)\<lparr>cm_csr := csr_int_demo, cm_int := int_new\<lparr>mtip := True\<rparr>\<rparr>) = Some (fb, t)
    \<and> walk_start (rat_lookup rat_start) t \<and> cm_interrupt_id t = machine_timer \<and> cm_interrupt_pc t = 0x80000010"
proof -
  let ?s = "(commit_demo trap_item trap_younger)\<lparr>cm_csr := csr_int_demo, cm_int := int_new\<lparr>mtip := True\<rparr>\<rparr>"
  note d = commit_demo_ready [of trap_item trap_younger, simplified]
  have cls: "csr_class_at csr_int_demo CSR_MIE = Some mie" "csr_class_at csr_int_demo CSR_MSTATUS = Some mstatus"
    "\<And>a. a \<noteq> CSR_MIE \<Longrightarrow> a \<noteq> CSR_MSTATUS \<Longrightarrow> csr_class_at csr_int_demo a = csr_class_at csrfile_init a"
    by (simp_all add: csr_class_at_def csr_int_demo_def CSR_MIE_def CSR_MSTATUS_def)
  have q: "csr_request_q csr_int_demo = []" by (simp add: csr_int_demo_def csrfile_init_def)
  have a: "commit_ready (rat_lookup rat_start) ?s"
    using d(1) cls q by (simp add: commit_ready_def commit_quiet_def int_new_def)
  have b: "trap_ready ?s"
    using d(2) cls(2,3) by (simp add: trap_ready_def commit_demo_ids(5))
      (simp add: CSR_MEPC_def CSR_MTVAL_def CSR_MCAUSE_def CSR_MTVEC_def CSR_MIE_def CSR_MSTATUS_def)
  have "bit (8 :: u32) 3" "\<not> bit (0x88 :: u32) 11" "bit (0x88 :: u32) 7" by simp_all
  then have c: "int_get_cause (cm_csr ?s) (cm_int ?s) = Some (Some machine_timer)"
    by (simp add: int_get_cause_def csr_int_demo_def csrfile_read_sys_def csrfile_read_item_def CSR_MIE_def CSR_MSTATUS_def
        mstatus_get_mie_def mie_get_meie_def mie_get_msie_def mie_get_mtie_def int_new_def)
  show ?thesis using commit_takes_interrupt [OF a b c] by (auto simp: commit_demo_ids trap_item_def)
qed

end
