(* ===== verification/Commit_Recover.thy ===== *)
theory Commit_Recover
  imports Commit_Retire
begin

text \<open>
  The recovery from a wrongly predicted branch in \<open>pipeline/commit.cpp\<close>: the checkpoint taken when the
  branch was renamed gives the alias table and the register file's valid bits back in one cycle,
  whatever younger instructions have done to them.
\<close>

section \<open>Cutting the checkpoint down\<close>

definition cp_vis :: "checkpoint_t \<Rightarrow> nat \<Rightarrow> bool" where
  "cp_vis cp p = bm_bit (rat_phy_map_table_visible cp) p"

definition cp_vld :: "checkpoint_t \<Rightarrow> nat \<Rightarrow> bool" where
  "cp_vld cp p = bm_bit (rat_phy_map_table_valid cp) p"

definition cp_data :: "checkpoint_t \<Rightarrow> nat \<Rightarrow> bool" where
  "cp_data cp p = bm_bit (phy_regfile_data_valid cp) p"

lemma cp_access:
  assumes "checkpoint_ok cp" "phy_reg_num r = PHY_REG_NUM" "p < PHY_REG_NUM"
  shows "rat_cp_get_visible r cp p = Some (cp_vis cp p)" "rat_cp_get_valid r cp p = Some (cp_vld cp p)"
    and "\<exists>c. rat_cp_set_valid r cp p v = Some c \<and> checkpoint_ok c \<and> cp_vis c = cp_vis cp \<and> cp_data c = cp_data cp
      \<and> cp_vld c = (cp_vld cp)(p := v)"
proof -
  have l: "length (rat_phy_map_table_visible cp) = bm_words PHY_REG_NUM" "length (rat_phy_map_table_valid cp) = bm_words PHY_REG_NUM"
    using assms(1) by (simp_all add: checkpoint_ok_def bitmap_size_words)
  note a = assms(2,3)
  show "rat_cp_get_visible r cp p = Some (cp_vis cp p)" "rat_cp_get_valid r cp p = Some (cp_vld cp p)"
    using a bm_get_eq [OF l(1) a(2)] bm_get_eq [OF l(2) a(2)]
    by (simp_all add: rat_cp_get_visible_def rat_cp_get_valid_def cassert_def cp_vis_def cp_vld_def)
  show "\<exists>c. rat_cp_set_valid r cp p v = Some c \<and> checkpoint_ok c \<and> cp_vis c = cp_vis cp \<and> cp_data c = cp_data cp
      \<and> cp_vld c = (cp_vld cp)(p := v)"
    using a assms(1) bm_set_eq [OF l(2) a(2)] bm_bit_put [OF l(2) a(2)]
    by (auto simp: rat_cp_set_valid_def cassert_def checkpoint_ok_def cp_vis_def cp_vld_def cp_data_def fun_eq_iff)
qed

lemma cp_set_data:
  assumes "checkpoint_ok cp" "regfile_inv f" "p < PHY_REG_NUM"
  shows "\<exists>c. regfile_cp_set_data_valid f cp p v = Some c \<and> checkpoint_ok c \<and> cp_vis c = cp_vis cp \<and> cp_vld c = cp_vld cp
      \<and> cp_data c = (cp_data cp)(p := v)"
proof -
  have l: "length (phy_regfile_data_valid cp) = bm_words PHY_REG_NUM"
    using assms(1) by (simp add: checkpoint_ok_def bitmap_size_words)
  show ?thesis
    using assms bm_set_eq [OF l assms(3)] bm_bit_put [OF l assms(3)]
    by (auto simp: regfile_cp_set_data_valid_def cassert_def regfile_inv_def checkpoint_ok_def cp_vis_def cp_vld_def cp_data_def fun_eq_iff)
qed

lemma commit_scan_one:
  assumes "checkpoint_ok cp" "phy_reg_num r = PHY_REG_NUM" "regfile_inv f" "p < PHY_REG_NUM"
  shows "\<exists>c. commit_scan_step r f p (cp, n) = Some (c, if cp_vis cp p then n + 1 else n) \<and> checkpoint_ok c
    \<and> cp_vis c = cp_vis cp \<and> cp_vld c = (cp_vld cp)(p := cp_vis cp p \<and> cp_vld cp p) \<and> cp_data c = (cp_data cp)(p := cp_vis cp p)"
proof (cases "cp_vis cp p")
  case True
  from cp_set_data [OF assms(1,3,4), of True] True show ?thesis
    by (auto simp: commit_scan_step_def cp_access(1) [OF assms(1,2,4)])
next
  case False
  from cp_access(3) [OF assms(1,2,4), of False] obtain c where
    c: "rat_cp_set_valid r cp p False = Some c" "checkpoint_ok c" "cp_vis c = cp_vis cp" "cp_data c = cp_data cp"
      "cp_vld c = (cp_vld cp)(p := False)" by blast
  from cp_set_data [OF c(2) assms(3,4), of False] c False show ?thesis
    by (auto simp: commit_scan_step_def cp_access(1) [OF assms(1,2,4)])
qed

lemma commit_scan:
  assumes "checkpoint_ok cp" "phy_reg_num r = PHY_REG_NUM" "regfile_inv f" "n \<le> PHY_REG_NUM"
  shows "\<exists>c. fold_opt (commit_scan_step r f) [0..<n] (cp, 0) = Some (c, card {p. p < n \<and> cp_vis cp p}) \<and> checkpoint_ok c
    \<and> cp_vis c = cp_vis cp \<and> (\<forall>p < n. cp_vld c p = (cp_vis cp p \<and> cp_vld cp p) \<and> cp_data c p = cp_vis cp p)
    \<and> (\<forall>p \<ge> n. cp_vld c p = cp_vld cp p)"
  using assms(4)
proof (induction n)
  case (Suc n)
  then obtain c where c: "fold_opt (commit_scan_step r f) [0..<n] (cp, 0) = Some (c, card {p. p < n \<and> cp_vis cp p})" "checkpoint_ok c"
    "cp_vis c = cp_vis cp" "\<forall>p < n. cp_vld c p = (cp_vis cp p \<and> cp_vld cp p) \<and> cp_data c p = cp_vis cp p"
    "\<forall>p \<ge> n. cp_vld c p = cp_vld cp p" by auto
  have "{p. p < Suc n \<and> cp_vis cp p} = (if cp_vis cp n then insert n {p. p < n \<and> cp_vis cp p} else {p. p < n \<and> cp_vis cp p})"
    by (auto simp: less_Suc_eq)
  then have k: "card {p. p < Suc n \<and> cp_vis cp p} = (if cp_vis cp n then card {p. p < n \<and> cp_vis cp p} + 1 else card {p. p < n \<and> cp_vis cp p})"
    by simp
  from commit_scan_one [OF c(2) assms(2,3), of n "card {p. p < n \<and> cp_vis cp p}"] Suc.prems obtain d where
    d: "commit_scan_step r f n (c, card {p. p < n \<and> cp_vis cp p}) = Some (d, card {p. p < Suc n \<and> cp_vis cp p})" "checkpoint_ok d"
    "cp_vis d = cp_vis c" "cp_vld d = (cp_vld c)(n := cp_vis c n \<and> cp_vld c n)" "cp_data d = (cp_data c)(n := cp_vis c n)"
    unfolding k c(3) by auto
  have "fold_opt (commit_scan_step r f) [0..<Suc n] (cp, 0) = Some (d, card {p. p < Suc n \<and> cp_vis cp p})"
    using c(1) d(1) by (simp add: fold_opt_append)
  then show ?case using c(3-5) d(2-5) by (auto simp: less_Suc_eq)
qed (use assms(1) in simp)

lemma commit_recover_cp_eq:
  assumes "checkpoint_ok cp" "phy_reg_num r = PHY_REG_NUM" "regfile_inv f" "card {p. p < PHY_REG_NUM \<and> cp_vis cp p} = 31"
    and "\<And>p. p < PHY_REG_NUM \<Longrightarrow> cp_vis cp p \<Longrightarrow> cp_vld cp p"
    and "old_phy_reg_id_valid x \<Longrightarrow> old_phy_reg_id x < PHY_REG_NUM \<and> cp_vld cp (old_phy_reg_id x) \<and> \<not> cp_vis cp (old_phy_reg_id x)"
  shows "\<exists>c. commit_recover_cp r f x cp = Some c \<and> checkpoint_ok c
    \<and> (\<forall>p < PHY_REG_NUM. cp_vis c p = cp_vis cp p \<and> cp_vld c p = cp_vis cp p \<and> cp_data c p = cp_vis cp p)"
proof -
  have "\<exists>b. (if old_phy_reg_id_valid x then rat_cp_release_map r cp (old_phy_reg_id x) else Some cp) = Some b \<and> checkpoint_ok b
      \<and> cp_vis b = cp_vis cp \<and> (\<forall>p < PHY_REG_NUM. cp_vis cp p \<longrightarrow> cp_vld b p)"
  proof (cases "old_phy_reg_id_valid x")
    case True
    note o = assms(6) [OF True]
    then have l: "old_phy_reg_id x < PHY_REG_NUM" by simp
    note acc = cp_access [OF assms(1,2) l]
    obtain b where b: "rat_cp_set_valid r cp (old_phy_reg_id x) False = Some b" "checkpoint_ok b" "cp_vis b = cp_vis cp"
      "cp_vld b = (cp_vld cp)(old_phy_reg_id x := False)" using acc(3) [of False] by blast
    with True o assms(2,5) show ?thesis by (auto simp: rat_cp_release_map_def cassert_def acc(1,2))
  qed (use assms(1,5) in simp)
  then obtain b where b: "(if old_phy_reg_id_valid x then rat_cp_release_map r cp (old_phy_reg_id x) else Some cp) = Some b"
      "checkpoint_ok b" "cp_vis b = cp_vis cp" "\<forall>p < PHY_REG_NUM. cp_vis cp p \<longrightarrow> cp_vld b p" by blast
  from commit_scan [OF b(2) assms(2,3) order_refl] obtain c where
    c: "fold_opt (commit_scan_step r f) [0..<PHY_REG_NUM] (b, 0) = Some (c, 31)" "checkpoint_ok c" "cp_vis c = cp_vis cp"
      "\<forall>p < PHY_REG_NUM. cp_vld c p = (cp_vis cp p \<and> cp_vld b p) \<and> cp_data c p = cp_vis cp p"
    unfolding b(3) assms(4) by blast
  then show ?thesis using b(1,4) by (auto simp: commit_recover_cp_def cassert_def)
qed

section \<open>The checkpoint of a branch\<close>

text \<open>The registers in use after \<open>G\<close> has been retired and the instructions \<open>rest\<close> forgotten.\<close>

definition kept_regs :: "rat \<Rightarrow> rob_item_t list \<Rightarrow> rob_item_t list \<Rightarrow> nat \<Rightarrow> bool" where
  "kept_regs r G rest p = (rat_get_valid r p = Some True \<and> (\<forall>x \<in> set G. \<not> (old_phy_reg_id_valid x \<and> old_phy_reg_id x = p))
     \<and> (\<forall>x \<in> set rest. \<not> (old_phy_reg_id_valid x \<and> new_phy_reg_id x = p)))"

text \<open>The checkpoint was taken when the last instruction of \<open>G\<close> was renamed: the mappings it shows are
  those up to that instruction, and the register that instruction replaced was still allocated.\<close>

definition checkpoint_current :: "rat \<Rightarrow> rob_item_t list \<Rightarrow> rob_item_t list \<Rightarrow> checkpoint_t \<Rightarrow> bool" where
  "checkpoint_current r G rest cp = (checkpoint_ok cp
     \<and> (\<forall>p < PHY_REG_NUM. (cp_vis cp p \<longleftrightarrow> kept_regs r G rest p) \<and> (cp_vis cp p \<longrightarrow> cp_vld cp p))
     \<and> (old_phy_reg_id_valid (last G) \<longrightarrow> cp_vld cp (old_phy_reg_id (last G))))"

lemma rob_records_news:
  "rob_records m items zs \<Longrightarrow> map snd zs = map new_phy_reg_id (filter old_phy_reg_id_valid items)"
  by (induction items arbitrary: m zs) (auto split: if_splits list.splits)

lemma in_flight_kept:
  assumes "in_flight m' rest u" "p < PHY_REG_NUM" "phy_reg_num r = PHY_REG_NUM" "rat_wf r"
    and "\<And>j. vld u j \<longleftrightarrow> vld r j \<and> (\<forall>x \<in> set G. \<not> (old_phy_reg_id_valid x \<and> old_phy_reg_id x = j))"
  shows "Some p \<in> range m' \<longleftrightarrow> kept_regs r G rest p"
proof -
  obtain zs where z: "rat_holds m' zs u" "rob_records m' rest zs" using assms(1) by (auto simp: in_flight_def)
  have "snd ` set zs = set (map new_phy_reg_id (filter old_phy_reg_id_valid rest))"
    using rob_records_news [OF z(2)] by (metis list.set_map)
  then have n: "p \<in> snd ` set zs \<longleftrightarrow> (\<exists>x \<in> set rest. old_phy_reg_id_valid x \<and> new_phy_reg_id x = p)" by auto
  have "vld u p \<longleftrightarrow> Some p \<in> range m' \<or> p \<in> snd ` set zs" using z(1) assms(2) by (simp add: rat_holds_def)
  moreover have "p \<in> snd ` set zs \<Longrightarrow> Some p \<notin> range m'"
    using rat_holds_pend(6) [OF z(1)] by (metis imageE prod.collapse)
  moreover have "rat_get_valid r p = Some (vld r p)" using rat_get_valid_eq [OF assms(4)] assms(2,3) by simp
  ultimately show ?thesis using assms(5) [of p] n by (auto simp: kept_regs_def)
qed

lemma commit_misses_last:
  "commit_misses items \<longleftrightarrow> (\<exists>x. commit_last_branch items = Some x \<and> ri_predicted x \<and> \<not> commit_hit x)"
  by (auto simp: commit_misses_def commit_last_branch_def split: option.splits if_splits)

section \<open>The components at the end of the cycle\<close>

lemma rat_after_recovery:
  assumes "in_flight m (G @ rest) r" "rat_request_q r = []" "G \<noteq> []" "checkpoint_current r G rest cp" "regfile_inv f"
    and r': "phy_reg_num r' = PHY_REG_NUM"
  shows "\<exists>c u m'. commit_recover_cp r' f (last G) cp = Some c \<and> checkpoint_ok c
    \<and> rat_sync (r\<lparr>rat_request_q := concat (map retire_requests G) @ [Rat_restore c]\<rparr>) = Some u \<and> in_flight m' [] u
    \<and> rat_request_q u = [] \<and> (\<forall>p < PHY_REG_NUM. (Some p \<in> range m' \<longleftrightarrow> cp_vis cp p) \<and> cp_data c p = cp_vis cp p)"
proof -
  let ?r = "\<lambda>c. r\<lparr>rat_request_q := concat (map retire_requests G) @ [Rat_restore c]\<rparr>"
  have wf: "rat_wf r" "phy_reg_num r = PHY_REG_NUM"
    using in_flight_lookup(1) [OF assms(1)] rat_inv_wf by (auto simp: rat_running_def)
  have k: "checkpoint_ok cp" "\<And>p. p < PHY_REG_NUM \<Longrightarrow> (cp_vis cp p \<longleftrightarrow> kept_regs r G rest p) \<and> (cp_vis cp p \<longrightarrow> cp_vld cp p)"
    "old_phy_reg_id_valid (last G) \<Longrightarrow> cp_vld cp (old_phy_reg_id (last G))"
    using assms(4) by (simp_all add: checkpoint_current_def)
  have fl: "in_flight m (G @ rest) (?r c)" for c using assms(1) by simp
  have "\<exists>u m'. fold_opt rat_apply (concat (map retire_requests G)) (?r c) = Some u \<and> in_flight m' rest u
      \<and> rat_request_q u = rat_request_q (?r c)
      \<and> (\<forall>j. vld u j \<longleftrightarrow> vld r j \<and> (\<forall>x \<in> set G. \<not> (old_phy_reg_id_valid x \<and> old_phy_reg_id x = j)))" for c
    using in_flight_retire_all [OF fl [of c]] by auto
  note ret = this
  have range: "Some p \<in> range m' \<longleftrightarrow> cp_vis cp p"
    if "in_flight m' rest u" "\<And>j. vld u j \<longleftrightarrow> vld r j \<and> (\<forall>x \<in> set G. \<not> (old_phy_reg_id_valid x \<and> old_phy_reg_id x = j))"
      "p < PHY_REG_NUM" for p m' u
    using in_flight_kept [OF that(1,3) wf(2,1) that(2)] k(2) [OF that(3)] by simp
  have card: "card {p. p < PHY_REG_NUM \<and> cp_vis cp p} = 31"
  proof -
    from ret [of cp] obtain u m' where u: "in_flight m' rest u"
      "\<And>j. vld u j \<longleftrightarrow> vld r j \<and> (\<forall>x \<in> set G. \<not> (old_phy_reg_id_valid x \<and> old_phy_reg_id x = j))" by blast
    then obtain zs where "rat_holds m' zs u" by (auto simp: in_flight_def)
    from rat_holds_count [OF this] show ?thesis using range [OF u] by (metis (mono_tags, lifting) Collect_cong)
  qed
  have lastG: "last G \<in> set G" using assms(3) by simp
  have rel: "old_phy_reg_id (last G) < PHY_REG_NUM \<and> cp_vld cp (old_phy_reg_id (last G)) \<and> \<not> cp_vis cp (old_phy_reg_id (last G))"
    if v: "old_phy_reg_id_valid (last G)"
  proof -
    have "old_phy_reg_id (last G) < PHY_REG_NUM" using in_flight_regs(3) [OF assms(1) _ v] lastG by simp
    moreover have "\<not> kept_regs r G rest (old_phy_reg_id (last G))" using v lastG by (auto simp: kept_regs_def)
    ultimately show ?thesis using k(2,3) v by blast
  qed
  from commit_recover_cp_eq [OF k(1) r' assms(5) card, of "last G"] k(2) rel obtain c where
    c: "commit_recover_cp r' f (last G) cp = Some c" "checkpoint_ok c"
      "\<forall>p < PHY_REG_NUM. cp_vis c p = cp_vis cp p \<and> cp_vld c p = cp_vis cp p \<and> cp_data c p = cp_vis cp p" by auto
  from ret [of c] obtain u m' where u: "fold_opt rat_apply (concat (map retire_requests G)) (?r c) = Some u" "in_flight m' rest u"
    "rat_request_q u = rat_request_q (?r c)"
    "\<And>j. vld u j \<longleftrightarrow> vld r j \<and> (\<forall>x \<in> set G. \<not> (old_phy_reg_id_valid x \<and> old_phy_reg_id x = j))" by blast
  obtain zs where z: "rat_holds m' zs u" using u(2) by (auto simp: in_flight_def)
  from rat_holds_recover [OF z c(2)] range [OF u(2,4)] c(3) obtain t where
    t: "rat_restore c u = Some t" "rat_holds m' [] t" by (auto simp: cp_vis_def cp_vld_def)
  have "rat_sync (?r c) = Some (t\<lparr>rat_request_q := []\<rparr>)"
    using u(1) t(1) by (simp add: rat_sync_def fold_opt_append)
  moreover have "in_flight m' [] (t\<lparr>rat_request_q := []\<rparr>)" using t(2) by (simp add: in_flight_def)
  ultimately show ?thesis using c range [OF u(2,4)]
    by (intro exI [of _ c] exI [of _ "t\<lparr>rat_request_q := []\<rparr>"] exI [of _ m']) simp
qed

lemma values_after_recovery:
  assumes "regfile_inv f" "\<forall>x \<in> set G. old_phy_reg_id_valid x \<longrightarrow> old_phy_reg_id x < PHY_REG_NUM" "checkpoint_ok c"
  shows "\<exists>g. regfile_sync (f\<lparr>regfile_request_q := concat (map retire_values G) @ [Regfile_restore c]\<rparr>) = Some g
    \<and> regfile_inv g \<and> regfile_request_q g = []
    \<and> (\<forall>i < PHY_REG_NUM. regfile_read_data_valid g i = Some (cp_data c i)
         \<and> ((\<forall>x \<in> set G. \<not> (old_phy_reg_id_valid x \<and> old_phy_reg_id x = i)) \<longrightarrow> regfile_read g i = regfile_read f i))"
proof -
  let ?f = "f\<lparr>regfile_request_q := concat (map retire_values G) @ [Regfile_restore c]\<rparr>"
  have "regfile_inv ?f" using assms(1) by (simp add: regfile_inv_def)
  moreover have "\<forall>q \<in> set (regfile_request_q ?f). regfile_request_ok q"
    using assms(2,3) by (auto simp: retire_values_def split: if_splits)
  ultimately obtain g where g: "regfile_sync ?f = Some g" "regfile_inv g" "regfile_request_q g = []"
    "\<And>i. i < PHY_REG_NUM \<Longrightarrow> regfile_read g i = Some (fold (\<lambda>r x. request_value i x r) (concat (map retire_values G)) (reg_data f ! i))"
    "\<And>i. i < PHY_REG_NUM \<Longrightarrow> regfile_read_data_valid g i = Some (cp_data c i)"
    using regfile_sync_contents [of ?f] by (auto simp: cp_data_def)
  have "fold (\<lambda>r x. request_value i x r) (concat (map retire_values G)) y = y"
    if "\<forall>x \<in> set G. \<not> (old_phy_reg_id_valid x \<and> old_phy_reg_id x = i)" for i y
    using that by (induction G) (auto simp: retire_values_def)
  then show ?thesis using g assms(1) by (intro exI [of _ g]) (simp add: regfile_read_eq)
qed

lemma rob_after_flush:
  assumes "fifo_inv b" "\<not> pop_status_save b" "rob_request_q b = []"
  shows "\<exists>c. rob_sync (fifo_flush (rob_retired n b)) = Some c \<and> fifo_inv c \<and> rob_request_q c = [] \<and> fifo_items c = []"
proof -
  let ?b = "fifo_flush (rob_retired n b)"
  have i: "fifo_inv ?b" and e: "fifo_items ?b = []" using fifo_flush_inv [of "rob_retired n b"] assms(1,2) by simp_all
  have "rob_request_q ?b = replicate n Ring_pop" using assms(3) by (simp add: fifo_flush_def rob_retired_def)
  then have "\<forall>r \<in> set (rob_request_q ?b). ring_request_ok (qsize ?b) r" by simp
  from ring_replay [OF i this] obtain g where
    g: "fold_opt ring_apply (rob_request_q ?b) ?b = Some g" "fifo_inv g" "ring_ids g = drop (ring_pops (rob_request_q ?b)) (ring_ids ?b)"
    by blast
  have "fifo_inv (g\<lparr>rob_request_q := []\<rparr>)" "ring_ids (g\<lparr>rob_request_q := []\<rparr>) = []"
    using g(2,3) ring_ids_length [OF i] e by (simp_all add: fifo_inv_def ring_ids_def)
  then have "fifo_inv (g\<lparr>rob_request_q := []\<rparr>)" "fifo_items (g\<lparr>rob_request_q := []\<rparr>) = []"
    using ring_ids_items [of "g\<lparr>rob_request_q := []\<rparr>"] by simp_all
  with g(1) show ?thesis by (simp add: rob_sync_def)
qed

section \<open>The recovery\<close>

lemma commit_branch_misses:
  assumes "ri_predicted x" "\<not> commit_hit x" "ri_checkpoint_id_valid x" "\<not> ri_is_mret x" "bp_inv (cm_bp l)"
    and "cpbuf_get_item (cm_cpbuf l) (ri_checkpoint_id x) = Some cp" "commit_recover_cp (cm_rat l) (cm_regfile l) x cp = Some c"
  shows "\<exists>h. commit_branch x l = Some (l\<lparr>cm_branch_num := cm_branch_num l + 1, cm_branch_predicted := cm_branch_predicted l + 1,
      cm_branch_miss := cm_branch_miss l + 1, cm_bp := h, cm_rat := rat_restore_sync c (cm_rat l),
      cm_regfile := regfile_restore_sync c (cm_regfile l), cm_rob := fifo_flush (cm_rob l), cm_cpbuf := fifo_flush (cm_cpbuf l),
      cv_fb := (cv_fb l)\<lparr>cf_enable := True, cf_flush := True, cf_jump_enable := True, cf_jump := ri_bru_jump x,
        cf_next_pc := commit_target x\<rparr>, cv_need_flush := True\<rparr>) \<and> bp_request_q h = bp_request_q (cm_bp l) \<and> bp_inv h"
proof -
  from bp_update_keeps [OF assms(5), of "ri_pc x" "ri_inst_value x" "ri_bru_jump x" "ri_bru_next_pc x" False] obtain h where
    h: "bp_update_prediction (ri_pc x) (ri_inst_value x) (ri_bru_jump x) (ri_bru_next_pc x) False (cm_bp l) = Some h" "bp_inv h"
    by (auto simp: bp_keeps_def)
  with assms bp_update_queue [OF h(1)] show ?thesis by (intro exI [of _ h]) (simp add: commit_branch_def commit_miss_def Let_def)
qed

text \<open>C2: recovery.  In a cycle that retires a wrongly predicted branch, the instructions up to the
  branch are retired, every younger one is dropped with its checkpoint, the pipeline is flushed and
  fetching continues at the branch's real target.  In the same cycle the alias table becomes the
  committed mapping, exactly that of the checkpoint, with nothing in flight; the registers of the
  mapping are marked ready and have kept their values, and no other register is.  The checkpoint of the
  branch is current, that is, it shows the registers that are mapped once the instructions up to the
  branch have retired, as the rename stage writes it and later cycles keep it
  (\<open>Checkpoint_Life\<close>); the control registers that the group writes are writable and not the
  character queue.\<close>

theorem commit_recovers_from_misprediction:
  assumes "commit_ready m s" "int_get_cause (cm_csr s) (cm_int s) = Some None" "commit_misses (fifo_items (cm_rob s))"
    and "G = commit_group (fifo_items (cm_rob s))" "x = last G" "ri_checkpoint_id_valid x" "\<not> ri_is_mret x"
    and "cpbuf_get_item (cm_cpbuf s) (ri_checkpoint_id x) = Some cp"
    and "checkpoint_current (cm_rat s) G (drop (length G) (fifo_items (cm_rob s))) cp"
    and "\<forall>y \<in> set G. ri_csr_newvalue_valid y \<longrightarrow> csr_writable (cm_csr s) (ri_csr_addr y)" "\<not> pop_status_save (cm_rob s)"
  shows "\<exists>fb t m'. commit_cycle s = Some (fb, t) \<and> cm_state t = St_normal
    \<and> cf_flushing fb \<and> cf_jump_enable fb \<and> cf_next_pc fb = (if ri_bru_jump x then ri_bru_next_pc x else ri_pc x + 4)
    \<and> (\<forall>j < COMMIT_WIDTH. cf_committed_rob_id_valid fb ! j = (j < length G)
         \<and> (j < length G \<longrightarrow> cf_committed_rob_id fb ! j = ring_ids (cm_rob s) ! j))
    \<and> fifo_items (cm_rob t) = [] \<and> fifo_items (cm_cpbuf t) = [] \<and> in_flight m' [] (cm_rat t)
    \<and> (\<forall>p < PHY_REG_NUM. Some p \<in> range m' \<longleftrightarrow> kept_regs (cm_rat s) G (drop (length G) (fifo_items (cm_rob s))) p)
    \<and> (\<forall>p < PHY_REG_NUM. regfile_read_data_valid (cm_regfile t) p = Some (Some p \<in> range m'))
    \<and> (\<forall>p < PHY_REG_NUM. Some p \<in> range m' \<longrightarrow> regfile_read (cm_regfile t) p = regfile_read (cm_regfile s) p)
    \<and> commit_quiet t"
proof -
  let ?b = "cm_rob s" and ?items = "fifo_items (cm_rob s)" and ?rest = "drop (length G) (fifo_items (cm_rob s))"
  let ?e = "commit_stage.extend s (commit_vars.fields commit_feedback_zero False)"
  note p = ready_parts [OF assms(1)]
  have q: "rat_request_q (cm_rat s) = []" "rob_request_q ?b = []" "regfile_request_q (cm_regfile s) = []" "csr_request_q (cm_csr s) = []"
    "cpbuf_request_q (cm_cpbuf s) = []" "bp_request_q (cm_bp s) = []" "int_request_q (cm_int s) = []"
    using p(5) by (simp_all add: commit_quiet_def)
  from assms(3) obtain y where y: "commit_last_branch ?items = Some y" "ri_predicted y" "\<not> commit_hit y"
    by (auto simp: commit_misses_last)
  define u where "u = commit_retire y (commit_stopped (cm_rob ?e) (commit_begin ?e) (length (retired_plain ?items)))"
  have "commit_output ?e = commit_branch y u" and G: "G = retired_plain ?items @ [y]"
    and uf: "cm_rat u = (cm_rat s)\<lparr>rat_request_q := concat (map retire_requests G)\<rparr>"
    "cm_regfile u = (cm_regfile s)\<lparr>regfile_request_q := concat (map retire_values G)\<rparr>"
    "cm_csr u = (cm_csr s)\<lparr>csr_request_q := concat (map retire_csrs G)\<rparr>"
    "cm_rob u = rob_retired (length G) ?b" "cm_in u = cm_in s" "cm_int u = cm_int s" "cm_state u = cm_state s"
    "cm_bp u = cm_bp s" "cm_cpbuf u = cm_cpbuf s" "announced (ring_ids ?b) (length G) (cv_fb u)"
    using commit_output_branch [of ?e ?items y, folded u_def] p(1) assms(2,4) y(1) q by simp_all
  note out = this(1)
  have xy: "y = x" and ne: "G \<noteq> []" using G assms(5) by simp_all
  have split: "?items = G @ ?rest" using commit_group_take(1) [of ?items] assms(4) by (metis append_take_drop_id)
  have fl: "in_flight m (G @ ?rest) (cm_rat s)" using p(7) split by simp
  have old: "\<forall>x \<in> set G. old_phy_reg_id_valid x \<longrightarrow> old_phy_reg_id x < PHY_REG_NUM"
    using in_flight_regs(3) [OF p(7)] split by (metis UnCI set_append)
  have n: "phy_reg_num (cm_rat u) = PHY_REG_NUM" "regfile_inv (cm_regfile u)"
    using in_flight_lookup(1) [OF p(7)] p(3) by (simp_all add: uf rat_running_def regfile_inv_def)
  from rat_after_recovery [OF fl q(1) ne assms(9) n(2,1)] obtain c r m' where
    c: "commit_recover_cp (cm_rat u) (cm_regfile u) x cp = Some c" "checkpoint_ok c" and
    r: "rat_sync ((cm_rat s)\<lparr>rat_request_q := concat (map retire_requests G) @ [Rat_restore c]\<rparr>) = Some r" "in_flight m' [] r"
      "rat_request_q r = []" "\<And>p. p < PHY_REG_NUM \<Longrightarrow> (Some p \<in> range m' \<longleftrightarrow> cp_vis cp p) \<and> cp_data c p = cp_vis cp p"
    unfolding assms(5) [symmetric] by blast
  have pre: "bp_inv (cm_bp u)" "cpbuf_get_item (cm_cpbuf u) (ri_checkpoint_id x) = Some cp"
    using p(4) assms(8) by (simp_all add: uf)
  from commit_branch_misses [OF y(2,3) [unfolded xy] assms(6,7) pre c(1)] obtain h where
    h: "commit_branch x u = Some (u\<lparr>cm_branch_num := cm_branch_num u + 1, cm_branch_predicted := cm_branch_predicted u + 1,
      cm_branch_miss := cm_branch_miss u + 1, cm_bp := h, cm_rat := rat_restore_sync c (cm_rat u),
      cm_regfile := regfile_restore_sync c (cm_regfile u), cm_rob := fifo_flush (cm_rob u), cm_cpbuf := fifo_flush (cm_cpbuf u),
      cv_fb := (cv_fb u)\<lparr>cf_enable := True, cf_flush := True, cf_jump_enable := True, cf_jump := ri_bru_jump x,
        cf_next_pc := commit_target x\<rparr>, cv_need_flush := True\<rparr>)" (is "_ = Some ?l") and hq: "bp_request_q h = []"
    using q(6) by (auto simp: uf)
  from commit_run_normal [OF p(6), of ?l] out h xy have run: "commit_run s = Some (cv_fb ?l, commit_stage.truncate ?l)"
    by (simp add: commit_input_def)
  from values_after_recovery [OF p(3) old c(2)] obtain f where
    f: "regfile_sync ((cm_regfile s)\<lparr>regfile_request_q := concat (map retire_values G) @ [Regfile_restore c]\<rparr>) = Some f"
      "regfile_request_q f = []" "\<And>i. i < PHY_REG_NUM \<Longrightarrow> regfile_read_data_valid f i = Some (cp_data c i)
         \<and> ((\<forall>x \<in> set G. \<not> (old_phy_reg_id_valid x \<and> old_phy_reg_id x = i)) \<longrightarrow> regfile_read f i = regfile_read (cm_regfile s) i)"
    by blast
  from csrs_after_cycle [OF assms(10)] obtain k where k: "csrfile_sync ((cm_csr s)\<lparr>csr_request_q := concat (map retire_csrs G)\<rparr>) = Some k"
    "csr_request_q k = []" by blast
  from rob_after_flush [OF p(1) assms(11) q(2), of "length G"] obtain b where
    b: "rob_sync (fifo_flush (rob_retired (length G) ?b)) = Some b" "rob_request_q b = []" "fifo_items b = []" by blast
  have fc: "cpbuf_request_q (fifo_flush (cm_cpbuf s)) = []" "fifo_items (fifo_flush (cm_cpbuf s)) = []"
    using q(5) by (simp_all add: fifo_flush_def fifo_items_def ring_items_def)
  define t where "t = (commit_stage.truncate ?l)\<lparr>cm_rat := r, cm_rob := b, cm_regfile := f, cm_csr := k\<rparr>"
  have tf: "cm_rat t = r" "cm_rob t = b" "cm_regfile t = f" "cm_csr t = k" "cm_cpbuf t = fifo_flush (cm_cpbuf s)" "cm_bp t = h"
    "cm_int t = cm_int s" "cm_state t = cm_state s" by (simp_all add: t_def uf)
  have "commit_sync (commit_stage.truncate ?l) = Some t"
    using r(1) f(1) k(1) b(1) fc(1) hq q(7)
    by (simp add: commit_sync_def uf rat_restore_sync_def regfile_restore_sync_def req_simps t_def)
  with run have cyc: "commit_cycle s = Some (cv_fb ?l, t)" by (simp add: commit_cycle_def)
  have kept: "Some p \<in> range m' \<longleftrightarrow> kept_regs (cm_rat s) G ?rest p" if "p < PHY_REG_NUM" for p
    using r(4) [OF that] assms(9) that by (simp add: checkpoint_current_def)
  have "regfile_read_data_valid f p = Some (Some p \<in> range m')" if "p < PHY_REG_NUM" for p using f(3) [OF that] r(4) [OF that] by simp
  moreover have "regfile_read f p = regfile_read (cm_regfile s) p" if "p < PHY_REG_NUM" "Some p \<in> range m'" for p
    using f(3) [OF that(1)] kept [OF that(1)] that(2) unfolding kept_regs_def by blast
  moreover have "commit_quiet t" using r(3) b(2) f(2) k(2) fc(1) hq q(7) by (simp add: commit_quiet_def tf)
  moreover have "\<forall>j < COMMIT_WIDTH. cf_committed_rob_id_valid (cv_fb ?l) ! j = (j < length G)
         \<and> (j < length G \<longrightarrow> cf_committed_rob_id (cv_fb ?l) ! j = ring_ids ?b ! j)"
    using uf(10) by (simp add: announced_def)
  ultimately show ?thesis using cyc kept r(2) b(3) fc(2) p(6)
    by (intro exI [of _ "cv_fb ?l"] exI [of _ t] exI [of _ m'] conjI) (simp_all add: tf cf_flushing_def commit_target_def)
qed

section \<open>A concrete misprediction\<close>

text \<open>A conditional branch predicted not taken that is taken, before the \<open>add x5, ..\<close> of the wrong path.\<close>

definition miss_item :: rob_item_t where
  "miss_item = (plain_item trap_item)\<lparr>ri_bru_op := True, ri_predicted := True, ri_predicted_jump := False, ri_bru_jump := True,
     ri_bru_next_pc := 0x80000040, ri_checkpoint_id_valid := True, ri_checkpoint_id := 1, ri_is_mret := False\<rparr>"

definition miss_cp :: checkpoint_t where
  "miss_cp = (cp_sample 0)\<lparr>rat_phy_map_table_valid := [0xFFFFFFFE, 0], rat_phy_map_table_visible := [0xFFFFFFFE, 0]\<rparr>"

definition miss_demo :: commit_stage where
  "miss_demo = (commit_demo miss_item trap_younger)\<lparr>cm_cpbuf := cpbuf_sample\<lparr>buffer := [miss_cp, miss_cp], cpbuf_request_q := []\<rparr>\<rparr>"

lemma bit_low_ones: "bit (0xFFFFFFFE :: u64) n \<longleftrightarrow> 0 < n \<and> n < 32"
proof -
  have "(0xFFFFFFFE :: u64) = push_bit 1 (mask 31)" by (simp add: mask_eq_exp_minus_1)
  then show ?thesis by (simp only: bit_push_bit_iff bit_mask_iff) auto
qed

lemma miss_cp_bits: "p < PHY_REG_NUM \<Longrightarrow> cp_vis miss_cp p = (0 < p \<and> p < 32) \<and> cp_vld miss_cp p = (0 < p \<and> p < 32)"
proof -
  have "bit ([0xFFFFFFFE, 0 :: u64] ! (p div 64)) (p mod 64) = (0 < p \<and> p < 32)" if "p < 128" for p
  proof (cases "p < 64")
    case False
    then have "p div 64 = 1" using that by auto
    with False show ?thesis by simp
  qed (use bit_low_ones [of p] in simp)
  then show "p < PHY_REG_NUM \<Longrightarrow> cp_vis miss_cp p = (0 < p \<and> p < 32) \<and> cp_vld miss_cp p = (0 < p \<and> p < 32)"
    by (simp add: cp_vis_def cp_vld_def miss_cp_def bm_bit_def PHY_REG_NUM_def)
qed

lemma miss_demo_current: "checkpoint_current (cm_rat miss_demo) [miss_item] [trap_younger] miss_cp"
proof -
  let ?r = "(rat_mapped 5 40 rat_start)\<lparr>rat_request_q := []\<rparr>"
  note p = rat_start_props
  have r: "cm_rat miss_demo = ?r" by (simp add: miss_demo_def commit_demo_def trap_demo_def)
  have h: "in_flight (rat_lookup rat_start) [trap_item, trap_younger] ?r"
    using trap_demo_start [of St_flush] by (simp add: walk_start_def trap_demo_def trap_rob_ids)
  have w: "rat_wf ?r" "phy_reg_num ?r = PHY_REG_NUM" using in_flight_lookup(1) [OF h] rat_inv_wf by (auto simp: rat_running_def)
  have n: "40 < phy_reg_num rat_start" using p(4) by (simp add: PHY_REG_NUM_def)
  have v: "rat_get_valid ?r j = Some (j = 40 \<or> (0 < j \<and> j < 32))" if "j < PHY_REG_NUM" for j
    using rat_get_valid_eq [OF w(1)] w(2) that rat_mapped_bits(1) [OF p(2) n, of 5 j] p(7) [OF that] by auto
  have "kept_regs ?r [miss_item] [trap_younger] j = (0 < j \<and> j < 32)" if "j < PHY_REG_NUM" for j
    using v [OF that] by (auto simp: kept_regs_def miss_item_def plain_item_def trap_item_def trap_younger_def rob_item_zero_def)
  moreover have "checkpoint_ok miss_cp"
    by (simp add: miss_cp_def cp_sample_def checkpoint_ok_def phy_reg_num_bitmap_size_def PHY_REG_NUM_def)
  moreover have "\<not> old_phy_reg_id_valid miss_item" by (simp add: miss_item_def plain_item_def trap_item_def rob_item_zero_def)
  ultimately show ?thesis using miss_cp_bits unfolding r checkpoint_current_def by simp
qed

theorem commit_recovers_from_misprediction_witness:
  "\<exists>fb t m. commit_cycle miss_demo = Some (fb, t) \<and> cf_next_pc fb = 0x80000040 \<and> in_flight m [] (cm_rat t)
    \<and> fifo_items (cm_rob t) = []"
proof -
  have e: "entry_regs miss_item = entry_regs trap_item" "entry_regs trap_younger = entry_regs trap_younger"
    by (simp_all add: entry_regs_def miss_item_def plain_item_def)
  note d = commit_demo_ready [OF e]
  have f: "cm_rob miss_demo = cm_rob (commit_demo miss_item trap_younger)" "cm_csr miss_demo = cm_csr (commit_demo miss_item trap_younger)"
    "cm_int miss_demo = cm_int (commit_demo miss_item trap_younger)" by (simp_all add: miss_demo_def)
  have a: "commit_ready (rat_lookup rat_start) miss_demo" using d(1)
    by (simp add: commit_ready_def commit_quiet_def miss_demo_def)
  have b: "int_get_cause (cm_csr miss_demo) (cm_int miss_demo) = Some None" using d(3) by (simp add: f)
  have i: "fifo_items (cm_rob miss_demo) = [miss_item, trap_younger]" by (simp add: f commit_demo_ids)
  have rp: "retired_plain [miss_item, trap_younger] = []" by (simp add: retired_plain_def COMMIT_WIDTH_def plain_def miss_item_def)
  have lb: "commit_last_branch [miss_item, trap_younger] = Some miss_item"
    by (simp add: commit_last_branch_def commit_stop_def rp COMMIT_WIDTH_def) (simp add: miss_item_def plain_item_def)
  have m: "commit_misses (fifo_items (cm_rob miss_demo))"
    unfolding i commit_misses_last lb by (simp add: miss_item_def commit_hit_def)
  have g: "[miss_item] = commit_group (fifo_items (cm_rob miss_demo))" unfolding i commit_group_cases lb rp by simp
  have k: "ri_checkpoint_id_valid miss_item" "\<not> ri_is_mret miss_item" "commit_target miss_item = 0x80000040"
    by (simp_all add: miss_item_def commit_target_def)
  have c: "cpbuf_get_item (cm_cpbuf miss_demo) (ri_checkpoint_id miss_item) = Some miss_cp"
    by (simp add: miss_demo_def miss_item_def cpbuf_get_item_def ring_get_item_def array_get_def cpbuf_sample_def)
  have cur: "checkpoint_current (cm_rat miss_demo) [miss_item] (drop (length [miss_item]) (fifo_items (cm_rob miss_demo))) miss_cp"
    using miss_demo_current by (simp add: i)
  have w: "\<forall>y \<in> set [miss_item]. ri_csr_newvalue_valid y \<longrightarrow> csr_writable (cm_csr miss_demo) (ri_csr_addr y)"
    by (simp add: miss_item_def plain_item_def trap_item_def rob_item_zero_def)
  have s: "\<not> pop_status_save (cm_rob miss_demo)"
    by (simp add: f commit_demo_def trap_rob_def rob_new_def fifo.extend_def fifo_new_def)
  show ?thesis
    using commit_recovers_from_misprediction [OF a b m g _ k(1,2) c cur w s] by (auto simp: miss_item_def)
qed

end
