(* ===== verification/Flight_Cycle.thy ===== *)
theory Flight_Cycle
  imports Commit_Recover
begin

text \<open>
  One clock cycle of the two stages that change the alias table and the reorder buffer: the commit
  stage at the old end and the rename stage at the young end work on the same objects, commit first,
  and the end of the cycle replays the requests of both.
\<close>

lemma rat_after_both:
  assumes "in_flight m (G @ rest) r" "\<forall>x \<in> set ops. decoded_ok x"
    and "map snd (rename_pairs ops) = take (length (rename_pairs ops)) (rat_free r)"
    and "v = r\<lparr>rat_request_q := concat (map retire_requests G) @ map (\<lambda>(a, p). Rat_set_map a p) (rename_pairs ops)\<rparr>"
  shows "\<exists>u m'. rat_sync v = Some u \<and> in_flight m' (rest @ rename_entries (rat_lookup r) ops) u
    \<and> rat_lookup u = rename_maps (rat_lookup r) ops \<and> rat_request_q u = []"
proof -
  have fl: "in_flight m (G @ rest) v" using assms(1,4) by simp
  have lk: "rat_lookup v = rat_lookup r" "vld v = vld r" "phy_reg_num v = phy_reg_num r" by (simp_all add: assms(4) rat_queue_clear)
  from in_flight_retire_all [OF fl] obtain t m' where
    t: "fold_opt rat_apply (concat (map retire_requests G)) v = Some t" "in_flight m' rest t" "rat_lookup t = rat_lookup r"
      "\<And>j. vld t j \<longleftrightarrow> vld r j \<and> (\<forall>x \<in> set G. \<not> (old_phy_reg_id_valid x \<and> old_phy_reg_id x = j))"
    unfolding lk by blast
  have pr: "phy_reg_num r = PHY_REG_NUM" using in_flight_lookup(1) [OF assms(1)] by (simp add: rat_running_def)
  have free: "\<forall>p \<in> snd ` set (rename_pairs ops). p < PHY_REG_NUM \<and> \<not> vld t p"
  proof
    fix p assume "p \<in> snd ` set (rename_pairs ops)"
    then have "p \<in> set (rat_free r)" using assms(3) by (metis in_set_takeD list.set_map)
    then show "p < PHY_REG_NUM \<and> \<not> vld t p" using pr t(4) by (simp add: rat_free_def)
  qed
  have "distinct (map snd (rename_pairs ops))" unfolding assms(3) using rat_free_distinct by (rule distinct_take)
  from in_flight_extend [OF t(2) assms(2) t(3) [symmetric] free this] obtain u where
    u: "fold_opt rat_apply (map (\<lambda>(a, p). Rat_set_map a p) (rename_pairs ops)) t = Some u"
      "in_flight m' (rest @ rename_entries (rat_lookup r) ops) u" "rat_lookup u = rename_maps (rat_lookup r) ops" by blast
  have "fold_opt rat_apply (rat_request_q v) v = Some u" using t(1) u(1) by (simp add: assms(4) fold_opt_append)
  then show ?thesis using u(2,3)
    by (intro exI [of _ "u\<lparr>rat_request_q := []\<rparr>"] exI [of _ m']) (simp add: rat_sync_def rat_queue_clear)
qed

lemma rob_after_both:
  assumes "fifo_inv c" "rob_request_q c = replicate n Ring_pop @ finish_requests ps b" "fifo_inv b" "qsize c = qsize b"
    and "\<forall>p \<in> set ps. p_enable p \<longrightarrow> p_rob_id p \<in> set (ring_ids b)"
    and "fifo_items c = fifo_items b @ es" "ring_ids c = ring_ids b @ ids" "n \<le> length (ring_ids b)"
  shows "\<exists>g. rob_sync c = Some g \<and> fifo_inv g \<and> rob_request_q g = [] \<and> ring_ids g = drop n (ring_ids c)
    \<and> map entry_regs (fifo_items g) = map entry_regs (drop n (fifo_items c))"
proof -
  have ids: "\<forall>p \<in> set ps. p_enable p \<longrightarrow> p_rob_id p < qsize c"
    using assms(3-5) by (auto dest: ring_ids_bound)
  then have ok: "\<forall>q \<in> set (rob_request_q c). ring_request_ok (qsize c) q"
    by (auto simp: assms(2) finish_requests_def)
  obtain g where g: "fold_opt ring_apply (rob_request_q c) c = Some g" "fifo_inv g" "qsize g = qsize c"
      "ring_ids g = drop n (ring_ids c)" "\<forall>i < qsize c. buffer g ! i = last (buffer c ! i # ring_writes i (finish_requests ps b))"
    using ring_replay [OF assms(1) ok] by (auto simp: assms(2) simp del: last.simps)
  let ?g = "g\<lparr>rob_request_q := []\<rparr>"
  have gi: "fifo_inv ?g" "ring_ids ?g = ring_ids g" "buffer ?g = buffer g" using g(2) by (simp_all add: fifo_inv_def ring_ids_def)
  have same: "buffer c ! i = buffer b ! i" if "i \<in> set (ring_ids b)" for i
  proof -
    obtain k where k: "k < length (ring_ids b)" "i = ring_ids b ! k" using \<open>i \<in> set (ring_ids b)\<close> by (auto simp: in_set_conv_nth)
    have "fifo_items c ! k = buffer c ! i" using k ring_ids_items [OF assms(1)] assms(7) by (simp add: nth_append)
    moreover have "fifo_items c ! k = fifo_items b ! k" using k ring_ids_length [OF assms(3)] by (simp add: assms(6) nth_append)
    moreover have "fifo_items b ! k = buffer b ! i" using k ring_ids_items [OF assms(3)] by simp
    ultimately show ?thesis by simp
  qed
  have fresh: "ring_writes i (finish_requests ps b) = [] \<or> i \<in> set (ring_ids b)" for i
    using assms(5)
  proof (induction ps)
    case (Cons p ps)
    then show ?case by (auto simp: finish_requests_def)
  qed (simp add: finish_requests_def)
  have regs: "entry_regs (buffer g ! i) = entry_regs (buffer c ! i)" if "i \<in> set (ring_ids c)" for i
  proof -
    have "i < qsize c" using that ring_ids_bound [OF assms(1)] by blast
    then have "buffer g ! i = last (buffer c ! i # ring_writes i (finish_requests ps b))" using g(5) by blast
    moreover have "entry_regs (last (buffer c ! i # ring_writes i (finish_requests ps b))) = entry_regs (buffer c ! i)"
    proof (cases "i \<in> set (ring_ids b)")
      case True
      then show ?thesis using finish_last [of b i ps] same [OF True] by (simp only: finished_by_regs)
    next
      case False
      then have "ring_writes i (finish_requests ps b) = []" using fresh by blast
      then show ?thesis by simp
    qed
    ultimately show ?thesis by simp
  qed
  have "map entry_regs (fifo_items ?g) = map (\<lambda>i. entry_regs (buffer g ! i)) (drop n (ring_ids c))"
    using ring_ids_items [OF gi(1)] gi(2,3) g(4) by simp
  also have "\<dots> = map (\<lambda>i. entry_regs (buffer c ! i)) (drop n (ring_ids c))"
    using regs by (intro map_cong) (auto dest: in_set_dropD)
  also have "\<dots> = map entry_regs (drop n (fifo_items c))" using ring_ids_items [OF assms(1)] by (simp add: drop_map)
  finally show ?thesis using g(1) gi g(4) by (intro exI [of _ ?g]) (simp add: rob_sync_def)
qed

text \<open>C7: the invariant of the back end over a clock cycle.  When the commit stage retires and the rename
  stage then renames on the same alias table and reorder buffer, the end of the cycle never aborts
  and leaves a table that again is the committed mapping followed by the instructions in flight,
  now those not retired and the newly renamed ones, in order; the mapping seen by the next cycle's
  renames is that of the whole group, not disturbed by the retirements.\<close>

theorem cycle_keeps_flight:
  assumes "commit_ready m s" "int_get_cause (cm_csr s) (cm_int s) = Some None"
    and "\<not> commit_traps (fifo_items (cm_rob s))" "\<not> commit_misses (fifo_items (cm_rob s))"
    and "n = length (commit_group (fifo_items (cm_rob s)))" "results_live n s" "commit_run s = Some (fb, t)"
    and "rename_ok w" "checkpoint_ok junk" "rn_rat w = cm_rat t" "rn_rob w = cm_rob t"
  shows "\<exists>idle v ops r b m'. rename_run junk False fb w = Some (idle, v) \<and> rn_out v = port_set (rename_pack ops) (rn_out w)
    \<and> rat_sync (rn_rat v) = Some r \<and> rob_sync (rn_rob v) = Some b \<and> fifo_inv b \<and> rob_request_q b = [] \<and> rat_request_q r = []
    \<and> in_flight m' (fifo_items b) r \<and> rat_lookup r = rename_maps (rat_lookup (cm_rat s)) ops
    \<and> ring_ids b = drop n (ring_ids (cm_rob s)) @ map p_rob_id (filter p_enable ops)"
proof -
  let ?b = "cm_rob s" and ?items = "fifo_items (cm_rob s)" and ?G = "commit_group (fifo_items (cm_rob s))"
  note p = ready_parts [OF assms(1)]
  from commit_run_retires [OF assms(1-6)] assms(7) have
    tf: "cm_rat t = (cm_rat s)\<lparr>rat_request_q := concat (map retire_requests ?G)\<rparr>"
      "cm_rob t = (rob_retired n ?b)\<lparr>rob_request_q := replicate n Ring_pop @ finish_requests (port_get (cm_in s)) ?b\<rparr>"
      "\<not> cf_flushing fb" and
    nl: "n \<le> length (ring_ids ?b)" "?items = ?G @ drop n ?items" and
    live: "\<forall>w \<in> set (port_get (cm_in s)). p_enable w \<longrightarrow> p_rob_id w \<in> set (drop n (ring_ids ?b))" by auto
  have tr: "ring_ids (cm_rob t) = ring_ids ?b" "fifo_items (cm_rob t) = ?items" "qsize (cm_rob t) = qsize ?b"
    by (simp_all add: tf(2) ring_ids_def fifo_items_def rob_retired_def)
  from rename_run_group [OF assms(8,9) tf(3)] obtain v l cps where
    v: "rename_run junk False fb w = Some (fifo_is_empty (rn_in w), v)" and at: "rename_at w cps l"
    and vl: "v = (rename_stage.truncate l)\<lparr>rn_out := port_set (rename_pack (rv_ops l)) (rn_out w)\<rparr>" by blast
  let ?ops = "rv_ops l"
  have vf: "rn_rat v = rn_rat l" "rn_rob v = rn_rob l" "rn_out v = port_set (rename_pack ?ops) (rn_out w)"
    by (simp_all add: vl rename_stage.defs)
  have lk: "rat_lookup (rn_rat w) = rat_lookup (cm_rat s)" "rat_free (rn_rat w) = rat_free (cm_rat s)"
    by (simp_all add: assms(10) tf(1) rat_queue_clear rat_free_def)
  have ra: "rn_rat l = (cm_rat s)\<lparr>rat_request_q := concat (map retire_requests ?G) @ map (\<lambda>(a, p). Rat_set_map a p) (rename_pairs ?ops)\<rparr>"
      "map snd (rename_pairs ?ops) = take (length (rename_pairs ?ops)) (rat_free (cm_rat s))" "\<forall>x \<in> set ?ops. decoded_ok x"
    using at lk by (simp_all add: rename_at_def rename_table_at_def rename_ops_at_def tracks_def assms(10) tf(1))
  have ro: "fifo_inv (rn_rob l)" "qsize (rn_rob l) = qsize ?b"
      "rob_request_q (rn_rob l) = replicate n Ring_pop @ finish_requests (port_get (cm_in s)) ?b"
      "ring_ids (rn_rob l) = ring_ids ?b @ map p_rob_id (filter p_enable ?ops)"
      "fifo_items (rn_rob l) = ?items @ rename_entries (rat_lookup (cm_rat s)) ?ops"
    using at tr lk(1) by (simp_all add: rename_at_def rename_rob_at_def assms(11)) (simp add: tf(2))
  have fl: "in_flight m (?G @ drop n ?items) (cm_rat s)" using p(7) nl(2) by simp
  from rat_after_both [OF fl ra(3,2,1)] obtain r m' where r: "rat_sync (rn_rat l) = Some r"
    "in_flight m' (drop n ?items @ rename_entries (rat_lookup (cm_rat s)) ?ops) r"
    "rat_lookup r = rename_maps (rat_lookup (cm_rat s)) ?ops" "rat_request_q r = []" by blast
  have "\<forall>w \<in> set (port_get (cm_in s)). p_enable w \<longrightarrow> p_rob_id w \<in> set (ring_ids ?b)"
    using live by (auto dest: in_set_dropD)
  from rob_after_both [OF ro(1,3) p(1) ro(2) this ro(5,4) nl(1)] obtain b where b: "rob_sync (rn_rob l) = Some b" "fifo_inv b"
    "rob_request_q b = []" "ring_ids b = drop n (ring_ids (rn_rob l))"
    "map entry_regs (fifo_items b) = map entry_regs (drop n (fifo_items (rn_rob l)))" by blast
  have len: "n \<le> length ?items" using nl(1) ring_ids_length [OF p(1)] by simp
  have "in_flight m' (fifo_items b) r" using r(2) in_flight_cong [OF b(5)] len by (simp add: ro(5))
  moreover have "ring_ids b = drop n (ring_ids ?b) @ map p_rob_id (filter p_enable ?ops)" using b(4) nl(1) by (simp add: ro(4))
  ultimately show ?thesis using v b(1-3) r(1,3,4)
    by (intro exI [of _ "fifo_is_empty (rn_in w)"] exI [of _ v] exI [of _ ?ops] exI [of _ r] exI [of _ b] exI [of _ m']) (simp add: vf)
qed

theorem cycle_keeps_flight_witness:
  "\<exists>fb t idle v r b m. commit_run (commit_demo (plain_item trap_item) (plain_item trap_younger)) = Some (fb, t)
    \<and> rename_run (cp_sample 0) False fb (rename_demo\<lparr>rn_rat := cm_rat t, rn_rob := cm_rob t\<rparr>) = Some (idle, v)
    \<and> rat_sync (rn_rat v) = Some r \<and> rob_sync (rn_rob v) = Some b \<and> in_flight m (fifo_items b) r"
proof -
  let ?x = "plain_item trap_item" and ?y = "plain_item trap_younger"
  have e: "entry_regs ?x = entry_regs trap_item" "entry_regs ?y = entry_regs trap_younger"
    by (simp_all add: entry_regs_def plain_item_def)
  note d = commit_demo_ready [OF e]
  have rp: "retired_plain [?x, ?y] = [?x, ?y]" by (simp add: retired_plain_def COMMIT_WIDTH_def plain_def plain_item_def)
  then have st: "commit_stop [?x, ?y] = None" by (simp add: commit_stop_def)
  have g: "\<not> commit_traps (fifo_items (cm_rob (commit_demo ?x ?y)))" "\<not> commit_misses (fifo_items (cm_rob (commit_demo ?x ?y)))"
    "2 = length (commit_group (fifo_items (cm_rob (commit_demo ?x ?y))))"
    using rp st by (simp_all add: commit_traps_def commit_misses_def commit_group_def commit_demo_ids)
  have live: "results_live 2 (commit_demo ?x ?y)" by (simp add: results_live_def commit_demo_ids)
  note a = d(1,3) g live
  from commit_run_retires [OF a] obtain fb t where run: "commit_run (commit_demo ?x ?y) = Some (fb, t)"
    and tf: "cm_rat t = (cm_rat (commit_demo ?x ?y))\<lparr>rat_request_q := concat (map retire_requests (commit_group (fifo_items (cm_rob (commit_demo ?x ?y)))))\<rparr>"
      "cm_rob t = (rob_retired 2 (cm_rob (commit_demo ?x ?y)))\<lparr>rob_request_q := replicate 2 Ring_pop
         @ finish_requests (port_get (cm_in (commit_demo ?x ?y))) (cm_rob (commit_demo ?x ?y))\<rparr>" by blast
  let ?w = "rename_demo\<lparr>rn_rat := cm_rat t, rn_rob := cm_rob t\<rparr>"
  have "rat_running (cm_rat t)"
    using in_flight_lookup(1) [OF ready_parts(7) [OF d(1)]] by (simp add: tf(1) rat_running_def rat_queue_clear)
  moreover have "fifo_inv (cm_rob t)" "\<not> pop_status_save (cm_rob t)"
    using commit_demo_ids(1) [of ?x ?y]
    by (simp_all add: tf(2) fifo_inv_def rob_retired_def) (simp add: commit_demo_def trap_rob_def rob_new_def fifo.extend_def fifo_new_def)
  ultimately have w: "rename_ok ?w" using rename_demo_ok(1) by (simp add: rename_ok_def)
  from cycle_keeps_flight [OF a run w rename_demo_ok(2)] run show ?thesis by auto
qed

end
