(* ===== verification/Checkpoint_Life.thy ===== *)
theory Checkpoint_Life
  imports Commit_Recover Flight_Cycle
begin

text \<open>
  The life of a branch's checkpoint, from the rename stage that takes it to the commit stage that
  restores it: it is current for the instructions up to the branch when it is taken, and renaming
  younger instructions or retiring older ones keeps it so.
\<close>

lemma in_flight_valid:
  assumes "in_flight m items r" "p < PHY_REG_NUM"
  shows "vld r p \<longleftrightarrow> Some p \<in> range m \<or> (\<exists>y \<in> set items. old_phy_reg_id_valid y \<and> new_phy_reg_id y = p)"
proof -
  obtain zs where z: "rat_holds m zs r" "rob_records m items zs" using assms(1) by (auto simp: in_flight_def)
  have "snd ` set zs = set (map new_phy_reg_id (filter old_phy_reg_id_valid items))"
    using rob_records_news [OF z(2)] by (metis list.set_map)
  then show ?thesis using rat_holds_valid [OF z(1) assms(2)] by auto
qed

lemma in_flight_fresh:
  assumes "in_flight m (items @ es) t" "y \<in> set es" "old_phy_reg_id_valid y"
  shows "new_phy_reg_id y < PHY_REG_NUM" "Some (new_phy_reg_id y) \<notin> range m"
    "\<forall>x \<in> set items. old_phy_reg_id_valid x \<longrightarrow> new_phy_reg_id x \<noteq> new_phy_reg_id y"
proof -
  show "new_phy_reg_id y < PHY_REG_NUM" "Some (new_phy_reg_id y) \<notin> range m"
    using in_flight_regs(1,2) [OF assms(1) _ assms(3)] assms(2) by simp_all
  obtain zs where z: "rat_holds m zs t" "rob_records m (items @ es) zs" using assms(1) by (auto simp: in_flight_def)
  have "distinct (map new_phy_reg_id (filter old_phy_reg_id_valid (items @ es)))"
    using rob_records_news [OF z(2)] z(1) by (auto simp: rat_holds_def)
  then show "\<forall>x \<in> set items. old_phy_reg_id_valid x \<longrightarrow> new_phy_reg_id x \<noteq> new_phy_reg_id y"
    using assms(2,3) by (auto simp: image_iff)
qed

lemma in_flight_old_valid:
  assumes "in_flight m items r" "x \<in> set items" "old_phy_reg_id_valid x"
  shows "vld r (old_phy_reg_id x)"
proof -
  obtain zs where z: "rat_holds m zs r" "rob_records m items zs" using assms(1) by (auto simp: in_flight_def)
  obtain xs ys a where p: "zs = xs @ (a, new_phy_reg_id x) # ys" "pending m xs a = Some (old_phy_reg_id x)"
    using rob_records_old [OF z(2) assms(2,3)] by blast
  from pending_cases [OF p(2)] show ?thesis
    using rat_holds_committed(3) [OF z(1)] rat_holds_pend(7) [OF z(1)] p(1) by auto
qed

lemma kept_regs_valid:
  assumes "in_flight m items r" "p < PHY_REG_NUM"
  shows "kept_regs r G rest p \<longleftrightarrow> vld r p \<and> (\<forall>x \<in> set G. \<not> (old_phy_reg_id_valid x \<and> old_phy_reg_id x = p))
    \<and> (\<forall>x \<in> set rest. \<not> (old_phy_reg_id_valid x \<and> new_phy_reg_id x = p))"
  using assms in_flight_lookup(1) [OF assms(1)] rat_inv_wf rat_get_valid_eq [of r p]
  by (auto simp: kept_regs_def rat_running_def)

text \<open>When the branch, the last of \<open>G\<close>, has just been renamed, the visible registers are those that no
  instruction in flight has replaced.\<close>

lemma checkpoint_taken:
  assumes "in_flight m G u" "G \<noteq> []" "checkpoint_ok cp" "\<forall>p < PHY_REG_NUM. cp_vis cp p = vis u p \<and> cp_vld cp p = vld u p"
  shows "checkpoint_current u G [] cp"
proof -
  have run: "rat_inv u" "phy_reg_num u = PHY_REG_NUM" using in_flight_lookup(1) [OF assms(1)] by (simp_all add: rat_running_def)
  from in_flight_retire_all [of m G "[]" u] assms(1) obtain w m' where
    w: "in_flight m' [] w" "rat_lookup w = rat_lookup u"
      "\<And>j. vld w j \<longleftrightarrow> vld u j \<and> (\<forall>x \<in> set G. \<not> (old_phy_reg_id_valid x \<and> old_phy_reg_id x = j))" by auto
  have "vis u p \<longleftrightarrow> kept_regs u G [] p" if p: "p < PHY_REG_NUM" for p
  proof -
    have "kept_regs u G [] p \<longleftrightarrow> vld w p" using kept_regs_valid [OF assms(1) p, of G "[]"] w(3) by simp
    also have "\<dots> \<longleftrightarrow> Some p \<in> range (rat_lookup u)"
      using in_flight_valid [OF w(1) p] in_flight_lookup(2) [OF w(1)] w(2) by simp
    also have "\<dots> \<longleftrightarrow> vis u p"
    proof
      assume "Some p \<in> range (rat_lookup u)"
      then obtain a where "rat_lookup u a = Some p" by (metis rangeE)
      then show "vis u p" using rat_lookup_bound [OF run(1)] by blast
    next
      assume v: "vis u p"
      then have "rat_maps u (phy_map_table u ! p) p" using run p by (simp add: rat_inv_def rat_maps_def)
      then show "Some p \<in> range (rat_lookup u)" using rat_lookup_iff [OF run(1)] by (metis rangeI)
    qed
    finally show ?thesis by simp
  qed
  moreover have "vis u p \<longrightarrow> vld u p" if "p < PHY_REG_NUM" for p using run that by (simp add: rat_inv_def)
  moreover have "cp_vld cp (old_phy_reg_id (last G))" if "old_phy_reg_id_valid (last G)"
    using in_flight_old_valid [OF assms(1) _ that] in_flight_regs(3) [OF assms(1) _ that] assms(2,4) by simp
  ultimately show ?thesis using assms(3,4) by (simp add: checkpoint_current_def)
qed

lemma checkpoint_renamed:
  assumes "checkpoint_current r G rest cp" "in_flight m (G @ rest) r" "in_flight m (G @ rest @ es) t"
  shows "checkpoint_current t G (rest @ es) cp"
proof -
  have fl: "in_flight m ((G @ rest) @ es) t" using assms(3) by simp
  have "kept_regs t G (rest @ es) p \<longleftrightarrow> kept_regs r G rest p" if p: "p < PHY_REG_NUM" for p
  proof -
    let ?new = "\<exists>y \<in> set es. old_phy_reg_id_valid y \<and> new_phy_reg_id y = p"
    have vr: "vld r p \<longleftrightarrow> Some p \<in> range m \<or> (\<exists>y \<in> set (G @ rest). old_phy_reg_id_valid y \<and> new_phy_reg_id y = p)"
      by (rule in_flight_valid [OF assms(2) p])
    have "vld t p \<longleftrightarrow> Some p \<in> range m \<or> (\<exists>y \<in> set ((G @ rest) @ es). old_phy_reg_id_valid y \<and> new_phy_reg_id y = p)"
      by (rule in_flight_valid [OF fl p])
    then have vt: "vld t p \<longleftrightarrow> vld r p \<or> ?new" unfolding vr set_append by blast
    have fresh: "\<not> ?new" if "vld r p"
    proof
      assume ?new
      then obtain y where y: "y \<in> set es" "old_phy_reg_id_valid y" "new_phy_reg_id y = p" by blast
      show False using that in_flight_fresh(2,3) [OF fl y(1,2)] unfolding vr y(3) by blast
    qed
    have "kept_regs t G (rest @ es) p \<longleftrightarrow> vld t p \<and> (\<forall>x \<in> set G. \<not> (old_phy_reg_id_valid x \<and> old_phy_reg_id x = p))
        \<and> (\<forall>x \<in> set rest. \<not> (old_phy_reg_id_valid x \<and> new_phy_reg_id x = p)) \<and> \<not> ?new"
      unfolding kept_regs_valid [OF fl p] set_append by blast
    with vt fresh show ?thesis unfolding kept_regs_valid [OF assms(2) p] by blast
  qed
  with assms(1) show ?thesis by (simp add: checkpoint_current_def)
qed

lemma checkpoint_retired:
  assumes "checkpoint_current r (D @ G) rest cp" "G \<noteq> []" "in_flight m (D @ G @ rest) r" "in_flight m' (G @ rest) t"
    and "\<forall>p < PHY_REG_NUM. vld t p \<longleftrightarrow> vld r p \<and> (\<forall>x \<in> set D. \<not> (old_phy_reg_id_valid x \<and> old_phy_reg_id x = p))"
  shows "checkpoint_current t G rest cp"
proof -
  have "kept_regs t G rest p \<longleftrightarrow> kept_regs r (D @ G) rest p" if p: "p < PHY_REG_NUM" for p
    using kept_regs_valid [OF assms(3) p, of "D @ G" rest] kept_regs_valid [OF assms(4) p, of G rest] assms(5) p by auto
  with assms(1,2) show ?thesis by (simp add: checkpoint_current_def)
qed

text \<open>Over a cycle that retires \<open>D\<close> and renames \<open>ops\<close> on the same table.\<close>

lemma checkpoint_over_cycle:
  assumes "in_flight m (D @ G @ rest) r" "\<forall>x \<in> set ops. decoded_ok x"
    and "map snd (rename_pairs ops) = take (length (rename_pairs ops)) (rat_free r)"
    and "v = r\<lparr>rat_request_q := concat (map retire_requests D) @ map (\<lambda>(a, p). Rat_set_map a p) (rename_pairs ops)\<rparr>"
    and "checkpoint_current r (D @ G) rest cp" "G \<noteq> []"
  shows "\<exists>u m'. rat_sync v = Some u \<and> in_flight m' (G @ rest @ rename_entries (rat_lookup r) ops) u
    \<and> checkpoint_current u G (rest @ rename_entries (rat_lookup r) ops) cp"
proof -
  have ff: "in_flight m (D @ G @ rest) v" "rat_lookup v = rat_lookup r" "vld v = vld r" "phy_reg_num v = phy_reg_num r"
    using assms(1) by (simp_all add: assms(4) rat_queue_clear)
  from in_flight_retire_all [OF ff(1)] obtain t m' where
    t: "fold_opt rat_apply (concat (map retire_requests D)) v = Some t" "in_flight m' (G @ rest) t" "rat_lookup t = rat_lookup r"
      "\<And>j. vld t j \<longleftrightarrow> vld r j \<and> (\<forall>x \<in> set D. \<not> (old_phy_reg_id_valid x \<and> old_phy_reg_id x = j))"
    unfolding ff(2,3) by blast
  have c: "checkpoint_current t G rest cp" by (rule checkpoint_retired [OF assms(5,6,1) t(2)]) (simp add: t(4))
  have pr: "phy_reg_num r = PHY_REG_NUM" using in_flight_lookup(1) [OF assms(1)] by (simp add: rat_running_def)
  have free: "\<forall>p \<in> snd ` set (rename_pairs ops). p < PHY_REG_NUM \<and> \<not> vld t p"
  proof
    fix p assume "p \<in> snd ` set (rename_pairs ops)"
    then have "p \<in> set (rat_free r)" using assms(3) by (metis in_set_takeD list.set_map)
    then show "p < PHY_REG_NUM \<and> \<not> vld t p" using pr t(4) by (simp add: rat_free_def)
  qed
  have "distinct (map snd (rename_pairs ops))" unfolding assms(3) using rat_free_distinct by (rule distinct_take)
  from in_flight_extend [OF t(2) assms(2) t(3) [symmetric] free this] obtain u where
    u: "fold_opt rat_apply (map (\<lambda>(a, p). Rat_set_map a p) (rename_pairs ops)) t = Some u"
      "in_flight m' ((G @ rest) @ rename_entries (rat_lookup r) ops) u" by blast
  let ?u = "u\<lparr>rat_request_q := []\<rparr>"
  have fu: "in_flight m' (G @ rest @ rename_entries (rat_lookup r) ops) ?u" using u(2) by simp
  have "fold_opt rat_apply (rat_request_q v) v = Some u" using t(1) u(1) by (simp add: assms(4) fold_opt_append)
  then have "rat_sync v = Some ?u" by (simp add: rat_sync_def)
  with fu checkpoint_renamed [OF c t(2) fu] show ?thesis by blast
qed

text \<open>What the rename stage writes down for a branch: the bits of the table with everything up to the
  branch renamed.\<close>

lemma checkpoint_of_rename:
  assumes "rat_running r" "tracks r ops v c" "checkpoint_ok junk" "checkpoint_clone c junk = Some cp"
    and "in_flight m G u" "G \<noteq> []" "rat_rename_all (rename_pairs ops) r = Some (ps, u)"
  shows "checkpoint_current u G [] (cp\<lparr>global_history := g, local_history := h\<rparr>)"
proof -
  have cap: "rat_captured u c" using assms(2,7) by (auto simp: tracks_def)
  then have len: "length (rat_phy_map_table_valid junk) = phy_reg_num_bitmap_size"
      "length (rat_phy_map_table_visible junk) = phy_reg_num_bitmap_size"
      "length (phy_map_table_valid u) = phy_reg_num_bitmap_size" "length (phy_map_table_visible u) = phy_reg_num_bitmap_size"
    using assms(3) by (auto simp: rat_captured_def checkpoint_ok_def)
  have "cp = junk\<lparr>rat_phy_map_table_valid := phy_map_table_valid u, rat_phy_map_table_visible := phy_map_table_visible u,
      global_history := global_history c, local_history := local_history c\<rparr>"
    using assms(4) cap len by (simp add: checkpoint_clone_def rat_captured_def memcpy_arr_same)
  then show ?thesis using assms(3) len
    by (intro checkpoint_taken [OF assms(5,6)]) (simp_all add: checkpoint_ok_def cp_vis_def cp_vld_def)
qed

end
