(* ===== verification/Issue_Queue.thy ===== *)
theory Issue_Queue
  imports Walk "HOL-Library.Sublist"
begin

text \<open>
  \<open>component/issue_queue.h\<close>: the window of instructions waiting for their operands.  It is a ring from
  which issued instructions are removed anywhere: \<open>compress\<close> moves the remaining ones together, and
  the write pointer back.
\<close>

datatype 'a iq_request = Iq_pop | Iq_set_item nat 'a | Iq_compress "nat list"

record 'a issue_queue = "'a fifo" +
  iq_request_q :: "'a iq_request list"

definition iq_reset :: "'a issue_queue \<Rightarrow> 'a issue_queue" where
  "iq_reset f = (fifo_reset f)\<lparr>iq_request_q := []\<rparr>"

definition iq_check_id_valid :: "'a issue_queue \<Rightarrow> nat \<Rightarrow> bool" where
  "iq_check_id_valid f i = ring_check_id_valid f i"

definition iq_get_next_id_stage :: "'a issue_queue \<Rightarrow> nat \<times> bool \<Rightarrow> (bool \<times> nat \<times> bool) option" where
  "iq_get_next_id_stage f c = ring_next_stage f c"

text \<open>Unlike the size of a \<open>fifo\<close>, this one does not look at the saved read pointer.\<close>

definition iq_get_size :: "'a issue_queue \<Rightarrow> nat" where
  "iq_get_size f = (if fifo_is_full f then qsize f else (wptr f + qsize f - rptr f) mod qsize f)"

definition iq_get_item :: "'a issue_queue \<Rightarrow> nat \<Rightarrow> 'a option" where
  "iq_get_item f i = do { cassert (iq_check_id_valid f i); array_get (buffer f) i }"

definition iq_set_item :: "nat \<Rightarrow> 'a \<Rightarrow> 'a issue_queue \<Rightarrow> 'a issue_queue option" where
  "iq_set_item i v f = do {
     cassert (iq_check_id_valid f i);
     b \<leftarrow> array_set (buffer f) i v;
     Some (f\<lparr>buffer := b\<rparr>) }"

definition iq_set_item_sync :: "nat \<Rightarrow> 'a \<Rightarrow> 'a issue_queue \<Rightarrow> 'a issue_queue" where
  "iq_set_item_sync i v f = f\<lparr>iq_request_q := iq_request_q f @ [Iq_set_item i v]\<rparr>"

definition iq_get_front_id :: "'a issue_queue \<Rightarrow> nat option" where
  "iq_get_front_id f = (if fifo_is_empty f then None else Some (rptr f))"

definition iq_get_tail_id :: "'a issue_queue \<Rightarrow> nat option" where
  "iq_get_tail_id f = (if fifo_is_empty f then None else Some ((wptr f + qsize f - 1) mod qsize f))"

definition iq_get_next_id :: "'a issue_queue \<Rightarrow> nat \<Rightarrow> (bool \<times> nat) option" where
  "iq_get_next_id f i = ring_get_next_id f i"

text \<open>\<open>get_front\<close> writes the slot at the read pointer even when the queue is empty.\<close>

definition iq_get_front :: "'a issue_queue \<Rightarrow> (bool \<times> 'a) option" where
  "iq_get_front f = do { v \<leftarrow> array_get (buffer f) (rptr f); Some (\<not> fifo_is_empty f, v) }"

text \<open>The loop of \<open>compress\<close>: the slot that the next kept item goes to with the new write position,
  whether a hole has been found, and the number of items removed.\<close>

type_synonym 'a compress_state = "'a issue_queue \<times> nat \<times> (nat \<times> bool) \<times> bool \<times> nat"

fun iq_compress_body :: "nat list \<Rightarrow> nat \<times> bool \<Rightarrow> 'a compress_state \<Rightarrow> (bool \<times> 'a compress_state) option" where
  "iq_compress_body item_ids (cur_id, cur_stage) (f, next_id, (new_wptr, new_wstage), invalid_item_found, i) =
     (if \<not> invalid_item_found then
        Some (False,
          if i < length item_ids \<and> cur_id = item_ids ! i
          then (f, cur_id, (cur_id, cur_stage), True, i + 1)
          else (f, next_id, (new_wptr, new_wstage), invalid_item_found, i))
      else if i < length item_ids \<and> cur_id = item_ids ! i then
        Some (False, f, next_id, (new_wptr, new_wstage), invalid_item_found, i + 1)
      else do {
        v \<leftarrow> iq_get_item f cur_id;
        f \<leftarrow> iq_set_item next_id v f;
        (_, new_w) \<leftarrow> iq_get_next_id_stage f (next_id, new_wstage);
        Some (False, f, fst new_w, new_w, invalid_item_found, i) })"

definition iq_compress :: "nat list \<Rightarrow> 'a issue_queue \<Rightarrow> 'a issue_queue option" where
  "iq_compress item_ids f =
     (case iq_get_front_id f of
        Some first_id \<Rightarrow>
          if 0 < length item_ids then do {
            (g, _, (new_wptr, new_wstage), _, _) \<leftarrow>
              do_while_ids (qsize f) (\<lambda>(g, _). iq_get_next_id_stage g) fst first_id
                (iq_compress_body item_ids) (first_id, rstage f)
                (f, first_id, (first_id, rstage f), False, 0);
            Some (g\<lparr>wptr := new_wptr, wstage := new_wstage\<rparr>) }
          else Some f
      | None \<Rightarrow> Some f)"

definition iq_compress_sync :: "nat list \<Rightarrow> 'a issue_queue \<Rightarrow> 'a issue_queue" where
  "iq_compress_sync item_ids f = f\<lparr>iq_request_q := iq_request_q f @ [Iq_compress item_ids]\<rparr>"

definition iq_pop_sync :: "'a issue_queue \<Rightarrow> 'a issue_queue" where
  "iq_pop_sync f = f\<lparr>iq_request_q := iq_request_q f @ [Iq_pop]\<rparr>"

fun iq_apply :: "'a iq_request \<Rightarrow> 'a issue_queue \<Rightarrow> 'a issue_queue option" where
  "iq_apply (Iq_set_item i v) f = iq_set_item i v f"
| "iq_apply Iq_pop f = Some (snd (fifo_pop f))"
| "iq_apply (Iq_compress item_ids) f = iq_compress item_ids f"

definition iq_sync :: "'a issue_queue \<Rightarrow> 'a issue_queue option" where
  "iq_sync f = do {
     g \<leftarrow> fold_opt iq_apply (iq_request_q f) f;
     Some (g\<lparr>iq_request_q := []\<rparr>) }"

section \<open>Compression keeps the order\<close>

text \<open>The slots to be removed are given in the order of the queue.\<close>

definition removes :: "nat list \<Rightarrow> 'a issue_queue \<Rightarrow> bool" where
  "removes item_ids f = subseq item_ids (ring_ids f)"

lemma subseq_filter:
  assumes "subseq xs ys" "distinct ys"
  shows "xs = filter (\<lambda>y. y \<in> set xs) ys"
  using assms
proof (induction rule: list_emb.induct)
  case (list_emb_Cons xs ys y)
  then have "y \<notin> set xs" using list_emb_set [OF list_emb_Cons.hyps, of y] by auto
  with list_emb_Cons show ?case by simp
next
  case (list_emb_Cons2 x y xs ys)
  have "filter (\<lambda>a. a = y \<or> a \<in> set xs) ys = filter (\<lambda>a. a \<in> set xs) ys"
    using list_emb_Cons2.prems by (intro filter_cong) auto
  with list_emb_Cons2 show ?case by simp
qed simp

lemma iq_item_live:
  assumes "fifo_inv f" "i \<in> set (ring_ids f)"
  shows "iq_get_item f i = Some (buffer f ! i)"
    and "iq_set_item i v f = Some (f\<lparr>buffer := (buffer f)[i := v]\<rparr>)"
  using assms ring_ids_bound [OF assms]
  by (simp_all add: iq_get_item_def iq_set_item_def iq_check_id_valid_def ring_ids_valid fifo_inv_def)

lemma iq_body_nobreak:
  "iq_compress_body xs c s = map_option (Pair False) (map_option snd (iq_compress_body xs c s))"
proof -
  obtain cur stage g nx w ws found i where e: "c = (cur, stage)" "s = (g, nx, (w, ws), found, i)" by (metis prod.exhaust_sel)
  show ?thesis
    unfolding e iq_compress_body.simps by (auto split: bind_splits prod.splits if_splits)
qed

text \<open>The loop after the first \<open>k\<close> slots: the kept ones among them have moved to the front, and the
  slots still to come are untouched.\<close>

definition compress_after :: "'a issue_queue \<Rightarrow> nat list \<Rightarrow> nat \<Rightarrow> 'a compress_state \<Rightarrow> bool" where
  "compress_after f xs k s = (case s of (g, next_id, c, found, i) \<Rightarrow>
     (let ids = ring_ids f; kept = filter (\<lambda>j. j \<notin> set xs) (take k ids) in
      g = f\<lparr>buffer := buffer g\<rparr> \<and> length (buffer g) = qsize f
      \<and> i = length (filter (\<lambda>j. j \<in> set xs) (take k ids)) \<and> found = (0 < i)
      \<and> (if found then c = ring_cursors f ! length kept \<and> next_id = fst c else c = (rptr f, rstage f) \<and> next_id = rptr f)
      \<and> (\<forall>j < length kept. buffer g ! (ids ! j) = buffer f ! (kept ! j))
      \<and> (\<forall>j. k \<le> j \<and> j < length ids \<longrightarrow> buffer g ! (ids ! j) = buffer f ! (ids ! j))))"

lemma filter_split_length: "length (filter P xs) + length (filter (\<lambda>x. \<not> P x) xs) = length xs"
  by (induction xs) auto

lemma filter_next:
  assumes "k < length ys"
  shows "P (ys ! k) \<Longrightarrow> length (filter P (take k ys)) < length (filter P ys) \<and> filter P ys ! length (filter P (take k ys)) = ys ! k"
proof -
  assume p: "P (ys ! k)"
  have "filter P ys = filter P (take k ys) @ ys ! k # filter P (drop (Suc k) ys)"
    using p by (subst id_take_nth_drop [OF assms]) simp
  then show ?thesis by simp
qed

lemma compress_match:
  assumes "xs = filter (\<lambda>j. j \<in> set xs) ys" "k < length ys" "i = length (filter (\<lambda>j. j \<in> set xs) (take k ys))"
  shows "(i < length xs \<and> ys ! k = xs ! i) = (ys ! k \<in> set xs)"
  using filter_next [OF assms(2), of "\<lambda>j. j \<in> set xs"] assms(1,3) nth_mem by metis

lemma compress_step:
  assumes inv: "fifo_inv f" and xs: "xs = filter (\<lambda>j. j \<in> set xs) (ring_ids f)"
    and k: "k < length (ring_ids f)" and s: "compress_after f xs k s"
  shows "\<exists>t. iq_compress_body xs (ring_cursors f ! k) s = Some (False, t) \<and> compress_after f xs (Suc k) t"
proof -
  let ?ids = "ring_ids f"
  obtain g nx c found i where e: "s = (g, nx, c, found, i)" by (metis prod.exhaust_sel)
  define kept where "kept = filter (\<lambda>j. j \<notin> set xs) (take k ?ids)"
  have g: "g = f\<lparr>buffer := buffer g\<rparr>" "length (buffer g) = qsize f"
    and i: "i = length (filter (\<lambda>j. j \<in> set xs) (take k ?ids))" "found = (0 < i)"
    and c: "found \<Longrightarrow> c = ring_cursors f ! length kept \<and> nx = fst c" "\<not> found \<Longrightarrow> c = (rptr f, rstage f) \<and> nx = rptr f"
    and old: "\<And>j. j < length kept \<Longrightarrow> buffer g ! (?ids ! j) = buffer f ! (kept ! j)"
    and new: "\<And>j. k \<le> j \<Longrightarrow> j < length ?ids \<Longrightarrow> buffer g ! (?ids ! j) = buffer f ! (?ids ! j)"
    using s unfolding compress_after_def e Let_def kept_def by (auto split: if_splits)
  obtain stk where cur: "ring_cursors f ! k = (?ids ! k, stk)"
    using k ring_cursors_ids [OF inv] by (metis nth_map prod.collapse ring_cursors_length)
  have fc: "fst (ring_cursors f ! j) = ?ids ! j" if "j < length ?ids" for j
    using that ring_cursors_ids [OF inv] by (metis nth_map ring_cursors_length)
  have tk: "take (Suc k) ?ids = take k ?ids @ [?ids ! k]" by (rule take_Suc_conv_app_nth [OF k])
  have lk: "i + length kept = k"
    using filter_split_length [of "\<lambda>j. j \<in> set xs" "take k ?ids"] k i(1) by (simp add: kept_def)
  have m: "(i < length xs \<and> ?ids ! k = xs ! i) = (?ids ! k \<in> set xs)"
    by (rule compress_match [OF xs k i(1)])
  obtain w ws where w: "c = (w, ws)" by (cases c)
  show ?thesis
  proof (cases "?ids ! k \<in> set xs")
    case True
    have d: "filter (\<lambda>j. j \<notin> set xs) (take (Suc k) ?ids) = kept" "Suc i = length (filter (\<lambda>j. j \<in> set xs) (take (Suc k) ?ids))"
      using True i(1) by (simp_all add: tk kept_def)
    show ?thesis
    proof (cases found)
      case False
      then have "length kept = k" using lk i by simp
      then have "compress_after f xs (Suc k) (g, ?ids ! k, ring_cursors f ! k, True, i + 1)"
        unfolding compress_after_def Let_def prod.case d(1) using g d(2) old new k fc [OF k] by auto
      with False True m show ?thesis unfolding e w cur by simp
    next
      case True
      note found = True
      have "compress_after f xs (Suc k) (g, nx, c, True, i + 1)"
        unfolding compress_after_def Let_def prod.case d(1) using g d(2) old new k c(1) found by auto
      with found m \<open>?ids ! k \<in> set xs\<close> show ?thesis unfolding e w cur by simp
    qed
  next
    case False
    have d: "filter (\<lambda>j. j \<notin> set xs) (take (Suc k) ?ids) = kept @ [?ids ! k]" "i = length (filter (\<lambda>j. j \<in> set xs) (take (Suc k) ?ids))"
      using False i(1) by (simp_all add: tk kept_def)
    show ?thesis
    proof (cases found)
      case False
      then have z: "i = 0" "length kept = k" using i lk by auto
      then have "filter (\<lambda>j. j \<notin> set xs) (take k ?ids) = take k ?ids"
        using i(1) by (simp add: filter_empty_conv)
      then have kp: "kept = take k ?ids" by (simp add: kept_def)
      have "compress_after f xs (Suc k) (g, nx, c, False, i)"
        unfolding compress_after_def Let_def prod.case d(1)
        using g d(2) old new k c(2) False z kp by (auto simp: nth_append less_Suc_eq)
      with False m \<open>?ids ! k \<notin> set xs\<close> show ?thesis unfolding e w cur by auto
    next
      case True
      let ?m = "length kept"
      have "0 < i" using True i(2) by simp
      then have mk: "?m < k" using lk by linarith
      then have ml: "?m < length ?ids" using k by simp
      have nx: "nx = ?ids ! ?m" "c = ring_cursors f ! ?m"
        using c(1) True fc [OF ml] by auto
      have live: "fifo_inv g" "ring_ids g = ?ids" "qsize g = qsize f" "ring_next_stage g = ring_next_stage f"
        by (subst g(1), simp add: inv g(2))+
      define b where "b = (buffer g)[?ids ! ?m := buffer g ! (?ids ! k)]"
      have get: "iq_get_item g (?ids ! k) = Some (buffer g ! (?ids ! k))"
        "iq_set_item nx (buffer g ! (?ids ! k)) g = Some (g\<lparr>buffer := b\<rparr>)"
        using live ml k by (simp_all add: iq_item_live nx(1) b_def)
      have m1: "?m + 1 < length ?ids" using mk k by simp
      then have "ring_cursors f ! (?m + 1) = ((rptr f + (?m + 1)) mod qsize f, (rptr f + (?m + 1) \<ge> qsize f) \<noteq> rstage f)"
        by (simp add: ring_cursors_def)
      then have "ring_next_stage f (ring_cursors f ! ?m) = Some (True, ring_cursors f ! (?m + 1))"
        using ring_next_stage_step [OF inv ml] m1 by simp
      moreover have "(nx, ws) = ring_cursors f ! ?m" using nx fc [OF ml] w by (metis prod.collapse snd_conv)
      ultimately have st: "iq_get_next_id_stage (g\<lparr>buffer := b\<rparr>) (nx, ws) = Some (True, ring_cursors f ! (?m + 1))"
        using live by (simp add: iq_get_next_id_stage_def)
      let ?t = "(g\<lparr>buffer := b\<rparr>, fst (ring_cursors f ! (?m + 1)), ring_cursors f ! (?m + 1), found, i)"
      have "iq_compress_body xs (ring_cursors f ! k) s = Some (False, ?t)"
        unfolding e w cur using True m \<open>?ids ! k \<notin> set xs\<close> by (simp add: get st)
      moreover have b: "b ! (?ids ! ?m) = buffer f ! (?ids ! k)"
        using new [of k] k ring_ids_bound [OF inv nth_mem [OF ml]] g(2) by (simp add: b_def)
      moreover have keep: "b ! (?ids ! j) = buffer g ! (?ids ! j)" if "j \<noteq> ?m" "j < length ?ids" for j
        using that ring_ids_distinct [OF inv] ml by (simp add: b_def nth_eq_iff_index_eq)
      moreover have gb: "g\<lparr>buffer := b\<rparr> = f\<lparr>buffer := b\<rparr>" and lb: "length b = qsize f"
        by (subst g(1), simp) (simp add: b_def g(2))
      moreover have "compress_after f xs (Suc k) ?t"
        unfolding compress_after_def Let_def prod.case d(1)
        using d(2) gb lb old new k mk True \<open>0 < i\<close> b keep by (auto simp: nth_append less_Suc_eq)
      ultimately show ?thesis by blast
    qed
  qed
qed

lemma compress_prefix:
  assumes "fifo_inv f" "xs = filter (\<lambda>j. j \<in> set xs) (ring_ids f)" "k \<le> length (ring_ids f)"
  shows "\<exists>s. fold_opt (\<lambda>c s. map_option snd (iq_compress_body xs c s)) (take k (ring_cursors f))
      (f, rptr f, (rptr f, rstage f), False, 0) = Some s \<and> compress_after f xs k s"
  using assms(3)
proof (induction k)
  case 0
  have "f = f\<lparr>buffer := buffer f\<rparr>" by (cases f) simp
  then show ?case using assms(1) by (simp add: compress_after_def Let_def fifo_inv_def)
next
  case (Suc k)
  then obtain s where s: "fold_opt (\<lambda>c s. map_option snd (iq_compress_body xs c s)) (take k (ring_cursors f))
      (f, rptr f, (rptr f, rstage f), False, 0) = Some s" "compress_after f xs k s" by auto
  moreover have "k < length (ring_ids f)" using Suc.prems by simp
  moreover from this have "take (Suc k) (ring_cursors f) = take k (ring_cursors f) @ [ring_cursors f ! k]"
    by (simp add: take_Suc_conv_app_nth)
  ultimately show ?case using compress_step [OF assms(1,2), of k s] by (auto simp: fold_opt_append)
qed

text \<open>The loop asks the ring that it rewrites for the next slot; rewriting moves no slot.\<close>

lemma do_while_ids_cong:
  assumes "P s" "\<And>s c. P s \<Longrightarrow> n1 s c = n2 s c" "\<And>c s b t. P s \<Longrightarrow> body c s = Some (b, t) \<Longrightarrow> P t"
  shows "do_while_ids fuel n1 ident first body cur s = do_while_ids fuel n2 ident first body cur s"
  using assms(1)
proof (induction fuel arbitrary: cur s)
  case (Suc fuel)
  show ?case
  proof (cases "body cur s")
    case (Some r)
    then obtain b t where r: "body cur s = Some (b, t)" by (cases r) auto
    then have "P t" using assms(3) Suc.prems by blast
    with r Suc.IH assms(2) [OF this] show ?thesis by (simp cong: if_cong)
  qed simp
qed simp

lemma iq_body_ring:
  assumes "iq_compress_body xs c (g, s) = Some (b, h, t)" "ring_next_stage g = ring_next_stage f"
  shows "ring_next_stage h = ring_next_stage f"
proof -
  obtain cur stage nx w ws found i where e: "c = (cur, stage)" "s = (nx, (w, ws), found, i)" by (metis prod.exhaust_sel)
  show ?thesis using assms unfolding e iq_compress_body.simps
    by (auto simp: iq_set_item_def split: if_splits bind_splits prod.splits)
qed

lemma compress_loop:
  assumes "fifo_inv f" "ring_ids f \<noteq> []" "xs = filter (\<lambda>j. j \<in> set xs) (ring_ids f)"
  shows "\<exists>s. do_while_ids (qsize f) (\<lambda>(g, _). iq_get_next_id_stage g) fst (rptr f) (iq_compress_body xs) (rptr f, rstage f)
      (f, rptr f, (rptr f, rstage f), False, 0) = Some s \<and> compress_after f xs (length (ring_ids f)) s"
proof -
  let ?init = "(f, rptr f, (rptr f, rstage f), False, 0)"
  have "do_while_ids (qsize f) (\<lambda>(g, _). iq_get_next_id_stage g) fst (rptr f) (iq_compress_body xs) (rptr f, rstage f) ?init
      = do_while_ids (qsize f) (\<lambda>_. ring_next_stage f) fst (rptr f) (iq_compress_body xs) (rptr f, rstage f) ?init"
    by (rule do_while_ids_cong [where P = "\<lambda>(g, _). ring_next_stage g = ring_next_stage f"])
      (auto simp: iq_get_next_id_stage_def dest: iq_body_ring)
  also have "\<dots> = fold_brk (iq_compress_body xs) (ring_cursors f) ?init"
    by (rule do_while_ring_stage [OF assms(1,2) ring_ids_le [OF assms(1)]])
  also have "\<dots> = fold_opt (\<lambda>c s. map_option snd (iq_compress_body xs c s)) (ring_cursors f) ?init"
    by (rule fold_brk_nobreak) (rule iq_body_nobreak)
  finally show ?thesis using compress_prefix [OF assms(1,3) order_refl] by simp
qed

lemma iq_compress_items:
  assumes "fifo_inv f" "\<not> pop_status_save f" "removes xs f" "xs \<noteq> []"
  shows "\<exists>g. iq_compress xs f = Some g \<and> fifo_inv g \<and> \<not> pop_status_save g \<and> qsize g = qsize f
    \<and> iq_request_q g = iq_request_q f
    \<and> fifo_items g = map (\<lambda>i. buffer f ! i) (filter (\<lambda>i. i \<notin> set xs) (ring_ids f))"
proof -
  let ?ids = "ring_ids f"
  have xs: "xs = filter (\<lambda>j. j \<in> set xs) ?ids"
    using subseq_filter assms(3) ring_ids_distinct [OF assms(1)] by (simp add: removes_def)
  have ne: "?ids \<noteq> []" using xs assms(4) by (metis filter.simps(1))
  obtain g nx w ws found i where
    l: "do_while_ids (qsize f) (\<lambda>(g, _). iq_get_next_id_stage g) fst (rptr f) (iq_compress_body xs) (rptr f, rstage f)
      (f, rptr f, (rptr f, rstage f), False, 0) = Some (g, nx, (w, ws), found, i)"
    and a: "compress_after f xs (length ?ids) (g, nx, (w, ws), found, i)"
    using compress_loop [OF assms(1) ne xs] by (metis prod.exhaust_sel)
  define kept where "kept = filter (\<lambda>j. j \<notin> set xs) ?ids"
  have i: "i = length xs" "found" using a assms(4) xs by (auto simp: compress_after_def Let_def)
  have g: "g = f\<lparr>buffer := buffer g\<rparr>" "length (buffer g) = qsize f" and c: "(w, ws) = ring_cursors f ! length kept"
    and old: "\<And>j. j < length kept \<Longrightarrow> buffer g ! (?ids ! j) = buffer f ! (kept ! j)"
    using a i(2) by (auto simp: compress_after_def Let_def kept_def)
  have live: "fifo_inv g" "ring_ids g = ?ids" "qsize g = qsize f" "\<not> pop_status_save g" "ring_cursors g = ring_cursors f"
    "iq_request_q g = iq_request_q f"
    by (subst g(1), simp add: assms g(2))+
  have lk: "length kept < length ?ids"
  proof -
    have "length xs + length kept = length ?ids"
      using filter_split_length [of "\<lambda>j. j \<in> set xs" ?ids] by (simp only: xs [symmetric] kept_def)
    moreover have "0 < length xs" using assms(4) by simp
    ultimately show ?thesis by linarith
  qed
  let ?h = "g\<lparr>wptr := w, wstage := ws\<rparr>"
  have h: "fifo_inv ?h" "ring_ids ?h = take (length kept) ?ids"
    using ring_truncate [OF live(1,4), of "length kept" w ws] lk c live by simp_all
  have "fifo_items ?h = map (\<lambda>i. buffer f ! i) kept"
    unfolding ring_ids_items [OF h(1)] h(2)
    using lk old by (intro nth_equalityI) simp_all
  moreover have "iq_get_front_id f = Some (rptr f)"
    using ne assms(1) by (simp add: iq_get_front_id_def fifo_empty_iff ring_ids_items)
  ultimately show ?thesis
    using l h live assms(4) by (simp add: iq_compress_def kept_def)
qed

text \<open>C37: removing any instructions, given in queue order, from the issue queue leaves exactly
  the others in their old order, wherever they lie in the ring and however full it is; the loop
  ends after one visit of each slot and does not abort.\<close>

theorem iq_compress_correct:
  assumes "fifo_inv f" "\<not> pop_status_save f" "subseq xs (ring_ids f)"
  shows "\<exists>g. iq_compress xs f = Some g \<and> fifo_inv g \<and> \<not> pop_status_save g \<and> qsize g = qsize f
    \<and> iq_request_q g = iq_request_q f
    \<and> fifo_items g = map (\<lambda>i. buffer f ! i) (filter (\<lambda>i. i \<notin> set xs) (ring_ids f))"
proof (cases "xs = []")
  case True
  then have "iq_compress xs f = Some f" by (simp add: iq_compress_def split: option.split)
  with True assms(1,2) show ?thesis by (simp add: ring_ids_items)
next
  case False
  with iq_compress_items [OF assms(1,2) _ False] assms(3) show ?thesis by (simp add: removes_def)
qed

text \<open>A full window of four that wraps around; the first and third instruction leave.\<close>

definition iq_demo :: "nat issue_queue" where
  "iq_demo = \<lparr>buffer = [13, 14, 11, 12], qsize = 4, wptr = 2, wstage = True, rptr = 2, rstage = False,
     pop_status_save = False, rptr_saved = 0, rstage_saved = False, iq_request_q = []\<rparr>"

theorem iq_compress_correct_witness:
  "\<exists>g. iq_compress [2, 0] iq_demo = Some g \<and> fifo_items g = [12, 14] \<and> fifo_inv g"
proof -
  have ids: "ring_ids iq_demo = [2, 3, 0, 1]"
    by (simp add: iq_demo_def ring_ids_def id_span_def upt_rec)
  have i: "fifo_inv iq_demo" "\<not> pop_status_save iq_demo" "subseq [2, 0] (ring_ids iq_demo)"
    unfolding ids by (simp_all add: iq_demo_def fifo_inv_def ring_ok_def)
  have "map (\<lambda>i. buffer iq_demo ! i) (filter (\<lambda>i. i \<notin> set [2, 0]) (ring_ids iq_demo)) = [12, 14]"
    unfolding ids by (simp add: iq_demo_def)
  with iq_compress_correct [OF i] show ?thesis by metis
qed

end
