(* ===== verification/Issue.thy ===== *)
theory Issue
  imports Readreg Issue_Queue Store_Buffer
begin

text \<open>
  \<open>pipeline/issue.cpp\<close>: the issue stage.  A cycle picks up to two ready instructions from the issue
  queue and sends each to a unit of its class, lets the results on the feedback channels wake the
  others, and takes in the instructions that come from the register read stage.  The six arrays of
  unit queues are one function of the class; the bus is only asked for the alignment of an address.
\<close>

definition ISSUE_WIDTH :: nat where "ISSUE_WIDTH = 2"

fun unit_num :: "op_unit_t \<Rightarrow> nat" where
  "unit_num Unit_alu = 2"
| "unit_num Unit_mul = 2"
| "unit_num Unit_div = 1"
| "unit_num Unit_lsu = 1"
| "unit_num Unit_bru = 1"
| "unit_num Unit_csr = 1"

text \<open>\<open>issue_queue_item_t\<close> repeats the fields of the packet of the register read stage.\<close>

type_synonym issue_queue_item_t = readreg_issue_op_info_t

record issue_stage =
  is_in :: "readreg_issue_op_info_t list port"
  is_fifos :: "op_unit_t \<Rightarrow> exec_queue list"
  is_regfile :: "u32 regfile"
  is_sb :: store_buffer
  is_q :: "issue_queue_item_t issue_queue"
  is_busy :: bool
  is_waiting :: bool
  is_waiting_rob_id :: nat
  is_last_index :: nat
  is_index :: "op_unit_t \<Rightarrow> nat"
  is_queue_full :: u64
  is_fifo_full :: u64

definition issue_reset :: "issue_stage \<Rightarrow> issue_stage" where
  "issue_reset s = s\<lparr>is_q := iq_reset (is_q s), is_busy := False, is_waiting := False, is_waiting_rob_id := 0,
     is_last_index := 0, is_index := (\<lambda>_. 0)\<rparr>"

section \<open>Picking instructions\<close>

definition is_serial :: "('z) decode_rename_pack_t_scheme \<Rightarrow> bool" where
  "is_serial x = (p_op_unit x = Unit_csr \<or> p_op x = Op_mret)"

definition channel_ready :: "nat \<Rightarrow> execute_feedback_channel_t list \<Rightarrow> bool" where
  "channel_ready phy es = list_ex (\<lambda>c. fb_enable c \<and> phy = fb_phy_id c) es"

text \<open>The local variables of the loop: the picked slots with their instructions, the units still
  free, and the classes met so far.\<close>

record issue_pick =
  pk_ids :: "nat list"
  pk_items :: "issue_queue_item_t list"
  pk_available :: "op_unit_t \<Rightarrow> bool list"
  pk_lsu :: bool
  pk_csr :: bool
  pk_mret :: bool

definition issue_fence :: "bool \<Rightarrow> commit_feedback_pack_t \<Rightarrow> issue_queue_item_t \<Rightarrow> issue_pick \<Rightarrow> bool" where
  "issue_fence sb_empty cf x l = (p_op x = Op_fence
     \<and> (\<not> sb_empty \<or> pk_ids l \<noteq> [] \<or> cf_next_handle_rob_id cf \<noteq> p_rob_id x))"

definition issue_try ::
  "execute_feedback_channel_t list \<Rightarrow> commit_feedback_pack_t \<Rightarrow> bool \<Rightarrow> nat \<Rightarrow> issue_queue_item_t \<Rightarrow> issue_pick \<Rightarrow> issue_pick" where
  "issue_try es cf sb_empty i x l =
     (let u = p_op_unit x;
          src1_ready = (p_src1_loaded x \<or> channel_ready (p_rs1_phy x) es);
          src2_ready = (p_src2_loaded x \<or> channel_ready (p_rs2_phy x) es);
          unit_index = find (\<lambda>k. pk_available l u ! k) [0..<unit_num u];
          l = (if src1_ready \<and> src2_ready \<and> unit_index \<noteq> None \<and> (\<not> pk_lsu l \<or> u \<noteq> Unit_lsu)
                  \<and> (\<not> pk_csr l \<or> u \<noteq> Unit_csr) \<and> (\<not> pk_mret l \<or> p_op x \<noteq> Op_mret) \<and> \<not> issue_fence sb_empty cf x l
               then l\<lparr>pk_available := (pk_available l)(u := (pk_available l u)[the unit_index := False]),
                      pk_ids := pk_ids l @ [i], pk_items := pk_items l @ [x]\<rparr>
               else l)
      in l\<lparr>pk_lsu := (pk_lsu l \<or> u = Unit_lsu), pk_csr := (pk_csr l \<or> u = Unit_csr),
           pk_mret := (pk_mret l \<or> p_op x = Op_mret)\<rparr>)"

text \<open>One turn; the boolean says that the loop ends.\<close>

definition issue_turn ::
  "execute_feedback_channel_t list \<Rightarrow> commit_feedback_pack_t \<Rightarrow> bool \<Rightarrow> issue_queue_item_t issue_queue
    \<Rightarrow> nat \<Rightarrow> issue_pick \<Rightarrow> (bool \<times> issue_pick) option" where
  "issue_turn es cf sb_empty q i l = do {
     x \<leftarrow> iq_get_item q i;
     if is_serial x \<and> pk_ids l \<noteq> [] then Some (True, l)
     else do {
       cassert (cf_enable cf);
       if is_serial x \<and> cf_next_handle_rob_id cf \<noteq> p_rob_id x then Some (True, l)
       else (let k = issue_try es cf sb_empty i x l
             in Some (is_serial x \<or> issue_fence sb_empty cf x l \<or> ISSUE_WIDTH \<le> length (pk_ids k), k)) } }"

definition issue_select ::
  "execute_feedback_channel_t list \<Rightarrow> commit_feedback_pack_t \<Rightarrow> issue_stage \<Rightarrow> issue_pick option" where
  "issue_select es cf s = do {
     first_id \<leftarrow> iq_get_front_id (is_q s);
     do_while_ids (qsize (is_q s)) (\<lambda>_. iq_get_next_id (is_q s)) (\<lambda>i. i) first_id
       (issue_turn es cf (fifo_is_empty (is_sb s)) (is_q s)) first_id
       \<lparr>pk_ids = [], pk_items = [], pk_available = (\<lambda>u. map (\<lambda>f. \<not> fifo_is_full f) (is_fifos s u)),
        pk_lsu = False, pk_csr = False, pk_mret = False\<rparr> }"

section \<open>Sending an instruction to its unit\<close>

text \<open>A later execution channel overrides an earlier one, and a write-back channel is taken when
  nothing has been found yet.\<close>

definition issue_forward ::
  "nat \<Rightarrow> execute_feedback_channel_t list \<Rightarrow> execute_feedback_channel_t list \<Rightarrow> u32 option" where
  "issue_forward phy es ws = fold (\<lambda>(e, w) r.
     let r = (if fb_enable e \<and> phy = fb_phy_id e then Some (fb_value e) else r)
     in if fb_enable w \<and> r = None \<and> phy = fb_phy_id w then Some (fb_value w) else r) (zip es ws) None"

text \<open>The two operands, \<open>None\<close> when one is missing.\<close>

definition issue_operands ::
  "execute_feedback_channel_t list \<Rightarrow> execute_feedback_channel_t list \<Rightarrow> issue_queue_item_t \<Rightarrow> issue_queue_item_t option" where
  "issue_operands es ws x =
     (let f1 = (if \<not> p_src1_loaded x \<and> p_rs1_need_map x then issue_forward (p_rs1_phy x) es ws else None);
          f2 = (if \<not> p_src2_loaded x \<and> p_rs2_need_map x then issue_forward (p_rs2_phy x) es ws else None)
      in if \<not> ((f1 \<noteq> None \<or> p_src1_loaded x) \<and> (f2 \<noteq> None \<or> p_src2_loaded x)) then None
         else Some (x\<lparr>p_src1_value := (case f1 of Some v \<Rightarrow> v | None \<Rightarrow> p_src1_value x), p_src1_loaded := True,
                      p_src2_value := (case f2 of Some v \<Rightarrow> v | None \<Rightarrow> p_src2_value x), p_src2_loaded := True\<rparr>))"

fun lsu_width :: "lsu_op_t \<Rightarrow> u32" where
  "lsu_width Lsu_lb = 1" | "lsu_width Lsu_lbu = 1" | "lsu_width Lsu_sb = 1"
| "lsu_width Lsu_lh = 2" | "lsu_width Lsu_lhu = 2" | "lsu_width Lsu_sh = 2"
| "lsu_width Lsu_lw = 4" | "lsu_width Lsu_sw = 4"

fun lsu_fault :: "lsu_op_t \<Rightarrow> bool \<Rightarrow> riscv_exception_t" where
  "lsu_fault Lsu_sb misaligned = (if misaligned then store_amo_address_misaligned else store_amo_access_fault)"
| "lsu_fault Lsu_sh misaligned = (if misaligned then store_amo_address_misaligned else store_amo_access_fault)"
| "lsu_fault Lsu_sw misaligned = (if misaligned then store_amo_address_misaligned else store_amo_access_fault)"
| "lsu_fault _ misaligned = (if misaligned then load_address_misaligned else load_access_fault)"

definition issue_pack :: "issue_queue_item_t \<Rightarrow> issue_execute_pack_t option" where
  "issue_pack x =
     (let p = readreg_issue_op_info_t.extend x (issue_execute_pack_t.fields 0)
      in if p_valid x \<and> p_op_unit x = Unit_lsu then do {
           op \<leftarrow> as_lsu (p_sub_op x);
           let addr = p_src1_value x + p_imm x;
           let misaligned = (\<not> bus_check_align addr (lsu_width op));
           Some (p\<lparr>p_lsu_addr := addr, p_exception_value := addr, p_has_exception := misaligned,
                   p_exception_id := lsu_fault op misaligned\<rparr>) }
         else Some p)"

text \<open>The search for a queue with room, from the unit after the one used last.\<close>

fun issue_search :: "(nat \<Rightarrow> bool) \<Rightarrow> nat \<Rightarrow> nat \<Rightarrow> nat \<Rightarrow> nat \<Rightarrow> nat option" where
  "issue_search full cnt start 0 cur = None"
| "issue_search full cnt start (Suc fuel) cur =
     (if \<not> full cur then Some cur
      else if (cur + 1) mod cnt = start then None
      else issue_search full cnt start fuel ((cur + 1) mod cnt))"

definition issue_push :: "issue_execute_pack_t \<Rightarrow> issue_stage \<Rightarrow> (bool \<times> issue_stage) option" where
  "issue_push p s =
     (let u = p_op_unit p; fs = is_fifos s u in
      case issue_search (\<lambda>k. fifo_is_full (fs ! k)) (unit_num u) (is_index s u) (unit_num u) (is_index s u) of
        Some k \<Rightarrow> (case fifo_push p (fs ! k) of (ok, f) \<Rightarrow> do {
            cassert ok;
            Some (True, s\<lparr>is_index := (is_index s)(u := (k + 1) mod unit_num u), is_fifos := (is_fifos s)(u := fs[k := f])\<rparr>) })
      | None \<Rightarrow> Some (False, s\<lparr>is_fifo_full := is_fifo_full s + 1\<rparr>))"

definition issue_one ::
  "execute_feedback_channel_t list \<Rightarrow> execute_feedback_channel_t list \<Rightarrow> commit_feedback_pack_t
    \<Rightarrow> issue_queue_item_t \<Rightarrow> issue_stage \<Rightarrow> (bool \<times> issue_stage) option" where
  "issue_one es ws cf x s =
     (if p_enable x then do {
        s \<leftarrow> (if is_serial x then do {
                 cassert (cf_enable cf);
                 Some (s\<lparr>is_waiting := True, is_waiting_rob_id := p_rob_id x\<rparr>) }
              else Some s);
        case issue_operands es ws x of None \<Rightarrow> Some (False, s)
        | Some y \<Rightarrow> do {
            p \<leftarrow> issue_pack y;
            (ok, s) \<leftarrow> issue_push p s;
            Some (ok \<and> \<not> is_waiting s, s) } }
      else Some (True, s))"

fun issue_send ::
  "execute_feedback_channel_t list \<Rightarrow> execute_feedback_channel_t list \<Rightarrow> commit_feedback_pack_t
    \<Rightarrow> issue_queue_item_t list \<Rightarrow> issue_stage \<Rightarrow> issue_stage option" where
  "issue_send es ws cf [] s = Some s"
| "issue_send es ws cf (x # xs) s = do {
     (more, s) \<leftarrow> issue_one es ws cf x s;
     if more then issue_send es ws cf xs s else Some s }"

section \<open>Waking the others\<close>

definition wake_src1 :: "execute_feedback_channel_t \<Rightarrow> issue_queue_item_t \<times> bool \<Rightarrow> issue_queue_item_t \<times> bool" where
  "wake_src1 c = (\<lambda>(x, modified).
     if \<not> p_src1_loaded x \<and> p_rs1_need_map x \<and> p_rs1_phy x = fb_phy_id c
     then (x\<lparr>p_src1_loaded := True, p_src1_value := fb_value c\<rparr>, True) else (x, modified))"

definition wake_src2 :: "execute_feedback_channel_t \<Rightarrow> issue_queue_item_t \<times> bool \<Rightarrow> issue_queue_item_t \<times> bool" where
  "wake_src2 c = (\<lambda>(x, modified).
     if \<not> p_src2_loaded x \<and> p_rs2_need_map x \<and> p_rs2_phy x = fb_phy_id c
     then (x\<lparr>p_src2_loaded := True, p_src2_value := fb_value c\<rparr>, True) else (x, modified))"

definition wake_channel :: "execute_feedback_channel_t \<Rightarrow> issue_queue_item_t \<times> bool \<Rightarrow> issue_queue_item_t \<times> bool" where
  "wake_channel c r = (if fb_enable c then wake_src2 c (wake_src1 c r) else r)"

definition issue_wake ::
  "execute_feedback_channel_t list \<Rightarrow> execute_feedback_channel_t list \<Rightarrow> issue_queue_item_t \<Rightarrow> issue_queue_item_t \<times> bool" where
  "issue_wake es ws x = fold (\<lambda>(e, w) r. wake_channel w (wake_channel e r)) (zip es ws) (x, False)"

definition issue_wake_slot ::
  "execute_feedback_channel_t list \<Rightarrow> execute_feedback_channel_t list \<Rightarrow> nat list
    \<Rightarrow> nat \<Rightarrow> issue_queue_item_t issue_queue \<Rightarrow> (bool \<times> issue_queue_item_t issue_queue) option" where
  "issue_wake_slot es ws ids i q =
     (if i \<in> set ids then Some (False, q)
      else do {
        x \<leftarrow> iq_get_item q i;
        let (y, modified) = issue_wake es ws x;
        Some (False, if modified then iq_set_item_sync i y q else q) })"

definition issue_wake_all ::
  "execute_feedback_channel_t list \<Rightarrow> execute_feedback_channel_t list \<Rightarrow> nat list
    \<Rightarrow> issue_queue_item_t issue_queue \<Rightarrow> issue_queue_item_t issue_queue option" where
  "issue_wake_all es ws ids q =
     (case iq_get_front_id q of
        Some first_id \<Rightarrow> do_while_ids (qsize q) iq_get_next_id (\<lambda>i. i) first_id (issue_wake_slot es ws ids) first_id q
      | None \<Rightarrow> Some q)"

section \<open>Taking instructions in\<close>

definition issue_load :: "u32 regfile \<Rightarrow> issue_queue_item_t \<Rightarrow> issue_queue_item_t option" where
  "issue_load f x = do {
     x \<leftarrow> (if \<not> p_src1_loaded x \<and> p_rs1_need_map x then do {
              b \<leftarrow> regfile_read_data_valid f (p_rs1_phy x);
              if b then do { v \<leftarrow> regfile_read f (p_rs1_phy x); Some (x\<lparr>p_src1_loaded := True, p_src1_value := v\<rparr>) }
              else Some x }
            else Some x);
     (if \<not> p_src2_loaded x \<and> p_rs2_need_map x then do {
              b \<leftarrow> regfile_read_data_valid f (p_rs2_phy x);
              if b then do { v \<leftarrow> regfile_read f (p_rs2_phy x); Some (x\<lparr>p_src2_loaded := True, p_src2_value := v\<rparr>) }
              else Some x }
            else Some x) }"

definition issue_take ::
  "execute_feedback_channel_t list \<Rightarrow> execute_feedback_channel_t list \<Rightarrow> u32 regfile
    \<Rightarrow> readreg_issue_op_info_t \<Rightarrow> issue_queue_item_t option" where
  "issue_take es ws f op =
     (if p_valid op then do { x \<leftarrow> issue_load f op; Some (fst (issue_wake es ws x)) } else Some op)"

text \<open>The loop over the packet, from \<open>last_index\<close>; the boolean is \<open>finish\<close>.\<close>

fun issue_accept ::
  "execute_feedback_channel_t list \<Rightarrow> execute_feedback_channel_t list \<Rightarrow> nat list \<Rightarrow> issue_stage \<Rightarrow> (bool \<times> issue_stage) option" where
  "issue_accept es ws [] s = Some (True, s\<lparr>is_last_index := READREG_WIDTH\<rparr>)"
| "issue_accept es ws (i # js) s = do {
     let s = s\<lparr>is_last_index := i\<rparr>;
     op \<leftarrow> array_get (port_get (is_in s)) i;
     if \<not> p_enable op then issue_accept es ws js s
     else if fifo_is_full (is_q s) then Some (False, s\<lparr>is_queue_full := is_queue_full s + 1\<rparr>)
     else do {
       x \<leftarrow> issue_take es ws (is_regfile s) op;
       issue_accept es ws js (s\<lparr>is_q := snd (fifo_push x (is_q s))\<rparr>) } }"

definition issue_input ::
  "execute_feedback_channel_t list \<Rightarrow> execute_feedback_channel_t list \<Rightarrow> issue_stage \<Rightarrow> issue_stage option" where
  "issue_input es ws s = do {
     let s = (if \<not> is_busy s then s\<lparr>is_busy := True, is_last_index := 0\<rparr> else s);
     (finish, s) \<leftarrow> issue_accept es ws [is_last_index s..<READREG_WIDTH] s;
     Some (if finish then s\<lparr>is_busy := False, is_last_index := 0\<rparr> else s) }"

section \<open>The stage\<close>

definition issue_waited :: "commit_feedback_pack_t \<Rightarrow> issue_stage \<Rightarrow> bool" where
  "issue_waited cf s = list_ex (\<lambda>i. cf_enable cf \<and> cf_committed_rob_id_valid cf ! i
     \<and> cf_committed_rob_id cf ! i = is_waiting_rob_id s) [0..<COMMIT_WIDTH]"

definition issue_output ::
  "execute_feedback_channel_t list \<Rightarrow> execute_feedback_channel_t list \<Rightarrow> commit_feedback_pack_t
    \<Rightarrow> issue_stage \<Rightarrow> (nat list \<times> issue_stage) option" where
  "issue_output es ws cf s =
     (if \<not> is_waiting s \<or> issue_waited cf s then
        (let s = s\<lparr>is_waiting := False\<rparr> in
         if fifo_is_empty (is_q s) then Some ([], s)
         else do {
           l \<leftarrow> issue_select es cf s;
           s \<leftarrow> issue_send es ws cf (pk_items l) s;
           Some (pk_ids l, s) })
      else Some ([], s))"

text \<open>The result is the feedback \<open>stall\<close> to the register read stage.\<close>

definition issue_run ::
  "execute_feedback_channel_t list \<Rightarrow> execute_feedback_channel_t list \<Rightarrow> commit_feedback_pack_t
    \<Rightarrow> issue_stage \<Rightarrow> (bool \<times> issue_stage) option" where
  "issue_run es ws cf s =
     (if \<not> cf_flushing cf then do {
        (ids, s) \<leftarrow> issue_output es ws cf s;
        q \<leftarrow> issue_wake_all es ws ids (is_q s);
        s \<leftarrow> issue_input es ws (s\<lparr>is_q := q\<rparr>);
        q \<leftarrow> iq_sync (iq_compress_sync ids (is_q s));
        Some (is_busy s, s\<lparr>is_q := q\<rparr>) }
      else Some (False, s\<lparr>is_fifos := map fifo_flush \<circ> is_fifos s, is_q := fifo_flush (is_q s),
                          is_busy := False, is_waiting := False\<rparr>))"

end
