(* ===== verification/Issue_Select.thy ===== *)
theory Issue_Select
  imports Issue
begin

text \<open>
  What the issue stage picks: in the order of the queue, at most two ready instructions for which a
  unit has room, memory operations in program order, and instructions that must run alone only when
  everything before them is committed.
\<close>

section \<open>Ready instructions and free units\<close>

definition issue_ready :: "execute_feedback_channel_t list \<Rightarrow> issue_queue_item_t \<Rightarrow> bool" where
  "issue_ready es x = ((p_src1_loaded x \<or> channel_ready (p_rs1_phy x) es) \<and> (p_src2_loaded x \<or> channel_ready (p_rs2_phy x) es))"

definition free_units :: "exec_queue list \<Rightarrow> nat" where
  "free_units fs = length (filter (\<lambda>f. \<not> fifo_is_full f) fs)"

definition of_unit :: "op_unit_t \<Rightarrow> issue_queue_item_t list \<Rightarrow> nat" where
  "of_unit u xs = length (filter (\<lambda>x. p_op_unit x = u) xs)"

lemma of_unit_simps [simp]:
  "of_unit u [] = 0" "of_unit u (x # xs) = (if p_op_unit x = u then 1 else 0) + of_unit u xs"
  "of_unit u (xs @ ys) = of_unit u xs + of_unit u ys"
  by (simp_all add: of_unit_def)

lemma claim_count:
  assumes "k < length bs" "bs ! k"
  shows "length (filter id (bs[k := False])) + 1 = length (filter id bs)"
  using assms
proof (induction bs arbitrary: k)
  case (Cons b bs)
  then show ?case by (cases k) auto
qed simp

section \<open>The selection\<close>

definition queue_item :: "issue_queue_item_t issue_queue \<Rightarrow> nat \<Rightarrow> issue_queue_item_t" where
  "queue_item q i = buffer q ! i"

text \<open>The picks among the first \<open>k\<close> slots.\<close>

definition lsu_at :: "issue_queue_item_t issue_queue \<Rightarrow> nat \<Rightarrow> bool" where
  "lsu_at q j = (p_op_unit (queue_item q (ring_ids q ! j)) = Unit_lsu)"

text \<open>Slot \<open>j\<close> does not pass one that it must not: no instruction passes one that must run alone,
  and no memory operation passes another.\<close>

definition in_order :: "issue_queue_item_t issue_queue \<Rightarrow> nat \<Rightarrow> bool" where
  "in_order q j = (\<forall>i < j. \<not> is_serial (queue_item q (ring_ids q ! i)) \<and> (lsu_at q j \<longrightarrow> \<not> lsu_at q i))"

definition pick_ok :: "execute_feedback_channel_t list \<Rightarrow> commit_feedback_pack_t \<Rightarrow> bool \<Rightarrow> issue_queue_item_t list \<Rightarrow> issue_queue_item_t \<Rightarrow> bool" where
  "pick_ok es cf e xs x = (issue_ready es x
     \<and> (is_serial x \<longrightarrow> xs = [x] \<and> cf_next_handle_rob_id cf = p_rob_id x)
     \<and> (p_op x = Op_fence \<longrightarrow> e \<and> x = hd xs \<and> cf_next_handle_rob_id cf = p_rob_id x))"

definition picked_upto :: "execute_feedback_channel_t list \<Rightarrow> commit_feedback_pack_t \<Rightarrow> bool \<Rightarrow> (op_unit_t \<Rightarrow> exec_queue list)
    \<Rightarrow> issue_queue_item_t issue_queue \<Rightarrow> nat \<Rightarrow> issue_pick \<Rightarrow> bool" where
  "picked_upto es cf e fs q k l = (
     subseq (pk_ids l) (take k (ring_ids q)) \<and> pk_items l = map (queue_item q) (pk_ids l) \<and> length (pk_ids l) \<le> ISSUE_WIDTH
     \<and> (\<forall>x \<in> set (pk_items l). pick_ok es cf e (pk_items l) x)
     \<and> (\<forall>u. of_unit u (pk_items l) \<le> free_units (fs u))
     \<and> (\<forall>j < k. ring_ids q ! j \<in> set (pk_ids l) \<longrightarrow> in_order q j))"

text \<open>When no turn has ended the loop, moreover, the flags and the free units tell what was met.\<close>

definition select_at :: "execute_feedback_channel_t list \<Rightarrow> commit_feedback_pack_t \<Rightarrow> bool \<Rightarrow> (op_unit_t \<Rightarrow> exec_queue list)
    \<Rightarrow> issue_queue_item_t issue_queue \<Rightarrow> nat \<Rightarrow> issue_pick \<Rightarrow> bool" where
  "select_at es cf e fs q k l = (picked_upto es cf e fs q k l \<and> length (pk_ids l) < ISSUE_WIDTH
     \<and> (\<forall>x \<in> set (pk_items l). \<not> is_serial x) \<and> (\<forall>j < k. \<not> is_serial (queue_item q (ring_ids q ! j))) \<and> pk_lsu l = (\<exists>j < k. lsu_at q j)
     \<and> (\<forall>u. length (pk_available l u) = unit_num u
          \<and> of_unit u (pk_items l) + length (filter id (pk_available l u)) = free_units (fs u)))"

definition issue_picked :: "execute_feedback_channel_t list \<Rightarrow> commit_feedback_pack_t \<Rightarrow> bool \<Rightarrow> (op_unit_t \<Rightarrow> exec_queue list)
    \<Rightarrow> issue_queue_item_t issue_queue \<Rightarrow> issue_pick \<Rightarrow> bool" where
  "issue_picked es cf e fs q l = picked_upto es cf e fs q (length (ring_ids q)) l"

lemma subseq_take_mono: "subseq xs (take k ys) \<Longrightarrow> subseq xs ys"
  using subseq_order.order_trans [of xs "take k ys" ys] prefix_imp_subseq [OF take_is_prefix] by blast

lemma subseq_set: "subseq xs ys \<Longrightarrow> set xs \<subseteq> set ys"
  by (metis subseq_conv_nths set_nths_subset)

lemma picked_all:
  assumes "picked_upto es cf e fs q k l" "k \<le> length (ring_ids q)" "fifo_inv q"
  shows "issue_picked es cf e fs q l"
proof -
  have s: "subseq (pk_ids l) (take k (ring_ids q))" using assms(1) by (simp add: picked_upto_def)
  have later: "j < k" if a: "j < length (ring_ids q)" and b: "ring_ids q ! j \<in> set (pk_ids l)" for j
  proof -
    have "set (pk_ids l) \<subseteq> set (take k (ring_ids q))" using s by (rule subseq_set)
    then obtain i where "i < k" "i < length (ring_ids q)" "ring_ids q ! j = ring_ids q ! i"
      using b by (auto simp: in_set_conv_nth dest!: subsetD)
    then show ?thesis using a nth_eq_iff_index_eq [OF ring_ids_distinct [OF assms(3)], of j i] by simp
  qed
  show ?thesis unfolding issue_picked_def picked_upto_def
  proof (intro conjI allI impI)
    show "subseq (pk_ids l) (take (length (ring_ids q)) (ring_ids q))" using subseq_take_mono [OF s] by simp
  next
    fix j assume "j < length (ring_ids q)" "ring_ids q ! j \<in> set (pk_ids l)"
    with later assms(1) show "in_order q j" unfolding picked_upto_def by blast
  qed (use assms(1) in \<open>auto simp: picked_upto_def\<close>)
qed

lemma picked_skip:
  assumes "picked_upto es cf e fs q k l" "k < length (ring_ids q)" "fifo_inv q"
  shows "picked_upto es cf e fs q (Suc k) l"
proof -
  have s: "subseq (pk_ids l) (take k (ring_ids q))" using assms(1) by (simp add: picked_upto_def)
  have "take (Suc k) (ring_ids q) = take k (ring_ids q) @ [ring_ids q ! k]" using assms(2) by (rule take_Suc_conv_app_nth)
  then have "subseq (pk_ids l) (take (Suc k) (ring_ids q))" using list_emb_append_mono [OF s list_emb_Nil [of _ "[ring_ids q ! k]"]] by simp
  moreover have "ring_ids q ! k \<notin> set (pk_ids l)"
  proof
    assume "ring_ids q ! k \<in> set (pk_ids l)"
    moreover have "set (pk_ids l) \<subseteq> set (take k (ring_ids q))" using s by (rule subseq_set)
    ultimately obtain i where "i < k" "i < length (ring_ids q)" "ring_ids q ! k = ring_ids q ! i"
      by (auto simp: in_set_conv_nth dest!: subsetD)
    then show False using assms(2) nth_eq_iff_index_eq [OF ring_ids_distinct [OF assms(3)], of k i] by simp
  qed
  ultimately show ?thesis using assms(1) unfolding picked_upto_def by (auto simp: less_Suc_eq)
qed

lemma picked_flags [simp]:
  "picked_upto es cf e fs q k (l\<lparr>pk_lsu := a, pk_csr := b, pk_mret := c\<rparr>) = picked_upto es cf e fs q k l"
  by (simp add: picked_upto_def)

text \<open>An instruction that is not picked leaves the picks as they are.\<close>

lemma select_skips:
  assumes "select_at es cf e fs q k l" "k < length (ring_ids q)" "fifo_inv q" "\<not> is_serial (queue_item q (ring_ids q ! k))"
  shows "select_at es cf e fs q (Suc k) (l\<lparr>pk_lsu := (pk_lsu l \<or> lsu_at q k), pk_csr := b, pk_mret := c\<rparr>)"
  using assms(1,4) picked_skip [OF _ assms(2,3)] by (auto simp: select_at_def less_Suc_eq)

lemma pick_extends:
  assumes "select_at es cf e fs q k l" "k < length (ring_ids q)" "fifo_inv q" "x = queue_item q (ring_ids q ! k)"
    and "issue_ready es x" "find (\<lambda>m. pk_available l (p_op_unit x) ! m) [0..<unit_num (p_op_unit x)] = Some m"
    and "\<not> pk_lsu l \<or> p_op_unit x \<noteq> Unit_lsu" "\<not> issue_fence e cf x l"
    and "is_serial x \<Longrightarrow> pk_ids l = [] \<and> cf_next_handle_rob_id cf = p_rob_id x"
  defines "t \<equiv> l\<lparr>pk_available := (pk_available l)(p_op_unit x := (pk_available l (p_op_unit x))[m := False]),
                      pk_ids := pk_ids l @ [ring_ids q ! k], pk_items := pk_items l @ [x]\<rparr>"
  shows "picked_upto es cf e fs q (Suc k) t"
    "length (pk_available t u) = unit_num u \<and> of_unit u (pk_items t) + length (filter id (pk_available t u)) = free_units (fs u)"
proof -
  let ?i = "ring_ids q ! k"
  have p: "picked_upto es cf e fs q k l" "length (pk_ids l) < ISSUE_WIDTH" "\<forall>x \<in> set (pk_items l). \<not> is_serial x"
    "pk_lsu l = (\<exists>j < k. lsu_at q j)" "\<And>u. length (pk_available l u) = unit_num u"
    "\<And>u. of_unit u (pk_items l) + length (filter id (pk_available l u)) = free_units (fs u)"
    using assms(1) by (simp_all add: select_at_def)
  have m: "m < length (pk_available l (p_op_unit x))" "pk_available l (p_op_unit x) ! m"
    using assms(6) p(5) by (auto simp: find_Some_iff)
  have cnt: "length (pk_available t u) = unit_num u \<and> of_unit u (pk_items t) + length (filter id (pk_available t u)) = free_units (fs u)" for u
  proof (cases "p_op_unit x = u")
    case True
    with claim_count [OF m] p(5,6) [of u] show ?thesis by (simp add: t_def)
  qed (use p(5,6) in \<open>simp add: t_def\<close>)
  then show "length (pk_available t u) = unit_num u \<and> of_unit u (pk_items t) + length (filter id (pk_available t u)) = free_units (fs u)" .
  have s: "subseq (pk_ids l) (take k (ring_ids q))" "pk_items l = map (queue_item q) (pk_ids l)"
    "\<forall>x \<in> set (pk_items l). pick_ok es cf e (pk_items l) x"
    "\<And>j. j < k \<Longrightarrow> ring_ids q ! j \<in> set (pk_ids l) \<Longrightarrow> in_order q j"
    using p(1) unfolding picked_upto_def by blast+
  have sub: "subseq (pk_ids l @ [?i]) (take (Suc k) (ring_ids q))"
    using list_emb_append_mono [OF s(1) subseq_order.order_refl [of "[?i]"]] assms(2) by (simp add: take_Suc_conv_app_nth)
  have newp: "pick_ok es cf e (pk_items l @ [x]) x"
    using assms(5,8,9) s(2) by (cases "pk_ids l = []") (auto simp: pick_ok_def issue_fence_def)
  have oldp: "pick_ok es cf e (pk_items l @ [x]) y" if y: "y \<in> set (pk_items l)" for y
  proof -
    have "pk_items l \<noteq> []" using y by auto
    then show ?thesis using s(3) p(3) y by (auto simp: pick_ok_def)
  qed
  have ord: "in_order q j" if j: "j < Suc k" and mem: "ring_ids q ! j \<in> set (pk_ids l @ [?i])" for j
  proof (cases "j = k")
    case True
    have "lsu_at q k \<longrightarrow> \<not> pk_lsu l" using assms(4,7) by (auto simp: lsu_at_def)
    with True p(4) assms(1) show ?thesis by (auto simp: in_order_def select_at_def)
  next
    case False
    then have jk: "j < k" using j by simp
    then have "ring_ids q ! j \<noteq> ?i"
      using nth_eq_iff_index_eq [OF ring_ids_distinct [OF assms(3)], of j k] assms(2) by simp
    with mem have "ring_ids q ! j \<in> set (pk_ids l)" by simp
    from s(4) [OF jk this] show ?thesis .
  qed
  have "of_unit u (pk_items t) \<le> free_units (fs u)" for u using cnt [of u] by linarith
  then show "picked_upto es cf e fs q (Suc k) t"
    unfolding picked_upto_def using sub s(2) p(2) newp oldp ord assms(4) by (auto simp: t_def)
qed

lemma select_turn:
  assumes "fifo_inv q" "select_at es cf e fs q k l" "k < length (ring_ids q)" "cf_enable cf"
  shows "\<exists>b t. issue_turn es cf e q (ring_ids q ! k) l = Some (b, t)
    \<and> (if b then issue_picked es cf e fs q t else select_at es cf e fs q (Suc k) t)"
proof -
  define x where "x = queue_item q (ring_ids q ! k)"
  have get: "iq_get_item q (ring_ids q ! k) = Some x" using iq_item_live(1) [OF assms(1)] assms(3) by (simp add: x_def queue_item_def)
  have here: "picked_upto es cf e fs q k l" using assms(2) by (simp add: select_at_def)
  have stop: "issue_picked es cf e fs q l" using picked_all [OF here _ assms(1)] assms(3) by simp
  show ?thesis
  proof (cases "is_serial x \<and> (pk_ids l \<noteq> [] \<or> cf_next_handle_rob_id cf \<noteq> p_rob_id x)")
    case True
    with get stop assms(4) show ?thesis by (auto simp: issue_turn_def)
  next
    case False
    let ?u = "p_op_unit x"
    let ?k = "issue_try es cf e (ring_ids q ! k) x l"
    have turn: "issue_turn es cf e q (ring_ids q ! k) l
        = Some (is_serial x \<or> issue_fence e cf x l \<or> ISSUE_WIDTH \<le> length (pk_ids ?k), ?k)"
      using get False assms(4) by (auto simp: issue_turn_def Let_def)
    let ?f = "find (\<lambda>m. pk_available l ?u ! m) [0..<unit_num ?u]"
    let ?go = "issue_ready es x \<and> ?f \<noteq> None \<and> (\<not> pk_lsu l \<or> ?u \<noteq> Unit_lsu)
                  \<and> (\<not> pk_csr l \<or> ?u \<noteq> Unit_csr) \<and> (\<not> pk_mret l \<or> p_op x \<noteq> Op_mret) \<and> \<not> issue_fence e cf x l"
    have lsu: "(?u = Unit_lsu) = lsu_at q k" by (simp add: lsu_at_def x_def)
    show ?thesis
    proof (cases ?go)
      case True
      then obtain m where m: "?f = Some m" by blast
      let ?t = "l\<lparr>pk_available := (pk_available l)(?u := (pk_available l ?u)[m := False]),
                      pk_ids := pk_ids l @ [ring_ids q ! k], pk_items := pk_items l @ [x]\<rparr>"
      have k: "?k = ?t\<lparr>pk_lsu := (pk_lsu l \<or> ?u = Unit_lsu), pk_csr := (pk_csr l \<or> ?u = Unit_csr), pk_mret := (pk_mret l \<or> p_op x = Op_mret)\<rparr>"
        using True m by (simp add: issue_try_def issue_ready_def Let_def)
      have sc: "is_serial x \<Longrightarrow> pk_ids l = [] \<and> cf_next_handle_rob_id cf = p_rob_id x" using False by blast
      from True have g: "issue_ready es x" "\<not> pk_lsu l \<or> ?u \<noteq> Unit_lsu" "\<not> issue_fence e cf x l" by simp_all
      note ext = pick_extends [OF assms(2,3,1) x_def g(1) m g(2,3) sc]
      have up: "picked_upto es cf e fs q (Suc k) ?k" unfolding k by (simp only: picked_flags ext(1))
      have all: "issue_picked es cf e fs q ?k" using picked_all [OF up _ assms(1)] assms(3) by simp
      have "select_at es cf e fs q (Suc k) ?k" if "\<not> is_serial x" "\<not> ISSUE_WIDTH \<le> length (pk_ids ?k)"
        unfolding select_at_def
      proof (intro conjI)
        show "length (pk_ids ?k) < ISSUE_WIDTH" using that by simp
        show "\<forall>x \<in> set (pk_items ?k). \<not> is_serial x" using that(1) assms(2) by (simp add: k select_at_def)
        show "\<forall>j < Suc k. \<not> is_serial (queue_item q (ring_ids q ! j))"
          using that(1) assms(2) by (auto simp: select_at_def less_Suc_eq x_def)
        show "pk_lsu ?k = (\<exists>j < Suc k. lsu_at q j)" using assms(2) lsu by (auto simp: k select_at_def less_Suc_eq)
        show "\<forall>u. length (pk_available ?k u) = unit_num u
            \<and> of_unit u (pk_items ?k) + length (filter id (pk_available ?k u)) = free_units (fs u)"
          using ext(2) by (simp add: k)
      qed (rule up)
      with turn all show ?thesis by auto
    next
      case stay: False
      have k: "?k = l\<lparr>pk_lsu := (pk_lsu l \<or> ?u = Unit_lsu), pk_csr := (pk_csr l \<or> ?u = Unit_csr), pk_mret := (pk_mret l \<or> p_op x = Op_mret)\<rparr>"
        using stay by (auto simp: issue_try_def issue_ready_def Let_def)
      have "issue_picked es cf e fs q ?k" using stop unfolding k issue_picked_def by (simp only: picked_flags)
      moreover have "select_at es cf e fs q (Suc k) ?k" if "\<not> is_serial x"
        unfolding k lsu by (rule select_skips [OF assms(2,3,1)]) (use that in \<open>simp add: x_def\<close>)
      ultimately show ?thesis using turn by auto
    qed
  qed
qed

lemma issue_select_picks:
  assumes "fifo_inv (is_q s)" "fifo_items (is_q s) \<noteq> []" "cf_enable cf" "\<forall>u. length (is_fifos s u) = unit_num u"
  shows "\<exists>l. issue_select es cf s = Some l \<and> issue_picked es cf (fifo_is_empty (is_sb s)) (is_fifos s) (is_q s) l"
proof -
  let ?q = "is_q s" and ?e = "fifo_is_empty (is_sb s)"
  let ?init = "\<lparr>pk_ids = [], pk_items = [], pk_available = (\<lambda>u. map (\<lambda>f. \<not> fifo_is_full f) (is_fifos s u)),
        pk_lsu = False, pk_csr = False, pk_mret = False\<rparr>"
  have ne: "ring_ids ?q \<noteq> []" using assms(2) ring_ids_items [OF assms(1)] by auto
  have front: "iq_get_front_id ?q = Some (rptr ?q)" using assms(1,2) by (simp add: iq_get_front_id_def fifo_empty_iff)
  have loop: "do_while_ids (qsize ?q) (\<lambda>_. iq_get_next_id ?q) (\<lambda>i. i) (rptr ?q) (issue_turn es cf ?e ?q) (rptr ?q) ?init
      = fold_brk (issue_turn es cf ?e ?q) (ring_ids ?q) ?init"
    using do_while_ring [where ring = "\<lambda>_. ?q" and s = ?init, OF assms(1) ne ring_ids_le [OF assms(1)], of "issue_turn es cf ?e ?q"] assms(1)
    by (simp add: iq_get_next_id_def [abs_def])
  have "length (filter id (map (\<lambda>f. \<not> fifo_is_full f) fs)) = free_units fs" for fs
    by (induction fs) (auto simp: free_units_def)
  then have "select_at es cf ?e (is_fifos s) ?q 0 ?init"
    using assms(4) by (simp add: select_at_def picked_upto_def ISSUE_WIDTH_def)
  then have "\<exists>t. fold_brk (issue_turn es cf ?e ?q) (ring_ids ?q) ?init = Some t \<and> issue_picked es cf ?e (is_fifos s) ?q t"
  proof (rule fold_brk_prefix [where I = "select_at es cf ?e (is_fifos s) ?q"])
    fix k l assume "k < length (ring_ids ?q)" "select_at es cf ?e (is_fifos s) ?q k l"
    from select_turn [OF assms(1) this(2,1) assms(3)]
    show "\<exists>b t. issue_turn es cf ?e ?q (ring_ids ?q ! k) l = Some (b, t)
      \<and> (if b then issue_picked es cf ?e (is_fifos s) ?q t else select_at es cf ?e (is_fifos s) ?q (Suc k) t)" .
  next
    fix l assume "select_at es cf ?e (is_fifos s) ?q (length (ring_ids ?q)) l"
    then show "issue_picked es cf ?e (is_fifos s) ?q l" by (simp add: select_at_def issue_picked_def)
  qed
  with loop show ?thesis by (simp add: issue_select_def front)
qed

section \<open>The oldest instruction\<close>

definition goes_first :: "execute_feedback_channel_t list \<Rightarrow> commit_feedback_pack_t \<Rightarrow> bool \<Rightarrow> (op_unit_t \<Rightarrow> exec_queue list) \<Rightarrow> issue_queue_item_t \<Rightarrow> bool" where
  "goes_first es cf e fs x = (issue_ready es x \<and> (\<exists>k < unit_num (p_op_unit x). \<not> fifo_is_full (fs (p_op_unit x) ! k))
     \<and> (is_serial x \<or> p_op x = Op_fence \<longrightarrow> cf_next_handle_rob_id cf = p_rob_id x) \<and> (p_op x = Op_fence \<longrightarrow> e))"

lemma issue_turn_prefix:
  assumes "prefix ids (pk_ids l)" "issue_turn es cf e q i l = Some (b, t)"
  shows "prefix ids (pk_ids t)"
proof -
  from assms(2) obtain x where "t = l \<or> t = issue_try es cf e i x l"
    by (auto simp: issue_turn_def bind_eq_Some_conv Let_def split: if_splits)
  with assms(1) show ?thesis by (auto simp: issue_try_def Let_def)
qed

lemma issue_select_first:
  assumes "fifo_inv (is_q s)" "fifo_items (is_q s) \<noteq> []" "cf_enable cf" "\<forall>u. length (is_fifos s u) = unit_num u"
    and "goes_first es cf (fifo_is_empty (is_sb s)) (is_fifos s) (hd (fifo_items (is_q s)))" "issue_select es cf s = Some l"
  shows "prefix [rptr (is_q s)] (pk_ids l)"
proof -
  let ?q = "is_q s" and ?e = "fifo_is_empty (is_sb s)" and ?x = "hd (fifo_items (is_q s))"
  let ?init = "\<lparr>pk_ids = [], pk_items = [], pk_available = (\<lambda>u. map (\<lambda>f. \<not> fifo_is_full f) (is_fifos s u)),
        pk_lsu = False, pk_csr = False, pk_mret = False\<rparr>"
  have ne: "ring_ids ?q \<noteq> []" using assms(2) ring_ids_items [OF assms(1)] by auto
  have front: "iq_get_front_id ?q = Some (rptr ?q)" using assms(1,2) by (simp add: iq_get_front_id_def fifo_empty_iff)
  have hd: "hd (ring_ids ?q) = rptr ?q" using ring_ids_hd [OF assms(1) ne] ne by (simp add: hd_conv_nth)
  then obtain js where js: "ring_ids ?q = rptr ?q # js" using ne by (cases "ring_ids ?q") auto
  have loop: "issue_select es cf s = fold_brk (issue_turn es cf ?e ?q) (ring_ids ?q) ?init"
    using do_while_ring [where ring = "\<lambda>_. ?q" and s = ?init, OF assms(1) ne ring_ids_le [OF assms(1)], of "issue_turn es cf ?e ?q"] assms(1)
    by (simp add: iq_get_next_id_def [abs_def] issue_select_def front)
  have get: "iq_get_item ?q (rptr ?q) = Some ?x"
    using iq_item_live(1) [OF assms(1), of "rptr ?q"] ring_ids_items [OF assms(1)] js by auto
  let ?f = "find (\<lambda>m. pk_available ?init (p_op_unit ?x) ! m) [0..<unit_num (p_op_unit ?x)]"
  have "?f \<noteq> None" using assms(4,5) by (auto simp: goes_first_def find_None_iff)
  then have ids: "pk_ids (issue_try es cf ?e (rptr ?q) ?x ?init) = [rptr ?q]"
    using assms(5) by (auto simp: issue_try_def Let_def goes_first_def issue_ready_def issue_fence_def)
  define k where "k = issue_try es cf ?e (rptr ?q) ?x ?init"
  have turn: "\<exists>b. issue_turn es cf ?e ?q (rptr ?q) ?init = Some (b, k)"
    using get assms(3,5) by (auto simp: issue_turn_def Let_def goes_first_def k_def)
  then obtain b where b: "issue_turn es cf ?e ?q (rptr ?q) ?init = Some (b, k)" ..
  have start: "prefix [rptr ?q] (pk_ids k)" using ids by (simp add: k_def)
  have "(if b then Some k else fold_brk (issue_turn es cf ?e ?q) js k) = Some l"
    using assms(6) b unfolding loop js by simp
  then show ?thesis
    using start fold_brk_keeps [where P = "\<lambda>l. prefix [rptr ?q] (pk_ids l)", OF issue_turn_prefix start] by (auto split: if_splits)
qed

end
