(* ===== verification/Issue_Cycle.thy ===== *)
theory Issue_Cycle
  imports Issue_Select
begin

text \<open>
  A cycle of the issue stage as a whole: no instruction is lost or doubled on its way from the
  register read stage through the issue queue to the queues of the units, and each arrives with the
  operands of its registers.
\<close>

section \<open>Finding a queue with room\<close>

lemma issue_search_from:
  assumes "start < cnt" "\<exists>k < cnt. \<not> full k" "j + fuel = cnt" "\<forall>i < j. full ((start + i) mod cnt)"
  shows "\<exists>k < cnt. issue_search full cnt start fuel ((start + j) mod cnt) = Some k \<and> \<not> full k"
  using assms(3,4)
proof (induction fuel arbitrary: j)
  case 0
  from assms(2) obtain k where k: "k < cnt" "\<not> full k" by blast
  define i where "i = (if start \<le> k then k - start else k + cnt - start)"
  have "i < cnt" "(start + i) mod cnt = k" using k(1) assms(1) by (auto simp: i_def)
  with 0 k(2) show ?case by auto
next
  case (Suc fuel)
  let ?cur = "(start + j) mod cnt"
  have bound: "?cur < cnt" using assms(1) by simp
  have nxt: "(?cur + 1) mod cnt = (start + Suc j) mod cnt" by (simp add: mod_Suc_eq)
  show ?case
  proof (cases "full ?cur")
    case True
    then have full: "\<forall>i < Suc j. full ((start + i) mod cnt)" using Suc.prems(2) by (auto simp: less_Suc_eq)
    from Suc.IH [of "Suc j"] Suc.prems(1) full obtain k where
      k: "k < cnt" "issue_search full cnt start fuel ((start + Suc j) mod cnt) = Some k" "\<not> full k" by auto
    have "(start + Suc j) mod cnt \<noteq> start"
    proof
      assume e: "(start + Suc j) mod cnt = start"
      show False
      proof (cases fuel)
        case 0
        with k(2) show False by simp
      next
        case (Suc n)
        then have "Suc j < cnt" using Suc.prems(1) \<open>j + Suc fuel = cnt\<close> by simp
        then have "(start + Suc j) mod cnt = (if start + Suc j < cnt then start + Suc j else start + Suc j - cnt)"
          using assms(1) by (simp add: le_mod_geq)
        with e \<open>Suc j < cnt\<close> show False by (auto split: if_splits)
      qed
    qed
    with k nxt True show ?thesis by simp
  qed (use bound in simp)
qed

lemma issue_search_finds:
  assumes "start < cnt" "\<exists>k < cnt. \<not> full k"
  shows "\<exists>k < cnt. issue_search full cnt start cnt start = Some k \<and> \<not> full k"
  using issue_search_from [OF assms, of 0 cnt] assms(1) by simp

lemma free_units_pos: "0 < free_units fs \<longleftrightarrow> (\<exists>k < length fs. \<not> fifo_is_full (fs ! k))"
  by (auto simp: free_units_def filter_empty_conv in_set_conv_nth) (metis nth_mem)

lemma free_units_update: "free_units fs \<le> free_units (fs[k := f]) + 1"
proof (induction fs arbitrary: k)
  case (Cons g fs)
  show ?case
  proof (cases k)
    case (Suc j)
    with Cons [of j] show ?thesis by (auto simp: free_units_def)
  qed (auto simp: free_units_def)
qed (simp add: free_units_def)

section \<open>Sending\<close>

definition units_ok :: "issue_stage \<Rightarrow> bool" where
  "units_ok s = (\<forall>u. length (is_fifos s u) = unit_num u \<and> (\<forall>k < unit_num u. fifo_inv (is_fifos s u ! k)) \<and> is_index s u < unit_num u)"

text \<open>Each packet has been appended to one queue of its class, and nothing else has changed.\<close>

definition sent_to :: "(op_unit_t \<Rightarrow> exec_queue list) \<Rightarrow> (issue_execute_pack_t \<times> nat) list \<Rightarrow> (op_unit_t \<Rightarrow> exec_queue list) \<Rightarrow> bool" where
  "sent_to fs pts gs = ((\<forall>(p, k) \<in> set pts. k < unit_num (p_op_unit p))
     \<and> (\<forall>u. \<forall>k < unit_num u. fifo_items (gs u ! k) = fifo_items (fs u ! k) @ map fst (filter (\<lambda>(p, j). p_op_unit p = u \<and> j = k) pts)))"

lemma sent_to_Nil [simp]: "sent_to fs [] fs" by (simp add: sent_to_def)

lemma issue_push_ok:
  assumes "units_ok s" "u = p_op_unit p" "0 < free_units (is_fifos s u)"
  shows "\<exists>k t. issue_push p s = Some (True, t) \<and> units_ok t \<and> sent_to (is_fifos s) [(p, k)] (is_fifos t)
    \<and> t = s\<lparr>is_index := is_index t, is_fifos := is_fifos t\<rparr>
    \<and> (\<forall>v. free_units (is_fifos s v) \<le> free_units (is_fifos t v) + (if v = u then 1 else 0))"
proof -
  let ?fs = "is_fifos s u"
  have l: "length ?fs = unit_num u" "is_index s u < unit_num u" "\<And>k. k < unit_num u \<Longrightarrow> fifo_inv (?fs ! k)"
    using assms(1) by (simp_all add: units_ok_def)
  from issue_search_finds [of "is_index s u" "unit_num u" "\<lambda>k. fifo_is_full (?fs ! k)"] l(1,2) assms(3) obtain k where
    k: "k < unit_num u" "issue_search (\<lambda>k. fifo_is_full (?fs ! k)) (unit_num u) (is_index s u) (unit_num u) (is_index s u) = Some k"
      "\<not> fifo_is_full (?fs ! k)" by (auto simp: free_units_pos)
  obtain ok f where f: "fifo_push p (?fs ! k) = (ok, f)" by (cases "fifo_push p (?fs ! k)")
  have ok: "ok" using fifo_push_not_full [OF k(3), of p] f by simp
  have "fifo_occupied (?fs ! k) < qsize (?fs ! k)"
    using k(3) fifo_full_iff [OF l(3) [OF k(1)]] fifo_occupied_le [OF l(3) [OF k(1)]] by simp
  from fifo_push_ok [OF l(3) [OF k(1)] this f] have fi: "fifo_inv f" "fifo_items f = fifo_items (?fs ! k) @ [p]" by simp_all
  let ?t = "s\<lparr>is_index := (is_index s)(u := (k + 1) mod unit_num u), is_fifos := (is_fifos s)(u := ?fs[k := f])\<rparr>"
  have "issue_push p s = Some (True, ?t)" using k(2) f ok by (simp add: issue_push_def assms(2) Let_def)
  moreover have "units_ok ?t"
    using assms(1) l k(1) fi(1) by (auto simp: units_ok_def nth_list_update)
  moreover have "sent_to (is_fifos s) [(p, k)] (is_fifos ?t)"
    using k(1) l(1) fi(2) assms(2) by (auto simp: sent_to_def nth_list_update)
  moreover have "free_units (is_fifos s v) \<le> free_units (is_fifos ?t v) + (if v = u then 1 else 0)" for v
    using free_units_update [of ?fs k f] by simp
  ultimately show ?thesis by (intro exI [of _ k] exI [of _ ?t]) simp
qed

lemma sent_to_trans:
  assumes "sent_to fs ps gs" "sent_to gs qs hs"
  shows "sent_to fs (ps @ qs) hs"
  using assms by (auto simp: sent_to_def)

section \<open>Operands\<close>

definition issue_item_ok :: "issue_queue_item_t \<Rightarrow> bool" where
  "issue_item_ok x = (p_enable x \<and> (\<not> p_src1_loaded x \<longrightarrow> p_rs1_need_map x) \<and> (\<not> p_src2_loaded x \<longrightarrow> p_rs2_need_map x)
     \<and> (p_rs1_need_map x \<longrightarrow> p_rs1_phy x < PHY_REG_NUM) \<and> (p_rs2_need_map x \<longrightarrow> p_rs2_phy x < PHY_REG_NUM)
     \<and> (p_valid x \<and> p_op_unit x = Unit_lsu \<longrightarrow> as_lsu (p_sub_op x) \<noteq> None))"

definition forward_step :: "nat \<Rightarrow> execute_feedback_channel_t \<times> execute_feedback_channel_t \<Rightarrow> u32 option \<Rightarrow> u32 option" where
  "forward_step phy = (\<lambda>(e, w) r.
     let r = (if fb_enable e \<and> phy = fb_phy_id e then Some (fb_value e) else r)
     in if fb_enable w \<and> r = None \<and> phy = fb_phy_id w then Some (fb_value w) else r)"

lemma issue_forward_fold: "issue_forward phy es ws = fold (forward_step phy) (zip es ws) None"
  by (simp add: issue_forward_def forward_step_def)

lemma forward_keeps: "r \<noteq> None \<Longrightarrow> fold (forward_step phy) cs r \<noteq> None"
proof (induction cs arbitrary: r)
  case (Cons c cs)
  have "forward_step phy c r \<noteq> None" using Cons.prems by (cases c) (auto simp: forward_step_def Let_def)
  from Cons.IH [OF this] show ?case by simp
qed simp

lemma forward_found:
  assumes "length es = length ws" "channel_ready phy es"
  shows "issue_forward phy es ws \<noteq> None"
proof -
  have "fold (forward_step phy) (zip es ws) r \<noteq> None" if "length es = length ws" "channel_ready phy es" for r
    using that
  proof (induction es ws arbitrary: r rule: list_induct2)
    case (Cons e es w ws)
    show ?case
    proof (cases "fb_enable e \<and> phy = fb_phy_id e")
      case True
      then have "forward_step phy (e, w) r \<noteq> None" by (simp add: forward_step_def)
      from forward_keeps [OF this, of phy "zip es ws"] show ?thesis by simp
    next
      case False
      then have "channel_ready phy es" using Cons.prems by (auto simp: channel_ready_def)
      from Cons.IH [OF this] show ?thesis by simp
    qed
  qed (simp add: channel_ready_def)
  from this [OF assms] show ?thesis by (simp add: issue_forward_fold)
qed

lemma forward_value:
  assumes "\<forall>c \<in> set (es @ ws). fb_enable c \<longrightarrow> fb_value c = val (fb_phy_id c)" "issue_forward phy es ws = Some v"
  shows "v = val phy"
proof -
  have "r = None \<or> r = Some (val phy) \<Longrightarrow> fold (forward_step phy) (zip es ws) r \<in> {None, Some (val phy)}" for r
    using assms(1)
  proof (induction es arbitrary: ws r)
    case (Cons e es)
    show ?case
    proof (cases ws)
      case (Cons w ws')
      have "forward_step phy (e, w) r = None \<or> forward_step phy (e, w) r = Some (val phy)"
        using Cons.prems Cons by (auto simp: forward_step_def Let_def)
      from Cons.IH [OF this, of ws'] Cons.prems(2) Cons show ?thesis by simp
    qed (use Cons.prems(1) in auto)
  qed simp
  from this [of None] assms(2) show ?thesis by (auto simp: issue_forward_fold)
qed

text \<open>The packet that is sent for an instruction.\<close>

definition issue_sends :: "execute_feedback_channel_t list \<Rightarrow> execute_feedback_channel_t list \<Rightarrow> issue_queue_item_t \<Rightarrow> issue_execute_pack_t \<Rightarrow> bool" where
  "issue_sends es ws x p = (\<exists>y. issue_operands es ws x = Some y \<and> issue_pack y = Some p)"

lemma issue_operands_ready:
  assumes "issue_item_ok x" "issue_ready es x" "length es = length ws"
  obtains v w where "issue_operands es ws x
      = Some (x\<lparr>p_src1_value := v, p_src1_loaded := True, p_src2_value := w, p_src2_loaded := True\<rparr>)"
proof -
  define f1 f2 where "f1 = (if \<not> p_src1_loaded x \<and> p_rs1_need_map x then issue_forward (p_rs1_phy x) es ws else None)"
    and "f2 = (if \<not> p_src2_loaded x \<and> p_rs2_need_map x then issue_forward (p_rs2_phy x) es ws else None)"
  have "(f1 \<noteq> None \<or> p_src1_loaded x) \<and> (f2 \<noteq> None \<or> p_src2_loaded x)"
    using assms(1,2) forward_found [OF assms(3)] by (auto simp: issue_item_ok_def issue_ready_def f1_def f2_def)
  then have "issue_operands es ws x = Some (x\<lparr>p_src1_value := (case f1 of Some v \<Rightarrow> v | None \<Rightarrow> p_src1_value x), p_src1_loaded := True,
      p_src2_value := (case f2 of Some v \<Rightarrow> v | None \<Rightarrow> p_src2_value x), p_src2_loaded := True\<rparr>)"
    unfolding issue_operands_def f1_def [symmetric] f2_def [symmetric] Let_def by simp
  then show ?thesis by (rule that)
qed

lemma issue_pack_unit: "issue_pack y = Some p \<Longrightarrow> p_op_unit p = p_op_unit y"
  by (auto simp: issue_pack_def Let_def bind_eq_Some_conv readreg_issue_op_info_t.defs split: if_splits)

lemma issue_sends_ready:
  assumes "issue_item_ok x" "issue_ready es x" "length es = length ws"
  shows "\<exists>y p. issue_operands es ws x = Some y \<and> issue_pack y = Some p \<and> p_op_unit p = p_op_unit x"
proof -
  from issue_operands_ready [OF assms] obtain v w where
    y: "issue_operands es ws x = Some (x\<lparr>p_src1_value := v, p_src1_loaded := True, p_src2_value := w, p_src2_loaded := True\<rparr>)" (is "_ = Some ?y") .
  have "\<exists>p. issue_pack ?y = Some p" using assms(1) by (auto simp: issue_pack_def Let_def issue_item_ok_def)
  then obtain p where "issue_pack ?y = Some p" ..
  with y issue_pack_unit [OF this] show ?thesis by auto
qed

lemma issue_send_all:
  assumes "units_ok s" "\<forall>x \<in> set xs. issue_item_ok x \<and> issue_ready es x \<and> (is_serial x \<longrightarrow> xs = [x])"
    and "\<forall>u. of_unit u xs \<le> free_units (is_fifos s u)" "length es = length ws" "\<not> is_waiting s" "cf_enable cf"
  shows "\<exists>t pts. issue_send es ws cf xs s = Some t \<and> list_all2 (\<lambda>x (p, k). issue_sends es ws x p) xs pts
    \<and> sent_to (is_fifos s) pts (is_fifos t) \<and> units_ok t \<and> is_waiting t = (\<exists>x \<in> set xs. is_serial x)
    \<and> is_waiting_rob_id t = (if is_waiting t then p_rob_id (hd xs) else is_waiting_rob_id s)
    \<and> is_q t = is_q s \<and> is_in t = is_in s \<and> is_regfile t = is_regfile s \<and> is_sb t = is_sb s \<and> is_busy t = is_busy s
    \<and> is_last_index t = is_last_index s"
  using assms
proof (induction xs arbitrary: s)
  case Nil
  then show ?case by (intro exI [of _ s] exI [of _ "[]"]) simp
next
  case (Cons x xs)
  let ?u = "p_op_unit x"
  have x: "issue_item_ok x" "issue_ready es x" "is_serial x \<longrightarrow> xs = []" "p_enable x"
    using Cons.prems(2) by (auto simp: issue_item_ok_def)
  from issue_sends_ready [OF x(1,2) Cons.prems(4)] obtain y p where
    p: "issue_operands es ws x = Some y" "issue_pack y = Some p" "p_op_unit p = ?u" by blast
  define s1 where "s1 = (if is_serial x then s\<lparr>is_waiting := True, is_waiting_rob_id := p_rob_id x\<rparr> else s)"
  have s1: "units_ok s1" "is_fifos s1 = is_fifos s" "is_waiting s1 = is_serial x"
    using Cons.prems(1,5) by (simp_all add: s1_def units_ok_def)
  have "1 \<le> free_units (is_fifos s ?u)" using Cons.prems(3) [rule_format, of ?u] by simp
  then have "0 < free_units (is_fifos s1 ?u)" using s1(2) by simp
  from issue_push_ok [OF s1(1) p(3) [symmetric] this] obtain k s2 where
    push: "issue_push p s1 = Some (True, s2)" and s2: "units_ok s2" "sent_to (is_fifos s1) [(p, k)] (is_fifos s2)"
      "s2 = s1\<lparr>is_index := is_index s2, is_fifos := is_fifos s2\<rparr>"
      "\<And>v. free_units (is_fifos s1 v) \<le> free_units (is_fifos s2 v) + (if v = ?u then 1 else 0)" by blast
  have fr: "is_waiting s2 = is_serial x" "is_waiting_rob_id s2 = is_waiting_rob_id s1" "is_q s2 = is_q s" "is_in s2 = is_in s"
    "is_regfile s2 = is_regfile s" "is_sb s2 = is_sb s" "is_busy s2 = is_busy s" "is_last_index s2 = is_last_index s"
    using Cons.prems(5) by (subst s2(3), simp add: s1_def)+
  have one: "issue_one es ws cf x s = Some (\<not> is_serial x, s2)"
    using p(1,2) push x(4) Cons.prems(6) fr(1) by (cases "is_serial x") (simp_all add: issue_one_def s1_def)
  have sends: "issue_sends es ws x p" using p(1,2) by (auto simp: issue_sends_def)
  show ?case
  proof (cases "is_serial x")
    case True
    then have "xs = []" using x(3) by blast
    with one True s2(1,2) sends s1(2) fr show ?thesis
      by (intro exI [of _ s2] exI [of _ "[(p, k)]"]) (simp add: s1_def)
  next
    case False
    then have s1s: "s1 = s" by (simp add: s1_def)
    have room: "\<forall>v. of_unit v xs \<le> free_units (is_fifos s2 v)"
    proof
      fix v
      show "of_unit v xs \<le> free_units (is_fifos s2 v)"
        using Cons.prems(3) [rule_format, of v] s2(4) [of v] by (cases "v = ?u") (simp_all add: s1s)
    qed
    have rest: "\<forall>z \<in> set xs. issue_item_ok z \<and> issue_ready es z \<and> (is_serial z \<longrightarrow> xs = [z])"
      and none: "\<not> (\<exists>z \<in> set xs. is_serial z)"
      using Cons.prems(2) False by auto
    have nw: "\<not> is_waiting s2" using False fr(1) by simp
    from Cons.IH [OF s2(1) rest room Cons.prems(4) nw Cons.prems(6)] obtain t pts where
      t: "issue_send es ws cf xs s2 = Some t" "list_all2 (\<lambda>x (p, k). issue_sends es ws x p) xs pts"
      "sent_to (is_fifos s2) pts (is_fifos t)" "units_ok t" "is_waiting t = (\<exists>x \<in> set xs. is_serial x)"
      "is_waiting_rob_id t = (if is_waiting t then p_rob_id (hd xs) else is_waiting_rob_id s2)"
      "is_q t = is_q s2" "is_in t = is_in s2" "is_regfile t = is_regfile s2" "is_sb t = is_sb s2" "is_busy t = is_busy s2"
      "is_last_index t = is_last_index s2" by blast
    have "sent_to (is_fifos s) ((p, k) # pts) (is_fifos t)" using sent_to_trans [OF s2(2) t(3)] by (simp add: s1s)
    then show ?thesis using one False t sends none fr s1s
      by (intro exI [of _ t] exI [of _ "(p, k) # pts"]) simp
  qed
qed

section \<open>Waking\<close>

definition woken :: "execute_feedback_channel_t list \<Rightarrow> execute_feedback_channel_t list \<Rightarrow> issue_queue_item_t \<Rightarrow> issue_queue_item_t" where
  "woken es ws x = fst (issue_wake es ws x)"

lemma wake_src_unmodified:
  "\<not> snd (wake_src1 c r) \<Longrightarrow> wake_src1 c r = r \<and> \<not> snd r" "\<not> snd (wake_src2 c r) \<Longrightarrow> wake_src2 c r = r \<and> \<not> snd r"
  by (cases r; simp add: wake_src1_def wake_src2_def split: if_splits)+

lemma wake_channel_unmodified:
  assumes "\<not> snd (wake_channel c r)"
  shows "wake_channel c r = r \<and> \<not> snd r"
proof (cases "fb_enable c")
  case True
  then have e: "wake_channel c r = wake_src2 c (wake_src1 c r)" by (simp add: wake_channel_def)
  note two = wake_src_unmodified(2) [OF assms [unfolded e]]
  from wake_src_unmodified(1) [of c r] two show ?thesis unfolding e by simp
qed (use assms in \<open>simp add: wake_channel_def\<close>)

lemma wake_unmodified: "\<not> snd (issue_wake es ws x) \<Longrightarrow> woken es ws x = x"
proof -
  have "\<not> snd (fold (\<lambda>(e, w) r. wake_channel w (wake_channel e r)) cs r) \<Longrightarrow>
      fold (\<lambda>(e, w) r. wake_channel w (wake_channel e r)) cs r = r" for cs r
  proof (induction cs arbitrary: r)
    case (Cons c cs)
    obtain e w where c: "c = (e, w)" by (cases c)
    let ?F = "fold (\<lambda>(e, w) r. wake_channel w (wake_channel e r)) cs"
    have n: "\<not> snd (?F (wake_channel w (wake_channel e r)))" using Cons.prems by (simp add: c)
    note f = Cons.IH [OF n]
    have "\<not> snd (wake_channel w (wake_channel e r))" using n unfolding f .
    from wake_channel_unmodified [OF this] wake_channel_unmodified [of e r]
    have "wake_channel w (wake_channel e r) = r" by simp
    with f show ?case by (simp add: c)
  qed simp
  from this [of "zip es ws" "(x, False)"] show "\<not> snd (issue_wake es ws x) \<Longrightarrow> woken es ws x = x"
    by (simp add: issue_wake_def woken_def)
qed

definition wake_requests :: "execute_feedback_channel_t list \<Rightarrow> execute_feedback_channel_t list \<Rightarrow> nat list
    \<Rightarrow> issue_queue_item_t issue_queue \<Rightarrow> nat list \<Rightarrow> issue_queue_item_t iq_request list" where
  "wake_requests es ws ids q js = map (\<lambda>i. Iq_set_item i (woken es ws (queue_item q i)))
     (filter (\<lambda>i. i \<notin> set ids \<and> snd (issue_wake es ws (queue_item q i))) js)"

lemma wake_slots:
  assumes "fifo_inv q" "set js \<subseteq> set (ring_ids q)"
  shows "fold_brk (issue_wake_slot es ws ids) js q = Some (q\<lparr>iq_request_q := iq_request_q q @ wake_requests es ws ids q js\<rparr>)"
  using assms
proof (induction js arbitrary: q)
  case (Cons j js)
  let ?q = "if j \<in> set ids \<or> \<not> snd (issue_wake es ws (queue_item q j)) then q
            else iq_set_item_sync j (woken es ws (queue_item q j)) q"
  have j: "j \<in> set (ring_ids q)" using Cons.prems(2) by simp
  have get: "iq_get_item q j = Some (queue_item q j)" using iq_item_live(1) [OF Cons.prems(1) j] by (simp add: queue_item_def)
  have one: "issue_wake_slot es ws ids j q = Some (False, ?q)"
    using get by (cases "issue_wake es ws (queue_item q j)") (simp add: issue_wake_slot_def woken_def)
  have q: "fifo_inv ?q" "ring_ids ?q = ring_ids q" "queue_item ?q = queue_item q"
    using Cons.prems(1) by (simp_all add: iq_set_item_sync_def fifo_inv_def ring_ids_def queue_item_def fun_eq_iff)
  have "fold_brk (issue_wake_slot es ws ids) (j # js) q = fold_brk (issue_wake_slot es ws ids) js ?q" by (simp add: one)
  also have "\<dots> = Some (?q\<lparr>iq_request_q := iq_request_q ?q @ wake_requests es ws ids ?q js\<rparr>)"
    using Cons.IH [OF q(1)] Cons.prems(2) q(2) by simp
  also have "wake_requests es ws ids ?q js = wake_requests es ws ids q js" unfolding wake_requests_def q(3) ..
  finally show ?case by (simp add: wake_requests_def iq_set_item_sync_def)
qed (simp add: wake_requests_def)

lemma issue_wake_all_eq:
  assumes "fifo_inv q"
  shows "issue_wake_all es ws ids q = Some (q\<lparr>iq_request_q := iq_request_q q @ wake_requests es ws ids q (ring_ids q)\<rparr>)"
proof (cases "ring_ids q = []")
  case True
  then have "fifo_is_empty q" using assms by (simp add: fifo_empty_iff ring_ids_items)
  with True show ?thesis by (simp add: issue_wake_all_def iq_get_front_id_def wake_requests_def)
next
  case False
  then have "\<not> fifo_is_empty q" using assms by (simp add: fifo_empty_iff ring_ids_items)
  then have front: "iq_get_front_id q = Some (rptr q)" by (simp add: iq_get_front_id_def)
  have keep: "fifo_inv u \<and> ring_ids u = ring_ids q \<and> qsize u = qsize q"
    if "fifo_inv t" "ring_ids t = ring_ids q" "qsize t = qsize q" "issue_wake_slot es ws ids c t = Some (b, u)" for c t b u
  proof -
    have "u = t \<or> (\<exists>y. u = iq_set_item_sync c y t)"
    proof (cases "c \<in> set ids")
      case False
      with that(4) obtain y where "(case issue_wake es ws y of (z, modified) \<Rightarrow>
          Some (False, if modified then iq_set_item_sync c z t else t)) = Some (b, u)"
        by (auto simp: issue_wake_slot_def bind_eq_Some_conv)
      then show ?thesis by (cases "issue_wake es ws y") (auto split: if_splits)
    qed (use that(4) in \<open>simp add: issue_wake_slot_def\<close>)
    then show ?thesis using that(1-3) by (elim disjE exE) (simp_all add: iq_set_item_sync_def fifo_inv_def ring_ids_def)
  qed
  have "do_while_ids (qsize q) iq_get_next_id (\<lambda>i. i) (rptr q) (issue_wake_slot es ws ids) (rptr q) q
      = fold_brk (issue_wake_slot es ws ids) (ring_ids q) q"
    unfolding iq_get_next_id_def [abs_def]
    by (rule do_while_ring [where ring = "\<lambda>q. q" and s = q, OF assms False ring_ids_le [OF assms]]) (rule keep)
  with wake_slots [OF assms subset_refl] front show ?thesis by (simp add: issue_wake_all_def)
qed

text \<open>Replaying the wake-ups after new instructions have been pushed behind.\<close>

lemma iq_set_items:
  assumes "fifo_inv q" "set js \<subseteq> set (ring_ids q)"
  shows "fold_opt iq_apply (map (\<lambda>i. Iq_set_item i (g i)) js) q = Some (q\<lparr>buffer := fold (\<lambda>i b. b[i := g i]) js (buffer q)\<rparr>)"
  using assms
proof (induction js arbitrary: q)
  case (Cons j js)
  let ?q = "q\<lparr>buffer := (buffer q)[j := g j]\<rparr>"
  have j: "j \<in> set (ring_ids q)" using Cons.prems(2) by simp
  have "iq_set_item j (g j) q = Some ?q" by (rule iq_item_live(2) [OF Cons.prems(1) j])
  moreover have "fifo_inv ?q" using Cons.prems(1) by (simp add: fifo_inv_def)
  ultimately show ?case using Cons.IH [of ?q] Cons.prems(2) by simp
qed simp

lemma fold_set_slots:
  "length (fold (\<lambda>i b. b[i := g i]) js b) = length b"
  "j < length b \<Longrightarrow> fold (\<lambda>i b. b[i := g i]) js b ! j = (if j \<in> set js then g j else b ! j)"
  by (induction js arbitrary: b) (auto simp: nth_list_update)

lemma iq_after_cycle:
  assumes "fifo_inv q" "subseq ids (ring_ids q)" "fifo_inv r" "\<not> pop_status_save r"
    and "ring_ids r = ring_ids q @ new" "fifo_items r = fifo_items q @ xs"
    and "iq_request_q r = wake_requests es ws ids q (ring_ids q)"
  shows "\<exists>g. iq_sync (iq_compress_sync ids r) = Some g \<and> fifo_inv g \<and> \<not> pop_status_save g \<and> iq_request_q g = [] \<and> qsize g = qsize r
    \<and> fifo_items g = map (\<lambda>i. woken es ws (queue_item q i)) (filter (\<lambda>i. i \<notin> set ids) (ring_ids q)) @ xs"
proof -
  define js where "js = filter (\<lambda>i. i \<notin> set ids \<and> snd (issue_wake es ws (queue_item q i))) (ring_ids q)"
  let ?g = "\<lambda>i. woken es ws (queue_item q i)"
  define c where "c = iq_compress_sync ids r"
  define b where "b = fold (\<lambda>i b. b[i := ?g i]) js (buffer r)"
  have c: "fifo_inv c" "ring_ids c = ring_ids r" "\<not> pop_status_save c" "buffer c = buffer r" "qsize c = qsize r"
    "iq_request_q c = map (\<lambda>i. Iq_set_item i (?g i)) js @ [Iq_compress ids]"
    using assms(3,4,7) by (simp_all add: c_def iq_compress_sync_def fifo_inv_def ring_ids_def wake_requests_def js_def)
  have js: "set js \<subseteq> set (ring_ids c)" "set js \<subseteq> set (ring_ids q)" by (auto simp: js_def c(2) assms(5))
  have set_all: "fold_opt iq_apply (map (\<lambda>i. Iq_set_item i (?g i)) js) c = Some (c\<lparr>buffer := b\<rparr>)"
    using iq_set_items [OF c(1) js(1)] by (simp add: b_def c(4))
  let ?d = "c\<lparr>buffer := b\<rparr>"
  have d: "fifo_inv ?d" "ring_ids ?d = ring_ids q @ new" "\<not> pop_status_save ?d" "qsize ?d = qsize r"
    using c assms(5) by (simp_all add: fifo_inv_def b_def fold_set_slots)
  have len: "length (buffer r) = qsize r" using assms(3) by (simp add: fifo_inv_def)
  have items: "buffer r ! (ring_ids r ! k) = (fifo_items q @ xs) ! k" if "k < length (ring_ids r)" for k
    using that ring_ids_items [OF assms(3)] by (metis assms(6) nth_map)
  have lq: "length (ring_ids q) = length (fifo_items q)" using ring_ids_length [OF assms(1)] .
  have old: "b ! i = ?g i" if i: "i \<in> set (ring_ids q)" "i \<notin> set ids" for i
  proof -
    obtain k where k: "k < length (ring_ids q)" "i = ring_ids q ! k" using i(1) by (auto simp: in_set_conv_nth)
    have "i < length (buffer r)" using ring_ids_bound [OF assms(3), of i] i(1) assms(5) len by simp
    note v = fold_set_slots(2) [OF this, of ?g js, folded b_def]
    have "buffer r ! i = fifo_items q ! k" using items [of k] k lq by (simp add: assms(5) nth_append)
    also have "\<dots> = queue_item q i" using ring_ids_items [OF assms(1)] k by (simp add: queue_item_def)
    finally have same: "buffer r ! i = queue_item q i" .
    show ?thesis
    proof (cases "i \<in> set js")
      case False
      then have "\<not> snd (issue_wake es ws (queue_item q i))" using i by (simp add: js_def)
      from wake_unmodified [OF this] v False same show ?thesis by simp
    qed (use v in simp)
  qed
  have dis: "distinct (ring_ids q @ new)" using ring_ids_distinct [OF assms(3)] by (simp add: assms(5))
  have sub: "set ids \<subseteq> set (ring_ids q)" using assms(2) by (rule subseq_set)
  have new: "map (\<lambda>i. b ! i) new = xs"
  proof (rule nth_equalityI)
    have "length (ring_ids r) = length (fifo_items r)" using ring_ids_length [OF assms(3)] .
    then show l: "length (map (\<lambda>i. b ! i) new) = length xs" by (simp add: assms(5,6) lq)
    fix k assume "k < length (map (\<lambda>i. b ! i) new)"
    then have k: "k < length new" by simp
    then have nk: "new ! k \<notin> set js" using dis js(2) nth_mem by fastforce
    have "new ! k \<in> set (ring_ids r)" using k by (simp add: assms(5))
    then have "new ! k < length (buffer r)" using ring_ids_bound [OF assms(3)] len by simp
    from fold_set_slots(2) [OF this, of ?g js, folded b_def] nk have "b ! (new ! k) = buffer r ! (new ! k)" by simp
    also have "\<dots> = xs ! k" using items [of "length (ring_ids q) + k"] k by (simp add: assms(5) nth_append lq)
    finally show "map (\<lambda>i. b ! i) new ! k = xs ! k" using k by simp
  qed
  have "filter (\<lambda>i. i \<notin> set ids) new = new" using dis sub by (auto simp: filter_id_conv)
  then have kept: "map (\<lambda>i. b ! i) (filter (\<lambda>i. i \<notin> set ids) (ring_ids ?d))
      = map ?g (filter (\<lambda>i. i \<notin> set ids) (ring_ids q)) @ xs"
    unfolding d(2) using old new by simp
  have rem: "removes ids ?d" unfolding removes_def d(2) using list_emb_append_mono [OF assms(2) list_emb_Nil [of _ new]] by simp
  have "\<exists>g. iq_compress ids ?d = Some g \<and> fifo_inv g \<and> \<not> pop_status_save g \<and> qsize g = qsize ?d \<and> fifo_items g = map (\<lambda>i. b ! i) (filter (\<lambda>i. i \<notin> set ids) (ring_ids ?d))"
  proof (cases "ids = []")
    case True
    then have "iq_compress ids ?d = Some ?d" by (simp add: iq_compress_def split: option.split)
    with True d ring_ids_items [OF d(1)] show ?thesis by simp
  qed (use iq_compress_items [OF d(1,3) rem] in auto)
  then obtain g where g: "iq_compress ids ?d = Some g" "fifo_inv g" "\<not> pop_status_save g" "qsize g = qsize r"
    "fifo_items g = map ?g (filter (\<lambda>i. i \<notin> set ids) (ring_ids q)) @ xs" unfolding kept d(4) by blast
  have "iq_sync c = Some (g\<lparr>iq_request_q := []\<rparr>)" using set_all g(1) by (simp add: iq_sync_def c(6) fold_opt_append)
  then show ?thesis using g unfolding c_def
    by (intro exI [of _ "g\<lparr>iq_request_q := []\<rparr>"]) (simp add: fifo_inv_def fifo_items_def)
qed

section \<open>Taking in\<close>

definition issue_input_ok :: "readreg_issue_op_info_t \<Rightarrow> bool" where
  "issue_input_ok x = (p_enable x \<longrightarrow> issue_item_ok x)"

text \<open>What holds of an instruction and is kept by each operand that arrives holds after the wake-ups.\<close>

lemma woken_keeps:
  assumes "P x"
    and "\<And>c y m. c \<in> set (es @ ws) \<Longrightarrow> fb_enable c \<Longrightarrow> P y \<Longrightarrow> P (fst (wake_src1 c (y, m)))"
    and "\<And>c y m. c \<in> set (es @ ws) \<Longrightarrow> fb_enable c \<Longrightarrow> P y \<Longrightarrow> P (fst (wake_src2 c (y, m)))"
  shows "P (woken es ws x)"
proof -
  have one: "P (fst (wake_channel c r))" if "c \<in> set (es @ ws)" "P (fst r)" for c r
    using assms(3) [of c "fst (wake_src1 c r)" "snd (wake_src1 c r)"] assms(2) [of c "fst r" "snd r"] that
    by (simp add: wake_channel_def)
  have "P (fst (fold (\<lambda>(e, w) r. wake_channel w (wake_channel e r)) cs r))"
    if "set cs \<subseteq> set es \<times> set ws" "P (fst r)" for cs r
    using that
  proof (induction cs arbitrary: r)
    case (Cons c cs)
    obtain e w where c: "c = (e, w)" by (cases c)
    have "P (fst (wake_channel w (wake_channel e r)))" using one Cons.prems by (simp add: c)
    with Cons.IH [OF _ this] Cons.prems(1) show ?case by (simp add: c)
  qed simp
  moreover have "set (zip es ws) \<subseteq> set es \<times> set ws" by (auto dest: set_zip_leftD set_zip_rightD)
  ultimately show ?thesis using assms(1) by (simp add: woken_def issue_wake_def)
qed

lemma woken_ok: "issue_item_ok x \<Longrightarrow> issue_item_ok (woken es ws x)"
  by (erule woken_keeps) (auto simp: wake_src1_def wake_src2_def issue_item_ok_def)

definition load_src1 :: "u32 regfile \<Rightarrow> issue_queue_item_t \<Rightarrow> issue_queue_item_t" where
  "load_src1 f x = (if \<not> p_src1_loaded x \<and> p_rs1_need_map x \<and> bm_bit (reg_data_valid f) (p_rs1_phy x)
     then x\<lparr>p_src1_loaded := True, p_src1_value := reg_data f ! p_rs1_phy x\<rparr> else x)"

definition load_src2 :: "u32 regfile \<Rightarrow> issue_queue_item_t \<Rightarrow> issue_queue_item_t" where
  "load_src2 f x = (if \<not> p_src2_loaded x \<and> p_rs2_need_map x \<and> bm_bit (reg_data_valid f) (p_rs2_phy x)
     then x\<lparr>p_src2_loaded := True, p_src2_value := reg_data f ! p_rs2_phy x\<rparr> else x)"

lemma issue_take_eq:
  assumes "regfile_inv f" "issue_item_ok x"
  shows "issue_take es ws f x = Some (if p_valid x then woken es ws (load_src2 f (load_src1 f x)) else x)"
proof -
  have one: "(if \<not> p_src1_loaded x \<and> p_rs1_need_map x then do {
              b \<leftarrow> regfile_read_data_valid f (p_rs1_phy x);
              if b then do { v \<leftarrow> regfile_read f (p_rs1_phy x); Some (x\<lparr>p_src1_loaded := True, p_src1_value := v\<rparr>) }
              else Some x }
            else Some x) = Some (load_src1 f x)"
    using assms by (simp add: issue_item_ok_def load_src1_def regfile_read_eq regfile_read_data_valid_eq)
  have "p_rs2_need_map (load_src1 f x) = p_rs2_need_map x" "p_rs2_phy (load_src1 f x) = p_rs2_phy x" by (simp_all add: load_src1_def)
  then have "issue_load f x = Some (load_src2 f (load_src1 f x))"
    using assms unfolding issue_load_def one by (simp add: issue_item_ok_def load_src2_def regfile_read_eq regfile_read_data_valid_eq)
  then show ?thesis by (simp add: issue_take_def woken_def)
qed

lemma issue_take_ok: "issue_item_ok x \<Longrightarrow> issue_item_ok (woken es ws (load_src2 f (load_src1 f x)))"
  by (rule woken_ok) (auto simp: load_src1_def load_src2_def issue_item_ok_def)

text \<open>The accepted instructions are the enabled ones from where the last cycle stopped to the first
  for which there is no room.\<close>

definition accepted :: "execute_feedback_channel_t list \<Rightarrow> execute_feedback_channel_t list \<Rightarrow> issue_stage \<Rightarrow> nat \<Rightarrow> nat \<Rightarrow> issue_queue_item_t list \<Rightarrow> bool" where
  "accepted es ws s a b xs = (map_opt (issue_take es ws (is_regfile s)) (filter p_enable (map (\<lambda>i. port_get (is_in s) ! i) [a..<b])) = Some xs)"

definition accept_ready :: "issue_stage \<Rightarrow> bool" where
  "accept_ready s = (fifo_inv (is_q s) \<and> \<not> pop_status_save (is_q s) \<and> regfile_inv (is_regfile s)
     \<and> length (port_get (is_in s)) = READREG_WIDTH \<and> (\<forall>x \<in> set (port_get (is_in s)). issue_input_ok x))"

definition accept_end :: "execute_feedback_channel_t list \<Rightarrow> execute_feedback_channel_t list \<Rightarrow> nat \<Rightarrow> issue_stage \<Rightarrow> bool \<Rightarrow> issue_stage
    \<Rightarrow> nat \<Rightarrow> issue_queue_item_t list \<Rightarrow> nat list \<Rightarrow> bool" where
  "accept_end es ws a s fin t b xs new = (a \<le> b \<and> b \<le> READREG_WIDTH \<and> accepted es ws s a b xs
    \<and> t = s\<lparr>is_q := is_q t, is_last_index := b, is_queue_full := is_queue_full t\<rparr>
    \<and> fifo_inv (is_q t) \<and> \<not> pop_status_save (is_q t) \<and> qsize (is_q t) = qsize (is_q s) \<and> iq_request_q (is_q t) = iq_request_q (is_q s)
    \<and> ring_ids (is_q t) = ring_ids (is_q s) @ new \<and> fifo_items (is_q t) = fifo_items (is_q s) @ xs
    \<and> (if fin then b = READREG_WIDTH else b < READREG_WIDTH \<and> p_enable (port_get (is_in s) ! b) \<and> fifo_is_full (is_q t)))"

lemma accepted_step:
  assumes "accepted es ws s (Suc a) b ys" "Suc a \<le> b"
    and "if p_enable (port_get (is_in s) ! a) then map_option (\<lambda>z. [z]) (issue_take es ws (is_regfile s) (port_get (is_in s) ! a)) = Some zs else zs = []"
  shows "accepted es ws s a b (zs @ ys)"
proof -
  have "[a..<b] = a # [Suc a..<b]" using assms(2) by (simp add: upt_conv_Cons)
  then show ?thesis using assms(1,3) by (auto simp: accepted_def split: if_splits)
qed

lemma issue_accept_run:
  assumes "accept_ready s" "a \<le> READREG_WIDTH"
  shows "\<exists>fin t b xs new. issue_accept es ws [a..<READREG_WIDTH] s = Some (fin, t) \<and> accept_end es ws a s fin t b xs new"
  using assms
proof (induction "READREG_WIDTH - a" arbitrary: a s)
  case 0
  then have "a = READREG_WIDTH" by simp
  with 0 show ?case
    by (intro exI [of _ True] exI [of _ "s\<lparr>is_last_index := READREG_WIDTH\<rparr>"] exI [of _ READREG_WIDTH] exI [of _ "[]"] exI [of _ "[]"])
      (simp add: accepted_def accept_end_def accept_ready_def)
next
  case (Suc k)
  have a: "a < READREG_WIDTH" "k = READREG_WIDTH - Suc a" "Suc a \<le> READREG_WIDTH" using Suc.hyps(2) by simp_all
  have upt: "[a..<READREG_WIDTH] = a # [Suc a..<READREG_WIDTH]" using a by (simp add: upt_conv_Cons)
  note r = Suc.prems(1) [unfolded accept_ready_def]
  let ?op = "port_get (is_in s) ! a" and ?s = "s\<lparr>is_last_index := a\<rparr>"
  have get: "array_get (port_get (is_in s)) a = Some ?op" using a r by (simp add: array_get_def)
  have opok: "issue_input_ok ?op" using a r by simp
  show ?case
  proof (cases "p_enable ?op \<and> fifo_is_full (is_q s)")
    case True
    with get a upt r show ?thesis
      by (intro exI [of _ False] exI [of _ "?s\<lparr>is_queue_full := is_queue_full s + 1\<rparr>"] exI [of _ a] exI [of _ "[]"] exI [of _ "[]"])
        (simp add: accepted_def accept_end_def)
  next
    case go: False
    show ?thesis
    proof (cases "p_enable ?op")
      case False
      have run: "issue_accept es ws [a..<READREG_WIDTH] s = issue_accept es ws [Suc a..<READREG_WIDTH] ?s"
        using get False by (simp add: upt)
      have rs: "accept_ready ?s" using r by (simp add: accept_ready_def)
      from Suc.hyps(1) [OF a(2) rs a(3)] obtain fin t b xs new where
        t: "issue_accept es ws [Suc a..<READREG_WIDTH] ?s = Some (fin, t)" "accept_end es ws (Suc a) ?s fin t b xs new" by blast
      note e = t(2) [unfolded accept_end_def]
      have "accepted es ws s (Suc a) b xs" "Suc a \<le> b" using e by (simp_all add: accepted_def)
      from accepted_step [OF this, of "[]"] False have "accepted es ws s a b xs" by simp
      with e have "accept_end es ws a s fin t b xs new" by (simp add: accept_end_def cong: if_cong)
      with run t(1) show ?thesis by auto
    next
      case True
      then have nf: "\<not> fifo_is_full (is_q s)" using go by simp
      obtain x where x: "issue_take es ws (is_regfile s) ?op = Some x" using issue_take_eq opok r True unfolding issue_input_ok_def by blast
      obtain ok i q where push: "ring_push x (is_q s) = (ok, i, q)" by (cases "ring_push x (is_q s)") auto
      have qe: "q = snd (fifo_push x (is_q s))" using push by (auto simp: ring_push_def Let_def split: prod.splits)
      have inv: "fifo_inv (is_q s)" using r by simp
      note pu = ring_push_ids [OF inv nf push]
      have qf: "qsize q = qsize (is_q s)" "pop_status_save q = pop_status_save (is_q s)" "iq_request_q q = iq_request_q (is_q s)"
        unfolding qe fifo_push_not_full [OF nf] by simp_all
      let ?t = "?s\<lparr>is_q := q\<rparr>"
      have run: "issue_accept es ws [a..<READREG_WIDTH] s = issue_accept es ws [Suc a..<READREG_WIDTH] ?t"
        using get True nf x by (simp add: upt qe)
      have rt: "accept_ready ?t" using r pu(2) qf by (simp add: accept_ready_def)
      from Suc.hyps(1) [OF a(2) rt a(3)] obtain fin t b xs new where
        t: "issue_accept es ws [Suc a..<READREG_WIDTH] ?t = Some (fin, t)" "accept_end es ws (Suc a) ?t fin t b xs new" by blast
      note e = t(2) [unfolded accept_end_def]
      have "accepted es ws s (Suc a) b xs" "Suc a \<le> b" using e by (simp_all add: accepted_def)
      from accepted_step [OF this, of "[x]"] True x have "accepted es ws s a b (x # xs)" by simp
      with e pu(4,6) qf have "accept_end es ws a s fin t b (x # xs) (i # new)" by (simp add: accept_end_def cong: if_cong)
      with run t(1) show ?thesis by auto
    qed
  qed
qed

section \<open>The cycle\<close>

text \<open>The state between two cycles.\<close>

definition issue_ok :: "issue_stage \<Rightarrow> bool" where
  "issue_ok s = (accept_ready s \<and> iq_request_q (is_q s) = [] \<and> (\<forall>x \<in> set (fifo_items (is_q s)). issue_item_ok x)
     \<and> units_ok s \<and> is_last_index s \<le> READREG_WIDTH)"

text \<open>The oldest instruction can go: it is ready, a unit of its class has room, and what must be
  committed before it is.\<close>

definition oldest_goes :: "execute_feedback_channel_t list \<Rightarrow> commit_feedback_pack_t \<Rightarrow> issue_stage \<Rightarrow> bool" where
  "oldest_goes es cf s = (fifo_items (is_q s) \<noteq> [] \<and> (is_waiting s \<longrightarrow> issue_waited cf s)
     \<and> goes_first es cf (fifo_is_empty (is_sb s)) (is_fifos s) (hd (fifo_items (is_q s))))"

text \<open>What is picked and sent in a cycle.\<close>

definition issue_sent :: "execute_feedback_channel_t list \<Rightarrow> execute_feedback_channel_t list \<Rightarrow> commit_feedback_pack_t
    \<Rightarrow> issue_stage \<Rightarrow> nat list \<Rightarrow> (issue_execute_pack_t \<times> nat) list \<Rightarrow> issue_stage \<Rightarrow> bool" where
  "issue_sent es ws cf s ids pts t = (
     (let xs = map (queue_item (is_q s)) ids in
        subseq ids (ring_ids (is_q s)) \<and> length ids \<le> ISSUE_WIDTH \<and> (\<forall>x \<in> set xs. pick_ok es cf (fifo_is_empty (is_sb s)) xs x)
        \<and> (oldest_goes es cf s \<longrightarrow> prefix [rptr (is_q s)] ids)
        \<and> list_all2 (\<lambda>x (p, k). issue_sends es ws x p) xs pts \<and> sent_to (is_fifos s) pts (is_fifos t)
        \<and> (if is_waiting s \<and> \<not> issue_waited cf s then ids = [] \<and> is_waiting t else is_waiting t = (\<exists>x \<in> set xs. is_serial x))
        \<and> is_waiting_rob_id t = (if (\<exists>x \<in> set xs. is_serial x) then p_rob_id (hd xs) else is_waiting_rob_id s)))"

lemma ring_id_item: "fifo_inv q \<Longrightarrow> i \<in> set (ring_ids q) \<Longrightarrow> queue_item q i \<in> set (fifo_items q)"
  using ring_ids_items [of q] by (metis imageI list.set_map queue_item_def)

lemma issue_output_sends:
  assumes "issue_ok s" "length es = length ws" "fifo_items (is_q s) \<noteq> [] \<longrightarrow> cf_enable cf"
  shows "\<exists>ids pts t. issue_output es ws cf s = Some (ids, t) \<and> issue_sent es ws cf s ids pts t \<and> units_ok t
    \<and> is_q t = is_q s \<and> is_in t = is_in s \<and> is_regfile t = is_regfile s \<and> is_sb t = is_sb s \<and> is_busy t = is_busy s
    \<and> is_last_index t = is_last_index s"
proof -
  have ok: "fifo_inv (is_q s)" "\<forall>x \<in> set (fifo_items (is_q s)). issue_item_ok x" "units_ok s"
    "\<forall>u. length (is_fifos s u) = unit_num u"
    using assms(1) by (simp_all add: issue_ok_def accept_ready_def units_ok_def)
  show ?thesis
  proof (cases "is_waiting s \<and> \<not> issue_waited cf s")
    case True
    then show ?thesis using ok(3)
      by (intro exI [of _ "[]"] exI [of _ "[]"] exI [of _ s]) (simp add: issue_output_def issue_sent_def oldest_goes_def)
  next
    case False
    let ?s = "s\<lparr>is_waiting := False\<rparr>"
    show ?thesis
    proof (cases "fifo_items (is_q s) = []")
      case True
      then have "issue_output es ws cf s = Some ([], ?s)"
        using False fifo_empty_iff [OF ok(1)] by (simp add: issue_output_def)
      then show ?thesis using ok(3) False True
        by (intro exI [of _ "[]"] exI [of _ "[]"] exI [of _ ?s]) (simp add: issue_sent_def units_ok_def oldest_goes_def)
    next
      case ne: False
      then have cf: "cf_enable cf" using assms(3) by blast
      let ?e = "fifo_is_empty (is_sb s)"
      from issue_select_picks [of ?s cf es] ok ne cf obtain l where
        l: "issue_select es cf ?s = Some l" "issue_picked es cf ?e (is_fifos s) (is_q s) l" by auto
      have p: "subseq (pk_ids l) (ring_ids (is_q s))" "pk_items l = map (queue_item (is_q s)) (pk_ids l)" "length (pk_ids l) \<le> ISSUE_WIDTH"
        "\<forall>x \<in> set (pk_items l). pick_ok es cf ?e (pk_items l) x" "\<forall>u. of_unit u (pk_items l) \<le> free_units (is_fifos s u)"
        using l(2) unfolding issue_picked_def picked_upto_def take_all [OF le_refl] by blast+
      have mem: "set (pk_items l) \<subseteq> set (fifo_items (is_q s))"
        using subseq_set [OF p(1)] ring_id_item [OF ok(1)] by (auto simp: p(2))
      then have items: "\<forall>x \<in> set (pk_items l). issue_item_ok x \<and> issue_ready es x \<and> (is_serial x \<longrightarrow> pk_items l = [x])"
        using ok(2) p(4) by (auto simp: pick_ok_def)
      have u: "units_ok ?s" using ok(3) by (simp add: units_ok_def)
      have room: "\<forall>u. of_unit u (pk_items l) \<le> free_units (is_fifos ?s u)" "\<not> is_waiting ?s" using p(5) by simp_all
      from issue_send_all [OF u items room(1) assms(2) room(2) cf] obtain t pts where
        t: "issue_send es ws cf (pk_items l) ?s = Some t" "list_all2 (\<lambda>x (p, k). issue_sends es ws x p) (pk_items l) pts"
          "sent_to (is_fifos s) pts (is_fifos t)" "units_ok t" "is_waiting t = (\<exists>x \<in> set (pk_items l). is_serial x)"
          "is_waiting_rob_id t = (if is_waiting t then p_rob_id (hd (pk_items l)) else is_waiting_rob_id s)"
          "is_q t = is_q s" "is_in t = is_in s" "is_regfile t = is_regfile s" "is_sb t = is_sb s" "is_busy t = is_busy s"
          "is_last_index t = is_last_index s"
        by (elim exE conjE) simp
      have run: "issue_output es ws cf s = Some (pk_ids l, t)"
        using False ne fifo_empty_iff [OF ok(1)] l(1) t(1) by (auto simp: issue_output_def Let_def)
      have first: "oldest_goes es cf s \<longrightarrow> prefix [rptr (is_q s)] (pk_ids l)"
        using issue_select_first [of ?s cf es l] ok ne cf l(1) by (simp add: oldest_goes_def)
      have sent: "issue_sent es ws cf s (pk_ids l) pts t"
        unfolding issue_sent_def Let_def p(2) [symmetric] using p t False first by simp blast
      from run sent t show ?thesis by blast
    qed
  qed
qed

text \<open>What a cycle does: it sends \<open>pts\<close> for the slots \<open>ids\<close> and takes in \<open>xs\<close>, the packet being used
  up to the index \<open>b\<close>.\<close>

definition issue_start :: "issue_stage \<Rightarrow> nat" where
  "issue_start s = (if is_busy s then is_last_index s else 0)"

definition issue_moved :: "execute_feedback_channel_t list \<Rightarrow> execute_feedback_channel_t list \<Rightarrow> commit_feedback_pack_t
    \<Rightarrow> issue_stage \<Rightarrow> nat list \<Rightarrow> (issue_execute_pack_t \<times> nat) list \<Rightarrow> nat \<Rightarrow> issue_queue_item_t list \<Rightarrow> issue_stage \<Rightarrow> bool" where
  "issue_moved es ws cf s ids pts b xs t = (issue_sent es ws cf s ids pts t
     \<and> fifo_items (is_q t) = map (\<lambda>i. woken es ws (queue_item (is_q s) i)) (filter (\<lambda>i. i \<notin> set ids) (ring_ids (is_q s))) @ xs
     \<and> accepted es ws s (issue_start s) b xs \<and> issue_start s \<le> b \<and> b \<le> READREG_WIDTH
     \<and> is_busy t = (b < READREG_WIDTH) \<and> (is_busy t \<longrightarrow> issue_start t = b \<and> p_enable (port_get (is_in s) ! b)
         \<and> length (fifo_items (is_q s)) + length xs = qsize (is_q s))
     \<and> is_in t = is_in s \<and> is_regfile t = is_regfile s \<and> is_sb t = is_sb s)"

definition taken :: "execute_feedback_channel_t list \<Rightarrow> execute_feedback_channel_t list \<Rightarrow> u32 regfile \<Rightarrow> issue_queue_item_t \<Rightarrow> issue_queue_item_t" where
  "taken es ws f x = (if p_valid x then woken es ws (load_src2 f (load_src1 f x)) else x)"

lemma accepted_all:
  assumes "accepted es ws s a b xs" "accept_ready s" "b \<le> READREG_WIDTH"
    and "\<And>y. y \<in> set (port_get (is_in s)) \<Longrightarrow> p_enable y \<Longrightarrow> issue_item_ok y \<Longrightarrow> P (taken es ws (is_regfile s) y)"
  shows "\<forall>x \<in> set xs. P x"
proof -
  have "\<forall>y \<in> set ys. p_enable y \<longrightarrow> issue_item_ok y \<and> P (taken es ws (is_regfile s) y)
      \<Longrightarrow> map_opt (issue_take es ws (is_regfile s)) (filter p_enable ys) = Some xs \<Longrightarrow> \<forall>x \<in> set xs. P x" for ys xs
  proof (induction ys arbitrary: xs)
    case (Cons y ys)
    show ?case
    proof (cases "p_enable y")
      case True
      then have y: "issue_item_ok y" "P (taken es ws (is_regfile s) y)" using Cons.prems(1) by simp_all
      have "regfile_inv (is_regfile s)" using assms(2) by (simp add: accept_ready_def)
      note take = issue_take_eq [OF this y(1), of es ws, folded taken_def]
      from Cons take True y(2) show ?thesis by (auto simp: bind_eq_Some_conv)
    qed (use Cons in auto)
  qed simp
  moreover have "\<forall>y \<in> set (map (\<lambda>i. port_get (is_in s) ! i) [a..<b]). p_enable y
      \<longrightarrow> issue_item_ok y \<and> P (taken es ws (is_regfile s) y)"
    using assms(2-4) by (auto simp: accept_ready_def issue_input_ok_def)
  ultimately show ?thesis using assms(1) unfolding accepted_def by blast
qed

lemma accepted_ok:
  assumes "accepted es ws s a b xs" "accept_ready s" "b \<le> READREG_WIDTH"
  shows "\<forall>x \<in> set xs. issue_item_ok x"
  using assms by (rule accepted_all) (auto simp: taken_def issue_take_ok)

lemma issue_cycle:
  assumes "issue_ok s" "length es = length ws" "fifo_items (is_q s) \<noteq> [] \<longrightarrow> cf_enable cf" "\<not> cf_flushing cf"
  shows "\<exists>ids pts b xs t. issue_run es ws cf s = Some (is_busy t, t) \<and> issue_moved es ws cf s ids pts b xs t \<and> issue_ok t"
proof -
  have ok: "fifo_inv (is_q s)" "\<not> pop_status_save (is_q s)" "regfile_inv (is_regfile s)" "length (port_get (is_in s)) = READREG_WIDTH"
    "\<forall>x \<in> set (port_get (is_in s)). issue_input_ok x" "iq_request_q (is_q s) = []" "is_last_index s \<le> READREG_WIDTH" "accept_ready s"
    "\<forall>x \<in> set (fifo_items (is_q s)). issue_item_ok x"
    using assms(1) by (simp_all add: issue_ok_def accept_ready_def)
  from issue_output_sends [OF assms(1-3)] obtain ids pts o1 where
    out: "issue_output es ws cf s = Some (ids, o1)" and sent: "issue_sent es ws cf s ids pts o1" and o1: "units_ok o1"
    "is_q o1 = is_q s" "is_in o1 = is_in s" "is_regfile o1 = is_regfile s" "is_sb o1 = is_sb s" "is_busy o1 = is_busy s"
    "is_last_index o1 = is_last_index s" by blast
  define q where "q = (is_q s)\<lparr>iq_request_q := wake_requests es ws ids (is_q s) (ring_ids (is_q s))\<rparr>"
  have wake: "issue_wake_all es ws ids (is_q s) = Some q" using issue_wake_all_eq [OF ok(1)] ok(6) by (simp add: q_def)
  have q: "fifo_inv q" "\<not> pop_status_save q" "ring_ids q = ring_ids (is_q s)" "fifo_items q = fifo_items (is_q s)" "qsize q = qsize (is_q s)"
    using ok(1,2) by (simp_all add: q_def fifo_inv_def ring_ids_def fifo_items_def)
  define o2 where "o2 = o1\<lparr>is_q := q, is_busy := True, is_last_index := issue_start s\<rparr>"
  have start: "(if \<not> is_busy (o1\<lparr>is_q := q\<rparr>) then (o1\<lparr>is_q := q\<rparr>)\<lparr>is_busy := True, is_last_index := 0\<rparr> else o1\<lparr>is_q := q\<rparr>) = o2"
    using o1 by (auto simp: o2_def issue_start_def)
  have r2: "accept_ready o2" using ok q(1,2) o1 by (simp add: o2_def accept_ready_def)
  have a: "issue_start s \<le> READREG_WIDTH" using ok(7) by (simp add: issue_start_def)
  from issue_accept_run [OF r2 a, of es ws] obtain fin o3 b xs new where
    run: "issue_accept es ws [issue_start s..<READREG_WIDTH] o2 = Some (fin, o3)" and e: "accept_end es ws (issue_start s) o2 fin o3 b xs new" by blast
  note e = e [unfolded accept_end_def]
  have b: "issue_start s \<le> b" "b \<le> READREG_WIDTH" "accepted es ws o2 (issue_start s) b xs" using e by blast+
  have q3: "fifo_inv (is_q o3)" "\<not> pop_status_save (is_q o3)" "ring_ids (is_q o3) = ring_ids q @ new" "fifo_items (is_q o3) = fifo_items q @ xs"
    "iq_request_q (is_q o3) = iq_request_q q" "qsize (is_q o3) = qsize q" using e by (simp_all add: o2_def)
  have fin: "if fin then b = READREG_WIDTH else b < READREG_WIDTH \<and> p_enable (port_get (is_in o2) ! b) \<and> fifo_is_full (is_q o3)"
    using e by blast
  have o3: "o3 = o2\<lparr>is_q := is_q o3, is_last_index := b, is_queue_full := is_queue_full o3\<rparr>" using e by blast
  have fr: "is_fifos o3 = is_fifos o1" "is_index o3 = is_index o1" "is_in o3 = is_in s" "is_regfile o3 = is_regfile s" "is_sb o3 = is_sb s"
    "is_waiting o3 = is_waiting o1" "is_waiting_rob_id o3 = is_waiting_rob_id o1" "is_last_index o3 = b" "is_busy o3"
    by (subst o3, simp add: o2_def o1)+
  define o4 where "o4 = (if fin then o3\<lparr>is_busy := False, is_last_index := 0\<rparr> else o3)"
  have inp: "issue_input es ws (o1\<lparr>is_q := q\<rparr>) = Some o4"
    unfolding issue_input_def Let_def start using run by (simp add: o2_def o4_def)
  have same: "is_q o4 = is_q o3" "is_busy o4 = (\<not> fin)" using fr by (simp_all add: o4_def)
  have rq: "iq_request_q (is_q o3) = wake_requests es ws ids (is_q s) (ring_ids (is_q s))" by (simp add: q3(5)) (simp add: q_def)
  have sub: "subseq ids (ring_ids (is_q s))" using sent by (simp add: issue_sent_def Let_def)
  from iq_after_cycle [OF ok(1) sub q3(1,2) _ _ rq, of new xs] q3(3,4,6) q(3,4,5) obtain g where
    g: "iq_sync (iq_compress_sync ids (is_q o3)) = Some g" "fifo_inv g" "\<not> pop_status_save g" "iq_request_q g = []" "qsize g = qsize (is_q o3)"
      "fifo_items g = map (\<lambda>i. woken es ws (queue_item (is_q s) i)) (filter (\<lambda>i. i \<notin> set ids) (ring_ids (is_q s))) @ xs" by auto
  let ?t = "o4\<lparr>is_q := g\<rparr>"
  have res: "issue_run es ws cf s = Some (is_busy ?t, ?t)"
    using assms(4) out wake inp g(1) by (simp add: issue_run_def o1(2) same(1))
  have acc: "accepted es ws s (issue_start s) b xs" using b(3) o1 by (simp add: accepted_def o2_def)
  have busy: "is_busy ?t = (b < READREG_WIDTH)" using fin same(2) by (auto split: if_splits)
  have sent': "issue_sent es ws cf s ids pts ?t"
    using sent fr by (simp add: issue_sent_def Let_def o4_def)
  have full: "\<not> fin \<Longrightarrow> length (fifo_items (is_q s)) + length xs = qsize (is_q s)"
    using fin ring_full_length [OF q3(1,2)] ring_ids_length [OF q3(1)] q3(4,6) q(4,5) by auto
  have moved: "issue_moved es ws cf s ids pts b xs ?t"
    unfolding issue_moved_def using sent' g(6) acc b(1,2) busy fin full fr same(2) o1(3)
    by (auto simp: o4_def issue_start_def o2_def)
  have items: "\<forall>x \<in> set (fifo_items g). issue_item_ok x"
    using ok(9) ring_id_item [OF ok(1)] accepted_ok [OF acc ok(8) b(2)] unfolding g(6) by (auto intro!: woken_ok)
  have "issue_ok ?t"
    using ok g(2-4) items o1(1) fr b(2) by (simp add: issue_ok_def accept_ready_def units_ok_def o4_def)
  with res moved show ?thesis by blast
qed

section \<open>Operands that are right, and none missed\<close>

definition item_view :: "(nat \<Rightarrow> u32) \<Rightarrow> ('z) readreg_issue_op_info_t_scheme \<Rightarrow> bool" where
  "item_view val x = ((p_valid x \<and> p_rs1_need_map x \<and> p_src1_loaded x \<longrightarrow> p_src1_value x = val (p_rs1_phy x))
     \<and> (p_valid x \<and> p_rs2_need_map x \<and> p_src2_loaded x \<longrightarrow> p_src2_value x = val (p_rs2_phy x)))"

definition both_loaded :: "('z) readreg_issue_op_info_t_scheme \<Rightarrow> bool" where
  "both_loaded x = (p_src1_loaded x \<and> p_src2_loaded x)"

lemma woken_view:
  assumes "\<forall>c \<in> set (es @ ws). fb_enable c \<longrightarrow> fb_value c = val (fb_phy_id c)" "item_view val x"
  shows "item_view val (woken es ws x)"
  using assms(2) by (rule woken_keeps)
    (use assms(1) in \<open>auto simp: item_view_def wake_src1_def wake_src2_def\<close>)

lemma take_view:
  assumes "reg_view val (es @ ws) f" "issue_item_ok x" "item_view val x"
  shows "item_view val (taken es ws f x)"
proof -
  have "item_view val (load_src2 f (load_src1 f x))"
    using assms by (auto simp: reg_view_def issue_item_ok_def item_view_def load_src1_def load_src2_def)
  with assms woken_view show ?thesis by (auto simp: taken_def reg_view_def)
qed

lemma sends_view:
  assumes "\<forall>c \<in> set (es @ ws). fb_enable c \<longrightarrow> fb_value c = val (fb_phy_id c)" "item_view val x"
    and "issue_item_ok x" "issue_ready es x" "length es = length ws" "issue_sends es ws x p"
  shows "item_view val p \<and> both_loaded p"
proof -
  from assms(6) obtain y where y: "issue_operands es ws x = Some y" "issue_pack y = Some p" by (auto simp: issue_sends_def)
  have "both_loaded y" using y(1) by (auto simp: issue_operands_def both_loaded_def Let_def split: if_splits)
  moreover have "item_view val y"
  proof -
    have f: "issue_forward phy es ws = Some v \<Longrightarrow> v = val phy" for phy v by (rule forward_value [OF assms(1)])
    show ?thesis using y(1) assms(2)
      by (auto simp: issue_operands_def item_view_def Let_def dest: f split: if_splits option.splits)
  qed
  moreover have "item_view val p = item_view val y \<and> both_loaded p = both_loaded y"
    using y(2) by (auto simp: issue_pack_def item_view_def both_loaded_def Let_def bind_eq_Some_conv readreg_issue_op_info_t.defs split: if_splits)
  ultimately show ?thesis by simp
qed

text \<open>An operand the instruction still waits for is in no register and on no channel.\<close>

definition waits :: "u32 regfile \<Rightarrow> issue_queue_item_t \<Rightarrow> bool" where
  "waits f x = ((\<not> p_src1_loaded x \<longrightarrow> \<not> bm_bit (reg_data_valid f) (p_rs1_phy x))
     \<and> (\<not> p_src2_loaded x \<longrightarrow> \<not> bm_bit (reg_data_valid f) (p_rs2_phy x)))"

definition heard :: "nat \<Rightarrow> execute_feedback_channel_t \<Rightarrow> bool" where
  "heard phy c = (fb_enable c \<and> fb_phy_id c = phy)"

lemma wake_channel_same:
  "p_rs1_phy (fst (wake_channel c r)) = p_rs1_phy (fst r)" "p_rs2_phy (fst (wake_channel c r)) = p_rs2_phy (fst r)"
  "p_rs1_need_map (fst (wake_channel c r)) = p_rs1_need_map (fst r)" "p_rs2_need_map (fst (wake_channel c r)) = p_rs2_need_map (fst r)"
  by (cases r; simp add: wake_channel_def wake_src1_def wake_src2_def)+

lemma wake_channel_missed:
  "p_rs1_need_map (fst r) \<Longrightarrow> \<not> p_src1_loaded (fst (wake_channel c r)) \<Longrightarrow> \<not> p_src1_loaded (fst r) \<and> \<not> heard (p_rs1_phy (fst r)) c"
  "p_rs2_need_map (fst r) \<Longrightarrow> \<not> p_src2_loaded (fst (wake_channel c r)) \<Longrightarrow> \<not> p_src2_loaded (fst r) \<and> \<not> heard (p_rs2_phy (fst r)) c"
  by (cases r; auto simp: wake_channel_def wake_src1_def wake_src2_def heard_def split: if_splits)+

lemma woken_missed:
  assumes "length es = length ws"
  shows "p_rs1_need_map x \<Longrightarrow> \<not> p_src1_loaded (woken es ws x) \<Longrightarrow> \<not> p_src1_loaded x \<and> (\<forall>c \<in> set (es @ ws). \<not> heard (p_rs1_phy x) c)"
    and "p_rs2_need_map x \<Longrightarrow> \<not> p_src2_loaded (woken es ws x) \<Longrightarrow> \<not> p_src2_loaded x \<and> (\<forall>c \<in> set (es @ ws). \<not> heard (p_rs2_phy x) c)"
    and "p_rs1_phy (woken es ws x) = p_rs1_phy x" "p_rs2_phy (woken es ws x) = p_rs2_phy x"
proof -
  let ?F = "\<lambda>es ws r. fst (fold (\<lambda>(e, w) r. wake_channel w (wake_channel e r)) (zip es ws) r)"
  have "(p_rs1_need_map (fst r) \<and> \<not> p_src1_loaded (?F es ws r) \<longrightarrow> \<not> p_src1_loaded (fst r) \<and> (\<forall>c \<in> set (es @ ws). \<not> heard (p_rs1_phy (fst r)) c))
    \<and> (p_rs2_need_map (fst r) \<and> \<not> p_src2_loaded (?F es ws r) \<longrightarrow> \<not> p_src2_loaded (fst r) \<and> (\<forall>c \<in> set (es @ ws). \<not> heard (p_rs2_phy (fst r)) c))
    \<and> p_rs1_phy (?F es ws r) = p_rs1_phy (fst r) \<and> p_rs2_phy (?F es ws r) = p_rs2_phy (fst r)" for r
    using assms
  proof (induction es ws arbitrary: r rule: list_induct2)
    case (Cons e es w ws)
    let ?r = "wake_channel w (wake_channel e r)"
    note ih = Cons.IH [of ?r, unfolded wake_channel_same]
    show ?case using ih wake_channel_missed [of r e] wake_channel_missed [of "wake_channel e r" w, unfolded wake_channel_same] by auto
  qed simp
  note all = this [of "(x, False)", unfolded fst_conv]
  show "p_rs1_need_map x \<Longrightarrow> \<not> p_src1_loaded (woken es ws x) \<Longrightarrow> \<not> p_src1_loaded x \<and> (\<forall>c \<in> set (es @ ws). \<not> heard (p_rs1_phy x) c)"
    "p_rs2_need_map x \<Longrightarrow> \<not> p_src2_loaded (woken es ws x) \<Longrightarrow> \<not> p_src2_loaded x \<and> (\<forall>c \<in> set (es @ ws). \<not> heard (p_rs2_phy x) c)"
    "p_rs1_phy (woken es ws x) = p_rs1_phy x" "p_rs2_phy (woken es ws x) = p_rs2_phy x"
    using all unfolding woken_def issue_wake_def by blast+
qed

lemma taken_waits:
  assumes "length es = length ws" "issue_item_ok x" "p_valid x \<or> both_loaded x"
    and "\<And>r. r < PHY_REG_NUM \<Longrightarrow> bm_bit (reg_data_valid g) r \<Longrightarrow> bm_bit (reg_data_valid f) r \<or> (\<exists>c \<in> set (es @ ws). heard r c)"
  shows "waits g (taken es ws f x)"
proof (cases "p_valid x")
  case True
  let ?y = "load_src2 f (load_src1 f x)"
  have y: "p_rs1_phy ?y = p_rs1_phy x" "p_rs2_phy ?y = p_rs2_phy x" "p_rs1_need_map ?y = p_rs1_need_map x" "p_rs2_need_map ?y = p_rs2_need_map x"
    "p_rs1_need_map x \<Longrightarrow> \<not> p_src1_loaded ?y \<Longrightarrow> \<not> bm_bit (reg_data_valid f) (p_rs1_phy x)"
    "p_rs2_need_map x \<Longrightarrow> \<not> p_src2_loaded ?y \<Longrightarrow> \<not> bm_bit (reg_data_valid f) (p_rs2_phy x)"
    by (auto simp: load_src1_def load_src2_def split: if_splits)
  have z: "issue_item_ok (woken es ws ?y)" using assms(2) by (rule issue_take_ok)
  have w: "p_rs1_need_map (woken es ws ?y) = p_rs1_need_map x" "p_rs2_need_map (woken es ws ?y) = p_rs2_need_map x"
    by (rule woken_keeps [of "\<lambda>z. p_rs1_need_map z = p_rs1_need_map x"]; simp add: y wake_src1_def wake_src2_def)
      (rule woken_keeps [of "\<lambda>z. p_rs2_need_map z = p_rs2_need_map x"]; simp add: y wake_src1_def wake_src2_def)
  note m = woken_missed [OF assms(1), of ?y, unfolded y(1-4)]
  have "\<not> bm_bit (reg_data_valid g) (p_rs1_phy x)" if l: "\<not> p_src1_loaded (woken es ws ?y)"
  proof -
    have n: "p_rs1_need_map x" using z l w(1) by (simp add: issue_item_ok_def)
    then have "p_rs1_phy x < PHY_REG_NUM" using assms(2) by (simp add: issue_item_ok_def)
    with assms(4) m(1) [OF n l] y(5) [OF n] show ?thesis by blast
  qed
  moreover have "\<not> bm_bit (reg_data_valid g) (p_rs2_phy x)" if l: "\<not> p_src2_loaded (woken es ws ?y)"
  proof -
    have n: "p_rs2_need_map x" using z l w(2) by (simp add: issue_item_ok_def)
    then have "p_rs2_phy x < PHY_REG_NUM" using assms(2) by (simp add: issue_item_ok_def)
    with assms(4) m(2) [OF n l] y(6) [OF n] show ?thesis by blast
  qed
  ultimately show ?thesis using True by (simp add: waits_def taken_def m(3,4))
qed (use assms(3) in \<open>simp add: taken_def waits_def both_loaded_def\<close>)

lemma woken_waits:
  assumes "length es = length ws" "issue_item_ok x" "waits f x"
    and "\<And>r. r < PHY_REG_NUM \<Longrightarrow> bm_bit (reg_data_valid g) r \<Longrightarrow> bm_bit (reg_data_valid f) r \<or> (\<exists>c \<in> set (es @ ws). heard r c)"
  shows "waits g (woken es ws x)"
proof -
  note m = woken_missed [OF assms(1), of x]
  have u: "p_src1_loaded x \<Longrightarrow> p_src1_loaded (woken es ws x)" "p_src2_loaded x \<Longrightarrow> p_src2_loaded (woken es ws x)"
    by (erule woken_keeps; simp add: wake_src1_def wake_src2_def)+
  have "\<not> p_src1_loaded x \<Longrightarrow> p_rs1_need_map x \<and> p_rs1_phy x < PHY_REG_NUM" "\<not> p_src2_loaded x \<Longrightarrow> p_rs2_need_map x \<and> p_rs2_phy x < PHY_REG_NUM"
    using assms(2) by (auto simp: issue_item_ok_def)
  with m u assms(3,4) show ?thesis unfolding waits_def by metis
qed

end
