(* ===== verification/Issue_Stage.thy ===== *)
theory Issue_Stage
  imports Issue_Cycle
begin

text \<open>
  The correctness of the issue stage: what it picks, what it sends with which operands, that no
  result is missed, and that the oldest instruction is never held back.
\<close>

text \<open>What the register read stage hands over is what the issue stage takes.\<close>

lemma readreg_feeds_issue:
  assumes "operands_ok val avail r s" "op_regs_ok r" "p_valid r \<and> p_op_unit r = Unit_lsu \<longrightarrow> as_lsu (p_sub_op r) \<noteq> None" "p_enable s"
  shows "issue_item_ok s \<and> item_view val s \<and> (p_valid s \<or> both_loaded s)"
proof -
  have t: "rename_readreg_op_info_t.truncate s = r" using assms(1) by (simp add: operands_ok_def)
  have f: "p_enable r = p_enable s" "p_valid r = p_valid s" "p_op_unit r = p_op_unit s" "p_sub_op r = p_sub_op s"
    "p_rs1_need_map r = p_rs1_need_map s" "p_rs1_phy r = p_rs1_phy s" "p_rs2_need_map r = p_rs2_need_map s" "p_rs2_phy r = p_rs2_phy s"
    unfolding t [symmetric] by (simp_all add: rename_readreg_op_info_t.defs)
  note o = assms(1) [unfolded operands_ok_def f]
  show ?thesis
  proof (cases "p_valid s")
    case True
    with o assms(4) have "p_src1_loaded s = (p_rs1_need_map s \<longrightarrow> avail (p_rs1_phy s))"
      "p_src2_loaded s = (p_rs2_need_map s \<longrightarrow> avail (p_rs2_phy s))"
      "p_src1_loaded s \<and> p_rs1_need_map s \<longrightarrow> p_src1_value s = val (p_rs1_phy s)"
      "p_src2_loaded s \<and> p_rs2_need_map s \<longrightarrow> p_src2_value s = val (p_rs2_phy s)"
      by (simp_all add: operand_value_def)
    with True assms(2-4) show ?thesis by (auto simp: issue_item_ok_def item_view_def op_regs_ok_def f)
  next
    case False
    with o have "both_loaded s" by (auto simp: both_loaded_def)
    with False assms(2,4) show ?thesis by (simp add: both_loaded_def issue_item_ok_def item_view_def op_regs_ok_def f)
  qed
qed

text \<open>C14: the picked instructions stand in the queue in this order, at most two, all ready; no
  instruction passes one that must run alone and no memory operation passes another; one that must
  run alone is picked by itself when everything before it has been committed, a fence as the first,
  when moreover the store buffer is empty; and each class has a free unit for all of them.\<close>

theorem issue_selects_in_order:
  assumes "fifo_inv (is_q s)" "fifo_items (is_q s) \<noteq> []" "cf_enable cf" "\<forall>u. length (is_fifos s u) = unit_num u"
  shows "\<exists>l. issue_select es cf s = Some l \<and> subseq (pk_ids l) (ring_ids (is_q s)) \<and> length (pk_ids l) \<le> ISSUE_WIDTH
    \<and> pk_items l = map (queue_item (is_q s)) (pk_ids l)
    \<and> (\<forall>j < length (ring_ids (is_q s)). ring_ids (is_q s) ! j \<in> set (pk_ids l) \<longrightarrow> in_order (is_q s) j)
    \<and> (\<forall>x \<in> set (pk_items l). issue_ready es x
        \<and> (is_serial x \<longrightarrow> pk_items l = [x] \<and> cf_next_handle_rob_id cf = p_rob_id x)
        \<and> (p_op x = Op_fence \<longrightarrow> fifo_is_empty (is_sb s) \<and> x = hd (pk_items l) \<and> cf_next_handle_rob_id cf = p_rob_id x))
    \<and> (\<forall>u. of_unit u (pk_items l) \<le> free_units (is_fifos s u))"
  using issue_select_picks [OF assms, of es]
  by (auto simp: issue_picked_def picked_upto_def pick_ok_def)

text \<open>C15: a cycle without a flush sends the packets of the picked instructions, each to a queue of
  its class that had room, removes exactly these from the issue queue, keeps the others in their
  order with the operands that have arrived, and appends the instructions that come in, from where
  the last cycle stopped to the first for which there is no room; the stage is busy, and stalls the
  stage before, when such a one is left, and continues with it.\<close>

theorem issue_run_moves:
  assumes "issue_ok s" "length es = length ws" "fifo_items (is_q s) \<noteq> [] \<longrightarrow> cf_enable cf" "\<not> cf_flushing cf"
  shows "\<exists>ids pts b xs t. issue_run es ws cf s = Some (is_busy t, t) \<and> issue_moved es ws cf s ids pts b xs t \<and> issue_ok t"
  by (rule issue_cycle [OF assms])

text \<open>C16: under any valuation of the physical registers that the register file and the channels
  agree with, an instruction is sent with both operands and the right values, and the operands that
  the instructions of the queue hold stay right.\<close>

theorem issue_run_operands:
  assumes "issue_ok s" "length es = length ws" "fifo_items (is_q s) \<noteq> [] \<longrightarrow> cf_enable cf" "\<not> cf_flushing cf"
    and "reg_view val (es @ ws) (is_regfile s)" "\<forall>x \<in> set (fifo_items (is_q s)). item_view val x"
    and "\<forall>x \<in> set (port_get (is_in s)). p_enable x \<longrightarrow> item_view val x"
  shows "\<exists>ids pts b xs t. issue_run es ws cf s = Some (is_busy t, t) \<and> issue_moved es ws cf s ids pts b xs t
    \<and> (\<forall>(p, k) \<in> set pts. item_view val p \<and> both_loaded p) \<and> (\<forall>x \<in> set (fifo_items (is_q t)). item_view val x)"
proof -
  from issue_cycle [OF assms(1-4)] obtain ids pts b xs t where
    t: "issue_run es ws cf s = Some (is_busy t, t)" "issue_moved es ws cf s ids pts b xs t" by blast
  have inv: "fifo_inv (is_q s)" "accept_ready s" "\<forall>x \<in> set (fifo_items (is_q s)). issue_item_ok x"
    using assms(1) by (simp_all add: issue_ok_def accept_ready_def)
  have ch: "\<forall>c \<in> set (es @ ws). fb_enable c \<longrightarrow> fb_value c = val (fb_phy_id c)" using assms(5) by (simp add: reg_view_def)
  have m: "issue_sent es ws cf s ids pts t" "accepted es ws s (issue_start s) b xs" "b \<le> READREG_WIDTH"
    "fifo_items (is_q t) = map (\<lambda>i. woken es ws (queue_item (is_q s) i)) (filter (\<lambda>i. i \<notin> set ids) (ring_ids (is_q s))) @ xs"
    using t(2) by (simp_all add: issue_moved_def)
  have sent: "subseq ids (ring_ids (is_q s))" "\<forall>x \<in> set (map (queue_item (is_q s)) ids). issue_ready es x"
    "list_all2 (\<lambda>x (p, k). issue_sends es ws x p) (map (queue_item (is_q s)) ids) pts"
    using m(1) by (auto simp: issue_sent_def Let_def pick_ok_def)
  have "item_view val p \<and> both_loaded p" if "(p, k) \<in> set pts" for p k
  proof -
    from that sent(3) obtain i where i: "i \<in> set ids" "issue_sends es ws (queue_item (is_q s) i) p"
      by (fastforce simp: list_all2_conv_all_nth in_set_conv_nth)
    have mem: "queue_item (is_q s) i \<in> set (fifo_items (is_q s))" using ring_id_item [OF inv(1)] subseq_set [OF sent(1)] i(1) by blast
    show ?thesis by (rule sends_view [OF ch _ _ _ assms(2) i(2)]) (use mem assms(6) inv(3) sent(2) i(1) in auto)
  qed
  moreover have "\<forall>x \<in> set xs. item_view val x"
    using m(2) inv(2) m(3) by (rule accepted_all) (use take_view [OF assms(5)] assms(7) in blast)
  then have "\<forall>x \<in> set (fifo_items (is_q t)). item_view val x"
    using assms(6) ring_id_item [OF inv(1)] unfolding m(4) by (auto intro!: woken_view [OF ch])
  ultimately show ?thesis using t by blast
qed

text \<open>C17: no result is missed.  If every operand that an instruction of the queue still waits for is
  in no register, then this holds again after the cycle, in any register file that has become valid
  only where a channel announced it.\<close>

theorem issue_misses_no_result:
  assumes "issue_ok s" "length es = length ws" "fifo_items (is_q s) \<noteq> [] \<longrightarrow> cf_enable cf" "\<not> cf_flushing cf"
    and "\<forall>x \<in> set (fifo_items (is_q s)). waits (is_regfile s) x" "\<forall>x \<in> set (port_get (is_in s)). p_enable x \<longrightarrow> p_valid x \<or> both_loaded x"
    and "\<forall>r < PHY_REG_NUM. bm_bit (reg_data_valid g) r \<longrightarrow> bm_bit (reg_data_valid (is_regfile s)) r \<or> (\<exists>c \<in> set (es @ ws). heard r c)"
  shows "\<exists>t. issue_run es ws cf s = Some (is_busy t, t) \<and> (\<forall>x \<in> set (fifo_items (is_q t)). waits g x)"
proof -
  from issue_cycle [OF assms(1-4)] obtain ids pts b xs t where
    t: "issue_run es ws cf s = Some (is_busy t, t)" "issue_moved es ws cf s ids pts b xs t" by blast
  have inv: "fifo_inv (is_q s)" "accept_ready s" "\<forall>x \<in> set (fifo_items (is_q s)). issue_item_ok x"
    using assms(1) by (simp_all add: issue_ok_def accept_ready_def)
  have m: "accepted es ws s (issue_start s) b xs" "b \<le> READREG_WIDTH"
    "fifo_items (is_q t) = map (\<lambda>i. woken es ws (queue_item (is_q s) i)) (filter (\<lambda>i. i \<notin> set ids) (ring_ids (is_q s))) @ xs"
    using t(2) by (simp_all add: issue_moved_def)
  have new: "\<forall>x \<in> set xs. waits g x"
    using m(1) inv(2) m(2) by (rule accepted_all) (rule taken_waits [OF assms(2)]; use assms(6,7) in blast)
  have old: "waits g (woken es ws (queue_item (is_q s) i))" if "i \<in> set (ring_ids (is_q s))" for i
    using woken_waits [OF assms(2), of _ "is_regfile s" g] ring_id_item [OF inv(1) that] inv(3) assms(5,7) by blast
  have "\<forall>x \<in> set (fifo_items (is_q t)). waits g x" unfolding m(3) using new old by auto
  with t(1) show ?thesis by blast
qed

text \<open>C18: the oldest instruction is not held back: in the cycle in which its operands are there, a
  unit of its class has room and what it must wait for is committed, it is sent to such a unit.\<close>

theorem issue_sends_oldest:
  assumes "issue_ok s" "length es = length ws" "cf_enable cf" "\<not> cf_flush cf" "oldest_goes es cf s"
  shows "\<exists>t p k pts. issue_run es ws cf s = Some (is_busy t, t) \<and> issue_sends es ws (hd (fifo_items (is_q s))) p
    \<and> sent_to (is_fifos s) ((p, k) # pts) (is_fifos t)"
proof -
  have nf: "\<not> cf_flushing cf" using assms(4) by (simp add: cf_flushing_def)
  from issue_cycle [OF assms(1,2) _ nf] assms(3) obtain ids pts b xs t where
    t: "issue_run es ws cf s = Some (is_busy t, t)" "issue_moved es ws cf s ids pts b xs t" by blast
  have inv: "fifo_inv (is_q s)" "fifo_items (is_q s) \<noteq> []"
    using assms(1,5) by (simp_all add: issue_ok_def accept_ready_def oldest_goes_def)
  have ne: "ring_ids (is_q s) \<noteq> []" using inv ring_ids_items by fastforce
  have sent: "issue_sent es ws cf s ids pts t" using t(2) by (simp add: issue_moved_def)
  have "prefix [rptr (is_q s)] ids" "list_all2 (\<lambda>x (p, k). issue_sends es ws x p) (map (queue_item (is_q s)) ids) pts"
    "sent_to (is_fifos s) pts (is_fifos t)"
    using sent assms(5) unfolding issue_sent_def Let_def by blast+
  moreover have "queue_item (is_q s) (rptr (is_q s)) = hd (fifo_items (is_q s))"
    using ring_ids_hd [OF inv(1) ne] ring_ids_items [OF inv(1)] ne by (simp add: queue_item_def hd_map hd_conv_nth)
  ultimately obtain p k ps where "issue_sends es ws (hd (fifo_items (is_q s))) p" "sent_to (is_fifos s) ((p, k) # ps) (is_fifos t)"
    by (auto simp: prefix_def list_all2_Cons1)
  with t(1) show ?thesis by blast
qed

section \<open>A concrete cycle\<close>

text \<open>Of the two additions in the queue one finds its operand on a channel; another one comes in.\<close>

definition issue_demo_op :: "nat \<Rightarrow> issue_queue_item_t" where
  "issue_demo_op r = readreg_zero\<lparr>p_enable := True, p_valid := True, p_op_unit := Unit_alu, p_op := Op_add,
     p_rs1_need_map := True, p_rs1_phy := r, p_src2_loaded := True\<rparr>"

definition issue_demo :: issue_stage where
  "issue_demo = \<lparr>is_in = port_new (issue_demo_op 9 # replicate 3 readreg_zero),
     is_fifos = (\<lambda>u. replicate (unit_num u) (fifo_new 2 (exec_demo (Alu_op Alu_add) 0 0))),
     is_regfile = regfile_new 0 128,
     is_sb = fifo.extend (fifo_new 16 (store_buffer_item_t.make False False 0 0 0 0 0)) (store_buffer.fields []),
     is_q = \<lparr>buffer = [issue_demo_op 9, issue_demo_op 12, readreg_zero, readreg_zero], qsize = 4, wptr = 2, wstage = False,
       rptr = 0, rstage = False, pop_status_save = False, rptr_saved = 0, rstage_saved = False, iq_request_q = []\<rparr>,
     is_busy = False, is_waiting = False, is_waiting_rob_id = 0, is_last_index = 0, is_index = (\<lambda>_. 0),
     is_queue_full = 0, is_fifo_full = 0\<rparr>"

definition issue_demo_es :: "execute_feedback_channel_t list" where
  "issue_demo_es = [\<lparr>fb_enable = True, fb_phy_id = 9, fb_value = 77\<rparr>]"

definition issue_demo_cf :: commit_feedback_pack_t where
  "issue_demo_cf = commit_feedback_zero\<lparr>cf_enable := True\<rparr>"

lemma issue_demo_op_simps [simp]:
  "p_enable (issue_demo_op r)" "p_valid (issue_demo_op r)" "p_op_unit (issue_demo_op r) = Unit_alu" "p_op (issue_demo_op r) = Op_add"
  "p_rs1_need_map (issue_demo_op r)" "p_rs1_phy (issue_demo_op r) = r" "p_src2_loaded (issue_demo_op r)" "\<not> p_src1_loaded (issue_demo_op r)"
  "\<not> p_rs2_need_map (issue_demo_op r)"
  by (simp_all add: issue_demo_op_def readreg_zero_def execute_wb_zero_def readreg_issue_op_info_t.defs)

lemma readreg_zero_simps [simp]: "\<not> p_enable readreg_zero" "\<not> p_src1_loaded readreg_zero" "\<not> p_rs1_need_map readreg_zero" "\<not> p_rs2_need_map readreg_zero"
  by (simp_all add: readreg_zero_def execute_wb_zero_def readreg_issue_op_info_t.defs)

lemma unit_num_pos: "0 < unit_num u"
  by (cases u) simp_all

lemma issue_demo_items: "fifo_items (is_q issue_demo) = [issue_demo_op 9, issue_demo_op 12]"
  by (simp add: issue_demo_def fifo_items_def ring_defs numeral_2_eq_2)

lemma issue_demo_regfile: "regfile_inv (is_regfile issue_demo)" "i < 128 \<Longrightarrow> \<not> bm_bit (reg_data_valid (is_regfile issue_demo)) i"
  by (simp_all add: issue_demo_def regfile_new_def regfile_inv_def PHY_REG_NUM_def bm_bit_def bm_words_def)

lemma issue_demo_ok: "issue_ok issue_demo" "cf_enable issue_demo_cf" "\<not> cf_flushing issue_demo_cf" "\<not> cf_flush issue_demo_cf"
  "length issue_demo_es = length [feedback_zero_channel]"
proof -
  have q: "fifo_inv (is_q issue_demo)" by (simp add: issue_demo_def fifo_inv_def ring_ok_def)
  have op: "issue_item_ok (issue_demo_op 9)" "issue_item_ok (issue_demo_op 12)" by (simp_all add: issue_item_ok_def PHY_REG_NUM_def)
  have r: "accept_ready issue_demo" unfolding accept_ready_def
    using q issue_demo_regfile(1) op by (simp add: issue_demo_def port_get_def port_new_def READREG_WIDTH_def issue_input_ok_def)
  have u: "units_ok issue_demo" using unit_num_pos by (simp add: units_ok_def issue_demo_def fifo_new_inv)
  have l: "iq_request_q (is_q issue_demo) = []" "is_last_index issue_demo \<le> READREG_WIDTH" by (simp_all add: issue_demo_def)
  show "issue_ok issue_demo" unfolding issue_ok_def issue_demo_items using r u l op by simp
  show "cf_enable issue_demo_cf" "\<not> cf_flushing issue_demo_cf" "\<not> cf_flush issue_demo_cf" "length issue_demo_es = length [feedback_zero_channel]"
    by (simp_all add: issue_demo_cf_def cf_flushing_def commit_feedback_zero_def issue_demo_es_def)
qed

theorem issue_selects_in_order_witness:
  "\<exists>l. issue_select issue_demo_es issue_demo_cf issue_demo = Some l \<and> length (pk_ids l) \<le> ISSUE_WIDTH
    \<and> (\<forall>x \<in> set (pk_items l). issue_ready issue_demo_es x)"
proof -
  have i: "fifo_inv (is_q issue_demo)" "\<forall>u. length (is_fifos issue_demo u) = unit_num u" "fifo_items (is_q issue_demo) \<noteq> []"
    using issue_demo_ok(1) by (simp_all add: issue_ok_def accept_ready_def units_ok_def issue_demo_items)
  from issue_selects_in_order [OF i(1,3) issue_demo_ok(2) i(2), of issue_demo_es] show ?thesis by blast
qed

theorem issue_run_moves_witness:
  "\<exists>ids pts b xs t. issue_run issue_demo_es [feedback_zero_channel] issue_demo_cf issue_demo = Some (is_busy t, t)
    \<and> issue_moved issue_demo_es [feedback_zero_channel] issue_demo_cf issue_demo ids pts b xs t \<and> issue_ok t"
  by (rule issue_run_moves [OF issue_demo_ok(1,5) _ issue_demo_ok(3)]) (simp add: issue_demo_ok(2))

theorem issue_run_operands_witness:
  "\<exists>ids pts b xs t. issue_run issue_demo_es [feedback_zero_channel] issue_demo_cf issue_demo = Some (is_busy t, t)
    \<and> issue_moved issue_demo_es [feedback_zero_channel] issue_demo_cf issue_demo ids pts b xs t
    \<and> (\<forall>(p, k) \<in> set pts. item_view (\<lambda>_. 77) p \<and> both_loaded p) \<and> (\<forall>x \<in> set (fifo_items (is_q t)). item_view (\<lambda>_. 77) x)"
proof -
  have v: "reg_view (\<lambda>_. 77) (issue_demo_es @ [feedback_zero_channel]) (is_regfile issue_demo)"
    using issue_demo_regfile(2) by (simp add: reg_view_def issue_demo_es_def feedback_zero_channel_def PHY_REG_NUM_def)
  show ?thesis
    by (rule issue_run_operands [OF issue_demo_ok(1,5) _ issue_demo_ok(3) v])
      (simp_all add: issue_demo_ok(2) issue_demo_items item_view_def, simp add: issue_demo_def port_get_def port_new_def)
qed

theorem issue_misses_no_result_witness:
  "\<exists>t. issue_run issue_demo_es [feedback_zero_channel] issue_demo_cf issue_demo = Some (is_busy t, t)
    \<and> (\<forall>x \<in> set (fifo_items (is_q t)). waits (is_regfile issue_demo) x)"
proof -
  have w: "\<forall>x \<in> set (fifo_items (is_q issue_demo)). waits (is_regfile issue_demo) x"
    using issue_demo_regfile(2) [of 9] issue_demo_regfile(2) [of 12] by (simp add: issue_demo_items waits_def)
  have p: "\<forall>x \<in> set (port_get (is_in issue_demo)). p_enable x \<longrightarrow> p_valid x \<or> both_loaded x"
    by (simp add: issue_demo_def port_get_def port_new_def)
  show ?thesis
    by (rule issue_misses_no_result [OF issue_demo_ok(1,5) _ issue_demo_ok(3) w p]) (simp_all add: issue_demo_ok(2))
qed

theorem issue_sends_oldest_witness:
  "\<exists>t p k pts. issue_run issue_demo_es [feedback_zero_channel] issue_demo_cf issue_demo = Some (is_busy t, t)
    \<and> issue_sends issue_demo_es [feedback_zero_channel] (issue_demo_op 9) p
    \<and> sent_to (is_fifos issue_demo) ((p, k) # pts) (is_fifos t)"
proof -
  have "\<not> fifo_is_full (is_fifos issue_demo Unit_alu ! 0)" by (simp add: issue_demo_def fifo_new_def fifo_is_full_def)
  then have "goes_first issue_demo_es issue_demo_cf (fifo_is_empty (is_sb issue_demo)) (is_fifos issue_demo) (issue_demo_op 9)"
    by (auto simp: goes_first_def issue_ready_def channel_ready_def issue_demo_es_def is_serial_def intro!: exI [of _ 0])
  then have o: "oldest_goes issue_demo_es issue_demo_cf issue_demo" unfolding oldest_goes_def issue_demo_items by (simp add: issue_demo_def)
  from issue_sends_oldest [OF issue_demo_ok(1,5,2,4) o] show ?thesis by (simp add: issue_demo_items)
qed

end
