(* ===== verification/Fetch.thy ===== *)
theory Fetch
  imports Decode_Stage Store_Buffer Execute_Bru Walk
begin

text \<open>
  \<open>pipeline/fetch.cpp\<close>: the fetch stage.  A cycle reads up to four instructions from the bus, predicts
  the first jump among them and puts them into the queue to the decode stage.
\<close>

definition FETCH_WIDTH :: nat where "FETCH_WIDTH = 4"

record fetch_stage =
  fe_bus :: bus
  fe_fifo :: "fetch_decode_pack_t fifo"
  fe_cpbuf :: checkpoint_buffer
  fe_bp :: branch_predictor
  fe_sb :: store_buffer
  fe_init_pc :: u32
  fe_pc :: u32
  fe_jump_wait :: bool
  fe_wait_first :: bool
  fe_cpbuf_full :: u64
  fe_fifo_full :: u64
  fe_not_full :: u64

definition fetch_reset :: "fetch_stage \<Rightarrow> fetch_stage" where
  "fetch_reset s = s\<lparr>fe_pc := fe_init_pc s, fe_jump_wait := False, fe_wait_first := True\<rparr>"

definition fetch_decode_zero :: fetch_decode_pack_t where
  "fetch_decode_zero = \<lparr>fd_pc = 0, fd_value = 0, fd_enable = False, fd_has_exception = False,
     fd_exception_id = instruction_address_misaligned, fd_exception_value = 0, fd_predicted = False, fd_predicted_jump = False,
     fd_predicted_next_pc = 0, fd_checkpoint_id_valid = False, fd_checkpoint_id = 0\<rparr>"

text \<open>The words of the group are also read for the signal trace, whatever the alignment of the
  address, twice, and once more when a device answers at the address.\<close>

definition fetch_peek :: "u32 \<Rightarrow> bus \<Rightarrow> bus option" where
  "fetch_peek pc b = fold_opt (\<lambda>i b. map_option snd (bus_read32 (pc + of_nat i * 4) b)) [0..<FETCH_WIDTH] b"

definition fetch_trace_reads :: "u32 \<Rightarrow> bus \<Rightarrow> bus option" where
  "fetch_trace_reads pc b = do {
     b \<leftarrow> fetch_peek pc b;
     b \<leftarrow> (if bus_get_slave_obj b pc \<noteq> None then fetch_peek pc b else Some b);
     fetch_peek pc b }"

definition fetch_is_jump :: "u32 \<Rightarrow> bool" where
  "fetch_is_jump w = (w AND 0x7f = 0x6f \<or> w AND 0x7f = 0x67 \<or> w AND 0x7f = 0x63 \<or> w = 0x30200073)"

definition fetch_is_fence_i :: "u32 \<Rightarrow> bool" where
  "fetch_is_fence_i w = (w AND 0x7f = 0x0f \<and> drop_bit 12 w AND 0x07 = 0x01)"

text \<open>A jump; \<open>junk\<close> is what the local variable \<open>cp\<close> holds before \<open>save()\<close> writes its two fields.\<close>

definition fetch_jump ::
  "checkpoint_t \<Rightarrow> u32 \<Rightarrow> u32 \<Rightarrow> fetch_decode_pack_t \<Rightarrow> fetch_stage \<Rightarrow> (fetch_decode_pack_t \<times> fetch_stage) option" where
  "fetch_jump junk cur_pc opcode t s = do {
     (prediction, bp) \<leftarrow> bp_get_prediction cur_pc opcode (fe_bp s);
     case prediction of
       Some (jump_result, jump_next_pc) \<Rightarrow> do {
         cp \<leftarrow> bp_save cur_pc junk bp;
         let (valid, i, cpbuf) = cpbuf_push cp (fe_cpbuf s);
         bp \<leftarrow> bp_update_prediction_guess cur_pc opcode jump_result jump_next_pc bp;
         let t = t\<lparr>fd_checkpoint_id_valid := valid, fd_checkpoint_id := i\<rparr>;
         let s = s\<lparr>fe_bp := bp, fe_cpbuf := cpbuf\<rparr>;
         Some (if \<not> valid
               then (t, s\<lparr>fe_cpbuf_full := fe_cpbuf_full s + 1, fe_jump_wait := True, fe_pc := cur_pc + 4\<rparr>)
               else (t\<lparr>fd_predicted := True, fd_predicted_jump := jump_result, fd_predicted_next_pc := jump_next_pc\<rparr>,
                     s\<lparr>fe_pc := (if jump_result then jump_next_pc else cur_pc + 4), fe_jump_wait := False\<rparr>)) }
     | None \<Rightarrow> Some (t, s\<lparr>fe_bp := bp, fe_jump_wait := True, fe_pc := cur_pc + 4\<rparr>) }"

text \<open>A \<open>fence.i\<close> is held back until nothing is left before it.\<close>

definition fetch_held :: "bool \<Rightarrow> bool \<Rightarrow> commit_feedback_pack_t \<Rightarrow> nat \<Rightarrow> u32 \<Rightarrow> fetch_stage \<Rightarrow> bool" where
  "fetch_held decode_idle rename_idle cf i w s = (fetch_is_fence_i w
     \<and> (i \<noteq> 0 \<or> \<not> decode_idle \<or> \<not> rename_idle \<or> cf_enable cf \<or> \<not> fifo_is_empty (fe_sb s)))"

definition fetch_one ::
  "checkpoint_t \<Rightarrow> bool \<Rightarrow> bool \<Rightarrow> commit_feedback_pack_t \<Rightarrow> u32 \<Rightarrow> nat \<Rightarrow> fetch_stage \<Rightarrow> (bool \<times> fetch_stage) option" where
  "fetch_one junk decode_idle rename_idle cf old_pc i s =
     (if \<not> fifo_is_full (fe_fifo s) then do {
        let cur_pc = old_pc + of_nat i * 4;
        let has_exception = \<not> bus_check_align cur_pc 4;
        (opcode, b) \<leftarrow> (if has_exception then Some (0, fe_bus s) else bus_read32 cur_pc (fe_bus s));
        let s = s\<lparr>fe_bus := b\<rparr>;
        if fetch_held decode_idle rename_idle cf i opcode s then Some (True, s)
        else do {
          (t, s) \<leftarrow> (if fetch_is_jump opcode then fetch_jump junk cur_pc opcode fetch_decode_zero s
                     else Some (fetch_decode_zero, s\<lparr>fe_pc := cur_pc + 4\<rparr>));
          let t = t\<lparr>fd_value := opcode, fd_enable := True, fd_pc := cur_pc, fd_has_exception := has_exception,
            fd_exception_id := (if has_exception then instruction_address_misaligned else instruction_access_fault),
            fd_exception_value := cur_pc\<rparr>;
          let s = s\<lparr>fe_fifo := snd (fifo_push t (fe_fifo s))\<rparr>;
          Some (if fetch_is_jump opcode then (True, s\<lparr>fe_not_full := fe_not_full s + 1\<rparr>) else (False, s)) } }
      else Some (False, s\<lparr>fe_fifo_full := fe_fifo_full s + 1\<rparr>))"

definition fetch_flush :: "commit_feedback_pack_t \<Rightarrow> fetch_stage \<Rightarrow> fetch_stage" where
  "fetch_flush cf s = s\<lparr>fe_fifo := fifo_flush (fe_fifo s), fe_jump_wait := False,
     fe_pc := (if cf_has_exception cf then cf_exception_pc cf else if cf_jump_enable cf then cf_next_pc cf else fe_pc s)\<rparr>"

text \<open>A jump that was not predicted has been decided.\<close>

definition fetch_resume :: "commit_feedback_pack_t \<Rightarrow> fetch_stage \<Rightarrow> fetch_stage" where
  "fetch_resume cf s =
     (if cf_jump_enable cf
      then s\<lparr>fe_jump_wait := False, fe_pc := (if cf_jump cf then cf_next_pc cf else fe_pc s)\<rparr>
      else s)"

definition fetch_run ::
  "checkpoint_t \<Rightarrow> bool \<Rightarrow> bool \<Rightarrow> commit_feedback_pack_t \<Rightarrow> fetch_stage \<Rightarrow> fetch_stage option" where
  "fetch_run junk decode_idle rename_idle cf s =
     (if fe_wait_first s then Some (s\<lparr>fe_wait_first := False\<rparr>)
      else if \<not> cf_flushing cf then
        (if fe_jump_wait s then Some (fetch_resume cf s)
         else do {
           let old_pc = fe_pc s;
           b \<leftarrow> fetch_trace_reads old_pc (fe_bus s);
           fold_brk (fetch_one junk decode_idle rename_idle cf old_pc) [0..<FETCH_WIDTH] (s\<lparr>fe_bus := b\<rparr>) })
      else Some (fetch_flush cf s))"

end
