(* ===== verification/Fetch_Cycle.thy ===== *)
theory Fetch_Cycle
  imports Fetch
begin

text \<open>
  What a cycle of the fetch stage does: the instructions that follow one another in memory, up to a
  jump, reach the queue to the decode stage once each, and the program counter goes on where they end
  or where the jump is predicted to go.
\<close>

section \<open>Reading instructions\<close>

definition fetch_word :: "bus \<Rightarrow> u32 \<Rightarrow> u32" where
  "fetch_word b a = load_le (bus_flat b) (unat a) 4"

definition fetch_addr :: "u32 \<Rightarrow> nat \<Rightarrow> u32" where
  "fetch_addr pc k = pc + of_nat k * 4"

lemma fetch_addr_simps: "fetch_addr pc 0 = pc" "fetch_addr pc (Suc k) = fetch_addr pc k + 4"
  by (simp_all add: fetch_addr_def algebra_simps)

text \<open>A group of instructions in memory.\<close>

definition fetchable :: "bus \<Rightarrow> u32 \<Rightarrow> bool" where
  "fetchable b pc = (bus_inv b \<and> bus_check_align pc 4 \<and> (\<forall>k < FETCH_WIDTH. bus_mem_ok b 4 (fetch_addr pc k)))"

lemma bus_read32_mem:
  assumes "bus_inv b" "bus_mem_ok b 4 a"
  shows "bus_read32 a b = Some (fetch_word b a, b)"
  using bus_read_mem [OF assms] by (simp add: bus_read_def fetch_word_def)

lemma fetch_align:
  assumes "bus_check_align pc 4"
  shows "bus_check_align (fetch_addr pc k) 4"
proof -
  have iff: "bus_check_align a 4 = (4 dvd unat a)" for a :: u32
    using align_iff [of 4 a] by (simp add: bus_check_align_def)
  have "unat (fetch_addr pc k) = (unat pc + k * 4) mod 2 ^ 32"
    unfolding fetch_addr_def by (simp add: unat_word_ariths unat_of_nat mod_simps)
  moreover have "4 dvd unat pc" using assms iff by simp
  ultimately show ?thesis unfolding iff by (simp add: dvd_mod_iff)
qed

lemma fetch_peek_mem:
  assumes "fetchable b pc"
  shows "fetch_peek pc b = Some b"
proof -
  have "set ks \<subseteq> {..<FETCH_WIDTH} \<Longrightarrow> fold_opt (\<lambda>i b. map_option snd (bus_read32 (pc + of_nat i * 4) b)) ks b = Some b" for ks
    using assms bus_read32_mem [of b] by (induction ks) (auto simp: fetchable_def fetch_addr_def)
  from this [of "[0..<FETCH_WIDTH]"] show ?thesis by (simp add: fetch_peek_def atLeast0LessThan)
qed

lemma fetch_trace_reads_mem: "fetchable b pc \<Longrightarrow> fetch_trace_reads pc b = Some b"
  by (simp add: fetch_trace_reads_def fetch_peek_mem)

section \<open>A jump\<close>

lemma bp_ras_history:
  "bp_ras_push a b = Some c \<Longrightarrow> gshare_global_history c = gshare_global_history b"
  "bp_ras_pop b = Some (x, c) \<Longrightarrow> gshare_global_history c = gshare_global_history b"
  by (auto simp: bp_ras_push_def bp_ras_pop_def bind_eq_Some_conv)

lemma prediction_history:
  "bp_get_prediction pc w b = Some (r, c) \<Longrightarrow> gshare_global_history c = gshare_global_history b"
  by (auto simp: bp_get_prediction_def bp_predict_jal_def bp_predict_jalr_def bp_predict_branch_def bind_eq_Some_conv Let_def
      dest!: bp_ras_history split: if_splits)

text \<open>Where the stage goes on after a jump \<open>w\<close> at \<open>pc\<close>, for which the packet \<open>p\<close> was made: the
  predictor is asked, and trained with its own answer; with an answer and room for a checkpoint the
  packet holds the answer, the stage goes where it says, and the checkpoint has the histories from
  before the jump; otherwise the stage waits behind the jump.\<close>

definition jump_goes :: "fetch_stage \<Rightarrow> u32 \<Rightarrow> u32 \<Rightarrow> fetch_decode_pack_t \<Rightarrow> fetch_stage \<Rightarrow> bool" where
  "jump_goes s pc w p t = (\<exists>r c. bp_get_prediction pc w (fe_bp s) = Some (r, c)
     \<and> (case r of None \<Rightarrow> fe_bp t = c | Some (jump, target) \<Rightarrow> bp_update_prediction_guess pc w jump target c = Some (fe_bp t))
     \<and> (case r of
          Some (jump, target) \<Rightarrow> fd_predicted p = (\<not> fifo_is_full (fe_cpbuf s))
            \<and> (fd_predicted p \<longrightarrow> fd_predicted_jump p = jump \<and> fd_predicted_next_pc p = target
                 \<and> fe_pc t = (if jump then target else pc + 4) \<and> \<not> fe_jump_wait t
                 \<and> fd_checkpoint_id_valid p \<and> ring_ids (fe_cpbuf t) = ring_ids (fe_cpbuf s) @ [fd_checkpoint_id p]
                 \<and> (\<exists>cp. cpbuf_get_item (fe_cpbuf t) (fd_checkpoint_id p) = Some cp
                      \<and> global_history cp = gshare_global_history (fe_bp s) \<and> local_get_bht_value pc c = Some (local_history cp)))
        | None \<Rightarrow> \<not> fd_predicted p)
     \<and> (\<not> fd_predicted p \<longrightarrow> fe_pc t = pc + 4 \<and> fe_jump_wait t \<and> \<not> fd_checkpoint_id_valid p \<and> fe_cpbuf t = fe_cpbuf s))"

lemma jump_goes_cong:
  assumes "fe_bp u = fe_bp t" "fe_pc u = fe_pc t" "fe_jump_wait u = fe_jump_wait t" "fe_cpbuf u = fe_cpbuf t"
    and "fe_bp r = fe_bp s" "fe_cpbuf r = fe_cpbuf s" "fd_predicted q = fd_predicted p" "fd_predicted_jump q = fd_predicted_jump p"
    and "fd_predicted_next_pc q = fd_predicted_next_pc p" "fd_checkpoint_id_valid q = fd_checkpoint_id_valid p" "fd_checkpoint_id q = fd_checkpoint_id p"
  shows "jump_goes r pc w q u = jump_goes s pc w p t"
  unfolding jump_goes_def assms ..

lemma fetch_jump_goes:
  assumes "bp_inv (fe_bp s)" "fifo_inv (fe_cpbuf s)"
  shows "\<exists>p t. fetch_jump junk pc w fetch_decode_zero s = Some (p, t) \<and> jump_goes s pc w p t \<and> bp_inv (fe_bp t) \<and> fifo_inv (fe_cpbuf t)
    \<and> fe_fifo t = fe_fifo s \<and> fe_bus t = fe_bus s \<and> fe_sb t = fe_sb s \<and> fe_wait_first t = fe_wait_first s
    \<and> cpbuf_request_q (fe_cpbuf t) = cpbuf_request_q (fe_cpbuf s)"
proof -
  from bp_get_prediction_keeps [OF assms(1)] obtain r c where c: "bp_get_prediction pc w (fe_bp s) = Some (r, c)" "bp_inv c" by blast
  show ?thesis
  proof (cases r)
    case None
    with c assms(2) show ?thesis
      by (simp add: fetch_jump_def jump_goes_def fetch_decode_zero_def)
  next
    case (Some x)
    obtain jump target where x: "x = (jump, target)" by (cases x)
    obtain h where lh: "local_get_bht_value pc c = Some h" using branch_gets_total(4) [OF c(2)] by blast
    then have cp: "bp_save pc junk c = Some (junk\<lparr>global_history := gshare_global_history c, local_history := h\<rparr>)" (is "_ = Some ?cp")
      by (simp add: bp_save_def)
    obtain d where d: "bp_update_prediction_guess pc w jump target c = Some d" "bp_inv d"
      using bp_guess_keeps [OF c(2), of pc w jump target] by (auto simp: bp_keeps_def)
    obtain valid i q where push: "ring_push ?cp (fe_cpbuf s) = (valid, i, q)" by (cases "ring_push ?cp (fe_cpbuf s)") auto
    show ?thesis
    proof (cases "fifo_is_full (fe_cpbuf s)")
      case True
      with push have "\<not> valid" "q = fe_cpbuf s" by (auto simp: ring_push_def fifo_push_def Let_def)
      with c d Some x cp push True assms(2) show ?thesis
        by (simp add: fetch_jump_def cpbuf_push_def jump_goes_def fetch_decode_zero_def)
    next
      case False
      note pu = ring_push_ids [OF assms(2) False push]
      have "i < length (buffer (fe_cpbuf s))"
        using pu(2,4,5) ring_ids_bound [OF pu(2), of i] by (simp add: fifo_inv_def)
      then have "cpbuf_get_item q i = Some ?cp" using pu(5) by (simp add: cpbuf_get_item_def ring_get_item_def array_get_def)
      moreover have "cpbuf_request_q q = cpbuf_request_q (fe_cpbuf s)"
        using push by (auto simp: ring_push_def fifo_push_def Let_def split: if_splits)
      ultimately show ?thesis
        using c d Some x cp push pu(1,2,4) prediction_history [OF c(1)] False lh
        by (simp add: fetch_jump_def cpbuf_push_def jump_goes_def fetch_decode_zero_def)
    qed
  qed
qed

section \<open>The group\<close>

definition fetch_plain :: "u32 \<Rightarrow> u32 \<Rightarrow> fetch_decode_pack_t" where
  "fetch_plain pc w = fetch_decode_zero\<lparr>fd_value := w, fd_enable := True, fd_pc := pc, fd_has_exception := False,
     fd_exception_id := instruction_access_fault, fd_exception_value := pc\<rparr>"

definition fetch_group :: "bus \<Rightarrow> u32 \<Rightarrow> nat \<Rightarrow> fetch_decode_pack_t list" where
  "fetch_group b pc n = map (\<lambda>k. fetch_plain (fetch_addr pc k) (fetch_word b (fetch_addr pc k))) [0..<n]"

definition fetch_frame :: "fetch_stage \<Rightarrow> fetch_stage \<Rightarrow> bool" where
  "fetch_frame s t = (fe_bus t = fe_bus s \<and> fe_sb t = fe_sb s \<and> fe_wait_first t = fe_wait_first s
     \<and> fifo_inv (fe_fifo t) \<and> fifo_inv (fe_cpbuf t) \<and> bp_inv (fe_bp t)
     \<and> cpbuf_request_q (fe_cpbuf t) = cpbuf_request_q (fe_cpbuf s) \<and> qsize (fe_fifo t) = qsize (fe_fifo s)
     \<and> fifo_occupied (fe_fifo t) + length (fifo_items (fe_fifo s)) = fifo_occupied (fe_fifo s) + length (fifo_items (fe_fifo t)))"

definition fetch_straight :: "u32 \<Rightarrow> fetch_stage \<Rightarrow> nat \<Rightarrow> fetch_stage \<Rightarrow> bool" where
  "fetch_straight pc s n t = (fetch_frame s t \<and> fifo_items (fe_fifo t) = fifo_items (fe_fifo s) @ fetch_group (fe_bus s) pc n
     \<and> (\<forall>k < n. \<not> fetch_is_jump (fetch_word (fe_bus s) (fetch_addr pc k)))
     \<and> fe_pc t = fetch_addr pc n \<and> \<not> fe_jump_wait t \<and> fe_bp t = fe_bp s \<and> fe_cpbuf t = fe_cpbuf s)"

text \<open>A \<open>fence.i\<close> has to wait unless it is the first of its group and decode, rename, commit and
  the store buffer have nothing left from before it.\<close>

definition fence_must_wait :: "bool \<Rightarrow> bool \<Rightarrow> commit_feedback_pack_t \<Rightarrow> fetch_stage \<Rightarrow> nat \<Rightarrow> bool" where
  "fence_must_wait decode_idle rename_idle cf s n = (fetch_is_fence_i (fetch_word (fe_bus s) (fetch_addr (fe_pc s) n))
     \<and> \<not> (n = 0 \<and> decode_idle \<and> rename_idle \<and> \<not> cf_enable cf \<and> fifo_is_empty (fe_sb s)))"

text \<open>The group ends after \<open>n\<close> instructions, or after a jump that follows them; none of them is a
  \<open>fence.i\<close> that has to wait.\<close>

definition fetch_ends :: "(nat \<Rightarrow> bool) \<Rightarrow> u32 \<Rightarrow> fetch_stage \<Rightarrow> fetch_stage \<Rightarrow> bool" where
  "fetch_ends held pc s t =
     ((\<exists>n \<le> FETCH_WIDTH. fetch_straight pc s n t \<and> (\<forall>k < n. \<not> held k) \<and> (n = FETCH_WIDTH \<or> fifo_is_full (fe_fifo t) \<or> held n))
      \<or> (\<exists>n < FETCH_WIDTH. \<exists>u p. fetch_straight pc s n u \<and> (\<forall>k \<le> n. \<not> held k) \<and> \<not> fifo_is_full (fe_fifo u)
           \<and> fetch_is_jump (fetch_word (fe_bus s) (fetch_addr pc n))
           \<and> fifo_items (fe_fifo t) = fifo_items (fe_fifo u) @ [p] \<and> fd_pc p = fetch_addr pc n
           \<and> fd_value p = fetch_word (fe_bus s) (fetch_addr pc n) \<and> fd_enable p \<and> \<not> fd_has_exception p
           \<and> jump_goes s (fetch_addr pc n) (fd_value p) p t \<and> fetch_frame s t))"

definition fetch_at :: "(nat \<Rightarrow> bool) \<Rightarrow> u32 \<Rightarrow> fetch_stage \<Rightarrow> nat \<Rightarrow> fetch_stage \<Rightarrow> bool" where
  "fetch_at held pc s k t = (\<exists>n \<le> k. fetch_straight pc s n t \<and> (\<forall>j < n. \<not> held j) \<and> (n = k \<or> fifo_is_full (fe_fifo t)))"

lemma fetch_group_Suc: "fetch_group b pc (Suc n) = fetch_group b pc n @ [fetch_plain (fetch_addr pc n) (fetch_word b (fetch_addr pc n))]"
  by (simp add: fetch_group_def)

lemma push_room:
  "fifo_inv f \<Longrightarrow> \<not> fifo_is_full f \<Longrightarrow> fifo_inv (snd (fifo_push x f)) \<and> fifo_items (snd (fifo_push x f)) = fifo_items f @ [x]
    \<and> fifo_occupied (snd (fifo_push x f)) = Suc (fifo_occupied f) \<and> qsize (snd (fifo_push x f)) = qsize f"
  using fifo_push_ok [of f x "fst (fifo_push x f)" "snd (fifo_push x f)"] fifo_full_iff [of f] fifo_occupied_le [of f]
  by (cases "fifo_push x f") auto

lemma fetch_turn:
  fixes held
  assumes "fetchable (fe_bus s) pc" "fetch_at held pc s k u" "k < FETCH_WIDTH"
    and fence: "\<And>n. held n = fetch_held di ri cf n (fetch_word (fe_bus s) (fetch_addr pc n)) s"
  shows "\<exists>b t. fetch_one junk di ri cf pc k u = Some (b, t) \<and> (if b then fetch_ends held pc s t else fetch_at held pc s (Suc k) t)"
proof (cases "fifo_is_full (fe_fifo u)")
  case True
  from assms(2) obtain n where n: "n \<le> k" "fetch_straight pc s n u" "\<forall>j < n. \<not> held j" by (auto simp: fetch_at_def)
  let ?t = "u\<lparr>fe_fifo_full := fe_fifo_full u + 1\<rparr>"
  have "fetch_straight pc s n ?t" using n(2) by (auto simp: fetch_straight_def fetch_frame_def)
  moreover have "fifo_is_full (fe_fifo ?t)" using True by simp
  ultimately have "fetch_at held pc s (Suc k) ?t" unfolding fetch_at_def using n(1,3) le_SucI by blast
  with True show ?thesis by (intro exI [of _ False] exI [of _ ?t]) (simp add: fetch_one_def)
next
  case room: False
  with assms(2) have st: "fetch_straight pc s k u" and before: "\<forall>j < k. \<not> held j" by (auto simp: fetch_at_def)
  note u = st [unfolded fetch_straight_def fetch_frame_def]
  let ?a = "fetch_addr pc k" and ?w = "fetch_word (fe_bus s) (fetch_addr pc k)"
  have a: "pc + of_nat k * 4 = ?a" by (simp add: fetch_addr_def)
  have al: "bus_check_align ?a 4" using assms(1) fetch_align by (simp add: fetchable_def)
  have rd: "bus_read32 ?a (fe_bus u) = Some (?w, fe_bus u)"
    using bus_read32_mem assms(1,3) u by (simp add: fetchable_def)
  have same: "u\<lparr>fe_bus := fe_bus u\<rparr> = u" by simp
  have held: "fetch_held di ri cf k ?w u = fetch_held di ri cf k ?w s" using u by (simp add: fetch_held_def)
  show ?thesis
  proof (cases "fetch_held di ri cf k ?w s")
    case True
    with room al rd held have "fetch_one junk di ri cf pc k u = Some (True, u)" by (simp add: fetch_one_def a same)
    moreover have "fetch_ends held pc s u"
      unfolding fetch_ends_def using st before True [folded fence] assms(3) less_imp_le by blast
    ultimately show ?thesis by (intro exI [of _ True] exI [of _ u]) simp
  next
    case free: False
    show ?thesis
    proof (cases "fetch_is_jump ?w")
      case True
      from fetch_jump_goes [of u junk ?a ?w] u obtain p t where
        j: "fetch_jump junk ?a ?w fetch_decode_zero u = Some (p, t)" "jump_goes u ?a ?w p t" "bp_inv (fe_bp t)" "fifo_inv (fe_cpbuf t)"
          "fe_fifo t = fe_fifo u" "fe_bus t = fe_bus u" "fe_sb t = fe_sb u" "fe_wait_first t = fe_wait_first u"
          "cpbuf_request_q (fe_cpbuf t) = cpbuf_request_q (fe_cpbuf u)" by blast
      have h: "fe_bp u = fe_bp s" "fe_cpbuf u = fe_cpbuf s" using u by blast+
      define q where "q = p\<lparr>fd_value := ?w, fd_enable := True, fd_pc := ?a, fd_has_exception := False,
            fd_exception_id := instruction_access_fault, fd_exception_value := ?a\<rparr>"
      let ?t = "t\<lparr>fe_fifo := snd (fifo_push q (fe_fifo t)), fe_not_full := fe_not_full t + 1\<rparr>"
      have run: "fetch_one junk di ri cf pc k u = Some (True, ?t)"
        using room al rd held free True j(1) by (simp add: fetch_one_def a same q_def Let_def)
      have pu: "fifo_inv (fe_fifo ?t)" "fifo_items (fe_fifo ?t) = fifo_items (fe_fifo u) @ [q]"
        "fifo_occupied (fe_fifo ?t) = Suc (fifo_occupied (fe_fifo u))" "qsize (fe_fifo ?t) = qsize (fe_fifo u)"
        using push_room [of "fe_fifo t" q] j(5) u room by simp_all
      have "fetch_frame s ?t" using pu j u by (simp add: fetch_frame_def)
      moreover have "jump_goes s ?a (fd_value q) q ?t"
        by (subst jump_goes_cong [of ?t t s u q p]) (use j(2) h in \<open>simp_all add: q_def\<close>)
      moreover have "\<forall>j \<le> k. \<not> held j" using before free [folded fence] by (auto simp: le_less)
      ultimately have "fetch_ends held pc s ?t"
        unfolding fetch_ends_def using st room True assms(3) pu(2)
        by (intro disjI2 exI [of _ k] conjI exI [of _ u] exI [of _ q]) (simp_all add: q_def)
      with run show ?thesis by (intro exI [of _ True] exI [of _ ?t]) simp
    next
      case False
      let ?t = "u\<lparr>fe_pc := ?a + 4, fe_fifo := snd (fifo_push (fetch_plain ?a ?w) (fe_fifo u))\<rparr>"
      have run: "fetch_one junk di ri cf pc k u = Some (False, ?t)"
        using room al rd held free False by (simp add: fetch_one_def a same fetch_plain_def Let_def)
      have "fetch_straight pc s (Suc k) ?t"
        using push_room [of "fe_fifo u" "fetch_plain ?a ?w"] u room False
        by (auto simp: fetch_straight_def fetch_frame_def fetch_group_Suc fetch_addr_simps less_Suc_eq)
      moreover have "\<forall>j < Suc k. \<not> held j" using before free [folded fence] by (auto simp: less_Suc_eq)
      ultimately have "fetch_at held pc s (Suc k) ?t" unfolding fetch_at_def by blast
      with run show ?thesis by (intro exI [of _ False] exI [of _ ?t]) simp
    qed
  qed
qed

lemma fetch_cycle:
  assumes "fetchable (fe_bus s) (fe_pc s)" "fetch_frame s s" "\<not> fe_wait_first s" "\<not> fe_jump_wait s" "\<not> cf_flushing cf"
  shows "\<exists>t. fetch_run junk di ri cf s = Some t
    \<and> fetch_ends (fence_must_wait di ri cf s) (fe_pc s) s t"
proof -
  let ?pc = "fe_pc s" and ?held = "fence_must_wait di ri cf s"
  have "fetch_straight ?pc s 0 s" using assms(2,4) by (simp add: fetch_straight_def fetch_group_def fetch_addr_simps)
  then have start: "fetch_at ?held ?pc s 0 s" by (simp add: fetch_at_def)
  have "\<exists>t. fold_brk (fetch_one junk di ri cf ?pc) [0..<FETCH_WIDTH] s = Some t \<and> fetch_ends ?held ?pc s t"
  proof (rule fold_brk_prefix [where I = "fetch_at ?held ?pc s", OF start])
    fix k u assume "k < length [0..<FETCH_WIDTH]" "fetch_at ?held ?pc s k u"
    then have k: "fetch_at ?held ?pc s k u" "k < FETCH_WIDTH" by simp_all
    have "?held n = fetch_held di ri cf n (fetch_word (fe_bus s) (fetch_addr ?pc n)) s" for n
      by (auto simp: fence_must_wait_def fetch_held_def)
    from fetch_turn [OF assms(1) k this, of junk] k(2)
    show "\<exists>b t. fetch_one junk di ri cf ?pc ([0..<FETCH_WIDTH] ! k) u = Some (b, t)
      \<and> (if b then fetch_ends ?held ?pc s t else fetch_at ?held ?pc s (Suc k) t)" by simp
  next
    fix u assume "fetch_at ?held ?pc s (length [0..<FETCH_WIDTH]) u"
    then show "fetch_ends ?held ?pc s u" by (auto simp: fetch_at_def fetch_ends_def)
  qed
  moreover have "s\<lparr>fe_bus := fe_bus s\<rparr> = s" by simp
  ultimately show ?thesis using assms fetch_trace_reads_mem [OF assms(1)] by (simp add: fetch_run_def)
qed

text \<open>C12: a cycle of the fetch stage, with a program counter that is aligned and points into memory,
  moves the instructions that stand there to the queue of the decode stage, each once, with its
  address and its word, in order, until four are fetched, the queue is full, a jump has been fetched,
  or the next one is a \<open>fence.i\<close> that has to wait: none of the instructions fetched is one, and a
  \<open>fence.i\<close> that is not the first of its group always waits.  Without a jump the program counter
  stands behind the group.  At a jump the predictor is asked for that address and word, and trained with
  its own answer: the packet and the program counter get exactly the answer, and the jump has the
  youngest checkpoint of the buffer, which holds the global and the local history from before it.  If the
  predictor has no answer, or the checkpoint buffer is full, the packet is marked as not predicted and
  the stage stops behind the jump to wait for it.\<close>

theorem fetch_run_in_order:
  assumes "fetchable (fe_bus s) (fe_pc s)" "fetch_frame s s" "\<not> fe_wait_first s" "\<not> fe_jump_wait s" "\<not> cf_flushing cf"
  shows "\<exists>t. fetch_run junk di ri cf s = Some t
    \<and> fetch_ends (fence_must_wait di ri cf s) (fe_pc s) s t"
  by (rule fetch_cycle [OF assms])

section \<open>A misaligned program counter\<close>

lemma misaligned_read_aborts:
  assumes "bus_inv b" "bus_find_slave_info b pc = Some i" "4 dvd unat (si_base (slave_info_list b ! i))" "\<not> bus_check_align pc 4"
  shows "bus_read32 pc b = None"
proof -
  let ?e = "slave_info_list b ! i"
  have l: "i < length (slave_info_list b)" "unat pc \<in> region ?e" using bus_find_unique [OF assms(1)] assms(2) by blast+
  note e = bus_inv_nth [OF assms(1) l(1)]
  have "\<not> 4 dvd unat pc" using assms(4) align_iff [of 4 pc] by (simp add: bus_check_align_def)
  moreover have "si_base ?e \<le> pc" using l(2) by (simp add: region_def word_le_nat_alt)
  then have "unat (pc - si_base ?e) = unat pc - unat (si_base ?e)" "unat (si_base ?e) \<le> unat pc"
    by (simp_all add: unat_sub word_le_nat_alt)
  ultimately have "\<not> 4 dvd unat (pc - si_base ?e)"
    using assms(3) dvd_diffD [of 4 "unat pc" "unat (si_base ?e)"] by metis
  then have "\<not> access_ok (dev_size (si_slave ?e)) 4 (pc - si_base ?e)" by (simp add: access_ok_def)
  with dev_read_quiet [OF e(2), of 4 "pc - si_base ?e"] have "dev_read 4 (pc - si_base ?e) (si_slave ?e) = None" by simp
  with assms(2) have "bus_read 4 pc b = None" by (simp add: bus_read_eq)
  then show ?thesis by (simp add: bus_read_def)
qed

text \<open>C13: a program counter that is not aligned, at an address where a device answers, never leads to
  the exception the stage prepares for it: the words of the group are read for the signal trace first,
  and the device's assertion stops the program.\<close>

theorem fetch_misaligned_aborts:
  assumes "bus_inv (fe_bus s)" "bus_find_slave_info (fe_bus s) (fe_pc s) = Some i"
    and "4 dvd unat (si_base (slave_info_list (fe_bus s) ! i))" "\<not> bus_check_align (fe_pc s) 4"
    and "\<not> fe_wait_first s" "\<not> fe_jump_wait s" "\<not> cf_flushing cf"
  shows "fetch_run junk di ri cf s = None"
proof -
  have "[0..<FETCH_WIDTH] = 0 # [1..<FETCH_WIDTH]" by (simp add: FETCH_WIDTH_def upt_rec)
  then have "fetch_peek (fe_pc s) (fe_bus s) = None"
    using misaligned_read_aborts [OF assms(1-4)] by (simp add: fetch_peek_def)
  with assms(5-7) show ?thesis by (simp add: fetch_run_def fetch_trace_reads_def)
qed

section \<open>A concrete group\<close>

text \<open>Four zero words at the start of the memory.\<close>

definition fetch_demo :: fetch_stage where
  "fetch_demo = \<lparr>fe_bus = bus_start, fe_fifo = fifo_new 8 fetch_decode_zero, fe_cpbuf = cpbuf_sample, fe_bp = bp_demo,
     fe_sb = fifo.extend (fifo_new 16 (store_buffer_item_t.make False False 0 0 0 0 0)) (store_buffer.fields []),
     fe_init_pc = 0x80000000, fe_pc = 0x80000000, fe_jump_wait = False, fe_wait_first = False,
     fe_cpbuf_full = 0, fe_fifo_full = 0, fe_not_full = 0\<rparr>"

lemma fetch_demo_frame: "fetch_frame fetch_demo fetch_demo"
  using fifo_new_inv [of 8 fetch_decode_zero] bp_new_inv
  by (simp add: fetch_frame_def fetch_demo_def bp_demo_def cpbuf_sample_def fifo_inv_def ring_ok_def)

lemma fetch_demo_fetchable: "fetchable (fe_bus fetch_demo) (fe_pc fetch_demo)"
proof -
  have four: "(\<forall>k < FETCH_WIDTH. P k) = (P 0 \<and> P 1 \<and> P 2 \<and> P 3)" for P
    by (auto simp: FETCH_WIDTH_def numeral_eq_Suc less_Suc_eq)
  show ?thesis using bus_start_props(2) unfolding fetchable_def four
    by (simp add: fetch_demo_def bus_check_align_def fetch_addr_def bus_mem_ok_def entry_mem_ok_def
        bus_find_slave_info_def bus_start_props(4) slave_covers_def access_ok_def)
qed

theorem fetch_run_in_order_witness:
  "\<forall>junk. \<exists>t. fetch_run junk True True commit_feedback_zero fetch_demo = Some t
    \<and> fetch_ends (fence_must_wait True True commit_feedback_zero fetch_demo) 0x80000000 fetch_demo t"
  using fetch_run_in_order [OF fetch_demo_fetchable fetch_demo_frame _ _ no_flush, where di = True and ri = True]
  by (simp add: fetch_demo_def)

theorem fetch_misaligned_aborts_witness:
  "\<forall>junk. fetch_run junk True True commit_feedback_zero (fetch_demo\<lparr>fe_pc := 0x80000002\<rparr>) = None"
  by (rule allI, rule fetch_misaligned_aborts [where i = 0])
    (simp_all add: fetch_demo_def bus_start_props bus_find_slave_info_def slave_covers_def bus_check_align_def no_flush)

end
