(* ===== verification/Core.thy ===== *)
theory Core
  imports Commit Issue Fetch Rename Execute_Arith Execute_Csr Execute_Lsu Execute_Bru
begin

text \<open>
  \<open>top_source/main.cpp\<close>: the core.  Its state holds each shared component once; a stage's record
  carries its own fields, and its pointers to the shared components are set to them before it runs
  and read back after.  \<open>core_reset\<close> is \<open>reset()\<close> and \<open>core_cycle\<close> a turn of the loop
  of \<open>run()\<close>, without the debugger's console before it.
\<close>

definition LSU_UNIT_NUM :: nat where "LSU_UNIT_NUM = 1"

record core =
  co_bus :: bus
  co_rat :: rat
  co_rob :: rob
  co_regfile :: "u32 regfile"
  co_csr :: csrfile
  co_sb :: store_buffer
  co_cpbuf :: checkpoint_buffer
  co_bp :: branch_predictor
  co_int :: interrupt_interface
  co_fetch_decode :: "fetch_decode_pack_t fifo"
  co_decode_rename :: "decode_rename_pack_t fifo"
  co_rename_readreg :: "rename_readreg_op_info_t list port"
  co_readreg_issue :: "readreg_issue_op_info_t list port"
  co_fifos :: "op_unit_t \<Rightarrow> exec_queue list"
  co_wb_ports :: "op_unit_t \<Rightarrow> wb_port list"
  co_wb_commit :: "execute_wb_pack_t list port"
  co_fetch :: fetch_stage
  co_decode :: decode_stage
  co_rename :: rename_stage
  co_issue :: issue_stage
  co_lsu :: "lsu_state list"
  co_commit :: commit_stage
  cpu_clock_cycle :: u64
  committed_instruction_num :: u64

section \<open>Reset\<close>

definition core_units :: "op_unit_t list" where
  "core_units = [Unit_alu, Unit_bru, Unit_csr, Unit_div, Unit_lsu, Unit_mul]"

text \<open>The registers 1 to 31 are written zero and valid while the alias table maps them.\<close>

definition regfile_boot :: "u32 regfile \<Rightarrow> u32 regfile option" where
  "regfile_boot f = fold_opt (\<lambda>i f. regfile_write i 0 True f) [1..<32] (regfile_reset 0 f)"

text \<open>The memory keeps its contents over a reset; the clock and its comparator are cleared.\<close>

fun dev_reset :: "slave \<Rightarrow> slave" where
  "dev_reset (Memory m) = Memory m"
| "dev_reset (Clint c) = Clint (clint_reset c)"

definition core_bus_reset :: "bus \<Rightarrow> bus" where
  "core_bus_reset b = (bus_reset b)\<lparr>slave_info_list := map (\<lambda>e. e\<lparr>si_slave := dev_reset (si_slave e)\<rparr>) (slave_info_list b)\<rparr>"

definition core_counters_reset :: "core \<Rightarrow> core" where
  "core_counters_reset s = s\<lparr>cpu_clock_cycle := 0, committed_instruction_num := 0,
     co_commit := (co_commit s)\<lparr>cm_branch_num := 0, cm_branch_predicted := 0, cm_branch_hit := 0, cm_branch_miss := 0\<rparr>,
     co_fetch := (co_fetch s)\<lparr>fe_fifo_full := 0, fe_cpbuf_full := 0\<rparr>, co_decode := (co_decode s)\<lparr>ds_full := 0\<rparr>,
     co_issue := (co_issue s)\<lparr>is_queue_full := 0, is_fifo_full := 0\<rparr>,
     co_rename := (co_rename s)\<lparr>rn_rob_full := 0, rn_phy_full := 0\<rparr>,
     co_bp := (co_bp s)\<lparr>main_ras := (main_ras (co_bp s))\<lparr>ras_full := 0\<rparr>\<rparr>\<rparr>"

definition core_reset :: "core \<Rightarrow> core option" where
  "core_reset s = do {
     r \<leftarrow> rat_boot (co_rat s);
     f \<leftarrow> regfile_boot (co_regfile s);
     Some (core_counters_reset (s\<lparr>co_bus := core_bus_reset (co_bus s), co_rat := r, co_rob := rob_reset (co_rob s), co_regfile := f,
       co_csr := csrfile_reset (co_csr s), co_sb := sb_reset (co_sb s), co_cpbuf := cpbuf_reset (co_cpbuf s),
       co_bp := bp_reset (co_bp s), co_int := int_reset (co_int s),
       co_fetch_decode := fifo_reset (co_fetch_decode s), co_decode_rename := fifo_reset (co_decode_rename s),
       co_rename_readreg := port_reset (co_rename_readreg s), co_readreg_issue := port_reset (co_readreg_issue s),
       co_fifos := map fifo_reset \<circ> co_fifos s, co_wb_ports := map port_reset \<circ> co_wb_ports s, co_wb_commit := port_reset (co_wb_commit s),
       co_fetch := fetch_reset (co_fetch s), co_rename := rename_reset (co_rename s), co_issue := issue_reset (co_issue s),
       co_lsu := map lsu_reset (co_lsu s), co_commit := commit_reset (co_commit s)\<rparr>)) }"

section \<open>The stages on the shared components\<close>

definition core_commit :: "core \<Rightarrow> (commit_feedback_pack_t \<times> core) option" where
  "core_commit s = do {
     (cf, c) \<leftarrow> commit_run ((co_commit s)\<lparr>cm_in := co_wb_commit s, cm_rat := co_rat s, cm_rob := co_rob s, cm_csr := co_csr s,
       cm_regfile := co_regfile s, cm_cpbuf := co_cpbuf s, cm_bp := co_bp s, cm_int := co_int s\<rparr>);
     Some (cf, s\<lparr>co_commit := c, co_rat := cm_rat c, co_rob := cm_rob c, co_csr := cm_csr c,
       co_regfile := cm_regfile c, co_cpbuf := cm_cpbuf c, co_bp := cm_bp c, co_int := cm_int c\<rparr>) }"

definition core_wb :: "commit_feedback_pack_t \<Rightarrow> core \<Rightarrow> execute_feedback_channel_t list \<times> core" where
  "core_wb cf s =
     (let ps = co_wb_ports s;
          (out, f, ws) = wb_run cf (wb_init (ps Unit_alu) (ps Unit_bru) (ps Unit_csr) (ps Unit_div) (ps Unit_lsu) (ps Unit_mul))
            (co_wb_commit s) (co_regfile s)
      in (ws, s\<lparr>co_wb_commit := out, co_regfile := f\<rparr>))"

text \<open>One execution unit, by its class and its number.\<close>

definition core_unit_set :: "op_unit_t \<Rightarrow> nat \<Rightarrow> exec_queue \<Rightarrow> wb_port \<Rightarrow> core \<Rightarrow> core" where
  "core_unit_set u k q p s = s\<lparr>co_fifos := (co_fifos s)(u := (co_fifos s u)[k := q]),
     co_wb_ports := (co_wb_ports s)(u := (co_wb_ports s u)[k := p])\<rparr>"

fun core_unit :: "commit_feedback_pack_t \<Rightarrow> op_unit_t \<Rightarrow> nat \<Rightarrow> core \<Rightarrow> (execute_feedback_channel_t \<times> core) option" where
  "core_unit cf Unit_alu k s = do {
     (q, p, c) \<leftarrow> alu_run cf (co_fifos s Unit_alu ! k) (co_wb_ports s Unit_alu ! k);
     Some (c, core_unit_set Unit_alu k q p s) }"
| "core_unit cf Unit_bru k s = do {
     (q, p, bp, c) \<leftarrow> bru_run (co_csr s) (co_cpbuf s) cf (co_fifos s Unit_bru ! k) (co_wb_ports s Unit_bru ! k) (co_bp s);
     Some (c, (core_unit_set Unit_bru k q p s)\<lparr>co_bp := bp\<rparr>) }"
| "core_unit cf Unit_csr k s = do {
     (q, p, c) \<leftarrow> csr_run (co_csr s) cf (co_fifos s Unit_csr ! k) (co_wb_ports s Unit_csr ! k);
     Some (c, core_unit_set Unit_csr k q p s) }"
| "core_unit cf Unit_div k s = do {
     (q, p, c) \<leftarrow> div_run cf (co_fifos s Unit_div ! k) (co_wb_ports s Unit_div ! k);
     Some (c, core_unit_set Unit_div k q p s) }"
| "core_unit cf Unit_lsu k s = do {
     (l, q, p, b, sb, c) \<leftarrow> lsu_run cf (co_lsu s ! k) (co_fifos s Unit_lsu ! k) (co_wb_ports s Unit_lsu ! k) (co_bus s) (co_sb s);
     Some (c, (core_unit_set Unit_lsu k q p s)\<lparr>co_lsu := (co_lsu s)[k := l], co_bus := b, co_sb := sb\<rparr>) }"
| "core_unit cf Unit_mul k s = do {
     (q, p, c) \<leftarrow> mul_run cf (co_fifos s Unit_mul ! k) (co_wb_ports s Unit_mul ! k);
     Some (c, core_unit_set Unit_mul k q p s) }"

definition core_unit_order :: "(op_unit_t \<times> nat) list" where
  "core_unit_order = concat (map (\<lambda>u. map (Pair u) [0..<unit_num u]) core_units)"

fun core_execute :: "commit_feedback_pack_t \<Rightarrow> (op_unit_t \<times> nat) list \<Rightarrow> core \<Rightarrow> (execute_feedback_channel_t list \<times> core) option" where
  "core_execute cf [] s = Some ([], s)"
| "core_execute cf ((u, k) # us) s = do {
     (c, s) \<leftarrow> core_unit cf u k s;
     (cs, s) \<leftarrow> core_execute cf us s;
     Some (c # cs, s) }"

definition core_issue ::
  "execute_feedback_channel_t list \<Rightarrow> execute_feedback_channel_t list \<Rightarrow> commit_feedback_pack_t \<Rightarrow> core \<Rightarrow> (bool \<times> core) option" where
  "core_issue es ws cf s = do {
     (stall, i) \<leftarrow> issue_run es ws cf ((co_issue s)\<lparr>is_in := co_readreg_issue s, is_fifos := co_fifos s, is_regfile := co_regfile s,
       is_sb := co_sb s\<rparr>);
     Some (stall, s\<lparr>co_issue := i, co_fifos := is_fifos i\<rparr>) }"

definition core_readreg ::
  "bool \<Rightarrow> execute_feedback_channel_t list \<Rightarrow> execute_feedback_channel_t list \<Rightarrow> commit_feedback_pack_t \<Rightarrow> core \<Rightarrow> core option" where
  "core_readreg stall es ws cf s = do {
     out \<leftarrow> readreg_run stall es ws cf (co_regfile s) (co_rename_readreg s) (co_readreg_issue s);
     Some (s\<lparr>co_readreg_issue := out\<rparr>) }"

definition core_rename :: "checkpoint_t \<Rightarrow> bool \<Rightarrow> commit_feedback_pack_t \<Rightarrow> core \<Rightarrow> (bool \<times> core) option" where
  "core_rename junk stall cf s = do {
     (idle, r) \<leftarrow> rename_run junk stall cf ((co_rename s)\<lparr>rn_in := co_decode_rename s, rn_out := co_rename_readreg s, rn_rat := co_rat s,
       rn_rob := co_rob s, rn_cpbuf := co_cpbuf s\<rparr>);
     Some (idle, s\<lparr>co_rename := r, co_decode_rename := rn_in r, co_rename_readreg := rn_out r, co_rat := rn_rat r,
       co_rob := rn_rob r, co_cpbuf := rn_cpbuf r\<rparr>) }"

definition core_decode :: "commit_feedback_pack_t \<Rightarrow> core \<Rightarrow> (bool \<times> core) option" where
  "core_decode cf s = do {
     (idle, d) \<leftarrow> decode_run cf ((co_decode s)\<lparr>ds_in := co_fetch_decode s, ds_out := co_decode_rename s\<rparr>);
     Some (idle, s\<lparr>co_decode := d, co_fetch_decode := ds_in d, co_decode_rename := ds_out d\<rparr>) }"

definition core_fetch :: "checkpoint_t \<Rightarrow> bool \<Rightarrow> bool \<Rightarrow> commit_feedback_pack_t \<Rightarrow> core \<Rightarrow> core option" where
  "core_fetch junk decode_idle rename_idle cf s = do {
     f \<leftarrow> fetch_run junk decode_idle rename_idle cf ((co_fetch s)\<lparr>fe_bus := co_bus s, fe_fifo := co_fetch_decode s,
       fe_cpbuf := co_cpbuf s, fe_bp := co_bp s, fe_sb := co_sb s\<rparr>);
     Some (s\<lparr>co_fetch := f, co_bus := fe_bus f, co_fetch_decode := fe_fifo f, co_cpbuf := fe_cpbuf f, co_bp := fe_bp f\<rparr>) }"

section \<open>A cycle\<close>

definition CLINT_BASE :: u32 where "CLINT_BASE = 0x20000000"

text \<open>\<open>clint.run_pre()\<close> and \<open>clint.run_post()\<close>, on the device that the bus maps there.\<close>

definition core_clint_pre :: "core \<Rightarrow> core option" where
  "core_clint_pre s = (case bus_get_slave_obj (co_bus s) CLINT_BASE of
       Some (Clint c) \<Rightarrow> Some (s\<lparr>co_int := clint_run_pre c (co_int s)\<rparr>)
     | _ \<Rightarrow> None)"

definition core_clint_post :: "core \<Rightarrow> core option" where
  "core_clint_post s = do {
     i \<leftarrow> bus_find_slave_info (co_bus s) CLINT_BASE;
     case si_slave (slave_info_list (co_bus s) ! i) of
       Clint c \<Rightarrow> Some (s\<lparr>co_bus := bus_upd i (Clint (clint_run_post c)) (co_bus s)\<rparr>)
     | Memory _ \<Rightarrow> None }"

text \<open>From the write-back stage back to the fetch stage, each seeing what the ones before it left.\<close>

definition core_stages :: "checkpoint_t \<Rightarrow> commit_feedback_pack_t \<Rightarrow> core \<Rightarrow> core option" where
  "core_stages junk cf s = do {
     let (ws, s) = core_wb cf s;
     (es, s) \<leftarrow> core_execute cf core_unit_order s;
     (stall, s) \<leftarrow> core_issue es ws cf s;
     s \<leftarrow> core_readreg stall es ws cf s;
     (rename_idle, s) \<leftarrow> core_rename junk stall cf s;
     (decode_idle, s) \<leftarrow> core_decode cf s;
     core_fetch junk decode_idle rename_idle cf s }"

definition core_sync :: "commit_feedback_pack_t \<Rightarrow> core \<Rightarrow> core option" where
  "core_sync cf s = do {
     (c, i) \<leftarrow> int_run (co_csr s) (co_int s);
     s \<leftarrow> core_clint_post (s\<lparr>co_csr := c, co_int := i\<rparr>);
     r \<leftarrow> rat_sync (co_rat s);
     b \<leftarrow> rob_sync (co_rob s);
     f \<leftarrow> regfile_sync (co_regfile s);
     c \<leftarrow> csrfile_sync (co_csr s);
     (u, sb) \<leftarrow> sb_cycle cf (co_bus s) (co_sb s);
     p \<leftarrow> cpbuf_sync (co_cpbuf s);
     h \<leftarrow> bp_sync (co_bp s);
     i \<leftarrow> int_sync (co_int s);
     Some (s\<lparr>co_rat := r, co_rob := b, co_regfile := f, co_csr := c, co_bus := u, co_sb := sb, co_cpbuf := p, co_bp := h, co_int := i\<rparr>) }"

text \<open>The counters and the pairs of control registers that show them, low word and high word.\<close>

definition core_counters :: "core \<Rightarrow> (u32 \<times> u32 \<times> u64) list" where
  "core_counters s = [(CSR_MCYCLE, CSR_MCYCLEH, cpu_clock_cycle s), (CSR_MINSTRET, CSR_MINSTRETH, committed_instruction_num s),
     (0xB03, 0xB83, cm_branch_num (co_commit s)), (0xB04, 0xB84, cm_branch_predicted (co_commit s)),
     (0xB05, 0xB85, cm_branch_hit (co_commit s)), (0xB06, 0xB86, cm_branch_miss (co_commit s)),
     (0xB07, 0xB87, fe_fifo_full (co_fetch s)), (0xB08, 0xB88, ds_full (co_decode s)),
     (0xB09, 0xB89, is_queue_full (co_issue s)), (0xB0A, 0xB8A, is_fifo_full (co_issue s)),
     (0xB0B, 0xB8B, fe_cpbuf_full (co_fetch s)), (0xB0C, 0xB8C, rn_rob_full (co_rename s)),
     (0xB0D, 0xB8D, rn_phy_full (co_rename s)), (0xB0E, 0xB8E, ras_full (main_ras (co_bp s))),
     (0xB0F, 0xB8F, fe_not_full (co_fetch s))]"

definition core_publish :: "core \<Rightarrow> core option" where
  "core_publish s = do {
     let s = s\<lparr>cpu_clock_cycle := cpu_clock_cycle s + 1, committed_instruction_num := global_commit_num (co_rob s)\<rparr>;
     c \<leftarrow> fold_opt (\<lambda>(lo, hi, v) c. do {
         c \<leftarrow> csrfile_write_sys lo (ucast (v AND 0xffffffff)) c;
         csrfile_write_sys hi (ucast (drop_bit 32 v)) c }) (core_counters s) (co_csr s);
     Some (s\<lparr>co_csr := c\<rparr>) }"

definition core_cycle :: "checkpoint_t \<Rightarrow> core \<Rightarrow> core option" where
  "core_cycle junk s = do {
     let s = s\<lparr>co_rob := rob_set_committed False (co_rob s), co_fetch_decode := fifo_reset_pop_status (co_fetch_decode s),
       co_decode_rename := fifo_reset_pop_status (co_decode_rename s)\<rparr>;
     s \<leftarrow> core_clint_pre s;
     (cf, s) \<leftarrow> core_commit s;
     s \<leftarrow> core_stages junk cf s;
     s \<leftarrow> core_sync cf s;
     core_publish s }"

end
