(* ===== verification/Core_Start.thy ===== *)
theory Core_Start
  imports Core Fetch_Cycle Issue_Cycle Commit_Retire
begin

text \<open>
  \<open>top_source/main.cpp\<close>: how the core comes up.  \<open>core_static\<close> holds the objects as their
  constructors leave them, \<open>core_init\<close> is \<open>init()\<close> with the bytes of the program file as argument
  (the file itself and the telnet server are not modelled), and \<open>core_reset\<close> follows it.  The
  theorem says that the processor is then ready for its first cycle.
\<close>

section \<open>Start-up\<close>

text \<open>Arrays that a constructor leaves unset hold \<open>junk\<close> values.\<close>

definition core_static :: "checkpoint_t \<Rightarrow> nat \<Rightarrow> u64 \<Rightarrow> ras_item_t \<Rightarrow> core" where
  "core_static cp junk junkw ri = (let cb = fifo.extend (fifo_new 256 cp) (checkpoint_buffer.fields []);
      sb = fifo.extend (fifo_new 16 (store_buffer_item_t.make False False 0 0 0 0 0)) (store_buffer.fields []) in
    \<lparr>co_bus = bus_new, co_rat = rat_new PHY_REG_NUM ARCH_REG_NUM junk junkw, co_rob = rob_new 64,
     co_regfile = regfile_new 0 PHY_REG_NUM, co_csr = csrfile_new, co_sb = sb, co_cpbuf = cb, co_bp = bp_new ri, co_int = int_new,
     co_fetch_decode = fifo_new 256 fetch_decode_zero, co_decode_rename = fifo_new 16 decode_rename_zero,
     co_rename_readreg = port_new (rename_pack []), co_readreg_issue = port_new (replicate READREG_WIDTH readreg_zero),
     co_fifos = (\<lambda>_. []), co_wb_ports = (\<lambda>_. []), co_wb_commit = port_new (replicate EXECUTE_UNIT_NUM execute_wb_zero),
     co_fetch = \<lparr>fe_bus = bus_new, fe_fifo = fifo_new 256 fetch_decode_zero, fe_cpbuf = cb, fe_bp = bp_new ri, fe_sb = sb,
       fe_init_pc = 0x80000000, fe_pc = 0x80000000, fe_jump_wait = False, fe_wait_first = False,
       fe_cpbuf_full = 0, fe_fifo_full = 0, fe_not_full = 0\<rparr>,
     co_decode = \<lparr>ds_in = fifo_new 256 fetch_decode_zero, ds_out = fifo_new 16 decode_rename_zero, ds_full = 0\<rparr>,
     co_rename = \<lparr>rn_in = fifo_new 16 decode_rename_zero, rn_out = port_new (rename_pack []),
       rn_rat = rat_new PHY_REG_NUM ARCH_REG_NUM junk junkw, rn_rob = rob_new 64, rn_cpbuf = cb, rn_busy = False,
       rn_rev_pack = decode_rename_zero, rn_rob_full = 0, rn_phy_full = 0\<rparr>,
     co_issue = \<lparr>is_in = port_new (replicate READREG_WIDTH readreg_zero), is_fifos = (\<lambda>_. []), is_regfile = regfile_new 0 PHY_REG_NUM,
       is_sb = sb, is_q = fifo.extend (fifo_new 16 readreg_zero) (issue_queue.fields []), is_busy = False, is_waiting = False,
       is_waiting_rob_id = 0, is_last_index = 0, is_index = (\<lambda>_. 0), is_queue_full = 0, is_fifo_full = 0\<rparr>,
     co_lsu = [],
     co_commit = \<lparr>cm_in = port_new (replicate EXECUTE_UNIT_NUM execute_wb_zero), cm_rat = rat_new PHY_REG_NUM ARCH_REG_NUM junk junkw,
       cm_rob = rob_new 64, cm_csr = csrfile_new, cm_regfile = regfile_new 0 PHY_REG_NUM, cm_cpbuf = cb, cm_bp = bp_new ri,
       cm_int = int_new, cm_state = St_normal, cm_item = rob_item_zero, cm_item_id = 0, cm_restore_id = 0, cm_interrupt_pc = 0,
       cm_interrupt_id = machine_external, cm_branch_num = 0, cm_branch_predicted = 0, cm_branch_hit = 0, cm_branch_miss = 0\<rparr>,
     cpu_clock_cycle = 0, committed_instruction_num = 0\<rparr>)"

text \<open>The program file is read in blocks of 4096 bytes, each padded with zeros, up to the first block
  that the file does not fill.\<close>

function load_blocks :: "u8 list \<Rightarrow> u8 list" where
  "load_blocks img = (if length img < 4096 then img @ replicate (4096 - length img) 0
     else take 4096 img @ load_blocks (drop 4096 img))"
  by pat_completeness auto
termination by (relation "measure length") auto

declare load_blocks.simps [simp del]

definition bus_load :: "u8 list \<Rightarrow> bus \<Rightarrow> bus option" where
  "bus_load bs b = fold_opt (\<lambda>(k, v) b. bus_write8 (0x80000000 + of_nat k) v b) (enumerate 0 bs) b"

definition core_init :: "u8 list \<Rightarrow> core \<Rightarrow> core option" where
  "core_init img s = do {
     b \<leftarrow> bus_boot;
     b \<leftarrow> bus_load (load_blocks img) b;
     r \<leftarrow> rat_boot (co_rat s);
     f \<leftarrow> fold_opt (\<lambda>i f. regfile_write i 0 True f) [1..<32] (co_regfile s);
     c \<leftarrow> csrfile_boot;
     Some (s\<lparr>co_bus := b, co_rat := r, co_regfile := f, co_csr := c,
       co_fetch_decode := fifo_set_pop_status_save True (co_fetch_decode s),
       co_decode_rename := fifo_set_pop_status_save True (co_decode_rename s),
       co_fifos := (\<lambda>u. replicate (unit_num u) (fifo_new 1 issue_execute_zero)),
       co_wb_ports := (\<lambda>u. replicate (unit_num u) (port_new execute_wb_zero)),
       co_lsu := replicate LSU_UNIT_NUM lsu_new\<rparr>) }"

definition core_boot :: "u8 list \<Rightarrow> core \<Rightarrow> core option" where
  "core_boot img s = do { s \<leftarrow> core_init img s; core_reset s }"


section \<open>The program in the memory\<close>

lemma load_blocks_eq: "\<exists>z. load_blocks img = img @ replicate z 0 \<and> 0 < z \<and> z \<le> 4096"
proof (induction img rule: load_blocks.induct)
  case (1 img)
  show ?case
  proof (cases "length img < 4096")
    case True
    then show ?thesis by (intro exI [of _ "4096 - length img"]) (simp add: load_blocks.simps [of img])
  next
    case False
    with 1 obtain z where z: "load_blocks (drop 4096 img) = drop 4096 img @ replicate z 0" "0 < z" "z \<le> 4096" by blast
    then show ?thesis using False by (intro exI [of _ z]) (simp add: load_blocks.simps [of img])
  qed
qed

text \<open>Single bytes written one after the other from an address on.\<close>

definition byte_writes :: "nat \<Rightarrow> u8 list \<Rightarrow> bus_request list" where
  "byte_writes j bs = map (\<lambda>(k, v). Bus_write8 (0x80000000 + of_nat k) v) (enumerate j bs)"

lemma fold_opt_map: "fold_opt g (map h xs) s = fold_opt (\<lambda>x. g (h x)) xs s"
proof (induction xs arbitrary: s)
  case (Cons x xs)
  then show ?case by (cases "g (h x) s") simp_all
qed simp

lemma bus_load_eq: "bus_load bs b = fold_opt bus_apply (byte_writes 0 bs) b"
proof -
  have "(\<lambda>x. bus_apply (case x of (k, v) \<Rightarrow> Bus_write8 (0x80000000 + of_nat k) v)) = (\<lambda>(k, v). bus_write8 (0x80000000 + of_nat k) v)"
    by (auto simp: fun_eq_iff)
  then show ?thesis by (simp add: bus_load_def byte_writes_def fold_opt_map)
qed

lemma load_address: "k < 1048576 \<Longrightarrow> unat (0x80000000 + of_nat k :: u32) = 0x80000000 + k"
  by (subst unat_add_nw) (simp_all add: no_wrap_def unat_of_nat)

lemma ucast_byte: "ucast (ucast (v :: u8) :: u32) = v"
  by (rule bit_word_eqI) (simp add: bit_ucast_iff)

lemma byte_writes_flat:
  assumes "j + length bs \<le> 1048576"
  shows "apply_writes (map request_write (byte_writes j bs)) m
    = (\<lambda>A. if 0x80000000 + j \<le> A \<and> A < 0x80000000 + j + length bs then bs ! (A - (0x80000000 + j)) else m A)"
  using assms
proof (induction bs arbitrary: j m)
  case (Cons v bs)
  have "store_le m (unat (0x80000000 + of_nat j :: u32)) 1 (ucast v) = m(0x80000000 + j := v)"
    using load_address [of j] Cons.prems by (auto simp: store_le_def fun_eq_iff ucast_byte le_less_Suc_eq)
  then have "apply_writes (map request_write (byte_writes j (v # bs))) m
      = apply_writes (map request_write (byte_writes (Suc j) bs)) (m(0x80000000 + j := v))"
    by (simp add: byte_writes_def)
  also have "\<dots> = (\<lambda>A. if 0x80000000 + j \<le> A \<and> A < 0x80000000 + j + length (v # bs) then (v # bs) ! (A - (0x80000000 + j)) else m A)"
    using Cons.prems by (subst Cons.IH) (auto simp: fun_eq_iff nth_Cons' Suc_diff_Suc not_less_eq_eq)
  finally show ?case .
qed (auto simp: byte_writes_def fun_eq_iff)


text \<open>The kind of each device and its place on the bus.\<close>

fun dev_kind :: "slave \<Rightarrow> bool" where
  "dev_kind (Memory m) = True"
| "dev_kind (Clint c) = False"

definition bus_layout :: "bus \<Rightarrow> (u32 \<times> u32 \<times> bool) list" where
  "bus_layout b = map (\<lambda>e. (si_base e, si_size e, dev_kind (si_slave e))) (slave_info_list b)"

lemma dev_kind_write:
  assumes "dev_quiet d" "n = 1 \<or> n = 2 \<or> n = 4" "dev_write n a v d = Some e"
  shows "dev_kind e = dev_kind d"
  using assms(3) dev_write_quiet [OF assms(1,2), of a v] by (auto split: if_splits slave.splits)

lemma bus_layout_write:
  assumes "bus_inv b" "n = 1 \<or> n = 2 \<or> n = 4" "bus_write n a v b = Some c"
  shows "bus_layout c = bus_layout b"
proof (cases "bus_find_slave_info b a")
  case (Some i)
  then have i: "i < length (slave_info_list b)" using bus_find_unique [OF assms(1)] by blast
  let ?e = "slave_info_list b ! i"
  from Some assms(3) obtain d where d: "dev_write n (a - si_base ?e) v (si_slave ?e) = Some d" "c = bus_upd i d b"
    by (auto simp: bus_write_eq split: option.splits)
  have "dev_kind d = dev_kind (si_slave ?e)" by (rule dev_kind_write [OF bus_inv_nth(2) [OF assms(1) i] assms(2) d(1)])
  with i d(2) show ?thesis by (auto simp: bus_layout_def bus_upd_def map_update intro!: list_update_same_conv [THEN iffD2])
qed (use assms in \<open>simp add: bus_write_eq\<close>)

lemma bus_layout_apply:
  assumes "bus_inv b" "bus_apply q b = Some c"
  shows "bus_inv c \<and> bus_layout c = bus_layout b"
proof -
  obtain n a v where q: "request_write q = (n, a, v)" "n = 1 \<or> n = 2 \<or> n = 4" by (cases q) auto
  then have "bus_write n a v b = Some c" using assms(2) by (simp add: bus_apply_write)
  then show ?thesis using bus_layout_write [OF assms(1) q(2)] bus_write_inv [OF assms(1) q(2)] by blast
qed

lemma bus_layout_replay:
  assumes "bus_inv b" "fold_opt bus_apply qs b = Some c"
  shows "bus_layout c = bus_layout b"
proof -
  have "bus_inv c \<and> bus_layout c = bus_layout b"
    by (rule fold_opt_invariant [where P = "\<lambda>c. bus_inv c \<and> bus_layout c = bus_layout b", OF _ _ assms(2)])
      (use assms(1) bus_layout_apply in auto)
  then show ?thesis by simp
qed

text \<open>The reset of the devices does not move or change the memory.\<close>

lemma dev_reset_simps:
  "dev_size (dev_reset d) = dev_size d" "dev_quiet (dev_reset d) = dev_quiet d" "dev_kind (dev_reset d) = dev_kind d"
  by (cases d; simp add: clint_reset_def)+

lemma core_bus_reset_slaves: "slave_info_list (core_bus_reset b) = map (\<lambda>e. e\<lparr>si_slave := dev_reset (si_slave e)\<rparr>) (slave_info_list b)"
  by (simp add: core_bus_reset_def)

lemma core_bus_reset_props:
  assumes "bus_inv b"
  shows "bus_inv (core_bus_reset b)" "bus_request_q (core_bus_reset b) = []" "bus_layout (core_bus_reset b) = bus_layout b"
    "bus_find_slave_info (core_bus_reset b) = bus_find_slave_info b" "bus_flat (core_bus_reset b) = bus_flat b"
proof -
  note sl = core_bus_reset_slaves
  have find: "find_index (slave_covers a) (map (\<lambda>e. e\<lparr>si_slave := dev_reset (si_slave e)\<rparr>) es) = find_index (slave_covers a) es" for a es
    by (induction es) (auto simp: slave_covers_def)
  show f: "bus_find_slave_info (core_bus_reset b) = bus_find_slave_info b"
    by (rule ext) (simp add: bus_find_slave_info_def sl find)
  show "bus_inv (core_bus_reset b)" using assms by (auto simp: bus_inv_def sl dev_reset_simps region_def)
  show "bus_request_q (core_bus_reset b) = []" by (simp add: core_bus_reset_def bus_reset_def)
  show "bus_layout (core_bus_reset b) = bus_layout b" by (simp add: bus_layout_def sl dev_reset_simps)
  have "(case dev_reset d of Memory s \<Rightarrow> g s | Clint c \<Rightarrow> 0) = (case d of Memory s \<Rightarrow> g s | Clint c \<Rightarrow> 0)" for d and g :: "memory \<Rightarrow> u8"
    by (cases d) simp_all
  moreover have "bus_find_slave_info b a = Some i \<Longrightarrow> i < length (slave_info_list b)" for a i using bus_find_unique [OF assms] by blast
  ultimately show "bus_flat (core_bus_reset b) = bus_flat b"
    by (auto simp: bus_flat_def f sl fun_eq_iff split: option.split cong: slave.case_cong)
qed


section \<open>The registers\<close>

lemma regfile_written:
  assumes "regfile_inv f" "regfile_request_q f = []" "\<forall>i < PHY_REG_NUM. reg_data f ! i = 0 \<and> \<not> bm_bit (reg_data_valid f) i" "k < 32"
  shows "\<exists>t. fold_opt (\<lambda>i f. regfile_write i (0 :: u32) True f) [1..<Suc k] f = Some t \<and> regfile_inv t \<and> regfile_request_q t = []
    \<and> (\<forall>i < PHY_REG_NUM. reg_data t ! i = 0 \<and> bm_bit (reg_data_valid t) i = (1 \<le> i \<and> i < Suc k))"
  using assms(4)
proof (induction k)
  case 0
  then show ?case using assms(1-3) by auto
next
  case (Suc k)
  then obtain t where t: "fold_opt (\<lambda>i f. regfile_write i (0 :: u32) True f) [1..<Suc k] f = Some t" "regfile_inv t" "regfile_request_q t = []"
    "\<forall>i < PHY_REG_NUM. reg_data t ! i = 0 \<and> bm_bit (reg_data_valid t) i = (1 \<le> i \<and> i < Suc k)" by auto
  let ?u = "t\<lparr>reg_data := (reg_data t)[Suc k := 0], reg_data_valid := bm_put (reg_data_valid t) (Suc k) True\<rparr>"
  have k: "Suc k < PHY_REG_NUM" using Suc.prems by (simp add: PHY_REG_NUM_def)
  have w: "regfile_write (Suc k) 0 True t = Some ?u" by (rule regfile_write_eq [OF t(2) k])
  have l: "length (reg_data_valid t) = bm_words PHY_REG_NUM" "length (reg_data t) = PHY_REG_NUM" using t(2) by (simp_all add: regfile_inv_def)
  have "bm_bit (reg_data_valid ?u) i = (1 \<le> i \<and> i < Suc (Suc k))" if "i < PHY_REG_NUM" for i
    using that t(4) k bm_bit_put [OF l(1), of "Suc k" True i] by (auto simp: less_Suc_eq)
  moreover have "reg_data ?u ! i = 0" if "i < PHY_REG_NUM" for i
    using that t(4) l(2) by (cases "i = Suc k") simp_all
  moreover have "regfile_inv ?u" using t(2) by (simp add: regfile_inv_def)
  moreover have "[1..<Suc (Suc k)] = [1..<Suc k] @ [Suc k]" by simp
  ultimately show ?case using t(1,3) w by (simp add: fold_opt_append del: upt_Suc)
qed

lemma regfile_boot_state:
  assumes "regfile_size f = PHY_REG_NUM"
  shows "\<exists>t. regfile_boot f = Some t \<and> regfile_inv t \<and> regfile_request_q t = []
    \<and> (\<forall>i < PHY_REG_NUM. reg_data t ! i = 0 \<and> bm_bit (reg_data_valid t) i = (1 \<le> i \<and> i < 32))"
  using regfile_written [of "regfile_reset 0 f" 31] assms
  by (simp add: regfile_boot_def regfile_reset_def regfile_inv_def bm_bit_zero)

lemma regfile_new_written:
  "\<exists>t. fold_opt (\<lambda>i f. regfile_write i (0 :: u32) True f) [1..<32] (regfile_new 0 PHY_REG_NUM) = Some t \<and> regfile_size t = PHY_REG_NUM"
  using regfile_written [of "regfile_new 0 PHY_REG_NUM" 31]
  by (auto simp: regfile_new_def regfile_inv_def bm_bit_zero)

text \<open>The alias table after start-up has no request left and is the committed state of no instruction
  in flight.\<close>

lemma rat_boot_quiet:
  assumes "rat_boot r = Some t"
  shows "rat_request_q t = []"
proof -
  have s: "rat_request_q t = rat_request_q r" if "rat_boot_step i r = Some t" for i r t
    using that unfolding rat_boot_step_def rat_set_map_def rat_commit_map_def rat_set_table_def rat_set_valid_def rat_set_visible_def
      rat_set_commit_def by (auto split: bind_splits if_splits)
  from assms obtain u where u: "fold_opt rat_boot_step [1..<32] (rat_init_start r) = Some u" "t = rat_init_finish u"
    by (auto simp: rat_boot_def split: bind_splits)
  have "rat_request_q u = []"
    by (rule fold_opt_invariant [where P = "\<lambda>u. rat_request_q u = []", OF _ _ u(1)]) (auto simp: s, simp add: rat_init_start_def)
  then show ?thesis by (simp add: u(2) rat_init_finish_def)
qed


section \<open>A processor between two cycles\<close>

text \<open>No deferred request is left, the components are well formed, and the queues between the stages
  have the sizes the stages count on.\<close>

definition core_quiet :: "core \<Rightarrow> bool" where
  "core_quiet s = (bus_request_q (co_bus s) = [] \<and> rat_request_q (co_rat s) = [] \<and> rob_request_q (co_rob s) = []
     \<and> regfile_request_q (co_regfile s) = [] \<and> csr_request_q (co_csr s) = [] \<and> sb_request_q (co_sb s) = []
     \<and> cpbuf_request_q (co_cpbuf s) = [] \<and> bp_request_q (co_bp s) = [] \<and> int_request_q (co_int s) = []
     \<and> iq_request_q (is_q (co_issue s)) = [])"

definition core_sound :: "core \<Rightarrow> bool" where
  "core_sound s = (bus_inv (co_bus s) \<and> fifo_inv (co_rob s) \<and> \<not> pop_status_save (co_rob s) \<and> regfile_inv (co_regfile s)
     \<and> fifo_inv (co_sb s) \<and> \<not> pop_status_save (co_sb s) \<and> fifo_inv (co_cpbuf s) \<and> bp_inv (co_bp s)
     \<and> fifo_inv (fifo_reset_pop_status (co_fetch_decode s)) \<and> fifo_inv (fifo_reset_pop_status (co_decode_rename s))
     \<and> fifo_inv (is_q (co_issue s)) \<and> \<not> pop_status_save (is_q (co_issue s))
     \<and> (\<forall>u. \<forall>k < unit_num u. fifo_inv (co_fifos s u ! k))
     \<and> FETCH_WIDTH < qsize (co_fetch_decode s) \<and> length (port_get (co_rename_readreg s)) = READREG_WIDTH
     \<and> length (port_get (co_readreg_issue s)) = READREG_WIDTH \<and> length (port_get (co_wb_commit s)) = EXECUTE_UNIT_NUM)"

definition core_wired :: "core \<Rightarrow> bool" where
  "core_wired s = ((\<forall>u. length (co_fifos s u) = unit_num u \<and> length (co_wb_ports s u) = unit_num u)
     \<and> length (co_lsu s) = LSU_UNIT_NUM)"

text \<open>Nothing is left between the fetch stage and the commit stage.\<close>

definition core_drained :: "core \<Rightarrow> bool" where
  "core_drained s = (fifo_items (co_fetch_decode s) = [] \<and> fifo_items (co_decode_rename s) = []
     \<and> (\<forall>x \<in> set (port_get (co_rename_readreg s)). \<not> p_enable x) \<and> (\<forall>x \<in> set (port_get (co_readreg_issue s)). \<not> p_enable x)
     \<and> fifo_items (is_q (co_issue s)) = [] \<and> \<not> is_busy (co_issue s) \<and> \<not> is_waiting (co_issue s)
     \<and> (\<forall>u. \<forall>k < unit_num u. fifo_items (co_fifos s u ! k) = [] \<and> \<not> p_enable (port_get (co_wb_ports s u ! k)))
     \<and> (\<forall>l \<in> set (co_lsu s). \<not> lsu_busy l) \<and> (\<forall>x \<in> set (port_get (co_wb_commit s)). \<not> p_enable x))"

definition core_ready :: "core \<Rightarrow> bool" where
  "core_ready s = (core_quiet s \<and> core_sound s \<and> core_wired s \<and> core_drained s \<and> fifo_items (co_rob s) = [] \<and> fifo_items (co_sb s) = []
     \<and> \<not> rn_busy (co_rename s) \<and> cm_state (co_commit s) = St_normal
     \<and> is_last_index (co_issue s) = 0 \<and> is_index (co_issue s) = (\<lambda>_. 0))"

lemma zero_disabled: "\<not> p_enable execute_wb_zero" "\<not> p_enable readreg_zero" "\<not> p_enable rename_zero"
  by (simp_all add: execute_wb_zero_def readreg_zero_def rename_zero_def readreg_issue_op_info_t.defs rename_readreg_op_info_t.defs)

lemma fifo_flush_items [simp]: "fifo_items (fifo_flush f) = []"
  by (simp add: fifo_items_def fifo_flush_def ring_defs ring_items_def ring_count_def)

lemma fifo_reset_items [simp]: "fifo_items (fifo_reset f) = []"
  by (simp add: fifo_items_def fifo_reset_def ring_defs ring_items_def ring_count_def)

lemma fifo_reset_inv:
  assumes "length (buffer f) = qsize f" "0 < qsize f"
  shows "fifo_inv (fifo_reset_pop_status (fifo_reset f))" "\<not> pop_status_save f \<Longrightarrow> fifo_inv (fifo_reset f)"
  using assms by (simp_all add: fifo_inv_def fifo_reset_def fifo_reset_pop_status_def ring_ok_def ring_count_def)

lemma csrfile_reset_init: "csrfile_reset csrfile_init = csrfile_init"
proof -
  have "i\<lparr>ci_value := csr_init_value (ci_class i)\<rparr> = i" if "csr_map_table csrfile_init a = Some i" for a i
    using that by (auto simp: csrfile_init_def dest!: map_of_SomeD)
  then have "map_option (\<lambda>i. i\<lparr>ci_value := csr_init_value (ci_class i)\<rparr>) (csr_map_table csrfile_init a) = csr_map_table csrfile_init a" for a
    by (cases "csr_map_table csrfile_init a") simp_all
  then show ?thesis by (simp add: csrfile_reset_def) (simp add: csrfile_init_def)
qed

lemma core_init_state:
  assumes "length (load_blocks img) \<le> 1048576" "phy_reg_num (co_rat s) = PHY_REG_NUM" "arch_reg_num (co_rat s) = ARCH_REG_NUM"
    and "co_regfile s = regfile_new 0 PHY_REG_NUM"
  shows "\<exists>b r f. core_init img s = Some (s\<lparr>co_bus := b, co_rat := r, co_regfile := f, co_csr := csrfile_init,
       co_fetch_decode := fifo_set_pop_status_save True (co_fetch_decode s),
       co_decode_rename := fifo_set_pop_status_save True (co_decode_rename s),
       co_fifos := (\<lambda>u. replicate (unit_num u) (fifo_new 1 issue_execute_zero)),
       co_wb_ports := (\<lambda>u. replicate (unit_num u) (port_new execute_wb_zero)), co_lsu := replicate LSU_UNIT_NUM lsu_new\<rparr>)
    \<and> bus_inv b \<and> bus_layout b = bus_layout bus_start \<and> phy_reg_num r = PHY_REG_NUM \<and> arch_reg_num r = ARCH_REG_NUM
    \<and> regfile_size f = PHY_REG_NUM
    \<and> (\<forall>k < 1048576. bus_flat b (0x80000000 + k) = (if k < length img then img ! k else 0))"
proof -
  let ?bs = "load_blocks img"
  obtain z where z: "?bs = img @ replicate z 0" using load_blocks_eq [of img] by blast
  have find: "bus_find_slave_info bus_start (0x80000000 + of_nat k) = Some 0" if "k < 1048576" for k
  proof -
    have "unat (0x80000000 + of_nat k :: u32) \<in> region (slave_info_list bus_start ! 0)"
      using load_address [OF that] that by (simp add: bus_start_props(4) region_def)
    then show ?thesis using bus_find_unique [OF bus_start_props(2), of _ 0] by (simp add: bus_start_props(4))
  qed
  have ok: "\<forall>q \<in> set (byte_writes 0 ?bs). case request_write q of (n, a, v) \<Rightarrow> bus_mem_ok bus_start n a"
  proof
    fix q assume "q \<in> set (byte_writes 0 ?bs)"
    then obtain k v where q: "q = Bus_write8 (0x80000000 + of_nat k) v" "k < length ?bs"
      by (auto simp: byte_writes_def in_set_enumerate_eq)
    then have k: "k < 1048576" using assms(1) by simp
    have "unat (of_nat k :: u32) + 1 \<le> 1048576" using k by (simp add: unat_of_nat)
    then show "case request_write q of (n, a, v) \<Rightarrow> bus_mem_ok bus_start n a"
      by (simp add: q bus_mem_ok_def find [OF k] entry_mem_ok_def bus_start_props(4) access_ok_def)
  qed
  obtain b where b: "fold_opt bus_apply (byte_writes 0 ?bs) bus_start = Some b" "bus_inv b"
    "bus_flat b = apply_writes (map request_write (byte_writes 0 ?bs)) (bus_flat bus_start)"
    using bus_replay_mem [OF bus_start_props(2) ok] by blast
  have flat: "bus_flat bus_start (0x80000000 + k) = 0" if "k < 1048576" for k
    using find [OF that] that by (simp add: bus_flat_def bus_start_props(4) memory_init_def)
  have mem: "bus_flat b (0x80000000 + k) = (if k < length img then img ! k else 0)" if "k < 1048576" for k
  proof -
    have "bus_flat b (0x80000000 + k) = (if k < length ?bs then ?bs ! k else bus_flat bus_start (0x80000000 + k))"
      unfolding b(3) using assms(1) by (subst byte_writes_flat) simp_all
    then show ?thesis by (simp add: flat [OF that] z nth_append)
  qed
  obtain r where r: "rat_boot (co_rat s) = Some r" "phy_reg_num r = PHY_REG_NUM" "arch_reg_num r = ARCH_REG_NUM"
    using rat_boot_state [OF assms(2,3)] by blast
  obtain f where f: "fold_opt (\<lambda>i f. regfile_write i (0 :: u32) True f) [1..<32] (co_regfile s) = Some f" "regfile_size f = PHY_REG_NUM"
    using regfile_new_written unfolding assms(4) by blast
  show ?thesis
    using r f b(1,2) mem bus_layout_replay [OF bus_start_props(2) b(1)]
    by (intro exI [of _ b] exI [of _ r] exI [of _ f])
      (simp add: core_init_def bus_start_props(1) bus_load_eq csrfile_boot_init del: upt_rec_numeral)
qed


text \<open>What a reset needs of the processor, and what it gives.\<close>

definition core_sized :: "core \<Rightarrow> bool" where
  "core_sized s = (bus_inv (co_bus s) \<and> phy_reg_num (co_rat s) = PHY_REG_NUM \<and> arch_reg_num (co_rat s) = ARCH_REG_NUM
     \<and> regfile_size (co_regfile s) = PHY_REG_NUM \<and> bp_inv (co_bp s)
     \<and> (\<forall>(n, l) \<in> {(qsize (co_rob s), length (buffer (co_rob s))), (qsize (co_sb s), length (buffer (co_sb s))),
          (qsize (co_cpbuf s), length (buffer (co_cpbuf s))), (qsize (co_fetch_decode s), length (buffer (co_fetch_decode s))),
          (qsize (co_decode_rename s), length (buffer (co_decode_rename s))), (qsize (is_q (co_issue s)), length (buffer (is_q (co_issue s))))}.
          l = n \<and> 0 < n)
     \<and> \<not> pop_status_save (co_rob s) \<and> \<not> pop_status_save (co_sb s) \<and> \<not> pop_status_save (co_cpbuf s)
     \<and> \<not> pop_status_save (is_q (co_issue s))
     \<and> (\<forall>u. \<forall>f \<in> set (co_fifos s u). length (buffer f) = qsize f \<and> 0 < qsize f \<and> \<not> pop_status_save f) \<and> core_wired s
     \<and> (\<forall>u. \<forall>p \<in> set (co_wb_ports s u). \<not> p_enable (port_init_value p))
     \<and> FETCH_WIDTH < qsize (co_fetch_decode s)
     \<and> length (port_init_value (co_rename_readreg s)) = READREG_WIDTH \<and> (\<forall>x \<in> set (port_init_value (co_rename_readreg s)). \<not> p_enable x)
     \<and> length (port_init_value (co_readreg_issue s)) = READREG_WIDTH \<and> (\<forall>x \<in> set (port_init_value (co_readreg_issue s)). \<not> p_enable x)
     \<and> length (port_init_value (co_wb_commit s)) = EXECUTE_UNIT_NUM \<and> (\<forall>x \<in> set (port_init_value (co_wb_commit s)). \<not> p_enable x)
     \<and> int_request_q (co_int s) = [])"

lemma core_reset_ready:
  assumes "core_sized s"
  shows "\<exists>t. core_reset s = Some t \<and> core_ready t \<and> rat_holds (rat_lookup (co_rat t)) [] (co_rat t)
    \<and> (\<forall>a. rat_lookup (co_rat t) a = (if 1 \<le> a \<and> a < 32 then Some a else None))
    \<and> (\<forall>i < PHY_REG_NUM. regfile_read (co_regfile t) i = Some 0 \<and> regfile_read_data_valid (co_regfile t) i = Some (1 \<le> i \<and> i < 32))
    \<and> co_bus t = core_bus_reset (co_bus s) \<and> co_csr t = csrfile_reset (co_csr s)
    \<and> fe_pc (co_fetch t) = fe_init_pc (co_fetch s) \<and> fe_wait_first (co_fetch t) \<and> \<not> fe_jump_wait (co_fetch t)
    \<and> cpu_clock_cycle t = 0
    \<and> map (\<lambda>(_, _, v). v) (butlast (core_counters t)) = replicate 14 0"
proof -
  obtain r where r: "rat_boot (co_rat s) = Some r" "rat_inv r" "\<not> init_rat r" "phy_reg_num r = PHY_REG_NUM" "arch_reg_num r = ARCH_REG_NUM"
    "\<forall>a. rat_lookup r a = (if 1 \<le> a \<and> a < 32 then Some a else None)" "\<forall>j < PHY_REG_NUM. vld r j = (1 \<le> j \<and> j < 32)"
    using rat_boot_state [of "co_rat s"] assms by (auto simp: core_sized_def)
  obtain f where f: "regfile_boot (co_regfile s) = Some f" "regfile_inv f" "regfile_request_q f = []"
    "\<forall>i < PHY_REG_NUM. reg_data f ! i = 0 \<and> bm_bit (reg_data_valid f) i = (1 \<le> i \<and> i < 32)"
    using regfile_boot_state [of "co_regfile s"] assms by (auto simp: core_sized_def)
  have bp: "bp_inv (bp_reset (co_bp s))"
    using assms by (simp add: core_sized_def bp_inv_def bp_reset_def tables_zero zero_ok ras_reset_inv)
  have bus: "bus_inv (core_bus_reset (co_bus s))" "bus_request_q (core_bus_reset (co_bus s)) = []"
    using core_bus_reset_props assms by (simp_all add: core_sized_def)
  have holds: "rat_holds (rat_lookup r) [] r" by (rule booted_holds [OF r(2-7)])
  define t where "t = core_counters_reset (s\<lparr>co_bus := core_bus_reset (co_bus s), co_rat := r, co_rob := rob_reset (co_rob s), co_regfile := f,
       co_csr := csrfile_reset (co_csr s), co_sb := sb_reset (co_sb s), co_cpbuf := cpbuf_reset (co_cpbuf s),
       co_bp := bp_reset (co_bp s), co_int := int_reset (co_int s),
       co_fetch_decode := fifo_reset (co_fetch_decode s), co_decode_rename := fifo_reset (co_decode_rename s),
       co_rename_readreg := port_reset (co_rename_readreg s), co_readreg_issue := port_reset (co_readreg_issue s),
       co_fifos := map fifo_reset \<circ> co_fifos s, co_wb_ports := map port_reset \<circ> co_wb_ports s, co_wb_commit := port_reset (co_wb_commit s),
       co_fetch := fetch_reset (co_fetch s), co_rename := rename_reset (co_rename s), co_issue := issue_reset (co_issue s),
       co_lsu := map lsu_reset (co_lsu s), co_commit := commit_reset (co_commit s)\<rparr>)"
  have reset: "core_reset s = Some t" by (simp add: core_reset_def r(1) f(1) t_def)
  note t = t_def core_counters_reset_def
  have len: "\<And>u. length (co_fifos s u) = unit_num u" "\<And>u. length (co_wb_ports s u) = unit_num u" "length (co_lsu s) = LSU_UNIT_NUM"
    using assms by (simp_all add: core_sized_def core_wired_def)
  have units: "length (buffer (co_fifos s u ! k)) = qsize (co_fifos s u ! k)" "0 < qsize (co_fifos s u ! k)" "\<not> pop_status_save (co_fifos s u ! k)"
    "\<not> p_enable (port_init_value (co_wb_ports s u ! k))" if "k < unit_num u" for u k
  proof -
    have "co_fifos s u ! k \<in> set (co_fifos s u)" "co_wb_ports s u ! k \<in> set (co_wb_ports s u)" using that len(1,2) by simp_all
    then show "length (buffer (co_fifos s u ! k)) = qsize (co_fifos s u ! k)" "0 < qsize (co_fifos s u ! k)"
      "\<not> pop_status_save (co_fifos s u ! k)" "\<not> p_enable (port_init_value (co_wb_ports s u ! k))"
      using assms unfolding core_sized_def by blast+
  qed
  have quiet: "core_quiet t"
    using assms bus(2) rat_boot_quiet [OF r(1)] f(3)
    by (simp add: core_quiet_def t core_sized_def rob_reset_def csrfile_reset_def sb_reset_def cpbuf_reset_def bp_reset_def int_reset_def
        issue_reset_def iq_reset_def)
  have wired: "core_wired t" using len by (simp add: core_wired_def t)
  have drained: "core_drained t"
    using assms len units
    by (auto simp: core_drained_def t core_sized_def port_reset_def port_get_def issue_reset_def iq_reset_def lsu_reset_def fifo_items_def
        fifo_reset_def ring_items_def)
  have sound: "core_sound t"
    using assms bus(1) f(2) bp len units
    by (auto simp: core_sound_def t core_sized_def port_reset_def port_get_def issue_reset_def iq_reset_def rob_reset_def sb_reset_def
        cpbuf_reset_def fifo_inv_def fifo_reset_def fifo_reset_pop_status_def ring_ok_def ring_count_def bp_inv_def ras_inv_def ras_runs_def)
  have rest: "fifo_items (co_rob t) = []" "fifo_items (co_sb t) = []" "\<not> rn_busy (co_rename t)" "cm_state (co_commit t) = St_normal"
    "is_last_index (co_issue t) = 0" "is_index (co_issue t) = (\<lambda>_. 0)" "co_rat t = r" "co_regfile t = f"
    "co_bus t = core_bus_reset (co_bus s)" "co_csr t = csrfile_reset (co_csr s)" "fe_pc (co_fetch t) = fe_init_pc (co_fetch s)"
    "fe_wait_first (co_fetch t)" "\<not> fe_jump_wait (co_fetch t)" "cpu_clock_cycle t = 0"
    by (simp_all add: t rob_reset_def sb_reset_def fifo_items_def fifo_reset_def ring_items_def rename_reset_def commit_reset_def
        issue_reset_def fetch_reset_def)
  have "map (\<lambda>(_, _, v). v) (butlast (core_counters t)) = replicate 14 0"
    by (simp add: core_counters_def t eval_nat_numeral)
  with reset quiet sound wired drained rest holds r(6) f(2,4) show ?thesis
    by (intro exI [of _ t]) (simp add: core_ready_def regfile_read_eq regfile_read_data_valid_eq)
qed


lemma core_init_sized:
  assumes "length (load_blocks img) \<le> 1048576"
  shows "\<exists>s. core_init img (core_static cp junk junkw ri) = Some s \<and> core_sized s \<and> co_csr s = csrfile_init
    \<and> bus_layout (co_bus s) = bus_layout bus_start \<and> fe_init_pc (co_fetch s) = 0x80000000
    \<and> (\<forall>k < 1048576. bus_flat (co_bus s) (0x80000000 + k) = (if k < length img then img ! k else 0))"
proof -
  let ?c = "core_static cp junk junkw ri"
  note c = core_static_def Let_def
  have c1: "phy_reg_num (co_rat ?c) = PHY_REG_NUM" "arch_reg_num (co_rat ?c) = ARCH_REG_NUM" "co_regfile ?c = regfile_new 0 PHY_REG_NUM"
    by (simp_all add: c rat_new_def)
  from core_init_state [OF assms c1] obtain b r f where i: "core_init img ?c = Some (?c\<lparr>co_bus := b, co_rat := r, co_regfile := f,
       co_csr := csrfile_init, co_fetch_decode := fifo_set_pop_status_save True (co_fetch_decode ?c),
       co_decode_rename := fifo_set_pop_status_save True (co_decode_rename ?c),
       co_fifos := (\<lambda>u. replicate (unit_num u) (fifo_new 1 issue_execute_zero)),
       co_wb_ports := (\<lambda>u. replicate (unit_num u) (port_new execute_wb_zero)), co_lsu := replicate LSU_UNIT_NUM lsu_new\<rparr>)"
    "bus_inv b" "bus_layout b = bus_layout bus_start" "phy_reg_num r = PHY_REG_NUM" "arch_reg_num r = ARCH_REG_NUM" "regfile_size f = PHY_REG_NUM"
    "\<forall>k < 1048576. bus_flat b (0x80000000 + k) = (if k < length img then img ! k else 0)" by blast
  define s where "s = ?c\<lparr>co_bus := b, co_rat := r, co_regfile := f,
       co_csr := csrfile_init, co_fetch_decode := fifo_set_pop_status_save True (co_fetch_decode ?c),
       co_decode_rename := fifo_set_pop_status_save True (co_decode_rename ?c),
       co_fifos := (\<lambda>u. replicate (unit_num u) (fifo_new 1 issue_execute_zero)),
       co_wb_ports := (\<lambda>u. replicate (unit_num u) (port_new execute_wb_zero)), co_lsu := replicate LSU_UNIT_NUM lsu_new\<rparr>"
  have "core_sized s"
    using i(2,4-6) zero_disabled bp_new_inv
    by (auto simp: core_sized_def core_wired_def s_def c rob_new_def fifo.extend_def fifo_new_def checkpoint_buffer.defs store_buffer.defs
        issue_queue.defs fifo_set_pop_status_save_def fifo_reset_pop_status_def port_new_def rename_pack_def int_new_def
        RENAME_WIDTH_def READREG_WIDTH_def FETCH_WIDTH_def)
  moreover have "fe_init_pc (co_fetch s) = 0x80000000" by (simp add: s_def c)
  ultimately show ?thesis using i(1,3,7) by (intro exI [of _ s]) (simp add: s_def)
qed

lemma core_boot_start:
  assumes "length (load_blocks img) \<le> 1048576"
  shows "\<exists>s. core_boot img (core_static cp junk junkw ri) = Some s \<and> core_ready s \<and> rat_holds (rat_lookup (co_rat s)) [] (co_rat s)
    \<and> (\<forall>a. rat_lookup (co_rat s) a = (if 1 \<le> a \<and> a < 32 then Some a else None))
    \<and> (\<forall>i < PHY_REG_NUM. regfile_read (co_regfile s) i = Some 0 \<and> regfile_read_data_valid (co_regfile s) i = Some (1 \<le> i \<and> i < 32))
    \<and> co_csr s = csrfile_init \<and> bus_layout (co_bus s) = bus_layout bus_start
    \<and> (\<forall>k < 1048576. bus_flat (co_bus s) (0x80000000 + k) = (if k < length img then img ! k else 0))
    \<and> fe_pc (co_fetch s) = 0x80000000 \<and> fe_wait_first (co_fetch s) \<and> \<not> fe_jump_wait (co_fetch s)
    \<and> cpu_clock_cycle s = 0 \<and> map (\<lambda>(_, _, v). v) (butlast (core_counters s)) = replicate 14 0"
proof -
  from core_init_sized [OF assms] obtain s where s: "core_init img (core_static cp junk junkw ri) = Some s" "core_sized s"
    "co_csr s = csrfile_init" "bus_layout (co_bus s) = bus_layout bus_start" "fe_init_pc (co_fetch s) = 0x80000000"
    "\<forall>k < 1048576. bus_flat (co_bus s) (0x80000000 + k) = (if k < length img then img ! k else 0)" by blast
  have b: "bus_inv (co_bus s)" using s(2) by (simp add: core_sized_def)
  from core_reset_ready [OF s(2)] s(1) show ?thesis
    unfolding core_boot_def s(3,5) csrfile_reset_init bind.simps by (auto simp: core_bus_reset_props [OF b] s(4,6))
qed

text \<open>C11: start-up.  Whatever the memory of the freshly constructed tables holds, \<open>init\<close> followed by
  \<open>reset\<close> does not abort when the program file, padded to whole blocks, fits in the memory.  Every
  component is then well formed with no request pending, every queue and port between the stages is
  empty, each architectural register but the first is mapped to the physical register of its number,
  which holds a valid zero, the control registers have their initial values, the memory holds the
  program and zeros behind it, all counters that \<open>reset\<close> clears are zero, and the fetch stage stands at
  the start of the memory.\<close>

theorem core_boot_ready:
  assumes "length (load_blocks img) \<le> 1048576"
  shows "\<exists>s. core_boot img (core_static cp junk junkw ri) = Some s \<and> core_ready s \<and> rat_holds (rat_lookup (co_rat s)) [] (co_rat s)
    \<and> (\<forall>a. rat_lookup (co_rat s) a = (if 1 \<le> a \<and> a < 32 then Some a else None))
    \<and> (\<forall>i < PHY_REG_NUM. regfile_read (co_regfile s) i = Some 0 \<and> regfile_read_data_valid (co_regfile s) i = Some (1 \<le> i \<and> i < 32))
    \<and> co_csr s = csrfile_init \<and> bus_layout (co_bus s) = bus_layout bus_start
    \<and> (\<forall>k < 1048576. bus_flat (co_bus s) (0x80000000 + k) = (if k < length img then img ! k else 0))
    \<and> fe_pc (co_fetch s) = 0x80000000 \<and> fe_wait_first (co_fetch s) \<and> \<not> fe_jump_wait (co_fetch s)
    \<and> cpu_clock_cycle s = 0 \<and> map (\<lambda>(_, _, v). v) (butlast (core_counters s)) = replicate 14 0"
  by (rule core_boot_start [OF assms])

text \<open>A program of two words, the second one a jump to itself.\<close>

definition image_demo :: "u8 list" where
  "image_demo = [0x13, 0, 0, 0, 0x6F, 0, 0, 0]"

lemma image_demo_fits: "length (load_blocks image_demo) \<le> 1048576"
  using load_blocks_eq [of image_demo] by (auto simp: image_demo_def)

theorem core_boot_ready_witness:
  "\<exists>s. core_boot image_demo (core_static (cp_sample 0) 9 5 \<lparr>ras_addr = 0, ras_cnt = 0\<rparr>) = Some s \<and> core_ready s
     \<and> bus_flat (co_bus s) 0x80000004 = 0x6F \<and> bus_flat (co_bus s) 0x80000008 = 0"
proof -
  from core_boot_ready [OF image_demo_fits, of "cp_sample 0" 9 5 "\<lparr>ras_addr = 0, ras_cnt = 0\<rparr>"] obtain s where
    s: "core_boot image_demo (core_static (cp_sample 0) 9 5 \<lparr>ras_addr = 0, ras_cnt = 0\<rparr>) = Some s" "core_ready s"
    and m: "\<forall>k < 1048576. bus_flat (co_bus s) (0x80000000 + k) = (if k < length image_demo then image_demo ! k else 0)" by blast
  from m [rule_format, of 4] m [rule_format, of 8] s show ?thesis by (simp add: image_demo_def)
qed

end
