(* ===== verification/Core_Flush.thy ===== *)
theory Core_Flush
  imports Core_Start
begin

text \<open>
  A flush: whatever the stages between fetch and commit hold, one cycle of them under a flushing
  feedback leaves nothing of it, and the fetch stage goes on at the address of the feedback.
\<close>

lemma core_unit_order_set: "set core_unit_order = {(u, k). k < unit_num u}"
proof -
  have "set core_units = UNIV"
  proof -
    have "u \<in> set core_units" for u by (cases u) (simp_all add: core_units_def)
    then show ?thesis by blast
  qed
  then have "(u, k) \<in> set core_unit_order \<longleftrightarrow> k < unit_num u" for u k by (auto simp: core_unit_order_def image_iff)
  then show ?thesis by auto
qed

text \<open>The effect of a unit on its output port and on the busy flag of the load-store unit.\<close>

definition unit_cleared :: "op_unit_t \<Rightarrow> nat \<Rightarrow> (op_unit_t \<Rightarrow> wb_port list) \<Rightarrow> op_unit_t \<Rightarrow> wb_port list" where
  "unit_cleared u k ps = ps(u := (ps u)[k := port_set execute_wb_zero (ps u ! k)])"

definition lsu_cleared :: "op_unit_t \<Rightarrow> nat \<Rightarrow> lsu_state list \<Rightarrow> lsu_state list" where
  "lsu_cleared u k ls = (if u = Unit_lsu then ls[k := (ls ! k)\<lparr>lsu_busy := False\<rparr>] else ls)"

text \<open>A unit that is flushed or has nothing to do.\<close>

definition unit_quiet :: "commit_feedback_pack_t \<Rightarrow> core \<Rightarrow> op_unit_t \<Rightarrow> nat \<Rightarrow> bool" where
  "unit_quiet cf s u k = (cf_flushing cf \<or> (fifo_is_empty (co_fifos s u ! k) \<and> (u = Unit_lsu \<longrightarrow> \<not> lsu_busy (co_lsu s ! k))))"

lemma lsu_idle: "\<not> lsu_busy l \<Longrightarrow> l\<lparr>lsu_busy := False\<rparr> = l"
  by (cases l) simp

lemma lsu_stays_idle: "\<not> lsu_busy (ls ! j) \<Longrightarrow> \<not> lsu_busy (lsu_cleared u k ls ! j)"
  by (cases "j = k"; cases "k < length ls") (auto simp: lsu_cleared_def not_less list_update_beyond)

lemma core_unit_rests:
  assumes "unit_quiet cf s u k"
  shows "\<exists>c. core_unit cf u k s
    = Some (c, s\<lparr>co_wb_ports := unit_cleared u k (co_wb_ports s), co_lsu := lsu_cleared u k (co_lsu s)\<rparr>) \<and> \<not> fb_enable c"
proof -
  have "\<not> p_enable execute_wb_zero" by (rule zero_disabled)
  then show ?thesis using assms
    by (cases u) (auto simp: unit_quiet_def alu_run_def mul_run_def div_run_def exec_run_def bru_run_def csr_run_def lsu_run_def
      core_unit_set_def unit_cleared_def lsu_cleared_def exec_feedback_def feedback_none_def lsu_idle)
qed

definition cleared :: "(op_unit_t \<times> nat) list \<Rightarrow> (op_unit_t \<Rightarrow> wb_port list) \<Rightarrow> op_unit_t \<Rightarrow> wb_port list" where
  "cleared us ps = fold (\<lambda>(u, k). unit_cleared u k) us ps"

lemma core_execute_rests:
  assumes "\<forall>(u, k) \<in> set us. unit_quiet cf s u k"
  shows "\<exists>cs. core_execute cf us s
    = Some (cs, s\<lparr>co_wb_ports := cleared us (co_wb_ports s), co_lsu := fold (\<lambda>(u, k). lsu_cleared u k) us (co_lsu s)\<rparr>)
    \<and> length cs = length us \<and> (\<forall>c \<in> set cs. \<not> fb_enable c)"
  using assms
proof (induction us arbitrary: s)
  case (Cons x us)
  obtain u k where x: "x = (u, k)" by (cases x)
  let ?t = "s\<lparr>co_wb_ports := unit_cleared u k (co_wb_ports s), co_lsu := lsu_cleared u k (co_lsu s)\<rparr>"
  obtain c where "core_unit cf u k s = Some (c, ?t)" "\<not> fb_enable c" using core_unit_rests [of cf s u k] Cons.prems x by auto
  moreover have "unit_quiet cf ?t v j" if "unit_quiet cf s v j" for v j
    using that lsu_stays_idle by (auto simp: unit_quiet_def)
  with Cons.prems have "\<forall>(u, k) \<in> set us. unit_quiet cf ?t u k" by fastforce
  from Cons.IH [OF this] obtain cs where "core_execute cf us ?t
    = Some (cs, ?t\<lparr>co_wb_ports := cleared us (co_wb_ports ?t), co_lsu := fold (\<lambda>(u, k). lsu_cleared u k) us (co_lsu ?t)\<rparr>)"
    "length cs = length us" "\<forall>c \<in> set cs. \<not> fb_enable c" by blast
  ultimately show ?case by (simp add: x cleared_def)
qed (simp add: cleared_def)

lemma cleared_ports:
  "length (cleared us ps u) = length (ps u)"
  "k < length (ps u) \<Longrightarrow> port_get (cleared us ps u ! k) = (if (u, k) \<in> set us then execute_wb_zero else port_get (ps u ! k))"
proof -
  have l: "length (unit_cleared v j ps u) = length (ps u)" for v j ps by (simp add: unit_cleared_def)
  show len: "length (cleared us ps u) = length (ps u)"
    by (induction us arbitrary: ps) (auto simp: cleared_def l)
  have "k < length (ps u) \<longrightarrow> port_get (cleared us ps u ! k) = (if (u, k) \<in> set us then execute_wb_zero else port_get (ps u ! k))"
  proof (induction us arbitrary: ps)
    case (Cons x us)
    obtain v j where x: "x = (v, j)" by (cases x)
    have "cleared (x # us) ps = cleared us (unit_cleared v j ps)" by (simp add: cleared_def x)
    moreover have "k < length (ps u) \<longrightarrow> port_get (unit_cleared v j ps u ! k) = (if (u, k) = (v, j) then execute_wb_zero else port_get (ps u ! k))"
      by (auto simp: unit_cleared_def nth_list_update)
    ultimately show ?case using Cons.IH [of "unit_cleared v j ps"] l by (auto simp: x)
  qed (simp add: cleared_def)
  then show "k < length (ps u) \<Longrightarrow> port_get (cleared us ps u ! k) = (if (u, k) \<in> set us then execute_wb_zero else port_get (ps u ! k))"
    by blast
qed

definition cleared_lsu :: "(op_unit_t \<times> nat) list \<Rightarrow> lsu_state list \<Rightarrow> lsu_state list" where
  "cleared_lsu us ls = fold (\<lambda>(u, k). lsu_cleared u k) us ls"

lemma cleared_lsu:
  "length (cleared_lsu us ls) = length ls"
  "k < length ls \<Longrightarrow> lsu_busy (cleared_lsu us ls ! k) = (lsu_busy (ls ! k) \<and> (Unit_lsu, k) \<notin> set us)"
proof -
  have l: "length (lsu_cleared v j ls) = length ls" for v j ls by (simp add: lsu_cleared_def)
  show "length (cleared_lsu us ls) = length ls"
    by (induction us arbitrary: ls) (auto simp: cleared_lsu_def l)
  have "k < length ls \<longrightarrow> lsu_busy (cleared_lsu us ls ! k) = (lsu_busy (ls ! k) \<and> (Unit_lsu, k) \<notin> set us)"
  proof (induction us arbitrary: ls)
    case (Cons x us)
    obtain v j where x: "x = (v, j)" by (cases x)
    have "cleared_lsu (x # us) ls = cleared_lsu us (lsu_cleared v j ls)" by (simp add: cleared_lsu_def x)
    moreover have "k < length ls \<longrightarrow> lsu_busy (lsu_cleared v j ls ! k) = (lsu_busy (ls ! k) \<and> (Unit_lsu, k) \<noteq> (v, j))"
      by (cases "j = k") (simp_all add: lsu_cleared_def)
    ultimately show ?case using Cons.IH [of "lsu_cleared v j ls"] l by (auto simp: x)
  qed (simp add: cleared_lsu_def)
  then show "k < length ls \<Longrightarrow> lsu_busy (cleared_lsu us ls ! k) = (lsu_busy (ls ! k) \<and> (Unit_lsu, k) \<notin> set us)"
    by blast
qed

definition redirect :: "commit_feedback_pack_t \<Rightarrow> u32 \<Rightarrow> u32" where
  "redirect cf pc = (if cf_has_exception cf then cf_exception_pc cf else if cf_jump_enable cf then cf_next_pc cf else pc)"

lemma core_flush_stages:
  assumes "cf_flushing cf" "core_wired s" "\<not> fe_wait_first (co_fetch s)"
  shows "\<exists>t. core_stages junk cf s = Some t \<and> core_drained t \<and> core_wired t
    \<and> fe_pc (co_fetch t) = redirect cf (fe_pc (co_fetch s)) \<and> \<not> fe_jump_wait (co_fetch t)
    \<and> co_rat t = co_rat s \<and> co_rob t = co_rob s \<and> co_bus t = co_bus s \<and> co_sb t = co_sb s \<and> co_regfile t = co_regfile s
    \<and> co_csr t = co_csr s \<and> co_cpbuf t = co_cpbuf s \<and> co_bp t = co_bp s
    \<and> co_commit t = co_commit s \<and> co_int t = co_int s \<and> \<not> fe_wait_first (co_fetch t)"
proof -
  have w: "\<And>u. length (co_fifos s u) = unit_num u" "\<And>u. length (co_wb_ports s u) = unit_num u" "length (co_lsu s) = LSU_UNIT_NUM"
    using assms(2) by (simp_all add: core_wired_def)
  define s1 where "s1 = s\<lparr>co_wb_commit := port_set (replicate EXECUTE_UNIT_NUM execute_wb_zero) (co_wb_commit s)\<rparr>"
  define ws where "ws = replicate EXECUTE_UNIT_NUM feedback_zero_channel"
  have wb: "core_wb cf s = (ws, s1)" using assms(1) by (simp add: core_wb_def wb_run_def s1_def ws_def)
  define s2 where "s2 = s1\<lparr>co_wb_ports := cleared core_unit_order (co_wb_ports s1),
      co_lsu := cleared_lsu core_unit_order (co_lsu s1)\<rparr>"
  obtain es where ex: "core_execute cf core_unit_order s1 = Some (es, s2)"
    unfolding s2_def cleared_lsu_def using core_execute_rests [of core_unit_order cf s1] assms(1)
    by (auto simp: unit_quiet_def)
  have ports: "length (co_wb_ports s2 u) = unit_num u" "k < unit_num u \<Longrightarrow> \<not> p_enable (port_get (co_wb_ports s2 u ! k))" for u k
    using cleared_ports [where us = core_unit_order and ps = "co_wb_ports s" and u = u] w(2) core_unit_order_set zero_disabled(1)
    by (simp_all add: s2_def s1_def)
  have lsu: "\<forall>l \<in> set (co_lsu s2). \<not> lsu_busy l" "length (co_lsu s2) = LSU_UNIT_NUM"
    using cleared_lsu [where us = core_unit_order and ls = "co_lsu s"] w(3) core_unit_order_set
    by (auto simp: s2_def s1_def in_set_conv_nth LSU_UNIT_NUM_def)
  show ?thesis
    using assms ex w(1) ports lsu zero_disabled
    by (simp add: core_stages_def wb core_issue_def issue_run_def core_readreg_def readreg_run_def core_rename_def rename_run_def
        core_decode_def decode_run_def cf_flushing_def core_fetch_def fetch_run_def fetch_flush_def redirect_def core_drained_def core_wired_def
        rename_pack_def Let_def) (simp add: s2_def s1_def)
qed

text \<open>C10: when the commit stage answers a flush, for a misprediction, an exception, an interrupt or
  \<open>mret\<close>, the cycle of the other stages never aborts and leaves no instruction between fetch and
  commit: all queues and ports are empty, no store is held back, no stage waits; alias table, reorder
  buffer, bus and store buffer are not touched by them, no result reaches the register file, and the
  fetch stage goes on at the address that the commit stage gives.\<close>

theorem core_flush_drains:
  assumes "cf_flushing cf" "core_wired s" "\<not> fe_wait_first (co_fetch s)"
  shows "\<exists>t. core_stages junk cf s = Some t \<and> core_drained t \<and> core_wired t
    \<and> fe_pc (co_fetch t) = redirect cf (fe_pc (co_fetch s)) \<and> \<not> fe_jump_wait (co_fetch t)
    \<and> co_rat t = co_rat s \<and> co_rob t = co_rob s \<and> co_bus t = co_bus s \<and> co_sb t = co_sb s \<and> co_regfile t = co_regfile s
    \<and> co_csr t = co_csr s \<and> co_cpbuf t = co_cpbuf s \<and> co_bp t = co_bp s"
  using core_flush_stages [OF assms, of junk] by blast

text \<open>The trap of an instruction in the freshly started processor.\<close>

definition trap_demo_feedback :: commit_feedback_pack_t where
  "trap_demo_feedback = commit_feedback_zero\<lparr>cf_enable := True, cf_flush := True, cf_has_exception := True, cf_exception_pc := 0x80000100\<rparr>"

theorem core_flush_drains_witness:
  "\<exists>s t. core_boot image_demo (core_static (cp_sample 0) 9 5 \<lparr>ras_addr = 0, ras_cnt = 0\<rparr>) = Some s
     \<and> core_stages (cp_sample 0) trap_demo_feedback (s\<lparr>co_fetch := (co_fetch s)\<lparr>fe_wait_first := False\<rparr>\<rparr>) = Some t
     \<and> core_drained t \<and> fe_pc (co_fetch t) = 0x80000100"
proof -
  from core_boot_start [OF image_demo_fits, of "cp_sample 0" 9 5 "\<lparr>ras_addr = 0, ras_cnt = 0\<rparr>"] obtain s where
    s: "core_boot image_demo (core_static (cp_sample 0) 9 5 \<lparr>ras_addr = 0, ras_cnt = 0\<rparr>) = Some s" "core_ready s" by blast
  let ?s = "s\<lparr>co_fetch := (co_fetch s)\<lparr>fe_wait_first := False\<rparr>\<rparr>"
  have "cf_flushing trap_demo_feedback" "core_wired ?s" "\<not> fe_wait_first (co_fetch ?s)"
    using s(2) by (simp_all add: trap_demo_feedback_def cf_flushing_def core_ready_def core_wired_def)
  from core_flush_drains [OF this, of "cp_sample 0"] s(1) show ?thesis by (auto simp: redirect_def trap_demo_feedback_def)
qed

end
