(* ===== verification/Core_Idle.thy ===== *)
theory Core_Idle
  imports Core_Flush
begin

text \<open>
  The processor with nothing in flight: each stage passes on that there is nothing, and a cycle
  changes only the clock, the counters and what the fetch stage brings in.
\<close>

section \<open>Stages with nothing to do\<close>

lemma no_flush_zero: "\<not> cf_flushing commit_feedback_zero" "\<not> cf_enable commit_feedback_zero"
  by (simp_all add: cf_flushing_def commit_feedback_zero_def)

lemma commit_input_none: "\<forall>p \<in> set ps. \<not> p_enable p \<Longrightarrow> fold_opt commit_input_one ps b = Some b"
  by (induction ps) (simp_all add: commit_input_one_def)

lemma commit_idle:
  assumes "fifo_inv (cm_rob s)" "fifo_items (cm_rob s) = []" "cm_state s = St_normal" "\<forall>p \<in> set (port_get (cm_in s)). \<not> p_enable p"
  shows "commit_run s = Some (commit_feedback_zero, s)"
  using assms commit_input_none [OF assms(4)]
  by (simp add: commit_run_def commit_output_def commit_input_def fifo_empty_iff)

lemma wb_idle: "\<forall>p \<in> set ps. \<not> p_enable (port_get p) \<Longrightarrow> wb_units ps f = (map port_get ps, replicate (length ps) feedback_zero_channel, f)"
  by (induction ps) (simp_all add: wb_unit_def wb_writes_def)

lemma issue_accept_none:
  assumes "\<forall>x \<in> set (port_get (is_in s)). \<not> p_enable x" "\<forall>j \<in> set js. j < length (port_get (is_in s))"
  shows "issue_accept es ws js s = Some (True, s\<lparr>is_last_index := READREG_WIDTH\<rparr>)"
  using assms
proof (induction js arbitrary: s)
  case (Cons j js)
  then have "\<not> p_enable (port_get (is_in s) ! j)" by simp
  then show ?case using Cons.prems Cons.IH [of "s\<lparr>is_last_index := j\<rparr>"] by (simp add: array_get_def)
qed simp

lemma issue_idle:
  assumes "fifo_inv (is_q s)" "fifo_items (is_q s) = []" "iq_request_q (is_q s) = []" "\<not> is_busy s" "\<not> is_waiting s" "is_last_index s = 0"
    and "length (port_get (is_in s)) = READREG_WIDTH" "\<forall>x \<in> set (port_get (is_in s)). \<not> p_enable x" "\<not> cf_flushing cf"
  shows "issue_run es ws cf s = Some (False, s)"
proof -
  let ?s = "s\<lparr>is_busy := True, is_last_index := 0\<rparr>"
  have e: "fifo_is_empty (is_q s)" using assms(1,2) by (simp add: fifo_empty_iff)
  have w: "s\<lparr>is_waiting := False\<rparr> = s" "s\<lparr>is_q := is_q s\<rparr> = s" using assms(5) by simp_all
  have out: "issue_output es ws cf s = Some ([], s)" using assms(5) e w(1) by (simp add: issue_output_def Let_def)
  have wake: "issue_wake_all es ws [] (is_q s) = Some (is_q s)" using e by (simp add: issue_wake_all_def iq_get_front_id_def)
  have acc: "issue_accept es ws [0..<READREG_WIDTH] ?s = Some (True, ?s\<lparr>is_last_index := READREG_WIDTH\<rparr>)"
    by (rule issue_accept_none) (use assms(7,8) in simp_all)
  have "s\<lparr>is_busy := False, is_last_index := 0\<rparr> = s" using assms(4,6) by simp
  then have inp: "issue_input es ws s = Some s" using acc assms(4) by (simp add: issue_input_def)
  have "iq_compress [] ((is_q s)\<lparr>iq_request_q := q\<rparr>) = Some ((is_q s)\<lparr>iq_request_q := q\<rparr>)" for q
    by (simp add: iq_compress_def split: option.split)
  then have "iq_sync (iq_compress_sync [] (is_q s)) = Some (is_q s)"
    using assms(3) by (simp add: iq_sync_def iq_compress_sync_def)
  with out wake inp w(2) assms(4,9) show ?thesis by (simp add: issue_run_def)
qed

lemma readreg_idle:
  assumes "\<forall>x \<in> set ops. \<not> p_enable x"
  shows "\<exists>ys. map_opt (readreg_op es ws f) ops = Some ys \<and> length ys = length ops \<and> (\<forall>y \<in> set ys. \<not> p_enable y)"
  using assms
proof (induction ops)
  case (Cons x ops)
  then obtain ys where "map_opt (readreg_op es ws f) ops = Some ys" "length ys = length ops" "\<forall>y \<in> set ys. \<not> p_enable y" by auto
  moreover have "\<exists>y. readreg_op es ws f x = Some y \<and> \<not> p_enable y" using Cons.prems
    by (simp add: readreg_op_def readreg_receive_def rename_readreg_op_info_t.defs)
  ultimately show ?case by auto
qed simp

lemma rename_idle:
  assumes "fifo_inv (rn_in s)" "fifo_items (rn_in s) = []" "rat_running (rn_rat s)" "checkpoint_ok junk" "\<not> cf_flushing cf"
  shows "rename_run junk False cf s = Some (True, s\<lparr>rn_out := port_set (rename_pack []) (rn_out s)\<rparr>)"
proof -
  have e: "fifo_is_empty (rn_in s)" using assms(1,2) by (simp add: fifo_empty_iff)
  then have f: "fifo_get_front (rn_in s) = None" by (simp add: fifo_get_front_def)
  obtain cp where "rat_save (rn_rat s) junk = Some cp"
    using rat_save_eq [OF rat_inv_wf _ assms(4)] assms(3) by (auto simp: rat_running_def)
  then show ?thesis using e f assms(5)
    by (simp add: rename_run_def RENAME_WIDTH_def numeral_eq_Suc rename_stage.extend_def rename_stage.truncate_def rename_vars.fields_def)
qed

lemma decode_idle:
  assumes "fifo_inv (ds_in s)" "fifo_items (ds_in s) = []" "\<not> cf_flushing cf"
  shows "decode_run cf s = Some (True, s)"
proof -
  have e: "fifo_is_empty (ds_in s)" using assms(1,2) by (simp add: fifo_empty_iff)
  then have "fold_opt (\<lambda>_. decode_step) ks s = Some s" for ks :: "nat list" by (induction ks) (simp_all add: decode_step_def)
  with e assms(3) show ?thesis by (simp add: decode_run_def cf_flushing_def)
qed


section \<open>The stages of an idle processor\<close>

text \<open>Everything but the contents of the pipeline registers is as before.\<close>

definition core_same :: "core \<Rightarrow> core \<Rightarrow> bool" where
  "core_same s t = (co_bus t = co_bus s \<and> co_rat t = co_rat s \<and> co_rob t = co_rob s \<and> co_regfile t = co_regfile s \<and> co_csr t = co_csr s
     \<and> co_sb t = co_sb s \<and> co_cpbuf t = co_cpbuf s \<and> co_bp t = co_bp s \<and> co_int t = co_int s \<and> co_fetch t = co_fetch s
     \<and> co_fetch_decode t = co_fetch_decode s \<and> co_decode_rename t = co_decode_rename s \<and> co_fifos t = co_fifos s \<and> co_commit t = co_commit s
     \<and> cpu_clock_cycle t = cpu_clock_cycle s)"

lemma core_stages_idle:
  assumes "core_ready s" "fifo_inv (co_fetch_decode s)" "fifo_inv (co_decode_rename s)" "rat_running (co_rat s)" "checkpoint_ok junk"
    and "\<not> cf_flushing cf"
  shows "\<exists>t. core_stages junk cf s = core_fetch junk True True cf t \<and> core_ready t \<and> core_same s t"
proof -
  note r = assms(1)[unfolded core_ready_def]
  have w: "\<And>u. length (co_fifos s u) = unit_num u" "\<And>u. length (co_wb_ports s u) = unit_num u" "length (co_lsu s) = LSU_UNIT_NUM"
    using r by (simp_all add: core_wired_def)
  have d: "fifo_items (co_fetch_decode s) = []" "fifo_items (co_decode_rename s) = []" "fifo_items (is_q (co_issue s)) = []"
    "\<forall>x \<in> set (port_get (co_rename_readreg s)). \<not> p_enable x" "\<forall>x \<in> set (port_get (co_readreg_issue s)). \<not> p_enable x"
    "\<not> is_busy (co_issue s)" "\<not> is_waiting (co_issue s)" "\<forall>l \<in> set (co_lsu s). \<not> lsu_busy l" "\<forall>x \<in> set (port_get (co_wb_commit s)). \<not> p_enable x"
    "\<And>u k. k < unit_num u \<Longrightarrow> fifo_items (co_fifos s u ! k) = [] \<and> \<not> p_enable (port_get (co_wb_ports s u ! k))"
    using r by (simp_all add: core_drained_def)
  have i: "fifo_inv (is_q (co_issue s))" "iq_request_q (is_q (co_issue s)) = []" "is_last_index (co_issue s) = 0"
    "length (port_get (co_readreg_issue s)) = READREG_WIDTH" "length (port_get (co_wb_commit s)) = EXECUTE_UNIT_NUM"
    "\<And>u k. k < unit_num u \<Longrightarrow> fifo_inv (co_fifos s u ! k)"
    using r by (simp_all add: core_sound_def core_quiet_def)
  let ?ps = "wb_init (co_wb_ports s Unit_alu) (co_wb_ports s Unit_bru) (co_wb_ports s Unit_csr) (co_wb_ports s Unit_div)
    (co_wb_ports s Unit_lsu) (co_wb_ports s Unit_mul)"
  have off: "\<forall>p \<in> set (co_wb_ports s u). \<not> p_enable (port_get p)" for u
    using d(10) w(2) by (metis in_set_conv_nth)
  then have off: "\<forall>p \<in> set ?ps. \<not> p_enable (port_get p)" by (auto simp: wb_init_def)
  have n: "length ?ps = EXECUTE_UNIT_NUM" by (simp add: wb_init_def w(2) EXECUTE_UNIT_NUM_def)
  define s1 where "s1 = s\<lparr>co_wb_commit := port_set (map port_get ?ps) (co_wb_commit s)\<rparr>"
  have wb: "core_wb cf s = (replicate (length ?ps) feedback_zero_channel, s1)"
    using assms(6) wb_idle [OF off] by (simp add: core_wb_def wb_run_def s1_def Let_def)
  have "\<forall>(u, k) \<in> set core_unit_order. unit_quiet cf s1 u k"
    using d(8,10) i(6) w(3) by (auto simp: core_unit_order_set unit_quiet_def s1_def fifo_empty_iff LSU_UNIT_NUM_def)
  from core_execute_rests [OF this] obtain es where ex: "core_execute cf core_unit_order s1
      = Some (es, s1\<lparr>co_wb_ports := cleared core_unit_order (co_wb_ports s1), co_lsu := cleared_lsu core_unit_order (co_lsu s1)\<rparr>)"
    by (auto simp: cleared_lsu_def)
  define s2 where "s2 = s1\<lparr>co_wb_ports := cleared core_unit_order (co_wb_ports s1), co_lsu := cleared_lsu core_unit_order (co_lsu s1)\<rparr>"
  define iss where "iss = (co_issue s)\<lparr>is_in := co_readreg_issue s, is_fifos := co_fifos s, is_regfile := co_regfile s, is_sb := co_sb s\<rparr>"
  let ?ws = "replicate (length ?ps) feedback_zero_channel"
  have issue: "issue_run es ?ws cf iss = Some (False, iss)"
    by (rule issue_idle) (use i(1-4) d(3,5-7) assms(6) in \<open>simp_all add: iss_def\<close>)
  have ri: "core_issue es ?ws cf s2 = Some (False, s2\<lparr>co_issue := iss\<rparr>)"
    using issue by (simp add: core_issue_def s2_def s1_def iss_def)
  define s3 where "s3 = s2\<lparr>co_issue := iss\<rparr>"
  obtain ys where ys: "map_opt (readreg_op es ?ws (co_regfile s)) (port_get (co_rename_readreg s)) = Some ys"
    "length ys = length (port_get (co_rename_readreg s))" "\<forall>y \<in> set ys. \<not> p_enable y" using readreg_idle [OF d(4)] by blast
  define s4 where "s4 = s3\<lparr>co_readreg_issue := port_set ys (co_readreg_issue s)\<rparr>"
  have rr: "core_readreg False es ?ws cf s3 = Some s4"
    using ys(1) assms(6) by (simp add: core_readreg_def readreg_run_def s4_def s3_def s2_def s1_def)
  define ren where "ren = (co_rename s)\<lparr>rn_in := co_decode_rename s, rn_out := co_rename_readreg s, rn_rat := co_rat s,
       rn_rob := co_rob s, rn_cpbuf := co_cpbuf s\<rparr>"
  have "rename_run junk False cf ren = Some (True, ren\<lparr>rn_out := port_set (rename_pack []) (co_rename_readreg s)\<rparr>)"
    using rename_idle [of ren junk cf] assms(3-6) d(2) by (simp add: ren_def)
  then have rn: "core_rename junk False cf s4
      = Some (True, s4\<lparr>co_rename := ren\<lparr>rn_out := port_set (rename_pack []) (co_rename_readreg s)\<rparr>,
          co_rename_readreg := port_set (rename_pack []) (co_rename_readreg s)\<rparr>)"
    by (simp add: core_rename_def s4_def s3_def s2_def s1_def ren_def)
  define s5 where "s5 = s4\<lparr>co_rename := ren\<lparr>rn_out := port_set (rename_pack []) (co_rename_readreg s)\<rparr>,
          co_rename_readreg := port_set (rename_pack []) (co_rename_readreg s)\<rparr>"
  define dec where "dec = (co_decode s)\<lparr>ds_in := co_fetch_decode s, ds_out := co_decode_rename s\<rparr>"
  have "decode_run cf dec = Some (True, dec)" using decode_idle [of dec cf] assms(2,6) d(1) by (simp add: dec_def)
  then have de: "core_decode cf s5 = Some (True, s5\<lparr>co_decode := dec\<rparr>)"
    by (simp add: core_decode_def s5_def s4_def s3_def s2_def s1_def dec_def)
  define t where "t = s5\<lparr>co_decode := dec\<rparr>"
  have run: "core_stages junk cf s = core_fetch junk True True cf t"
    using ri rr rn de by (simp add: core_stages_def wb ex flip: s2_def s3_def s5_def t_def)
  have same: "core_same s t"
    by (simp add: core_same_def t_def s5_def s4_def s3_def s2_def s1_def iss_def ren_def dec_def)
  have ports: "length (co_wb_ports t u) = unit_num u" "k < unit_num u \<Longrightarrow> \<not> p_enable (port_get (co_wb_ports t u ! k))" for u k
    using cleared_ports [where us = core_unit_order and ps = "co_wb_ports s" and u = u] w(2) core_unit_order_set zero_disabled(1)
    by (simp_all add: t_def s5_def s4_def s3_def s2_def s1_def)
  have lsu: "\<forall>l \<in> set (co_lsu t). \<not> lsu_busy l" "length (co_lsu t) = LSU_UNIT_NUM"
    using cleared_lsu [where us = core_unit_order and ls = "co_lsu s"] w(3) core_unit_order_set
    by (auto simp: t_def s5_def s4_def s3_def s2_def s1_def in_set_conv_nth LSU_UNIT_NUM_def)
  have sh: "co_rob t = co_rob s" "co_sb t = co_sb s" "co_bus t = co_bus s" "co_rat t = co_rat s" "co_regfile t = co_regfile s"
    "co_csr t = co_csr s" "co_cpbuf t = co_cpbuf s" "co_bp t = co_bp s" "co_int t = co_int s" "co_fifos t = co_fifos s"
    "co_fetch_decode t = co_fetch_decode s" "co_decode_rename t = co_decode_rename s" "co_commit t = co_commit s"
    "is_q (co_issue t) = is_q (co_issue s)" "is_busy (co_issue t) = is_busy (co_issue s)" "is_waiting (co_issue t) = is_waiting (co_issue s)"
    "is_last_index (co_issue t) = is_last_index (co_issue s)" "is_index (co_issue t) = is_index (co_issue s)"
    "rn_busy (co_rename t) = rn_busy (co_rename s)" "port_get (co_readreg_issue t) = ys" "port_get (co_rename_readreg t) = rename_pack []"
    "port_get (co_wb_commit t) = map port_get ?ps"
    by (simp_all add: t_def s5_def s4_def s3_def s2_def s1_def iss_def ren_def)
  have "core_ready t"
    using r ys(2,3) off n ports lsu zero_disabled(3)
    by (simp add: core_ready_def core_quiet_def core_sound_def core_wired_def core_drained_def sh rename_pack_def
        RENAME_WIDTH_def READREG_WIDTH_def)
  with run same show ?thesis by blast
qed

end
