(* ===== verification/Core_Counters.thy ===== *)
theory Core_Counters
  imports Core_Idle
begin

text \<open>
  The end of a cycle of an idle processor: the clock device counts, the deferred requests of the
  components are applied, and the counters are shown in the control registers.
\<close>

section \<open>The clock device and the control registers\<close>

text \<open>The devices and the control registers are where \<open>init()\<close> has put them.\<close>

definition core_mapped :: "core \<Rightarrow> bool" where
  "core_mapped s = (bus_layout (co_bus s) = bus_layout bus_start \<and> csr_class_at (co_csr s) = csr_class_at csrfile_init)"

lemma clint_slot:
  assumes "bus_layout b = bus_layout bus_start"
  obtains c where "bus_find_slave_info b CLINT_BASE = Some 1" "si_slave (slave_info_list b ! 1) = Clint c" "length (slave_info_list b) = 2"
    "si_size (slave_info_list b ! 1) = 0x10000"
proof -
  have "map (\<lambda>e. (si_base e, si_size e, dev_kind (si_slave e))) (slave_info_list b) = [(0x80000000, 1048576, True), (0x20000000, 0x10000, False)]"
    using assms by (simp add: bus_layout_def bus_start_props(4))
  then obtain e f where b: "slave_info_list b = [e, f]" "si_base e = 0x80000000" "si_size e = 1048576" "si_base f = 0x20000000"
    "si_size f = 0x10000" "\<not> dev_kind (si_slave f)" by (auto simp: map_eq_Cons_conv)
  then obtain c where "si_slave f = Clint c" by (cases "si_slave f") auto
  with that [of c] b show thesis by (simp add: bus_find_slave_info_def slave_covers_def CLINT_BASE_def)
qed

lemma clint_tick:
  assumes "bus_inv b" "bus_layout b = bus_layout bus_start" "si_slave (slave_info_list b ! 1) = Clint c" "length (slave_info_list b) = 2"
  defines "t \<equiv> bus_upd 1 (Clint (clint_run_post c)) b"
  shows "bus_inv t" "bus_layout t = bus_layout b" "bus_find_slave_info t = bus_find_slave_info b" "bus_flat t = bus_flat b"
    "bus_request_q t = bus_request_q b"
proof -
  have l: "1 < length (slave_info_list b)" using assms(4) by simp
  have d: "dev_quiet (Clint (clint_run_post c))" "dev_size (Clint (clint_run_post c)) = si_size (slave_info_list b ! 1)"
    using bus_inv_nth(2,3) [OF assms(1) l] assms(3) by (simp_all add: clint_run_post_def)
  show "bus_inv t" unfolding t_def by (rule bus_upd_inv [OF assms(1) l d])
  show f: "bus_find_slave_info t = bus_find_slave_info b" unfolding t_def by (rule ext) (rule bus_find_upd [OF assms(1) l d])
  show "bus_request_q t = bus_request_q b" unfolding t_def by (rule bus_upd_fields(2) [OF l])
  show "bus_layout t = bus_layout b"
    using l assms(3) by (auto simp: t_def bus_layout_def bus_upd_def map_update intro!: list_update_same_conv [THEN iffD2])
  have "bus_flat t A = bus_flat b A" for A
  proof (cases "bus_find_slave_info b (of_nat A)")
    case (Some i)
    then have i: "i < length (slave_info_list b)" using bus_find_unique [OF assms(1)] by blast
    have sl: "si_base (slave_info_list t ! i) = si_base (slave_info_list b ! i)"
      "si_slave (slave_info_list t ! i) = (if 1 = i then Clint (clint_run_post c) else si_slave (slave_info_list b ! i))"
      using bus_upd_fields(3) [OF l] bus_upd_fields(5) [OF l i] by (simp_all only: t_def)
    show ?thesis
    proof (cases "i = 1")
      case True
      with Some sl assms(3) show ?thesis by (simp add: bus_flat_def f)
    next
      case False
      with Some sl show ?thesis by (simp add: bus_flat_def f cong: slave.case_cong)
    qed
  qed (simp add: bus_flat_def f)
  then show "bus_flat t = bus_flat b" by (rule ext)
qed

text \<open>The counters as writes to the control registers.\<close>

definition counter_writes :: "core \<Rightarrow> (u32 \<times> u32) list" where
  "counter_writes s = concat (map (\<lambda>(lo, hi, v). [(lo, ucast (v AND 0xffffffff)), (hi, ucast (drop_bit 32 v))]) (core_counters s))"

lemma publish_writes:
  "fold_opt (\<lambda>(lo, hi, v) c. do { c \<leftarrow> csrfile_write_sys lo (ucast (v AND 0xffffffff)) c; csrfile_write_sys hi (ucast (drop_bit 32 v)) c }) xs c
    = fold_opt csrfile_apply (csr_writes (concat (map (\<lambda>(lo, hi, v). [(lo, ucast (v AND 0xffffffff)), (hi, ucast (drop_bit 32 v))]) xs))) c"
  for xs :: "(u32 \<times> u32 \<times> u64) list"
proof (induction xs arbitrary: c)
  case (Cons x xs)
  obtain lo hi v where x: "x = (lo, hi, v)" by (metis prod_cases3)
  show ?case
  proof (cases "csrfile_write_sys lo (ucast (v AND 0xffffffff)) c")
    case (Some d)
    then show ?thesis using Cons.IH by (cases "csrfile_write_sys hi (ucast (drop_bit 32 v)) d") (simp_all add: x csr_writes_def)
  qed (simp add: x csr_writes_def)
qed (simp add: csr_writes_def)

lemma named_class:
  assumes "map_of (map (\<lambda>(a, _, c). (a, c)) csr_named_list) a = Some c"
  shows "csr_class_at csrfile_init a = Some c"
proof -
  from map_of_SomeD [OF assms] obtain ro where "(a, ro, c) \<in> set csr_named_list" by auto
  then show ?thesis using csrfile_init_lookup [of a ro c] by (simp add: csr_class_at_def csr_init_list_def)
qed

definition counter_addrs :: "u32 list" where
  "counter_addrs = [0xB00, 0xB80, 0xB02, 0xB82, 0xB03, 0xB83, 0xB04, 0xB84, 0xB05, 0xB85, 0xB06, 0xB86, 0xB07, 0xB87, 0xB08, 0xB88,
     0xB09, 0xB89, 0xB0A, 0xB8A, 0xB0B, 0xB8B, 0xB0C, 0xB8C, 0xB0D, 0xB8D, 0xB0E, 0xB8E, 0xB0F, 0xB8F]"

lemma counter_addrs: "map fst (counter_writes s) = counter_addrs"
  by (simp add: counter_writes_def core_counters_def counter_addrs_def CSR_MCYCLE_def CSR_MCYCLEH_def CSR_MINSTRET_def CSR_MINSTRETH_def)

definition plain_counter :: "csr_class option \<Rightarrow> bool" where
  "plain_counter c = (c \<in> Some ` {mcycle, mcycleh, minstret, minstreth, mhpmcounter, mhpmcounterh})"

lemma counter_addrs_plain: "list_all (\<lambda>a. plain_counter (map_of (map (\<lambda>(a, _, c). (a, c)) csr_named_list) a)) counter_addrs"
  by code_simp

lemma counters_distinct: "distinct (map fst (counter_writes s))"
proof -
  have "distinct counter_addrs" by code_simp
  then show ?thesis by (simp only: counter_addrs)
qed

lemma counters_class:
  assumes "w \<in> set (counter_writes s)"
  obtains c where "csr_class_at csrfile_init (fst w) = Some c" "c \<noteq> charfifo" "csr_filter c v = v"
proof -
  have "fst w \<in> set counter_addrs" using assms by (metis counter_addrs image_eqI set_map)
  then have "plain_counter (map_of (map (\<lambda>(a, _, c). (a, c)) csr_named_list) (fst w))"
    using counter_addrs_plain by (simp only: list_all_iff)
  then obtain c where "map_of (map (\<lambda>(a, _, c). (a, c)) csr_named_list) (fst w) = Some c"
    "c \<in> {mcycle, mcycleh, minstret, minstreth, mhpmcounter, mhpmcounterh}" unfolding plain_counter_def by blast
  with that [OF named_class [OF this(1)]] show thesis by auto
qed

lemma counters_mapped: "\<forall>w \<in> set (counter_writes s). \<exists>c. csr_class_at csrfile_init (fst w) = Some c \<and> c \<noteq> charfifo"
  using counters_class by metis

text \<open>After the counters are written, software reads them as they are.\<close>

lemma csr_last_distinct:
  assumes "distinct (map fst ws)" "(a, v) \<in> set ws"
  shows "csr_last cl ws a x = Some (csr_filter (the (cl a)) v)"
proof -
  have other: "a \<notin> fst ` set ws \<Longrightarrow> csr_last cl ws a x = x" for ws x by (induction ws arbitrary: x) auto
  show ?thesis using assms
  proof (induction ws arbitrary: x)
    case (Cons w ws)
    obtain b u where w: "w = (b, u)" by (cases w)
    show ?case
    proof (cases "a = b \<and> v = u")
      case True
      then have "a \<notin> fst ` set ws" using Cons.prems(1) by (simp add: w)
      with True other show ?thesis by (simp add: w)
    next
      case False
      with Cons.prems have "(a, v) \<in> set ws" by (auto simp: w)
      with Cons w show ?thesis by simp
    qed
  qed simp
qed

lemma csr_last_other: "a \<notin> fst ` set ws \<Longrightarrow> csr_last cl ws a x = x"
  by (induction ws arbitrary: x) auto

lemma counters_plain: "w \<in> set (counter_writes s) \<Longrightarrow> csr_filter (the (csr_class_at csrfile_init (fst w))) v = v"
  using counters_class [of w s v] by (metis option.sel)

lemma core_publish_counters:
  assumes "csr_class_at (co_csr s) = csr_class_at csrfile_init"
  shows "\<exists>c. core_publish s = Some (s\<lparr>cpu_clock_cycle := cpu_clock_cycle s + 1, committed_instruction_num := global_commit_num (co_rob s), co_csr := c\<rparr>)
    \<and> csr_class_at c = csr_class_at csrfile_init \<and> csr_request_q c = csr_request_q (co_csr s)
    \<and> (\<forall>(lo, hi, v) \<in> set (core_counters (s\<lparr>cpu_clock_cycle := cpu_clock_cycle s + 1, committed_instruction_num := global_commit_num (co_rob s)\<rparr>)).
         csrfile_read_sys c lo = Some (ucast v) \<and> csrfile_read_sys c hi = Some (ucast (drop_bit 32 v)))
    \<and> (\<forall>a. a \<notin> fst ` set (counter_writes s) \<longrightarrow> csrfile_read_sys c a = csrfile_read_sys (co_csr s) a)"
proof -
  let ?t = "s\<lparr>cpu_clock_cycle := cpu_clock_cycle s + 1, committed_instruction_num := global_commit_num (co_rob s)\<rparr>"
  let ?ws = "counter_writes ?t"
  have "\<forall>w \<in> set ?ws. \<exists>c. csr_class_at (co_csr s) (fst w) = Some c \<and> c \<noteq> charfifo" using counters_mapped unfolding assms by blast
  from csr_writes_replay [OF this] obtain c where c: "fold_opt csrfile_apply (csr_writes ?ws) (co_csr s) = Some c"
    "csr_class_at c = csr_class_at csrfile_init" "csr_request_q c = csr_request_q (co_csr s)"
    "\<forall>b. csrfile_read_sys c b = csr_last (csr_class_at csrfile_init) ?ws b (csrfile_read_sys (co_csr s) b)" unfolding assms by blast
  have run: "core_publish s = Some (?t\<lparr>co_csr := c\<rparr>)"
    using c(1) by (simp add: core_publish_def Let_def publish_writes counter_writes_def)
  have rd: "csrfile_read_sys c a = Some v" if "(a, v) \<in> set ?ws" for a v
    using c(4) csr_last_distinct [OF counters_distinct that] counters_plain [OF that, of v] by simp
  have m: "(0xffffffff :: u64) = mask 32" by (simp add: mask_eq_exp_minus_1)
  have lo: "ucast (v AND 0xffffffff) = (ucast v :: u32)" for v :: u64
    unfolding m by (rule bit_word_eqI) (simp add: bit_simps)
  have "csrfile_read_sys c lo = Some (ucast v) \<and> csrfile_read_sys c hi = Some (ucast (drop_bit 32 v))"
    if "(lo, hi, v) \<in> set (core_counters ?t)" for lo hi v
    using that rd [of lo "ucast (v AND 0xffffffff)"] rd [of hi "ucast (drop_bit 32 v)"]
    by (force simp: counter_writes_def lo)
  moreover have "fst ` set ?ws = fst ` set (counter_writes s)" using counter_addrs [of ?t] counter_addrs [of s] by (metis set_map)
  then have "csrfile_read_sys c a = csrfile_read_sys (co_csr s) a" if "a \<notin> fst ` set (counter_writes s)" for a
    using that c(4) csr_last_other by metis
  ultimately show ?thesis using run c(2,3) by (intro exI [of _ c]) auto
qed


section \<open>The end of an idle cycle\<close>

lemma sb_cycle_idle:
  assumes "fifo_inv sb" "fifo_items sb = []" "sb_request_q sb = []" "bus_request_q b = []"
  shows "sb_cycle commit_feedback_zero b sb = Some (b, sb)"
proof -
  have "fifo_get_front sb = None" using assms(1,2) by (simp add: fifo_get_front_def fifo_empty_iff)
  with assms(3,4) show ?thesis using no_flush_zero
    by (simp add: sb_cycle_def sb_run_def sb_write_back_def bus_sync_def sb_sync_def)
qed

lemma core_sync_idle:
  assumes "core_mapped s" "bus_inv (co_bus s)" "bus_request_q (co_bus s) = []" "rat_request_q (co_rat s) = []" "rob_request_q (co_rob s) = []"
    and "regfile_request_q (co_regfile s) = []" "csr_request_q (co_csr s) = []" "cpbuf_request_q (co_cpbuf s) = []" "int_request_q (co_int s) = []"
    and "fifo_inv (co_sb s)" "fifo_items (co_sb s) = []" "sb_request_q (co_sb s) = []" "bp_inv (co_bp s)"
  shows "\<exists>c b h i. core_sync commit_feedback_zero s = Some (s\<lparr>co_csr := c, co_bus := b, co_bp := h, co_int := i\<rparr>)
    \<and> csr_class_at c = csr_class_at csrfile_init \<and> csr_request_q c = [] \<and> bus_inv b \<and> bus_layout b = bus_layout bus_start
    \<and> bus_find_slave_info b = bus_find_slave_info (co_bus s) \<and> bus_flat b = bus_flat (co_bus s) \<and> bus_request_q b = []
    \<and> bp_inv h \<and> bp_request_q h = [] \<and> (bp_request_q (co_bp s) = [] \<longrightarrow> h = co_bp s) \<and> int_request_q i = []"
proof -
  have lay: "bus_layout (co_bus s) = bus_layout bus_start" and cls: "csr_class_at (co_csr s) = csr_class_at csrfile_init"
    using assms(1) by (simp_all add: core_mapped_def)
  have mip: "csr_class_at csrfile_init CSR_MIP = Some mip"
    by (rule named_class) (simp add: csr_named_list_def CSR_MIP_def CSR_MSTATUS_def CSR_MIE_def CSR_MTVEC_def CSR_MEPC_def CSR_MCAUSE_def CSR_MTVAL_def)
  then obtain v where "csrfile_read_sys (co_csr s) CSR_MIP = Some v"
    by (auto simp: cls [symmetric] csr_class_at_def csrfile_read_sys_def)
  then obtain v where run: "int_run (co_csr s) (co_int s)
      = Some (csrfile_write_sys_sync CSR_MIP v (co_csr s), (co_int s)\<lparr>mei_ack := False, msi_ack := False, mti_ack := False\<rparr>)"
    by (simp add: int_run_def Let_def)
  let ?i = "(co_int s)\<lparr>mei_ack := False, msi_ack := False, mti_ack := False\<rparr>"
  have "\<exists>c. csrfile_sync (csrfile_write_sys_sync CSR_MIP v (co_csr s)) = Some c \<and> csr_class_at c = csr_class_at (co_csr s) \<and> csr_request_q c = []"
    using csr_writes_sync [of "co_csr s" "csrfile_write_sys_sync CSR_MIP v (co_csr s)" "[(CSR_MIP, v)]"] assms(7) mip
    by (auto simp: csrfile_write_sys_sync_def csr_writes_def cls)
  then obtain c where c: "csrfile_sync (csrfile_write_sys_sync CSR_MIP v (co_csr s)) = Some c" "csr_class_at c = csr_class_at csrfile_init"
    "csr_request_q c = []" by (auto simp: cls)
  obtain k where k: "bus_find_slave_info (co_bus s) CLINT_BASE = Some 1" "si_slave (slave_info_list (co_bus s) ! 1) = Clint k"
    "length (slave_info_list (co_bus s)) = 2" using clint_slot [OF lay] by metis
  note t = clint_tick [OF assms(2) lay k(2,3)]
  let ?b = "bus_upd 1 (Clint (clint_run_post k)) (co_bus s)"
  obtain h where h: "bp_sync (co_bp s) = Some h" "bp_inv h" using bp_sync_keeps [OF assms(13)] by (auto simp: bp_keeps_def)
  have hq: "bp_request_q h = []" using h(1) by (auto simp: bp_sync_def split: bind_splits)
  have he: "bp_request_q (co_bp s) = [] \<longrightarrow> h = co_bp s" using h(1) sync_idle(5) by auto
  have int: "int_sync ?i = Some ?i" using assms(9) by (simp add: sync_idle(6))
  have post: "core_clint_post (s\<lparr>co_csr := x, co_int := y\<rparr>) = Some (s\<lparr>co_csr := x, co_int := y, co_bus := ?b\<rparr>)" for x y
    using k by (simp add: core_clint_post_def)
  have sb: "sb_cycle commit_feedback_zero ?b (co_sb s) = Some (?b, co_sb s)"
    by (rule sb_cycle_idle) (use assms(3,10-12) t(5) in simp_all)
  have "core_sync commit_feedback_zero s = Some (s\<lparr>co_csr := c, co_bus := ?b, co_bp := h, co_int := ?i\<rparr>)"
    using run post c(1) sb h(1) int assms(4-6,8) by (simp add: core_sync_def sync_idle)
  with c t h hq he lay assms(3,9) show ?thesis
    by (intro exI [of _ c] exI [of _ ?b] exI [of _ h] exI [of _ ?i]) simp
qed

end
