(* ===== verification/Core_First.thy ===== *)
theory Core_First
  imports Core_Counters
begin

text \<open>The first cycles of the processor: a cycle of the idle processor, and what they bring in.\<close>

section \<open>A cycle of the idle processor\<close>

lemma fifo_status_items [simp]: "fifo_items (fifo_reset_pop_status f) = fifo_items f"
  by (simp add: fifo_items_def fifo_reset_pop_status_def)

lemma fifo_status_twice [simp]: "fifo_reset_pop_status (fifo_reset_pop_status f) = fifo_reset_pop_status f"
  by (simp add: fifo_reset_pop_status_def)

lemma fifo_status_fields [simp]:
  "qsize (fifo_reset_pop_status f) = qsize f" "pop_status_save (fifo_reset_pop_status f) = pop_status_save f"
  by (simp_all add: fifo_reset_pop_status_def)

lemma rob_committed_simps:
  "fifo_inv (rob_set_committed v r) = fifo_inv r" "fifo_items (rob_set_committed v r) = fifo_items r"
  "pop_status_save (rob_set_committed v r) = pop_status_save r" "rob_request_q (rob_set_committed v r) = rob_request_q r"
  by (simp_all add: rob_set_committed_def fifo_inv_def fifo_items_def)

text \<open>What the fetch stage works on in a cycle.\<close>

definition fetch_view :: "core \<Rightarrow> fetch_stage" where
  "fetch_view s = (co_fetch s)\<lparr>fe_bus := co_bus s, fe_fifo := fifo_reset_pop_status (co_fetch_decode s),
     fe_cpbuf := co_cpbuf s, fe_bp := co_bp s, fe_sb := co_sb s\<rparr>"

text \<open>A processor that is idle but for what the fetch stage has just brought in.\<close>

definition core_besides :: "core \<Rightarrow> core \<Rightarrow> core" where
  "core_besides s t = t\<lparr>co_fetch_decode := fifo_reset_pop_status (co_fetch_decode s), co_cpbuf := co_cpbuf s, co_bp := co_bp s\<rparr>"

lemma core_begin:
  assumes "core_ready s" "core_mapped s"
  shows "\<exists>i. core_clint_pre (s\<lparr>co_rob := rob_set_committed False (co_rob s), co_fetch_decode := fifo_reset_pop_status (co_fetch_decode s),
       co_decode_rename := fifo_reset_pop_status (co_decode_rename s)\<rparr>)
    = Some (s\<lparr>co_rob := rob_set_committed False (co_rob s), co_fetch_decode := fifo_reset_pop_status (co_fetch_decode s),
       co_decode_rename := fifo_reset_pop_status (co_decode_rename s), co_int := i\<rparr>) \<and> int_request_q i = []"
proof -
  have "bus_layout (co_bus s) = bus_layout bus_start" using assms(2) by (simp add: core_mapped_def)
  from clint_slot [OF this] obtain c where c: "bus_find_slave_info (co_bus s) CLINT_BASE = Some 1" "si_slave (slave_info_list (co_bus s) ! 1) = Clint c"
    by metis
  have "int_request_q (clint_run_pre c (co_int s)) = int_request_q (co_int s)"
    by (simp add: clint_run_pre_def)
  then show ?thesis using c assms(1)
    by (intro exI [of _ "clint_run_pre c (co_int s)"]) (simp add: core_clint_pre_def bus_get_slave_obj_def core_ready_def core_quiet_def)
qed

lemma core_commit_idle:
  assumes "core_ready s"
  shows "\<exists>c. core_commit s = Some (commit_feedback_zero, s\<lparr>co_commit := c\<rparr>) \<and> cm_state c = St_normal"
proof -
  let ?c = "(co_commit s)\<lparr>cm_in := co_wb_commit s, cm_rat := co_rat s, cm_rob := co_rob s, cm_csr := co_csr s,
       cm_regfile := co_regfile s, cm_cpbuf := co_cpbuf s, cm_bp := co_bp s, cm_int := co_int s\<rparr>"
  have "commit_run ?c = Some (commit_feedback_zero, ?c)"
    by (rule commit_idle) (use assms in \<open>simp_all add: core_ready_def core_sound_def core_drained_def\<close>)
  then show ?thesis using assms by (intro exI [of _ ?c]) (simp add: core_commit_def core_ready_def)
qed

lemma core_cycle_idle:
  assumes "core_ready s" "core_mapped s" "rat_running (co_rat s)" "checkpoint_ok junk"
    and "fetch_run junk True True commit_feedback_zero (fetch_view s) = Some f" "fe_bus f = co_bus s"
    and "bp_inv (fe_bp f)" "cpbuf_request_q (fe_cpbuf f) = []"
  shows "\<exists>u. core_cycle junk s = Some u \<and> co_fetch u = f \<and> co_fetch_decode u = fe_fifo f \<and> co_rat u = co_rat s
    \<and> co_regfile u = co_regfile s \<and> bus_flat (co_bus u) = bus_flat (co_bus s) \<and> bus_find_slave_info (co_bus u) = bus_find_slave_info (co_bus s)
    \<and> core_ready (core_besides s u) \<and> core_mapped u \<and> cpu_clock_cycle u = cpu_clock_cycle s + 1
    \<and> (fe_fifo f = fifo_reset_pop_status (co_fetch_decode s) \<and> fe_cpbuf f = co_cpbuf s \<and> fe_bp f = co_bp s \<longrightarrow> core_ready u)"
proof -
  obtain i where i: "core_clint_pre (s\<lparr>co_rob := rob_set_committed False (co_rob s), co_fetch_decode := fifo_reset_pop_status (co_fetch_decode s),
       co_decode_rename := fifo_reset_pop_status (co_decode_rename s)\<rparr>)
    = Some (s\<lparr>co_rob := rob_set_committed False (co_rob s), co_fetch_decode := fifo_reset_pop_status (co_fetch_decode s),
       co_decode_rename := fifo_reset_pop_status (co_decode_rename s), co_int := i\<rparr>)" "int_request_q i = []"
    using core_begin [OF assms(1,2)] by blast
  define s0 where "s0 = s\<lparr>co_rob := rob_set_committed False (co_rob s), co_fetch_decode := fifo_reset_pop_status (co_fetch_decode s),
       co_decode_rename := fifo_reset_pop_status (co_decode_rename s), co_int := i\<rparr>"
  have r0: "core_ready s0" using assms(1) i(2)
    by (simp add: core_ready_def s0_def core_quiet_def core_sound_def core_wired_def core_drained_def rob_committed_simps)
  obtain c where c: "core_commit s0 = Some (commit_feedback_zero, s0\<lparr>co_commit := c\<rparr>)" "cm_state c = St_normal"
    using core_commit_idle [OF r0] by blast
  define s1 where "s1 = s0\<lparr>co_commit := c\<rparr>"
  have r1: "core_ready s1" using r0 c(2) by (simp add: core_ready_def s1_def core_quiet_def core_sound_def core_wired_def core_drained_def)
  have "fifo_inv (co_fetch_decode s1)" "fifo_inv (co_decode_rename s1)" "rat_running (co_rat s1)"
    using assms(1,3) by (simp_all add: core_ready_def core_sound_def s1_def s0_def)
  from core_stages_idle [OF r1 this assms(4) no_flush_zero(1)] obtain t where
    t: "core_stages junk commit_feedback_zero s1 = core_fetch junk True True commit_feedback_zero t" "core_ready t" "core_same s1 t" by blast
  have e: "co_bus t = co_bus s" "co_rat t = co_rat s" "co_rob t = rob_set_committed False (co_rob s)" "co_regfile t = co_regfile s"
    "co_csr t = co_csr s" "co_sb t = co_sb s" "co_cpbuf t = co_cpbuf s" "co_bp t = co_bp s" "co_int t = i"
    "co_fetch_decode t = fifo_reset_pop_status (co_fetch_decode s)" "co_fetch t = co_fetch s" "cpu_clock_cycle t = cpu_clock_cycle s"
    using t(3) by (auto simp: core_same_def s1_def s0_def)
  have q: "core_quiet s" "core_sound s" "fifo_items (co_sb s) = []" using assms(1) by (simp_all add: core_ready_def)
  have view: "(co_fetch t)\<lparr>fe_bus := co_bus t, fe_fifo := co_fetch_decode t, fe_cpbuf := co_cpbuf t, fe_bp := co_bp t, fe_sb := co_sb t\<rparr> = fetch_view s"
    by (simp add: fetch_view_def e)
  define t1 where "t1 = t\<lparr>co_fetch := f, co_bus := co_bus s, co_fetch_decode := fe_fifo f, co_cpbuf := fe_cpbuf f, co_bp := fe_bp f\<rparr>"
  have fe: "core_fetch junk True True commit_feedback_zero t = Some t1" using assms(5,6) by (simp add: core_fetch_def view t1_def)
  have sy: "core_mapped t1" "bus_inv (co_bus t1)" "bus_request_q (co_bus t1) = []" "rat_request_q (co_rat t1) = []" "rob_request_q (co_rob t1) = []"
    "regfile_request_q (co_regfile t1) = []" "csr_request_q (co_csr t1) = []" "cpbuf_request_q (co_cpbuf t1) = []" "int_request_q (co_int t1) = []"
    "fifo_inv (co_sb t1)" "fifo_items (co_sb t1) = []" "sb_request_q (co_sb t1) = []" "bp_inv (co_bp t1)"
    using q assms(2,7,8) i(2) by (simp_all add: t1_def e core_mapped_def core_quiet_def core_sound_def rob_set_committed_def)
  from core_sync_idle [OF sy] obtain c' b h j where y: "core_sync commit_feedback_zero t1 = Some (t1\<lparr>co_csr := c', co_bus := b, co_bp := h, co_int := j\<rparr>)"
    "csr_class_at c' = csr_class_at csrfile_init" "csr_request_q c' = []" "bus_inv b" "bus_layout b = bus_layout bus_start"
    "bus_find_slave_info b = bus_find_slave_info (co_bus t1)" "bus_flat b = bus_flat (co_bus t1)" "bus_request_q b = []" "bp_inv h" "bp_request_q h = []"
    "bp_request_q (co_bp t1) = [] \<longrightarrow> h = co_bp t1" "int_request_q j = []" by blast
  define t2 where "t2 = t1\<lparr>co_csr := c', co_bus := b, co_bp := h, co_int := j\<rparr>"
  have "csr_class_at (co_csr t2) = csr_class_at csrfile_init" using y(2) by (simp add: t2_def)
  from core_publish_counters [OF this] obtain c2 where p: "core_publish t2 = Some (t2\<lparr>cpu_clock_cycle := cpu_clock_cycle t2 + 1,
      committed_instruction_num := global_commit_num (co_rob t2), co_csr := c2\<rparr>)" "csr_class_at c2 = csr_class_at csrfile_init"
    "csr_request_q c2 = csr_request_q (co_csr t2)" by blast
  define u where "u = t2\<lparr>cpu_clock_cycle := cpu_clock_cycle t2 + 1, committed_instruction_num := global_commit_num (co_rob t2), co_csr := c2\<rparr>"
  have run: "core_cycle junk s = Some u"
    using i(1) c(1) t(1) fe y(1) p(1) by (simp add: core_cycle_def Let_def flip: s0_def s1_def t2_def u_def)
  have "core_ready (core_besides s u)"
    using t(2) y q p(3) by (simp add: core_besides_def u_def t2_def t1_def core_ready_def core_quiet_def core_sound_def core_wired_def core_drained_def e)
  moreover have "core_besides s u = u" if "fe_fifo f = fifo_reset_pop_status (co_fetch_decode s)" "fe_cpbuf f = co_cpbuf s" "fe_bp f = co_bp s"
    using that y(11) q(1) by (simp add: core_besides_def u_def t2_def t1_def core_quiet_def)
  ultimately show ?thesis using run y p(2)
    by (intro exI [of _ u]) (auto simp: u_def t2_def t1_def e core_mapped_def)
qed


section \<open>The first group\<close>

text \<open>The words of the program, zero behind its end.\<close>

definition image_word :: "u8 list \<Rightarrow> nat \<Rightarrow> u32" where
  "image_word img k = load_le (\<lambda>i. if i < length img then img ! i else 0) (4 * k) 4"

lemma find_layout: "bus_find_slave_info b a = find_index (\<lambda>(base, sz, _). base \<le> a \<and> a < base + sz) (bus_layout b)"
proof -
  have "find_index (slave_covers a) es
      = find_index (\<lambda>(base, sz, _). base \<le> a \<and> a < base + sz) (map (\<lambda>e. (si_base e, si_size e, dev_kind (si_slave e))) es)" for es
    by (induction es) (simp_all add: slave_covers_def)
  then show ?thesis by (simp add: bus_find_slave_info_def bus_layout_def)
qed

lemma start_fetchable:
  assumes "bus_inv b" "bus_layout b = bus_layout bus_start"
  shows "fetchable b 0x80000000"
proof -
  have "map (\<lambda>e. (si_base e, si_size e, dev_kind (si_slave e))) (slave_info_list b) = [(0x80000000, 1048576, True), (0x20000000, 0x10000, False)]"
    using assms(2) by (simp add: bus_layout_def bus_start_props(4))
  then obtain e f where b: "slave_info_list b = [e, f]" "si_base e = 0x80000000" "si_size e = 1048576" "dev_kind (si_slave e)"
    by (auto simp: map_eq_Cons_conv)
  then obtain m where m: "si_slave e = Memory m" by (cases "si_slave e") auto
  have four: "(\<forall>k < FETCH_WIDTH. P k) = (P 0 \<and> P 1 \<and> P 2 \<and> P 3)" for P
    by (auto simp: FETCH_WIDTH_def numeral_eq_Suc less_Suc_eq)
  show ?thesis using assms(1) unfolding fetchable_def four
    by (simp add: bus_check_align_def fetch_addr_def bus_mem_ok_def entry_mem_ok_def bus_find_slave_info_def b m slave_covers_def access_ok_def)
qed

lemma start_word:
  assumes "\<forall>k < 1048576. bus_flat b (0x80000000 + k) = (if k < length img then img ! k else 0)" "k < 4"
  shows "fetch_word b (fetch_addr 0x80000000 k) = image_word img k"
proof -
  have "unat (fetch_addr 0x80000000 k) = 0x80000000 + 4 * k"
    using load_address [of "4 * k"] assms(2) by (simp add: fetch_addr_def mult.commute)
  moreover have "load_le (bus_flat b) (0x80000000 + 4 * k) 4 = load_le (\<lambda>i. if i < length img then img ! i else 0) (4 * k) 4"
    using assms by (intro load_le_cong) (simp add: add.assoc)
  ultimately show ?thesis by (simp add: fetch_word_def image_word_def)
qed


lemma first_group:
  assumes "fetch_ends held pc s f" "fifo_inv (fe_fifo s)" "fifo_items (fe_fifo s) = []" "fifo_occupied (fe_fifo s) = 0" "FETCH_WIDTH < qsize (fe_fifo s)"
    and "\<not> held 0"
  shows "fetch_frame s f \<and> (\<exists>n. 1 \<le> n \<and> n \<le> FETCH_WIDTH
    \<and> map (\<lambda>p. (fd_pc p, fd_value p)) (fifo_items (fe_fifo f)) = map (\<lambda>k. (fetch_addr pc k, fetch_word (fe_bus s) (fetch_addr pc k))) [0..<n]
    \<and> (\<forall>p \<in> set (fifo_items (fe_fifo f)). fd_enable p \<and> \<not> fd_has_exception p)
    \<and> (\<forall>k < n - 1. \<not> fetch_is_jump (fetch_word (fe_bus s) (fetch_addr pc k))) \<and> (\<forall>k < n. \<not> held k)
    \<and> (n < FETCH_WIDTH \<longrightarrow> fetch_is_jump (fetch_word (fe_bus s) (fetch_addr pc (n - 1))) \<or> held n))"
proof -
  have plain: "map (\<lambda>p. (fd_pc p, fd_value p)) (fetch_group (fe_bus s) pc n) = map (\<lambda>k. (fetch_addr pc k, fetch_word (fe_bus s) (fetch_addr pc k))) [0..<n]"
    "\<forall>p \<in> set (fetch_group (fe_bus s) pc n). fd_enable p \<and> \<not> fd_has_exception p" "length (fetch_group (fe_bus s) pc n) = n" for n
    by (auto simp: fetch_group_def fetch_plain_def)
  from assms(1) consider
      (stop) n where "n \<le> FETCH_WIDTH" "fetch_straight pc s n f" "n = FETCH_WIDTH \<or> fifo_is_full (fe_fifo f) \<or> held n" "\<forall>k < n. \<not> held k"
    | (jump) n u p where "n < FETCH_WIDTH" "fetch_straight pc s n u" "fetch_is_jump (fetch_word (fe_bus s) (fetch_addr pc n))"
      "fifo_items (fe_fifo f) = fifo_items (fe_fifo u) @ [p]" "fd_pc p = fetch_addr pc n" "fd_value p = fetch_word (fe_bus s) (fetch_addr pc n)"
      "fd_enable p" "\<not> fd_has_exception p" "fetch_frame s f" "\<forall>k \<le> n. \<not> held k"
    unfolding fetch_ends_def by blast
  then show ?thesis
  proof cases
    case stop
    have i: "fetch_frame s f" "fifo_items (fe_fifo f) = fetch_group (fe_bus s) pc n" "\<forall>k < n. \<not> fetch_is_jump (fetch_word (fe_bus s) (fetch_addr pc k))"
      using stop(2) assms(3) by (simp_all add: fetch_straight_def)
    have "fifo_occupied (fe_fifo f) = n" "qsize (fe_fifo f) = qsize (fe_fifo s)" "fifo_inv (fe_fifo f)"
      using i(1) assms(3,4) by (simp_all add: fetch_frame_def i(2) plain(3))
    then have h: "n = FETCH_WIDTH \<or> held n" using stop(1,3) assms(5) by (auto simp: fifo_full_iff)
    then have "1 \<le> n" using assms(6) by (cases n) (auto simp: FETCH_WIDTH_def)
    with h i plain [of n] stop(1,4) show ?thesis by auto
  next
    case jump
    have i: "fifo_items (fe_fifo u) = fetch_group (fe_bus s) pc n" "\<forall>k < n. \<not> fetch_is_jump (fetch_word (fe_bus s) (fetch_addr pc k))"
      using jump(2) assms(3) by (simp_all add: fetch_straight_def)
    have "map (\<lambda>p. (fd_pc p, fd_value p)) (fifo_items (fe_fifo f)) = map (\<lambda>k. (fetch_addr pc k, fetch_word (fe_bus s) (fetch_addr pc k))) [0..<Suc n]"
      by (simp add: jump(4-6) i(1) plain(1))
    moreover have "\<forall>p \<in> set (fifo_items (fe_fifo f)). fd_enable p \<and> \<not> fd_has_exception p" using plain(2) [of n] jump(7,8) by (simp add: jump(4) i(1))
    ultimately show ?thesis using jump(1,3,9,10) i(2) by (intro conjI exI [of _ "Suc n"]) (simp_all add: less_Suc_eq_le del: upt_Suc)
  qed
qed

text \<open>C9: the processor starts the program.  After \<open>init\<close> and \<open>reset\<close> the first two cycles never
  abort; after them the fetch queue holds the first instructions of the program file, with their
  addresses from 0x80000000 on, in order and without exception: four of them, or as many as come up to
  and including the first jump, or up to a \<open>fence.i\<close> that is not the first; no jump has another
  instruction behind it in the queue, and no \<open>fence.i\<close> one before it.  Both cycles are counted, and
  no register, mapping or memory byte has changed.\<close>

theorem core_first_fetch:
  assumes "length (load_blocks img) \<le> 1048576" "checkpoint_ok cp"
  shows "\<exists>s t u n. core_boot img (core_static cp junk junkw ri) = Some s \<and> core_cycle cp s = Some t \<and> core_cycle cp t = Some u
    \<and> 1 \<le> n \<and> n \<le> FETCH_WIDTH
    \<and> map (\<lambda>p. (fd_pc p, fd_value p)) (fifo_items (co_fetch_decode u)) = map (\<lambda>k. (fetch_addr 0x80000000 k, image_word img k)) [0..<n]
    \<and> (\<forall>p \<in> set (fifo_items (co_fetch_decode u)). fd_enable p \<and> \<not> fd_has_exception p)
    \<and> (\<forall>k < n - 1. \<not> fetch_is_jump (image_word img k)) \<and> (\<forall>k. 0 < k \<and> k < n \<longrightarrow> \<not> fetch_is_fence_i (image_word img k))
    \<and> (n < FETCH_WIDTH \<longrightarrow> fetch_is_jump (image_word img (n - 1)) \<or> fetch_is_fence_i (image_word img n))
    \<and> cpu_clock_cycle u = 2 \<and> co_rat u = co_rat s \<and> co_regfile u = co_regfile s \<and> bus_flat (co_bus u) = bus_flat (co_bus s)"
proof -
  from core_boot_start [OF assms(1)] obtain s where s: "core_boot img (core_static cp junk junkw ri) = Some s" "core_ready s"
    "rat_holds (rat_lookup (co_rat s)) [] (co_rat s)" "co_csr s = csrfile_init" "bus_layout (co_bus s) = bus_layout bus_start"
    "\<forall>k < 1048576. bus_flat (co_bus s) (0x80000000 + k) = (if k < length img then img ! k else 0)"
    "fe_pc (co_fetch s) = 0x80000000" "fe_wait_first (co_fetch s)" "\<not> fe_jump_wait (co_fetch s)" "cpu_clock_cycle s = 0" by blast
  have rr: "rat_running (co_rat s)" using s(3) by (simp add: rat_holds_def)
  have ms: "core_mapped s" by (simp add: core_mapped_def s(4,5))
  have snd: "bp_inv (co_bp r)" "cpbuf_request_q (co_cpbuf r) = []" "bus_inv (co_bus r)" "fifo_inv (fifo_reset_pop_status (co_fetch_decode r))"
    "fifo_items (co_fetch_decode r) = []" "fifo_inv (co_cpbuf r)" "fifo_items (co_sb r) = []" "fifo_inv (co_sb r)" "FETCH_WIDTH < qsize (co_fetch_decode r)"
    if "core_ready r" for r using that by (simp_all add: core_ready_def core_sound_def core_quiet_def core_drained_def)
  let ?f = "(fetch_view s)\<lparr>fe_wait_first := False\<rparr>"
  have f1: "fetch_run cp True True commit_feedback_zero (fetch_view s) = Some ?f" using s(8) by (simp add: fetch_run_def fetch_view_def)
  have "fe_bus ?f = co_bus s" "bp_inv (fe_bp ?f)" "cpbuf_request_q (fe_cpbuf ?f) = []"
    using snd [OF s(2)] by (simp_all add: fetch_view_def)
  from core_cycle_idle [OF s(2) ms rr assms(2) f1 this] obtain t where t: "core_cycle cp s = Some t" "co_fetch t = ?f" "co_rat t = co_rat s"
    "co_regfile t = co_regfile s" "bus_flat (co_bus t) = bus_flat (co_bus s)" "core_mapped t" "cpu_clock_cycle t = cpu_clock_cycle s + 1" "core_ready t"
    by (auto simp: fetch_view_def)
  let ?v = "fetch_view t"
  have v: "fe_pc ?v = 0x80000000" "\<not> fe_wait_first ?v" "\<not> fe_jump_wait ?v" "fe_bus ?v = co_bus t"
    using s(7,9) by (simp_all add: fetch_view_def t(2))
  have lay: "bus_layout (co_bus t) = bus_layout bus_start" using t(6) by (simp add: core_mapped_def)
  have fb: "fetchable (fe_bus ?v) (fe_pc ?v)" unfolding v(1,4) by (rule start_fetchable [OF snd(3) [OF t(8)] lay])
  have fr: "fetch_frame ?v ?v" using snd [OF t(8)] by (simp add: fetch_frame_def fetch_view_def)
  from fetch_cycle [OF fb fr v(2,3) no_flush_zero(1), of cp True True] obtain f where
    f: "fetch_run cp True True commit_feedback_zero ?v = Some f"
      "fetch_ends (fence_must_wait True True commit_feedback_zero ?v) (fe_pc ?v) ?v f" by blast
  have word: "fetch_word (co_bus t) (fetch_addr 0x80000000 k) = image_word img k" if "k < 4" for k
    using start_word [OF _ that, of "co_bus t" img] s(6) t(5) by simp
  have e: "fifo_inv (fe_fifo ?v)" "fifo_items (fe_fifo ?v) = []" "fifo_occupied (fe_fifo ?v) = 0" "FETCH_WIDTH < qsize (fe_fifo ?v)"
    using snd [OF t(8)] fifo_reset_pop_status_inv(3) [of "fifo_reset_pop_status (co_fetch_decode t)"] by (simp_all add: fetch_view_def)
  have "\<not> fence_must_wait True True commit_feedback_zero ?v 0"
    using snd(7,8) [OF t(8)] no_flush_zero(2) by (simp add: fence_must_wait_def fetch_view_def fifo_empty_iff)
  from first_group [OF f(2) e this] obtain n where n: "fetch_frame ?v f" "1 \<le> n" "n \<le> FETCH_WIDTH"
    "map (\<lambda>p. (fd_pc p, fd_value p)) (fifo_items (fe_fifo f)) = map (\<lambda>k. (fetch_addr 0x80000000 k, fetch_word (co_bus t) (fetch_addr 0x80000000 k))) [0..<n]"
    "\<forall>p \<in> set (fifo_items (fe_fifo f)). fd_enable p \<and> \<not> fd_has_exception p"
    "\<forall>k < n - 1. \<not> fetch_is_jump (fetch_word (co_bus t) (fetch_addr 0x80000000 k))"
    "n < FETCH_WIDTH \<longrightarrow> fetch_is_jump (fetch_word (co_bus t) (fetch_addr 0x80000000 (n - 1))) \<or> fetch_is_fence_i (fetch_word (co_bus t) (fetch_addr 0x80000000 n))"
    "\<forall>k. 0 < k \<and> k < n \<longrightarrow> \<not> fetch_is_fence_i (fetch_word (co_bus t) (fetch_addr 0x80000000 k))"
    unfolding v(1,4) by (auto simp: fence_must_wait_def v(1,4))
  have "rat_running (co_rat t)" using rr t(3) by simp
  moreover have "fe_bus f = co_bus t" "bp_inv (fe_bp f)" "cpbuf_request_q (fe_cpbuf f) = []"
    using n(1) v(4) snd(2) [OF t(8)] by (simp_all add: fetch_frame_def) (simp add: fetch_view_def)
  ultimately obtain u where u: "core_cycle cp t = Some u" "co_fetch_decode u = fe_fifo f" "co_rat u = co_rat t" "co_regfile u = co_regfile t"
    "bus_flat (co_bus u) = bus_flat (co_bus t)" "cpu_clock_cycle u = cpu_clock_cycle t + 1"
    using core_cycle_idle [OF t(8,6) _ assms(2) f(1)] by blast
  have "map (\<lambda>p. (fd_pc p, fd_value p)) (fifo_items (co_fetch_decode u)) = map (\<lambda>k. (fetch_addr 0x80000000 k, image_word img k)) [0..<n]"
    using n(3,4) word by (auto simp: u(2) FETCH_WIDTH_def)
  moreover have "\<forall>k < n - 1. \<not> fetch_is_jump (image_word img k)" using n(3,6) word by (auto simp: FETCH_WIDTH_def)
  moreover have "\<forall>k. 0 < k \<and> k < n \<longrightarrow> \<not> fetch_is_fence_i (image_word img k)" using n(3,8) word by (auto simp: FETCH_WIDTH_def)
  moreover have "n < FETCH_WIDTH \<longrightarrow> fetch_is_jump (image_word img (n - 1)) \<or> fetch_is_fence_i (image_word img n)"
    using n(2,3,7) word [of "n - 1"] word [of n] by (auto simp: FETCH_WIDTH_def)
  ultimately show ?thesis using s(1) t u n(2,3,5) s(10)
    by (intro exI [of _ s] exI [of _ t] exI [of _ u] exI [of _ n]) simp
qed

text \<open>The two words of the demonstration program are fetched, and nothing behind the jump.\<close>

lemma image_demo_words: "image_word image_demo 0 = 0x13" "image_word image_demo 1 = 0x6F"
  by code_simp+

theorem core_first_fetch_witness:
  "\<exists>s t u. core_boot image_demo (core_static (cp_sample 0) 9 5 \<lparr>ras_addr = 0, ras_cnt = 0\<rparr>) = Some s
     \<and> core_cycle (cp_sample 0) s = Some t \<and> core_cycle (cp_sample 0) t = Some u
     \<and> map (\<lambda>p. (fd_pc p, fd_value p)) (fifo_items (co_fetch_decode u)) = [(0x80000000, 0x13), (0x80000004, 0x6F)]"
proof -
  have w: "\<not> fetch_is_jump (image_word image_demo 0)" "fetch_is_jump (image_word image_demo 1)" "\<not> fetch_is_fence_i (image_word image_demo 1)"
    unfolding image_demo_words by (simp_all add: fetch_is_jump_def fetch_is_fence_i_def)
  from core_first_fetch [OF image_demo_fits rename_demo_ok(2), of 9 5 "\<lparr>ras_addr = 0, ras_cnt = 0\<rparr>"] obtain s t u n where
    c: "core_boot image_demo (core_static (cp_sample 0) 9 5 \<lparr>ras_addr = 0, ras_cnt = 0\<rparr>) = Some s"
     "core_cycle (cp_sample 0) s = Some t" "core_cycle (cp_sample 0) t = Some u" "1 \<le> n" "n \<le> FETCH_WIDTH"
     "map (\<lambda>p. (fd_pc p, fd_value p)) (fifo_items (co_fetch_decode u)) = map (\<lambda>k. (fetch_addr 0x80000000 k, image_word image_demo k)) [0..<n]"
     "\<forall>k < n - 1. \<not> fetch_is_jump (image_word image_demo k)"
     "n < FETCH_WIDTH \<longrightarrow> fetch_is_jump (image_word image_demo (n - 1)) \<or> fetch_is_fence_i (image_word image_demo n)" by blast
  have "n = 2"
  proof (rule ccontr)
    assume "n \<noteq> 2"
    then consider "n = 1" | "2 < n" using c(4) by linarith
    then show False
    proof cases
      case 1
      with c(8) w show False by (simp add: FETCH_WIDTH_def)
    next
      case 2
      then have "1 < n - 1" by simp
      with c(7) w(2) show False by blast
    qed
  qed
  with c(6) have "map (\<lambda>p. (fd_pc p, fd_value p)) (fifo_items (co_fetch_decode u)) = [(0x80000000, 0x13), (0x80000004, 0x6F)]"
    using image_demo_words by (simp add: upt_rec fetch_addr_def)
  with c(1-3) show ?thesis by (intro exI [of _ s] exI [of _ t] exI [of _ u]) simp
qed

end
