(* ===== verification/Core_Trap.thy ===== *)
theory Core_Trap
  imports Core_First
begin

text \<open>
  A trap in the whole processor: while the commit stage walks the reorder buffer back, every cycle
  flushes the other stages, the clock device and the interrupt interface go on, the store buffer
  gives up the stores that did not commit, and the counters are shown; after one cycle per entry the
  fetch stage stands at the trap vector.
\<close>

section \<open>The end of a flushing cycle\<close>

text \<open>The control registers that the end of every cycle writes.\<close>

definition cycle_addrs :: "u32 set" where
  "cycle_addrs = insert CSR_MIP (set counter_addrs)"

lemma class_mip: "csr_class_at csrfile_init CSR_MIP = Some mip"
  by (rule named_class) (simp add: csr_named_list_def CSR_MIP_def CSR_MSTATUS_def CSR_MIE_def CSR_MTVEC_def CSR_MEPC_def CSR_MCAUSE_def CSR_MTVAL_def)

lemma csr_last_append: "csr_last cl (ws @ vs) b x = csr_last cl vs b (csr_last cl ws b x)"
  by (simp add: csr_last_def)

lemma mip_then_sync:
  assumes "csr_request_q f = []" "g = f\<lparr>csr_request_q := csr_writes ws\<rparr>" "csr_class_at f = csr_class_at csrfile_init"
    and "\<forall>w \<in> set ws. \<exists>c. csr_class_at f (fst w) = Some c \<and> c \<noteq> charfifo"
  shows "\<exists>h. csrfile_sync (csrfile_write_sys_sync CSR_MIP v g) = Some h \<and> csr_class_at h = csr_class_at csrfile_init \<and> csr_request_q h = []
    \<and> (\<forall>b. b \<noteq> CSR_MIP \<longrightarrow> csrfile_read_sys h b = csr_last (csr_class_at csrfile_init) ws b (csrfile_read_sys f b))"
proof -
  have "\<forall>w \<in> set (ws @ [(CSR_MIP, v)]). \<exists>c. csr_class_at f (fst w) = Some c \<and> c \<noteq> charfifo"
    using assms(4) class_mip by (auto simp: assms(3))
  moreover have "csr_request_q (csrfile_write_sys_sync CSR_MIP v g) = csr_writes (ws @ [(CSR_MIP, v)])"
    by (simp add: csrfile_write_sys_sync_def assms(2) csr_writes_def)
  ultimately obtain h where "csrfile_sync (csrfile_write_sys_sync CSR_MIP v g) = Some h" "csr_class_at h = csr_class_at f" "csr_request_q h = []"
    "\<forall>b. csrfile_read_sys h b = csr_last (csr_class_at f) (ws @ [(CSR_MIP, v)]) b (csrfile_read_sys f b)"
    using csr_writes_sync [of f "csrfile_write_sys_sync CSR_MIP v g" "ws @ [(CSR_MIP, v)]"] assms(1,2)
    by (auto simp: csrfile_write_sys_sync_def)
  then show ?thesis by (intro exI [of _ h]) (simp add: assms(3) csr_last_append)
qed

lemma sb_cycle_flush:
  assumes "sb_inv sb" "sb_request_q sb = []" "bus_request_q b = []" "cf_enable cf \<and> cf_flush cf" "\<forall>x. \<not> commit_match cf x"
  shows "\<exists>t. sb_cycle cf b sb = Some (b, t) \<and> sb_inv t \<and> sb_request_q t = [] \<and> fifo_items t = takeWhile sb_committed (fifo_items sb)"
proof -
  have k: "sb_keeps cf = sb_committed" "sb_mark cf = id" using assms(5) by (auto simp: sb_keeps_def sb_mark_def)
  have sp: "sb_run_spec cf (fifo_items sb) = ([], takeWhile sb_committed (fifo_items sb))"
    using assms(4) by (simp add: sb_run_spec_def k)
  from sb_run_items [OF assms(1), of cf b] obtain t where t: "sb_run cf b sb = Some (b, t)" "sb_inv t" "sb_request_q t = []"
    "fifo_items t = takeWhile sb_committed (fifo_items sb)" using assms(2,4) by (auto simp: sp)
  moreover have "bus_sync b = Some b" "sb_sync t = Some t" using assms(3) t(3) by (simp_all add: bus_sync_def sb_sync_def)
  ultimately show ?thesis by (simp add: sb_cycle_def)
qed

lemma int_sync_ends: "\<exists>i. int_sync s = Some i \<and> int_request_q i = []"
  using fold_opt_total [of "int_request_q s" "\<lambda>_. True" "\<lambda>cause t. Some (int_set_ack cause t)" s]
  by (auto simp: int_sync_def)

text \<open>What has to hold of the processor beside the commit stage.\<close>

definition core_framed :: "core \<Rightarrow> bool" where
  "core_framed s = (core_mapped s \<and> core_wired s \<and> \<not> fe_wait_first (co_fetch s) \<and> bus_inv (co_bus s) \<and> bus_request_q (co_bus s) = []
     \<and> sb_inv (co_sb s) \<and> sb_request_q (co_sb s) = [])"

definition core_same_outside :: "core \<Rightarrow> core \<Rightarrow> bool" where
  "core_same_outside s t = (core_framed t \<and> bus_flat (co_bus t) = bus_flat (co_bus s)
     \<and> fifo_items (co_sb t) = takeWhile sb_committed (fifo_items (co_sb s)))"

lemma core_sync_flush:
  assumes "core_framed s" "cf_enable cf \<and> cf_flush cf" "\<forall>x. \<not> commit_match cf x"
    and "rat_sync (co_rat s) = Some r" "rob_sync (co_rob s) = Some b" "regfile_sync (co_regfile s) = Some f"
    and "co_csr s = g\<lparr>csr_request_q := csr_writes ws\<rparr>" "csr_request_q g = []"
    and "\<forall>w \<in> set ws. \<exists>c. csr_class_at g (fst w) = Some c \<and> c \<noteq> charfifo"
    and "cpbuf_request_q (co_cpbuf s) = []" "bp_request_q (co_bp s) = []"
  shows "\<exists>c u sb i. core_sync cf s = Some (s\<lparr>co_rat := r, co_rob := b, co_regfile := f, co_csr := c, co_bus := u, co_sb := sb, co_int := i\<rparr>)
    \<and> core_same_outside s (s\<lparr>co_rat := r, co_rob := b, co_regfile := f, co_csr := c, co_bus := u, co_sb := sb, co_int := i\<rparr>)
    \<and> csr_request_q c = [] \<and> int_request_q i = []
    \<and> (\<forall>a. a \<noteq> CSR_MIP \<longrightarrow> csrfile_read_sys c a = csr_last (csr_class_at csrfile_init) ws a (csrfile_read_sys g a))"
proof -
  have fr: "bus_layout (co_bus s) = bus_layout bus_start" "csr_class_at (co_csr s) = csr_class_at csrfile_init" "core_wired s"
    "\<not> fe_wait_first (co_fetch s)" "bus_inv (co_bus s)" "bus_request_q (co_bus s) = []" "sb_inv (co_sb s)" "sb_request_q (co_sb s) = []"
    using assms(1) by (simp_all add: core_framed_def core_mapped_def)
  have cg: "csr_class_at g = csr_class_at csrfile_init" using fr(2) assms(7) by (simp add: csr_class_at_def fun_eq_iff)
  obtain v where "csrfile_read_sys (co_csr s) CSR_MIP = Some v"
    using class_mip csr_class_read [of "co_csr s" CSR_MIP mip] by (auto simp: fr(2))
  then obtain v where run: "int_run (co_csr s) (co_int s)
      = Some (csrfile_write_sys_sync CSR_MIP v (co_csr s), (co_int s)\<lparr>mei_ack := False, msi_ack := False, mti_ack := False\<rparr>)"
    by (simp add: int_run_def Let_def)
  let ?i = "(co_int s)\<lparr>mei_ack := False, msi_ack := False, mti_ack := False\<rparr>"
  obtain c where c: "csrfile_sync (csrfile_write_sys_sync CSR_MIP v (co_csr s)) = Some c" "csr_class_at c = csr_class_at csrfile_init"
    "csr_request_q c = []" "\<forall>a. a \<noteq> CSR_MIP \<longrightarrow> csrfile_read_sys c a = csr_last (csr_class_at csrfile_init) ws a (csrfile_read_sys g a)"
    using mip_then_sync [OF assms(8,7) cg assms(9), of v] by blast
  obtain k where k: "bus_find_slave_info (co_bus s) CLINT_BASE = Some 1" "si_slave (slave_info_list (co_bus s) ! 1) = Clint k"
    "length (slave_info_list (co_bus s)) = 2" using clint_slot [OF fr(1)] by metis
  note t = clint_tick [OF fr(5,1) k(2,3)]
  let ?b = "bus_upd 1 (Clint (clint_run_post k)) (co_bus s)"
  have post: "core_clint_post (s\<lparr>co_csr := x, co_int := y\<rparr>) = Some (s\<lparr>co_csr := x, co_int := y, co_bus := ?b\<rparr>)" for x y
    using k by (simp add: core_clint_post_def)
  have q: "bus_request_q ?b = []" using t(5) fr(6) by simp
  obtain sb where sb: "sb_cycle cf ?b (co_sb s) = Some (?b, sb)" "sb_inv sb" "sb_request_q sb = []"
    "fifo_items sb = takeWhile sb_committed (fifo_items (co_sb s))"
    using sb_cycle_flush [OF fr(7,8) q assms(2,3)] by blast
  obtain i where i: "int_sync ?i = Some i" "int_request_q i = []"
    using int_sync_ends by blast
  have "core_sync cf s = Some (s\<lparr>co_rat := r, co_rob := b, co_regfile := f, co_csr := c, co_bus := ?b, co_sb := sb, co_int := i\<rparr>)"
    using run post c(1) sb(1) i(1) assms(4-6,10,11) by (simp add: core_sync_def sync_idle)
  moreover have "core_same_outside s (s\<lparr>co_rat := r, co_rob := b, co_regfile := f, co_csr := c, co_bus := ?b, co_sb := sb, co_int := i\<rparr>)"
    using fr t q sb c(2) by (simp add: core_same_outside_def core_framed_def core_mapped_def core_wired_def)
  ultimately show ?thesis using c(3,4) i(2) by (intro exI [of _ c] exI [of _ ?b] exI [of _ sb] exI [of _ i]) simp
qed

section \<open>A flushing cycle\<close>

text \<open>The commit stage with the shared components in their places.\<close>

definition commit_view :: "core \<Rightarrow> commit_stage" where
  "commit_view s = (co_commit s)\<lparr>cm_in := co_wb_commit s, cm_rat := co_rat s, cm_rob := co_rob s, cm_csr := co_csr s,
     cm_regfile := co_regfile s, cm_cpbuf := co_cpbuf s, cm_bp := co_bp s, cm_int := co_int s\<rparr>"

lemma clint_pre_mapped:
  assumes "core_mapped s" "int_request_q (co_int s) = []"
  shows "\<exists>i. core_clint_pre s = Some (s\<lparr>co_int := i\<rparr>) \<and> int_request_q i = []"
proof -
  have "bus_layout (co_bus s) = bus_layout bus_start" using assms(1) by (simp add: core_mapped_def)
  from clint_slot [OF this] obtain c where "bus_find_slave_info (co_bus s) CLINT_BASE = Some 1" "si_slave (slave_info_list (co_bus s) ! 1) = Clint c"
    by metis
  then show ?thesis using assms(2)
    by (intro exI [of _ "clint_run_pre c (co_int s)"]) (simp add: core_clint_pre_def bus_get_slave_obj_def clint_run_pre_def)
qed

text \<open>What a cycle leaves whose commit stage flushes: \<open>c\<close> is the stage after its \<open>run\<close>, \<open>r\<close>, \<open>b\<close>
  and \<open>f\<close> the components after their \<open>sync\<close>, \<open>ws\<close> the writes to control registers.\<close>

definition flush_cycle_to ::
  "commit_feedback_pack_t \<Rightarrow> commit_stage \<Rightarrow> rat \<Rightarrow> rob \<Rightarrow> u32 regfile \<Rightarrow> (u32 \<times> u32) list \<Rightarrow> core \<Rightarrow> core \<Rightarrow> bool" where
  "flush_cycle_to cf c r b f ws s t = (core_same_outside s t \<and> core_drained t \<and> fe_pc (co_fetch t) = redirect cf (fe_pc (co_fetch s))
     \<and> co_rat t = r \<and> co_rob t = b \<and> co_regfile t = f \<and> co_cpbuf t = co_cpbuf s \<and> co_bp t = co_bp s
     \<and> csr_request_q (co_csr t) = [] \<and> int_request_q (co_int t) = [] \<and> (\<exists>i. co_commit t = c\<lparr>cm_int := i\<rparr>)
     \<and> (\<forall>a. a \<notin> cycle_addrs \<longrightarrow>
          csrfile_read_sys (co_csr t) a = csr_last (csr_class_at csrfile_init) ws a (csrfile_read_sys (co_csr s) a)))"

lemma core_cycle_flush:
  assumes "core_framed s" "int_request_q (co_int s) = []" "cf_flushing cf" "\<forall>x. \<not> commit_match cf x"
    and run: "\<And>i. int_request_q i = [] \<Longrightarrow>
      commit_run (commit_view (s\<lparr>co_rob := rob_set_committed False (co_rob s), co_int := i\<rparr>)) = Some (cf, c\<lparr>cm_int := i\<lparr>int_request_q := ack\<rparr>\<rparr>)"
    and "rat_sync (cm_rat c) = Some r" "rob_sync (cm_rob c) = Some b" "regfile_sync (cm_regfile c) = Some f"
    and "cm_csr c = (co_csr s)\<lparr>csr_request_q := csr_writes ws\<rparr>" "csr_request_q (co_csr s) = []"
    and "\<forall>w \<in> set ws. \<exists>c. csr_class_at (co_csr s) (fst w) = Some c \<and> c \<noteq> charfifo"
    and "cm_cpbuf c = co_cpbuf s" "cpbuf_request_q (co_cpbuf s) = []" "cm_bp c = co_bp s" "bp_request_q (co_bp s) = []"
  shows "\<exists>t. core_cycle junk s = Some t \<and> flush_cycle_to cf c r b f ws s t"
proof -
  define s0 where "s0 = s\<lparr>co_rob := rob_set_committed False (co_rob s), co_fetch_decode := fifo_reset_pop_status (co_fetch_decode s),
       co_decode_rename := fifo_reset_pop_status (co_decode_rename s)\<rparr>"
  have "core_mapped s0" "int_request_q (co_int s0) = []" using assms(1,2) by (simp_all add: s0_def core_framed_def core_mapped_def)
  from clint_pre_mapped [OF this] obtain i where i: "core_clint_pre s0 = Some (s0\<lparr>co_int := i\<rparr>)" "int_request_q i = []" by blast
  let ?c = "c\<lparr>cm_int := i\<lparr>int_request_q := ack\<rparr>\<rparr>"
  define s1 where "s1 = s0\<lparr>co_commit := ?c, co_rat := cm_rat c, co_rob := cm_rob c, co_csr := cm_csr c,
       co_regfile := cm_regfile c, co_cpbuf := co_cpbuf s, co_bp := co_bp s, co_int := i\<lparr>int_request_q := ack\<rparr>\<rparr>"
  have "commit_run ((co_commit s)\<lparr>cm_in := co_wb_commit s, cm_rat := co_rat s, cm_rob := rob_set_committed False (co_rob s), cm_csr := co_csr s,
       cm_regfile := co_regfile s, cm_cpbuf := co_cpbuf s, cm_bp := co_bp s, cm_int := i\<rparr>) = Some (cf, ?c)"
    using run [OF i(2)] by (simp add: commit_view_def)
  then have cm: "core_commit (s0\<lparr>co_int := i\<rparr>) = Some (cf, s1)"
    using assms(12,14) by (simp add: core_commit_def s0_def s1_def)
  have fr: "core_framed s1" "core_same_outside s1 s1 \<longrightarrow> core_same_outside s s1"
    using assms(1,9) by (auto simp: core_framed_def core_mapped_def core_wired_def s1_def s0_def csr_class_at_def fun_eq_iff core_same_outside_def)
  then have "core_wired s1" "\<not> fe_wait_first (co_fetch s1)" by (simp_all add: core_framed_def)
  from core_flush_stages [OF assms(3) this, of junk] obtain s2 where s2: "core_stages junk cf s1 = Some s2" "core_drained s2" "core_wired s2"
    "fe_pc (co_fetch s2) = redirect cf (fe_pc (co_fetch s1))" "co_rat s2 = co_rat s1" "co_rob s2 = co_rob s1" "co_bus s2 = co_bus s1"
    "co_sb s2 = co_sb s1" "co_regfile s2 = co_regfile s1" "co_csr s2 = co_csr s1" "co_cpbuf s2 = co_cpbuf s1" "co_bp s2 = co_bp s1"
    "co_commit s2 = co_commit s1" "co_int s2 = co_int s1" "\<not> fe_wait_first (co_fetch s2)" by blast
  have "core_framed s2" using fr(1) s2 by (simp add: core_framed_def core_mapped_def)
  moreover have "cf_enable cf \<and> cf_flush cf" using assms(3) by (simp add: cf_flushing_def)
  moreover have "rat_sync (co_rat s2) = Some r" "rob_sync (co_rob s2) = Some b" "regfile_sync (co_regfile s2) = Some f"
    "co_csr s2 = (co_csr s)\<lparr>csr_request_q := csr_writes ws\<rparr>" "cpbuf_request_q (co_cpbuf s2) = []" "bp_request_q (co_bp s2) = []"
    using s2 assms(6-9,13,15) by (simp_all add: s1_def)
  ultimately obtain d u sb j where y: "core_sync cf s2 = Some (s2\<lparr>co_rat := r, co_rob := b, co_regfile := f, co_csr := d, co_bus := u, co_sb := sb, co_int := j\<rparr>)"
    "core_same_outside s2 (s2\<lparr>co_rat := r, co_rob := b, co_regfile := f, co_csr := d, co_bus := u, co_sb := sb, co_int := j\<rparr>)"
    "csr_request_q d = []" "int_request_q j = []"
    "\<forall>a. a \<noteq> CSR_MIP \<longrightarrow> csrfile_read_sys d a = csr_last (csr_class_at csrfile_init) ws a (csrfile_read_sys (co_csr s) a)"
    using core_sync_flush [OF _ _ assms(4) _ _ _ _ assms(10,11)] by blast
  define s3 where "s3 = s2\<lparr>co_rat := r, co_rob := b, co_regfile := f, co_csr := d, co_bus := u, co_sb := sb, co_int := j\<rparr>"
  have "csr_class_at (co_csr s3) = csr_class_at csrfile_init" using y(2) unfolding s3_def [symmetric]
    by (simp add: core_same_outside_def core_framed_def core_mapped_def)
  from core_publish_counters [OF this] obtain e where p: "core_publish s3 = Some (s3\<lparr>cpu_clock_cycle := cpu_clock_cycle s3 + 1,
      committed_instruction_num := global_commit_num (co_rob s3), co_csr := e\<rparr>)" "csr_class_at e = csr_class_at csrfile_init"
    "csr_request_q e = csr_request_q (co_csr s3)"
    "\<forall>a. a \<notin> fst ` set (counter_writes s3) \<longrightarrow> csrfile_read_sys e a = csrfile_read_sys (co_csr s3) a" by blast
  define t where "t = s3\<lparr>cpu_clock_cycle := cpu_clock_cycle s3 + 1, committed_instruction_num := global_commit_num (co_rob s3), co_csr := e\<rparr>"
  have "core_cycle junk s = Some t"
    using i(1) cm s2(1) y(1) p(1) by (simp add: core_cycle_def Let_def flip: s0_def s3_def t_def)
  moreover have "core_same_outside s t"
    using y(2) p(2) unfolding s3_def [symmetric]
    by (simp add: core_same_outside_def core_framed_def core_mapped_def core_wired_def t_def s2 s1_def s0_def)
  moreover have "fst ` set (counter_writes s3) = set counter_addrs" using counter_addrs [of s3] by (metis set_map)
  then have "csrfile_read_sys e a = csr_last (csr_class_at csrfile_init) ws a (csrfile_read_sys (co_csr s) a)" if "a \<notin> cycle_addrs" for a
    using that p(4) y(5) by (simp add: cycle_addrs_def s3_def)
  ultimately show ?thesis using s2 y(3,4) p(3)
    by (intro exI [of _ t]) (auto simp: flush_cycle_to_def t_def s3_def core_drained_def s1_def s0_def)
qed

section \<open>The walk back in the processor\<close>

primrec core_cycles :: "checkpoint_t \<Rightarrow> nat \<Rightarrow> core \<Rightarrow> core option" where
  "core_cycles junk 0 s = Some s"
| "core_cycles junk (Suc n) s = do { t \<leftarrow> core_cycle junk s; core_cycles junk n t }"

lemma trap_classes:
  "csr_class_at csrfile_init CSR_MEPC = Some mepc" "csr_class_at csrfile_init CSR_MTVAL = Some mtval"
  "csr_class_at csrfile_init CSR_MCAUSE = Some mcause" "csr_class_at csrfile_init CSR_MTVEC = Some mtvec"
  "csr_class_at csrfile_init CSR_MSTATUS = Some mstatus"
  by (rule named_class, simp add: csr_named_list_def CSR_MSTATUS_def CSR_MIE_def CSR_MTVEC_def CSR_MEPC_def CSR_MCAUSE_def CSR_MTVAL_def)+

lemma trap_addrs: "CSR_MEPC \<notin> cycle_addrs" "CSR_MTVAL \<notin> cycle_addrs" "CSR_MCAUSE \<notin> cycle_addrs" "CSR_MTVEC \<notin> cycle_addrs"
  "CSR_MSTATUS \<notin> cycle_addrs"
  by (simp_all add: cycle_addrs_def counter_addrs_def CSR_MIP_def CSR_MSTATUS_def CSR_MTVEC_def CSR_MEPC_def CSR_MCAUSE_def CSR_MTVAL_def)

text \<open>The fields of the commit stage that describe the trap.\<close>

definition trap_of :: "core \<Rightarrow> state_t \<times> rob_item_t \<times> u32 \<times> riscv_interrupt_t" where
  "trap_of s = (cm_state (co_commit s), cm_item (co_commit s), cm_interrupt_pc (co_commit s), cm_interrupt_id (co_commit s))"

definition csr_kept :: "core \<Rightarrow> core \<Rightarrow> bool" where
  "csr_kept s t = (\<forall>a. a \<notin> cycle_addrs \<longrightarrow> csrfile_read_sys (co_csr t) a = csrfile_read_sys (co_csr s) a)"

lemma view_fields [simp]:
  "cm_rat (commit_view s) = co_rat s" "cm_rob (commit_view s) = co_rob s" "cm_csr (commit_view s) = co_csr s"
  "cm_regfile (commit_view s) = co_regfile s" "cm_cpbuf (commit_view s) = co_cpbuf s" "cm_bp (commit_view s) = co_bp s"
  "cm_int (commit_view s) = co_int s" "cm_state (commit_view s) = cm_state (co_commit s)" "cm_item (commit_view s) = cm_item (co_commit s)"
  "cm_item_id (commit_view s) = cm_item_id (co_commit s)" "cm_restore_id (commit_view s) = cm_restore_id (co_commit s)"
  "cm_interrupt_pc (commit_view s) = cm_interrupt_pc (co_commit s)" "cm_interrupt_id (commit_view s) = cm_interrupt_id (co_commit s)"
  by (simp_all add: commit_view_def)

lemma trap_same:
  assumes "trap_of t = trap_of s" "csr_kept s t"
  shows "trap_writes (commit_view t) = trap_writes (commit_view s)"
proof -
  have "csrfile_read_sys (co_csr t) CSR_MSTATUS = csrfile_read_sys (co_csr s) CSR_MSTATUS"
    using assms(2) trap_addrs(5) by (simp add: csr_kept_def)
  then show ?thesis using assms(1) by (simp add: trap_writes_def trap_mstatus_def trap_of_def)
qed

text \<open>The cycle begins with the reorder buffer's flag taken back and the clock's view of interrupts.\<close>

definition begun :: "core \<Rightarrow> interrupt_interface \<Rightarrow> core" where
  "begun s i = s\<lparr>co_rob := rob_set_committed False (co_rob s), co_int := i\<rparr>"

lemma ring_ids_committed [simp]: "ring_ids (rob_set_committed v b) = ring_ids b"
  by (simp add: rob_set_committed_def ring_ids_def)

lemma walk_begun:
  "walk_item j (commit_view (begun s i)) = walk_item j (commit_view s)"
  "walk_rat j (commit_view (begun s i)) = walk_rat j (commit_view s)"
  "walk_regfile j (commit_view (begun s i)) = walk_regfile j (commit_view s)"
  "trap_writes (commit_view (begun s i)) = trap_writes (commit_view s)"
  "walk_ok k (commit_view s) \<Longrightarrow> int_request_q i = [] \<Longrightarrow> walk_ok k (commit_view (begun s i))"
proof -
  show w: "walk_item j (commit_view (begun s i)) = walk_item j (commit_view s)" for j
    unfolding walk_item_def view_fields by (simp add: begun_def rob_set_committed_def ring_ids_def)
  show "walk_rat j (commit_view (begun s i)) = walk_rat j (commit_view s)" "walk_regfile j (commit_view (begun s i)) = walk_regfile j (commit_view s)"
    unfolding walk_rat_def walk_regfile_def w by (simp_all add: begun_def Let_def)
  show "trap_writes (commit_view (begun s i)) = trap_writes (commit_view s)"
    unfolding trap_writes_def view_fields by (simp add: begun_def)
  show "walk_ok k (commit_view s) \<Longrightarrow> int_request_q i = [] \<Longrightarrow> walk_ok k (commit_view (begun s i))"
    unfolding walk_ok_def commit_quiet_def view_fields by (simp add: begun_def rob_committed_simps)
qed

lemma flush_feedback:
  "cf_flushing walk_feedback" "\<not> commit_match walk_feedback x" "redirect walk_feedback pc = pc"
  "cf_flushing (trap_feedback c)" "\<not> commit_match (trap_feedback c) x" "redirect (trap_feedback c) pc = the (csrfile_read_sys c CSR_MTVEC)"
  by (simp_all add: walk_feedback_def trap_feedback_def commit_feedback_zero_def cf_flushing_def redirect_def commit_match_def
      COMMIT_WIDTH_def numeral_eq_Suc)

definition walk_cycle_to :: "core \<Rightarrow> core \<Rightarrow> rat \<Rightarrow> u32 regfile \<Rightarrow> bool" where
  "walk_cycle_to s t r f = (core_same_outside s t \<and> core_drained t \<and> co_rat t = r \<and> co_regfile t = f
     \<and> co_cpbuf t = co_cpbuf s \<and> co_bp t = co_bp s)"

lemma begun_int: "commit_view (begun s i) = (commit_view (begun s j))\<lparr>cm_int := i\<rparr>"
  by (simp add: commit_view_def begun_def)

lemma int_quiet: "int_request_q i = [] \<Longrightarrow> i\<lparr>int_request_q := []\<rparr> = i"
  by (cases i) simp

lemma core_walk_step:
  assumes "walk_ok (Suc k) (commit_view s)" "core_framed s" "undo_map (walk_item (Suc k) (commit_view s)) (co_rat s) = Some r"
  shows "\<exists>t. core_cycle junk s = Some t \<and> walk_cycle_to s t r (undo_value (walk_item (Suc k) (commit_view s)) (co_regfile s))
    \<and> walk_ok k (commit_view t) \<and> (\<forall>j. walk_item j (commit_view t) = walk_item j (commit_view s)) \<and> trap_of t = trap_of s \<and> csr_kept s t"
proof -
  have q: "commit_quiet (commit_view s)" "fifo_inv (co_rob s)" "regfile_inv (co_regfile s)" using assms(1) by (simp_all add: walk_ok_def)
  then have q': "int_request_q (co_int s) = []" "csr_request_q (co_csr s) = []" "cpbuf_request_q (co_cpbuf s) = []" "bp_request_q (co_bp s) = []"
    "rob_request_q (co_rob s) = []" "rat_request_q (co_rat s) = []" "regfile_request_q (co_regfile s) = []"
    by (simp_all add: commit_quiet_def)
  define v where "v = commit_view (begun s (co_int s))"
  define c where "c = v\<lparr>cm_rat := walk_rat (Suc k) (commit_view s), cm_regfile := walk_regfile (Suc k) (commit_view s),
      cm_restore_id := ring_ids (co_rob s) ! k\<rparr>"
  have run: "commit_run (commit_view (s\<lparr>co_rob := rob_set_committed False (co_rob s), co_int := i\<rparr>))
      = Some (walk_feedback, c\<lparr>cm_int := i\<lparr>int_request_q := []\<rparr>\<rparr>)" if "int_request_q i = []" for i
  proof -
    have "commit_run (commit_view (begun s i)) = Some (walk_feedback, (commit_view (begun s i))\<lparr>cm_rat := walk_rat (Suc k) (commit_view s),
        cm_regfile := walk_regfile (Suc k) (commit_view s), cm_restore_id := ring_ids (co_rob s) ! k\<rparr>)"
      using walk_step_run [OF walk_begun(5) [OF assms(1) that]] by (simp add: walk_begun) (simp add: begun_def)
    also have "(commit_view (begun s i))\<lparr>cm_rat := walk_rat (Suc k) (commit_view s),
        cm_regfile := walk_regfile (Suc k) (commit_view s), cm_restore_id := ring_ids (co_rob s) ! k\<rparr> = c\<lparr>cm_int := i\<rparr>"
      unfolding c_def v_def begun_int [of s i "co_int s"] by simp
    finally show ?thesis unfolding int_quiet [OF that] begun_def .
  qed
  note w = walk_sync [OF assms(1)]
  have sy: "rat_sync (cm_rat c) = Some r" "regfile_sync (cm_regfile c) = Some (undo_value (walk_item (Suc k) (commit_view s)) (co_regfile s))"
    "rat_request_q r = []" "rat_wf r" "phy_reg_num r = PHY_REG_NUM"
    using w [of r] assms(3) by (simp_all add: c_def)
  have rob: "rob_sync (cm_rob c) = Some (rob_set_committed False (co_rob s))"
    using q'(5) by (simp add: c_def v_def begun_def sync_idle(1) rob_committed_simps)
  have csr: "cm_csr c = (co_csr s)\<lparr>csr_request_q := csr_writes []\<rparr>"
    using q'(2) by (simp add: c_def v_def begun_def csr_writes_def)
  have "cm_cpbuf c = co_cpbuf s" "cm_bp c = co_bp s" by (simp_all add: c_def v_def begun_def)
  from core_cycle_flush [OF assms(2) q'(1) flush_feedback(1) _ run sy(1) rob sy(2) csr q'(2) _ this(1) q'(3) this(2) q'(4), of junk] obtain t where
    t: "core_cycle junk s = Some t" "flush_cycle_to walk_feedback c r (rob_set_committed False (co_rob s))
      (undo_value (walk_item (Suc k) (commit_view s)) (co_regfile s)) [] s t"
    using flush_feedback(2) by auto
  then obtain i where i: "co_commit t = c\<lparr>cm_int := i\<rparr>" by (auto simp: flush_cycle_to_def)
  have e: "co_rat t = r" "co_rob t = rob_set_committed False (co_rob s)" "co_cpbuf t = co_cpbuf s" "co_bp t = co_bp s"
    "co_regfile t = undo_value (walk_item (Suc k) (commit_view s)) (co_regfile s)" "csr_request_q (co_csr t) = []" "int_request_q (co_int t) = []"
    using t(2) by (simp_all add: flush_cycle_to_def)
  have f: "cm_state (co_commit t) = cm_state (co_commit s)" "cm_item_id (co_commit t) = cm_item_id (co_commit s)"
    "cm_restore_id (co_commit t) = ring_ids (co_rob s) ! k" "trap_of t = trap_of s"
    by (simp_all add: i c_def v_def begun_def trap_of_def)
  have "walk_ok k (commit_view t)"
    using assms(1) q' sy(3-5) undo_value_inv by (simp add: walk_ok_def commit_quiet_def e f rob_committed_simps)
  moreover have "walk_item j (commit_view t) = walk_item j (commit_view s)" for j
    unfolding walk_item_def view_fields e by (simp add: rob_set_committed_def ring_ids_def)
  moreover have "csr_kept s t" using t(2) by (simp add: flush_cycle_to_def csr_kept_def)
  ultimately show ?thesis using t f(4) by (auto simp: walk_cycle_to_def flush_cycle_to_def)
qed

definition trap_done :: "core \<Rightarrow> core \<Rightarrow> bool" where
  "trap_done s t = (fifo_items (co_rob t) = [] \<and> cm_state (co_commit t) = St_normal
     \<and> csrfile_read_sys (co_csr s) CSR_MTVEC = Some (fe_pc (co_fetch t))
     \<and> (\<forall>a. a \<notin> cycle_addrs \<longrightarrow> csrfile_read_sys (co_csr t) a
          = csr_last (csr_class_at csrfile_init) (trap_writes (commit_view s)) a (csrfile_read_sys (co_csr s) a)))"

lemma core_walk_last:
  assumes "walk_ok 0 (commit_view s)" "core_framed s" "undo_map (walk_item 0 (commit_view s)) (co_rat s) = Some r"
  shows "\<exists>t. core_cycle junk s = Some t \<and> walk_cycle_to s t r (undo_value (walk_item 0 (commit_view s)) (co_regfile s)) \<and> trap_done s t"
proof -
  have q: "commit_quiet (commit_view s)" using assms(1) by (simp add: walk_ok_def)
  then have q': "int_request_q (co_int s) = []" "csr_request_q (co_csr s) = []" "cpbuf_request_q (co_cpbuf s) = []" "bp_request_q (co_bp s) = []"
    "rob_request_q (co_rob s) = []" by (simp_all add: commit_quiet_def)
  have cls: "csr_class_at (co_csr s) = csr_class_at csrfile_init" using assms(2) by (simp add: core_framed_def core_mapped_def)
  define ws where "ws = trap_writes (commit_view s)"
  define ack where "ack = (if cm_state (co_commit s) = St_interrupt_flush then [cm_interrupt_id (co_commit s)] else [])"
  define b where "b = rob_emptied (rob_set_committed False (co_rob s))"
  define v where "v = commit_view (begun s (co_int s))"
  define c where "c = v\<lparr>cm_rat := walk_rat 0 (commit_view s), cm_regfile := walk_regfile 0 (commit_view s), cm_rob := b,
      cm_csr := (co_csr s)\<lparr>csr_request_q := csr_writes ws\<rparr>, cm_state := St_normal\<rparr>"
  have ready: "trap_ready (commit_view (begun s i))" for i
    using trap_classes by (simp add: trap_ready_def begun_def cls)
  have run: "commit_run (commit_view (s\<lparr>co_rob := rob_set_committed False (co_rob s), co_int := i\<rparr>))
      = Some (trap_feedback (co_csr s), c\<lparr>cm_int := i\<lparr>int_request_q := ack\<rparr>\<rparr>)" if "int_request_q i = []" for i
  proof -
    have "commit_run (commit_view (begun s i)) = Some (trap_feedback (co_csr s), walk_requested (commit_view (begun s i)))"
      using walk_last_run [OF walk_begun(5) [OF assms(1) that] ready] by (simp add: begun_def)
    also have "walk_requested (commit_view (begun s i)) = c\<lparr>cm_int := i\<lparr>int_request_q := ack\<rparr>\<rparr>"
      unfolding walk_requested_def walk_begun c_def v_def ws_def [symmetric]
      by (simp add: begun_int [of s i "co_int s"]) (simp add: begun_def b_def ack_def)
    finally show ?thesis unfolding begun_def .
  qed
  have sy: "rat_sync (cm_rat c) = Some r" "regfile_sync (cm_regfile c) = Some (undo_value (walk_item 0 (commit_view s)) (co_regfile s))"
    using walk_sync [OF assms(1), of r] assms(3) by (simp_all add: c_def)
  have bq: "rob_request_q b = []" "fifo_items b = []"
    using q'(5) by (simp_all add: b_def rob_emptied_def rob_add_commit_num_def rob_set_committed_def fifo_flush_def fifo_items_def ring_items_def)
  then have rob: "rob_sync (cm_rob c) = Some b" by (simp add: c_def sync_idle(1))
  have csr: "cm_csr c = (co_csr s)\<lparr>csr_request_q := csr_writes ws\<rparr>" by (simp add: c_def)
  have "trap_ready (commit_view s)" using trap_classes by (simp add: trap_ready_def cls)
  then have m: "\<forall>w \<in> set ws. \<exists>c. csr_class_at (co_csr s) (fst w) = Some c \<and> c \<noteq> charfifo"
    using trap_ready_writes [of "commit_view s"] by (simp add: ws_def)
  have "cm_cpbuf c = co_cpbuf s" "cm_bp c = co_bp s" by (simp_all add: c_def v_def begun_def)
  from core_cycle_flush [OF assms(2) q'(1) flush_feedback(4) _ run sy(1) rob sy(2) csr q'(2) m this(1) q'(3) this(2) q'(4), of junk] obtain t where
    t: "core_cycle junk s = Some t" "flush_cycle_to (trap_feedback (co_csr s)) c r b
      (undo_value (walk_item 0 (commit_view s)) (co_regfile s)) ws s t"
    using flush_feedback(5) by blast
  then obtain i where i: "co_commit t = c\<lparr>cm_int := i\<rparr>" by (auto simp: flush_cycle_to_def)
  have "csrfile_read_sys (co_csr s) CSR_MTVEC = Some (the (csrfile_read_sys (co_csr s) CSR_MTVEC))"
    using csr_class_read [of "co_csr s" CSR_MTVEC mtvec] trap_classes by (simp add: cls)
  then show ?thesis using t i bq(2)
    by (intro exI [of _ t]) (simp add: flush_cycle_to_def walk_cycle_to_def trap_done_def flush_feedback(6) c_def ws_def)
qed

lemma walk_cycle_trans:
  assumes "walk_cycle_to s t r f" "walk_cycle_to t u r' f'"
  shows "walk_cycle_to s u r' f'"
proof -
  have "takeWhile P (takeWhile P xs) = takeWhile P xs" for P and xs :: "'a list"
    by (auto simp: takeWhile_eq_all_conv dest: set_takeWhileD)
  with assms show ?thesis by (simp add: walk_cycle_to_def core_same_outside_def)
qed

lemma core_walk_all:
  assumes "walk_ok k (commit_view s)" "core_framed s"
    and "rat_rollback (undo_pairs (map (\<lambda>j. walk_item j (commit_view s)) [0..<Suc k])) (co_rat s) = Some r"
  shows "\<exists>t. core_cycles junk (Suc k) s = Some t
    \<and> walk_cycle_to s t r (undo_values (map (\<lambda>j. walk_item j (commit_view s)) [0..<Suc k]) (co_regfile s)) \<and> trap_done s t"
  using assms
proof (induction k arbitrary: s)
  case 0
  then have "undo_map (walk_item 0 (commit_view s)) (co_rat s) = Some r"
    using undo_pairs_rollback(1) [of "[]" "walk_item 0 (commit_view s)"] by (auto simp: undo_pairs_rollback(2) bind_eq_Some_conv)
  from core_walk_last [OF 0(1,2) this, of junk] show ?case by (auto simp: undo_values_def)
next
  case (Suc k)
  let ?x = "walk_item (Suc k) (commit_view s)" and ?xs = "map (\<lambda>j. walk_item j (commit_view s)) [0..<Suc k]"
  have "rat_rollback (undo_pairs (?xs @ [?x])) (co_rat s) = Some r" using Suc.prems(3) by simp
  then obtain u where u: "undo_map ?x (co_rat s) = Some u" "rat_rollback (undo_pairs ?xs) u = Some r"
    by (auto simp only: undo_pairs_rollback bind_eq_Some_conv)
  from core_walk_step [OF Suc.prems(1,2) u(1), of junk] obtain t where
    t: "core_cycle junk s = Some t" "walk_cycle_to s t u (undo_value ?x (co_regfile s))" "walk_ok k (commit_view t)"
      "\<And>j. walk_item j (commit_view t) = walk_item j (commit_view s)" "trap_of t = trap_of s" "csr_kept s t" by blast
  have e: "core_framed t" "co_rat t = u" "co_regfile t = undo_value ?x (co_regfile s)"
    using t(2) by (simp_all add: walk_cycle_to_def core_same_outside_def)
  from Suc.IH [OF t(3) e(1)] u(2) obtain w where
    w: "core_cycles junk (Suc k) t = Some w" "walk_cycle_to t w r (undo_values ?xs (undo_value ?x (co_regfile s)))" "trap_done t w"
    unfolding t(4) e(2,3) by blast
  have "undo_values ?xs (undo_value ?x (co_regfile s)) = undo_values (map (\<lambda>j. walk_item j (commit_view s)) [0..<Suc (Suc k)]) (co_regfile s)"
    by (simp add: undo_values_def)
  moreover have "trap_done s w"
    using w(3) t(6) trap_addrs(4) unfolding trap_done_def trap_same [OF t(5,6)] by (simp add: csr_kept_def)
  moreover have "core_cycles junk (Suc (Suc k)) s = Some w"
    using t(1) w(1) by (subst core_cycles.simps(2)) (simp del: core_cycles.simps(2))
  ultimately show ?case using walk_cycle_trans [OF t(2) w(2)] by (intro exI [of _ w]) (simp del: upt_Suc core_cycles.simps)
qed

section \<open>A trap\<close>

text \<open>The address, cause and value that a trap records.\<close>

definition trap_recorded :: "core \<Rightarrow> core \<Rightarrow> bool" where
  "trap_recorded s t = (let c = co_commit s; f = co_csr t in
     if cm_state c = St_interrupt_flush
     then csrfile_read_sys f CSR_MEPC = Some (cm_interrupt_pc c AND NOT 3) \<and> csrfile_read_sys f CSR_MTVAL = Some 0
       \<and> csrfile_read_sys f CSR_MCAUSE = Some (0x80000000 OR interrupt_code (cm_interrupt_id c))
       \<and> (\<exists>v w. csrfile_read_sys (co_csr s) CSR_MSTATUS = Some v \<and> csrfile_read_sys f CSR_MSTATUS = Some w
            \<and> \<not> mstatus_get_mie w \<and> mstatus_get_mpie w = mstatus_get_mie v)
     else csrfile_read_sys f CSR_MEPC = Some (ri_pc (cm_item c) AND NOT 3) \<and> csrfile_read_sys f CSR_MTVAL = Some (ri_exception_value (cm_item c))
       \<and> csrfile_read_sys f CSR_MCAUSE = Some (exception_code (ri_exception_id (cm_item c)))
       \<and> csrfile_read_sys f CSR_MSTATUS = csrfile_read_sys (co_csr s) CSR_MSTATUS)"

lemma trap_done_recorded:
  assumes "trap_done s t" "core_framed s"
  shows "trap_recorded s t"
proof -
  have cls: "csr_class_at (co_csr s) = csr_class_at csrfile_init" using assms(2) by (simp add: core_framed_def core_mapped_def)
  have r: "csrfile_read_sys (co_csr t) a = csr_last (csr_class_at csrfile_init) (trap_writes (commit_view s)) a (csrfile_read_sys (co_csr s) a)"
    if "a \<notin> cycle_addrs" for a using assms(1) that by (simp add: trap_done_def)
  obtain v where v: "csrfile_read_sys (co_csr s) CSR_MSTATUS = Some v"
    using csr_class_read [of "co_csr s" CSR_MSTATUS mstatus] trap_classes by (auto simp: cls)
  show ?thesis unfolding trap_recorded_def Let_def r [OF trap_addrs(1)] r [OF trap_addrs(2)] r [OF trap_addrs(3)] r [OF trap_addrs(5)]
    using v trap_mstatus_bits [OF v] by (simp add: trap_writes_def trap_classes mepc_filter_def)
qed

text \<open>C8: a trap in the whole processor.  When the commit stage has found an exception or an
  interrupt, the processor, whatever is in its queues, ports and units, takes exactly one cycle per
  entry of the reorder buffer, none of which aborts; then nothing is in flight between fetch and
  commit, the reorder buffer is empty and the fetch stage stands at the trap vector; the alias table is
  that of the committed instructions, whose registers have kept their values and valid bits; memory as
  the program sees it is what the committed stores have made of it, no store of a squashed instruction
  is left; and \<open>mepc\<close>, \<open>mtval\<close>, \<open>mcause\<close> and \<open>mstatus\<close> say what the trap was, although the
  clock, the interrupt interface and the counters go on writing theirs.\<close>

theorem core_takes_trap:
  assumes "core_framed s" "walk_start m (commit_view s)"
  shows "\<exists>t. core_cycles junk (length (fifo_items (co_rob s))) s = Some t
    \<and> core_drained t \<and> fifo_items (co_rob t) = [] \<and> cm_state (co_commit t) = St_normal
    \<and> csrfile_read_sys (co_csr s) CSR_MTVEC = Some (fe_pc (co_fetch t)) \<and> in_flight m [] (co_rat t)
    \<and> (\<forall>a p. m a = Some p \<longrightarrow> regfile_read (co_regfile t) p = regfile_read (co_regfile s) p
         \<and> regfile_read_data_valid (co_regfile t) p = regfile_read_data_valid (co_regfile s) p)
    \<and> mem_view (co_bus t) (co_sb t) = apply_writes (map item_write (takeWhile sb_committed (fifo_items (co_sb s)))) (bus_flat (co_bus s))
    \<and> trap_recorded s t"
proof -
  obtain k where k: "length (fifo_items (co_rob s)) = Suc k" "walk_ok k (commit_view s)"
    "map (\<lambda>j. walk_item j (commit_view s)) [0..<Suc k] = fifo_items (co_rob s)"
    using walk_start_ok [OF assms(2)] by auto
  have "in_flight m (fifo_items (co_rob s)) (co_rat s)" using assms(2) by (simp add: walk_start_def)
  from in_flight_undo_all [OF this] obtain r where r: "rat_rollback (undo_pairs (fifo_items (co_rob s))) (co_rat s) = Some r" "in_flight m [] r"
    by blast
  from core_walk_all [OF k(2) assms(1), of r junk] r(1) obtain t where t: "core_cycles junk (Suc k) s = Some t"
    "walk_cycle_to s t r (undo_values (fifo_items (co_rob s)) (co_regfile s))" "trap_done s t" unfolding k(3) by blast
  then show ?thesis unfolding k(1)
    using r(2) committed_values_kept [OF assms(2)] trap_done_recorded [OF t(3) assms(1)]
    by (intro exI [of _ t]) (simp add: walk_cycle_to_def core_same_outside_def trap_done_def mem_view_def del: core_cycles.simps)
qed

text \<open>The freshly started processor with an illegal instruction and a younger one in its reorder buffer.\<close>

definition trap_core :: "core \<Rightarrow> core" where
  "trap_core s = s\<lparr>co_rat := cm_rat (trap_demo St_flush), co_rob := cm_rob (trap_demo St_flush),
     co_regfile := cm_regfile (trap_demo St_flush), co_commit := trap_demo St_flush,
     co_fetch := (co_fetch s)\<lparr>fe_wait_first := False\<rparr>\<rparr>"

lemma trap_core_ok:
  assumes "core_ready s" "co_csr s = csrfile_init" "bus_layout (co_bus s) = bus_layout bus_start"
  shows "core_framed (trap_core s)" "walk_start (rat_lookup rat_start) (commit_view (trap_core s))"
proof -
  have r: "core_quiet s" "core_sound s" "core_wired s" "fifo_items (co_sb s) = []" using assms(1) by (simp_all add: core_ready_def)
  then show "core_framed (trap_core s)" using assms(2,3)
    by (simp add: core_framed_def core_mapped_def trap_core_def core_quiet_def core_sound_def core_wired_def sb_inv_def)
  have st: "St_flush \<noteq> St_normal" by simp
  from trap_demo_start(1) [OF st] show "walk_start (rat_lookup rat_start) (commit_view (trap_core s))"
    using r assms(2) unfolding walk_start_def commit_quiet_def trap_ready_def view_fields
    by (simp add: trap_core_def core_quiet_def trap_demo_def)
qed

theorem core_takes_trap_witness:
  "\<exists>s t. core_boot image_demo (core_static (cp_sample 0) 9 5 \<lparr>ras_addr = 0, ras_cnt = 0\<rparr>) = Some s
     \<and> core_cycles (cp_sample 0) 2 (trap_core s) = Some t \<and> core_drained t \<and> fifo_items (co_rob t) = []
     \<and> csrfile_read_sys (co_csr t) CSR_MEPC = Some 0x80000010 \<and> csrfile_read_sys (co_csr t) CSR_MCAUSE = Some 2"
proof -
  from core_boot_start [OF image_demo_fits, of "cp_sample 0" 9 5 "\<lparr>ras_addr = 0, ras_cnt = 0\<rparr>"] obtain s where
    s: "core_boot image_demo (core_static (cp_sample 0) 9 5 \<lparr>ras_addr = 0, ras_cnt = 0\<rparr>) = Some s" "core_ready s"
      "co_csr s = csrfile_init" "bus_layout (co_bus s) = bus_layout bus_start" by blast
  have "St_flush \<noteq> St_normal" by simp
  from trap_demo_start(2) [OF this] have n: "length (fifo_items (co_rob (trap_core s))) = 2"
    by (simp add: trap_core_def)
  from core_takes_trap [OF trap_core_ok [OF s(2-4)], of "cp_sample 0"] obtain t where
    t: "core_cycles (cp_sample 0) 2 (trap_core s) = Some t" "core_drained t" "fifo_items (co_rob t) = []" "trap_recorded (trap_core s) t"
    unfolding n by blast
  have "co_commit (trap_core s) = trap_demo St_flush" by (simp add: trap_core_def)
  with t(4) have "csrfile_read_sys (co_csr t) CSR_MEPC = Some 0x80000010 \<and> csrfile_read_sys (co_csr t) CSR_MCAUSE = Some 2"
    by (simp add: trap_recorded_def trap_demo_def trap_item_def Let_def)
  with s(1) t(1-3) show ?thesis by blast
qed

end
