(* ===== verification/Spec2Isabelle.thy ===== *)
theory Spec2Isabelle
  imports Rat Regfile Rob Decode_Stage Execute_Arith Execute_Csr Execute_Lsu Execute_Bru Rename Checkpoint_Life Issue_Stage Fetch_Cycle Core_Trap
begin

text \<open>
  The cycle-accurate C++ model of the RV32IM out-of-order processor DreamCore, under
  \<open>src/model/model/src\<close>.  The core renames up to four instructions per cycle onto 128 physical
  registers, keeps them in a reorder buffer of 64 slots, issues them to eight units in five classes of
  queue, and commits in order.  Every component is a class; a cycle calls each stage's \<open>run\<close>
  once, and a component's \<open>..._sync\<close> operations queue requests that its \<open>sync\<close> applies
  at the end of the cycle.

  \<^bold>\<open>Conventions.\<close>  An object is a record and an operation takes and returns it.  An operation that
  can fail an \<open>assert\<close>, read an array out of bounds or miss the key of a map is in the option type,
  and \<open>None\<close> is exactly that abort.  A \<open>bool\<close> result with output arguments is a pair or an
  option.  A \<open>uint32_t\<close> that holds data is a 32-bit word and wraps; an index that the code bounds
  by a capacity is a natural number.  The queue of deferred requests is a list field of the record.
  Packets are records that extend each other as the C++ structures repeat each other's fields; the
  \<open>sub_op\<close> union keeps the member last written.  Tracing, printing and JSON output are left out
  except \<open>fifo::get_json\<close> and \<open>rob::get_json\<close>, whose loops walk the ring.

  \<^bold>\<open>Theories.\<close>
  \<^item> \<open>Prelude\<close> (\<open>top_header/common.h\<close>): exception and interrupt codes, \<open>sign_extend\<close>,
    the assertion, bounded array access, folds in the option type, bit lemmas.  Its locales
    \<open>deferred\<close> and \<open>deferred_total\<close> state the contract of a queue of deferred requests, and
    are interpreted by every component that has one.
  \<^item> \<open>Fifo\<close> (\<open>component/fifo.h\<close>): the ring buffer with wrap bits and its saved read
    pointer; it refines a list with a mark.  \<open>Ring\<close>, \<open>Rob\<close>, \<open>Checkpoint\<close>: slots
    addressed by identifier, \<open>component/rob.h\<close> and \<open>component/checkpoint_buffer.h\<close>.
    \<open>Walk\<close>: do-while walks over the identifiers of a ring; \<open>Issue_Queue\<close>
    (\<open>component/issue_queue.h\<close>): the compaction that removes issued entries.
  \<^item> \<open>Bitmap\<close>, \<open>Rat\<close> (\<open>component/rat.h\<close>): the register alias table, with
    checkpoints, rollback and commit; \<open>Regfile\<close> (\<open>component/regfile.h\<close>).
  \<^item> \<open>Csr\<close> (\<open>component/csr_base.h\<close>, \<open>csr/*.h\<close>, \<open>csrfile.h\<close>): the control
    and status registers with their filters; \<open>Interrupt\<close>
    (\<open>component/interrupt_interface.h\<close>).
  \<^item> \<open>Slave\<close>, \<open>Bus\<close> (\<open>component/slave_base.h\<close>, \<open>slave/memory.h\<close>,
    \<open>slave/clint.h\<close>, \<open>bus.h\<close>): devices and address map.  \<open>Store_Buffer\<close>
    (\<open>component/store_buffer.h\<close>): stores waiting for commit, forwarding to loads, write-back.
  \<^item> \<open>Pipeline_Common\<close> (\<open>pipeline/*.h\<close>, \<open>component/port.h\<close>): enumerations, packets
    and pipeline registers.
  \<^item> \<open>Ras\<close>, \<open>Branch_Predictor\<close> (\<open>component/stack.h\<close>, \<open>ras.h\<close>,
    \<open>branch_predictor.h\<close>): the return address stack and the predictors.
  \<^item> \<open>Decode\<close>, \<open>Decode_Stage\<close> (\<open>pipeline/decode.cpp\<close>); \<open>Rename\<close>
    (\<open>pipeline/rename.cpp\<close>); \<open>Readreg\<close>
    (\<open>pipeline/readreg.cpp\<close>); \<open>Execute_Common\<close>, \<open>Execute_Arith\<close>,
    \<open>Execute_Csr\<close>, \<open>Execute_Bru\<close>, \<open>Execute_Lsu\<close>
    (\<open>pipeline/execute/*.cpp\<close>); \<open>Write_Back\<close> (\<open>pipeline/wb.cpp\<close>).  The locale
    \<open>exec_unit\<close> is the contract of a unit's cycle, interpreted by the five units that share it.
  \<^item> \<open>Issue\<close> (\<open>pipeline/issue.cpp\<close>) with \<open>Issue_Select\<close>, what is picked;
    \<open>Issue_Cycle\<close>, how instructions and operands move; \<open>Issue_Stage\<close>, the stage's properties.
  \<^item> \<open>Commit\<close> (\<open>pipeline/commit.cpp\<close>) with \<open>Commit_Retire\<close>, its normal state;
    \<open>Commit_Walk\<close>, exceptions and interrupts; \<open>Commit_Recover\<close>, mispredicted branches.
    \<open>In_Flight\<close> states what the alias table and the reorder buffer promise each other,
    \<open>Flight_Cycle\<close> shows that a cycle of commit and rename on the same objects keeps it;
    \<open>Checkpoint_Life\<close>, that a branch's checkpoint is right when rename takes it and stays so until
    commit recovers from it.
  \<^item> \<open>Fetch\<close> (\<open>pipeline/fetch.cpp\<close>) with \<open>Fetch_Cycle\<close>, what one cycle brings in.
  \<^item> \<open>Core\<close> (\<open>top_source/main.cpp\<close>): the state of the processor and the turn of the loop
    of \<open>run()\<close>, the stages from commit back to fetch and the \<open>sync\<close> of each component.
    \<open>Core_Start\<close>: constructors, \<open>init()\<close> and \<open>reset()\<close>; \<open>Core_Flush\<close>: a cycle
    under a flush; \<open>Core_Idle\<close>, \<open>Core_Counters\<close>: a cycle with nothing in flight;
    \<open>Core_First\<close>: the first instructions after start-up; \<open>Core_Trap\<close>: an exception or an
    interrupt in the whole processor.
  \<^item> This theory: every packet of the decoder, sent by the issue stage with any operands, names a unit
    that returns on it; no aligned access of the address map aborts.

  \<^bold>\<open>What the lemmas show.\<close>  The rings: every operation refines the one on lists, identifiers
  stay fresh until popped, walks visit each occupied slot once.  Renaming: a mapping allocates a free
  register and is undone exactly by rollback and by restoring a checkpoint; a group of instructions
  renamed in one cycle reads and writes what renaming them one by one gives, and each of its branches
  gets a checkpoint that brings the mapping after it back.  Memory: what a load is given is memory overlaid by the older
  buffered stores, a flush drops exactly the stores that did not commit, and buffer and bus together
  keep one view of memory across a cycle.  Control registers: the filters' legal values are preserved,
  read-only and unmapped registers raise errors.  Decoding: agreement with the encoding table of
  RV32IM, Zicsr, Zifencei and \<open>mret\<close> on every word, except that a \<open>jalr\<close> with a reserved
  \<open>funct3\<close> is accepted and a \<open>fence\<close> with a field set that should be ignored is refused, and
  immediates that round-trip.  Execution: each unit
  computes the operation of the instruction set on integers, units flush on a misprediction, and
  results reach register file and bypass network together.  Prediction: no sequence of operations
  leaves the tables' bounds, and the correction after a misprediction makes histories as if the branch
  had been guessed right.  Issue: at most two ready instructions per cycle, memory operations in
  program order and serialising instructions alone, each sent once to a unit with room and with the
  operands of its registers; no result is missed and the oldest instruction is not held back.  Commit:
  instructions retire in program order; an exception or an interrupt brings the committed state back
  after one cycle per entry of the reorder buffer, a misprediction in one cycle; no register is lost.
  Fetch: what reaches the decoder are the words of memory in sequence up to the first jump or a
  \<open>fence.i\<close> that has to wait, and fetching goes on where the predictor sends the jump.  The core:
  start-up makes every component well formed and empty, a flush leaves nothing of what was in flight
  between fetch and commit, a trap brings the whole processor back to the committed state of
  registers and memory, and the first group of instructions of a program arrives at the decoder.

  \<^bold>\<open>Termination and bounds.\<close>  The do-while walks run over a list of identifiers computed from
  the ring's size, which is enough because a walk meets each occupied slot at most once
  (\<open>Walk\<close>); the search of the issue stage for a unit's queue goes round the queues of a class
  once, and has as many steps.  Every other loop of the code is a fold over a list or a structural recursion, so the
  operations are total up to an abort, and the absence of aborts is proved where an invariant gives it.

  \<^bold>\<open>Not modelled.\<close>  The trace database and the signals written to it, since they do not
  affect the processor's state; where the arguments of a trace call read the bus, as in
  \<open>fetch.cpp\<close>, the reads are kept because they can abort.  The debug console of
  \<open>main.cpp\<close> and its telnet and socket threads, which run between the cycles: \<open>core_cycle\<close> is
  the turn of the loop without them.  The program file: \<open>init()\<close> takes its bytes as an argument.
  The console queues of the \<open>charfifo\<close> register are lists whose other end belongs to another
  thread.  The vendored libraries, the SystemVerilog sources, the test benches and the software for
  the processor are not part of the C++ model.
\<close>

section \<open>An aligned access never aborts\<close>

text \<open>The regions of the address map begin and end at multiples of four.\<close>

lemma start_regions:
  assumes "bus_layout b = bus_layout bus_start" "i < length (slave_info_list b)"
  shows "4 dvd unat (si_base (slave_info_list b ! i)) \<and> 4 dvd unat (si_size (slave_info_list b ! i))"
proof -
  have "map (\<lambda>e. (si_base e, si_size e, dev_kind (si_slave e))) (slave_info_list b) = [(0x80000000, 1048576, True), (0x20000000, 0x10000, False)]"
    using assms(1) by (simp add: bus_layout_def bus_start_props(4))
  then obtain e f where "slave_info_list b = [e, f]" "si_base e = 0x80000000" "si_size e = 1048576" "si_base f = 0x20000000" "si_size f = 0x10000"
    by (auto simp: map_eq_Cons_conv)
  with assms(2) show ?thesis by (auto simp: less_Suc_eq)
qed

text \<open>An aligned address of a device has room for the whole access; where there is no device, a read
  gives zero.\<close>

lemma aligned_read:
  assumes "bus_inv b" "bus_layout b = bus_layout bus_start" "n = 1 \<or> n = 2 \<or> n = (4 :: u32)" "bus_check_align a n"
  shows "\<exists>v. bus_read (unat n) a b = Some (v, b)"
proof (cases "bus_find_slave_info b a")
  case None
  then show ?thesis by (simp add: bus_read_eq)
next
  case (Some i)
  let ?e = "slave_info_list b ! i" and ?n = "unat n"
  have l: "i < length (slave_info_list b)" "unat a \<in> region ?e" using bus_find_unique [OF assms(1)] Some by blast+
  note e = bus_inv_nth [OF assms(1) l(1)]
  have n: "?n = 1 \<or> ?n = 2 \<or> ?n = 4" "?n dvd 4" using assms(3) by auto
  have da: "?n dvd unat a" using assms(4) align_iff [OF n(1), of a] by (simp add: bus_check_align_def)
  have f: "?n dvd unat (si_base ?e)" "?n dvd unat (si_size ?e)" using start_regions [OF assms(2) l(1)] n(2) dvd_trans by blast+
  have r: "unat (a - si_base ?e) = unat a - unat (si_base ?e)" "unat (si_base ?e) \<le> unat a" "unat a < unat (si_base ?e) + unat (si_size ?e)"
    using l(2) by (simp_all add: region_def unat_sub word_le_nat_alt)
  have d: "?n dvd unat (a - si_base ?e)" "unat (a - si_base ?e) < unat (si_size ?e)"
    unfolding r(1) using da f(1) r(2,3) by (simp_all add: dvd_diff_nat less_diff_conv2)
  then obtain j m where "unat (a - si_base ?e) = ?n * j" "unat (si_size ?e) = ?n * m" using f(2) by (auto elim!: dvdE)
  moreover have "0 < ?n" using n(1) by auto
  ultimately have "unat (a - si_base ?e) + ?n \<le> unat (si_size ?e)"
    using d(2) by (metis Suc_leI add.commute mult_Suc_right mult_less_cancel1 mult_le_mono2)
  with d(1) have "access_ok (dev_size (si_slave ?e)) ?n (a - si_base ?e)" by (simp add: access_ok_def e(3))
  with dev_read_quiet [OF e(2) n(1), of "a - si_base ?e"] Some bus_upd_same [OF l(1)] show ?thesis by (simp add: bus_read_eq)
qed

lemma aligned_load:
  assumes "bus_inv b" "bus_layout b = bus_layout bus_start" "sb_inv sb" "n = 1 \<or> n = 2 \<or> n = (4 :: u32)" "bus_check_align a n"
  shows "\<exists>v. lsu_load n a b sb = Some (v, b)"
  using aligned_read [OF assms(1,2,4,5)] sb_feedback_items assms(3) by (auto simp: lsu_load_def sb_inv_def)

section \<open>From the decoder to the execution units\<close>

text \<open>The unit that the decoder names for an instruction returns on it: its switch has a case for the
  member of the \<open>sub_op\<close> union that was written, and a load finds its device.\<close>

definition unit_returns :: "csrfile \<Rightarrow> lsu_state \<Rightarrow> bus \<Rightarrow> store_buffer \<Rightarrow> issue_execute_pack_t \<Rightarrow> bool" where
  "unit_returns f l b sb s = (case p_op_unit s of
       Unit_alu \<Rightarrow> alu_compute s \<noteq> None
     | Unit_mul \<Rightarrow> mul_compute s \<noteq> None
     | Unit_div \<Rightarrow> div_compute s \<noteq> None
     | Unit_bru \<Rightarrow> bru_compute f s \<noteq> None
     | Unit_csr \<Rightarrow> csr_compute f s \<noteq> None
     | Unit_lsu \<Rightarrow> lsu_compute s l b sb \<noteq> None)"

fun fits :: "op_unit_t \<Rightarrow> sub_op_t \<Rightarrow> bool" where
  "fits Unit_alu x = (as_alu x \<noteq> None)"
| "fits Unit_mul x = (as_mul x \<noteq> None)"
| "fits Unit_div x = (as_div x \<noteq> None)"
| "fits Unit_bru x = (as_bru x \<noteq> None)"
| "fits Unit_csr x = (as_csr x \<noteq> None)"
| "fits Unit_lsu x = (as_lsu x \<noteq> None)"

lemma table_fits: "list_all (\<lambda>(m, v, x, u, y). fits u y) rv_table"
  by (simp add: rv_table_def)

lemma lookup_fits:
  assumes "rv_lookup w = Some (x, u, y)"
  shows "fits u y"
proof -
  obtain m v where "find (\<lambda>(m, v, r). w AND m = v) rv_table = Some (m, v, x, u, y)"
    using assms by (auto simp: rv_lookup_def)
  then have "(m, v, x, u, y) \<in> set rv_table" by (auto simp: find_Some_iff in_set_conv_nth)
  with table_fits show ?thesis by (auto simp: list_all_iff)
qed

lemma accepted_fits: "rv_accepted w = Some (x, u, y) \<Longrightarrow> fits u y"
  using lookup_fits [of w x u y] by (auto simp: rv_accepted_def split: if_splits)

lemma decoded_fits:
  assumes "decode_pack r = Some p" "p_valid p"
  shows "fits (p_op_unit p) (p_sub_op p)"
proof (cases "fd_enable r")
  case True
  from decode_pack_says [OF this] assms(1) have "table_says (fd_value r) (\<not> fd_has_exception r) p" by simp
  with assms(2) show ?thesis by (auto simp: table_says_def accepted_fits split: option.splits)
next
  case False
  with assms show ?thesis by (auto simp: decode_pack_def decode_rename_zero_def)
qed

lemma csrfile_boot_mepc: "csr_map_table csrfile_init CSR_MEPC \<noteq> None"
  using csrfile_init_lookup [of CSR_MEPC False mepc] by (simp add: csr_init_list_def csr_named_list_def)

lemma units_total:
  "alu_accepts s \<Longrightarrow> alu_compute s \<noteq> None" "mul_accepts s \<Longrightarrow> mul_compute s \<noteq> None"
  "div_accepts s \<Longrightarrow> div_compute s \<noteq> None" "bru_accepts f s \<Longrightarrow> bru_compute f s \<noteq> None"
  "csr_accepts s \<Longrightarrow> csr_compute f s \<noteq> None"
  using alu.computes [of s] mul.computes [of s] dv.computes [of s] bru.computes [of f s] csru.computes [of s f] by auto

lemma fits_accepts:
  assumes "p_valid s \<Longrightarrow> fits (p_op_unit s) (p_sub_op s)" "csr_map_table f CSR_MEPC \<noteq> None"
  shows "p_op_unit s = Unit_alu \<Longrightarrow> alu_accepts s" "p_op_unit s = Unit_mul \<Longrightarrow> mul_accepts s"
    "p_op_unit s = Unit_div \<Longrightarrow> div_accepts s" "p_op_unit s = Unit_bru \<Longrightarrow> bru_accepts f s"
    "p_op_unit s = Unit_csr \<Longrightarrow> csr_accepts s"
  using assms by (auto simp: alu_accepts_def mul_accepts_def div_accepts_def bru_accepts_def csr_accepts_def)

lemma lsu_compute_returns:
  assumes "bus_inv b" "bus_layout b = bus_layout bus_start" "sb_inv sb"
    and "p_valid s \<Longrightarrow> \<exists>op. p_sub_op s = Lsu_op op \<and> (p_has_exception s \<or> bus_check_align (p_lsu_addr s) (lsu_width op))"
  shows "lsu_compute s l b sb \<noteq> None"
proof (cases "p_valid s \<and> \<not> p_has_exception s")
  case True
  then obtain op where op: "p_sub_op s = Lsu_op op" "bus_check_align (p_lsu_addr s) (lsu_width op)" using assms(4) by blast
  have "lsu_width op = 1 \<or> lsu_width op = 2 \<or> lsu_width op = 4" by (cases op) simp_all
  from aligned_load [OF assms(1-3) this op(2)] obtain v where "lsu_load (lsu_width op) (p_lsu_addr s) b sb = Some (v, b)" by blast
  then have "lsu_switch op s (l, b, sb, exec_receive s) \<noteq> None"
    using sign_extend_total [of 8 v] sign_extend_total [of 16 v] by (cases op) (auto split: prod.splits)
  with op(1) show ?thesis by (simp add: lsu_compute_def Let_def)
next
  case False
  then show ?thesis by (auto simp: lsu_compute_def Let_def)
qed

text \<open>The issue stage sets the address of a load or store and takes it out of the unit's hands when it
  is misaligned; the other packets it passes on as they are.\<close>

lemma issue_pack_fits:
  assumes "p_valid x \<Longrightarrow> fits (p_op_unit x) (p_sub_op x)"
  obtains s where "issue_pack x = Some s" "p_valid s = p_valid x" "p_op_unit s = p_op_unit x" "p_sub_op s = p_sub_op x"
    "p_valid x \<Longrightarrow> p_op_unit x = Unit_lsu \<Longrightarrow> \<exists>op. p_sub_op x = Lsu_op op \<and> p_lsu_addr s = p_src1_value x + p_imm x
       \<and> p_has_exception s = (\<not> bus_check_align (p_lsu_addr s) (lsu_width op))"
proof (cases "p_valid x \<and> p_op_unit x = Unit_lsu")
  case True
  with assms obtain op where "p_sub_op x = Lsu_op op" by (cases "p_sub_op x") auto
  with True that show thesis by (simp add: issue_pack_def Let_def readreg_issue_op_info_t.defs issue_execute_pack_t.defs)
next
  case False
  with that show thesis by (auto simp: issue_pack_def Let_def readreg_issue_op_info_t.defs issue_execute_pack_t.defs)
qed

lemma fits_returns:
  assumes "p_valid s \<Longrightarrow> fits (p_op_unit s) (p_sub_op s)" "csr_map_table f CSR_MEPC \<noteq> None"
    and "p_op_unit s = Unit_lsu \<Longrightarrow> lsu_compute s l b sb \<noteq> None"
  shows "unit_returns f l b sb s"
  using fits_accepts [OF assms(1,2)] units_total(1-3) [of s] units_total(4) [of f s] units_total(5) [of s f] assms(3)
  by (cases "p_op_unit s") (simp_all add: unit_returns_def)

text \<open>C40: what the decoder writes, the execution units can run.  Every packet that leaves the decoder,
  of any fetched word and with or without a fetch exception, names a unit that returns on it, whatever
  operand values it has when the issue stage sends it: no unit reaches a missing case of its switch,
  none reads another member of the \<open>sub_op\<close> union than the decoder wrote, and no load or store
  stops in the assertions of a device, because the issue stage marks exactly the misaligned addresses
  with an exception and an aligned access of the address map made at start-up stays inside its device.
  The register numbers of the packet are architectural registers, zero never needing a mapping or a
  renaming.  The map of control and status registers is the one made at start-up.\<close>

theorem decoded_ops_fit_units:
  assumes "decode_pack r = Some p" "csrfile_boot = Some f"
    and "p_valid x = p_valid p" "p_op_unit x = p_op_unit p" "p_sub_op x = p_sub_op p"
    and "bus_inv b" "bus_layout b = bus_layout bus_start" "sb_inv sb"
  shows "decoded_ok p \<and> (\<exists>s. issue_pack x = Some s \<and> unit_returns f l b sb s
    \<and> (p_valid p \<and> p_op_unit p = Unit_lsu \<longrightarrow> (\<exists>op. p_sub_op p = Lsu_op op \<and> p_lsu_addr s = p_src1_value x + p_imm x
         \<and> p_has_exception s = (\<not> bus_check_align (p_lsu_addr s) (lsu_width op)))))"
proof -
  have fx: "fits (p_op_unit x) (p_sub_op x)" if "p_valid x" using decoded_fits [OF assms(1)] assms(3-5) that by simp
  obtain s where s: "issue_pack x = Some s" "p_valid s = p_valid x" "p_op_unit s = p_op_unit x" "p_sub_op s = p_sub_op x"
    "p_valid x \<Longrightarrow> p_op_unit x = Unit_lsu \<Longrightarrow> \<exists>op. p_sub_op x = Lsu_op op \<and> p_lsu_addr s = p_src1_value x + p_imm x
       \<and> p_has_exception s = (\<not> bus_check_align (p_lsu_addr s) (lsu_width op))"
    using issue_pack_fits [OF fx] by metis
  have "csr_map_table f CSR_MEPC \<noteq> None" using csrfile_boot_mepc csrfile_boot_init assms(2) by (metis option.inject)
  moreover have "lsu_compute s l b sb \<noteq> None" if "p_op_unit s = Unit_lsu"
    by (rule lsu_compute_returns [OF assms(6-8)]) (use s that in auto)
  moreover have "fits (p_op_unit s) (p_sub_op s)" if "p_valid s" using fx that s(2-4) by simp
  ultimately have "unit_returns f l b sb s" by (intro fits_returns)
  with s(1,5) decode_pack_regs [OF assms(1)] assms(3-5) show ?thesis by auto
qed

text \<open>A load of a word at an address that is not aligned.\<close>

lemma rv_accepted_lw: "f_opcode w = 0x03 \<Longrightarrow> f_funct3 w = 2 \<Longrightarrow> rv_accepted w = Some (Op_lw, Unit_lsu, Lsu_op Lsu_lw)"
  by (simp add: rv_accepted_def reserved_jalr_def reserved_fence_def rv_lookup_def rv_table_def rows)

theorem decoded_ops_fit_units_witness:
  "\<exists>p f s. decode_pack (fetched 0x0005a503) = Some p \<and> csrfile_boot = Some f \<and> p_valid p \<and> p_op_unit p = Unit_lsu \<and> decoded_ok p
     \<and> issue_pack (readreg_issue_op_info_t.truncate ((exec_demo (p_sub_op p) 0x80000002 0)\<lparr>p_op_unit := Unit_lsu\<rparr>)) = Some s
     \<and> p_has_exception s \<and> unit_returns f lsu_new bus_start sb_demo s"
proof -
  obtain p where p: "decode_pack (fetched 0x0005a503) = Some p" "table_says 0x0005a503 True p"
    using decode_pack_says [of "fetched 0x0005a503"] by auto
  have "rv_accepted 0x0005a503 = Some (Op_lw, Unit_lsu, Lsu_op Lsu_lw)" by (rule rv_accepted_lw) simp_all
  with p(2) have v: "p_valid p" "p_op_unit p = Unit_lsu" "p_sub_op p = Lsu_op Lsu_lw" by (simp_all add: table_says_def)
  let ?x = "readreg_issue_op_info_t.truncate ((exec_demo (p_sub_op p) 0x80000002 0)\<lparr>p_op_unit := Unit_lsu\<rparr>)"
  have x: "p_valid ?x = p_valid p" "p_op_unit ?x = p_op_unit p" "p_sub_op ?x = p_sub_op p" "p_src1_value ?x = 0x80000002" "p_imm ?x = 0"
    using v by (simp_all add: exec_demo_def execute_wb_zero_def readreg_issue_op_info_t.defs)
  from decoded_ops_fit_units [OF p(1) csrfile_boot_init x(1-3) bus_start_props(2) refl sb_demo_inv, of lsu_new] obtain s where
    "decoded_ok p" "issue_pack ?x = Some s" "unit_returns csrfile_init lsu_new bus_start sb_demo s"
    "p_has_exception s = (\<not> bus_check_align 0x80000002 (lsu_width Lsu_lw))" using v x(4,5) by auto
  moreover have "\<not> bus_check_align 0x80000002 (lsu_width Lsu_lw)" by (simp add: bus_check_align_def)
  ultimately show ?thesis using p(1) csrfile_boot_init v(1,2) by blast
qed

end
